(* ===== verification/Prelude.thy ===== *)
theory Prelude
  imports Main "HOL-Library.Word"
begin

text \<open>
  The prelude of the development: the machine integers of the C program, the ways an operation of
  the program can fail, the sequencing of fallible operations, and the facts about words, bits and
  lists that the components share.

  The model is of the 64-bit x86 build: \<open>long\<close>, \<open>size_t\<close>, pointers and physical addresses are
  64 bits wide, \<open>int\<close> is 32 bits wide and \<open>char\<close> is signed.
\<close>

unbundle bit_operations_syntax

section \<open>Machine integers\<close>

type_synonym u8 = "8 word"
type_synonym u16 = "16 word"
type_synonym u32 = "32 word"
type_synonym u64 = "64 word"

section \<open>Fallible operations\<close>

text \<open>
  What stops an operation: a failed \<open>assert\<close>, a call of \<open>abort\<close>, an access outside a fixed
  array of the program, a variable argument read at the wrong type or past the last one, a NULL
  dereference, an access through the page tables that faults, a division by zero, or a loop that does
  not end.
\<close>

datatype err = Assert_failed | Aborted | Out_of_bounds | Bad_vararg | Null_deref | Page_fault | Divide_error | Diverges

definition bindE :: "err + 'a \<Rightarrow> ('a \<Rightarrow> err + 'b) \<Rightarrow> err + 'b" where
  "bindE r f = (case r of Inl e \<Rightarrow> Inl e | Inr x \<Rightarrow> f x)"

definition assertE :: "bool \<Rightarrow> err + unit" where
  "assertE b = (if b then Inr () else Inl Assert_failed)"

text \<open>A loop given by \<open>partial_function (option)\<close> returns \<open>None\<close> when it does not end.\<close>

definition loopE :: "'a option \<Rightarrow> err + 'a" where
  "loopE r = (case r of None \<Rightarrow> Inl Diverges | Some x \<Rightarrow> Inr x)"

named_theorems errE "rules for sequencing fallible operations"

lemma bindE_Inl [simp]: "bindE (Inl e) f = Inl e"
  by (simp add: bindE_def)

lemma bindE_Inr [simp]: "bindE (Inr x) f = f x"
  by (simp add: bindE_def)

lemma bindE_eq_Inr [errE]: "bindE r f = Inr y \<longleftrightarrow> (\<exists>x. r = Inr x \<and> f x = Inr y)"
  by (cases r) (auto simp: bindE_def)

lemma bindE_eq_Inl [errE]:
  "bindE r f = Inl e \<longleftrightarrow> r = Inl e \<or> (\<exists>x. r = Inr x \<and> f x = Inl e)"
  by (cases r) (auto simp: bindE_def)

lemma bindE_assoc: "bindE (bindE r f) g = bindE r (\<lambda>x. bindE (f x) g)"
  by (cases r) simp_all

lemma assertE_simps [simp]:
  "assertE True = Inr ()" "assertE False = Inl Assert_failed"
  by (simp_all add: assertE_def)

lemma assertE_eq_Inr [simp]: "assertE b = Inr u \<longleftrightarrow> b"
  by (simp add: assertE_def)

lemma assertE_eq_Inl [simp]: "assertE b = Inl e \<longleftrightarrow> \<not> b \<and> e = Assert_failed"
  by (auto simp: assertE_def)

lemma bindE_assertE: "bindE (assertE b) f = (if b then f () else Inl Assert_failed)"
  by simp

lemma loopE_simps [simp]: "loopE None = Inl Diverges" "loopE (Some x) = Inr x"
  by (simp_all add: loopE_def)

lemma loopE_eq_Inr [errE]: "loopE r = Inr x \<longleftrightarrow> r = Some x"
  by (cases r) simp_all

section \<open>Words and bits\<close>

named_theorems wordarith "arithmetic of machine words over the naturals"

lemma len_words [simp]:
  "LENGTH(64) = 64" "LENGTH(32) = 32" "LENGTH(16) = 16" "LENGTH(8) = 8"
  by simp_all

lemma unat_lt_64 [simp]: "unat (w :: u64) < 18446744073709551616"
  using unsigned_less [of w] by simp

lemma unat_add_noov [wordarith]:
  fixes a b :: u64
  assumes "unat a + unat b < 2 ^ 64"
  shows "unat (a + b) = unat a + unat b"
  using assms by (simp add: unat_word_ariths)

lemma unat_sub_le [wordarith]:
  fixes a b :: u64
  assumes "b \<le> a"
  shows "unat (a - b) = unat a - unat b"
  using assms by (simp add: unat_sub)

lemma unat_inc_lt [wordarith]: "i < (n :: u64) \<Longrightarrow> unat (i + 1) = Suc (unat i)"
proof -
  assume "i < n"
  then have "unat i + unat (1 :: u64) < 2 ^ 64"
    using unat_lt_64 [of n] by (simp add: word_less_nat_alt del: unat_lt_64)
  then show "unat (i + 1) = Suc (unat i)" using unat_add_noov [of i 1] by simp
qed

lemma unat_dec [wordarith]: "(n :: u64) \<noteq> 0 \<Longrightarrow> unat (n - 1) = unat n - 1"
  by (rule unat_minus_one)

lemma unat_dec_less: "(n :: u64) \<noteq> 0 \<Longrightarrow> unat (n - 1) < unat n"
  by (rule measure_unat)

lemma unat_of_nat_64 [wordarith]: "n < 2 ^ 64 \<Longrightarrow> unat (of_nat n :: u64) = n"
  by (simp add: unat_of_nat)

lemma of_nat_eq_64:
  assumes "i < 2 ^ 64" "j < 2 ^ 64" "(of_nat i :: u64) = of_nat j"
  shows "i = j"
  using assms by (metis unat_of_nat_64)

lemma unat_power2_64: "k < 64 \<Longrightarrow> unat ((2 :: u64) ^ k) = 2 ^ k"
proof -
  assume "k < 64"
  then have "(2 :: nat) ^ k < 2 ^ 64" by (intro power_strict_increasing) simp_all
  then have "unat (of_nat (2 ^ k) :: u64) = 2 ^ k" by (rule unat_of_nat_64)
  then show "unat ((2 :: u64) ^ k) = 2 ^ k" by simp
qed

text \<open>The bits of a mask, of its complement, and a word below a power of two.\<close>

lemma bit_mask_64: "bit (mask k :: u64) i \<longleftrightarrow> i < k \<and> i < 64"
  by (auto simp: bit_simps)

lemma word_and_mask_0_iff:
  fixes w :: u64
  shows "w AND mask k = 0 \<longleftrightarrow> (\<forall>i < k. i < 64 \<longrightarrow> \<not> bit w i)"
proof
  assume 0: "w AND mask k = 0"
  show "\<forall>i < k. i < 64 \<longrightarrow> \<not> bit w i"
  proof (intro allI impI)
    fix i assume "i < k" "i < 64"
    have "\<not> bit (w AND mask k) i" by (simp add: 0)
    with \<open>i < k\<close> \<open>i < 64\<close> show "\<not> bit w i" by (simp add: bit_simps)
  qed
next
  assume "\<forall>i < k. i < 64 \<longrightarrow> \<not> bit w i"
  then show "w AND mask k = 0" by (intro bit_word_eqI) (auto simp: bit_simps)
qed

lemma push_bit_not0_and_0_iff:
  fixes w :: u64
  shows "w AND push_bit n (NOT 0) = 0 \<longleftrightarrow> (\<forall>i < 64. n \<le> i \<longrightarrow> \<not> bit w i)"
proof
  assume 0: "w AND push_bit n (NOT 0) = 0"
  show "\<forall>i < 64. n \<le> i \<longrightarrow> \<not> bit w i"
  proof (intro allI impI)
    fix i assume "i < 64" "n \<le> i"
    have "\<not> bit (w AND push_bit n (NOT 0)) i" by (simp only: 0 bit_0_eq bot_apply) simp
    with \<open>i < 64\<close> \<open>n \<le> i\<close> show "\<not> bit w i" by (simp add: bit_simps)
  qed
next
  assume "\<forall>i < 64. n \<le> i \<longrightarrow> \<not> bit w i"
  then show "w AND push_bit n (NOT 0) = 0" by (intro bit_word_eqI) (auto simp: bit_simps)
qed

end
