(* ===== verification/Libcflat.thy ===== *)
theory Libcflat
  imports Prelude
begin

text \<open>
  The macros and inline functions of \<open>lib/libcflat.h\<close> and \<open>lib/bitops.h\<close> the rest of the library
  computes with: alignment, powers of two, contiguous bit masks, and the index of the last set bit.
  The bit search is modelled in both forms of the header, the portable chain of halvings and the
  one that counts leading zeroes; the two agree on every non-zero word.
\<close>

section \<open>Alignment\<close>

definition ALIGN_MASK :: "u64 \<Rightarrow> u64 \<Rightarrow> u64" where
  "ALIGN_MASK x m = (x + m) AND NOT m"

definition ALIGN :: "u64 \<Rightarrow> u64 \<Rightarrow> u64" where
  "ALIGN x a = ALIGN_MASK x (a - 1)"

definition IS_ALIGNED :: "u64 \<Rightarrow> u64 \<Rightarrow> bool" where
  "IS_ALIGNED x a \<longleftrightarrow> x AND (a - 1) = 0"

definition is_power_of_2 :: "u64 \<Rightarrow> bool" where
  "is_power_of_2 n \<longleftrightarrow> n \<noteq> 0 \<and> n AND (n - 1) = 0"

section \<open>Contiguous masks\<close>

definition GENMASK_ULL :: "nat \<Rightarrow> nat \<Rightarrow> u64" where
  "GENMASK_ULL h l = push_bit l (NOT 0) AND drop_bit (64 - 1 - h) (NOT 0)"

section \<open>The last set bit\<close>

text \<open>
  One halving of \<open>fls\<close>: when the top \<open>k\<close> bits of \<open>word\<close> are clear, the candidate index goes down
  by \<open>k\<close> and the word is shifted up. The loop-free chain below is the body of the function.
\<close>

definition fls_halve :: "nat \<Rightarrow> int \<times> u64 \<Rightarrow> int \<times> u64" where
  "fls_halve k = (\<lambda>(num, word).
     if word AND push_bit (64 - k) (NOT 0) = 0 then (num - int k, push_bit k word)
     else (num, word))"

definition fls :: "u64 \<Rightarrow> u64" where
  "fls word = (
     let s = fls_halve 32 (63, word);
         s = fls_halve 16 s;
         s = fls_halve 8 s;
         s = fls_halve 4 s;
         (num, word) = fls_halve 2 s;
         num = (if word AND push_bit 63 (NOT 0) = 0 then num - 1 else num)
     in word_of_int num)"

text \<open>\<open>__builtin_clzl\<close>: the zeroes above the last set bit.\<close>

fun clz_from :: "nat \<Rightarrow> u64 \<Rightarrow> nat" where
  "clz_from 0 w = 0"
| "clz_from (Suc i) w = (if bit w i then 0 else Suc (clz_from i w))"

definition builtin_clzl :: "u64 \<Rightarrow> nat" where
  "builtin_clzl w = clz_from 64 w"

definition fls_builtin :: "u64 \<Rightarrow> u64" where
  "fls_builtin word = 64 - of_nat (builtin_clzl word) - 1"

section \<open>Facts about alignment\<close>

text \<open>
  A power of two below \<open>2 ^ 64\<close> as an alignment: the macros compute with \<open>mask k\<close>.
\<close>

lemma pow2_minus_1: "k < 64 \<Longrightarrow> (2 :: u64) ^ k - 1 = mask k"
  by (simp add: mask_eq_exp_minus_1)

lemma IS_ALIGNED_pow2: "k < 64 \<Longrightarrow> IS_ALIGNED x (2 ^ k) \<longleftrightarrow> x AND mask k = 0"
  by (simp add: IS_ALIGNED_def pow2_minus_1)

lemma IS_ALIGNED_dvd: "k < 64 \<Longrightarrow> IS_ALIGNED x (2 ^ k) \<longleftrightarrow> 2 ^ k dvd unat x"
  by (simp add: IS_ALIGNED_pow2 and_mask_dvd_nat)

lemma and_not_mask_unat: "unat ((x :: u64) AND NOT (mask k)) = unat x - unat x mod 2 ^ k"
proof -
  have "x AND NOT (mask k) = x - (x AND mask k)"
  proof -
    have "x AND NOT (mask k) = push_bit k (drop_bit k x)"
      by (intro bit_word_eqI) (auto simp: bit_simps)
    also have "\<dots> = x - take_bit k x" using bits_ident [of k x] by (simp add: algebra_simps)
    finally show ?thesis by (simp add: take_bit_eq_mask)
  qed
  moreover have "x AND mask k \<le> x" by (simp add: word_and_le2)
  ultimately have "unat (x AND NOT (mask k)) = unat x - unat (x AND mask k)"
    by (simp add: unat_sub)
  moreover have "unat (x AND mask k) = unat x mod 2 ^ k"
    by (simp flip: take_bit_eq_mask add: unsigned_take_bit_eq) (simp add: take_bit_eq_mod)
  ultimately show ?thesis by simp
qed

lemma ALIGN_unat:
  assumes "k < 64" "unat x + (2 ^ k - 1) < 2 ^ 64"
  shows "unat (ALIGN x (2 ^ k)) = (unat x + (2 ^ k - 1)) div 2 ^ k * 2 ^ k"
proof -
  have m: "unat (mask k :: u64) = 2 ^ k - 1"
    using assms(1) by (simp add: unat_sub unat_power2_64 mask_eq_exp_minus_1 word_le_nat_alt)
  have "unat (x + mask k) = unat x + (2 ^ k - 1)"
    using assms m by (subst unat_add_noov) simp_all
  then show ?thesis
    using assms(1)
    by (simp add: ALIGN_def ALIGN_MASK_def pow2_minus_1 and_not_mask_unat minus_mod_eq_div_mult)
qed

text \<open>
  \<open>ALIGN(x, a)\<close> for a power of two \<open>a\<close>, where the addition does not wrap, is the least
  multiple of \<open>a\<close> that is not below \<open>x\<close>.
\<close>

theorem ALIGN_least_multiple:
  assumes "k < 64" "unat x + (2 ^ k - 1) < 2 ^ 64"
  shows "IS_ALIGNED (ALIGN x (2 ^ k)) (2 ^ k) \<and> x \<le> ALIGN x (2 ^ k) \<and>
    (\<forall>y. IS_ALIGNED y (2 ^ k) \<and> x \<le> y \<longrightarrow> ALIGN x (2 ^ k) \<le> y)"
proof -
  let ?d = "2 ^ k :: nat"
  have d: "0 < ?d" by simp
  have le: "n \<le> (n + (?d - 1)) div ?d * ?d" for n
    using div_mult_mod_eq [of "n + (?d - 1)" ?d] mod_less_divisor [OF d, of "n + (?d - 1)"]
    by linarith
  have least: "(n + (?d - 1)) div ?d * ?d \<le> q * ?d" if "n \<le> q * ?d" for n q
  proof -
    have "(n + (?d - 1)) div ?d \<le> (q * ?d + (?d - 1)) div ?d"
      using that by (intro div_le_mono) simp
    also have "\<dots> = q" using d by (subst div_mult_self3) auto
    finally show ?thesis by simp
  qed
  show ?thesis
    using assms le least
    by (auto simp: IS_ALIGNED_dvd ALIGN_unat word_le_nat_alt dvd_def mult.commute)
qed

lemma ALIGN_least_multiple_witness:
  "ALIGN 0x1234 (2 ^ 12) = 0x2000 \<and> IS_ALIGNED (ALIGN 0x1234 (2 ^ 12)) (2 ^ 12)"
  using ALIGN_least_multiple [of 12 "0x1234"]
  by (simp add: ALIGN_def ALIGN_MASK_def IS_ALIGNED_def)

section \<open>Powers of two\<close>

lemma odd_part: "0 < n \<Longrightarrow> \<exists>k q. n = 2 ^ k * (2 * q + 1)" for n :: nat
proof (induction n rule: less_induct)
  case (less n)
  show ?case
  proof (cases "even n")
    case True
    then obtain m where m: "n = 2 * m" by (elim evenE)
    with less obtain k q where "m = 2 ^ k * (2 * q + 1)" by (metis mult_2 less_add_same_cancel1 nat_0_less_mult_iff)
    with m show ?thesis by (intro exI [of _ "Suc k"] exI [of _ q]) simp
  next
    case False
    then obtain q where "n = 2 * q + 1" by (elim oddE)
    then show ?thesis by (intro exI [of _ 0] exI [of _ q]) simp
  qed
qed

lemma unat_drop_bit_64: "unat (drop_bit k (w :: u64)) = unat w div 2 ^ k"
proof -
  have "take_bit 64 (unat w) = unat w" by (simp add: take_bit_nat_eq_self)
  then show ?thesis by (simp add: unsigned_drop_bit_eq) (simp add: drop_bit_eq_div)
qed

text \<open>Above its lowest set bit a word and its predecessor agree.\<close>

lemma drop_bit_pred:
  fixes n :: u64
  assumes "unat n = 2 ^ k * (2 * q + 1)"
  shows "unat (drop_bit (Suc k) (n AND (n - 1))) = q"
proof -
  have "0 < unat n" using assms by simp
  then have pos: "1 \<le> n" by (simp add: word_le_nat_alt Suc_leI del: unat_gt_0)
  have n1: "unat (n - 1) = (2 ^ k - 1) + 2 ^ Suc k * q"
    using assms pos by (simp add: unat_sub algebra_simps)
  have nn: "unat n = 2 ^ k + 2 ^ Suc k * q" using assms by (simp add: algebra_simps)
  have lt: "2 ^ k - 1 < (2 :: nat) ^ Suc k" "2 ^ k < (2 :: nat) ^ Suc k"
    by (simp_all add: less_imp_diff_less)
  have div: "(r + 2 ^ Suc k * q) div 2 ^ Suc k = q" if "r < 2 ^ Suc k" for r :: nat
    using that by (subst div_mult_self2) simp_all
  have "unat (drop_bit (Suc k) (n - 1)) = q" "unat (drop_bit (Suc k) n) = q"
    by (simp_all only: unat_drop_bit_64 n1 nn div [OF lt(1)] div [OF lt(2)])
  then have "drop_bit (Suc k) (n - 1) = drop_bit (Suc k) n" by (simp add: word_unat_eq_iff)
  then show ?thesis using \<open>unat (drop_bit (Suc k) n) = q\<close> by (simp add: drop_bit_and)
qed

lemma is_power_of_2_pow: "k < 64 \<Longrightarrow> is_power_of_2 (2 ^ k)"
proof -
  assume k: "k < 64"
  have "(2 :: u64) ^ k AND (2 ^ k - 1) = 0"
    using k by (intro bit_word_eqI) (auto simp: pow2_minus_1 bit_simps)
  moreover have "(2 :: u64) ^ k \<noteq> 0" using k by (simp add: word_unat_eq_iff unat_power2_64)
  ultimately show "is_power_of_2 (2 ^ k)" by (simp add: is_power_of_2_def)
qed

lemma is_power_of_2_cases:
  assumes p: "is_power_of_2 n"
  obtains k where "k < 64" "n = 2 ^ k"
proof -
  have "0 < unat n" using p by (simp add: is_power_of_2_def unat_gt_0)
  then obtain k q where n: "unat n = 2 ^ k * (2 * q + 1)" using odd_part by blast
  have "q = 0"
    using p unfolding drop_bit_pred [OF n, symmetric] by (simp add: is_power_of_2_def del: drop_bit_and)
  with n have n: "unat n = 2 ^ k" by simp
  have "k < 64"
  proof (rule ccontr)
    assume "\<not> k < 64"
    then have "(2 :: nat) ^ 64 \<le> 2 ^ k" by (intro power_increasing) simp_all
    with unat_lt_64 [of n] n show False by simp
  qed
  moreover from this n have "n = 2 ^ k" by (simp add: word_unat_eq_iff unat_power2_64)
  ultimately show thesis using that by blast
qed

text \<open>
  \<open>is_power_of_2\<close> decides whether its argument is one of the 64 powers of two.
\<close>

theorem is_power_of_2_iff: "is_power_of_2 n \<longleftrightarrow> (\<exists>k < 64. n = 2 ^ k)"
  using is_power_of_2_pow is_power_of_2_cases by blast

section \<open>The bit search\<close>

text \<open>\<open>num\<close> is a candidate for the index of the last set bit of \<open>w\<close>, which is among its last
  \<open>k\<close> candidates, and \<open>word\<close> is \<open>w\<close> with the candidate shifted to the top.\<close>

definition fls_inv :: "u64 \<Rightarrow> nat \<Rightarrow> int \<times> u64 \<Rightarrow> bool" where
  "fls_inv w k = (\<lambda>(num, word). \<exists>n \<le> 63. num = int n \<and> word = push_bit (63 - n) w \<and>
     (\<forall>i > n. \<not> bit w i) \<and> (\<exists>i \<ge> 64 - k. i < 64 \<and> bit word i))"

lemma fls_inv_halve:
  assumes inv: "fls_inv w m s" and m: "m = 2 * k"
  shows "fls_inv w k (fls_halve k s)"
proof -
  obtain n i where s: "s = (int n, push_bit (63 - n) w)" and n: "n \<le> 63"
    and top: "\<And>i. i > n \<Longrightarrow> \<not> bit w i"
    and i: "i \<ge> 64 - 2 * k" "i < 64" "bit (push_bit (63 - n) w) i"
    using inv m by (cases s) (auto simp: fls_inv_def)
  show ?thesis
  proof (cases "push_bit (63 - n) w AND push_bit (64 - k) (NOT 0) = 0")
    case True
    then have clear: "\<And>j. \<lbrakk>64 - k \<le> j; j < 64\<rbrakk> \<Longrightarrow> \<not> bit (push_bit (63 - n) w) j"
      by (simp only: push_bit_not0_and_0_iff) blast
    have ik: "i < 64 - k" using clear i by (meson not_le)
    have bi: "63 - n \<le> i" "bit w (i - (63 - n))" using i by (auto simp: bit_simps)
    have kn: "k \<le> n" using ik bi n by linarith
    have "\<not> bit w j" if "j > n - k" for j
    proof (cases "j > n")
      case False
      then show ?thesis using clear [of "j + (63 - n)"] that n kn by (auto simp: bit_simps)
    qed (simp add: top)
    moreover have "push_bit k (push_bit (63 - n) w) = push_bit (63 - (n - k)) w"
      using kn n by (simp add: ac_simps)
    moreover have "bit (push_bit (63 - (n - k)) w) (i + k)"
      using bi ik kn n by (auto simp: bit_simps)
    moreover have "fls_halve k s = (int (n - k), push_bit k (push_bit (63 - n) w))"
      using True s kn by (simp add: fls_halve_def)
    moreover have "64 - k \<le> i + k" "i + k < 64" "n - k \<le> 63" using i ik n by simp_all
    ultimately show ?thesis unfolding fls_inv_def by auto
  next
    case False
    then obtain j where "64 - k \<le> j" "j < 64" "bit (push_bit (63 - n) w) j"
      by (simp only: push_bit_not0_and_0_iff) blast
    moreover have "fls_halve k s = s" using False s by (simp add: fls_halve_def)
    ultimately show ?thesis unfolding fls_inv_def using s n top by auto
  qed
qed

lemma fls_inv_start: "w \<noteq> 0 \<Longrightarrow> fls_inv w 64 (63, w)"
proof -
  assume "w \<noteq> 0"
  then obtain i where i: "bit w i" by (auto simp: bit_eq_iff)
  moreover have "\<not> bit w j" if "63 < j" for j using that by (simp add: impossible_bit)
  moreover have "i < 64" using bit_imp_le_length [OF i] by simp
  ultimately show ?thesis unfolding fls_inv_def prod.case
    by (intro exI [of _ "63 :: nat"]) auto
qed

lemma fls_inv_fls:
  assumes "w \<noteq> 0"
  obtains n where "n \<le> 63" "fls w = of_nat n" "bit w n" "\<And>i. i > n \<Longrightarrow> \<not> bit w i"
proof -
  let ?s = "fls_halve 2 (fls_halve 4 (fls_halve 8 (fls_halve 16 (fls_halve 32 (63, w)))))"
  have inv: "fls_inv w 1 (fls_halve 1 ?s)"
    by (rule fls_inv_halve [where m = 2], rule fls_inv_halve [where m = 4],
        rule fls_inv_halve [where m = 8], rule fls_inv_halve [where m = 16],
        rule fls_inv_halve [where m = 32], rule fls_inv_halve [where m = 64],
        rule fls_inv_start [OF assms]) simp_all
  obtain num word where s: "?s = (num, word)" by fastforce
  have fls: "fls w = word_of_int (fst (fls_halve 1 ?s))"
  proof -
    have "fst (fls_halve 1 (num, word)) = (if word AND push_bit 63 (NOT 0) = 0 then num - 1 else num)"
      by (simp add: fls_halve_def)
    then show ?thesis by (simp only: fls_def Let_def s prod.case)
  qed
  obtain a b where "fls_halve 1 ?s = (a, b)" by fastforce
  with inv obtain n i where n: "n \<le> 63" "fst (fls_halve 1 ?s) = int n"
    and top: "\<And>i. i > n \<Longrightarrow> \<not> bit w i" and i: "63 \<le> i" "i < 64" "bit (push_bit (63 - n) w) i"
    by (auto simp: fls_inv_def)
  then have "i = 63" by simp
  with i n have "bit w n" by (auto simp: bit_simps)
  with n top fls that show thesis by simp
qed

text \<open>
  for a non-zero word, \<open>fls\<close> is the index of a set bit above which no bit is set, and the
  word lies between that power of two and the next.
\<close>

theorem fls_last_set:
  assumes "w \<noteq> 0"
  shows "unat (fls w) < 64 \<and> bit w (unat (fls w)) \<and> (\<forall>i > unat (fls w). \<not> bit w i)"
proof -
  obtain n where n: "n \<le> 63" "fls w = of_nat n" "bit w n" "\<And>i. i > n \<Longrightarrow> \<not> bit w i"
    using fls_inv_fls [OF assms] by blast
  then have "unat (fls w) = n" by (simp add: unat_of_nat_64)
  with n show ?thesis by auto
qed

lemma fls_last_set_witness: "unat (fls 0x1234) < 64 \<and> fls 0x1234 = 12 \<and> bit (0x1234 :: u64) 12"
proof -
  have "fls 0x1234 = 12" "(0x1234 :: u64) \<noteq> 0" by code_simp+
  then show ?thesis using fls_last_set [of "0x1234"] by auto
qed

lemma bit_imp_pow_le: "bit (m :: nat) n \<Longrightarrow> 2 ^ n \<le> m"
  by (rule ccontr) (simp add: bit_iff_odd)

text \<open>The word as a number, from the index of its last set bit.\<close>

lemma fls_bounds:
  assumes "w \<noteq> 0"
  shows "2 ^ unat (fls w) \<le> unat w" "unat w < 2 ^ Suc (unat (fls w))" "unat (fls w) \<le> 63"
proof -
  obtain n where n: "n \<le> 63" "fls w = of_nat n" "bit w n" "\<And>i. i > n \<Longrightarrow> \<not> bit w i"
    using fls_inv_fls [OF assms] by blast
  then have u: "unat (fls w) = n" by (simp add: unat_of_nat_64)
  have "take_bit (Suc n) w = w" using n(4) by (intro bit_word_eqI) (auto simp: bit_simps less_Suc_eq_le not_less [symmetric])
  then have "unat w = take_bit (Suc n) (unat w)" by (metis unsigned_take_bit_eq)
  then show "unat w < 2 ^ Suc (unat (fls w))" using u by (metis take_bit_nat_less_exp)
  have "bit (unat w) n" using n by (simp add: bit_unsigned_iff)
  then show "2 ^ unat (fls w) \<le> unat w" using u by (metis bit_imp_pow_le)
  show "unat (fls w) \<le> 63" using u n by simp
qed

text \<open>The two definitions of \<open>fls\<close> in the header, for hosts without and with the builtin.\<close>

lemma clz_from_last:
  assumes "bit w n" "n < m" "\<And>i. i > n \<Longrightarrow> \<not> bit w i"
  shows "clz_from m w = m - 1 - n"
  using assms(2)
proof (induction m)
  case (Suc m)
  then show ?case using assms(1,3) by (cases "n = m") (auto simp: Suc_diff_Suc)
qed simp

text \<open>
  the portable bit search of \<open>fls\<close> and the one by \<open>__builtin_clzl\<close> agree on every
  non-zero word.
\<close>

theorem fls_eq_builtin:
  assumes "w \<noteq> 0"
  shows "fls w = fls_builtin w"
proof -
  obtain n where n: "n \<le> 63" "fls w = of_nat n" "bit w n" "\<And>i. i > n \<Longrightarrow> \<not> bit w i"
    using fls_inv_fls [OF assms] by blast
  then have "builtin_clzl w = 63 - n" by (simp add: builtin_clzl_def clz_from_last)
  with n show ?thesis by (simp add: fls_builtin_def of_nat_diff)
qed

lemma fls_eq_builtin_witness: "fls 0x1234 = fls_builtin 0x1234"
  by (rule fls_eq_builtin) simp

section \<open>Contiguous masks\<close>

text \<open>
  \<open>GENMASK_ULL(h, l)\<close> has exactly the bits \<open>l\<close> to \<open>h\<close>.
\<close>

theorem GENMASK_ULL_bits:
  assumes "h < 64"
  shows "bit (GENMASK_ULL h l) i \<longleftrightarrow> l \<le> i \<and> i \<le> h"
  using assms by (auto simp: GENMASK_ULL_def bit_simps)

lemma GENMASK_ULL_bits_witness:
  "GENMASK_ULL 39 21 = 0x000000ffffe00000 \<and> (bit (GENMASK_ULL 39 21) 30 \<longleftrightarrow> 21 \<le> (30 :: nat) \<and> (30 :: nat) \<le> 39)"
proof -
  have "GENMASK_ULL 39 21 = 0x000000ffffe00000" by code_simp
  then show ?thesis using GENMASK_ULL_bits [of 39 21 30] by simp
qed

end
