(* ===== verification/CString.thy ===== *)
theory CString
  imports Libcflat "HOL-Library.Sublist"
begin

text \<open>
  The string and memory functions of \<open>lib/string.c\<close> and \<open>parse_keyval\<close> of \<open>lib/util.c\<close>, over a
  byte-addressed memory. A loop of the source that only ends at a particular byte of memory is a
  \<open>partial_function (option)\<close>: \<open>None\<close> is a run that does not return. A loop with a counter is a
  \<open>function\<close> that ends because the counter does. Pointers are addresses, NULL is 0, \<open>char\<close> is
  signed, so a difference of two characters is the difference of their signed values.
\<close>

type_synonym mem = "u64 \<Rightarrow> u8"

section \<open>Strings\<close>

partial_function (option) strlen_loop :: "mem \<Rightarrow> u64 \<Rightarrow> u64 \<Rightarrow> u64 option" where
  "strlen_loop m buf len =
     (if m buf \<noteq> 0 then strlen_loop m (buf + 1) (len + 1) else Some len)"

definition strlen :: "mem \<Rightarrow> u64 \<Rightarrow> u64 option" where
  "strlen m buf = strlen_loop m buf 0"

partial_function (option) skip_string :: "mem \<Rightarrow> u64 \<Rightarrow> u64 option" where
  "skip_string m p = (if m p \<noteq> 0 then skip_string m (p + 1) else Some p)"

partial_function (option) copy_string :: "mem \<Rightarrow> u64 \<Rightarrow> u64 \<Rightarrow> mem option" where
  "copy_string m p src =
     (let c = m src; m' = m(p := c)
      in if c \<noteq> 0 then copy_string m' (p + 1) (src + 1) else Some m')"

definition strcat :: "mem \<Rightarrow> u64 \<Rightarrow> u64 \<Rightarrow> (mem \<times> u64) option" where
  "strcat m dest src =
     Option.bind (skip_string m dest) (\<lambda>p.
     Option.bind (copy_string m p src) (\<lambda>m'. Some (m', dest)))"

definition strcpy :: "mem \<Rightarrow> u64 \<Rightarrow> u64 \<Rightarrow> (mem \<times> u64) option" where
  "strcpy m dest src = strcat (m(dest := 0)) dest src"

function strncmp :: "mem \<Rightarrow> u64 \<Rightarrow> u64 \<Rightarrow> u64 \<Rightarrow> int" where
  "strncmp m a b n =
     (if n = 0 then 0
      else if m a \<noteq> m b \<or> m a = 0 then sint (m a) - sint (m b)
      else strncmp m (a + 1) (b + 1) (n - 1))"
  by pat_completeness auto
termination by (relation "measure (\<lambda>(m, a, b, n). unat n)") (auto intro: measure_unat)

definition SIZE_MAX :: u64 where
  "SIZE_MAX = - 1"

definition strcmp :: "mem \<Rightarrow> u64 \<Rightarrow> u64 \<Rightarrow> int" where
  "strcmp m a b = strncmp m a b SIZE_MAX"

partial_function (option) strchr_loop :: "mem \<Rightarrow> u64 \<Rightarrow> u8 \<Rightarrow> u64 option" where
  "strchr_loop m s c =
     (if m s \<noteq> c then (if m s = 0 then Some 0 else strchr_loop m (s + 1) c) else Some s)"

definition strchr :: "mem \<Rightarrow> u64 \<Rightarrow> u32 \<Rightarrow> u64 option" where
  "strchr m s c = strchr_loop m s (ucast c)"

section \<open>Blocks of memory\<close>

function memset_loop :: "mem \<Rightarrow> u64 \<Rightarrow> u8 \<Rightarrow> u64 \<Rightarrow> u64 \<Rightarrow> mem" where
  "memset_loop m a c i n =
     (if i < n then memset_loop (m(a + i := c)) a c (i + 1) n else m)"
  by pat_completeness auto
termination
  by (relation "measure (\<lambda>(m, a, c, i, n). unat n - unat i)")
     (auto simp: word_less_nat_alt unat_inc_lt)

definition memset :: "mem \<Rightarrow> u64 \<Rightarrow> u32 \<Rightarrow> u64 \<Rightarrow> mem \<times> u64" where
  "memset m s c n = (memset_loop m s (ucast c) 0 n, s)"

function memcpy_loop :: "mem \<Rightarrow> u64 \<Rightarrow> u64 \<Rightarrow> u64 \<Rightarrow> u64 \<Rightarrow> mem" where
  "memcpy_loop m a b i n =
     (if i < n then memcpy_loop (m(a + i := m (b + i))) a b (i + 1) n else m)"
  by pat_completeness auto
termination
  by (relation "measure (\<lambda>(m, a, b, i, n). unat n - unat i)")
     (auto simp: word_less_nat_alt unat_inc_lt)

definition memcpy :: "mem \<Rightarrow> u64 \<Rightarrow> u64 \<Rightarrow> u64 \<Rightarrow> mem \<times> u64" where
  "memcpy m dest src n = (memcpy_loop m dest src 0 n, dest)"

function memcmp :: "mem \<Rightarrow> u64 \<Rightarrow> u64 \<Rightarrow> u64 \<Rightarrow> int" where
  "memcmp m a b n =
     (if n = 0 then 0
      else let ret = uint (m a) - uint (m b)
           in if ret \<noteq> 0 then ret else memcmp m (a + 1) (b + 1) (n - 1))"
  by pat_completeness auto
termination by (relation "measure (\<lambda>(m, a, b, n). unat n)") (auto intro: measure_unat)

function move_up :: "mem \<Rightarrow> u64 \<Rightarrow> u64 \<Rightarrow> u64 \<Rightarrow> mem" where
  "move_up m d s n =
     (if n = 0 then m else move_up (m(d := m s)) (d + 1) (s + 1) (n - 1))"
  by pat_completeness auto
termination by (relation "measure (\<lambda>(m, d, s, n). unat n)") (auto intro: measure_unat)

function move_down :: "mem \<Rightarrow> u64 \<Rightarrow> u64 \<Rightarrow> u64 \<Rightarrow> mem" where
  "move_down m d s n =
     (if n = 0 then m else move_down (m(d - 1 := m (s - 1))) (d - 1) (s - 1) (n - 1))"
  by pat_completeness auto
termination by (relation "measure (\<lambda>(m, d, s, n). unat n)") (auto intro: measure_unat)

definition memmove :: "mem \<Rightarrow> u64 \<Rightarrow> u64 \<Rightarrow> u64 \<Rightarrow> mem \<times> u64" where
  "memmove m dest src n =
     (if dest \<le> src then (move_up m dest src n, dest)
      else (move_down m (dest + n) (src + n) n, dest))"

function memchr_loop :: "mem \<Rightarrow> u64 \<Rightarrow> u8 \<Rightarrow> u64 \<Rightarrow> u64" where
  "memchr_loop m str chr n =
     (if n = 0 then 0
      else if m str = chr then str + 1 - 1
      else memchr_loop m (str + 1) chr (n - 1))"
  by pat_completeness auto
termination by (relation "measure (\<lambda>(m, str, chr, n). unat n)") (auto intro: measure_unat)

definition memchr :: "mem \<Rightarrow> u64 \<Rightarrow> u32 \<Rightarrow> u64 \<Rightarrow> u64" where
  "memchr m s c n = memchr_loop m s (ucast c) n"

declare strncmp.simps [simp del] memset_loop.simps [simp del] memcpy_loop.simps [simp del]
  memcmp.simps [simp del] move_up.simps [simp del] move_down.simps [simp del]
  memchr_loop.simps [simp del]

section \<open>Searching\<close>

partial_function (option) strstr_loop :: "mem \<Rightarrow> u64 \<Rightarrow> u64 \<Rightarrow> u64 \<Rightarrow> u64 \<Rightarrow> u64 option" where
  "strstr_loop m s1 s2 l1 l2 =
     (if l2 \<le> l1 then
        if memcmp m s1 s2 l2 = 0 then Some s1
        else strstr_loop m (s1 + 1) s2 (l1 - 1) l2
      else Some 0)"

definition strstr :: "mem \<Rightarrow> u64 \<Rightarrow> u64 \<Rightarrow> u64 option" where
  "strstr m s1 s2 =
     Option.bind (strlen m s2) (\<lambda>l2.
     if l2 = 0 then Some s1
     else Option.bind (strlen m s1) (\<lambda>l1. strstr_loop m s1 s2 l1 l2))"

section \<open>Numbers and the environment\<close>

text \<open>
  \<open>acc\<close> is a \<open>long\<close>; an accumulation outside its range is undefined in C and wraps here.
\<close>

partial_function (option) atol_blanks :: "mem \<Rightarrow> u64 \<Rightarrow> u64 option" where
  "atol_blanks m s = (if m s = 32 \<or> m s = 9 then atol_blanks m (s + 1) else Some s)"

partial_function (option) atol_digits :: "mem \<Rightarrow> u64 \<Rightarrow> u64 \<Rightarrow> u64 option" where
  "atol_digits m s acc =
     (if m s \<noteq> 0 then
        if m s <s 48 \<or> 57 <s m s then Some acc
        else let c = ucast (m s) - 48 in atol_digits m (s + 1) (acc * 10 + c)
      else Some acc)"

definition atol :: "mem \<Rightarrow> u64 \<Rightarrow> u64 option" where
  "atol m ptr =
     Option.bind (atol_blanks m ptr) (\<lambda>s.
     let (neg, s) = (if m s = 45 then (True, s + 1)
                     else (False, if m s = 43 then s + 1 else s))
     in Option.bind (atol_digits m s 0) (\<lambda>acc.
        Some (if neg then - acc else acc)))"

text \<open>An aligned pointer in memory, eight bytes in little-endian order.\<close>

definition ldptr :: "mem \<Rightarrow> u64 \<Rightarrow> u64" where
  "ldptr m a = ucast (m a) OR push_bit 8 (ucast (m (a + 1))) OR push_bit 16 (ucast (m (a + 2)))
     OR push_bit 24 (ucast (m (a + 3))) OR push_bit 32 (ucast (m (a + 4)))
     OR push_bit 40 (ucast (m (a + 5))) OR push_bit 48 (ucast (m (a + 6)))
     OR push_bit 56 (ucast (m (a + 7)))"

partial_function (option) getenv_loop :: "mem \<Rightarrow> u64 \<Rightarrow> u64 \<Rightarrow> u64 option" where
  "getenv_loop m envp name =
     (if ldptr m envp \<noteq> 0 then
        Option.bind (strchr m (ldptr m envp) 61) (\<lambda>delim.
        if delim \<noteq> 0 \<and> strncmp m name (ldptr m envp) (delim - ldptr m envp) = 0
        then Some (delim + 1)
        else getenv_loop m (envp + 8) name)
      else Some 0)"

definition getenv :: "mem \<Rightarrow> u64 \<Rightarrow> u64 \<Rightarrow> u64 option" where
  "getenv m environ name = getenv_loop m environ name"

definition parse_keyval :: "mem \<Rightarrow> u64 \<Rightarrow> (u64 option \<times> u32) option" where
  "parse_keyval m s =
     Option.bind (strchr m s 61) (\<lambda>p.
     if p = 0 then Some (None, - 1)
     else Option.bind (atol m (p + 1)) (\<lambda>val. Some (Some val, ucast (p - s))))"

section \<open>Globs\<close>

text \<open>
  \<open>copy\<close> is the address the automatic array \<open>copy[n + 1]\<close> has on the stack. The function is split
  where it copies the pattern: the first part strips a leading \<open>*\<close>, the rest copies what is left,
  strips a trailing \<open>*\<close> from the copy, and compares.
\<close>

definition glob_rest :: "mem \<Rightarrow> u64 \<Rightarrow> u64 \<Rightarrow> u64 \<Rightarrow> bool \<Rightarrow> u64 \<Rightarrow> bool option" where
  "glob_rest m text pattern n star_start copy =
     Option.bind (strcpy m copy pattern) (\<lambda>(m, _).
     let (n, m, star_end) =
           (if 0 < n \<and> m (pattern + (n - 1)) = 42 then (n - 1, m(copy + (n - 1) := 0), True)
            else (n, m, False))
     in if star_start \<and> star_end then map_option (\<lambda>p. p \<noteq> 0) (strstr m text copy)
        else if star_end then map_option (\<lambda>p. p = text) (strstr m text copy)
        else if star_start then
          Option.bind (strlen m text) (\<lambda>text_len.
          if text_len < n then Some False
          else let suffix = text + text_len - n in Some (strcmp m suffix copy = 0))
        else Some (strcmp m text copy = 0))"

definition simple_glob :: "mem \<Rightarrow> u64 \<Rightarrow> u64 \<Rightarrow> u64 \<Rightarrow> bool option" where
  "simple_glob m text pattern copy =
     Option.bind (strlen m pattern) (\<lambda>n.
     if m pattern = 42 then glob_rest m text (pattern + 1) (n - 1) True copy
     else glob_rest m text pattern n False copy)"

declare strlen_loop.simps [code]
  skip_string.simps [code]
  copy_string.simps [code]
  strchr_loop.simps [code]
  strstr_loop.simps [code]
  atol_blanks.simps [code]
  atol_digits.simps [code]
  getenv_loop.simps [code]

section \<open>Memory that holds a string\<close>

text \<open>
  \<open>cstr m a s\<close>: the bytes \<open>s\<close>, none of them NUL, stand at \<open>a\<close> with a NUL after them.
  \<open>put m a xs\<close> is memory after writing \<open>xs\<close> at \<open>a\<close>, \<open>addrs a n\<close> the \<open>n\<close> addresses from \<open>a\<close>.
\<close>

fun cstr :: "mem \<Rightarrow> u64 \<Rightarrow> u8 list \<Rightarrow> bool" where
  "cstr m a [] \<longleftrightarrow> m a = 0"
| "cstr m a (c # s) \<longleftrightarrow> m a = c \<and> c \<noteq> 0 \<and> cstr m (a + 1) s"

fun put :: "mem \<Rightarrow> u64 \<Rightarrow> u8 list \<Rightarrow> mem" where
  "put m a [] = m"
| "put m a (x # xs) = put (m(a := x)) (a + 1) xs"

definition addrs :: "u64 \<Rightarrow> nat \<Rightarrow> u64 set" where
  "addrs a n = (\<lambda>i. a + of_nat i) ` {..<n}"

lemma addrs_0 [simp]: "addrs a 0 = {}"
  by (simp add: addrs_def)

lemma addrs_Suc: "addrs a (Suc n) = insert a (addrs (a + 1) n)"
  by (simp only: addrs_def lessThan_Suc_eq_insert_0) (auto simp: image_image ac_simps)

lemma addrs_mono: "n \<le> k \<Longrightarrow> addrs a n \<subseteq> addrs a k"
  by (auto simp: addrs_def)

lemma addrs_shift: "k + n \<le> m \<Longrightarrow> addrs (a + of_nat k) n \<subseteq> addrs a m"
  by (auto simp: addrs_def image_iff ac_simps intro!: bexI [of _ "k + _"])

lemma addrs_iff_less:
  assumes "n \<le> 2 ^ 64"
  shows "x \<in> addrs a n \<longleftrightarrow> unat (x - a) < n"
proof
  assume "x \<in> addrs a n"
  then obtain i where "i < n" "x = a + of_nat i" by (auto simp: addrs_def)
  with assms show "unat (x - a) < n" by (simp add: unat_of_nat_64)
next
  assume "unat (x - a) < n"
  moreover have "x = a + of_nat (unat (x - a))" by simp
  ultimately show "x \<in> addrs a n" unfolding addrs_def by blast
qed

lemma addrs_disjointI:
  assumes "n \<le> unat (b - a)" "k \<le> unat (a - b)"
  shows "addrs a n \<inter> addrs b k = {}"
proof (rule ccontr)
  assume "addrs a n \<inter> addrs b k \<noteq> {}"
  then obtain i j where i: "i < n" and j: "j < k" and eq: "a + of_nat i = b + of_nat j"
    by (auto simp: addrs_def)
  show False
  proof (cases "j \<le> i")
    case True
    with eq have "b - a = of_nat (i - j)" by (simp add: of_nat_diff algebra_simps)
    moreover have "unat (of_nat (i - j) :: u64) \<le> i - j" by (simp add: unat_of_nat take_bit_nat_less_eq_self)
    ultimately show False using assms(1) i by simp
  next
    case False
    with eq have "a - b = of_nat (j - i)" by (simp add: of_nat_diff algebra_simps)
    moreover have "unat (of_nat (j - i) :: u64) \<le> j - i" by (simp add: unat_of_nat take_bit_nat_less_eq_self)
    ultimately show False using assms(2) j by simp
  qed
qed

lemma start_notin_addrs: "n < 2 ^ 64 \<Longrightarrow> a \<notin> addrs (a + 1) n"
proof
  assume n: "n < 2 ^ 64" and "a \<in> addrs (a + 1) n"
  then have "unat (a - (a + 1)) < n" by (simp add: addrs_iff_less)
  moreover have "unat (a - (a + 1)) = 2 ^ 64 - 1"
    by (simp add: unsigned_minus_1_eq_mask mask_eq_exp_minus_1)
  ultimately show False using n by linarith
qed

lemma cstr_nul: "cstr m a s \<Longrightarrow> m (a + of_nat (length s)) = 0"
  by (induction s arbitrary: a) (auto simp flip: add.assoc)

lemma cstr_nonnul: "cstr m a s \<Longrightarrow> 0 \<notin> set s"
  by (induction s arbitrary: a) auto

lemma cstr_nth: "\<lbrakk>cstr m a s; i < length s\<rbrakk> \<Longrightarrow> m (a + of_nat i) = s ! i"
  by (induction s arbitrary: a i) (auto simp: nth_Cons simp flip: add.assoc split: nat.splits)

lemma cstr_drop: "\<lbrakk>cstr m a s; i \<le> length s\<rbrakk> \<Longrightarrow> cstr m (a + of_nat i) (drop i s)"
proof (induction s arbitrary: a i)
  case (Cons c s)
  then show ?case by (cases i) (auto simp flip: add.assoc)
qed simp

lemma cstr_inj: "\<lbrakk>cstr m a s; cstr m a t\<rbrakk> \<Longrightarrow> s = t"
proof (induction s arbitrary: a t)
  case Nil
  then show ?case by (cases t) auto
next
  case (Cons c s)
  then show ?case by (cases t) auto
qed

lemma cstr_frame:
  assumes "cstr m a s" "\<And>x. x \<in> addrs a (Suc (length s)) \<Longrightarrow> m' x = m x"
  shows "cstr m' a s"
  using assms
proof (induction s arbitrary: a)
  case (Cons c s)
  have "m' x = m x" if "x \<in> addrs (a + 1) (Suc (length s))" for x
    using Cons.prems(2) that by (simp add: addrs_Suc [of a])
  then have "cstr m' (a + 1) s" using Cons.IH Cons.prems(1) by simp
  with Cons.prems show ?case by (auto simp: addrs_Suc)
qed (simp add: addrs_Suc)

lemma put_other: "x \<notin> addrs a (length xs) \<Longrightarrow> put m a xs x = m x"
  by (induction xs arbitrary: m a) (auto simp: addrs_Suc)

lemma put_append: "put m a (xs @ ys) = put (put m a xs) (a + of_nat (length xs)) ys"
  by (induction xs arbitrary: m a) (auto simp: ac_simps)

lemma cstr_put:
  assumes "0 \<notin> set s" "length s < 2 ^ 64"
  shows "cstr (put m a (s @ [0])) a s"
  using assms
proof (induction s arbitrary: m a)
  case (Cons c s)
  have "a \<notin> addrs (a + 1) (length (s @ [0]))" using Cons.prems by (intro start_notin_addrs) simp
  then have "put (m(a := c)) (a + 1) (s @ [0]) a = c" by (simp add: put_other)
  with Cons show ?case by simp
qed simp

section \<open>What the string functions compute\<close>

lemma strlen_loop_cstr: "cstr m a s \<Longrightarrow> strlen_loop m a n = Some (n + of_nat (length s))"
proof (induction s arbitrary: a n)
  case Nil
  then show ?case by (subst strlen_loop.simps) simp
next
  case (Cons c s)
  then show ?case by (subst strlen_loop.simps) (simp add: ac_simps)
qed

lemma strlen_cstr [simp]: "cstr m a s \<Longrightarrow> strlen m a = Some (of_nat (length s))"
  by (simp add: strlen_def strlen_loop_cstr)

lemma skip_string_cstr: "cstr m a s \<Longrightarrow> skip_string m a = Some (a + of_nat (length s))"
proof (induction s arbitrary: a)
  case Nil
  then show ?case by (subst skip_string.simps) simp
next
  case (Cons c s)
  then show ?case by (subst skip_string.simps) (simp add: ac_simps)
qed

lemma copy_string_cstr:
  assumes "cstr m src s"
    and "addrs p (Suc (length s)) \<inter> addrs src (Suc (length s)) = {}"
  shows "copy_string m p src = Some (put m p (s @ [0]))"
  using assms
proof (induction s arbitrary: m p src)
  case Nil
  then show ?case by (subst copy_string.simps) (simp add: Let_def)
next
  case (Cons c s)
  have "cstr (m(p := c)) (src + 1) s"
    using Cons.prems by (auto intro!: cstr_frame [of m] simp: addrs_Suc)
  moreover have "addrs (p + 1) (Suc (length s)) \<inter> addrs (src + 1) (Suc (length s)) = {}"
    using Cons.prems(2) by (auto simp: addrs_Suc)
  ultimately show ?case
    using Cons.IH [of "m(p := c)" "src + 1" "p + 1"] Cons.prems(1)
    by (subst copy_string.simps) (simp add: Let_def del: fun_upd_apply)
qed

lemma cstr_append:
  assumes "cstr m (a + of_nat (length s)) t" "0 \<notin> set s" "\<And>i. i < length s \<Longrightarrow> m (a + of_nat i) = s ! i"
  shows "cstr m a (s @ t)"
  using assms
proof (induction s arbitrary: a)
  case (Cons c s)
  have "m (a + 1 + of_nat i) = s ! i" if "i < length s" for i
    using Cons.prems(3) [of "Suc i"] that by (simp flip: add.assoc)
  moreover have "m a = c" using Cons.prems(3) [of 0] by simp
  ultimately show ?case using Cons by (auto simp flip: add.assoc)
qed simp

lemma addrs_before: "k + n \<le> 2 ^ 64 \<Longrightarrow> i < k \<Longrightarrow> a + of_nat i \<notin> addrs (a + of_nat k) n"
proof
  assume le: "k + n \<le> 2 ^ 64" "i < k" and "a + of_nat i \<in> addrs (a + of_nat k) n"
  then obtain j where j: "j < n" "a + of_nat i = a + of_nat k + (of_nat j :: u64)"
    by (auto simp: addrs_def)
  then have "(of_nat i :: u64) = of_nat (k + j)" by (simp add: algebra_simps)
  then have "i = k + j" using le j by (intro of_nat_eq_64) auto
  with le show False by simp
qed

text \<open>
  \<open>strcat\<close> of two strings that do not overlap returns its first argument, which then
  holds the concatenation, and writes only the source and its NUL after the old contents.
\<close>

theorem strcat_appends:
  assumes "cstr m dest s" "cstr m src t" "length s + length t < 2 ^ 64"
    and "addrs dest (length s + length t + 1) \<inter> addrs src (length t + 1) = {}"
  shows "\<exists>m'. strcat m dest src = Some (m', dest) \<and> cstr m' dest (s @ t) \<and>
    (\<forall>x. x \<notin> addrs (dest + of_nat (length s)) (length t + 1) \<longrightarrow> m' x = m x)"
proof -
  let ?p = "dest + of_nat (length s)" and ?m = "put m (dest + of_nat (length s)) (t @ [0])"
  have sub: "addrs ?p (Suc (length t)) \<subseteq> addrs dest (length s + length t + 1)"
    by (intro addrs_shift) simp
  then have "copy_string m ?p src = Some ?m"
    using assms by (intro copy_string_cstr) auto
  moreover have "cstr ?m dest (s @ t)"
  proof (rule cstr_append)
    show "cstr ?m ?p t" using assms cstr_nonnul by (intro cstr_put) auto
    show "0 \<notin> set s" using assms(1) by (rule cstr_nonnul)
    fix i assume "i < length s"
    then show "?m (dest + of_nat i) = s ! i"
      using assms by (simp add: put_other addrs_before cstr_nth)
  qed
  ultimately show ?thesis
    using assms(1) by (auto simp: strcat_def skip_string_cstr put_other)
qed

lemma strcat_appends_witness:
  "\<exists>m'. strcat (put (put (\<lambda>_. 0) 0x1000 [97, 98, 0]) 0x2000 [99, 0]) 0x1000 0x2000 = Some (m', 0x1000)
     \<and> cstr m' 0x1000 [97, 98, 99]"
proof -
  let ?m = "put (put (\<lambda>_. 0) 0x1000 [97, 98, 0]) 0x2000 [99, 0]"
  have "cstr ?m 0x1000 [97, 98]" "cstr ?m 0x2000 [99]" by simp_all
  moreover have "addrs 0x1000 (Suc (Suc (Suc (Suc 0)))) \<inter> addrs 0x2000 (Suc (Suc 0)) = {}"
    by (rule addrs_disjointI) simp_all
  ultimately show ?thesis using strcat_appends [of ?m "0x1000" "[97, 98]" "0x2000" "[99]"] by auto
qed

lemma strcpy_cstr:
  assumes "cstr m src s" "length s < 2 ^ 64"
    and "addrs dest (Suc (length s)) \<inter> addrs src (Suc (length s)) = {}"
  shows "strcpy m dest src = Some (put m dest (s @ [0]), dest)"
proof -
  let ?m = "m(dest := 0)"
  have src: "cstr ?m src s"
    using assms(1,3) by (auto intro!: cstr_frame [of m] simp: addrs_Suc)
  have "skip_string ?m dest = Some dest" using skip_string_cstr [of ?m dest "[]"] by simp
  moreover have "copy_string ?m dest src = Some (put ?m dest (s @ [0]))"
    using src assms(3) by (rule copy_string_cstr)
  moreover have "put ?m dest (s @ [0]) = put m dest (s @ [0])" by (cases s) simp_all
  ultimately show ?thesis by (simp add: strcpy_def strcat_def)
qed

text \<open>The order of \<open>strncmp\<close>: signed characters, the NUL at the end of a string included.\<close>

fun scmp :: "u8 list \<Rightarrow> u8 list \<Rightarrow> nat \<Rightarrow> int" where
  "scmp (x # xs) (y # ys) (Suc n) =
     (if x \<noteq> y \<or> x = 0 then sint x - sint y else scmp xs ys n)"
| "scmp _ _ _ = 0"

lemma strncmp_scmp:
  "\<lbrakk>cstr m a s; cstr m b t\<rbrakk> \<Longrightarrow> strncmp m a b n = scmp (s @ [0]) (t @ [0]) (unat n)"
proof (induction s arbitrary: a b t n)
  case Nil
  then show ?case
    by (cases t; cases "unat n") (auto simp: strncmp.simps [of m a] unat_eq_zero)
next
  case (Cons c s)
  show ?case
  proof (cases "n = 0")
    case False
    then obtain k where k: "unat n = Suc k" "unat (n - 1) = k"
      by (metis unat_dec diff_Suc_1 not0_implies_Suc unat_eq_zero)
    show ?thesis
    proof (cases t)
      case Nil
      then show ?thesis using Cons False k by (simp add: strncmp.simps [of m a])
    next
      case (Cons d t')
      then show ?thesis
        using Cons.IH [of "a + 1" "b + 1" t' "n - 1"] Cons.prems False k
        by (auto simp: strncmp.simps [of m a])
    qed
  qed (simp add: strncmp.simps [of m a])
qed

lemma sint_eq_0_8 [simp]: "sint (c :: u8) = 0 \<longleftrightarrow> c = 0"
  by (metis signed_0 signed_word_eqI)

lemma sint_eq_iff_8 [simp]: "sint (c :: u8) = sint d \<longleftrightarrow> c = d"
  by (metis signed_word_eqI)

lemma sint_pos_8: "0 < sint (c :: u8) \<longleftrightarrow> \<not> sint c < 0 \<and> c \<noteq> 0"
  by (metis less_le not_less sint_eq_0_8)

lemma scmp_eq_0:
  "\<lbrakk>0 \<notin> set s; 0 \<notin> set t\<rbrakk> \<Longrightarrow> scmp (s @ [0]) (t @ [0]) n = 0 \<longleftrightarrow> take n s = take n t"
proof (induction s arbitrary: t n)
  case Nil
  then show ?case by (cases t; cases n) auto
next
  case (Cons c s)
  then show ?case by (cases t; cases n) auto
qed

lemma scmp_less_0:
  "\<lbrakk>0 \<notin> set s; 0 \<notin> set t\<rbrakk> \<Longrightarrow>
   scmp (s @ [0]) (t @ [0]) n < 0 \<longleftrightarrow>
     ord_class.lexordp (map sint (take n (s @ [0]))) (map sint (take n (t @ [0])))"
proof (induction s arbitrary: t n)
  case Nil
  then show ?case by (cases t; cases n) (auto simp: take_Cons' sint_pos_8)
next
  case (Cons c s)
  show ?case
  proof (cases n)
    case (Suc k)
    show ?thesis
    proof (cases t)
      case Nil
      then show ?thesis using Cons.prems Suc by (cases k) (auto simp: sint_pos_8)
    next
      case (Cons d t')
      show ?thesis
      proof (cases "c = d")
        case True
        then show ?thesis using Cons.IH [of t' k] Cons.prems Cons Suc by simp
      next
        case False
        then have "sint c < sint d \<or> sint d < sint c" using neq_iff [of "sint c" "sint d"] by simp
        then show ?thesis using False Cons Suc by auto
      qed
    qed
  qed simp
qed

text \<open>
  \<open>strncmp\<close> of two strings is 0 exactly when they agree on their first \<open>n\<close> characters, and
  negative exactly when the first is lexicographically smaller there, in signed characters with
  the terminating NUL as a character.
\<close>

theorem strncmp_order:
  assumes "cstr m a s" "cstr m b t"
  shows "(strncmp m a b n = 0 \<longleftrightarrow> take (unat n) s = take (unat n) t) \<and>
    (strncmp m a b n < 0 \<longleftrightarrow>
       ord_class.lexordp (map sint (take (unat n) (s @ [0]))) (map sint (take (unat n) (t @ [0]))))"
  using assms by (simp add: strncmp_scmp scmp_eq_0 scmp_less_0 cstr_nonnul)

lemma strncmp_order_witness:
  "strncmp (put (put (\<lambda>_. 0) 0x1000 [97, 98, 0]) 0x2000 [97, 0]) 0x1000 0x2000 1 = 0"
  using strncmp_order [of "put (put (\<lambda>_. 0) 0x1000 [97, 98, 0]) 0x2000 [97, 0]" "0x1000" "[97, 98]"
      "0x2000" "[97]" 1] by simp

lemma strcmp_eq_0_iff:
  assumes "cstr m a s" "cstr m b t" "length s < 2 ^ 64 - 1" "length t < 2 ^ 64 - 1"
  shows "strcmp m a b = 0 \<longleftrightarrow> s = t"
proof -
  have "unat SIZE_MAX = 2 ^ 64 - 1"
    by (simp add: SIZE_MAX_def unsigned_minus_1_eq_mask mask_eq_exp_minus_1)
  then show ?thesis
    using assms by (simp add: strcmp_def strncmp_scmp scmp_eq_0 cstr_nonnul)
qed

section \<open>What the memory functions compute\<close>

text \<open>The block of \<open>n\<close> bytes at \<open>d\<close> holds what \<open>s\<close> held, all else is unchanged.\<close>

definition block_copied :: "mem \<Rightarrow> u64 \<Rightarrow> u64 \<Rightarrow> u64 \<Rightarrow> mem" where
  "block_copied m d s n = (\<lambda>x. if x - d < n then m (s + (x - d)) else m x)"

lemma memset_loop_eq:
  "memset_loop m a c i n = (\<lambda>x. if i \<le> x - a \<and> x - a < n then c else m x)"
proof (induction m a c i n rule: memset_loop.induct)
  case (1 m a c i n)
  show ?case
  proof (cases "i < n")
    case True
    have le: "1 + i \<le> y \<longleftrightarrow> i \<le> y \<and> i \<noteq> y" for y
      using unat_inc_lt [OF True] by (auto simp: word_le_nat_alt word_unat_eq_iff add.commute)
    have "memset_loop m a c i n = memset_loop (m(a + i := c)) a c (i + 1) n"
      using True by (subst memset_loop.simps) simp
    also note 1 [OF True]
    also have "(\<lambda>x. if i + 1 \<le> x - a \<and> x - a < n then c else (m(a + i := c)) x) =
      (\<lambda>x. if i \<le> x - a \<and> x - a < n then c else m x)"
    proof
      fix x
      have "x = a + i \<longleftrightarrow> x - a = i" by (auto simp: algebra_simps)
      then show "(if i + 1 \<le> x - a \<and> x - a < n then c else (m(a + i := c)) x) =
        (if i \<le> x - a \<and> x - a < n then c else m x)"
        using True by (auto simp: le add.commute [of i])
    qed
    finally show ?thesis .
  qed (subst memset_loop.simps, auto simp: fun_eq_iff)
qed

text \<open>
  \<open>memset\<close> sets exactly the \<open>n\<close> bytes from \<open>s\<close> on, for every \<open>n\<close>, also where the block wraps
  around the end of the address space.
\<close>

theorem memset_block: "memset m s c n = ((\<lambda>x. if x - s < n then ucast c else m x), s)"
  by (simp add: memset_def memset_loop_eq)

lemma dec_less_dec:
  fixes y n :: u64
  assumes "n \<noteq> 0"
  shows "y - 1 < n - 1 \<longleftrightarrow> y \<noteq> 0 \<and> y < n"
proof (cases "y = 0")
  case True
  have "n - 1 \<le> - 1" by (rule word_order.extremum)
  with True show ?thesis by simp
next
  case False
  then have "0 < unat y" "0 < unat n" using assms by (simp_all add: unat_gt_0)
  with False assms show ?thesis by (auto simp: word_less_nat_alt unat_dec simp del: unat_gt_0)
qed

lemma less_dec:
  fixes y n :: u64
  assumes "n \<noteq> 0"
  shows "y < n - 1 \<longleftrightarrow> y \<noteq> n - 1 \<and> y < n"
proof -
  have "0 < unat n" using assms by (simp add: unat_gt_0)
  then show ?thesis
    unfolding word_less_nat_alt word_unat_eq_iff [of y] unat_dec [OF assms] by arith
qed

lemma move_up_eq:
  assumes "d = s \<or> n \<le> d - s"
  shows "move_up m d s n = block_copied m d s n"
  using assms
proof (induction m d s n rule: move_up.induct)
  case (1 m d s n)
  show ?case
  proof (cases "n = 0")
    case False
    let ?m = "m(d := m s)"
    have "n - 1 \<le> n" using False by (simp add: word_le_nat_alt unat_dec)
    with 1(2) have "d + 1 = s + 1 \<or> n - 1 \<le> d + 1 - (s + 1)" by auto
    with False 1(1) have "move_up m d s n = block_copied ?m (d + 1) (s + 1) (n - 1)"
      by (subst move_up.simps) (simp del: fun_upd_apply)
    also have "\<dots> = block_copied m d s n"
    proof
      fix x
      have dd: "n \<le> d - s \<Longrightarrow> y < n \<Longrightarrow> s + y = d \<Longrightarrow> False" for y
      proof -
        assume "n \<le> d - s" "y < n" "s + y = d"
        then have "d - s = y" by (metis add_diff_cancel_left')
        with \<open>n \<le> d - s\<close> \<open>y < n\<close> show False by simp
      qed
      have "x - d < n \<Longrightarrow> x \<noteq> d \<Longrightarrow> s + (x - d) = d \<Longrightarrow> s = d"
        using 1(2) dd by blast
      moreover have "x - (d + 1) < n - 1 \<longleftrightarrow> x \<noteq> d \<and> x - d < n"
        using dec_less_dec [of n "x - d"] False by (simp add: diff_diff_eq)
      moreover have "s + 1 + (x - (d + 1)) = s + (x - d)" by simp
      moreover have "x - d < n" if "x = d" using False that by (simp add: word_neq_0_conv)
      ultimately show "block_copied ?m (d + 1) (s + 1) (n - 1) x = block_copied m d s n x"
        by (auto simp: block_copied_def)
    qed
    finally show ?thesis .
  qed (subst move_up.simps, simp add: block_copied_def)
qed

lemma move_down_eq:
  assumes "d = s \<or> n \<le> s - d"
  shows "move_down m (d + n) (s + n) n = block_copied m d s n"
  using assms
proof (induction "unat n" arbitrary: m n)
  case 0
  then show ?case by (subst move_down.simps) (simp add: block_copied_def unat_eq_zero)
next
  case (Suc k)
  then have n: "n \<noteq> 0" by auto
  let ?m = "m(d + (n - 1) := m (s + (n - 1)))"
  have "k = unat (n - 1)" using Suc.hyps(2) n by (simp add: unat_dec)
  moreover have "n - 1 \<le> n" using n by (simp add: word_le_nat_alt unat_dec)
  ultimately have "move_down ?m (d + (n - 1)) (s + (n - 1)) (n - 1) = block_copied ?m d s (n - 1)"
    using Suc.prems by (intro Suc.hyps(1)) auto
  then have "move_down m (d + n) (s + n) n = block_copied ?m d s (n - 1)"
    using n by (subst move_down.simps) (simp add: algebra_simps)
  also have "\<dots> = block_copied m d s n"
  proof
    fix x
    have "s = d" if lt: "x - d < n - 1" and eq: "s + (x - d) = d + (n - 1)"
    proof -
      define y where "y = x - d"
      with eq have "s + y = d + (n - 1)" by simp
      then have "s = d + (n - 1) - y" by (metis add_diff_cancel_right')
      then have "s - d = (n - 1) - y" by simp
      moreover have "y \<le> n - 1" using lt by (simp add: y_def)
      ultimately have "unat (s - d) = unat n - 1 - unat y" using n by (simp add: unat_sub unat_dec)
      then have "unat (s - d) < unat n" using n unat_gt_0 [of n] by simp
      then show ?thesis using Suc.prems by (auto simp: word_le_nat_alt)
    qed
    moreover have "x = d + (n - 1) \<longleftrightarrow> x - d = n - 1" by (auto simp: algebra_simps)
    moreover have "n - 1 < n" using n by (simp add: word_less_nat_alt unat_dec unat_gt_0)
    ultimately show "block_copied ?m d s (n - 1) x = block_copied m d s n x"
      using n by (auto simp: block_copied_def less_dec)
  qed
  finally show ?case .
qed

text \<open>
  C18: \<open>memmove\<close> of blocks that lie inside the address space leaves at the destination what the
  source held before, however the two blocks overlap, and changes nothing else.
\<close>

theorem memmove_overlap:
  assumes "unat src + unat n \<le> 2 ^ 64" "unat dest + unat n \<le> 2 ^ 64"
  shows "memmove m dest src n = (block_copied m dest src n, dest)"
proof (cases "dest \<le> src")
  case True
  have "dest = src \<or> n \<le> dest - src"
  proof (cases "dest = src")
    case False
    with True have "unat (dest - src) = 2 ^ 64 + unat dest - unat src"
      by (auto simp: unat_sub_if_size word_size word_le_nat_alt word_unat_eq_iff)
    then have "unat n \<le> unat (dest - src)" using assms(1) by linarith
    then show ?thesis by (simp add: word_le_nat_alt)
  qed simp
  then show ?thesis using True by (simp add: memmove_def move_up_eq)
next
  case False
  then have "unat (src - dest) = 2 ^ 64 + unat src - unat dest"
    by (simp add: unat_sub_if_size word_size word_le_nat_alt)
  then have "unat n \<le> unat (src - dest)" using assms(2) by linarith
  then have "n \<le> src - dest" by (simp add: word_le_nat_alt)
  then show ?thesis using False by (simp add: memmove_def move_down_eq)
qed

lemma memmove_overlap_witness:
  "fst (memmove (put (\<lambda>_. 0) 0x1000 [1, 2, 3]) 0x1001 0x1000 3) 0x1003 = 3"
  using memmove_overlap [of "0x1000" 3 "0x1001" "put (\<lambda>_. 0) 0x1000 [1, 2, 3]"]
  by (simp add: block_copied_def)

text \<open>\<open>memcpy\<close> copies upwards, like \<open>memmove\<close> to a lower address.\<close>

lemma memcpy_loop_move_up:
  "i \<le> n \<Longrightarrow> memcpy_loop m a b i n = move_up m (a + i) (b + i) (n - i)"
proof (induction m a b i n rule: memcpy_loop.induct)
  case (1 m a b i n)
  show ?case
  proof (cases "i < n")
    case True
    have "i + 1 \<le> n" using True unat_inc_lt [OF True] by (simp add: word_le_nat_alt word_less_nat_alt)
    then have "memcpy_loop m a b i n = move_up (m(a + i := m (b + i))) (a + (i + 1)) (b + (i + 1)) (n - (i + 1))"
      using 1 True by (subst memcpy_loop.simps) (simp del: fun_upd_apply)
    also have "\<dots> = move_up m (a + i) (b + i) (n - i)"
    proof -
      have "n - i \<noteq> 0" using True by simp
      then show ?thesis by (subst (2) move_up.simps) (simp del: right_minus_eq add: algebra_simps)
    qed
    finally show ?thesis .
  next
    case False
    with 1(2) have "i = n" by simp
    then show ?thesis by (subst memcpy_loop.simps, subst move_up.simps) simp
  qed
qed

text \<open>
  \<open>memcpy\<close> between blocks that do not overlap copies the source block.
\<close>

theorem memcpy_disjoint:
  assumes "n \<le> dest - src"
  shows "memcpy m dest src n = (block_copied m dest src n, dest)"
  using assms memcpy_loop_move_up [of 0 n m dest src] by (simp add: memcpy_def move_up_eq)

lemma memcpy_disjoint_witness:
  "fst (memcpy (put (\<lambda>_. 0) 0x1000 [1, 2, 3]) 0x2000 0x1000 3) 0x2002 = 3"
  using memcpy_disjoint [of 3 "0x2000" "0x1000" "put (\<lambda>_. 0) 0x1000 [1, 2, 3]"]
  by (simp add: block_copied_def)

lemma memcmp_eq_0:
  "memcmp m a b n = 0 \<longleftrightarrow> (\<forall>i < unat n. m (a + of_nat i) = m (b + of_nat i))"
proof (induction m a b n rule: memcmp.induct)
  case (1 m a b n)
  show ?case
  proof (cases "n = 0")
    case False
    then have "unat n = Suc (unat (n - 1))" using unat_gt_0 [of n] by (simp add: unat_dec del: unat_gt_0)
    then have split: "(\<forall>i < unat n. m (a + of_nat i) = m (b + of_nat i)) \<longleftrightarrow>
        m a = m b \<and> (\<forall>i < unat (n - 1). m (a + 1 + of_nat i) = m (b + 1 + of_nat i))"
      by (simp add: All_less_Suc2 flip: add.assoc)
    have "uint (m a) - uint (m b) = 0 \<longleftrightarrow> m a = m b" by (simp add: word_uint_eq_iff)
    with False 1 show ?thesis
      unfolding split by (subst memcmp.simps) (auto simp: Let_def)
  qed (subst memcmp.simps, simp)
qed

lemma memcmp_cstr_prefix:
  assumes "cstr m a s" "cstr m b t" "length t \<le> length s" "length t < 2 ^ 64"
  shows "memcmp m a b (of_nat (length t)) = 0 \<longleftrightarrow> prefix t s"
proof -
  have "memcmp m a b (of_nat (length t)) = 0 \<longleftrightarrow> (\<forall>i < length t. s ! i = t ! i)"
    using assms by (simp add: memcmp_eq_0 unat_of_nat_64 cstr_nth)
  also have "\<dots> \<longleftrightarrow> take (length t) s = t"
    using assms(3) by (auto simp: list_eq_iff_nth_eq)
  also have "\<dots> \<longleftrightarrow> prefix t s" by (metis append_eq_conv_conj prefix_def take_is_prefix)
  finally show ?thesis .
qed

section \<open>Searching a string\<close>

lemma strchr_loop_cstr:
  "\<lbrakk>cstr m a s; c \<noteq> 0\<rbrakk> \<Longrightarrow> strchr_loop m a c =
     Some (if c \<in> set s then a + of_nat (length (takeWhile (\<lambda>x. x \<noteq> c) s)) else 0)"
proof (induction s arbitrary: a)
  case Nil
  then show ?case by (subst strchr_loop.simps) simp
next
  case (Cons d s)
  then show ?case by (subst strchr_loop.simps) (simp add: add.assoc)
qed

text \<open>The first occurrence of a list in another.\<close>

fun find_sub :: "'a list \<Rightarrow> 'a list \<Rightarrow> nat option" where
  "find_sub y [] = (if y = [] then Some 0 else None)"
| "find_sub y (x # xs) = (if prefix y (x # xs) then Some 0 else map_option Suc (find_sub y xs))"

lemma find_sub_None: "find_sub y x = None \<longleftrightarrow> \<not> sublist y x"
  by (induction x) (auto simp: sublist_Cons_right)

lemma find_sub_Some:
  "find_sub y x = Some i \<Longrightarrow> i \<le> length x \<and> prefix y (drop i x) \<and> (\<forall>j < i. \<not> prefix y (drop j x))"
proof (induction x arbitrary: i)
  case (Cons a x)
  then show ?case by (cases i) (auto split: if_splits simp: less_Suc_eq_0_disj)
qed (auto split: if_splits)

lemma find_sub_0: "find_sub y x = Some 0 \<longleftrightarrow> prefix y x"
  by (cases x) auto

lemma find_sub_too_long: "length x < length y \<Longrightarrow> find_sub y x = None"
  by (auto simp: find_sub_None dest: sublist_length_le)

lemma find_sub_Nil [simp]: "find_sub [] x = Some 0"
  by (cases x) auto

lemma of_nat_le_64:
  "\<lbrakk>i < 2 ^ 64; j < 2 ^ 64\<rbrakk> \<Longrightarrow> (of_nat i :: u64) \<le> of_nat j \<longleftrightarrow> i \<le> j"
  by (simp add: word_le_nat_alt unat_of_nat_64)

lemma strstr_loop_cstr:
  assumes "cstr m a x" "cstr m b y" "length x < 2 ^ 64" "length y < 2 ^ 64" "y \<noteq> []"
  shows "strstr_loop m a b (of_nat (length x)) (of_nat (length y)) =
    Some (case find_sub y x of None \<Rightarrow> 0 | Some i \<Rightarrow> a + of_nat i)"
  using assms
proof (induction x arbitrary: a)
  case Nil
  then have "\<not> (of_nat (length y) :: u64) \<le> of_nat (length ([] :: u8 list))"
    by (subst of_nat_le_64) simp_all
  then show ?case using Nil by (subst strstr_loop.simps) simp
next
  case (Cons c x)
  note le = of_nat_le_64 [OF Cons.prems(4,3)]
  show ?case
  proof (cases "length y \<le> length (c # x)")
    case True
    then have "memcmp m a b (of_nat (length y)) = 0 \<longleftrightarrow> prefix y (c # x)"
      using Cons.prems by (intro memcmp_cstr_prefix)
    moreover have "strstr_loop m (a + 1) b (of_nat (length (c # x)) - 1) (of_nat (length y)) =
        Some (case find_sub y x of None \<Rightarrow> 0 | Some i \<Rightarrow> a + 1 + of_nat i)"
      using Cons.IH [of "a + 1"] Cons.prems by simp
    ultimately show ?thesis
      using True by (subst strstr_loop.simps, auto simp only: le if_True if_False find_sub.simps
          option.case option.map o_def of_nat_Suc add.assoc split: option.splits, simp_all)
  next
    case False
    then have "find_sub y (c # x) = None" by (intro find_sub_too_long) simp
    with False show ?thesis by (subst strstr_loop.simps) (simp only: le if_False option.case)
  qed
qed

lemma strstr_cstr:
  assumes "cstr m s1 x" "cstr m s2 y" "length x < 2 ^ 64" "length y < 2 ^ 64"
  shows "strstr m s1 s2 = Some (case find_sub y x of None \<Rightarrow> 0 | Some i \<Rightarrow> s1 + of_nat i)"
proof (cases "y = []")
  case False
  then have "(of_nat (length y) :: u64) \<noteq> of_nat 0" using assms(4) by (metis of_nat_eq_64 length_0_conv zero_less_numeral zero_less_power)
  then show ?thesis using False assms strstr_loop_cstr by (simp add: strstr_def)
next
  case True
  then have "strlen m s2 = Some 0" using strlen_cstr [OF assms(2)] by simp
  with True show ?thesis by (simp add: strstr_def)
qed

text \<open>
  \<open>strstr\<close> returns the address of the first occurrence of its second string in its first,
  and NULL when there is none; it always returns.
\<close>

theorem strstr_first_occurrence:
  assumes "cstr m s1 x" "cstr m s2 y" "length x < 2 ^ 64" "length y < 2 ^ 64"
  shows "strstr m s1 s2 = Some (case find_sub y x of None \<Rightarrow> 0 | Some i \<Rightarrow> s1 + of_nat i)"
  using assms by (rule strstr_cstr)

lemma strstr_first_occurrence_witness:
  "strstr (put (put (\<lambda>_. 0) 0x1000 [97, 98, 97, 98, 99, 0]) 0x2000 [97, 98, 99, 0]) 0x1000 0x2000
     = Some 0x1002"
  using strstr_first_occurrence [of "put (put (\<lambda>_. 0) 0x1000 [97, 98, 97, 98, 99, 0]) 0x2000 [97, 98, 99, 0]"
      "0x1000" "[97, 98, 97, 98, 99]" "0x2000" "[97, 98, 99]"] by simp

section \<open>Globs\<close>

text \<open>
  What a pattern means: a \<open>*\<close> at its start lets the text start with anything, a \<open>*\<close> at its end
  lets it end with anything, and every other character stands for itself.
\<close>

definition glob_spec :: "u8 list \<Rightarrow> u8 list \<Rightarrow> bool" where
  "glob_spec p t =
     (let star_start = (p \<noteq> [] \<and> hd p = 42);
          q = (if star_start then tl p else p);
          star_end = (q \<noteq> [] \<and> last q = 42);
          core = (if star_end then butlast q else q)
      in if star_start \<and> star_end then sublist core t
         else if star_end then prefix core t
         else if star_start then suffix core t
         else core = t)"

lemma cstr_truncate:
  assumes "cstr m a (s @ [c])" "length s < 2 ^ 64"
  shows "cstr (m(a + of_nat (length s) := 0)) a s"
proof -
  have "0 \<notin> set s" using cstr_nonnul [OF assms(1)] by simp
  moreover have "(m(a + of_nat (length s) := 0)) (a + of_nat i) = s ! i" if "i < length s" for i
    using cstr_nth [OF assms(1), of i] that assms(2) of_nat_eq_64 [of i "length s"]
    by (auto simp: nth_append)
  ultimately show ?thesis
    using cstr_append [of "m(a + of_nat (length s) := 0)" a s "[]"] by simp
qed

text \<open>The comparisons at the end of \<open>simple_glob\<close>, on the text and the stripped pattern.\<close>

lemma strstr_eq_text:
  assumes "cstr m text t" "cstr m c core" "text \<noteq> 0" "unat text + length t < 2 ^ 64"
    "length core < 2 ^ 64"
  shows "map_option (\<lambda>p. p \<noteq> 0) (strstr m text c) = Some (sublist core t)"
    "map_option (\<lambda>p. p = text) (strstr m text c) = Some (prefix core t)"
proof -
  have t: "length t < 2 ^ 64" using assms(4) by simp
  have addr: "text + of_nat i \<noteq> 0 \<and> (text + of_nat i = text \<longleftrightarrow> i = 0)" if "i \<le> length t" for i
  proof -
    have "unat (text + of_nat i) = unat text + i"
      using that assms(4) by (simp add: unat_add_noov unat_of_nat_64)
    moreover have "0 < unat text" using assms(3) by (simp add: unat_gt_0)
    ultimately show ?thesis by (auto simp: word_unat_eq_iff simp del: unat_gt_0)
  qed
  note find = strstr_cstr [OF assms(1,2) t assms(5)]
  show "map_option (\<lambda>p. p \<noteq> 0) (strstr m text c) = Some (sublist core t)"
    using addr find_sub_None [of core t]
    by (cases "find_sub core t") (auto simp: find dest: find_sub_Some)
  show "map_option (\<lambda>p. p = text) (strstr m text c) = Some (prefix core t)"
    using addr assms(3) find_sub_0 [of core t]
    by (cases "find_sub core t") (auto simp: find dest: find_sub_Some)
qed

lemma strcmp_suffix:
  assumes "cstr m text t" "cstr m c core" "length t < 2 ^ 64 - 1" "length core < 2 ^ 64 - 1"
  shows "(if (of_nat (length t) :: u64) < of_nat (length core) then False
     else strcmp m (text + of_nat (length t) - of_nat (length core)) c = 0) \<longleftrightarrow> suffix core t"
proof (cases "length core \<le> length t")
  case True
  have eq: "text + of_nat (length t) - of_nat (length core) = text + of_nat (length t - length core)"
    using True by (simp add: of_nat_diff)
  have "cstr m (text + of_nat (length t - length core)) (drop (length t - length core) t)"
    using assms(1) by (rule cstr_drop) simp
  then have "strcmp m (text + of_nat (length t) - of_nat (length core)) c = 0 \<longleftrightarrow>
      drop (length t - length core) t = core"
    unfolding eq using assms by (intro strcmp_eq_0_iff) auto
  also have "\<dots> \<longleftrightarrow> suffix core t"
    by (metis suffix_def suffix_drop append_eq_append_conv append_take_drop_id length_drop
        diff_diff_cancel True)
  finally show ?thesis using True assms by (simp add: word_less_nat_alt unat_of_nat_64)
next
  case False
  then show ?thesis
    using assms by (auto simp: word_less_nat_alt unat_of_nat_64 dest: suffix_length_le)
qed

lemma glob_rest_spec:
  assumes tx: "cstr m text t" "text \<noteq> 0" "unat text + length t < 2 ^ 64 - 1"
    and pat: "cstr m pat q" "length q < 2 ^ 64 - 1"
    and disj: "addrs copy (Suc (length q)) \<inter> addrs pat (Suc (length q)) = {}"
      "addrs copy (Suc (length q)) \<inter> addrs text (Suc (length t)) = {}"
  shows "glob_rest m text pat (of_nat (length q)) star_start copy =
    Some (let star_end = (q \<noteq> [] \<and> last q = 42); core = (if star_end then butlast q else q)
      in if star_start \<and> star_end then sublist core t else if star_end then prefix core t
         else if star_start then suffix core t else core = t)"
proof -
  let ?m = "put m copy (q @ [0])"
  have cpy: "strcpy m copy pat = Some (?m, copy)" using pat disj by (intro strcpy_cstr) simp_all
  have other: "?m x = m x" if "x \<notin> addrs copy (Suc (length q))" for x
    using that by (simp add: put_other)
  have mt: "cstr ?m text t" using disj tx by (auto intro: cstr_frame other)
  have mp: "cstr ?m pat q" using disj pat by (auto intro: cstr_frame other)
  have mc: "cstr ?m copy q" using pat cstr_nonnul [OF pat(1)] by (intro cstr_put) simp_all
  show ?thesis
  proof (cases "q \<noteq> [] \<and> last q = 42")
    case True
    then obtain r where q: "q = r @ [42]" by (metis append_butlast_last_id)
    let ?m' = "?m(copy + of_nat (length r) := 0)"
    have "cstr ?m' copy r" using mc pat(2) q by (intro cstr_truncate) simp_all
    moreover have "cstr ?m' text t"
    proof (rule cstr_frame [OF mt])
      fix x assume "x \<in> addrs text (Suc (length t))"
      moreover have "copy + of_nat (length r) \<in> addrs copy (Suc (length q))"
        using q by (auto simp: addrs_def)
      ultimately show "?m' x = ?m x" using disj(2) by auto
    qed
    moreover have "?m (pat + (of_nat (length q) - 1)) = 42"
      using cstr_nth [OF mp, of "length r"] q by simp
    moreover have "0 < (of_nat (length q) :: u64)"
      using pat(2) q by (simp add: word_less_nat_alt unat_of_nat_64 del: of_nat_Suc)
    ultimately show ?thesis
      using tx pat q cpy strstr_eq_text [of ?m' "text" t copy r]
      by (simp add: glob_rest_def Let_def)
  next
    case False
    have "\<not> (0 < (of_nat (length q) :: u64) \<and> ?m (pat + (of_nat (length q) - 1)) = 42)"
    proof (cases q rule: rev_cases)
      case (snoc r c)
      then show ?thesis using False cstr_nth [OF mp, of "length r"] by simp
    qed simp
    then show ?thesis
      using tx pat False cpy strlen_cstr [OF mt] strcmp_suffix [OF mt mc] strcmp_eq_0_iff [OF mt mc]
      by (auto simp: glob_rest_def Let_def)
  qed
qed

text \<open>
  \<open>simple_glob\<close> decides its specification: a leading and a trailing \<open>*\<close> match anything, the
  rest of the pattern stands for itself. It always returns.
\<close>

theorem simple_glob_correct:
  assumes "cstr m text t" "text \<noteq> 0" "unat text + length t < 2 ^ 64 - 1"
    and "cstr m pattern p" "length p < 2 ^ 64 - 1"
    and "addrs copy (Suc (length p)) \<inter> addrs pattern (Suc (length p)) = {}"
      "addrs copy (Suc (length p)) \<inter> addrs text (Suc (length t)) = {}"
  shows "simple_glob m text pattern copy = Some (glob_spec p t)"
proof (cases "p \<noteq> [] \<and> hd p = 42")
  case True
  then obtain q where p: "p = 42 # q" by (cases p) auto
  have "addrs copy (Suc (length q)) \<subseteq> addrs copy (Suc (length p))"
    "addrs (pattern + 1) (Suc (length q)) \<subseteq> addrs pattern (Suc (length p))"
    using addrs_mono [of "Suc (length q)" "Suc (length p)"] addrs_Suc [of pattern "Suc (length q)"] p
    by auto
  then have "glob_rest m text (pattern + 1) (of_nat (length q)) True copy = Some (glob_spec p t)"
    using assms p by (subst glob_rest_spec [where q = q and t = t]) (auto simp: glob_spec_def Let_def)
  moreover have "m pattern = 42" using assms(4) p by simp
  ultimately show ?thesis using strlen_cstr [OF assms(4)] p by (simp add: simple_glob_def)
next
  case False
  then have "m pattern \<noteq> 42" using assms(4) by (cases p) auto
  moreover have "glob_rest m text pattern (of_nat (length p)) False copy = Some (glob_spec p t)"
  proof -
    have "(p \<noteq> [] \<and> hd p = 42) = False" using False by simp
    then show ?thesis
      using assms by (subst glob_rest_spec [where q = p and t = t]) (simp_all only: glob_spec_def Let_def if_False simp_thms)
  qed
  ultimately show ?thesis using strlen_cstr [OF assms(4)] by (simp add: simple_glob_def)
qed

lemma simple_glob_correct_witness:
  "simple_glob (put (put (\<lambda>_. 0) 0x1000 [97, 98, 99, 0]) 0x2000 [97, 42, 0]) 0x1000 0x2000 0x3000
     = Some True"
proof -
  have "addrs 0x3000 (Suc (Suc (Suc 0))) \<inter> addrs 0x2000 (Suc (Suc (Suc 0))) = {}"
    "addrs 0x3000 (Suc (Suc (Suc 0))) \<inter> addrs 0x1000 (Suc (Suc (Suc (Suc 0)))) = {}"
    by (rule addrs_disjointI; simp)+
  then show ?thesis
    using simple_glob_correct [of "put (put (\<lambda>_. 0) 0x1000 [97, 98, 99, 0]) 0x2000 [97, 42, 0]"
        "0x1000" "[97, 98, 99]" "0x2000" "[97, 42]" "0x3000"]
    by (simp add: glob_spec_def)
qed

section \<open>Numbers\<close>

lemma sint_8: "sint (c :: u8) = (if uint c < 128 then uint c else uint c - 256)"
proof -
  have c: "0 \<le> uint c" "uint c < 256" using uint_lt2p [of c] by simp_all
  have s: "sint c = (uint c + 128) mod 256 - 128"
    by (simp add: sint_uint signed_take_bit_eq_take_bit_shift take_bit_eq_mod)
  show ?thesis
  proof (cases "uint c < 128")
    case False
    have "(uint c + 128) mod 256 = (uint c - 128 + 256) mod 256" by (simp add: add.commute)
    also have "\<dots> = uint c - 128" using False c by (simp only: mod_add_self2) simp
    finally show ?thesis using s False by simp
  qed (use s c in simp)
qed

definition is_digit :: "u8 \<Rightarrow> bool" where
  "is_digit c \<longleftrightarrow> 48 \<le> c \<and> c \<le> 57"

lemma is_digit_signed: "is_digit c \<longleftrightarrow> \<not> (c <s 48 \<or> 57 <s c)"
  using uint_lt2p [of c]
  by (auto simp: is_digit_def word_sless_alt word_le_def sint_8 split: if_splits)

text \<open>The value of a digit string, and of the text \<open>atol\<close> accepts.\<close>

definition digits_val :: "u8 list \<Rightarrow> nat" where
  "digits_val ds = foldl (\<lambda>acc c. acc * 10 + (unat c - 48)) 0 ds"

lemma atol_digits_cstr:
  assumes "cstr m a (ds @ rest)" "\<forall>c \<in> set ds. is_digit c" "rest = [] \<or> \<not> is_digit (hd rest)"
  shows "atol_digits m a (of_nat acc) =
    Some (of_nat (foldl (\<lambda>acc c. acc * 10 + (unat c - 48)) acc ds))"
  using assms
proof (induction ds arbitrary: a acc)
  case Nil
  then show ?case
    by (cases rest; subst atol_digits.simps) (auto simp: is_digit_signed)
next
  case (Cons c ds)
  have "is_digit c" using Cons.prems by simp
  then have c: "48 \<le> c" "m a = c" "c \<noteq> 0" "\<not> (c <s 48 \<or> 57 <s c)"
    using Cons.prems by (simp add: is_digit_def, simp, simp, simp only: is_digit_signed simp_thms)
  have "(of_nat (acc * 10 + (unat c - 48)) :: u64) = of_nat acc * 10 + (ucast c - 48)"
    using c(1) by (simp add: word_le_nat_alt of_nat_diff)
  then show ?case
    using Cons.IH [of "a + 1" "acc * 10 + (unat c - 48)"] Cons.prems c
    by (subst atol_digits.simps) (simp add: Let_def)
qed

lemma atol_blanks_cstr:
  assumes "cstr m a (bl @ rest)" "set bl \<subseteq> {32, 9}" "rest = [] \<or> hd rest \<notin> {32, 9}"
  shows "atol_blanks m a = Some (a + of_nat (length bl))"
  using assms
proof (induction bl arbitrary: a)
  case Nil
  then show ?case by (cases rest; subst atol_blanks.simps) auto
next
  case (Cons c bl)
  then show ?case by (subst atol_blanks.simps) (auto simp: add.assoc)
qed

lemma atol_cstr:
  assumes "cstr m a (bl @ sg @ ds @ rest)" "set bl \<subseteq> {32, 9}" "sg \<in> {[], [43], [45]}"
    and "ds \<noteq> []" "\<forall>c \<in> set ds. is_digit c" "rest = [] \<or> \<not> is_digit (hd rest)"
  shows "atol m a =
    Some (if sg = [45] then - of_nat (digits_val ds) else of_nat (digits_val ds))"
proof -
  let ?s = "a + of_nat (length bl)"
  have hd: "is_digit (hd ds)" using assms(4,5) by (cases ds) auto
  have nd: "\<not> is_digit 32" "\<not> is_digit 9" "\<not> is_digit 45" "\<not> is_digit 43"
    by (simp_all add: is_digit_def)
  have "hd (sg @ ds @ rest) \<notin> {32, 9}" using assms(3,4) hd nd by auto
  then have bl: "atol_blanks m a = Some ?s" using assms(1,2,4) by (intro atol_blanks_cstr) auto
  have s: "cstr m ?s (sg @ ds @ rest)" using cstr_drop [OF assms(1), of "length bl"] by simp
  have digits: "atol_digits m p 0 = Some (of_nat (digits_val ds))" if "cstr m p (ds @ rest)" for p
    using atol_digits_cstr [OF that assms(5,6), of 0] by (simp add: digits_val_def)
  have "m ?s \<notin> {45, 43}" if "sg = []"
    using s that assms(4) hd nd by (cases ds) auto
  then show ?thesis using assms(3) s bl digits by (auto simp: atol_def Let_def)
qed

text \<open>
  on blanks, an optional sign and digits, followed by the end of the string or by a character
  that is no digit, \<open>atol\<close> returns the number the digits stand for, negated after a minus sign.
\<close>

theorem atol_number:
  assumes "cstr m a (bl @ sg @ ds @ rest)" "set bl \<subseteq> {32, 9}" "sg \<in> {[], [43], [45]}"
    and "ds \<noteq> []" "\<forall>c \<in> set ds. is_digit c" "rest = [] \<or> \<not> is_digit (hd rest)"
  shows "atol m a =
    Some (if sg = [45] then - of_nat (digits_val ds) else of_nat (digits_val ds))"
  using assms by (rule atol_cstr)

lemma atol_number_witness:
  "atol (put (\<lambda>_. 0) 0x1000 [32, 45, 52, 50, 44, 0]) 0x1000 = Some (- 42)"
  using atol_number [of "put (\<lambda>_. 0) 0x1000 [32, 45, 52, 50, 44, 0]" "0x1000" "[32]" "[45]" "[52, 50]" "[44]"]
  by (simp add: is_digit_def digits_val_def)

lemma parse_keyval_cstr:
  assumes "cstr m a (key @ 61 # val)" "61 \<notin> set key" "a + of_nat (length key) \<noteq> 0"
    and "atol m (a + of_nat (length key) + 1) = Some v"
  shows "parse_keyval m a = Some (Some v, of_nat (length key))"
proof -
  have "takeWhile (\<lambda>x. x \<noteq> 61) (key @ 61 # val) = key"
    using assms(2) by (induction key) auto
  then have "strchr m a 61 = Some (a + of_nat (length key))"
    using assms(1) strchr_loop_cstr [of m a "key @ 61 # val" 61] by (simp add: strchr_def)
  moreover have "(ucast (of_nat n :: u64) :: u32) = of_nat n" for n
    by (simp add: unsigned_of_nat word_of_nat_eq_iff)
  ultimately show ?thesis using assms(3,4) by (simp add: parse_keyval_def)
qed

lemma parse_keyval_no_key:
  assumes "cstr m a s" "61 \<notin> set s"
  shows "parse_keyval m a = Some (None, - 1)"
  using assms strchr_loop_cstr [of m a s 61] by (simp add: parse_keyval_def strchr_def)

text \<open>
  \<open>parse_keyval\<close> on \<open>key=digits\<close> returns the offset of the \<open>=\<close> and stores the number.
\<close>

theorem parse_keyval_number:
  assumes "cstr m a (key @ 61 # ds)" "61 \<notin> set key" "a + of_nat (length key) \<noteq> 0"
    and "ds \<noteq> []" "\<forall>c \<in> set ds. is_digit c"
  shows "parse_keyval m a = Some (Some (of_nat (digits_val ds)), of_nat (length key))"
proof -
  have "cstr m (a + of_nat (length key) + 1) ds"
    using cstr_drop [OF assms(1), of "Suc (length key)"] by (simp add: ac_simps)
  then have "atol m (a + of_nat (length key) + 1) = Some (of_nat (digits_val ds))"
    using assms(4,5) atol_cstr [of m _ "[]" "[]" ds "[]"] by simp
  then show ?thesis using assms(1-3) by (intro parse_keyval_cstr)
qed

lemma parse_keyval_number_witness:
  "parse_keyval (put (\<lambda>_. 0) 0x1000 [109, 61, 52, 50, 0]) 0x1000 = Some (Some 42, 1)"
  using parse_keyval_number [of "put (\<lambda>_. 0) 0x1000 [109, 61, 52, 50, 0]" "0x1000" "[109]" "[52, 50]"]
  by (simp add: is_digit_def digits_val_def)

section \<open>The environment\<close>

text \<open>
  The environment as a list of entries, each an address and the string there, and the lookup
  \<open>getenv\<close> computes: an entry matches when its key is a prefix of the name.
\<close>

fun envp_at :: "mem \<Rightarrow> u64 \<Rightarrow> (u64 \<times> u8 list) list \<Rightarrow> bool" where
  "envp_at m p [] \<longleftrightarrow> ldptr m p = 0"
| "envp_at m p ((a, e) # es) \<longleftrightarrow>
     ldptr m p = a \<and> a \<noteq> 0 \<and> cstr m a e \<and> unat a + length e < 2 ^ 64 \<and> envp_at m (p + 8) es"

definition env_key :: "u8 list \<Rightarrow> u8 list" where
  "env_key e = takeWhile (\<lambda>x. x \<noteq> 61) e"

fun env_lookup :: "u8 list \<Rightarrow> (u64 \<times> u8 list) list \<Rightarrow> u64" where
  "env_lookup nm [] = 0"
| "env_lookup nm ((a, e) # es) =
     (if 61 \<in> set e \<and> prefix (env_key e) nm then a + of_nat (length (env_key e)) + 1
      else env_lookup nm es)"

lemma take_eq_prefix: "take (length k) x = k \<longleftrightarrow> prefix k x"
  by (metis append_eq_conv_conj prefix_def take_is_prefix)

text \<open>
  \<open>getenv\<close> scans the environment in order and returns the text after the first \<open>=\<close> of the
  first entry whose key is a prefix of the name; it does not require the key to be the whole name.
\<close>

theorem getenv_first_prefix:
  assumes "envp_at m p es" "cstr m name nm"
  shows "getenv m p name = Some (env_lookup nm es)"
  using assms(1)
proof (unfold getenv_def, induction es arbitrary: p)
  case Nil
  then show ?case by (subst getenv_loop.simps) simp
next
  case (Cons ae es)
  obtain a e where ae: "ae = (a, e)" by fastforce
  let ?k = "env_key e"
  have e: "ldptr m p = a" "a \<noteq> 0" "cstr m a e" "unat a + length e < 2 ^ 64" "envp_at m (p + 8) es"
    using Cons.prems ae by simp_all
  have len: "length ?k \<le> length e" by (simp add: env_key_def length_takeWhile_le)
  with e(4) have lt: "unat a + length ?k < 2 ^ 64" by linarith
  then have unat: "unat (of_nat (length ?k) :: u64) = length ?k"
    by (intro unat_of_nat_64) linarith
  then have "unat (a + of_nat (length ?k)) = unat a + length ?k" using lt by (simp add: unat_add_noov)
  moreover have "0 < unat a" using e(2) by (simp add: unat_gt_0)
  ultimately have nz: "a + of_nat (length ?k) \<noteq> 0" by (metis add_gr_0 less_irrefl unat_0)
  have "strchr m a 61 = Some (if 61 \<in> set e then a + of_nat (length ?k) else 0)"
    using strchr_loop_cstr [OF e(3), of 61] by (simp add: strchr_def env_key_def)
  moreover have "strncmp m name a (of_nat (length ?k)) = 0 \<longleftrightarrow> prefix ?k nm"
  proof -
    have k: "take (length ?k) e = ?k" by (simp only: env_key_def flip: takeWhile_eq_take)
    have "strncmp m name a (of_nat (length ?k)) = 0 \<longleftrightarrow> take (length ?k) nm = take (length ?k) e"
      using strncmp_scmp [OF assms(2) e(3)] cstr_nonnul [OF assms(2)] cstr_nonnul [OF e(3)] unat
      by (simp add: scmp_eq_0)
    then show ?thesis unfolding k take_eq_prefix .
  qed
  ultimately show ?case
    using Cons.IH [OF e(5) e(5)] e(1,2) nz ae by (subst getenv_loop.simps) simp
qed

lemma getenv_first_prefix_witness:
  "getenv (put (put (put (\<lambda>_. 0) 0x1000 [0, 0x20, 0]) 0x2000 [65, 61, 49, 0]) 0x3000 [65, 66, 0])
     0x1000 0x3000 = Some 0x2002"
proof -
  let ?m = "put (put (put (\<lambda>_. 0) 0x1000 [0, 0x20, 0]) 0x2000 [65, 61, 49, 0]) 0x3000 [65, 66, 0]"
  have "ldptr ?m 0x1000 = 0x2000" "ldptr ?m 0x1008 = 0" "cstr ?m 0x2000 [65, 61, 49]"
    "cstr ?m 0x3000 [65, 66]"
    by code_simp+
  then have "envp_at ?m 0x1000 [(0x2000, [65, 61, 49])]" by (simp del: put.simps cstr.simps)
  moreover have "env_lookup [65, 66] [(0x2000, [65, 61, 49])] = 0x2002" by (simp add: env_key_def)
  ultimately show ?thesis
    using getenv_first_prefix [of ?m "0x1000" "[(0x2000, [65, 61, 49])]" "0x3000" "[65, 66]"]
      \<open>cstr ?m 0x3000 [65, 66]\<close> by (simp only:)
qed

end
