(* ===== verification/CellMem.thy ===== *)
theory CellMem
  imports Libcflat
begin

text \<open>
  Memory as the page allocator and the page-table code use it: one 64-bit cell for every
  eight-byte aligned address, addressed by that address. Physical and virtual addresses coincide
  (\<open>virt_to_phys\<close> and \<open>phys_to_virt\<close> are the identity on this build). A page is 4096 bytes,
  hence 512 cells; the theory has the facts about pages, their cells and the table indices of an
  address that the allocator and the three kinds of page table share.
\<close>

type_synonym cells = "u64 \<Rightarrow> u64"

definition PAGE_SHIFT :: nat where
  "PAGE_SHIFT = 12"

definition PAGE_SIZE :: u64 where
  "PAGE_SIZE = push_bit PAGE_SHIFT 1"

definition PAGE_MASK :: u64 where
  "PAGE_MASK = NOT (PAGE_SIZE - 1)"

text \<open>\<open>memset(p, 0, PAGE_SIZE)\<close> on cells.\<close>

definition zero_page :: "cells \<Rightarrow> u64 \<Rightarrow> cells" where
  "zero_page m p = (\<lambda>a. if a - p < PAGE_SIZE then 0 else m a)"

definition page_of :: "u64 \<Rightarrow> u64" where
  "page_of a = a AND NOT (mask 12)"

text \<open>A page the program can use as a table: aligned, not NULL, below the 52-bit limit.\<close>

definition page_ok :: "u64 \<Rightarrow> bool" where
  "page_ok p \<longleftrightarrow> p AND mask 12 = 0 \<and> p \<noteq> 0 \<and> p < 2 ^ 52"

section \<open>Table indices\<close>

definition PGDIR_BITS :: "nat \<Rightarrow> nat" where
  "PGDIR_BITS lvl = (lvl - 1) * 9 + PAGE_SHIFT"

definition PGDIR_OFFSET :: "u64 \<Rightarrow> nat \<Rightarrow> u64" where
  "PGDIR_OFFSET va lvl = drop_bit (PGDIR_BITS lvl) va AND 511"

text \<open>The address of the entry of \<open>va\<close> in the table \<open>pt\<close> of the given level: \<open>&pt[offset]\<close>.\<close>

definition slot :: "u64 \<Rightarrow> u64 \<Rightarrow> nat \<Rightarrow> u64" where
  "slot pt va lvl = pt + 8 * PGDIR_OFFSET va lvl"

definition idx :: "u64 \<Rightarrow> nat \<Rightarrow> nat" where
  "idx va lvl = unat (PGDIR_OFFSET va lvl)"

definition entry :: "u64 \<Rightarrow> nat \<Rightarrow> u64" where
  "entry pt i = pt + 8 * of_nat i"

lemma PAGE_SIZE_eq [simp]: "PAGE_SIZE = 4096"
  by (simp add: PAGE_SIZE_def PAGE_SHIFT_def)

lemma PAGE_MASK_eq: "PAGE_MASK = NOT (mask 12)"
  by (simp add: PAGE_MASK_def mask_eq_exp_minus_1)

lemma mask_512: "(511 :: u64) = mask 9"
  by (simp add: mask_eq_exp_minus_1)

lemma idx_less [simp]: "idx va l < 512"
proof -
  have "PGDIR_OFFSET va l \<le> 511" unfolding PGDIR_OFFSET_def by (rule word_and_le1)
  then show ?thesis by (simp add: idx_def word_le_nat_alt)
qed

lemma slot_entry: "slot pt va l = entry pt (idx va l)"
  by (simp add: slot_def entry_def idx_def)

lemma page_ok_bits: "page_ok p \<Longrightarrow> bit p i \<Longrightarrow> 12 \<le> i \<and> i < 52"
proof
  assume p: "page_ok p" and i: "bit p i"
  have "i < 64" using bit_imp_le_length [OF i] by simp
  with p i show "12 \<le> i" unfolding page_ok_def word_and_mask_0_iff by (meson not_le)
  have "unat p < 2 ^ 52" using p by (simp add: page_ok_def word_less_nat_alt unat_power2_64)
  moreover have "2 ^ i \<le> unat p" using i by (intro bit_imp_pow_le) (simp add: bit_unsigned_iff)
  ultimately have "(2 :: nat) ^ i < 2 ^ 52" by linarith
  then show "i < 52" using power_strict_increasing_iff [of "2 :: nat" i 52] by simp
qed

lemma page_add_or:
  assumes "p AND mask 12 = 0" "q < 4096"
  shows "p + q = p OR (q :: u64)"
proof -
  have "unat q < 2 ^ 12" using assms(2) by (simp add: word_less_nat_alt)
  then have "take_bit 12 q = q"
    by (simp add: word_unat_eq_iff unsigned_take_bit_eq take_bit_nat_eq_self)
  then have "\<not> bit q i" if "12 \<le> i" for i using that by (metis bit_take_bit_iff not_le)
  moreover have "\<not> bit p i" if "i < 12" for i
    using assms(1) that by (simp add: word_and_mask_0_iff)
  ultimately have "p AND q = 0" by (intro bit_word_eqI) (auto simp: bit_simps, metis not_le)
  then show ?thesis by (rule disjunctive_add_eq_or)
qed

lemma page_of_add:
  assumes "p AND mask 12 = 0" "q < 4096"
  shows "page_of (p + q) = p"
proof -
  have "unat q < 2 ^ 12" using assms(2) by (simp add: word_less_nat_alt)
  then have "take_bit 12 q = q"
    by (simp add: word_unat_eq_iff unsigned_take_bit_eq take_bit_nat_eq_self)
  then have "\<not> bit q i" if "12 \<le> i" for i using that by (metis bit_take_bit_iff not_le)
  moreover have "\<not> bit p i" if "i < 12" for i
    using assms(1) that by (simp add: word_and_mask_0_iff)
  ultimately show ?thesis
    unfolding page_of_def page_add_or [OF assms]
    by (intro bit_word_eqI) (use not_le in \<open>auto simp: bit_simps\<close>)
qed

lemma entry_offset: "i < 512 \<Longrightarrow> 8 * of_nat i < (4096 :: u64)"
  by (simp add: word_less_nat_alt unat_word_ariths unat_of_nat_64)

lemma page_of_entry: "\<lbrakk>p AND mask 12 = 0; i < 512\<rbrakk> \<Longrightarrow> page_of (entry p i) = p"
  unfolding entry_def by (intro page_of_add entry_offset)

lemma entry_inj:
  assumes "entry p i = entry p j" "i < 512" "j < 512"
  shows "i = j"
proof -
  have "unat (8 * of_nat k :: u64) = 8 * k" if "k < 512" for k
    using that by (simp add: unat_word_ariths unat_of_nat_64)
  moreover have "(8 * of_nat i :: u64) = 8 * of_nat j" using assms(1) by (simp add: entry_def)
  ultimately have "8 * i = 8 * j" using assms(2,3) by metis
  then show ?thesis by simp
qed

lemma page_of_page: "page_ok p \<Longrightarrow> page_of p = p"
  using page_of_add [of p 0] by (simp add: page_ok_def)

text \<open>A page's worth of offsets is the page.\<close>

lemma offset_less_page:
  assumes "p AND mask 12 = 0"
  shows "a - p < 4096 \<longleftrightarrow> page_of a = p"
proof
  assume "a - p < 4096"
  then have "page_of (p + (a - p)) = p" using assms by (intro page_of_add)
  then show "page_of a = p" by simp
next
  assume p: "page_of a = p"
  have "page_of a + (a AND mask 12) = a"
  proof -
    have "page_of a AND (a AND mask 12) = 0"
      by (intro bit_word_eqI) (auto simp: page_of_def bit_simps)
    then have "page_of a + (a AND mask 12) = page_of a OR (a AND mask 12)"
      by (rule disjunctive_add_eq_or)
    also have "\<dots> = a" by (intro bit_word_eqI) (auto simp: page_of_def bit_simps)
    finally show ?thesis .
  qed
  then have "a - p = a AND mask 12" using p by (metis add_diff_cancel_left')
  also have "\<dots> \<le> mask 12" by (rule word_and_le1)
  finally show "a - p < 4096" by (simp add: mask_eq_exp_minus_1 word_le_nat_alt word_less_nat_alt)
qed

lemma zero_page_page: "p AND mask 12 = 0 \<Longrightarrow> zero_page m p = (\<lambda>a. if page_of a = p then 0 else m a)"
  by (simp add: zero_page_def offset_less_page)

end
