(* ===== verification/AllocPage.thy ===== *)
theory AllocPage
  imports CellMem
begin

text \<open>
  The page allocator of \<open>lib/alloc_page.c\<close>: free pages are a linked list through their first
  cell. The state is memory and the head of the list; the lock is not modelled (each operation is
  atomic). The loops of \<open>free_pages\<close> and \<open>alloc_pages\<close> are \<open>partial_function (option)\<close>s, so that
  their termination on a well-formed list is part of what is proved.
\<close>

record page_alloc =
  cells :: cells
  freelist :: u64

definition page_alloc_initialized :: "('a page_alloc_scheme) \<Rightarrow> bool" where
  "page_alloc_initialized s \<longleftrightarrow> freelist s \<noteq> 0"

section \<open>Operations\<close>

partial_function (option) free_pages_loop :: "cells \<Rightarrow> u64 \<Rightarrow> u64 \<Rightarrow> (cells \<times> u64) option" where
  "free_pages_loop m mem end_addr =
     (if mem + PAGE_SIZE \<noteq> end_addr
      then free_pages_loop (m(mem := mem + PAGE_SIZE)) (mem + PAGE_SIZE) end_addr
      else Some (m, mem))"

definition free_pages :: "u64 \<Rightarrow> u64 \<Rightarrow> 'a page_alloc_scheme \<Rightarrow> err + 'a page_alloc_scheme" where
  "free_pages mem sz s =
     bindE (assertE (mem mod PAGE_SIZE = 0)) (\<lambda>_.
     bindE (assertE (sz mod PAGE_SIZE = 0)) (\<lambda>_.
     bindE (assertE (sz = 0 \<or> mem = - sz \<or> mem + sz > mem)) (\<lambda>_.
     if sz = 0 then Inr (s\<lparr>freelist := 0\<rparr>)
     else
       let old_freelist = freelist s;
           end_addr = mem + sz
       in bindE (loopE (free_pages_loop (cells s) mem end_addr)) (\<lambda>(m, last).
          Inr (s\<lparr>freelist := mem, cells := m(last := old_freelist)\<rparr>)))))"

definition alloc_page :: "'a page_alloc_scheme \<Rightarrow> 'a page_alloc_scheme \<times> u64" where
  "alloc_page s =
     (if freelist s = 0 then (s, 0)
      else let p = freelist s in (s\<lparr>freelist := cells s (freelist s)\<rparr>, p))"

text \<open>
  The loop of \<open>alloc_pages\<close>: its variables on entry to an iteration; the result is \<open>run_start\<close>,
  with the \<open>run_prev\<close> and \<open>next\<close> of the update at its end when a run was found.
\<close>

partial_function (option) alloc_pages_loop ::
    "cells \<Rightarrow> u64 \<Rightarrow> u64 \<Rightarrow> u64 \<Rightarrow> u64 \<Rightarrow> u64 \<Rightarrow> u64 \<Rightarrow> u64 \<Rightarrow> u64 \<Rightarrow> (u64 \<times> (u64 \<times> u64) option) option"
  where
  "alloc_pages_loop m n align_mask cur next_pg run run_start run_prev run_next_pa =
     (let prev = cur; cur = next_pg
      in if cur = 0 then Some (0, None)
         else let next_pg = m cur; pa = cur;
           (run, run_start, run_prev, run_next_pa) =
             (if run = 0 then
                if pa AND align_mask = 0 then (1, cur, prev, pa + PAGE_SIZE)
                else (run, run_start, run_prev, run_next_pa)
              else if pa = run_next_pa then (run + 1, run_start, run_prev, run_next_pa + PAGE_SIZE)
              else (0, run_start, run_prev, run_next_pa))
           in if run = n then Some (run_start, Some (run_prev, next_pg))
              else alloc_pages_loop m n align_mask cur next_pg run run_start run_prev run_next_pa)"

definition alloc_pages :: "u64 \<Rightarrow> 'a page_alloc_scheme \<Rightarrow> err + ('a page_alloc_scheme \<times> u64)" where
  "alloc_pages order s =
     (let n = push_bit (unat order) 1; align_mask = push_bit PAGE_SHIFT n - 1
      in bindE (assertE (order < 64)) (\<lambda>_.
         bindE (loopE (alloc_pages_loop (cells s) n align_mask 0 (freelist s) 0 0 0 0))
           (\<lambda>(run_start, upd).
              Inr (case upd of
                None \<Rightarrow> (s, run_start)
              | Some (run_prev, next_pg) \<Rightarrow>
                  (if run_prev \<noteq> 0 then s\<lparr>cells := (cells s)(run_prev := next_pg)\<rparr>
                   else s\<lparr>freelist := next_pg\<rparr>, run_start)))))"

definition free_page :: "u64 \<Rightarrow> 'a page_alloc_scheme \<Rightarrow> 'a page_alloc_scheme" where
  "free_page page s = s\<lparr>cells := (cells s)(page := freelist s), freelist := page\<rparr>"

definition page_memalign ::
    "u64 \<Rightarrow> u64 \<Rightarrow> 'a page_alloc_scheme \<Rightarrow> err + ('a page_alloc_scheme \<times> u64)" where
  "page_memalign alignment sz s =
     (let n = drop_bit PAGE_SHIFT (ALIGN sz PAGE_SIZE)
      in if sz = 0 then Inr (s, 0)
         else let order = (if is_power_of_2 n then fls n else fls n + 1) in alloc_pages order s)"

definition page_free :: "u64 \<Rightarrow> u64 \<Rightarrow> 'a page_alloc_scheme \<Rightarrow> err + 'a page_alloc_scheme" where
  "page_free mem sz s = free_pages mem sz s"

declare free_pages_loop.simps [code]
  alloc_pages_loop.simps [code]

section \<open>The free list\<close>

text \<open>
  \<open>seg m p xs q\<close>: following the links from \<open>p\<close> visits \<open>xs\<close> and then reaches \<open>q\<close>; the free list
  is a segment that ends at NULL. \<open>pages p n\<close> are \<open>n\<close> pages in a row.
\<close>

fun seg :: "cells \<Rightarrow> u64 \<Rightarrow> u64 list \<Rightarrow> u64 \<Rightarrow> bool" where
  "seg m p [] q \<longleftrightarrow> p = q"
| "seg m p (x # xs) q \<longleftrightarrow> p = x \<and> x \<noteq> 0 \<and> seg m (m x) xs q"

fun pages :: "u64 \<Rightarrow> nat \<Rightarrow> u64 list" where
  "pages p 0 = []"
| "pages p (Suc n) = p # pages (p + PAGE_SIZE) n"

definition free_inv :: "'a page_alloc_scheme \<Rightarrow> u64 list \<Rightarrow> bool" where
  "free_inv s xs \<longleftrightarrow> seg (cells s) (freelist s) xs 0 \<and> distinct xs \<and> (\<forall>x \<in> set xs. page_ok x)"

lemma seg_append [simp]: "seg m p (xs @ ys) q \<longleftrightarrow> (\<exists>r. seg m p xs r \<and> seg m r ys q)"
  by (induction xs arbitrary: p) auto

lemma seg_cong: "(\<And>x. x \<in> set xs \<Longrightarrow> m' x = m x) \<Longrightarrow> seg m' p xs q \<longleftrightarrow> seg m p xs q"
  by (induction xs arbitrary: p) auto

lemma seg_upd_other [simp]: "a \<notin> set xs \<Longrightarrow> seg (m(a := v)) p xs q \<longleftrightarrow> seg m p xs q"
  by (rule seg_cong) auto

lemma seg_head: "seg m p xs q \<Longrightarrow> p = (if xs = [] then q else hd xs)"
  by (cases xs) auto

lemma seg_unique: "\<lbrakk>seg m p xs 0; seg m p ys 0\<rbrakk> \<Longrightarrow> xs = ys"
proof (induction xs arbitrary: p ys)
  case Nil
  then show ?case by (cases ys) auto
next
  case (Cons x xs)
  then show ?case by (cases ys) auto
qed

text \<open>Linking the last element of a segment somewhere else.\<close>

lemma seg_relink:
  assumes "seg m p xs q" "distinct xs" "xs \<noteq> []"
  shows "seg (m(last xs := r)) p xs r"
proof -
  obtain ys y where xs: "xs = ys @ [y]" using assms(3) by (metis append_butlast_last_id)
  then show ?thesis using assms by auto
qed

lemma pages_nth: "pages p n = map (\<lambda>i. p + PAGE_SIZE * of_nat i) [0..<n]"
proof (induction n arbitrary: p)
  case (Suc n)
  have "[0..<Suc n] = 0 # map Suc [0..<n]" by (simp add: map_Suc_upt upt_conv_Cons del: upt_Suc)
  then show ?case by (simp add: Suc.IH o_def algebra_simps)
qed simp

lemma length_pages [simp]: "length (pages p n) = n"
  by (simp add: pages_nth)

lemma pages_append: "pages p (m + n) = pages p m @ pages (p + PAGE_SIZE * of_nat m) n"
  by (induction m arbitrary: p) (simp_all add: algebra_simps)

lemma pages_snoc: "pages p (Suc n) = pages p n @ [p + PAGE_SIZE * of_nat n]"
  using pages_append [of p n 1] by simp

lemma page_mult_unat:
  assumes "unat p + 4096 * n \<le> 2 ^ 64" "i < n"
  shows "unat (p + PAGE_SIZE * of_nat i) = unat p + 4096 * i"
proof -
  have i: "unat p + 4096 * i < 2 ^ 64" using assms by linarith
  then have "unat (4096 * of_nat i :: u64) = 4096 * i"
    by (simp add: unat_word_ariths unat_of_nat)
  then show ?thesis using i by (simp add: unat_add_noov)
qed

lemma pages_distinct:
  assumes "unat p + 4096 * n \<le> 2 ^ 64"
  shows "distinct (pages p n)"
  unfolding pages_nth distinct_map
proof (intro conjI inj_onI)
  fix i j assume "i \<in> set [0..<n]" "j \<in> set [0..<n]"
    and "p + PAGE_SIZE * of_nat i = p + PAGE_SIZE * of_nat j"
  then have "unat p + 4096 * i = unat p + 4096 * j"
    using page_mult_unat [OF assms] by (metis atLeastLessThan_iff set_upt)
  then show "i = j" by simp
qed simp

section \<open>Freeing a run of pages\<close>

lemma free_pages_loop_links:
  assumes "unat p + 4096 * Suc n \<le> 2 ^ 64" "p \<noteq> 0"
  shows "\<exists>m'. free_pages_loop m p (p + PAGE_SIZE * of_nat (Suc n)) =
      Some (m', p + PAGE_SIZE * of_nat n) \<and>
    seg m' p (pages p n) (p + PAGE_SIZE * of_nat n) \<and>
    (\<forall>a. a \<notin> set (pages p n) \<longrightarrow> m' a = m a)"
  using assms
proof (induction n arbitrary: p m)
  case 0
  then show ?case by (subst free_pages_loop.simps) simp
next
  case (Suc n)
  let ?q = "p + PAGE_SIZE" and ?m = "m(p := p + PAGE_SIZE)"
  have q: "unat ?q = unat p + 4096" using page_mult_unat [OF Suc.prems(1), of 1] by simp
  then have "?q \<noteq> 0" by (metis add_is_0 unat_0 zero_neq_numeral)
  moreover have "unat ?q + 4096 * Suc n \<le> 2 ^ 64" using Suc.prems(1) q by simp
  ultimately obtain m' where m': "free_pages_loop ?m ?q (?q + PAGE_SIZE * of_nat (Suc n)) =
      Some (m', ?q + PAGE_SIZE * of_nat n)"
    "seg m' ?q (pages ?q n) (?q + PAGE_SIZE * of_nat n)" "\<forall>a. a \<notin> set (pages ?q n) \<longrightarrow> m' a = ?m a"
    using Suc.IH [of ?q ?m] by blast
  have end_eq: "?q + PAGE_SIZE * of_nat (Suc n) = p + PAGE_SIZE * of_nat (Suc (Suc n))"
    "?q + PAGE_SIZE * of_nat n = p + PAGE_SIZE * of_nat (Suc n)"
    by (simp_all add: algebra_simps)
  have "?q \<noteq> p + PAGE_SIZE * of_nat (Suc (Suc n))"
  proof
    assume "?q = p + PAGE_SIZE * of_nat (Suc (Suc n))"
    then have "4096 * of_nat (Suc n) = (0 :: u64)" by (simp add: algebra_simps)
    then have "unat (p + PAGE_SIZE * of_nat (Suc n)) = unat p" by simp
    then show False using page_mult_unat [OF Suc.prems(1), of "Suc n"] by simp
  qed
  then have "free_pages_loop m p (p + PAGE_SIZE * of_nat (Suc (Suc n))) =
      Some (m', p + PAGE_SIZE * of_nat (Suc n))"
    using m'(1) unfolding end_eq by (subst free_pages_loop.simps) (simp only: if_True simp_thms)
  moreover have "p \<notin> set (pages ?q n)"
  proof -
    have "distinct (pages p (Suc n))" using Suc.prems(1) by (intro pages_distinct) simp
    then show ?thesis by simp
  qed
  then have "m' p = ?q" using m'(3) by simp
  then have "seg m' p (pages p (Suc n)) (p + PAGE_SIZE * of_nat (Suc n))"
    using m'(2) Suc.prems(2) unfolding end_eq by simp
  moreover have "\<forall>a. a \<notin> set (pages p (Suc n)) \<longrightarrow> m' a = m a" using m'(3) by simp
  ultimately show ?case by blast
qed

text \<open>
  C13: freeing a page-aligned block that lies inside the address space and off the free list puts
  its pages, in ascending order, in front of the list, and writes nothing but their first cells.
\<close>

theorem free_pages_pushes:
  assumes "seg (cells s) (freelist s) xs 0" "mem \<noteq> 0" "mem mod PAGE_SIZE = 0" "0 < n"
    and "unat mem + 4096 * n \<le> 2 ^ 64" "set (pages mem n) \<inter> set xs = {}"
  shows "\<exists>s'. free_pages mem (PAGE_SIZE * of_nat n) s = Inr s' \<and>
    seg (cells s') (freelist s') (pages mem n @ xs) 0 \<and>
    (\<forall>a. a \<notin> set (pages mem n) \<longrightarrow> cells s' a = cells s a)"
proof -
  obtain k where n: "n = Suc k" using assms(4) by (metis Suc_pred)
  let ?sz = "PAGE_SIZE * of_nat n" and ?last = "mem + PAGE_SIZE * of_nat k"
  obtain m' where m': "free_pages_loop (cells s) mem (mem + ?sz) = Some (m', ?last)"
    "seg m' mem (pages mem k) ?last" "\<forall>a. a \<notin> set (pages mem k) \<longrightarrow> m' a = cells s a"
    using free_pages_loop_links [of mem k "cells s"] assms(2,5) n by auto
  have pos: "0 < unat mem" using assms(2) by (simp add: unat_gt_0)
  have sz: "unat ?sz = 4096 * n"
    using assms(5) pos by (simp add: unat_word_ariths unat_of_nat)
  then have "?sz mod PAGE_SIZE = 0" by (simp add: word_unat_eq_iff unat_mod_distrib)
  moreover have "?sz \<noteq> 0" using sz assms(4) by (metis mult_eq_0_iff not_gr0 unat_0 zero_neq_numeral)
  moreover have "mem = - ?sz \<or> mem + ?sz > mem"
  proof (cases "unat mem + 4096 * n = 2 ^ 64")
    case True
    then have "mem + ?sz = 0" using sz by (simp add: word_unat_eq_iff unat_word_ariths)
    then show ?thesis by (metis add.commute eq_neg_iff_add_eq_0)
  next
    case False
    then have "unat (mem + ?sz) = unat mem + 4096 * n"
      using assms(5) sz by (subst unat_add_noov) simp_all
    then show ?thesis using assms(4) by (simp add: word_less_nat_alt)
  qed
  ultimately have eq: "free_pages mem ?sz s =
      Inr (s\<lparr>freelist := mem, cells := m'(?last := freelist s)\<rparr>)"
    using assms(3) m'(1) by (simp add: free_pages_def Let_def)
  have dist: "distinct (pages mem k @ [?last])"
    using pages_distinct [OF assms(5)] unfolding n pages_snoc .
  have "?last \<noteq> 0"
    using page_mult_unat [OF assms(5), of k] pos n by (metis add_gr_0 less_irrefl lessI unat_0)
  moreover have "seg (m'(?last := freelist s)) (freelist s) xs 0"
    using assms(1,6) m'(3) unfolding n pages_snoc by (subst seg_cong [of _ _ "cells s"]) auto
  ultimately have "seg (m'(?last := freelist s)) mem (pages mem n @ xs) 0"
    using m'(2) dist unfolding n pages_snoc by auto
  then show ?thesis using eq m'(3) unfolding n pages_snoc by auto
qed

lemma free_pages_pushes_witness:
  "\<exists>s'. free_pages 0x4000 0x2000 \<lparr>cells = (\<lambda>_. 0), freelist = 0x1000\<rparr> = Inr s' \<and>
     seg (cells s') (freelist s') [0x4000, 0x5000, 0x1000] 0"
  using free_pages_pushes [of "\<lparr>cells = (\<lambda>_. 0), freelist = 0x1000\<rparr>" "[0x1000]" "0x4000" "Suc (Suc 0)"]
  by simp blast

section \<open>Taking a page\<close>

text \<open>
  \<open>alloc_page\<close> returns NULL, and changes nothing, exactly when no page is free; otherwise it
  returns the first page of the list, which leaves it, and no memory is written.
\<close>

theorem alloc_page_pops:
  assumes "free_inv s xs"
  shows "case xs of
      [] \<Rightarrow> alloc_page s = (s, 0)
    | x # ys \<Rightarrow> snd (alloc_page s) = x \<and> page_ok x \<and> x \<notin> set ys \<and>
        free_inv (fst (alloc_page s)) ys \<and> cells (fst (alloc_page s)) = cells s"
  using assms by (cases xs) (auto simp: alloc_page_def free_inv_def Let_def)

lemma alloc_page_pops_witness:
  "snd (alloc_page \<lparr>cells = (\<lambda>_. 0)(0x1000 := 0x2000), freelist = 0x1000\<rparr>) = 0x1000"
proof -
  have "free_inv \<lparr>cells = (\<lambda>_. 0)(0x1000 := 0x2000), freelist = 0x1000\<rparr> [0x1000, 0x2000]"
    by (simp add: free_inv_def page_ok_def) code_simp
  from alloc_page_pops [OF this] show ?thesis by simp
qed

text \<open>\<open>alloc_page\<close> on an allocator with a page left, in the form its callers use.\<close>

lemma alloc_page_Cons:
  assumes "free_inv s (x # xs)"
  shows "alloc_page s = (s\<lparr>freelist := cells s x\<rparr>, x)" "free_inv (s\<lparr>freelist := cells s x\<rparr>) xs"
    "page_ok x" "x \<notin> set xs"
  using assms by (auto simp: alloc_page_def free_inv_def)

lemma alloc_page_Nil: "free_inv s [] \<Longrightarrow> alloc_page s = (s, 0)"
  by (simp add: free_inv_def alloc_page_def)

lemma free_page_inv:
  assumes "free_inv s xs" "page_ok p" "p \<notin> set xs"
  shows "free_inv (free_page p s) (p # xs)"
  using assms by (auto simp: free_inv_def free_page_def page_ok_def)

section \<open>Searching a naturally aligned run\<close>

text \<open>
  The result of a search for \<open>N\<close> pages in the list \<open>xs\<close>: NULL, or a run of \<open>N\<close> pages in a row
  that starts at an aligned page, with the page before it (or NULL) and the page after it.
\<close>

definition run_found ::
    "u64 list \<Rightarrow> nat \<Rightarrow> u64 \<Rightarrow> u64 \<times> (u64 \<times> u64) option \<Rightarrow> bool" where
  "run_found xs N align_mask r \<longleftrightarrow> r = (0, None) \<or>
     (\<exists>as bs st. xs = as @ pages st N @ bs \<and> st AND align_mask = 0 \<and>
        r = (st, Some (if as = [] then 0 else last as, if bs = [] then 0 else hd bs)))"

text \<open>
  What the loop variables say after the prefix \<open>pre @ cur_run\<close> of the list: \<open>cur_run\<close> is the
  run being collected.
\<close>

definition run_inv ::
    "u64 list \<Rightarrow> u64 list \<Rightarrow> u64 \<Rightarrow> u64 \<Rightarrow> u64 \<Rightarrow> u64 \<Rightarrow> u64 \<Rightarrow> u64 \<Rightarrow> bool" where
  "run_inv pre cur_run align_mask cur run run_start run_prev run_next_pa \<longleftrightarrow>
     cur = (if pre @ cur_run = [] then 0 else last (pre @ cur_run)) \<and>
     run = of_nat (length cur_run) \<and>
     (cur_run \<noteq> [] \<longrightarrow> cur_run = pages run_start (length cur_run) \<and>
        run_start AND align_mask = 0 \<and> run_prev = (if pre = [] then 0 else last pre) \<and>
        run_next_pa = run_start + PAGE_SIZE * of_nat (length cur_run))"

lemma run_inv_first:
  assumes "run_inv pre [] am cur run rs rp rn" "x AND am = 0"
  shows "run_inv pre [x] am x 1 x cur (x + PAGE_SIZE)"
  using assms by (simp add: run_inv_def)

lemma run_inv_skip:
  assumes "run_inv pre cr am cur run rs rp rn"
  shows "run_inv (pre @ cr @ [x]) [] am x 0 rs rp rn"
  using assms by (simp add: run_inv_def)

lemma run_inv_extend:
  assumes "run_inv pre cr am cur run rs rp rn" "cr \<noteq> []"
  shows "run_inv pre (cr @ [rn]) am rn (run + 1) rs rp (rn + PAGE_SIZE)"
proof -
  have "cr = pages rs (length cr)" "rn = rs + PAGE_SIZE * of_nat (length cr)"
    using assms by (auto simp: run_inv_def)
  then have "pages rs (Suc (length cr)) = cr @ [rn]" by (simp only: pages_snoc)
  with assms show ?thesis by (simp add: run_inv_def algebra_simps del: pages.simps)
qed

lemma run_inv_done:
  assumes "run_inv pre cr am cur run rs rp rn" "cr \<noteq> []" "length cr = N" "seg m nxt rest 0"
  shows "run_found (pre @ cr @ rest) N am (rs, Some (rp, nxt))"
proof -
  have "cr = pages rs N" "rs AND am = 0" "rp = (if pre = [] then 0 else last pre)"
    using assms(1-3) by (auto simp: run_inv_def)
  moreover have "nxt = (if rest = [] then 0 else hd rest)" using seg_head [OF assms(4)] .
  ultimately show ?thesis unfolding run_found_def by blast
qed

lemma alloc_pages_loop_finds:
  assumes "seg m nxt rest 0" "run_inv pre cr am cur run rs rp rn"
    and "length cr < N" "N < 2 ^ 64"
  shows "\<exists>r. alloc_pages_loop m (of_nat N) am cur nxt run rs rp rn = Some r \<and>
    run_found (pre @ cr @ rest) N am r"
  using assms
proof (induction rest arbitrary: nxt pre cr cur run rs rp rn)
  case Nil
  then show ?case by (subst alloc_pages_loop.simps) (simp add: run_found_def Let_def)
next
  case (Cons x rest)
  let ?L = "alloc_pages_loop m (of_nat N) am"
  have x: "nxt = x" "x \<noteq> 0" "seg m (m x) rest 0" using Cons.prems(1) by auto
  have run: "run = of_nat (length cr)" using Cons.prems(2) by (simp add: run_inv_def)
  have run0: "run = 0 \<longleftrightarrow> cr = []"
    using run Cons.prems(3,4) of_nat_eq_64 [of "length cr" 0] by auto
  have eqN: "(of_nat k :: u64) = of_nat N \<longleftrightarrow> k = N" if "k \<le> N" for k
    using that Cons.prems(4) of_nat_eq_64 [of k N] by auto
  have run1: "run + 1 = of_nat N \<longleftrightarrow> Suc (length cr) = N"
    using eqN [of "Suc (length cr)"] Cons.prems(3) run by (simp add: add.commute)
  have N0: "(0 :: u64) \<noteq> of_nat N" using eqN [of 0] Cons.prems(3) by auto
  have step: "\<exists>r. ?L x (m x) run' rs' rp' rn' = Some r \<and> run_found (pre @ cr @ x # rest) N am r"
    if "run_inv pre' cr' am x run' rs' rp' rn'" "pre' @ cr' = pre @ cr @ [x]" "length cr' < N"
    for pre' cr' run' rs' rp' rn'
  proof -
    have "pre' @ cr' @ rest = (pre' @ cr') @ rest" by simp
    also have "\<dots> = pre @ cr @ x # rest" by (simp only: that(2) append_assoc append.simps)
    finally have "pre' @ cr' @ rest = pre @ cr @ x # rest" .
    then show ?thesis using Cons.IH [OF x(3) that(1,3) Cons.prems(4)] by (simp only:)
  qed
  show ?case
  proof (cases "cr = []")
    case True
    show ?thesis
    proof (cases "x AND am = 0")
      case aligned: True
      then have inv: "run_inv pre [x] am x 1 x cur (x + PAGE_SIZE)"
        using Cons.prems(2) True run_inv_first by blast
      show ?thesis
      proof (cases "N = 1")
        case True
        then show ?thesis
          using run_inv_done [OF inv _ _ x(3), of 1] x aligned run0 \<open>cr = []\<close>
          by (subst alloc_pages_loop.simps) (simp add: Let_def)
      next
        case False
        then have "?L cur nxt run rs rp rn = ?L x (m x) 1 x cur (x + PAGE_SIZE)"
          using x aligned run0 \<open>cr = []\<close> run1 run
          by (subst alloc_pages_loop.simps) (simp add: Let_def)
        then show ?thesis using step [OF inv] False \<open>cr = []\<close> Cons.prems(3) by simp
      qed
    next
      case False
      then have "?L cur nxt run rs rp rn = ?L x (m x) 0 rs rp rn"
        using x run0 \<open>cr = []\<close> N0 by (subst alloc_pages_loop.simps) (simp add: Let_def)
      then show ?thesis
        using step [OF run_inv_skip [OF Cons.prems(2), of x]] Cons.prems(3) by simp
    qed
  next
    case ne: False
    show ?thesis
    proof (cases "x = rn")
      case True
      note inv = run_inv_extend [OF Cons.prems(2) ne, folded True]
      show ?thesis
      proof (cases "Suc (length cr) = N")
        case full: True
        have "run_found (pre @ (cr @ [x]) @ rest) N am (rs, Some (rp, m x))"
          using inv full x(3) by (intro run_inv_done) auto
        then show ?thesis
          using x ne run0 True run1 full
          by (subst alloc_pages_loop.simps) (simp add: Let_def)
      next
        case False
        then have "?L cur nxt run rs rp rn = ?L x (m x) (run + 1) rs rp (rn + PAGE_SIZE)"
          using x ne run0 True run1 by (subst alloc_pages_loop.simps) (simp add: Let_def)
        then show ?thesis using step [OF inv] False Cons.prems(3) True by simp
      qed
    next
      case False
      then have "?L cur nxt run rs rp rn = ?L x (m x) 0 rs rp rn"
        using x ne run0 N0 by (subst alloc_pages_loop.simps) (simp add: Let_def)
      then show ?thesis
        using step [OF run_inv_skip [OF Cons.prems(2), of x]] Cons.prems(3) by simp
    qed
  qed
qed

lemma alloc_pages_cases:
  assumes "free_inv s xs" "order < 64"
  shows "\<exists>s' p. alloc_pages order s = Inr (s', p) \<and>
    (p = 0 \<and> s' = s \<or>
     (\<exists>as bs. xs = as @ pages p (2 ^ unat order) @ bs \<and> free_inv s' (as @ bs) \<and>
        p AND (push_bit (PAGE_SHIFT + unat order) 1 - 1) = 0 \<and>
        (\<forall>a. a \<notin> set xs \<longrightarrow> cells s' a = cells s a)))"
proof -
  let ?o = "unat order" let ?N = "2 ^ ?o :: nat"
  let ?n = "push_bit ?o 1 :: u64" let ?am = "push_bit PAGE_SHIFT ?n - 1"
  have o: "?o < 64" using assms(2) by (simp add: word_less_nat_alt)
  then have N: "?N < 2 ^ 64" by (intro power_strict_increasing) simp_all
  have n: "?n = of_nat ?N" by (simp add: push_bit_eq_mult)
  have am: "?am = push_bit (PAGE_SHIFT + ?o) 1 - 1" by (simp only: push_bit_push_bit)
  have inv: "seg (cells s) (freelist s) xs 0" "distinct xs" "\<forall>x \<in> set xs. page_ok x"
    using assms(1) by (auto simp: free_inv_def)
  have "run_inv [] [] ?am 0 0 0 0 0" by (simp add: run_inv_def)
  from alloc_pages_loop_finds [OF inv(1) this _ N] obtain r where
    r: "alloc_pages_loop (cells s) ?n ?am 0 (freelist s) 0 0 0 0 = Some r" "run_found xs ?N ?am r"
    unfolding n by auto
  show ?thesis
  proof (cases "r = (0, None)")
    case True
    then show ?thesis using r(1) assms(2) by (simp add: alloc_pages_def Let_def)
  next
    case False
    then obtain as bs st where xs: "xs = as @ pages st ?N @ bs" and st: "st AND ?am = 0"
      and req: "r = (st, Some (if as = [] then 0 else last as, if bs = [] then 0 else hd bs))"
      using r(2) unfolding run_found_def by blast
    let ?nxt = "if bs = [] then 0 else hd bs"
    let ?s' = "if as = [] then s\<lparr>freelist := ?nxt\<rparr> else s\<lparr>cells := (cells s)(last as := ?nxt)\<rparr>"
    have nz: "as \<noteq> [] \<Longrightarrow> last as \<noteq> 0" using inv(3) xs by (auto simp: page_ok_def)
    then have run: "alloc_pages order s = Inr (?s', st)"
      using r(1) req assms(2) by (simp add: alloc_pages_def Let_def)
    obtain q q' where q: "seg (cells s) (freelist s) as q" "seg (cells s) q' bs 0"
      using inv(1) xs by auto
    then have q': "q' = ?nxt" using seg_head by blast
    have "free_inv ?s' (as @ bs)"
    proof (cases "as = []")
      case True
      then show ?thesis using q q' inv xs by (simp add: free_inv_def)
    next
      case False
      then have "last as \<notin> set bs" using inv(2) xs by (metis Un_iff disjoint_iff distinct_append last_in_set set_append)
      then show ?thesis
        using False q q' inv xs seg_relink [of "cells s" "freelist s" as q ?nxt]
        by (auto simp: free_inv_def)
    qed
    moreover have "\<forall>a. a \<notin> set xs \<longrightarrow> cells ?s' a = cells s a" using xs by auto
    ultimately show ?thesis using run xs st unfolding am by blast
  qed
qed



text \<open>
  the search does not restart at the page that breaks a run, so it can return NULL although
  the list holds a naturally aligned run of the size asked for.
\<close>

theorem alloc_pages_can_miss_run:
  "let s = \<lparr>cells = (\<lambda>_. 0)(0x2000 := 0x4000, 0x4000 := 0x5000), freelist = 0x2000\<rparr>
   in seg (cells s) (freelist s) [0x2000, 0x4000, 0x5000] 0 \<and>
      (case alloc_pages 1 s of Inr (_, p) \<Rightarrow> p = 0 | Inl _ \<Rightarrow> False)"
  unfolding Let_def by (intro conjI) code_simp+

section \<open>The order of an allocation\<close>

lemma memalign_order:
  assumes "n \<noteq> 0" "unat n \<le> 2 ^ 62"
  defines "order \<equiv> (if is_power_of_2 n then fls n else fls n + 1)"
  shows "order < 64" "unat n \<le> 2 ^ unat order" "2 ^ unat order < 2 * unat n"
proof -
  note b = fls_bounds [OF assms(1)]
  have f: "unat (fls n) \<le> 62"
  proof (rule ccontr)
    assume "\<not> unat (fls n) \<le> 62"
    then have "(2 :: nat) ^ 63 \<le> 2 ^ unat (fls n)" by (intro power_increasing) simp_all
    with b(1) assms(2) show False by simp
  qed
  then have suc: "unat (fls n + 1) = Suc (unat (fls n))" by (simp add: unat_add_noov)
  have pow: "unat n = 2 ^ unat (fls n)" if p: "is_power_of_2 n"
  proof -
    obtain k where k: "k < 64" "n = 2 ^ k"
      using is_power_of_2_cases [OF p] by blast
    then have "unat n = 2 ^ k" by (simp add: unat_power2_64)
    with b(1,2) have "(2 :: nat) ^ unat (fls n) \<le> 2 ^ k" "(2 :: nat) ^ k < 2 ^ Suc (unat (fls n))" by simp_all
    then have "unat (fls n) = k"
      using power_le_imp_le_exp [of "2 :: nat" "unat (fls n)" k]
        power_less_imp_less_exp [of "2 :: nat" k "Suc (unat (fls n))"] by simp
    with \<open>unat n = 2 ^ k\<close> show ?thesis by simp
  qed
  have npow: "unat n \<noteq> 2 ^ unat (fls n)" if "\<not> is_power_of_2 n"
  proof
    assume "unat n = 2 ^ unat (fls n)"
    moreover have "unat (fls n) < 64" using f by simp
    ultimately have "n = 2 ^ unat (fls n)" by (simp add: word_unat_eq_iff unat_power2_64)
    then show False using that \<open>unat (fls n) < 64\<close> is_power_of_2_pow by metis
  qed
  show "order < 64" using f suc by (simp add: order_def word_less_nat_alt)
  show "unat n \<le> 2 ^ unat order" using b pow suc by (auto simp: order_def)
  show "2 ^ unat order < 2 * unat n" using b pow npow suc assms(1)
    by (auto simp: order_def unat_gt_0 le_less)
qed

text \<open>
  \<open>memalign\<close> of the page allocator returns NULL and changes nothing, or takes out of the free
  list a run that covers the size asked for and is less than twice the pages needed.
\<close>

theorem page_memalign_covers:
  assumes "free_inv s xs" "sz \<noteq> 0" "unat sz < 2 ^ 64 - 4096"
  shows "\<exists>s' p. page_memalign al sz s = Inr (s', p) \<and>
    (p = 0 \<and> s' = s \<or>
     (\<exists>k as bs. xs = as @ pages p (2 ^ k) @ bs \<and> free_inv s' (as @ bs) \<and>
        unat sz \<le> 4096 * 2 ^ k \<and> 2 ^ k < 2 * ((unat sz + 4095) div 4096)))"
proof -
  let ?n = "drop_bit PAGE_SHIFT (ALIGN sz PAGE_SIZE)"
  let ?order = "if is_power_of_2 ?n then fls ?n else fls ?n + 1"
  have "(PAGE_SIZE :: u64) = 2 ^ 12" by simp
  then have "unat (ALIGN sz PAGE_SIZE) = (unat sz + 4095) div 4096 * 4096"
    using ALIGN_unat [of 12 sz] assms(3) by simp
  then have n: "unat ?n = (unat sz + 4095) div 4096"
    by (simp add: unat_drop_bit_64 PAGE_SHIFT_def del: PAGE_SIZE_eq)
  have "0 < unat sz" using assms(2) by (simp add: unat_gt_0)
  then have "0 < unat ?n" unfolding n by (simp add: div_greater_zero_iff)
  then have n0: "?n \<noteq> 0" by (simp add: unat_gt_0 del: PAGE_SIZE_eq)
  have "unat ?n \<le> 2 ^ 62" unfolding n using assms(3) by simp
  note o = memalign_order [OF n0 this]
  have "unat sz \<le> 4096 * unat ?n" unfolding n
    using div_mult_mod_eq [of "unat sz + 4095" 4096] mod_less_divisor [of 4096 "unat sz + 4095"]
    by linarith
  also have "\<dots> \<le> 4096 * 2 ^ unat ?order" using o(2) by simp
  finally have "unat sz \<le> 4096 * 2 ^ unat ?order" .
  then show ?thesis
    using alloc_pages_cases [OF assms(1) o(1)] o(3) assms(2) unfolding n
    by (simp only: page_memalign_def Let_def if_False) blast
qed

lemma page_memalign_covers_witness:
  "\<exists>s' p. page_memalign 0 5000 \<lparr>cells = (\<lambda>_. 0)(0x1000 := 0x2000, 0x2000 := 0x3000), freelist = 0x1000\<rparr>
     = Inr (s', p)"
proof -
  let ?s = "\<lparr>cells = (\<lambda>_. 0)(0x1000 := 0x2000, 0x2000 := 0x3000), freelist = 0x1000\<rparr>"
  have "page_ok 0x1000" "page_ok 0x2000" "page_ok 0x3000" unfolding page_ok_def by code_simp+
  then have "free_inv ?s [0x1000, 0x2000, 0x3000]" by (simp add: free_inv_def)
  from page_memalign_covers [OF this, of 5000 0] show ?thesis by auto
qed

end
