(* ===== verification/RadixTable.thy ===== *)
theory RadixTable
  imports AllocPage
begin

text \<open>
  What the three kinds of page table of the program have in common: the x86 tables of
  \<open>lib/x86/vm.c\<close>, the nested (EPT) tables of \<open>x86/vmx.c\<close> and the second-level tables of
  \<open>lib/x86/intel-iommu.c\<close>. Each is a tree of pages of 512 entries, and each is extended by the same
  loop: walk down from the root, make the entry on the way point at a table, store at the last
  level. A format says how the entries of a kind are read; the locale \<open>radix\<close> states what the step
  that makes an entry point at a table must do, and has the theorem that installing an entry then
  changes the translation of exactly the addresses under it. Each kind of table interprets it.
\<close>

text \<open>
  \<open>out\<close> is what a leaf entry of a level gives for an address: the translation of the address.
\<close>

record 'r table_format =
  present :: "u64 \<Rightarrow> bool"
  large :: "nat \<Rightarrow> u64 \<Rightarrow> bool"
  addr :: "u64 \<Rightarrow> u64"
  out :: "nat \<Rightarrow> u64 \<Rightarrow> u64 \<Rightarrow> 'r"

text \<open>Whether an entry of a table of level \<open>Suc l\<close> points at a table of level \<open>l\<close>.\<close>

definition link :: "'r table_format \<Rightarrow> nat \<Rightarrow> u64 \<Rightarrow> bool" where
  "link F l e \<longleftrightarrow> present F e \<and> l \<noteq> 0 \<and> \<not> large F (Suc l) e"

text \<open>The translation of an address by a table of a level, as the hardware walks it.\<close>

primrec xlate :: "'r table_format \<Rightarrow> nat \<Rightarrow> cells \<Rightarrow> u64 \<Rightarrow> u64 \<Rightarrow> 'r option" where
  "xlate F 0 m pt va = None"
| "xlate F (Suc l) m pt va =
     (let e = m (slot pt va (Suc l))
      in if link F l e then xlate F l m (addr F e) va
         else if present F e then Some (out F (Suc l) e va) else None)"

text \<open>
  \<open>wf_table F l m pt A\<close>: \<open>pt\<close> is a table of level \<open>l\<close> whose tree consists of the pages \<open>A\<close>, each
  of them used once.
\<close>

primrec wf_table :: "'r table_format \<Rightarrow> nat \<Rightarrow> cells \<Rightarrow> u64 \<Rightarrow> u64 set \<Rightarrow> bool" where
  "wf_table F 0 m pt A \<longleftrightarrow> False"
| "wf_table F (Suc l) m pt A \<longleftrightarrow> page_ok pt \<and> (\<exists>B. A = insert pt (\<Union>i<512. B i) \<and>
     (\<forall>i<512. pt \<notin> B i) \<and> (\<forall>i<512. \<forall>j<512. i \<noteq> j \<longrightarrow> B i \<inter> B j = {}) \<and>
     (\<forall>i<512. if link F l (m (entry pt i)) then wf_table F l m (addr F (m (entry pt i))) (B i)
              else B i = {}))"

text \<open>The loop: \<open>ensure l a\<close> makes the entry at \<open>a\<close>, in a table of level \<open>l\<close>, point at a table.\<close>

primrec install_at ::
    "'r table_format \<Rightarrow> (nat \<Rightarrow> u64 \<Rightarrow> 'a page_alloc_scheme \<Rightarrow> err + 'a page_alloc_scheme) \<Rightarrow>
     nat \<Rightarrow> nat \<Rightarrow> u64 \<Rightarrow> u64 \<Rightarrow> u64 \<Rightarrow> 'a page_alloc_scheme \<Rightarrow> err + ('a page_alloc_scheme \<times> u64)"
  where
  "install_at F ensure 0 t pt va pte s = Inl Assert_failed"
| "install_at F ensure (Suc l) t pt va pte s =
     (let a = slot pt va (Suc l)
      in if t < Suc l
         then bindE (ensure (Suc l) a s) (\<lambda>s. install_at F ensure l t (addr F (cells s a)) va pte s)
         else Inr (s\<lparr>cells := (cells s)(a := pte)\<rparr>, a))"

text \<open>Two addresses under the same entry of level \<open>t\<close>, in a table of level \<open>l\<close>.\<close>

definition same_entry :: "nat \<Rightarrow> nat \<Rightarrow> u64 \<Rightarrow> u64 \<Rightarrow> bool" where
  "same_entry t l va va' \<longleftrightarrow> (\<forall>k. t \<le> k \<and> k \<le> l \<longrightarrow> idx va k = idx va' k)"

section \<open>Trees in unchanged memory\<close>

lemma wf_table_page: "wf_table F l m pt A \<Longrightarrow> page_ok pt \<and> pt \<in> A"
  by (cases l) auto

lemma wf_table_pages: "wf_table F l m pt A \<Longrightarrow> p \<in> A \<Longrightarrow> page_ok p"
proof (induction l arbitrary: pt A)
  case (Suc l)
  then obtain B where B: "A = insert pt (\<Union>i<512. B i)" "page_ok pt"
    "\<forall>i<512. if link F l (m (entry pt i)) then wf_table F l m (addr F (m (entry pt i))) (B i)
              else B i = {}" by auto
  show ?case
  proof (cases "p = pt")
    case False
    then obtain i where "i < 512" "p \<in> B i" using B(1) Suc.prems(2) by auto
    then show ?thesis using B(3) Suc.IH by (metis empty_iff)
  qed (use B in simp)
qed simp

lemma page_ok_aligned: "page_ok p \<Longrightarrow> p AND mask 12 = 0"
  by (simp add: page_ok_def)

lemma page_of_entry_ok [simp]: "\<lbrakk>page_ok p; i < 512\<rbrakk> \<Longrightarrow> page_of (entry p i) = p"
  by (simp add: page_ok_aligned page_of_entry)

text \<open>Memory that agrees on the pages of a tree has the same tree and the same translations.\<close>

lemma wf_table_frame:
  assumes "wf_table F l m pt A" "\<And>b. page_of b \<in> A \<Longrightarrow> m' b = m b"
  shows "wf_table F l m' pt A" "xlate F l m' pt va = xlate F l m pt va"
proof -
  have "wf_table F l m' pt A \<and> xlate F l m' pt va = xlate F l m pt va"
    using assms
  proof (induction l arbitrary: pt A)
    case (Suc l)
    obtain B where B: "A = insert pt (\<Union>i<512. B i)" "page_ok pt" "\<forall>i<512. pt \<notin> B i"
      "\<forall>i<512. \<forall>j<512. i \<noteq> j \<longrightarrow> B i \<inter> B j = {}"
      "\<forall>i<512. if link F l (m (entry pt i)) then wf_table F l m (addr F (m (entry pt i))) (B i)
                else B i = {}" using Suc.prems(1) by auto
    have e: "m' (entry pt i) = m (entry pt i)" if "i < 512" for i
      using Suc.prems(2) [of "entry pt i"] B(1,2) that by simp
    have sub: "wf_table F l m' (addr F (m (entry pt i))) (B i) \<and>
        xlate F l m' (addr F (m (entry pt i))) va = xlate F l m (addr F (m (entry pt i))) va"
      if "i < 512" "link F l (m (entry pt i))" for i
      using B(1,5) that Suc.prems(2) by (intro Suc.IH) auto
    have "wf_table F (Suc l) m' pt A" using B e sub by auto
    moreover have "xlate F (Suc l) m' pt va = xlate F (Suc l) m pt va"
      using e [of "idx va (Suc l)"] sub [of "idx va (Suc l)"] by (simp add: slot_entry Let_def)
    ultimately show ?case by blast
  qed simp
  then show "wf_table F l m' pt A" "xlate F l m' pt va = xlate F l m pt va" by auto
qed

lemma xlate_Suc:
  "xlate F (Suc l) m pt va =
    (let e = m (entry pt (idx va (Suc l)))
     in if link F l e then xlate F l m (addr F e) va
        else if present F e then Some (out F (Suc l) e va) else None)"
  by (simp add: slot_entry)

text \<open>A table of zeroes translates nothing.\<close>

lemma wf_table_zero:
  assumes "\<not> present F 0" "page_ok p" "l \<noteq> 0" "\<And>b. page_of b = p \<Longrightarrow> m b = 0"
  shows "wf_table F l m p {p}" "xlate F l m p va = None"
proof -
  obtain k where l: "l = Suc k" using assms(3) by (cases l) auto
  have "m (entry p i) = 0" if "i < 512" for i using assms(2,4) that by simp
  then show "wf_table F l m p {p}" "xlate F l m p va = None"
    using assms(1,2) by (auto simp: l link_def slot_entry intro!: exI [of _ "\<lambda>_. {}"])
qed

text \<open>Replacing one entry of a table, and the tree under it.\<close>

lemma wf_table_replace:
  assumes wf: "page_ok pt" "\<forall>i<512. pt \<notin> B i" "\<forall>i<512. \<forall>j<512. i \<noteq> j \<longrightarrow> B i \<inter> B j = {}"
      "\<forall>i<512. if link F l (m (entry pt i)) then wf_table F l m (addr F (m (entry pt i))) (B i)
               else B i = {}"
    and i: "i < 512" and new: "if link F l (m' (entry pt i)) then
        wf_table F l m' (addr F (m' (entry pt i))) D else D = {}"
    and D: "pt \<notin> D" "\<And>j. \<lbrakk>j < 512; j \<noteq> i\<rbrakk> \<Longrightarrow> B j \<inter> D = {}"
    and same: "\<And>j. \<lbrakk>j < 512; j \<noteq> i\<rbrakk> \<Longrightarrow> m' (entry pt j) = m (entry pt j)"
      "\<And>j b. \<lbrakk>j < 512; j \<noteq> i; page_of b \<in> B j\<rbrakk> \<Longrightarrow> m' b = m b"
  shows "wf_table F (Suc l) m' pt (insert pt (\<Union>j<512. (B(i := D)) j))"
    and "idx va (Suc l) \<noteq> i \<Longrightarrow> xlate F (Suc l) m' pt va = xlate F (Suc l) m pt va"
proof -
  have sub: "wf_table F l m' (addr F (m (entry pt j))) (B j)"
    "xlate F l m' (addr F (m (entry pt j))) va = xlate F l m (addr F (m (entry pt j))) va"
    if "j < 512" "j \<noteq> i" "link F l (m (entry pt j))" for j
  proof -
    have "wf_table F l m (addr F (m (entry pt j))) (B j)" using wf(4) that by simp
    from wf_table_frame [OF this same(2) [OF that(1,2)]]
    show "wf_table F l m' (addr F (m (entry pt j))) (B j)"
      "xlate F l m' (addr F (m (entry pt j))) va = xlate F l m (addr F (m (entry pt j))) va"
      by simp_all
  qed
  have "if link F l (m' (entry pt j)) then wf_table F l m' (addr F (m' (entry pt j))) ((B(i := D)) j)
        else (B(i := D)) j = {}" if "j < 512" for j
  proof (cases "j = i")
    case True
    then show ?thesis using new by simp
  next
    case False
    then have eq: "m' (entry pt j) = m (entry pt j)" "(B(i := D)) j = B j"
      using same(1) that by simp_all
    show ?thesis
      unfolding eq using wf(4) [rule_format, OF that] sub(1) [OF that False]
      by (cases "link F l (m (entry pt j))") simp_all
  qed
  moreover have "\<forall>j<512. \<forall>k<512. j \<noteq> k \<longrightarrow> (B(i := D)) j \<inter> (B(i := D)) k = {}"
    using wf(3) D(2) by (auto simp: Int_commute)
  moreover have "\<forall>j<512. pt \<notin> (B(i := D)) j" using wf(2) D(1) by simp
  ultimately show "wf_table F (Suc l) m' pt (insert pt (\<Union>j<512. (B(i := D)) j))"
    using wf(1) unfolding wf_table.simps by blast
  show "xlate F (Suc l) m' pt va = xlate F (Suc l) m pt va" if "idx va (Suc l) \<noteq> i"
    using same(1) [of "idx va (Suc l)"] sub(2) [of "idx va (Suc l)"] that
    by (simp only: xlate_Suc Let_def idx_less simp_thms)
      (auto simp: link_def)
qed

section \<open>Installing an entry\<close>

text \<open>
  The contract of the step \<open>ensure\<close>: given a free page, and the tree \<open>B\<close> under the entry at \<open>a\<close>
  (empty unless it points at a table), it leaves there an entry that points at a table, whose tree
  has the old pages and possibly one page from the free list, and which translates every address
  as the entry did; it writes only that entry and cells of free pages.
\<close>

definition ensured ::
    "'r table_format \<Rightarrow> nat \<Rightarrow> u64 \<Rightarrow> 'a page_alloc_scheme \<Rightarrow> u64 list \<Rightarrow> u64 set \<Rightarrow>
     'a page_alloc_scheme \<Rightarrow> u64 list \<Rightarrow> u64 set \<Rightarrow> bool" where
  "ensured F l a s xs B s' xs' B' \<longleftrightarrow>
     free_inv s' xs' \<and> set xs' \<subseteq> set xs \<and> length xs \<le> Suc (length xs') \<and>
     link F l (cells s' a) \<and> wf_table F l (cells s') (addr F (cells s' a)) B' \<and>
     B' \<subseteq> B \<union> set xs \<and> B' \<inter> set xs' = {} \<and>
     (\<forall>va. xlate F l (cells s') (addr F (cells s' a)) va =
        (if link F l (cells s a) then xlate F l (cells s) (addr F (cells s a)) va
         else if present F (cells s a) then Some (out F (Suc l) (cells s a) va) else None)) \<and>
     (\<forall>b. b \<noteq> a \<and> page_of b \<notin> set xs \<longrightarrow> cells s' b = cells s b)"

lemma ensured_link:
  assumes "link F l (cells s a)" "wf_table F l (cells s) (addr F (cells s a)) B" "free_inv s xs"
    "B \<inter> set xs = {}"
  shows "ensured F l a s xs B s xs B"
  using assms by (simp add: ensured_def)

text \<open>An absent entry becomes a link \<open>e\<close> to a fresh page of zeroes.\<close>

lemma ensured_new_table:
  assumes F: "\<not> present F 0" "link F l e" "addr F e = x" "\<not> present F (cells s a)"
    and free: "free_inv s (x # xs)" "page_of a \<notin> set (x # xs)"
  shows "ensured F l a s (x # xs) {}
    (s\<lparr>freelist := cells s x, cells := (zero_page (cells s) x)(a := e)\<rparr>) xs {x}"
proof -
  let ?m = "(zero_page (cells s) x)(a := e)"
  let ?s = "s\<lparr>freelist := cells s x, cells := ?m\<rparr>"
  have x: "page_ok x" "x \<notin> set xs" "\<forall>y \<in> set xs. page_ok y" "distinct xs"
    "seg (cells s) (cells s x) xs 0" using free(1) by (auto simp: free_inv_def)
  have zero: "zero_page (cells s) x = (\<lambda>b. if page_of b = x then 0 else cells s b)"
    using x(1) by (simp add: zero_page_page page_ok_aligned)
  have pages: "page_of y = y" if "y \<in> set xs" for y using that x(3) page_of_page by blast
  have m: "?m b = cells s b" if "b \<noteq> a" "page_of b \<noteq> x" for b using that by (simp add: zero)
  have "seg ?m (cells s x) xs 0 \<longleftrightarrow> seg (cells s) (cells s x) xs 0"
  proof (rule seg_cong)
    fix y assume y: "y \<in> set xs"
    then have "y \<noteq> a" "page_of y \<noteq> x" using free(2) pages x(2) by auto
    then show "?m y = cells s y" by (rule m)
  qed
  then have inv: "free_inv ?s xs" using x by (simp add: free_inv_def)
  have l: "l \<noteq> 0" using F(2) by (simp add: link_def)
  have z: "?m b = 0" if "page_of b = x" for b using that free(2) by (auto simp: zero)
  have tab: "wf_table F l (cells ?s) (addr F (cells ?s a)) {x}"
    using wf_table_zero(1) [of F x l ?m, OF F(1) x(1) l z] F(3) by simp
  have xl: "\<forall>va. xlate F l (cells ?s) (addr F (cells ?s a)) va =
      (if link F l (cells s a) then xlate F l (cells s) (addr F (cells s a)) va
       else if present F (cells s a) then Some (out F (Suc l) (cells s a) va) else None)"
    using wf_table_zero(2) [of F x l ?m, OF F(1) x(1) l z] F(3,4) by (simp add: link_def)
  have fr: "\<forall>b. b \<noteq> a \<and> page_of b \<notin> set (x # xs) \<longrightarrow> cells ?s b = cells s b" using m by simp
  have "link F l (cells ?s a)" using F(2) by simp
  then show ?thesis
    unfolding ensured_def using inv tab xl fr x(2)
    by (intro conjI) (assumption | rule subset_insertI2 | simp)+
qed

locale radix =
  fixes F :: "'r table_format"
    and ensure :: "nat \<Rightarrow> u64 \<Rightarrow> 'a page_alloc_scheme \<Rightarrow> err + 'a page_alloc_scheme"
    and top :: nat
    and blocked :: "nat \<Rightarrow> 'r \<Rightarrow> bool"
  assumes ensure_law:
    "\<lbrakk>0 < l; Suc l \<le> top; free_inv s xs; xs \<noteq> []; t < Suc l;
      link F l (cells s a) \<or> \<not> present F (cells s a) \<or> \<not> blocked t (out F (Suc l) (cells s a) va);
      if link F l (cells s a) then wf_table F l (cells s) (addr F (cells s a)) B else B = {};
      B \<inter> set xs = {}; page_of a \<notin> B \<union> set xs\<rbrakk> \<Longrightarrow>
     \<exists>s' xs' B'. ensure (Suc l) a s = Inr s' \<and> ensured F l a s xs B s' xs' B'"
begin

definition installed ::
    "nat \<Rightarrow> nat \<Rightarrow> u64 \<Rightarrow> u64 \<Rightarrow> u64 \<Rightarrow> 'a page_alloc_scheme \<Rightarrow> u64 list \<Rightarrow> u64 set \<Rightarrow>
     'a page_alloc_scheme \<Rightarrow> u64 list \<Rightarrow> u64 set \<Rightarrow> bool" where
  "installed l t pt va pte s xs A s' xs' A' \<longleftrightarrow>
     free_inv s' xs' \<and> set xs' \<subseteq> set xs \<and> length xs \<le> l - t + length xs' \<and>
     wf_table F l (cells s') pt A' \<and> A' \<subseteq> A \<union> set xs \<and> A' \<inter> set xs' = {} \<and>
     (\<forall>va'. xlate F l (cells s') pt va' =
        (if same_entry t l va va' then if present F pte then Some (out F t pte va') else None
         else xlate F l (cells s) pt va')) \<and>
     (\<forall>b. page_of b \<notin> A \<union> set xs \<longrightarrow> cells s' b = cells s b)"

lemma install_leaf:
  assumes wf: "wf_table F (Suc l) (cells s) pt A" and free: "free_inv s xs" "A \<inter> set xs = {}"
    and pte: "\<not> link F l pte"
  shows "\<exists>s' A'. install_at F ensure (Suc l) (Suc l) pt va pte s = Inr (s', slot pt va (Suc l)) \<and>
    cells s' (slot pt va (Suc l)) = pte \<and> installed (Suc l) (Suc l) pt va pte s xs A s' xs A'"
proof -
  let ?a = "slot pt va (Suc l)" and ?i = "idx va (Suc l)"
  let ?s = "s\<lparr>cells := (cells s)(?a := pte)\<rparr>"
  obtain B where A: "A = insert pt (\<Union>i<512. B i)" and B: "page_ok pt" "\<forall>i<512. pt \<notin> B i"
    "\<forall>i<512. \<forall>j<512. i \<noteq> j \<longrightarrow> B i \<inter> B j = {}"
    "\<forall>i<512. if link F l (cells s (entry pt i)) then
        wf_table F l (cells s) (addr F (cells s (entry pt i))) (B i) else B i = {}"
    using wf by auto
  have a: "?a = entry pt ?i" "page_of ?a = pt" using B(1) by (simp_all add: slot_entry)
  have new: "cells ?s (entry pt ?i) = pte" by (simp add: a)
  have other: "cells ?s (entry pt j) = cells s (entry pt j)" if "j < 512" "j \<noteq> ?i" for j
    using that entry_inj by (auto simp: a)
  have sub: "cells ?s b = cells s b" if "j < 512" "j \<noteq> ?i" "page_of b \<in> B j" for j b
    using that B(2) a(2) by auto
  let ?A = "insert pt (\<Union>j<512. (B(?i := {})) j)"
  have "if link F l (cells ?s (entry pt ?i)) then
      wf_table F l (cells ?s) (addr F (cells ?s (entry pt ?i))) {} else ({} :: u64 set) = {}"
    unfolding new using pte by simp
  note rep = wf_table_replace [where m = "cells s" and m' = "cells ?s" and D = "{}",
    OF B idx_less this _ _ other sub]
  have wf': "wf_table F (Suc l) (cells ?s) pt ?A" by (rule rep(1)) simp_all
  have sub_A: "?A \<subseteq> A" using A by auto
  have free': "free_inv ?s xs"
  proof -
    have "?a \<notin> set xs"
    proof
      assume "?a \<in> set xs"
      then have "page_of ?a = ?a" using free(1) page_of_page by (auto simp: free_inv_def)
      then show False using \<open>?a \<in> set xs\<close> free(2) A a(2) by auto
    qed
    then show ?thesis using free(1) by (simp add: free_inv_def)
  qed
  have xl: "xlate F (Suc l) (cells ?s) pt va' =
      (if same_entry (Suc l) (Suc l) va va' then if present F pte then Some (out F (Suc l) pte va') else None
       else xlate F (Suc l) (cells s) pt va')" for va'
  proof (cases "idx va' (Suc l) = ?i")
    case True
    then have "same_entry (Suc l) (Suc l) va va'" by (auto simp: same_entry_def le_Suc_eq not_less_eq_eq [symmetric])
    then show ?thesis using True new pte by (simp add: xlate_Suc Let_def del: xlate.simps)
  next
    case False
    then have "\<not> same_entry (Suc l) (Suc l) va va'" by (auto simp: same_entry_def)
    moreover have "xlate F (Suc l) (cells ?s) pt va' = xlate F (Suc l) (cells s) pt va'"
      by (rule rep(2)) (use False in simp_all)
    ultimately show ?thesis by simp
  qed
  have frame: "cells ?s b = cells s b" if "page_of b \<notin> A \<union> set xs" for b
    using that A a(2) by auto
  have "installed (Suc l) (Suc l) pt va pte s xs A ?s xs ?A"
    unfolding installed_def
    by (intro conjI allI impI)
      (rule free', simp, simp, rule wf', use sub_A in blast, use sub_A free(2) in blast,
        rule xl, rule frame, assumption)
  moreover have "install_at F ensure (Suc l) (Suc l) pt va pte s = Inr (?s, ?a)"
    by (simp only: install_at.simps Let_def less_irrefl if_False)
  moreover have "cells ?s ?a = pte" by simp
  ultimately show ?thesis by blast
qed

lemma same_entry_Suc:
  "t \<le> l \<Longrightarrow> same_entry t (Suc l) va va' \<longleftrightarrow>
     idx va (Suc l) = idx va' (Suc l) \<and> same_entry t l va va'"
  by (auto simp: same_entry_def le_Suc_eq)

lemma install_step:
  assumes IH: "\<And>pt A s xs. \<lbrakk>wf_table F l (cells s) pt A; free_inv s xs; A \<inter> set xs = {};
      t \<le> l; l - t \<le> length xs; \<And>r. xlate F l (cells s) pt va = Some r \<Longrightarrow> \<not> blocked t r\<rbrakk> \<Longrightarrow>
      \<exists>s' a xs' A'. install_at F ensure l t pt va pte s = Inr (s', a) \<and> cells s' a = pte \<and>
        installed l t pt va pte s xs A s' xs' A'"
    and wf: "wf_table F (Suc l) (cells s) pt A" and free: "free_inv s xs" "A \<inter> set xs = {}"
    and t: "0 < t" "t \<le> l" "Suc l - t \<le> length xs" "Suc l \<le> top"
    and unblocked: "\<And>r. xlate F (Suc l) (cells s) pt va = Some r \<Longrightarrow> \<not> blocked t r"
  shows "\<exists>s' a xs' A'. install_at F ensure (Suc l) t pt va pte s = Inr (s', a) \<and> cells s' a = pte \<and>
    installed (Suc l) t pt va pte s xs A s' xs' A'"
proof -
  let ?a = "slot pt va (Suc l)" and ?i = "idx va (Suc l)"
  obtain B where A: "A = insert pt (\<Union>i<512. B i)" and B: "page_ok pt" "\<forall>i<512. pt \<notin> B i"
    "\<forall>i<512. \<forall>j<512. i \<noteq> j \<longrightarrow> B i \<inter> B j = {}"
    "\<forall>i<512. if link F l (cells s (entry pt i)) then
        wf_table F l (cells s) (addr F (cells s (entry pt i))) (B i) else B i = {}"
    using wf by auto
  have a: "?a = entry pt ?i" "page_of ?a = pt" using B(1) by (simp_all add: slot_entry)
  have "if link F l (cells s ?a) then wf_table F l (cells s) (addr F (cells s ?a)) (B ?i) else B ?i = {}"
    using B(4) by (simp add: a)
  moreover have Bi: "B ?i \<subseteq> A" "pt \<in> A" using A by auto
  moreover have "xs \<noteq> []" using t by auto
  moreover have "page_of ?a \<notin> B ?i \<union> set xs" using B(2) Bi free(2) unfolding a(2) by auto
  moreover have "B ?i \<inter> set xs = {}" using Bi(1) free(2) by blast
  moreover have "0 < l" "t < Suc l" using t by simp_all
  moreover have "link F l (cells s ?a) \<or> \<not> present F (cells s ?a) \<or>
      \<not> blocked t (out F (Suc l) (cells s ?a) va)"
    using unblocked by (auto simp: Let_def)
  ultimately obtain s1 xs1 B1 where run1: "ensure (Suc l) ?a s = Inr s1"
    and e1: "ensured F l ?a s xs (B ?i) s1 xs1 B1"
    using ensure_law [of l s xs t ?a va "B ?i"] t(4) free(1) by blast
  have s1: "free_inv s1 xs1" "set xs1 \<subseteq> set xs" "length xs \<le> Suc (length xs1)" "link F l (cells s1 ?a)"
    "wf_table F l (cells s1) (addr F (cells s1 ?a)) B1" "B1 \<subseteq> B ?i \<union> set xs" "B1 \<inter> set xs1 = {}"
    and xl1: "\<And>va. xlate F l (cells s1) (addr F (cells s1 ?a)) va =
        (if link F l (cells s ?a) then xlate F l (cells s) (addr F (cells s ?a)) va
         else if present F (cells s ?a) then Some (out F (Suc l) (cells s ?a) va) else None)"
    and fr1: "\<And>b. \<lbrakk>b \<noteq> ?a; page_of b \<notin> set xs\<rbrakk> \<Longrightarrow> cells s1 b = cells s b"
    using e1 unfolding ensured_def by blast+
  have len1: "l - t \<le> length xs1" using s1(3) t by simp
  have un1: "\<not> blocked t r" if "xlate F l (cells s1) (addr F (cells s1 ?a)) va = Some r" for r
    using unblocked [of r] that unfolding xl1 by (simp only: xlate_Suc Let_def a(1) simp_thms)
  obtain s2 c xs2 B2 where
    run2: "install_at F ensure l t (addr F (cells s1 ?a)) va pte s1 = Inr (s2, c)" "cells s2 c = pte"
    and i2: "installed l t (addr F (cells s1 ?a)) va pte s1 xs1 B1 s2 xs2 B2"
    using IH [OF s1(5,1,7) t(2) len1 un1] by blast
  have s2: "free_inv s2 xs2" "set xs2 \<subseteq> set xs1" "length xs1 \<le> l - t + length xs2"
    "wf_table F l (cells s2) (addr F (cells s1 ?a)) B2" "B2 \<subseteq> B1 \<union> set xs1" "B2 \<inter> set xs2 = {}"
    and xl2: "\<And>va'. xlate F l (cells s2) (addr F (cells s1 ?a)) va' =
        (if same_entry t l va va' then if present F pte then Some (out F t pte va') else None
         else xlate F l (cells s1) (addr F (cells s1 ?a)) va')"
    and fr2: "\<And>b. page_of b \<notin> B1 \<union> set xs1 \<Longrightarrow> cells s2 b = cells s1 b"
    using i2 unfolding installed_def by blast+
  have pt: "pt \<notin> B1 \<union> set xs1" using s1(2,6) B(2) Bi(2) free(2) by auto
  then have e2: "cells s2 ?a = cells s1 ?a" using fr2 [of ?a] a(2) by simp
  have away: "cells s2 b = cells s b" if "b \<noteq> ?a" "page_of b \<notin> B ?i \<union> set xs" for b
  proof -
    have "page_of b \<notin> B1 \<union> set xs1" using that(2) s1(2,6) by blast
    then show ?thesis using fr1 [OF that(1)] fr2 that(2) by simp
  qed
  have other: "cells s2 (entry pt j) = cells s (entry pt j)" if "j < 512" "j \<noteq> ?i" for j
  proof (rule away)
    show "entry pt j \<noteq> ?a" using that entry_inj by (auto simp: a(1))
    show "page_of (entry pt j) \<notin> B ?i \<union> set xs" using that B(1,2) Bi(2) free(2) by auto
  qed
  have sub: "cells s2 b = cells s b" if "j < 512" "j \<noteq> ?i" "page_of b \<in> B j" for j b
  proof (rule away)
    show "b \<noteq> ?a" using that B(2) a(2) by auto
    have "B j \<inter> B ?i = {}" using B(3) that by simp
    moreover have "B j \<subseteq> A" using A that by auto
    ultimately show "page_of b \<notin> B ?i \<union> set xs" using that(3) free(2) by blast
  qed
  have dis: "B j \<inter> B2 = {}" if "j < 512" "j \<noteq> ?i" for j
  proof -
    have "B j \<inter> B ?i = {}" "B j \<subseteq> A" using B(3) A that by auto
    then show ?thesis using s2(5) s1(2,6) free(2) by blast
  qed
  let ?A = "insert pt (\<Union>j<512. (B(?i := B2)) j)"
  have new: "if link F l (cells s2 (entry pt ?i)) then
      wf_table F l (cells s2) (addr F (cells s2 (entry pt ?i))) B2 else B2 = {}"
    using e2 s1(4) s2(4) by (simp add: a(1))
  have ptB2: "pt \<notin> B2" using pt s2(5) by auto
  note rep = wf_table_replace [where m = "cells s" and m' = "cells s2" and D = B2,
    OF B idx_less new ptB2 dis other sub]
  have wf': "wf_table F (Suc l) (cells s2) pt ?A" by (rule rep(1))
  have B2A: "B2 \<subseteq> A \<union> set xs" using s2(5) s1(2,6) Bi(1) by blast
  have UnA: "(\<Union>j<512. (B(?i := B2)) j) \<subseteq> A \<union> B2" using A by auto
  have sub_A: "?A \<subseteq> A \<union> set xs" using Bi(2) B2A UnA by blast
  have disj_A: "?A \<inter> set xs2 = {}"
  proof -
    have "set xs2 \<subseteq> set xs" using s2(2) s1(2) by blast
    then show ?thesis using free(2) s2(6) Bi(2) UnA by blast
  qed
  have xl: "xlate F (Suc l) (cells s2) pt va' =
      (if same_entry t (Suc l) va va' then if present F pte then Some (out F t pte va') else None
       else xlate F (Suc l) (cells s) pt va')" for va'
  proof (cases "idx va' (Suc l) = ?i")
    case True
    have "xlate F (Suc l) (cells s2) pt va' = xlate F l (cells s2) (addr F (cells s1 ?a)) va'"
      using True e2 s1(4) by (simp only: xlate_Suc Let_def a(1)) simp
    moreover have "xlate F (Suc l) (cells s) pt va' = xlate F l (cells s1) (addr F (cells s1 ?a)) va'"
      unfolding xl1 using True by (simp only: xlate_Suc Let_def a(1))
    ultimately show ?thesis using xl2 True t(2) by (simp only: same_entry_Suc simp_thms)
  next
    case False
    then have "\<not> same_entry t (Suc l) va va'" using t(2) by (auto simp: same_entry_Suc)
    moreover have "xlate F (Suc l) (cells s2) pt va' = xlate F (Suc l) (cells s) pt va'"
      by (rule rep(2); (assumption | rule False))
    ultimately show ?thesis by simp
  qed
  have frame: "cells s2 b = cells s b" if "page_of b \<notin> A \<union> set xs" for b
    using that Bi a(2) by (intro away) auto
  have "installed (Suc l) t pt va pte s xs A s2 xs2 ?A"
    unfolding installed_def
    by (intro conjI allI impI)
      (rule s2(1), use s2(2) s1(2) in blast, use s2(3) s1(3) t(2) in simp, rule wf', rule sub_A,
        rule disj_A, rule xl, rule frame, assumption)
  moreover have "install_at F ensure (Suc l) t pt va pte s = Inr (s2, c)"
    using t(2) run1 run2(1) by (simp add: Let_def)
  ultimately show ?thesis using run2(2) by blast
qed

lemma install_at_correct:
  assumes "wf_table F l (cells s) pt A" "free_inv s xs" "A \<inter> set xs = {}"
    and "0 < t" "t \<le> l" "l \<le> top" "l - t \<le> length xs" "\<not> link F (t - 1) pte"
    and "\<And>r. xlate F l (cells s) pt va = Some r \<Longrightarrow> \<not> blocked t r"
  shows "\<exists>s' a xs' A'. install_at F ensure l t pt va pte s = Inr (s', a) \<and> cells s' a = pte \<and>
    installed l t pt va pte s xs A s' xs' A'"
  using assms
proof (induction l arbitrary: pt A s xs)
  case (Suc l)
  show ?case
  proof (cases "t = Suc l")
    case True
    then show ?thesis using install_leaf [OF Suc.prems(1-3), of pte va] Suc.prems(8) by auto
  next
    case False
    then show ?thesis using Suc.prems by (intro install_step Suc.IH) auto
  qed
qed simp

end

end
