(* ===== verification/X86Vm.thy ===== *)
theory X86Vm
  imports RadixTable
begin

text \<open>
  The page tables of the test programs themselves, \<open>lib/x86/vm.c\<close>, \<open>lib/x86/vm.h\<close> and
  \<open>lib/x86/asm/page.h\<close>, four levels of 512 entries. The state is the page allocator with the two
  control registers \<open>setup_mmu\<close> writes. Levels count from 1, the level of 4K pages.
\<close>

definition PT_PRESENT_MASK :: u64 where "PT_PRESENT_MASK = push_bit 0 1"
definition PT_WRITABLE_MASK :: u64 where "PT_WRITABLE_MASK = push_bit 1 1"
definition PT_USER_MASK :: u64 where "PT_USER_MASK = push_bit 2 1"
definition PT_ACCESSED_MASK :: u64 where "PT_ACCESSED_MASK = push_bit 5 1"
definition PT_DIRTY_MASK :: u64 where "PT_DIRTY_MASK = push_bit 6 1"
definition PT_PAGE_SIZE_MASK :: u64 where "PT_PAGE_SIZE_MASK = push_bit 7 1"
definition PT64_NX_MASK :: u64 where "PT64_NX_MASK = push_bit 63 1"
definition PT_ADDR_MASK :: u64 where "PT_ADDR_MASK = GENMASK_ULL 51 12"
definition PT_AD_MASK :: u64 where "PT_AD_MASK = PT_ACCESSED_MASK OR PT_DIRTY_MASK"

definition PAGE_LEVEL :: nat where "PAGE_LEVEL = 4"
definition LARGE_PAGE_SIZE :: u64 where "LARGE_PAGE_SIZE = 512 * PAGE_SIZE"

record vm_state = page_alloc +
  cr0_reg :: u64
  cr3_reg :: u64

record pte_search =
  level :: nat
  pte_ptr :: u64

section \<open>Installing entries\<close>

text \<open>
  The loop of \<open>install_pte\<close>: \<open>pt_page\<close> is a page the caller offers for the first missing table,
  or NULL. The result is the table of the last level.
\<close>

function install_pte_loop ::
    "nat \<Rightarrow> u64 \<Rightarrow> nat \<Rightarrow> u64 \<Rightarrow> u64 \<Rightarrow> 'a page_alloc_scheme \<Rightarrow> 'a page_alloc_scheme \<times> u64 \<times> nat" where
  "install_pte_loop pte_level virt lvl pt pt_page s =
     (if pte_level < lvl then
        let offset = PGDIR_OFFSET virt lvl;
            (s, pt_page) =
              (if cells s (pt + 8 * offset) AND PT_PRESENT_MASK = 0 then
                 let (s, new_pt, pt_page) =
                       (if pt_page = 0 then let (s, p) = alloc_page s in (s, p, pt_page)
                        else (s, pt_page, 0));
                     s = s\<lparr>cells := zero_page (cells s) new_pt\<rparr>
                 in (s\<lparr>cells := (cells s)(pt + 8 * offset :=
                        new_pt OR PT_PRESENT_MASK OR PT_WRITABLE_MASK OR PT_USER_MASK)\<rparr>, pt_page)
               else (s, pt_page))
        in install_pte_loop pte_level virt (lvl - 1) (cells s (pt + 8 * offset) AND PT_ADDR_MASK)
             pt_page s
      else (s, pt, lvl))"
  by pat_completeness auto
termination by (relation "measure (\<lambda>(t, virt, lvl, pt, pt_page, s). lvl)") auto

declare install_pte_loop.simps [simp del]

definition install_pte ::
    "u64 \<Rightarrow> nat \<Rightarrow> u64 \<Rightarrow> u64 \<Rightarrow> u64 \<Rightarrow> 'a page_alloc_scheme \<Rightarrow> 'a page_alloc_scheme \<times> u64" where
  "install_pte cr3 pte_level virt pte pt_page s =
     (let (s, pt, lvl) = install_pte_loop pte_level virt PAGE_LEVEL cr3 pt_page s;
          offset = PGDIR_OFFSET virt lvl
      in (s\<lparr>cells := (cells s)(pt + 8 * offset := pte)\<rparr>, pt + 8 * offset))"

definition install_large_page ::
    "u64 \<Rightarrow> u64 \<Rightarrow> u64 \<Rightarrow> 'a page_alloc_scheme \<Rightarrow> 'a page_alloc_scheme \<times> u64" where
  "install_large_page cr3 phys virt s =
     install_pte cr3 2 virt
       (phys OR PT_PRESENT_MASK OR PT_WRITABLE_MASK OR PT_USER_MASK OR PT_PAGE_SIZE_MASK) 0 s"

definition install_page ::
    "u64 \<Rightarrow> u64 \<Rightarrow> u64 \<Rightarrow> 'a page_alloc_scheme \<Rightarrow> 'a page_alloc_scheme \<times> u64" where
  "install_page cr3 phys virt s =
     install_pte cr3 1 virt (phys OR PT_PRESENT_MASK OR PT_WRITABLE_MASK OR PT_USER_MASK) 0 s"

section \<open>Looking entries up\<close>

text \<open>
  The loop of \<open>find_pte_level\<close>; \<open>lowest_level\<close> is at least 1, so it stops there at the latest.
\<close>

primrec find_pte_loop :: "cells \<Rightarrow> u64 \<Rightarrow> nat \<Rightarrow> nat \<Rightarrow> u64 \<Rightarrow> err + pte_search" where
  "find_pte_loop m virt lowest_level 0 pt = Inl Diverges"
| "find_pte_loop m virt lowest_level (Suc l) pt =
     (let shift = (Suc l - 1) * 9 + 12;
          offset = drop_bit shift virt AND 511;
          r = \<lparr>level = Suc l, pte_ptr = pt + 8 * offset\<rparr>;
          pte = m (pte_ptr r)
      in if pte AND PT_PRESENT_MASK = 0 then Inr r
         else if (level r = 2 \<or> level r = 3) \<and> pte AND PT_PAGE_SIZE_MASK \<noteq> 0 then Inr r
         else if level r = lowest_level then Inr r
         else find_pte_loop m virt lowest_level l (pte AND 0xffffffffff000))"

definition find_pte_level :: "cells \<Rightarrow> u64 \<Rightarrow> u64 \<Rightarrow> nat \<Rightarrow> err + pte_search" where
  "find_pte_level m cr3 virt lowest_level =
     bindE (assertE (1 \<le> lowest_level \<and> lowest_level \<le> PAGE_LEVEL))
       (\<lambda>_. find_pte_loop m virt lowest_level PAGE_LEVEL cr3)"

definition found_huge_pte :: "cells \<Rightarrow> pte_search \<Rightarrow> bool" where
  "found_huge_pte m search \<longleftrightarrow> (level search = 2 \<or> level search = 3) \<and>
     m (pte_ptr search) AND PT_PRESENT_MASK \<noteq> 0 \<and> m (pte_ptr search) AND PT_PAGE_SIZE_MASK \<noteq> 0"

definition found_leaf_pte :: "cells \<Rightarrow> pte_search \<Rightarrow> bool" where
  "found_leaf_pte m search \<longleftrightarrow> level search = 1 \<or> found_huge_pte m search"

definition get_pte :: "cells \<Rightarrow> u64 \<Rightarrow> u64 \<Rightarrow> err + u64" where
  "get_pte m cr3 virt =
     bindE (find_pte_level m cr3 virt 1)
       (\<lambda>search. Inr (if found_leaf_pte m search then pte_ptr search else 0))"

definition get_pte_level :: "cells \<Rightarrow> u64 \<Rightarrow> u64 \<Rightarrow> nat \<Rightarrow> err + u64" where
  "get_pte_level m cr3 virt pte_level =
     bindE (find_pte_level m cr3 virt pte_level)
       (\<lambda>search. Inr (if level search = pte_level then pte_ptr search else 0))"

definition virt_to_pte_phys :: "cells \<Rightarrow> u64 \<Rightarrow> u64 \<Rightarrow> err + u64" where
  "virt_to_pte_phys m cr3 mem =
     bindE (get_pte m cr3 mem) (\<lambda>p.
     if p = 0 then Inl Null_deref
     else Inr ((m p AND PT_ADDR_MASK) + (mem AND (PAGE_SIZE - 1))))"

section \<open>Ranges\<close>

partial_function (option) install_pages_loop ::
    "u64 \<Rightarrow> u64 \<Rightarrow> u64 \<Rightarrow> u64 \<Rightarrow> 'a page_alloc_scheme \<Rightarrow> 'a page_alloc_scheme option" where
  "install_pages_loop cr3 phys max_addr virt s =
     (if phys + PAGE_SIZE \<le> max_addr
      then let (s, _) = install_page cr3 phys virt s
           in install_pages_loop cr3 (phys + PAGE_SIZE) max_addr (virt + PAGE_SIZE) s
      else Some s)"

definition install_pages ::
    "u64 \<Rightarrow> u64 \<Rightarrow> u64 \<Rightarrow> u64 \<Rightarrow> 'a page_alloc_scheme \<Rightarrow> err + 'a page_alloc_scheme" where
  "install_pages cr3 phys len virt s =
     (let max_addr = len + phys
      in bindE (assertE (phys mod PAGE_SIZE = 0)) (\<lambda>_.
         bindE (assertE (virt mod PAGE_SIZE = 0)) (\<lambda>_.
         bindE (assertE (len mod PAGE_SIZE = 0)) (\<lambda>_.
         loopE (install_pages_loop cr3 phys max_addr virt s)))))"

partial_function (option) any_present_loop ::
    "cells \<Rightarrow> u64 \<Rightarrow> u64 \<Rightarrow> u64 \<Rightarrow> (err + bool) option" where
  "any_present_loop m cr3 cur max_addr =
     (if cur < max_addr then
        (case get_pte m cr3 cur of
           Inl e \<Rightarrow> Some (Inl e)
         | Inr ptep \<Rightarrow>
             if ptep \<noteq> 0 \<and> m ptep AND PT_PRESENT_MASK \<noteq> 0 then Some (Inr True)
             else any_present_loop m cr3 (cur + PAGE_SIZE) max_addr)
      else Some (Inr False))"

definition any_present_pages :: "cells \<Rightarrow> u64 \<Rightarrow> u64 \<Rightarrow> u64 \<Rightarrow> err + bool" where
  "any_present_pages m cr3 virt len =
     bindE (loopE (any_present_loop m cr3 virt (virt + len))) (\<lambda>r. r)"

partial_function (option) setup_large_loop ::
    "u64 \<Rightarrow> u64 \<Rightarrow> u64 \<Rightarrow> 'a page_alloc_scheme \<Rightarrow> ('a page_alloc_scheme \<times> u64) option" where
  "setup_large_loop cr3 phys max_addr s =
     (if phys + LARGE_PAGE_SIZE \<le> max_addr
      then let (s, _) = install_large_page cr3 phys phys s
           in setup_large_loop cr3 (phys + LARGE_PAGE_SIZE) max_addr s
      else Some (s, phys))"

definition setup_mmu_range ::
    "u64 \<Rightarrow> u64 \<Rightarrow> u64 \<Rightarrow> 'a page_alloc_scheme \<Rightarrow> err + 'a page_alloc_scheme" where
  "setup_mmu_range cr3 start len s =
     (let max_addr = len + start
      in bindE (loopE (setup_large_loop cr3 start max_addr s)) (\<lambda>(s, phys).
         install_pages cr3 phys (max_addr - phys) phys s))"

definition X86_CR0_PE :: u64 where "X86_CR0_PE = push_bit 0 1"
definition X86_CR0_WP :: u64 where "X86_CR0_WP = push_bit 16 1"
definition X86_CR0_PG :: u64 where "X86_CR0_PG = push_bit 31 1"

definition setup_mmu :: "u64 \<Rightarrow> 'a vm_state_scheme \<Rightarrow> err + ('a vm_state_scheme \<times> u64)" where
  "setup_mmu end_of_memory s =
     (let (s, root) = alloc_page s;
          s = s\<lparr>cells := zero_page (cells s) root\<rparr>;
          end_of_memory = (if end_of_memory < push_bit 32 1 then push_bit 32 1 else end_of_memory)
      in bindE (setup_mmu_range root 0 end_of_memory s) (\<lambda>s.
         Inr (s\<lparr>cr3_reg := root, cr0_reg := X86_CR0_PG OR X86_CR0_PE OR X86_CR0_WP\<rparr>, root)))"

definition current_page_table :: "'a vm_state_scheme \<Rightarrow> u64" where
  "current_page_table s = cr3_reg s"

declare install_pages_loop.simps [code] any_present_loop.simps [code] setup_large_loop.simps [code]

section \<open>The tables as a format\<close>

definition x86_format :: "(nat \<times> u64) table_format" where
  "x86_format = \<lparr>present = (\<lambda>e. e AND PT_PRESENT_MASK \<noteq> 0),
     large = (\<lambda>l e. (l = 2 \<or> l = 3) \<and> e AND PT_PAGE_SIZE_MASK \<noteq> 0),
     addr = (\<lambda>e. e AND PT_ADDR_MASK), out = (\<lambda>l e va. (l, e))\<rparr>"

definition x86_ensure :: "nat \<Rightarrow> u64 \<Rightarrow> 'a page_alloc_scheme \<Rightarrow> err + 'a page_alloc_scheme" where
  "x86_ensure l a s =
     (if cells s a AND PT_PRESENT_MASK = 0 then
        let (s, p) = alloc_page s; s = s\<lparr>cells := zero_page (cells s) p\<rparr>
        in Inr (s\<lparr>cells := (cells s)(a :=
             p OR PT_PRESENT_MASK OR PT_WRITABLE_MASK OR PT_USER_MASK)\<rparr>)
      else Inr s)"

lemmas pt_mask_defs = PT_PRESENT_MASK_def PT_WRITABLE_MASK_def PT_USER_MASK_def
  PT_ACCESSED_MASK_def PT_DIRTY_MASK_def PT_PAGE_SIZE_MASK_def PT64_NX_MASK_def

lemma and_push_bit_1 [simp]: "w AND push_bit n 1 = 0 \<longleftrightarrow> \<not> bit w n" for w :: u64
  by (simp only: push_bit_of_1 and_exp_eq_0_iff_not_bit)

lemma pt_mask_bits [simp]:
  "w AND PT_PRESENT_MASK = 0 \<longleftrightarrow> \<not> bit w 0" "w AND PT_WRITABLE_MASK = 0 \<longleftrightarrow> \<not> bit w 1"
  "w AND PT_USER_MASK = 0 \<longleftrightarrow> \<not> bit w 2" "w AND PT_PAGE_SIZE_MASK = 0 \<longleftrightarrow> \<not> bit w 7"
  by (simp_all only: pt_mask_defs and_push_bit_1)

lemma x86_format_simps [simp]:
  "present x86_format e \<longleftrightarrow> bit e 0"
  "large x86_format l e \<longleftrightarrow> (l = 2 \<or> l = 3) \<and> bit e 7"
  "addr x86_format e = e AND PT_ADDR_MASK" "out x86_format l e va = (l, e)"
  by (simp_all only: x86_format_def table_format.simps pt_mask_defs and_push_bit_1 simp_thms)

lemma bit_PT_ADDR_MASK: "bit PT_ADDR_MASK i \<longleftrightarrow> 12 \<le> i \<and> i < 52"
  by (auto simp: PT_ADDR_MASK_def GENMASK_ULL_def bit_simps)

lemma addr_page_or:
  assumes "page_ok p" "f AND PT_ADDR_MASK = 0"
  shows "(p OR f) AND PT_ADDR_MASK = p"
proof -
  have f: "\<not> (bit f i \<and> bit PT_ADDR_MASK i)" for i
  proof -
    have "\<not> bit (f AND PT_ADDR_MASK) i" using assms(2) by simp
    then show ?thesis by (simp add: bit_and_iff)
  qed
  show ?thesis
    using page_ok_bits [OF assms(1)] f
    by (intro bit_word_eqI) (auto simp: bit_and_iff bit_or_iff bit_PT_ADDR_MASK)
qed

definition table_flags :: u64 where
  "table_flags = PT_PRESENT_MASK OR PT_WRITABLE_MASK OR PT_USER_MASK"

lemma bit_table_flags: "bit table_flags i \<longleftrightarrow> i < 3"
proof -
  have "table_flags = mask 3" by code_simp
  then show ?thesis using bit_mask_64 [of 3 i] by (simp only:) auto
qed

lemma x86_table_entry:
  assumes "page_ok p" "0 < l"
  shows "link x86_format l (p OR table_flags)" "addr x86_format (p OR table_flags) = p"
proof -
  have "table_flags AND PT_ADDR_MASK = 0"
    by (intro bit_word_eqI) (auto simp: bit_and_iff bit_table_flags bit_PT_ADDR_MASK)
  then show "addr x86_format (p OR table_flags) = p" using assms(1) by (simp add: addr_page_or)
  have "\<not> bit p 7" using page_ok_bits [OF assms(1), of 7] by auto
  then show "link x86_format l (p OR table_flags)"
    using assms(2) by (simp add: link_def bit_or_iff bit_table_flags)
qed

lemma x86_ensure_absent:
  assumes "free_inv s (x # xs)" "\<not> bit (cells s a) 0"
  shows "x86_ensure l a s = Inr (s\<lparr>freelist := cells s x, cells := (zero_page (cells s) x)(a := x OR table_flags)\<rparr>)"
  using assms alloc_page_Cons(1) [OF assms(1)]
  by (simp add: x86_ensure_def table_flags_def)

interpretation x86: radix x86_format x86_ensure 4 "\<lambda>t r. t < fst r"
proof
  fix l t a va B and s :: "'a page_alloc_scheme" and xs
  assume l: "0 < l" and free: "free_inv s xs" "xs \<noteq> []" and t: "t < Suc l"
    and e: "link x86_format l (cells s a) \<or> \<not> present x86_format (cells s a) \<or>
      \<not> t < fst (out x86_format (Suc l) (cells s a) va)"
    and B: "if link x86_format l (cells s a)
      then wf_table x86_format l (cells s) (addr x86_format (cells s a)) B else B = {}"
    and disj: "B \<inter> set xs = {}" "page_of a \<notin> B \<union> set xs"
  show "\<exists>s' xs' B'. x86_ensure (Suc l) a s = Inr s' \<and> ensured x86_format l a s xs B s' xs' B'"
  proof (cases "bit (cells s a) 0")
    case True
    then have "link x86_format l (cells s a)" using e t by auto
    then have "ensured x86_format l a s xs B s xs B"
      using B free disj by (intro ensured_link) auto
    moreover have "x86_ensure (Suc l) a s = Inr s"
      using True by (simp add: x86_ensure_def)
    ultimately show ?thesis by blast
  next
    case False
    obtain x ys where xs: "xs = x # ys" using free(2) by (cases xs) auto
    have "\<not> link x86_format l (cells s a)" using False by (simp add: link_def)
    then have "B = {}" using B by simp
    moreover have "page_ok x" using free(1) xs by (simp add: free_inv_def)
    note x86_table_entry [OF this l]
    ultimately show ?thesis
      using ensured_new_table [of x86_format l _ x s a ys] x86_ensure_absent [of s x ys a "Suc l"]
        False free(1) disj(2) xs by auto
  qed
qed

section \<open>Installing and looking up\<close>

text \<open>\<open>install_pte\<close> without a spare page is the generic loop on the x86 step.\<close>

lemma install_pte_loop_at:
  assumes "0 < t" "t \<le> l"
  shows "install_at x86_format x86_ensure l t pt va pte s =
    Inr (let (s', pt', lvl) = install_pte_loop t va l pt 0 s
      in (s'\<lparr>cells := (cells s')(slot pt' va lvl := pte)\<rparr>, slot pt' va lvl))"
  using assms
proof (induction l arbitrary: pt s)
  case (Suc l)
  show ?case
  proof (cases "t = Suc l")
    case True
    then show ?thesis by (subst install_pte_loop.simps) (simp add: Let_def)
  next
    case False
    then have t: "t < Suc l" "t \<le> l" using Suc.prems(2) by simp_all
    let ?a = "slot pt va (Suc l)"
    define s1 where "s1 = (case x86_ensure (Suc l) ?a s of Inr x \<Rightarrow> x | Inl _ \<Rightarrow> s)"
    have s1: "x86_ensure (Suc l) ?a s = Inr s1"
      by (simp add: s1_def x86_ensure_def Let_def split: prod.splits)
    moreover have "install_pte_loop t va (Suc l) pt 0 s =
        install_pte_loop t va l (cells s1 ?a AND PT_ADDR_MASK) 0 s1"
      using t(1) by (subst install_pte_loop.simps)
        (simp add: s1_def x86_ensure_def slot_def Let_def split: prod.splits)
    note s1 = s1 this
    show ?thesis
      using t(1) Suc.IH [OF Suc.prems(1) t(2), of "cells s1 ?a AND PT_ADDR_MASK" s1]
      by (simp add: s1 Let_def)
  qed
qed simp

lemma install_pte_at:
  assumes "0 < t" "t \<le> 4"
  shows "install_at x86_format x86_ensure 4 t cr3 va pte s = Inr (install_pte cr3 t va pte 0 s)"
  using install_pte_loop_at [OF assms, of cr3 va pte s]
  by (simp add: install_pte_def PAGE_LEVEL_def slot_def Let_def split: prod.splits)

definition leaf_pte :: "nat \<Rightarrow> u64 \<Rightarrow> bool" where
  "leaf_pte t pte \<longleftrightarrow> t = 1 \<or> \<not> bit pte 0 \<or> (t = 2 \<or> t = 3) \<and> bit pte 7"

lemma leaf_pte_link: "\<lbrakk>leaf_pte t pte; 0 < t\<rbrakk> \<Longrightarrow> \<not> link x86_format (t - 1) pte"
  by (auto simp: leaf_pte_def link_def numeral_2_eq_2 numeral_3_eq_3)

text \<open>
  What holds of a well-formed tree and free list after \<open>install_pte\<close>, with the old and new
  translations of every address.
\<close>

definition pte_installed ::
    "nat \<Rightarrow> u64 \<Rightarrow> u64 \<Rightarrow> u64 \<Rightarrow> 'a page_alloc_scheme \<Rightarrow> 'a page_alloc_scheme \<Rightarrow> bool" where
  "pte_installed t cr3 va pte s s' \<longleftrightarrow>
     (\<forall>va'. xlate x86_format 4 (cells s') cr3 va' =
        (if same_entry t 4 va va' then if bit pte 0 then Some (t, pte) else None
         else xlate x86_format 4 (cells s) cr3 va'))"

lemma install_pte_cases:
  assumes wf: "wf_table x86_format 4 (cells s) cr3 A" "free_inv s xs" "A \<inter> set xs = {}"
    and t: "0 < t" "t \<le> 4" "4 - t \<le> length xs" "leaf_pte t pte"
    and no_large: "\<And>lv e. xlate x86_format 4 (cells s) cr3 va = Some (lv, e) \<Longrightarrow> lv \<le> t"
  obtains s' p xs' A' where "install_pte cr3 t va pte 0 s = (s', p)" "cells s' p = pte"
    "pte_installed t cr3 va pte s s'" "free_inv s' xs'" "set xs' \<subseteq> set xs"
    "length xs \<le> 4 - t + length xs'" "wf_table x86_format 4 (cells s') cr3 A'" "A' \<subseteq> A \<union> set xs"
    "A' \<inter> set xs' = {}" "\<And>b. page_of b \<notin> A \<union> set xs \<Longrightarrow> cells s' b = cells s b"
proof -
  have unblocked: "\<not> t < fst r" if "xlate x86_format 4 (cells s) cr3 va = Some r" for r
    using no_large that by (cases r) (simp add: not_less)
  obtain s' p xs' A' where run: "install_at x86_format x86_ensure 4 t cr3 va pte s = Inr (s', p)"
    "cells s' p = pte" and inst: "x86.installed 4 t cr3 va pte s xs A s' xs' A'"
    using x86.install_at_correct [OF wf t(1,2) order_refl t(3) leaf_pte_link [OF t(4,1)] unblocked] by blast
  have eq: "install_pte cr3 t va pte 0 s = (s', p)"
    using run(1) install_pte_at [OF t(1,2), of cr3 va pte s] by simp
  have "pte_installed t cr3 va pte s s'"
    using inst unfolding x86.installed_def pte_installed_def by simp
  then show thesis
    using that [OF eq run(2)] inst unfolding x86.installed_def by blast
qed

text \<open>
  C1: on well-formed tables with enough free pages, and no large page above the entry,
  \<open>install_pte\<close> stores its entry, keeps the tables and the free list well-formed and disjoint, and
  changes the translation of exactly the addresses under that entry.
\<close>

theorem install_pte_maps:
  assumes "wf_table x86_format 4 (cells s) cr3 A" "free_inv s xs" "A \<inter> set xs = {}"
    and "0 < t" "t \<le> 4" "4 - t \<le> length xs" "leaf_pte t pte"
    and "\<And>lv e. xlate x86_format 4 (cells s) cr3 va = Some (lv, e) \<Longrightarrow> lv \<le> t"
  shows "\<exists>s' p xs' A'. install_pte cr3 t va pte 0 s = (s', p) \<and> cells s' p = pte \<and>
    pte_installed t cr3 va pte s s' \<and> free_inv s' xs' \<and>
    wf_table x86_format 4 (cells s') cr3 A' \<and> A' \<inter> set xs' = {}"
  by (rule install_pte_cases [OF assms]) blast+

text \<open>A tree with a root of zeroes and three free pages, for the examples.\<close>

definition sample :: "page_alloc" where
  "sample = \<lparr>cells = (\<lambda>_. 0)(0x2000 := 0x3000, 0x3000 := 0x4000), freelist = 0x2000\<rparr>"

lemma sample_ok:
  "wf_table x86_format 4 (cells sample) 0x1000 {0x1000}"
  "xlate x86_format 4 (cells sample) 0x1000 va = None"
  "free_inv sample [0x2000, 0x3000, 0x4000]" "{0x1000} \<inter> set [0x2000, 0x3000, 0x4000 :: u64] = {}"
proof -
  have ok: "page_ok 0x1000" "page_ok 0x2000" "page_ok 0x3000" "page_ok 0x4000"
    unfolding page_ok_def by code_simp+
  have z: "cells sample b = 0" if "page_of b = 0x1000" for b
    using that page_of_page [OF ok(2)] page_of_page [OF ok(3)] by (auto simp: sample_def)
  show "wf_table x86_format 4 (cells sample) 0x1000 {0x1000}"
    "xlate x86_format 4 (cells sample) 0x1000 va = None"
    by (rule wf_table_zero [OF _ ok(1) _ z]; simp)+
  show "free_inv sample [0x2000, 0x3000, 0x4000]" using ok by (simp add: free_inv_def sample_def)
qed simp

lemma install_pte_maps_witness:
  "\<exists>s' p. install_pte 0x1000 1 0x12345000 0x6003 0 sample = (s', p) \<and>
     xlate x86_format 4 (cells s') 0x1000 0x12345000 = Some (1, 0x6003)"
proof -
  have "\<exists>s' p xs' A'. install_pte 0x1000 1 0x12345000 0x6003 0 sample = (s', p) \<and> cells s' p = 0x6003 \<and>
    pte_installed 1 0x1000 0x12345000 0x6003 sample s' \<and> free_inv s' xs' \<and>
    wf_table x86_format 4 (cells s') 0x1000 A' \<and> A' \<inter> set xs' = {}"
    by (rule install_pte_maps [OF sample_ok(1,3,4)]) (simp_all add: sample_ok(2) leaf_pte_def)
  then show ?thesis by (auto simp: pte_installed_def same_entry_def)
qed

lemma addr_mask_num: "0xffffffffff000 = PT_ADDR_MASK"
  by code_simp

lemma find_pte_loop_Suc:
  "find_pte_loop m virt t (Suc l) pt =
     (let pte = m (slot pt virt (Suc l)); r = \<lparr>level = Suc l, pte_ptr = slot pt virt (Suc l)\<rparr>
      in if \<not> bit pte 0 then Inr r
         else if (Suc l = 2 \<or> Suc l = 3) \<and> bit pte 7 then Inr r
         else if Suc l = t then Inr r
         else find_pte_loop m virt t l (pte AND PT_ADDR_MASK))"
  by (simp add: slot_def PGDIR_OFFSET_def PGDIR_BITS_def PAGE_SHIFT_def Let_def addr_mask_num)

declare find_pte_loop.simps(2) [simp del]

text \<open>What the search for the last entry finds, by the translation of the address.\<close>

lemma find_pte_loop_xlate:
  assumes "0 < l" "l \<le> 4"
  shows "\<exists>r. find_pte_loop m va 1 l pt = Inr r \<and>
    (case xlate x86_format l m pt va of
       None \<Rightarrow> \<not> bit (m (pte_ptr r)) 0
     | Some (lv, e) \<Rightarrow> level r = lv \<and> m (pte_ptr r) = e \<and> bit e 0 \<and>
         (lv = 1 \<or> (lv = 2 \<or> lv = 3) \<and> bit e 7))"
  using assms
proof (induction l arbitrary: pt)
  case (Suc l)
  let ?e = "m (slot pt va (Suc l))"
  show ?case
  proof (cases "link x86_format l ?e")
    case True
    then show ?thesis
      using Suc.IH [of "?e AND PT_ADDR_MASK"] Suc.prems
      by (auto simp: find_pte_loop_Suc Let_def link_def)
  next
    case False
    then show ?thesis using Suc.prems by (auto simp: find_pte_loop_Suc Let_def link_def)
  qed
qed simp

text \<open>The entry found is in a page of the tables.\<close>

lemma find_pte_loop_in_tables:
  assumes "wf_table x86_format l m pt A" "0 < t" "t \<le> l" "l \<le> 4" "find_pte_loop m va t l pt = Inr r"
  shows "page_of (pte_ptr r) \<in> A"
  using assms
proof (induction l arbitrary: pt A)
  case (Suc l)
  let ?e = "m (slot pt va (Suc l))"
  obtain B where B: "A = insert pt (\<Union>i<512. B i)" "page_ok pt"
    "\<forall>i<512. if link x86_format l (m (entry pt i))
       then wf_table x86_format l m (addr x86_format (m (entry pt i))) (B i) else B i = {}"
    using Suc.prems(1) by auto
  have here: "page_of (slot pt va (Suc l)) \<in> A" using B(1,2) by (simp add: slot_entry)
  show ?case
  proof (cases "link x86_format l ?e \<and> t \<noteq> Suc l")
    case True
    then have "wf_table x86_format l m (?e AND PT_ADDR_MASK) (B (idx va (Suc l)))"
      using B(3) [rule_format, OF idx_less [of va "Suc l"]] by (simp add: slot_entry)
    moreover have "find_pte_loop m va t l (?e AND PT_ADDR_MASK) = Inr r"
      using Suc.prems(5) True by (auto simp: find_pte_loop_Suc Let_def link_def split: if_splits)
    ultimately have "page_of (pte_ptr r) \<in> B (idx va (Suc l))"
      using Suc.IH Suc.prems True by auto
    then show ?thesis using B(1) by auto
  next
    case False
    then have "pte_ptr r = slot pt va (Suc l)"
      using Suc.prems(2,3,5) by (auto simp: find_pte_loop_Suc Let_def link_def split: if_splits)
    then show ?thesis using here by simp
  qed
qed simp

lemma not_page_0: "wf_table F l m pt A \<Longrightarrow> page_of p \<in> A \<Longrightarrow> p \<noteq> 0"
  using wf_table_pages [of F l m pt A 0] by (auto simp: page_of_def page_ok_def)

lemma get_pte_cases:
  assumes "wf_table x86_format 4 m cr3 A"
  shows "\<exists>p. get_pte m cr3 va = Inr p \<and>
    (case xlate x86_format 4 m cr3 va of
       None \<Rightarrow> p \<noteq> 0 \<longrightarrow> \<not> bit (m p) 0
     | Some (lv, e) \<Rightarrow> p \<noteq> 0 \<and> m p = e \<and> bit e 0)"
proof -
  obtain r where r: "find_pte_loop m va 1 4 cr3 = Inr r"
    "case xlate x86_format 4 m cr3 va of
       None \<Rightarrow> \<not> bit (m (pte_ptr r)) 0
     | Some (lv, e) \<Rightarrow> level r = lv \<and> m (pte_ptr r) = e \<and> bit e 0 \<and>
         (lv = 1 \<or> (lv = 2 \<or> lv = 3) \<and> bit e 7)"
    using find_pte_loop_xlate [of 4 m va cr3] by (simp only: zero_less_numeral order_refl) blast
  have "pte_ptr r \<noteq> 0"
    using assms find_pte_loop_in_tables [OF assms _ _ _ r(1)] by (intro not_page_0) auto
  moreover have "get_pte m cr3 va = Inr (if found_leaf_pte m r then pte_ptr r else 0)"
    using r(1) by (simp add: get_pte_def find_pte_level_def PAGE_LEVEL_def)
  ultimately show ?thesis
    using r(2) by (auto simp: found_leaf_pte_def found_huge_pte_def split: option.splits)
qed

text \<open>
  C39: on well-formed tables \<open>get_pte\<close> returns the address of the entry that translates the
  address, when there is one; otherwise it returns NULL or the address of an absent entry.
\<close>

theorem get_pte_finds_translation:
  assumes "wf_table x86_format 4 m cr3 A"
  shows "\<exists>p. get_pte m cr3 va = Inr p \<and>
    (case xlate x86_format 4 m cr3 va of
       None \<Rightarrow> p \<noteq> 0 \<longrightarrow> \<not> bit (m p) 0
     | Some (lv, e) \<Rightarrow> p \<noteq> 0 \<and> m p = e \<and> bit e 0)"
  using assms by (rule get_pte_cases)

lemma get_pte_finds_translation_witness:
  "\<exists>p. get_pte (cells sample) 0x1000 0x12345678 = Inr p \<and> (p \<noteq> 0 \<longrightarrow> \<not> bit (cells sample p) 0)"
  using get_pte_finds_translation [OF sample_ok(1), of "0x12345678"] by (simp add: sample_ok(2))

section \<open>Mapping pages\<close>

definition page_flags :: "u64 \<Rightarrow> u64" where
  "page_flags phys = phys OR table_flags"

lemma install_page_eq: "install_page cr3 phys va s = install_pte cr3 1 va (page_flags phys) 0 s"
  by (simp add: install_page_def page_flags_def table_flags_def)

lemma page_flags_present: "bit (page_flags phys) 0"
  by (simp add: page_flags_def bit_or_iff bit_table_flags)

text \<open>
  after \<open>install_page\<close> of a page of physical memory, \<open>virt_to_pte_phys\<close> gives every address
  of the virtual page its place in the physical page.
\<close>

theorem install_page_translates:
  assumes "wf_table x86_format 4 (cells s) cr3 A" "free_inv s xs" "A \<inter> set xs = {}" "3 \<le> length xs"
    and "\<And>lv e. xlate x86_format 4 (cells s) cr3 va = Some (lv, e) \<Longrightarrow> lv \<le> 1"
    and "page_ok phys" "same_entry 1 4 va va'"
  shows "virt_to_pte_phys (cells (fst (install_page cr3 phys va s))) cr3 va' =
    Inr (phys + (va' AND (PAGE_SIZE - 1)))"
proof -
  obtain s' p xs' A' where s': "install_pte cr3 1 va (page_flags phys) 0 s = (s', p)"
    "pte_installed 1 cr3 va (page_flags phys) s s'" "wf_table x86_format 4 (cells s') cr3 A'"
    by (rule install_pte_cases [OF assms(1-3), of 1 "page_flags phys" va])
      (use assms(4,5) in \<open>auto simp: leaf_pte_def\<close>)
  have "xlate x86_format 4 (cells s') cr3 va' = Some (1, page_flags phys)"
    using s'(2) assms(7) page_flags_present by (simp add: pte_installed_def)
  then obtain q where "get_pte (cells s') cr3 va' = Inr q" "q \<noteq> 0" "cells s' q = page_flags phys"
    using get_pte_cases [OF s'(3), of va'] by auto
  moreover have "page_flags phys AND PT_ADDR_MASK = phys"
    using x86_table_entry(2) [OF assms(6), of 1] by (simp add: page_flags_def)
  ultimately show ?thesis using s'(1) by (simp add: virt_to_pte_phys_def install_page_eq)
qed

lemma same_entry_1_4:
  "same_entry 1 4 va va' \<longleftrightarrow> idx va 1 = idx va' 1 \<and> idx va 2 = idx va' 2 \<and>
     idx va 3 = idx va' 3 \<and> idx va 4 = idx va' 4"
  by (auto simp: same_entry_def numeral_eq_Suc le_Suc_eq)

lemma install_page_translates_witness:
  "virt_to_pte_phys (cells (fst (install_page 0x1000 0x6000 0x12345000 sample))) 0x1000 0x12345678
     = Inr 0x6678"
proof -
  have "same_entry 1 4 0x12345000 0x12345678"
    unfolding same_entry_1_4 by code_simp
  moreover have "page_ok 0x6000" unfolding page_ok_def by code_simp
  ultimately show ?thesis
    using install_page_translates [OF sample_ok(1,3,4), of "0x12345000" "0x6000" "0x12345678"]
    by (simp add: sample_ok(2))
qed

lemma bit_PGDIR_OFFSET: "bit (PGDIR_OFFSET va l) j \<longleftrightarrow> j < 9 \<and> bit va ((l - 1) * 9 + 12 + j)"
  unfolding PGDIR_OFFSET_def mask_512 by (auto simp: bit_simps PGDIR_BITS_def PAGE_SHIFT_def)

lemma idx_eq_bits: "idx va l = idx va' l \<longleftrightarrow> (\<forall>j < 9. bit va ((l - 1) * 9 + 12 + j) = bit va' ((l - 1) * 9 + 12 + j))"
proof
  assume "idx va l = idx va' l"
  then have eq: "PGDIR_OFFSET va l = PGDIR_OFFSET va' l" by (simp add: idx_def word_unat_eq_iff)
  show "\<forall>j < 9. bit va ((l - 1) * 9 + 12 + j) = bit va' ((l - 1) * 9 + 12 + j)"
    using bit_PGDIR_OFFSET [of va l] bit_PGDIR_OFFSET [of va' l] unfolding eq by blast
next
  assume "\<forall>j < 9. bit va ((l - 1) * 9 + 12 + j) = bit va' ((l - 1) * 9 + 12 + j)"
  then have "PGDIR_OFFSET va l = PGDIR_OFFSET va' l"
    by (intro bit_word_eqI) (auto simp: bit_PGDIR_OFFSET)
  then show "idx va l = idx va' l" by (simp add: idx_def)
qed

text \<open>
  Two addresses are under the same entry of a level when they agree on the bits from that level's
  page size to bit 47.
\<close>

lemma same_entry_level_bits:
  assumes "0 < t"
  shows "same_entry t 4 va va' \<longleftrightarrow> (\<forall>i. (t - 1) * 9 + 12 \<le> i \<and> i < 48 \<longrightarrow> bit va i = bit va' i)"
proof
  assume same: "same_entry t 4 va va'"
  show "\<forall>i. (t - 1) * 9 + 12 \<le> i \<and> i < 48 \<longrightarrow> bit va i = bit va' i"
  proof (intro allI impI)
    fix i :: nat assume i: "(t - 1) * 9 + 12 \<le> i \<and> i < 48"
    define k where "k = (i - 12) div 9"
    define j where "j = (i - 12) mod 9"
    have "t - 1 \<le> k" using i unfolding k_def
      by (subst less_eq_div_iff_mult_less_eq) (simp, linarith)
    then have "t \<le> Suc k" using assms by simp
    moreover have "k < 4" "j < 9" "i = k * 9 + 12 + j" using i by (auto simp: k_def j_def)
    moreover from calculation have "idx va (Suc k) = idx va' (Suc k)"
      using same by (simp add: same_entry_def)
    ultimately show "bit va i = bit va' i" unfolding idx_eq_bits by simp
  qed
next
  assume eq: "\<forall>i. (t - 1) * 9 + 12 \<le> i \<and> i < 48 \<longrightarrow> bit va i = bit va' i"
  show "same_entry t 4 va va'" unfolding same_entry_def idx_eq_bits
  proof (intro allI impI)
    fix k j :: nat assume k: "t \<le> k \<and> k \<le> 4" and j: "j < 9"
    have "(t - 1) * 9 \<le> (k - 1) * 9" "(k - 1) * 9 \<le> 27" using k by auto
    then show "bit va ((k - 1) * 9 + 12 + j) = bit va' ((k - 1) * 9 + 12 + j)"
      using eq j by auto
  qed
qed

lemma same_entry_bits: "same_entry 1 4 va va' \<longleftrightarrow> (\<forall>i. 12 \<le> i \<and> i < 48 \<longrightarrow> bit va i = bit va' i)"
  by (simp add: same_entry_level_bits)

lemma same_entry_page_number:
  assumes "same_entry 1 4 va va'"
  shows "unat va div 4096 mod 2 ^ 36 = unat va' div 4096 mod 2 ^ 36"
proof -
  have "take_bit 36 (drop_bit 12 va) = take_bit 36 (drop_bit 12 va')"
    using assms unfolding same_entry_bits
    by (intro bit_word_eqI) (auto simp: bit_take_bit_iff bit_drop_bit_eq)
  then have "unat (take_bit 36 (drop_bit 12 va)) = unat (take_bit 36 (drop_bit 12 va'))" by simp
  then show ?thesis
    unfolding unsigned_take_bit_eq unat_drop_bit_64 take_bit_eq_mod [where 'a = nat] by simp
qed

lemma mod_add_cancel_le:
  "\<lbrakk>(k + i) mod N = (k + j) mod N; i \<le> j; j < N\<rbrakk> \<Longrightarrow> i = j" for i j k N :: nat
proof -
  assume eq: "(k + i) mod N = (k + j) mod N" and le: "i \<le> j" and lt: "j < N"
  have "N dvd (k + j) - (k + i)" using eq le by (subst mod_eq_dvd_iff_nat [symmetric]) auto
  then have "N dvd j - i" by simp
  then show "i = j" using le lt by (auto dest: dvd_imp_le)
qed

lemma mod_add_cancel_small:
  "\<lbrakk>(k + i) mod N = (k + j) mod N; i < N; j < N\<rbrakk> \<Longrightarrow> i = j" for i j k N :: nat
  using mod_add_cancel_le [of k i N j] mod_add_cancel_le [of k j N i] by (cases "i \<le> j") auto

lemma pages_not_same_entry:
  assumes "unat va mod 4096 = 0" "unat va + 4096 * n \<le> 2 ^ 64" "n \<le> 2 ^ 36" "i < n" "j < n" "i \<noteq> j"
  shows "\<not> same_entry 1 4 (va + PAGE_SIZE * of_nat i) (va + PAGE_SIZE * of_nat j)"
proof
  assume "same_entry 1 4 (va + PAGE_SIZE * of_nat i) (va + PAGE_SIZE * of_nat j)"
  from same_entry_page_number [OF this]
  have eq: "(unat va + 4096 * i) div 4096 mod 2 ^ 36 = (unat va + 4096 * j) div 4096 mod 2 ^ 36"
    using page_mult_unat [OF assms(2)] assms(4,5) by metis
  obtain k where k: "unat va = 4096 * k" using assms(1) by (auto simp: mod_eq_0_iff_dvd)
  have d: "(unat va + 4096 * m) div 4096 = k + m" for m unfolding k
    by (subst distrib_left [symmetric]) simp
  have "(k + i) mod 2 ^ 36 = (k + j) mod 2 ^ 36" using eq unfolding d .
  then have "i = j" by (rule mod_add_cancel_small) (use assms(3-5) in simp_all)
  with assms(6) show False by simp
qed

text \<open>
  The pages \<open>install_pages\<close> maps: what its loop leaves after \<open>n\<close> pages.
\<close>

definition range_mapped :: "u64 \<Rightarrow> u64 \<Rightarrow> u64 \<Rightarrow> nat \<Rightarrow> 'a page_alloc_scheme \<Rightarrow> 'a page_alloc_scheme \<Rightarrow> bool" where
  "range_mapped cr3 phys va n s s' \<longleftrightarrow>
     (\<forall>i < n. xlate x86_format 4 (cells s') cr3 (va + PAGE_SIZE * of_nat i) =
        Some (1, page_flags (phys + PAGE_SIZE * of_nat i))) \<and>
     (\<forall>va'. (\<forall>i < n. \<not> same_entry 1 4 (va + PAGE_SIZE * of_nat i) va') \<longrightarrow>
        xlate x86_format 4 (cells s') cr3 va' = xlate x86_format 4 (cells s) cr3 va')"

lemma same_entry_refl [simp]: "same_entry t l va va"
  by (simp add: same_entry_def)

lemma install_pages_loop_maps:
  assumes "wf_table x86_format 4 (cells s) cr3 A" "free_inv s xs" "A \<inter> set xs = {}" "3 * n \<le> length xs"
    and "\<And>i lv e. \<lbrakk>i < n; xlate x86_format 4 (cells s) cr3 (va + PAGE_SIZE * of_nat i) = Some (lv, e)\<rbrakk>
      \<Longrightarrow> lv \<le> 1"
    and "unat phys + 4096 * n < 2 ^ 63" "unat va mod 4096 = 0" "unat va + 4096 * n \<le> 2 ^ 64" "n \<le> 2 ^ 36"
  shows "\<exists>s' xs' A'. install_pages_loop cr3 phys (phys + PAGE_SIZE * of_nat n) va s = Some s' \<and>
    range_mapped cr3 phys va n s s' \<and> wf_table x86_format 4 (cells s') cr3 A' \<and> free_inv s' xs' \<and>
    A' \<inter> set xs' = {} \<and> length xs \<le> 3 * n + length xs'"
  using assms
proof (induction n arbitrary: phys va s xs A)
  case 0
  have "unat (phys + PAGE_SIZE) = unat phys + 4096" using 0(6) by (subst unat_add_noov) simp_all
  then have "\<not> phys + PAGE_SIZE \<le> phys" by (simp add: word_le_nat_alt del: PAGE_SIZE_eq)
  then show ?case
    using 0(1-3) by (subst install_pages_loop.simps) (auto simp: range_mapped_def)
next
  case (Suc n)
  let ?va = "va + PAGE_SIZE" and ?ph = "phys + PAGE_SIZE"
  have shift: "a + PAGE_SIZE * of_nat (Suc i) = a + PAGE_SIZE + PAGE_SIZE * of_nat i" for a :: u64 and i
    by (simp add: algebra_simps)
  obtain s1 p xs1 A1 where s1: "install_pte cr3 1 va (page_flags phys) 0 s = (s1, p)"
    "pte_installed 1 cr3 va (page_flags phys) s s1" "free_inv s1 xs1" "length xs \<le> 3 + length xs1"
    "wf_table x86_format 4 (cells s1) cr3 A1" "A1 \<inter> set xs1 = {}"
    by (rule install_pte_cases [OF Suc.prems(1-3), of 1 "page_flags phys" va])
      (use Suc.prems(4) Suc.prems(5) [of 0] in \<open>auto simp: leaf_pte_def\<close>)
  have x1: "xlate x86_format 4 (cells s1) cr3 va' = (if same_entry 1 4 va va' then Some (1, page_flags phys)
      else xlate x86_format 4 (cells s) cr3 va')" for va'
    using s1(2) page_flags_present by (simp add: pte_installed_def)
  have num: "unat ?ph = unat phys + 4096" using Suc.prems(6) by (subst unat_add_noov) simp_all
  have va1: "unat ?va = unat va + 4096" if "n \<noteq> 0"
    using page_mult_unat [OF Suc.prems(8), of 1] that by simp
  have sep: "\<not> same_entry 1 4 (va + PAGE_SIZE * of_nat i) (va + PAGE_SIZE * of_nat j)"
    if "i < Suc n" "j < Suc n" "i \<noteq> j" for i j
    using pages_not_same_entry [OF Suc.prems(7,8,9) that] .
  have low: "lv \<le> 1" if "i < n" "xlate x86_format 4 (cells s1) cr3 (?va + PAGE_SIZE * of_nat i) = Some (lv, e)" for i lv e
    using that Suc.prems(5) [of "Suc i"] unfolding x1 shift by (auto split: if_splits)
  obtain s' xs' A' where s': "install_pages_loop cr3 ?ph (?ph + PAGE_SIZE * of_nat n) ?va s1 = Some s'"
    "range_mapped cr3 ?ph ?va n s1 s'" "wf_table x86_format 4 (cells s') cr3 A'" "free_inv s' xs'"
    "A' \<inter> set xs' = {}" "length xs1 \<le> 3 * n + length xs'"
  proof (cases "n = 0")
    case True
    have "unat (?ph + PAGE_SIZE) = unat ?ph + 4096" using Suc.prems(6) num by (subst unat_add_noov) simp_all
    then have "\<not> ?ph + PAGE_SIZE \<le> ?ph" by (simp add: word_le_nat_alt del: PAGE_SIZE_eq)
    then have "install_pages_loop cr3 ?ph (?ph + PAGE_SIZE * of_nat n) ?va s1 = Some s1"
      using True by (subst install_pages_loop.simps) simp
    then show thesis using that s1 True by (auto simp: range_mapped_def)
  next
    case False
    have "\<exists>s' xs' A'. install_pages_loop cr3 ?ph (?ph + PAGE_SIZE * of_nat n) ?va s1 = Some s' \<and>
      range_mapped cr3 ?ph ?va n s1 s' \<and> wf_table x86_format 4 (cells s') cr3 A' \<and> free_inv s' xs' \<and>
      A' \<inter> set xs' = {} \<and> length xs1 \<le> 3 * n + length xs'"
    proof (rule Suc.IH [where s = s1 and phys = ?ph and va = ?va, OF s1(5,3,6) _ low])
      show "3 * n \<le> length xs1" using Suc.prems(4) s1(4) by simp
      show "unat ?ph + 4096 * n < 2 ^ 63" using Suc.prems(6) num by simp
      show "unat ?va mod 4096 = 0" using Suc.prems(7) va1 [OF False] by simp
      show "unat ?va + 4096 * n \<le> 2 ^ 64" using Suc.prems(8) va1 [OF False] by simp
      show "n \<le> 2 ^ 36" using Suc.prems(9) by simp
    qed
    then show thesis using that by blast
  qed
  have "phys + PAGE_SIZE \<le> phys + PAGE_SIZE * of_nat (Suc n)"
  proof -
    have "unat (PAGE_SIZE * of_nat (Suc n)) = 4096 * Suc n"
      using Suc.prems(6) by (simp add: unat_word_ariths unat_of_nat del: of_nat_Suc)
    then have "unat (phys + PAGE_SIZE * of_nat (Suc n)) = unat phys + 4096 * Suc n"
      using Suc.prems(6) by (subst unat_add_noov) simp_all
    then show ?thesis using num by (simp add: word_le_nat_alt del: PAGE_SIZE_eq)
  qed
  then have "install_pages_loop cr3 phys (phys + PAGE_SIZE * of_nat (Suc n)) va s = Some s'"
    using s'(1) s1(1) unfolding shift by (subst install_pages_loop.simps) (simp add: install_page_eq del: PAGE_SIZE_eq)
  moreover have "range_mapped cr3 phys va (Suc n) s s'"
    unfolding range_mapped_def
  proof (intro conjI allI impI)
    fix i assume i: "i < Suc n"
    show "xlate x86_format 4 (cells s') cr3 (va + PAGE_SIZE * of_nat i) =
        Some (1, page_flags (phys + PAGE_SIZE * of_nat i))"
    proof (cases i)
      case 0
      have "\<not> same_entry 1 4 (?va + PAGE_SIZE * of_nat j) va" if "j < n" for j
        using sep [of "Suc j" 0] that unfolding shift by simp
      then have "xlate x86_format 4 (cells s') cr3 va = xlate x86_format 4 (cells s1) cr3 va"
        using s'(2) unfolding range_mapped_def by blast
      then show ?thesis unfolding x1 by (simp add: 0)
    next
      case (Suc j)
      then show ?thesis using s'(2) i unfolding Suc shift range_mapped_def by simp
    qed
  next
    fix va' assume far: "\<forall>i < Suc n. \<not> same_entry 1 4 (va + PAGE_SIZE * of_nat i) va'"
    have "\<not> same_entry 1 4 (?va + PAGE_SIZE * of_nat j) va'" if "j < n" for j
      using far [rule_format, of "Suc j"] that unfolding shift by simp
    then have "xlate x86_format 4 (cells s') cr3 va' = xlate x86_format 4 (cells s1) cr3 va'"
      using s'(2) unfolding range_mapped_def by blast
    then show "xlate x86_format 4 (cells s') cr3 va' = xlate x86_format 4 (cells s) cr3 va'"
      unfolding x1 using far [rule_format, of 0] by simp
  qed
  ultimately show ?case using s'(3-6) s1(4) by (intro exI conjI) auto
qed

text \<open>
  on well-formed tables with three free pages per page to map, and no large page in the
  range, \<open>install_pages\<close> terminates, maps every page of the virtual range to its page of the
  physical range, present, writable and for the user, and changes no other translation.
\<close>

theorem install_pages_maps_range:
  assumes "wf_table x86_format 4 (cells s) cr3 A" "free_inv s xs" "A \<inter> set xs = {}" "3 * n \<le> length xs"
    and "\<And>i lv e. \<lbrakk>i < n; xlate x86_format 4 (cells s) cr3 (va + PAGE_SIZE * of_nat i) = Some (lv, e)\<rbrakk>
      \<Longrightarrow> lv \<le> 1"
    and "unat phys + 4096 * n < 2 ^ 63" "unat va + 4096 * n \<le> 2 ^ 64" "n \<le> 2 ^ 36"
    and "unat phys mod 4096 = 0" "unat va mod 4096 = 0"
  shows "\<exists>s'. install_pages cr3 phys (PAGE_SIZE * of_nat n) va s = Inr s' \<and>
    range_mapped cr3 phys va n s s'"
proof -
  have "\<exists>s' xs' A'. install_pages_loop cr3 phys (phys + PAGE_SIZE * of_nat n) va s = Some s' \<and>
    range_mapped cr3 phys va n s s' \<and> wf_table x86_format 4 (cells s') cr3 A' \<and> free_inv s' xs' \<and>
    A' \<inter> set xs' = {} \<and> length xs \<le> 3 * n + length xs'"
    by (rule install_pages_loop_maps [OF assms(1-4) _ assms(6,10,7,8)]) (rule assms(5))
  then obtain s' where s': "install_pages_loop cr3 phys (phys + PAGE_SIZE * of_nat n) va s = Some s'"
    "range_mapped cr3 phys va n s s'" by blast
  have "unat (PAGE_SIZE * of_nat n) = 4096 * n"
    using assms(6) by (simp add: unat_word_ariths unat_of_nat)
  then have "(PAGE_SIZE * of_nat n) mod PAGE_SIZE = 0" "phys mod PAGE_SIZE = 0" "va mod PAGE_SIZE = 0"
    using assms(9,10) by (simp_all add: word_unat_eq_iff unat_mod_distrib)
  then have "install_pages cr3 phys (PAGE_SIZE * of_nat n) va s = Inr s'"
    using s'(1) by (simp add: install_pages_def Let_def add.commute del: PAGE_SIZE_eq)
  then show ?thesis using s'(2) by blast
qed

lemma install_pages_maps_range_witness:
  "\<exists>s'. install_pages 0x1000 0x6000 0x1000 0x12345000 sample = Inr s' \<and>
     xlate x86_format 4 (cells s') 0x1000 0x12345000 = Some (1, page_flags 0x6000)"
proof -
  have "\<exists>s'. install_pages 0x1000 0x6000 (PAGE_SIZE * of_nat 1) 0x12345000 sample = Inr s' \<and>
      range_mapped 0x1000 0x6000 0x12345000 1 sample s'"
    by (rule install_pages_maps_range [OF sample_ok(1,3,4)]) (simp_all add: sample_ok(2))
  then show ?thesis by (auto simp: range_mapped_def)
qed

end
