(* ===== verification/Printf.thy ===== *)
theory Printf
  imports CString
begin

text \<open>
  Formatted output, \<open>lib/printf.c\<close>. Strings are lists of characters without their NUL; a stream
  keeps the characters written to its buffer so far, the room left and the count of characters
  produced. The variable arguments are a list of slots, one per argument, as the calling
  convention passes them: a 64-bit word or the string a pointer points at. Reading a slot of the
  wrong kind, or past the last one, is an error value.
\<close>

datatype vararg = Word u64 | Str string

record pstream =
  buffer :: string
  remain :: u32
  added :: u32

record strprops =
  pad :: char
  npad :: int
  alternate :: bool

section \<open>Characters and strings\<close>

definition addchar :: "pstream \<Rightarrow> char \<Rightarrow> pstream" where
  "addchar p c =
     (let p = (if remain p \<noteq> 0 then p\<lparr>buffer := buffer p @ [c], remain := remain p - 1\<rparr> else p)
      in p\<lparr>added := added p + 1\<rparr>)"

text \<open>The three loops of \<open>print_str\<close>: pad on the left, the characters, pad on the right.\<close>

function pad_left :: "pstream \<Rightarrow> char \<Rightarrow> int \<Rightarrow> pstream \<times> int" where
  "pad_left p c n = (if 0 < n then pad_left (addchar p c) c (n - 1) else (p, n))"
  by pat_completeness auto
termination by (relation "measure (\<lambda>(p, c, n). nat n)") auto

function pad_right :: "pstream \<Rightarrow> char \<Rightarrow> int \<Rightarrow> pstream" where
  "pad_right p c n = (if n < 0 then pad_right (addchar p c) c (n + 1) else p)"
  by pat_completeness auto
termination by (relation "measure (\<lambda>(p, c, n). nat (- n))") auto

primrec addstr :: "pstream \<Rightarrow> string \<Rightarrow> pstream" where
  "addstr p [] = p"
| "addstr p (c # cs) = addstr (addchar p c) cs"

declare pad_left.simps [simp del] pad_right.simps [simp del]

definition print_str :: "pstream \<Rightarrow> string \<Rightarrow> strprops \<Rightarrow> pstream" where
  "print_str p s props =
     (let n = npad props;
          (p, n) = (if 0 < n then pad_left p (pad props) (n - int (length s)) else (p, n));
          p = addstr p s
      in if n < 0 then pad_right p CHR '' '' (n + int (length s)) else p)"

section \<open>Numbers\<close>

definition digits :: string where
  "digits = ''0123456789abcdef''"

text \<open>
  The digits of a number, the last one first: \<open>while (n) { *p++ = digits[n % base]; n /= base; }\<close>.
  Every call has base 10 or 16.
\<close>

function put_digits :: "nat \<Rightarrow> nat \<Rightarrow> string" where
  "put_digits base n =
     (if n = 0 \<or> base < 2 then [] else digits ! (n mod base) # put_digits base (n div base))"
  by pat_completeness auto
termination by (relation "measure snd") (auto simp: div_less_dividend)

declare put_digits.simps [simp del]

text \<open>The loop that reverses \<open>buf[0..n)\<close> in place.\<close>

function reverse_loop :: "string \<Rightarrow> nat \<Rightarrow> nat \<Rightarrow> string" where
  "reverse_loop buf i n =
     (if i < n div 2
      then let tmp = buf ! i; buf = buf[i := buf ! (n - 1 - i)]; buf = buf[n - 1 - i := tmp]
           in reverse_loop buf (i + 1) n
      else buf)"
  by pat_completeness auto
termination by (relation "measure (\<lambda>(buf, i, n). n div 2 - i)") auto

declare reverse_loop.simps [simp del]

text \<open>
  \<open>n\<close> is the 64-bit two's complement of a \<open>long long\<close>. The negation of the least one is itself,
  and its remainder is a negative index into \<open>digits\<close>.
\<close>

definition print_int :: "pstream \<Rightarrow> u64 \<Rightarrow> nat \<Rightarrow> strprops \<Rightarrow> err + pstream" where
  "print_int ps n base props =
     (let (n, s) = (if n <s 0 then (- n, True) else (n, False))
      in if n <s 0 then Inl Out_of_bounds
         else let buf = put_digits base (unat n);
                  buf = (if s then buf @ ''-'' else buf);
                  buf = (if buf = [] then ''0'' else buf);
                  buf = reverse_loop buf 0 (length buf)
              in Inr (print_str ps buf props))"

definition print_unsigned :: "pstream \<Rightarrow> u64 \<Rightarrow> nat \<Rightarrow> strprops \<Rightarrow> pstream" where
  "print_unsigned ps n base props =
     (let buf = put_digits base (unat n);
          (ps, buf, props) =
            (if buf = [] then (ps, ''0'', props)
             else if alternate props \<and> base = 16 then
               if pad props = CHR ''0'' then
                 (addchar (addchar ps CHR ''0'') CHR ''x'', buf,
                  if 0 < npad props then props\<lparr>npad := max (npad props - 2) 0\<rparr> else props)
               else (ps, buf @ ''x0'', props)
             else (ps, buf, props));
          buf = reverse_loop buf 0 (length buf)
      in print_str ps buf props)"

section \<open>Formats\<close>

definition is_digit_char :: "char \<Rightarrow> bool" where
  "is_digit_char c \<longleftrightarrow> c \<in> set ''0123456789''"

text \<open>\<open>atol\<close> on a string without its NUL.\<close>

definition atol_str :: "string \<Rightarrow> u64" where
  "atol_str s =
     (let s = dropWhile (\<lambda>c. c = CHR '' '' \<or> c = CHR 0x09) s;
          (neg, s) = (case s of
              [] \<Rightarrow> (False, [])
            | c # cs \<Rightarrow> if c = CHR ''-'' then (True, cs) else (False, if c = CHR ''+'' then cs else s));
          acc = foldl (\<lambda>acc c. acc * 10 + (of_char c - 48)) 0 (takeWhile is_digit_char s)
      in if neg then - acc else acc)"

definition fmtnum :: "string \<Rightarrow> int \<times> string" where
  "fmtnum fmt =
     (let f = (if fmt \<noteq> [] \<and> hd fmt = CHR ''-'' then tl fmt else fmt);
          f = dropWhile is_digit_char f
      in (sint (ucast (atol_str fmt) :: u32), f))"

definition va_word :: "vararg list \<Rightarrow> err + (u64 \<times> vararg list)" where
  "va_word va = (case va of Word w # va' \<Rightarrow> Inr (w, va') | _ \<Rightarrow> Inl Bad_vararg)"

definition va_str :: "vararg list \<Rightarrow> err + (string \<times> vararg list)" where
  "va_str va = (case va of Str s # va' \<Rightarrow> Inr (s, va') | _ \<Rightarrow> Inl Bad_vararg)"

text \<open>\<open>va_arg(va, int)\<close> and \<open>va_arg(va, unsigned)\<close>: the low half of the slot, extended.\<close>

definition as_int :: "nat \<Rightarrow> u64 \<Rightarrow> u64" where
  "as_int nlong w = (if nlong = 0 then scast (ucast w :: u32) else w)"

definition as_unsigned :: "nat \<Rightarrow> u64 \<Rightarrow> u64" where
  "as_unsigned nlong w = (if nlong = 0 then ucast (ucast w :: u32) else w)"

lemma fmtnum_shorter: "length (snd (fmtnum fmt)) \<le> length fmt"
proof -
  have "length (dropWhile is_digit_char f) \<le> length f" for f by (rule length_dropWhile_le)
  then show ?thesis by (auto simp: fmtnum_def Let_def) (metis le_diff_conv le_trans length_tl diff_le_self)
qed

lemma fmtnum_shorter_digit:
  assumes "is_digit_char c \<or> c = CHR ''-''"
  shows "length (snd (fmtnum (c # cs))) \<le> length cs"
proof -
  have "length (dropWhile is_digit_char cs) \<le> length cs" by (rule length_dropWhile_le)
  then show ?thesis using assms by (auto simp: fmtnum_def Let_def is_digit_char_def)
qed

text \<open>The cases \<open>'1'...'9'\<close> and \<open>'-'\<close>.\<close>

definition is_numflag :: "char \<Rightarrow> bool" where
  "is_numflag c \<longleftrightarrow> c \<in> set ''123456789-''"

lemma fmtnum_less: "(n, f) = fmtnum fmt \<Longrightarrow> length f < Suc (length fmt)"
  using fmtnum_shorter [of fmt] by (cases "fmtnum fmt") simp

lemma fmtnum_less_digit:
  assumes "is_numflag c" "(n, f) = fmtnum (c # fmt)"
  shows "length f < Suc (length fmt)"
proof -
  have "is_digit_char c \<or> c = CHR ''-''"
    using assms(1) by (auto simp: is_numflag_def is_digit_char_def)
  then have "length (snd (fmtnum (c # fmt))) \<le> length fmt" by (rule fmtnum_shorter_digit)
  then show ?thesis using assms(2) by (cases "fmtnum (c # fmt)") simp
qed

text \<open>
  What follows a percent sign, from \<open>morefmt\<close> on. The first part is the flags, the width and the
  length, each of which the code handles by a \<open>goto morefmt\<close> that changes only \<open>nlong\<close> and
  \<open>props\<close>; it stops at the conversion. The second is the conversion; its result has what is left
  of the format and of the arguments.
\<close>

function morefmt :: "string \<Rightarrow> nat \<Rightarrow> strprops \<Rightarrow> string \<times> nat \<times> strprops" where
  "morefmt fmt nlong props =
     (case fmt of
        [] \<Rightarrow> (fmt, nlong, props)
      | f # fmt' \<Rightarrow>
          if f = CHR ''#'' then morefmt fmt' nlong (props\<lparr>alternate := True\<rparr>)
          else if f = CHR ''0'' then
            let (n, fmt) = fmtnum fmt' in morefmt fmt nlong (props\<lparr>pad := CHR ''0'', npad := n\<rparr>)
          else if is_numflag f then
            let (n, fmt) = fmtnum (f # fmt') in morefmt fmt nlong (props\<lparr>npad := n\<rparr>)
          else if f = CHR ''l'' then morefmt fmt' (Suc nlong) props
          else if f = CHR ''t'' \<or> f = CHR ''z'' then morefmt fmt' 1 props
          else (fmt, nlong, props))"
  by pat_completeness auto
termination
proof (relation "measure (\<lambda>(fmt, nlong, props). length fmt)", goal_cases)
  case (3 fmt nlong props f fmt' r n fm)
  then show ?case using fmtnum_less [of n fm fmt'] by simp
next
  case (4 fmt nlong props f fmt' r n fm)
  then show ?case using fmtnum_less_digit [of f n fm fmt'] by simp
qed auto

definition convert ::
    "pstream \<Rightarrow> string \<Rightarrow> vararg list \<Rightarrow> nat \<Rightarrow> strprops \<Rightarrow> err + (pstream \<times> string \<times> vararg list)" where
  "convert s fmt va nlong props =
     (case fmt of
        [] \<Rightarrow> Inr (s, [], va)
      | f # fmt' \<Rightarrow>
          if f = CHR ''%'' then Inr (addchar s CHR ''%'', fmt', va)
          else if f = CHR ''c'' then
            bindE (va_word va) (\<lambda>(w, va). Inr (addchar s (char_of (unat w)), fmt', va))
          else if f = CHR ''d'' then
            bindE (va_word va) (\<lambda>(w, va).
            bindE (print_int s (as_int nlong w) 10 props) (\<lambda>s. Inr (s, fmt', va)))
          else if f = CHR ''u'' then
            bindE (va_word va) (\<lambda>(w, va).
            Inr (print_unsigned s (as_unsigned nlong w) 10 props, fmt', va))
          else if f = CHR ''x'' then
            bindE (va_word va) (\<lambda>(w, va).
            Inr (print_unsigned s (as_unsigned nlong w) 16 props, fmt', va))
          else if f = CHR ''p'' then
            bindE (va_word va) (\<lambda>(w, va).
            Inr (print_unsigned s w 16 (props\<lparr>alternate := True\<rparr>), fmt', va))
          else if f = CHR ''s'' then
            bindE (va_str va) (\<lambda>(str, va). Inr (print_str s str props, fmt', va))
          else Inr (addchar s f, fmt', va))"

declare morefmt.simps [simp del]

definition default_props :: strprops where
  "default_props = \<lparr>pad = CHR '' '', npad = 0, alternate = False\<rparr>"

lemma morefmt_shorter: "length (fst (morefmt fmt nlong props)) \<le> length fmt"
proof (induction fmt arbitrary: nlong props rule: length_induct)
  case (1 fmt)
  show ?case
  proof (cases fmt)
    case Nil
    then show ?thesis by (subst morefmt.simps) simp
  next
    case (Cons f cs)
    obtain n fm n' fm' where num: "fmtnum cs = (n, fm)" "fmtnum (f # cs) = (n', fm')" by fastforce
    have le: "length fm \<le> length cs" "is_numflag f \<Longrightarrow> length fm' \<le> length cs"
      using fmtnum_less [of n fm cs] fmtnum_less_digit [of f n' fm' cs] num
      by (simp_all add: less_Suc_eq_le)
    have IH: "length (fst (morefmt x k p)) \<le> Suc (length cs)" if "length x \<le> length cs" for x k p
    proof -
      have "length x < length fmt" using that Cons by simp
      then have "length (fst (morefmt x k p)) \<le> length x" using "1.IH" by blast
      then show ?thesis using that by simp
    qed
    show ?thesis
      unfolding Cons by (subst morefmt.simps) (simp add: num IH le)
  qed
qed

lemma convert_shorter: "convert s fmt va nlong props = Inr (s', fmt', va') \<Longrightarrow> length fmt' \<le> length fmt"
  by (auto simp: convert_def bindE_eq_Inr split: list.splits if_splits)

text \<open>The loop of \<open>vsnprintf\<close>.\<close>

function vsnprintf_loop :: "pstream \<Rightarrow> string \<Rightarrow> vararg list \<Rightarrow> err + pstream" where
  "vsnprintf_loop s fmt va =
     (case fmt of
        [] \<Rightarrow> Inr s
      | f # fmt' \<Rightarrow>
          if f \<noteq> CHR ''%'' then vsnprintf_loop (addchar s f) fmt' va
          else
            (case (case morefmt fmt' 0 default_props of
                     (fmt, nlong, props) \<Rightarrow> convert s fmt va nlong props) of
               Inl e \<Rightarrow> Inl e
             | Inr (s, fmt, va) \<Rightarrow> vsnprintf_loop s fmt va))"
  by pat_completeness auto
termination
proof (relation "measure (\<lambda>(s, fmt, va). length fmt)", goal_cases)
  case (3 s fmt va f fmt' r b x y z)
  then have "length y \<le> length (fst (morefmt fmt' 0 default_props))"
    using convert_shorter by (force split: prod.splits)
  then show ?case using morefmt_shorter [of fmt' 0 default_props] 3 by auto
qed auto

declare vsnprintf_loop.simps [simp del]

text \<open>
  \<open>vsnprintf\<close> gives the characters before the NUL it stores, and its result; the stream is the
  buffer and its size less one.
\<close>

definition vsnprintf :: "u32 \<Rightarrow> string \<Rightarrow> vararg list \<Rightarrow> err + (string \<times> u32)" where
  "vsnprintf sz fmt va =
     bindE (vsnprintf_loop \<lparr>buffer = [], remain = sz - 1, added = 0\<rparr> fmt va)
       (\<lambda>s. Inr (buffer s, added s))"

definition snprintf :: "u32 \<Rightarrow> string \<Rightarrow> vararg list \<Rightarrow> err + (string \<times> u32)" where
  "snprintf sz fmt va = vsnprintf sz fmt va"

definition BUFSZ :: u32 where "BUFSZ = 2000"

text \<open>\<open>vprintf\<close> and \<open>printf\<close> give the string they pass to \<open>puts\<close> and their result.\<close>

definition vprintf :: "string \<Rightarrow> vararg list \<Rightarrow> err + (string \<times> u32)" where
  "vprintf fmt va = vsnprintf BUFSZ fmt va"

definition printf :: "string \<Rightarrow> vararg list \<Rightarrow> err + (string \<times> u32)" where
  "printf fmt va = vsnprintf BUFSZ fmt va"

section \<open>Binary strings\<close>

text \<open>The loop of \<open>binstr\<close>, from bit index \<open>i\<close> on.\<close>

function binstr_loop :: "u64 \<Rightarrow> nat \<Rightarrow> string \<Rightarrow> string" where
  "binstr_loop x i c =
     (if 64 \<le> i then c
      else
        let c = c @ [if x AND push_bit (64 - i - 1) 1 \<noteq> 0 then CHR ''1'' else CHR ''0''];
            i = i + 1
        in if i = 64 then c
           else binstr_loop x i (if i mod 4 = 0 then c @ [CHR 0x27] else c))"
  by pat_completeness auto
termination by (relation "measure (\<lambda>(x, i, c). 64 - i)") auto

declare binstr_loop.simps [simp del]

definition binstr :: "u64 \<Rightarrow> err + string" where
  "binstr x =
     (let c = binstr_loop x 0 []
      in bindE (assertE (length c + 1 = 80)) (\<lambda>_. Inr c))"

definition print_binstr :: "u64 \<Rightarrow> err + (string \<times> u32)" where
  "print_binstr x = bindE (binstr x) (\<lambda>out. printf ''%s'' [Str out])"

section \<open>What is emitted\<close>

text \<open>
  Every function of the formatter adds a string to the stream that does not depend on the stream;
  only \<open>addchar\<close> looks at the room left.
\<close>

lemma addstr_append: "addstr p (xs @ ys) = addstr (addstr p xs) ys"
  by (induction xs arbitrary: p) simp_all

lemma addstr_eq:
  "buffer (addstr p w) = buffer p @ take (unat (remain p)) w"
  "added (addstr p w) = added p + of_nat (length w)"
proof -
  have "buffer (addstr p w) = buffer p @ take (unat (remain p)) w \<and>
    added (addstr p w) = added p + of_nat (length w)"
  proof (induction w arbitrary: p)
    case (Cons c w)
    show ?case
    proof (cases "remain p = 0")
      case False
      then have "unat (remain p) = Suc (unat (remain p - 1))"
        using measure_unat [of "remain p"] by (simp add: unat_minus_one)
      then show ?thesis using Cons False by (simp add: addchar_def Let_def add.assoc)
    qed (use Cons in \<open>simp add: addchar_def Let_def add.assoc\<close>)
  qed simp
  then show "buffer (addstr p w) = buffer p @ take (unat (remain p)) w"
    "added (addstr p w) = added p + of_nat (length w)" by auto
qed

lemma addchar_addstr: "addchar p c = addstr p [c]"
  by simp

lemma pad_left_addstr: "pad_left p c n = (addstr p (replicate (nat n) c), min n 0)"
proof (induction p c n rule: pad_left.induct)
  case (1 p c n)
  show ?case
  proof (cases "0 < n")
    case True
    then have "nat n = Suc (nat (n - 1))" by simp
    then show ?thesis using 1 True by (subst pad_left.simps) simp
  qed (subst pad_left.simps, simp)
qed

lemma pad_right_addstr: "pad_right p c n = addstr p (replicate (nat (- n)) c)"
proof (induction p c n rule: pad_right.induct)
  case (1 p c n)
  show ?case
  proof (cases "n < 0")
    case True
    then have "nat (- n) = Suc (nat (- (n + 1)))" by simp
    then show ?thesis using 1 True by (subst pad_right.simps) simp
  qed (subst pad_right.simps, simp)
qed

text \<open>
  A string in its field: padded on the left to a positive width, on the right, with blanks, to a
  negative one, never cut.
\<close>

definition pad_str :: "string \<Rightarrow> strprops \<Rightarrow> string" where
  "pad_str s props =
     (if 0 < npad props then replicate (nat (npad props) - length s) (pad props) @ s
      else s @ replicate (nat (- npad props) - length s) CHR '' '')"

lemma print_str_addstr: "print_str p s props = addstr p (pad_str s props)"
proof (cases "0 < npad props")
  case True
  then have "nat (npad props - int (length s)) = nat (npad props) - length s" by simp
  then show ?thesis
    using True
    by (simp add: print_str_def Let_def pad_str_def pad_left_addstr pad_right_addstr addstr_append min_def)
next
  case False
  then have "nat (- npad props - int (length s)) = nat (- npad props) - length s" by simp
  then show ?thesis
    using False by (simp add: print_str_def Let_def pad_str_def pad_right_addstr addstr_append)
qed

lemma reverse_loop_mid:
  "\<lbrakk>length ys = length xs; n = 2 * length xs + length m\<rbrakk> \<Longrightarrow>
   reverse_loop (xs @ m @ ys) (length xs) n = xs @ rev m @ ys"
proof (induction m arbitrary: xs ys rule: length_induct)
  case (1 m)
  show ?case
  proof (cases "length m < 2")
    case True
    then have "rev m = m" by (cases m) auto
    then show ?thesis using True 1(3) by (subst reverse_loop.simps) simp
  next
    case False
    then obtain a m' b where m: "m = a # m' @ [b]"
      by (cases m rule: list.exhaust) (auto simp: neq_Nil_conv intro: rev_exhaust)
    let ?i = "length xs" and ?buf = "xs @ m @ ys"
    have j: "n - 1 - ?i = length (xs @ a # m')" using 1(3) m by simp
    have nth: "?buf ! ?i = a" "?buf ! (n - 1 - ?i) = b"
      unfolding j m by (simp_all add: nth_append)
    have upd: "?buf[?i := b, n - 1 - ?i := a] = (xs @ [b]) @ m' @ (a # ys)"
      unfolding j m by (simp add: list_update_append)
    have "reverse_loop ?buf ?i n = reverse_loop ((xs @ [b]) @ m' @ (a # ys)) (length (xs @ [b])) n"
      using False 1(3) m upd nth by (subst reverse_loop.simps) (simp add: Let_def)
    also have "\<dots> = (xs @ [b]) @ rev m' @ (a # ys)"
      using 1(1) [rule_format, of m' "a # ys" "xs @ [b]"] 1(2,3) m by simp
    finally show ?thesis using m by simp
  qed
qed

lemma reverse_loop_rev: "reverse_loop buf 0 (length buf) = rev buf"
  using reverse_loop_mid [of "[]" "[]" "length buf" buf] by simp

text \<open>Numbers as strings.\<close>

definition nat_str :: "nat \<Rightarrow> nat \<Rightarrow> string" where
  "nat_str base n = (if put_digits base n = [] then ''0'' else rev (put_digits base n))"

definition int_str :: "nat \<Rightarrow> int \<Rightarrow> string" where
  "int_str base n =
     (if n < 0 then ''-'' @ nat_str base (nat (- n)) else nat_str base (nat n))"

lemma put_digits_Nil: "2 \<le> base \<Longrightarrow> put_digits base n = [] \<longleftrightarrow> n = 0"
  by (subst put_digits.simps) simp

lemma sint_64: "sint (n :: u64) = (if uint n < 2 ^ 63 then uint n else uint n - 2 ^ 64)"
proof -
  have c: "0 \<le> uint n" "uint n < 2 ^ 64" using uint_lt2p [of n] by simp_all
  have s: "sint n = (uint n + 2 ^ 63) mod 2 ^ 64 - 2 ^ 63"
    by (simp add: sint_uint signed_take_bit_eq_take_bit_shift take_bit_eq_mod)
  show ?thesis
  proof (cases "uint n < 2 ^ 63")
    case False
    have "(uint n + 2 ^ 63) mod 2 ^ 64 = (uint n - 2 ^ 63 + 2 ^ 64) mod 2 ^ 64" by (simp add: add.commute)
    also have "\<dots> = uint n - 2 ^ 63" using False c by (simp only: mod_add_self2) simp
    finally show ?thesis using s False by simp
  qed (use s c in simp)
qed

lemma negate_64:
  assumes "n <s (0 :: u64)" "n \<noteq> 2 ^ 63"
  shows "\<not> - n <s 0" "unat (- n) = nat (- sint n)" "sint n < 0"
proof -
  have neg: "\<not> uint n < 2 ^ 63" "uint n < 2 ^ 64"
    using assms(1) uint_lt2p [of n] by (auto simp: word_sless_alt sint_64 split: if_splits)
  have "uint n \<noteq> 2 ^ 63" using assms(2) by (simp add: word_uint_eq_iff)
  moreover have m: "uint (- n) = 2 ^ 64 - uint n"
    using neg by (simp add: uint_word_ariths(4) zmod_zminus1_eq_if)
  ultimately show "\<not> - n <s 0" using neg by (simp add: word_sless_alt sint_64)
  show "unat (- n) = nat (- sint n)" "sint n < 0"
    using neg m by (simp_all add: sint_64 unat_eq_nat_uint)
qed

lemma print_int_addstr:
  assumes "2 \<le> base" "n \<noteq> 2 ^ 63"
  shows "print_int ps n base props = Inr (addstr ps (pad_str (int_str base (sint n)) props))"
proof (cases "n <s 0")
  case True
  note neg = negate_64 [OF True assms(2)]
  have "unat (- n) \<noteq> 0" using neg(2,3) by simp
  then have "put_digits base (unat (- n)) \<noteq> []" using assms(1) by (simp add: put_digits_Nil)
  then have "print_int ps n base props =
      Inr (print_str ps (rev (put_digits base (unat (- n)) @ ''-'')) props)"
    using True neg(1) reverse_loop_rev [of "put_digits base (unat (- n)) @ ''-''"]
    by (simp add: print_int_def Let_def)
  then show ?thesis
    using neg(3) \<open>put_digits base (unat (- n)) \<noteq> []\<close> unfolding neg(2)
    by (simp add: print_str_addstr int_str_def nat_str_def)
next
  case False
  then have "\<not> sint n < 0" by (simp add: word_sless_alt)
  moreover from this have "uint n < 2 ^ 63"
    using uint_lt2p [of n] unfolding sint_64 by (cases "uint n < 2 ^ 63") simp_all
  then have "unat n = nat (sint n)" unfolding sint_64 by simp
  ultimately have nn: "unat n = nat (sint n)" "\<not> sint n < 0" by simp_all
  have "print_int ps n base props = Inr (print_str ps (nat_str base (unat n)) props)"
    using False by (simp add: print_int_def Let_def reverse_loop_rev nat_str_def)
  then show ?thesis using nn(2) unfolding nn(1) by (simp add: print_str_addstr int_str_def)
qed

lemma print_int_least: "print_int ps (2 ^ 63) base props = Inl Out_of_bounds"
proof -
  have "(2 ^ 63 :: u64) <s 0" "- (2 ^ 63 :: u64) = 2 ^ 63" by code_simp+
  then show ?thesis by (simp only: print_int_def Let_def if_True split_conv)
qed

definition hex_prefix_str :: "string \<Rightarrow> strprops \<Rightarrow> string" where
  "hex_prefix_str ds props =
     (if pad props = CHR ''0'' then
        ''0x'' @ pad_str ds (if 0 < npad props then props\<lparr>npad := max (npad props - 2) 0\<rparr> else props)
      else pad_str (''0x'' @ ds) props)"

lemma print_unsigned_addstr:
  assumes "2 \<le> base"
  shows "print_unsigned ps n base props = addstr ps
    (if n \<noteq> 0 \<and> alternate props \<and> base = 16 then hex_prefix_str (nat_str base (unat n)) props
     else pad_str (nat_str base (unat n)) props)"
  using put_digits_Nil [OF assms, of "unat n"]
  by (auto simp: print_unsigned_def Let_def reverse_loop_rev print_str_addstr nat_str_def
      hex_prefix_str_def addstr_append unat_eq_zero simp flip: addstr_append)

section \<open>Truncation\<close>

text \<open>A conversion emits a string that depends on the format and the arguments only.\<close>

definition conv_emits ::
    "string \<Rightarrow> vararg list \<Rightarrow> nat \<Rightarrow> strprops \<Rightarrow> err + (string \<times> string \<times> vararg list) \<Rightarrow> bool" where
  "conv_emits fmt va nlong props r \<longleftrightarrow>
     (\<forall>s. convert s fmt va nlong props = (case r of Inl e \<Rightarrow> Inl e
        | Inr (w, fmt', va') \<Rightarrow> Inr (addstr s w, fmt', va')))"

lemma va_word_cases: "va_word va = Inl Bad_vararg \<or> (\<exists>w va'. va_word va = Inr (w, va'))"
  by (auto simp: va_word_def split: list.splits vararg.splits)

lemma va_str_cases: "va_str va = Inl Bad_vararg \<or> (\<exists>str va'. va_str va = Inr (str, va'))"
  by (auto simp: va_str_def split: list.splits vararg.splits)

lemma print_int_emits: "\<exists>r. \<forall>s. print_int s n 10 props = (case r of Inl e \<Rightarrow> Inl e | Inr w \<Rightarrow> Inr (addstr s w))"
proof (cases "n = 2 ^ 63")
  case True
  then show ?thesis using print_int_least [of _ 10 props] by (intro exI [of _ "Inl Out_of_bounds"]) simp
next
  case False
  then show ?thesis
    using print_int_addstr [of 10 n _ props]
    by (intro exI [of _ "Inr (pad_str (int_str 10 (sint n)) props)"]) simp
qed

lemma print_unsigned_emits:
  assumes "2 \<le> base"
  shows "\<exists>w. \<forall>s. print_unsigned s n base props = addstr s w"
  using print_unsigned_addstr [OF assms, of _ n props] by blast

lemma convert_emits: "\<exists>r. conv_emits fmt va nlong props r"
proof (cases fmt)
  case Nil
  then show ?thesis
    unfolding conv_emits_def by (intro exI [of _ "Inr ([], [], va)"]) (simp add: convert_def)
next
  case (Cons f fmt')
  have num: "\<exists>r. conv_emits fmt va nlong props r"
    if g: "\<And>s. convert s fmt va nlong props = bindE (va_word va) (\<lambda>(w, va). Inr (g s w, fmt', va))"
      "\<And>w. \<exists>out. \<forall>s. g s w = addstr s out" for g
  proof -
    from va_word_cases [of va] show ?thesis
    proof (elim disjE exE)
      assume "va_word va = Inl Bad_vararg"
      then show ?thesis
        unfolding conv_emits_def g(1) by (intro exI [of _ "Inl Bad_vararg"]) simp
    next
      fix w va' assume w: "va_word va = Inr (w, va')"
      obtain out where "\<And>s. g s w = addstr s out" using g(2) by blast
      with w show ?thesis
        unfolding conv_emits_def g(1) by (intro exI [of _ "Inr (out, fmt', va')"]) simp
    qed
  qed
  have one: "\<exists>r. conv_emits fmt va nlong props r"
    if "\<And>s. convert s fmt va nlong props = Inr (addchar s c, fmt', va)" for c
    unfolding conv_emits_def that by (intro exI [of _ "Inr ([c], fmt', va)"]) simp
  have int: "\<exists>r. conv_emits fmt va nlong props r" if "f = CHR ''d''"
  proof -
    have eq: "convert s fmt va nlong props = bindE (va_word va) (\<lambda>(w, va).
        bindE (print_int s (as_int nlong w) 10 props) (\<lambda>s. Inr (s, fmt', va)))" for s
      using that Cons by (simp add: convert_def)
    from va_word_cases [of va] show ?thesis
    proof (elim disjE exE)
      assume "va_word va = Inl Bad_vararg"
      then show ?thesis
        unfolding conv_emits_def eq by (intro exI [of _ "Inl Bad_vararg"]) simp
    next
      fix w va' assume w: "va_word va = Inr (w, va')"
      obtain r where r: "\<And>s. print_int s (as_int nlong w) 10 props =
          (case r of Inl e \<Rightarrow> Inl e | Inr w \<Rightarrow> Inr (addstr s w))"
        using print_int_emits by blast
      show ?thesis
        unfolding conv_emits_def eq
        by (cases r; intro exI [of _ "case r of Inl e \<Rightarrow> Inl e | Inr out \<Rightarrow> Inr (out, fmt', va')"])
          (simp_all add: w r)
    qed
  qed
  have str: "\<exists>r. conv_emits fmt va nlong props r" if "f = CHR ''s''"
  proof -
    have eq: "convert s fmt va nlong props =
        bindE (va_str va) (\<lambda>(str, va). Inr (print_str s str props, fmt', va))" for s
      using that Cons by (simp add: convert_def)
    from va_str_cases [of va] show ?thesis
    proof (elim disjE exE)
      assume "va_str va = Inl Bad_vararg"
      then show ?thesis
        unfolding conv_emits_def eq by (intro exI [of _ "Inl Bad_vararg"]) simp
    next
      fix str va' assume "va_str va = Inr (str, va')"
      then show ?thesis
        unfolding conv_emits_def eq
        by (intro exI [of _ "Inr (pad_str str props, fmt', va')"]) (simp add: print_str_addstr)
    qed
  qed
  consider "f = CHR ''d''" | "f = CHR ''s''" | "f = CHR ''c''" | "f = CHR ''u''" | "f = CHR ''x''"
    | "f = CHR ''p''" | "f \<notin> {CHR ''d'', CHR ''s'', CHR ''c'', CHR ''u'', CHR ''x'', CHR ''p''}"
    by blast
  then show ?thesis
  proof cases
    case 3
    show ?thesis
      by (rule num [of "\<lambda>s w. addchar s (char_of (unat w))"])
        (use 3 Cons in \<open>simp_all add: convert_def addchar_addstr del: addstr.simps, blast\<close>)
  next
    case 4
    show ?thesis
      by (rule num [of "\<lambda>s w. print_unsigned s (as_unsigned nlong w) 10 props"])
        (use 4 Cons print_unsigned_emits in \<open>simp_all add: convert_def\<close>)
  next
    case 5
    show ?thesis
      by (rule num [of "\<lambda>s w. print_unsigned s (as_unsigned nlong w) 16 props"])
        (use 5 Cons print_unsigned_emits in \<open>simp_all add: convert_def\<close>)
  next
    case 6
    show ?thesis
      by (rule num [of "\<lambda>s w. print_unsigned s w 16 (props\<lparr>alternate := True\<rparr>)"])
        (use 6 Cons print_unsigned_emits in \<open>simp_all add: convert_def\<close>)
  next
    case 7
    show ?thesis
      by (rule one [of f]) (use 7 Cons in \<open>simp add: convert_def\<close>)
  qed (use int str in blast)+
qed

lemma vsnprintf_loop_emits:
  "\<exists>r. \<forall>s. vsnprintf_loop s fmt va = (case r of Inl e \<Rightarrow> Inl e | Inr w \<Rightarrow> Inr (addstr s w))"
proof (induction fmt arbitrary: va rule: length_induct)
  case (1 fmt)
  show ?case
  proof (cases fmt)
    case Nil
    then show ?thesis by (intro exI [of _ "Inr []"]) (subst vsnprintf_loop.simps, simp)
  next
    case (Cons f fmt')
    have IH: "\<exists>r. \<forall>s. vsnprintf_loop s x va = (case r of Inl e \<Rightarrow> Inl e | Inr w \<Rightarrow> Inr (addstr s w))"
      if "length x \<le> length fmt'" for x va
    proof -
      have "length x < length fmt" using that Cons by simp
      then show ?thesis using 1 by blast
    qed
    show ?thesis
    proof (cases "f = CHR ''%''")
      case False
      then have eq: "vsnprintf_loop s fmt va = vsnprintf_loop (addstr s [f]) fmt' va" for s
        unfolding Cons by (subst vsnprintf_loop.simps) simp
      obtain r where r: "\<And>s. vsnprintf_loop s fmt' va = (case r of Inl e \<Rightarrow> Inl e | Inr w \<Rightarrow> Inr (addstr s w))"
        using IH [OF order_refl] by blast
      show ?thesis
        unfolding eq r
        by (cases r; intro exI [of _ "case r of Inl e \<Rightarrow> Inl e | Inr w \<Rightarrow> Inr ([f] @ w)"])
          (simp_all only: sum.case addstr_append, simp_all)
    next
      case True
      obtain fm nlong props where m: "morefmt fmt' 0 default_props = (fm, nlong, props)"
        using prod_cases3 by blast
      obtain c where c: "conv_emits fm va nlong props c" using convert_emits by blast
      have eq: "vsnprintf_loop s fmt va = (case (case c of Inl e \<Rightarrow> Inl e
          | Inr (w, fmt', va') \<Rightarrow> Inr (addstr s w, fmt', va')) of
            Inl e \<Rightarrow> Inl e | Inr (s, fmt, va) \<Rightarrow> vsnprintf_loop s fmt va)" for s
        using True c m unfolding Cons conv_emits_def by (subst vsnprintf_loop.simps) simp
      show ?thesis
      proof (cases c)
        case (Inl e)
        then show ?thesis unfolding eq by (intro exI [of _ "Inl e"]) simp
      next
        case (Inr wfv)
        obtain w fm' va' where wfv: "wfv = (w, fm', va')" using prod_cases3 by blast
        have "length fm' \<le> length fm"
          using c convert_shorter unfolding conv_emits_def Inr wfv by fastforce
        also have "\<dots> \<le> length fmt'" using morefmt_shorter [of fmt' 0 default_props] m by simp
        finally obtain r where r: "\<And>s. vsnprintf_loop s fm' va' =
            (case r of Inl e \<Rightarrow> Inl e | Inr w \<Rightarrow> Inr (addstr s w))" using IH by blast
        show ?thesis
          unfolding eq Inr wfv
          by (cases r; intro exI [of _ "case r of Inl e \<Rightarrow> Inl e | Inr w' \<Rightarrow> Inr (w @ w')"])
            (simp_all add: r addstr_append)
      qed
    qed
  qed
qed

text \<open>
  C40: for every format and arguments there is a full output, or an error, that does not depend
  on the size of the buffer: \<open>vsnprintf\<close> stores its first \<open>size - 1\<close> characters and returns its
  length. A size of 0 makes the room \<open>2 ^ 32 - 1\<close> characters.
\<close>

theorem vsnprintf_truncates:
  "\<exists>r. \<forall>sz. vsnprintf sz fmt va =
     (case r of Inl e \<Rightarrow> Inl e | Inr w \<Rightarrow> Inr (take (unat (sz - 1)) w, of_nat (length w)))"
proof -
  obtain r where r: "\<And>s. vsnprintf_loop s fmt va = (case r of Inl e \<Rightarrow> Inl e | Inr w \<Rightarrow> Inr (addstr s w))"
    using vsnprintf_loop_emits by blast
  show ?thesis
    by (intro exI [of _ r]) (auto simp: vsnprintf_def r addstr_eq split: sum.splits)
qed

section \<open>Numbers read back\<close>

definition bytes_of :: "string \<Rightarrow> u8 list" where
  "bytes_of s = map of_char s"

lemma digit_byte:
  assumes "d < 10"
  shows "is_digit (of_char (digits ! d))" "unat (of_char (digits ! d) :: u8) - 48 = d"
proof -
  have "\<forall>d \<in> set [0..<10]. is_digit (of_char (digits ! d)) \<and>
    unat (of_char (digits ! d) :: u8) - 48 = d" by code_simp
  with assms show "is_digit (of_char (digits ! d))" "unat (of_char (digits ! d) :: u8) - 48 = d"
    by auto
qed

lemma digits_val_snoc: "digits_val (ds @ [c]) = digits_val ds * 10 + (unat c - 48)"
  by (simp add: digits_val_def)

lemma put_digits_10:
  "(\<forall>c \<in> set (bytes_of (put_digits 10 n)). is_digit c) \<and> digits_val (rev (bytes_of (put_digits 10 n))) = n"
proof (induction n rule: less_induct)
  case (less n)
  show ?case
  proof (cases "n = 0")
    case True
    then show ?thesis by (simp add: put_digits.simps [of 10 0] bytes_of_def digits_val_def)
  next
    case False
    have eq: "put_digits 10 n = digits ! (n mod 10) # put_digits 10 (n div 10)"
      using False by (subst put_digits.simps) simp
    have "n div 10 < n" using False by simp
    note IH = less [OF this]
    have "n mod 10 < 10" by simp
    note d = digit_byte [OF this]
    have "n div 10 * 10 + n mod 10 = n" by simp
    then show ?thesis
      using IH d by (simp add: eq bytes_of_def digits_val_snoc)
  qed
qed

lemma nat_str_10:
  "bytes_of (nat_str 10 n) \<noteq> []" "\<forall>c \<in> set (bytes_of (nat_str 10 n)). is_digit c"
  "digits_val (bytes_of (nat_str 10 n)) = n"
proof -
  have zero: "bytes_of ''0'' = [48]" by code_simp
  have "n = 0 \<longleftrightarrow> put_digits 10 n = []" by (simp add: put_digits_Nil)
  moreover have "is_digit 48" "digits_val [48] = 0" by code_simp+
  ultimately show "bytes_of (nat_str 10 n) \<noteq> []" "\<forall>c \<in> set (bytes_of (nat_str 10 n)). is_digit c"
    "digits_val (bytes_of (nat_str 10 n)) = n"
    using put_digits_10 [of n] zero
    by (auto simp: nat_str_def bytes_of_def rev_map simp flip: rev_map)
qed

lemma bytes_of_minus: "bytes_of (CHR ''-'' # s) = 45 # bytes_of s"
proof -
  have "(of_char CHR ''-'' :: u8) = 45" by code_simp
  then show ?thesis by (simp add: bytes_of_def)
qed

lemma atol_int_str:
  assumes "cstr m a (bytes_of (int_str 10 i))"
  shows "atol m a = Some (of_int i)"
proof (cases "i < 0")
  case True
  then have "cstr m a ([] @ [45] @ bytes_of (nat_str 10 (nat (- i))) @ [])"
    using assms by (simp add: int_str_def bytes_of_minus)
  from atol_cstr [OF this] nat_str_10 [of "nat (- i)"]
  have "atol m a = Some (- of_nat (nat (- i)))" by simp
  also have "- of_nat (nat (- i)) = (of_int i :: u64)" using True by simp
  finally show ?thesis .
next
  case False
  then have "cstr m a ([] @ [] @ bytes_of (nat_str 10 (nat i)) @ [])"
    using assms by (simp add: int_str_def)
  from atol_cstr [OF this] nat_str_10 [of "nat i"]
  have "atol m a = Some (of_nat (nat i))" by simp
  then show ?thesis using False by simp
qed

lemma vsnprintf_ld:
  assumes "n \<noteq> 2 ^ 63"
  shows "vsnprintf sz ''%ld'' [Word n] =
    Inr (take (unat (sz - 1)) (int_str 10 (sint n)), of_nat (length (int_str 10 (sint n))))"
proof -
  have m: "morefmt ''ld'' 0 default_props = (''d'', 1, default_props)" by code_simp
  have c: "convert s ''d'' [Word n] 1 default_props = Inr (addstr s (int_str 10 (sint n)), [], [])" for s
    using print_int_addstr [of 10 n s default_props] assms
    by (simp add: convert_def va_word_def as_int_def pad_str_def default_props_def)
  have "vsnprintf_loop s ''%ld'' [Word n] = Inr (addstr s (int_str 10 (sint n)))" for s
    by (subst vsnprintf_loop.simps) (simp add: m c [simplified] vsnprintf_loop.simps [of _ "[]"])
  then show ?thesis by (simp add: vsnprintf_def addstr_eq)
qed

lemma length_put_digits: "n < 10 ^ k \<Longrightarrow> length (put_digits 10 n) \<le> k"
proof (induction k arbitrary: n)
  case 0
  then show ?case by (simp add: put_digits.simps [of 10 0])
next
  case (Suc k)
  then have "n div 10 < 10 ^ k" by (simp add: div_less_iff_less_mult)
  with Suc.IH show ?case by (subst put_digits.simps) simp
qed

lemma length_int_str: "length (int_str 10 (sint (n :: u64))) \<le> 21"
proof -
  have "- (2 ^ 63) \<le> sint n" "sint n < 2 ^ 63"
    using sint_ge [of n] sint_lt [of n] by simp_all
  then have "nat (- sint n) < 10 ^ 20" "nat (sint n) < 10 ^ 20" by (simp_all add: nat_less_iff)
  then show ?thesis
    using length_put_digits [of "nat (- sint n)" 20] length_put_digits [of "nat (sint n)" 20]
    by (auto simp: int_str_def nat_str_def)
qed

text \<open>
  a \<open>long\<close> printed with \<open>%ld\<close> into a buffer with room for it is read back by \<open>atol\<close>, except
  for the least one, for which the formatter reads outside its digit table.
\<close>

theorem print_atol_roundtrip:
  assumes "cstr m a (bytes_of w)"
    and "vsnprintf sz ''%ld'' [Word n] = Inr (w, len)" "unat len \<le> unat (sz - 1)"
  shows "atol m a = Some n"
proof -
  have n: "n \<noteq> 2 ^ 63"
  proof
    assume "n = 2 ^ 63"
    have m: "morefmt ''ld'' 0 default_props = (''d'', 1, default_props)" by code_simp
    have "vsnprintf_loop s ''%ld'' [Word n] = Inl Out_of_bounds" for s
      using print_int_least [of s 10 default_props] \<open>n = 2 ^ 63\<close>
      by (subst vsnprintf_loop.simps) (simp add: m convert_def va_word_def as_int_def)
    then show False using assms(2) by (simp add: vsnprintf_def)
  qed
  have w: "w = take (unat (sz - 1)) (int_str 10 (sint n))" "len = of_nat (length (int_str 10 (sint n)))"
    using assms(2) vsnprintf_ld [OF n] by simp_all
  have "unat len = length (int_str 10 (sint n))"
    using length_int_str [of n] w(2) by (simp add: unat_of_nat take_bit_nat_eq_self)
  then have "w = int_str 10 (sint n)" using assms(3) w(1) by simp
  then show ?thesis using atol_int_str assms(1) by simp
qed

lemma print_atol_roundtrip_witness: "atol (put (\<lambda>_. 0) 0x1000 [45, 52, 50, 0]) 0x1000 = Some (- 42)"
proof (rule print_atol_roundtrip)
  have "bytes_of ''-42'' = [45, 52, 50]" by code_simp
  then show "cstr (put (\<lambda>_. 0) 0x1000 [45, 52, 50, 0]) 0x1000 (bytes_of ''-42'')" by simp
  show "vsnprintf 100 ''%ld'' [Word (- 42)] = Inr (''-42'', 3)"
    by (subst vsnprintf_ld) code_simp+
qed simp

text \<open>Other conversions, and the error of the least number.\<close>

lemma vsnprintf_least: "vsnprintf sz ''%ld'' [Word (2 ^ 63)] = Inl Out_of_bounds"
proof -
  have m: "morefmt ''ld'' 0 default_props = (''d'', 1, default_props)" by code_simp
  have "vsnprintf_loop s ''%ld'' [Word (2 ^ 63)] = Inl Out_of_bounds" for s
    using print_int_least [of s 10 default_props]
    by (subst vsnprintf_loop.simps) (simp add: m convert_def va_word_def as_int_def)
  then show ?thesis by (simp add: vsnprintf_def)
qed

section \<open>Binary strings read back\<close>

definition binstr_bit :: "u64 \<Rightarrow> nat \<Rightarrow> char" where
  "binstr_bit x j = (if bit x (63 - j) then CHR ''1'' else CHR ''0'')"

definition binstr_item :: "u64 \<Rightarrow> nat \<Rightarrow> nat \<Rightarrow> string" where
  "binstr_item x i j = (if j \<noteq> i \<and> j mod 4 = 0 then [CHR 0x27] else []) @ [binstr_bit x j]"

lemma binstr_loop_concat:
  "i < 64 \<Longrightarrow> binstr_loop x i c = c @ concat (map (binstr_item x i) [i..<64])"
proof (induction x i c rule: binstr_loop.induct)
  case (1 x i c)
  let ?b = "binstr_bit x i"
  have b: "(if x AND push_bit (64 - i - 1) 1 \<noteq> 0 then CHR ''1'' else CHR ''0'') = ?b"
    by (simp only: push_bit_of_1 and_exp_eq_0_iff_not_bit binstr_bit_def) simp
  show ?case
  proof (cases "i = 63")
    case True
    then show ?thesis
      using b by (subst binstr_loop.simps) (simp add: Let_def upt_conv_Cons binstr_item_def)
  next
    case False
    then have i: "i + 1 < 64" using 1(2) by simp
    let ?c = "if (i + 1) mod 4 = 0 then (c @ [?b]) @ [CHR 0x27] else c @ [?b]"
    have "binstr_loop x i c = binstr_loop x (i + 1) ?c"
      using 1(2) False by (subst binstr_loop.simps) (simp only: b Let_def, simp)
    also have "\<dots> = ?c @ concat (map (binstr_item x (i + 1)) [i + 1..<64])"
      using 1(1) [OF _ refl refl _ i, unfolded b] 1(2) False by simp
    also have "\<dots> = c @ [?b] @ concat (map (binstr_item x i) [i + 1..<64])"
    proof -
      have "[i + 1..<64] = (i + 1) # [i + 2..<64]" using i by (simp add: upt_conv_Cons)
      moreover have "concat (map (binstr_item x (Suc i)) [Suc (Suc i)..<64]) =
          concat (map (binstr_item x i) [Suc (Suc i)..<64])"
        by (rule arg_cong [of _ _ concat], rule map_cong) (auto simp: binstr_item_def)
      ultimately have "concat (map (binstr_item x (i + 1)) [i + 1..<64]) =
          [binstr_bit x (i + 1)] @ concat (map (binstr_item x i) [i + 2..<64])"
        "concat (map (binstr_item x i) [i + 1..<64]) =
          binstr_item x i (i + 1) @ concat (map (binstr_item x i) [i + 2..<64])"
        by (simp_all add: binstr_item_def)
      then show ?thesis by (simp add: binstr_item_def)
    qed
    also have "\<dots> = c @ concat (map (binstr_item x i) [i..<64])"
      using 1(2) by (simp add: upt_conv_Cons binstr_item_def)
    finally show ?thesis .
  qed
qed

text \<open>
  \<open>binstr\<close> never fails its assertion; without the quotes its output is the 64 bits of the
  number, the highest first.
\<close>

theorem binstr_bits:
  "\<exists>out. binstr x = Inr out \<and> length out = 79 \<and>
     filter (\<lambda>c. c \<noteq> CHR 0x27) out = map (\<lambda>j. if bit x (63 - j) then CHR ''1'' else CHR ''0'') [0..<64]"
proof -
  let ?out = "binstr_loop x 0 []"
  have out: "?out = concat (map (binstr_item x 0) [0..<64])" by (simp add: binstr_loop_concat)
  have "length (binstr_item x 0 j) = (if j \<noteq> 0 \<and> j mod 4 = 0 then 2 else 1)" for j
    by (simp add: binstr_item_def)
  then have "length ?out = sum_list (map (\<lambda>j. if j \<noteq> 0 \<and> j mod 4 = 0 then 2 else 1) [0..<64])"
    unfolding out length_concat map_map o_def by (simp only:)
  also have "\<dots> = 79" by code_simp
  finally have len: "length ?out = 79" .
  have "filter (\<lambda>c. c \<noteq> CHR 0x27) (binstr_item x 0 j) = [binstr_bit x j]" for j
    by (simp add: binstr_item_def binstr_bit_def)
  then have "filter (\<lambda>c. c \<noteq> CHR 0x27) ?out = map (binstr_bit x) [0..<64]"
    unfolding out filter_concat map_map o_def by (simp only: concat_map_singleton)
  moreover have "binstr x = Inr ?out" using len by (simp add: binstr_def Let_def)
  ultimately show ?thesis using len by (auto simp: binstr_bit_def)
qed

section \<open>Formats that fit their arguments\<close>

text \<open>
  Whether every conversion of a format finds an argument of its kind; the most negative number is the one that \<open>print_int\<close> cannot
  print.
\<close>

function fmt_ok :: "string \<Rightarrow> vararg list \<Rightarrow> bool" where
  "fmt_ok fmt va =
     (case fmt of
        [] \<Rightarrow> True
      | f # fmt' \<Rightarrow>
          if f \<noteq> CHR ''%'' then fmt_ok fmt' va
          else
            case fst (morefmt fmt' 0 default_props) of
              [] \<Rightarrow> True
            | g # fmt'' \<Rightarrow>
                if g \<in> set ''cuxp'' then (case va of Word w # va \<Rightarrow> fmt_ok fmt'' va | _ \<Rightarrow> False)
                else if g = CHR ''d'' then
                  (case va of
                     Word w # va \<Rightarrow> (fst (snd (morefmt fmt' 0 default_props)) = 0 \<or> w \<noteq> 2 ^ 63) \<and> fmt_ok fmt'' va
                   | _ \<Rightarrow> False)
                else if g = CHR ''s'' then (case va of Str x # va \<Rightarrow> fmt_ok fmt'' va | _ \<Rightarrow> False)
                else fmt_ok fmt'' va)"
  by pat_completeness auto
termination
proof (relation "measure (\<lambda>(fmt, va). length fmt)", goal_cases)
  case (3 fmt va f fmt' g fmt'')
  then show ?case using morefmt_shorter [of fmt' 0 default_props] by simp
next
  case (4 fmt va f fmt' g fmt'')
  then show ?case using morefmt_shorter [of fmt' 0 default_props] by simp
next
  case (5 fmt va f fmt' g fmt'')
  then show ?case using morefmt_shorter [of fmt' 0 default_props] by simp
next
  case (6 fmt va f fmt' g fmt'')
  then show ?case using morefmt_shorter [of fmt' 0 default_props] by simp
qed auto

declare fmt_ok.simps [simp del]

lemma as_int_not_least: "as_int 0 w \<noteq> 2 ^ 63"
proof
  assume "as_int 0 w = 2 ^ 63"
  then have "sint (as_int 0 w) = sint (2 ^ 63 :: u64)" by simp
  moreover have "sint (as_int 0 w) = sint (ucast w :: u32)"
    using sint_ge [of "ucast w :: u32"] sint_lt [of "ucast w :: u32"]
    by (simp add: as_int_def signed_scast_eq signed_take_bit_int_eq_self)
  moreover have "sint (2 ^ 63 :: u64) = - (2 ^ 63)" by code_simp
  moreover have "- (2 ^ 31) \<le> sint (ucast w :: u32)" using sint_ge [of "ucast w :: u32"] by simp
  ultimately show False by simp
qed

lemma print_int_runs:
  assumes "nlong = 0 \<or> w \<noteq> 2 ^ 63"
  shows "print_int s (as_int nlong w) 10 props = Inr (addstr s (pad_str (int_str 10 (sint (as_int nlong w))) props))"
proof -
  have "as_int nlong w \<noteq> 2 ^ 63" using assms as_int_not_least [of w] by (cases "nlong = 0") (auto simp: as_int_def)
  then show ?thesis by (intro print_int_addstr) auto
qed

lemma fmt_ok_loop: "fmt_ok fmt va \<Longrightarrow> \<exists>r. vsnprintf_loop s fmt va = Inr r"
proof (induction fmt va arbitrary: s rule: fmt_ok.induct)
  case (1 fmt va)
  show ?case
  proof (cases fmt)
    case Nil
    then show ?thesis by (subst vsnprintf_loop.simps) simp
  next
    case (Cons f fmt')
    show ?thesis
    proof (cases "f = CHR ''%''")
      case False
      then show ?thesis using "1.prems" "1.IH"(1) Cons by (subst vsnprintf_loop.simps) (subst (asm) fmt_ok.simps, simp)
    next
      case f: True
      obtain fm nl props where m: "morefmt fmt' 0 default_props = (fm, nl, props)" by (cases "morefmt fmt' 0 default_props")
      show ?thesis
      proof (cases fm)
        case Nil
        then show ?thesis using Cons f m
          by (subst vsnprintf_loop.simps) (simp add: convert_def, subst vsnprintf_loop.simps, simp)
      next
        case g: (Cons g fmt'')
        note ok = "1.prems" [unfolded Cons, simplified fmt_ok.simps [of "f # fmt'"]]
        show ?thesis
          using ok Cons f m g "1.IH"(2) [OF Cons _ , of g fmt''] "1.IH"(3) [OF Cons _, of g fmt''] "1.IH"(4) [OF Cons _, of g fmt''] "1.IH"(5) [OF Cons _, of g fmt'']
          by (subst vsnprintf_loop.simps) (auto simp: print_int_runs convert_def va_word_def va_str_def split: if_splits list.splits vararg.splits)
      qed
    qed
  qed
qed

lemma fmt_ok_vsnprintf: "fmt_ok fmt va \<Longrightarrow> \<exists>out n. vsnprintf sz fmt va = Inr (out, n)"
  using fmt_ok_loop [of fmt va "\<lparr>buffer = [], remain = sz - 1, added = 0\<rparr>"] by (auto simp: vsnprintf_def)

lemma morefmt_stop: "f \<notin> set ''#0123456789-ltz'' \<Longrightarrow> morefmt (f # fmt) n props = (f # fmt, n, props)"
  by (subst morefmt.simps) (auto simp: is_numflag_def)

lemma morefmt_l: "morefmt (CHR ''l'' # fmt) n props = morefmt fmt (Suc n) props"
  by (subst morefmt.simps) (simp add: is_numflag_def)

lemma morefmt_alt: "morefmt (CHR ''#'' # fmt) n props = morefmt fmt n (props\<lparr>alternate := True\<rparr>)"
  by (subst morefmt.simps) (simp add: is_numflag_def)

text \<open>Checking a format by rewriting.\<close>

lemma fmt_ok_simps:
  "fmt_ok [] va"
  "f \<noteq> CHR ''%'' \<Longrightarrow> fmt_ok (f # fmt) va \<longleftrightarrow> fmt_ok fmt va"
  "fmt_ok (CHR ''%'' # CHR ''d'' # fmt) (Word w # va) \<longleftrightarrow> fmt_ok fmt va"
  "fmt_ok (CHR ''%'' # CHR ''u'' # fmt) (Word w # va) \<longleftrightarrow> fmt_ok fmt va"
  "fmt_ok (CHR ''%'' # CHR ''x'' # fmt) (Word w # va) \<longleftrightarrow> fmt_ok fmt va"
  "fmt_ok (CHR ''%'' # CHR ''c'' # fmt) (Word w # va) \<longleftrightarrow> fmt_ok fmt va"
  "fmt_ok (CHR ''%'' # CHR ''p'' # fmt) (Word w # va) \<longleftrightarrow> fmt_ok fmt va"
  "fmt_ok (CHR ''%'' # CHR ''l'' # CHR ''x'' # fmt) (Word w # va) \<longleftrightarrow> fmt_ok fmt va"
  "fmt_ok (CHR ''%'' # CHR ''l'' # CHR ''u'' # fmt) (Word w # va) \<longleftrightarrow> fmt_ok fmt va"
  "fmt_ok (CHR ''%'' # CHR ''#'' # CHR ''x'' # fmt) (Word w # va) \<longleftrightarrow> fmt_ok fmt va"
  "fmt_ok (CHR ''%'' # CHR ''#'' # CHR ''l'' # CHR ''x'' # fmt) (Word w # va) \<longleftrightarrow> fmt_ok fmt va"
  "fmt_ok (CHR ''%'' # CHR ''s'' # fmt) (Str x # va) \<longleftrightarrow> fmt_ok fmt va"
  by (subst fmt_ok.simps; simp add: morefmt_stop morefmt_l morefmt_alt)+

lemmas fmt_nil = fmt_ok_simps(1) and fmt_plain = fmt_ok_simps(2) [THEN iffD2] and fmt_d = fmt_ok_simps(3) [THEN iffD2]
  and fmt_lx = fmt_ok_simps(8) [THEN iffD2] and fmt_s = fmt_ok_simps(12) [THEN iffD2]

end
