(* ===== verification/Ept.thy ===== *)
theory Ept
  imports X86Vm
begin

text \<open>
  The nested page tables of the VMX tests: the EPT functions of \<open>x86/vmx.c\<close> with the constants of
  \<open>x86/vmx.h\<close>. Four levels of 512 entries; an entry may map 2M or 1G, and such an entry is split
  into a table when something smaller is installed under it.
\<close>

definition EPT_RA :: u64 where "EPT_RA = 1"
definition EPT_WA :: u64 where "EPT_WA = 2"
definition EPT_EA :: u64 where "EPT_EA = 4"
definition EPT_PRESENT :: u64 where "EPT_PRESENT = EPT_RA OR EPT_WA OR EPT_EA"
definition EPT_ACCESS_FLAG :: u64 where "EPT_ACCESS_FLAG = push_bit 8 1"
definition EPT_DIRTY_FLAG :: u64 where "EPT_DIRTY_FLAG = push_bit 9 1"
definition EPT_LARGE_PAGE :: u64 where "EPT_LARGE_PAGE = push_bit 7 1"
definition PAGE_SIZE_2M :: u64 where "PAGE_SIZE_2M = 512 * PAGE_SIZE"
definition PAGE_SIZE_1G :: u64 where "PAGE_SIZE_1G = 512 * PAGE_SIZE_2M"
definition EPT_PAGE_LEVEL :: nat where "EPT_PAGE_LEVEL = 4"
definition EPT_PGDIR_WIDTH :: nat where "EPT_PGDIR_WIDTH = 9"
definition EPT_PGDIR_MASK :: u64 where "EPT_PGDIR_MASK = 511"
definition EPT_PGDIR_ENTRIES :: nat where "EPT_PGDIR_ENTRIES = 2 ^ EPT_PGDIR_WIDTH"
definition EPT_LEVEL_SHIFT :: "nat \<Rightarrow> nat" where
  "EPT_LEVEL_SHIFT lvl = (lvl - 1) * EPT_PGDIR_WIDTH + 12"
definition EPT_ADDR_MASK :: u64 where "EPT_ADDR_MASK = GENMASK_ULL 51 12"

definition ept_offset :: "u64 \<Rightarrow> nat \<Rightarrow> u64" where
  "ept_offset ga l = drop_bit (EPT_LEVEL_SHIFT l) ga AND EPT_PGDIR_MASK"

section \<open>Splitting and installing\<close>

text \<open>The loop that fills the new table: \<open>k\<close> entries left, from entry \<open>i\<close> on.\<close>

primrec split_fill :: "nat \<Rightarrow> nat \<Rightarrow> cells \<Rightarrow> u64 \<Rightarrow> u64 \<Rightarrow> u64 \<Rightarrow> u64 \<Rightarrow> cells" where
  "split_fill 0 i m new_pt prototype gpa step = m"
| "split_fill (Suc k) i m new_pt prototype gpa step =
     split_fill k (Suc i) (m(new_pt + 8 * of_nat i := prototype OR gpa)) new_pt prototype
       (gpa + step) step"

definition split_large_ept_entry ::
    "u64 \<Rightarrow> nat \<Rightarrow> 'a page_alloc_scheme \<Rightarrow> err + 'a page_alloc_scheme" where
  "split_large_ept_entry ptep lvl s =
     (let pte = cells s ptep
      in bindE (assertE (pte AND EPT_PRESENT \<noteq> 0)) (\<lambda>_.
         bindE (assertE (pte AND EPT_LARGE_PAGE \<noteq> 0)) (\<lambda>_.
         bindE (assertE (lvl = 2 \<or> lvl = 3)) (\<lambda>_.
         let (s, new_pt) = alloc_page s
         in bindE (assertE (new_pt \<noteq> 0)) (\<lambda>_.
         let s = s\<lparr>cells := zero_page (cells s) new_pt\<rparr>;
             prototype = pte AND NOT EPT_ADDR_MASK;
             prototype = (if lvl = 2 then prototype AND NOT EPT_LARGE_PAGE else prototype);
             gpa = pte AND EPT_ADDR_MASK;
             m = split_fill EPT_PGDIR_ENTRIES 0 (cells s) new_pt prototype gpa
                   (push_bit (EPT_LEVEL_SHIFT (lvl - 1)) 1);
             pte = pte AND NOT EPT_LARGE_PAGE;
             pte = pte AND NOT EPT_ADDR_MASK;
             pte = pte OR new_pt
         in Inr (s\<lparr>cells := m(ptep := pte)\<rparr>))))))"

function install_ept_loop ::
    "nat \<Rightarrow> u64 \<Rightarrow> nat \<Rightarrow> u64 \<Rightarrow> u64 \<Rightarrow> 'a page_alloc_scheme \<Rightarrow>
     err + ('a page_alloc_scheme \<times> u64 \<times> nat)" where
  "install_ept_loop pte_level guest_addr lvl pt pt_page s =
     (if pte_level < lvl then
        let offset = ept_offset guest_addr lvl; e = cells s (pt + 8 * offset)
        in bindE
             (if e AND EPT_PRESENT = 0 then
                let (s, new_pt, pt_page) =
                      (if pt_page = 0 then let (s, p) = alloc_page s in (s, p, pt_page)
                       else (s, pt_page, 0));
                    s = s\<lparr>cells := zero_page (cells s) new_pt\<rparr>
                in Inr (s\<lparr>cells := (cells s)(pt + 8 * offset :=
                          new_pt OR EPT_RA OR EPT_WA OR EPT_EA)\<rparr>, pt_page)
              else if e AND EPT_LARGE_PAGE \<noteq> 0 then
                bindE (split_large_ept_entry (pt + 8 * offset) lvl s) (\<lambda>s. Inr (s, pt_page))
              else Inr (s, pt_page))
             (\<lambda>(s, pt_page). install_ept_loop pte_level guest_addr (lvl - 1)
                (cells s (pt + 8 * offset) AND EPT_ADDR_MASK) pt_page s)
      else Inr (s, pt, lvl))"
  by pat_completeness auto
termination by (relation "measure (\<lambda>(t, ga, lvl, pt, pt_page, s). lvl)") auto

declare install_ept_loop.simps [simp del]

definition install_ept_entry ::
    "u64 \<Rightarrow> nat \<Rightarrow> u64 \<Rightarrow> u64 \<Rightarrow> u64 \<Rightarrow> 'a page_alloc_scheme \<Rightarrow> err + 'a page_alloc_scheme" where
  "install_ept_entry pml4 pte_level guest_addr pte pt_page s =
     bindE (assertE (guest_addr < push_bit 48 1)) (\<lambda>_.
     bindE (install_ept_loop pte_level guest_addr EPT_PAGE_LEVEL pml4 pt_page s) (\<lambda>(s, pt, lvl).
     let offset = ept_offset guest_addr lvl
     in Inr (s\<lparr>cells := (cells s)(pt + 8 * offset := pte)\<rparr>)))"

definition install_ept ::
    "u64 \<Rightarrow> u64 \<Rightarrow> u64 \<Rightarrow> u64 \<Rightarrow> 'a page_alloc_scheme \<Rightarrow> err + 'a page_alloc_scheme" where
  "install_ept pml4 phys guest_addr perm s =
     install_ept_entry pml4 1 guest_addr ((phys AND PAGE_MASK) OR perm) 0 s"

definition install_1g_ept ::
    "u64 \<Rightarrow> u64 \<Rightarrow> u64 \<Rightarrow> u64 \<Rightarrow> 'a page_alloc_scheme \<Rightarrow> err + 'a page_alloc_scheme" where
  "install_1g_ept pml4 phys guest_addr perm s =
     install_ept_entry pml4 3 guest_addr ((phys AND PAGE_MASK) OR perm OR EPT_LARGE_PAGE) 0 s"

definition install_2m_ept ::
    "u64 \<Rightarrow> u64 \<Rightarrow> u64 \<Rightarrow> u64 \<Rightarrow> 'a page_alloc_scheme \<Rightarrow> err + 'a page_alloc_scheme" where
  "install_2m_ept pml4 phys guest_addr perm s =
     install_ept_entry pml4 2 guest_addr ((phys AND PAGE_MASK) OR perm OR EPT_LARGE_PAGE) 0 s"

text \<open>
  The three loops of \<open>setup_ept_range\<close> differ in the page size and the function that maps a page;
  each returns the state and the first address not mapped.
\<close>

partial_function (option) setup_ept_loop ::
    "(u64 \<Rightarrow> 'a page_alloc_scheme \<Rightarrow> err + 'a page_alloc_scheme) \<Rightarrow> u64 \<Rightarrow> u64 \<Rightarrow> u64 \<Rightarrow>
     'a page_alloc_scheme \<Rightarrow> (err + ('a page_alloc_scheme \<times> u64)) option" where
  "setup_ept_loop install page_size phys max_addr s =
     (if phys + page_size \<le> max_addr
      then (case install phys s of
              Inl e \<Rightarrow> Some (Inl e)
            | Inr s \<Rightarrow> setup_ept_loop install page_size (phys + page_size) max_addr s)
      else Some (Inr (s, phys)))"

declare setup_ept_loop.simps [code]

definition setup_ept_range ::
    "u64 \<Rightarrow> u64 \<Rightarrow> u64 \<Rightarrow> bool \<Rightarrow> bool \<Rightarrow> u64 \<Rightarrow> 'a page_alloc_scheme \<Rightarrow> err + 'a page_alloc_scheme" where
  "setup_ept_range pml4 start len map_1g map_2m perm s =
     (let phys = start; max_addr = len + start;
          run = (\<lambda>install page_size (s, phys).
            bindE (loopE (setup_ept_loop install page_size phys max_addr s)) (\<lambda>r. r))
      in bindE (if map_1g then run (\<lambda>p. install_1g_ept pml4 p p perm) PAGE_SIZE_1G (s, phys)
                else Inr (s, phys)) (\<lambda>r.
         bindE (if map_2m then run (\<lambda>p. install_2m_ept pml4 p p perm) PAGE_SIZE_2M r else Inr r) (\<lambda>r.
         bindE (run (\<lambda>p. install_ept pml4 p p perm) PAGE_SIZE r) (\<lambda>(s, phys). Inr s))))"

section \<open>Reading and changing entries\<close>

text \<open>
  The walk of \<open>get_ept_pte\<close>: the address of the entry at the level, or None where the C function
  returns false.
\<close>

primrec get_ept_loop :: "cells \<Rightarrow> u64 \<Rightarrow> nat \<Rightarrow> nat \<Rightarrow> u64 \<Rightarrow> u64 option" where
  "get_ept_loop m guest_addr lvl 0 pt = None"
| "get_ept_loop m guest_addr lvl (Suc l) pt =
     (let offset = ept_offset guest_addr (Suc l); iter_pte = m (pt + 8 * offset)
      in if Suc l = lvl then Some (pt + 8 * offset)
         else if Suc l < 4 \<and> iter_pte AND EPT_LARGE_PAGE \<noteq> 0 then None
         else if iter_pte AND EPT_PRESENT = 0 then None
         else get_ept_loop m guest_addr lvl l (iter_pte AND EPT_ADDR_MASK))"

definition get_ept_pte :: "cells \<Rightarrow> u64 \<Rightarrow> u64 \<Rightarrow> nat \<Rightarrow> err + u64 option" where
  "get_ept_pte m pml4 guest_addr lvl =
     bindE (assertE (1 \<le> lvl \<and> lvl \<le> 4)) (\<lambda>_.
     Inr (map_option m (get_ept_loop m guest_addr lvl EPT_PAGE_LEVEL pml4)))"

primrec set_ept_loop :: "cells \<Rightarrow> u64 \<Rightarrow> nat \<Rightarrow> nat \<Rightarrow> u64 \<Rightarrow> err + u64" where
  "set_ept_loop m guest_addr lvl 0 pt = Inl Diverges"
| "set_ept_loop m guest_addr lvl (Suc l) pt =
     (let offset = ept_offset guest_addr (Suc l)
      in if Suc l = lvl then Inr (pt + 8 * offset)
         else bindE (assertE (m (pt + 8 * offset) AND EPT_PRESENT \<noteq> 0)) (\<lambda>_.
           set_ept_loop m guest_addr lvl l (m (pt + 8 * offset) AND EPT_ADDR_MASK)))"

definition set_ept_pte :: "cells \<Rightarrow> u64 \<Rightarrow> u64 \<Rightarrow> nat \<Rightarrow> u64 \<Rightarrow> err + cells" where
  "set_ept_pte m pml4 guest_addr lvl pte_val =
     bindE (assertE (1 \<le> lvl \<and> lvl \<le> 4)) (\<lambda>_.
     bindE (set_ept_loop m guest_addr lvl EPT_PAGE_LEVEL pml4) (\<lambda>a. Inr (m(a := pte_val))))"

text \<open>The walk of \<open>clear_ept_ad_pte\<close>; it follows absent entries like present ones.\<close>

primrec clear_ept_ad_loop :: "u64 \<Rightarrow> nat \<Rightarrow> u64 \<Rightarrow> cells \<Rightarrow> cells" where
  "clear_ept_ad_loop guest_addr 0 pt m = m"
| "clear_ept_ad_loop guest_addr (Suc l) pt m =
     (let offset = ept_offset guest_addr (Suc l);
          m = m(pt + 8 * offset := m (pt + 8 * offset) AND NOT (EPT_ACCESS_FLAG OR EPT_DIRTY_FLAG));
          pte = m (pt + 8 * offset)
      in if Suc l = 1 \<or> Suc l < 4 \<and> pte AND EPT_LARGE_PAGE \<noteq> 0 then m
         else clear_ept_ad_loop guest_addr l (pte AND EPT_ADDR_MASK) m)"

definition clear_ept_ad_pte :: "u64 \<Rightarrow> u64 \<Rightarrow> cells \<Rightarrow> cells" where
  "clear_ept_ad_pte pml4 guest_addr m = clear_ept_ad_loop guest_addr EPT_PAGE_LEVEL pml4 m"

text \<open>
  \<open>clear_ept_ad\<close> walks the guest's own page tables, clearing the flags of the nested translation
  of every entry it passes and of the final page. The walk leaves the level and the table it stops
  in, or None where it returns at an absent entry.
\<close>

primrec guest_walk_clear :: "u64 \<Rightarrow> u64 \<Rightarrow> nat \<Rightarrow> u64 \<Rightarrow> cells \<Rightarrow> cells \<times> (nat \<times> u64) option" where
  "guest_walk_clear pml4 guest_addr 0 pt m = (m, None)"
| "guest_walk_clear pml4 guest_addr (Suc l) pt m =
     (let offset = ept_offset guest_addr (Suc l);
          m = clear_ept_ad_pte pml4 (pt + 8 * offset) m;
          pte = m (pt + 8 * offset)
      in if Suc l = 1 \<or> Suc l < 4 \<and> pte AND PT_PAGE_SIZE_MASK \<noteq> 0 then (m, Some (Suc l, pt))
         else if pte AND PT_PRESENT_MASK = 0 then (m, None)
         else guest_walk_clear pml4 guest_addr l (pte AND PT_ADDR_MASK) m)"

definition guest_leaf_gpa :: "cells \<Rightarrow> u64 \<Rightarrow> nat \<Rightarrow> u64 \<Rightarrow> u64" where
  "guest_leaf_gpa m guest_addr l pt =
     (let offset = ept_offset guest_addr l;
          offset_in_page = guest_addr AND (push_bit (EPT_LEVEL_SHIFT l) 1 - 1)
      in (m (pt + 8 * offset) AND PT_ADDR_MASK) OR (guest_addr AND offset_in_page))"

definition clear_ept_ad :: "u64 \<Rightarrow> u64 \<Rightarrow> u64 \<Rightarrow> cells \<Rightarrow> cells" where
  "clear_ept_ad pml4 guest_cr3 guest_addr m =
     (case guest_walk_clear pml4 guest_addr EPT_PAGE_LEVEL guest_cr3 m of
        (m, None) \<Rightarrow> m
      | (m, Some (l, pt)) \<Rightarrow> clear_ept_ad_pte pml4 (guest_leaf_gpa m guest_addr l pt) m)"

text \<open>What \<open>check_ept_ad\<close> prints and reports, in order.\<close>

datatype ad_event =
    Guest_pt_not_mapped nat | Guest_pt_flags_bad nat | Guest_pts_ok
  | Gpa_not_mapped | Gpa_flags bool

primrec guest_walk_check ::
    "cells \<Rightarrow> u64 \<Rightarrow> u64 \<Rightarrow> u64 \<Rightarrow> nat \<Rightarrow> u64 \<Rightarrow> bool \<Rightarrow> err + (ad_event list \<times> bool \<times> (nat \<times> u64) option)"
  where
  "guest_walk_check m pml4 guest_addr expected_pt_ad 0 pt bad = Inl Diverges"
| "guest_walk_check m pml4 guest_addr expected_pt_ad (Suc l) pt bad =
     (let offset = ept_offset guest_addr (Suc l)
      in bindE (get_ept_pte m pml4 (pt + 8 * offset) 1) (\<lambda>r.
         case r of
           None \<Rightarrow> Inr ([Guest_pt_not_mapped (Suc l)], bad, None)
         | Some ept_pte \<Rightarrow>
             let now_bad = (ept_pte AND (EPT_ACCESS_FLAG OR EPT_DIRTY_FLAG) \<noteq> expected_pt_ad);
                 log = (if \<not> bad \<and> now_bad then [Guest_pt_flags_bad (Suc l)] else []);
                 bad = (bad \<or> now_bad);
                 pte = m (pt + 8 * offset)
             in if Suc l = 1 \<or> Suc l < 4 \<and> pte AND PT_PAGE_SIZE_MASK \<noteq> 0
                then Inr (log, bad, Some (Suc l, pt))
                else if pte AND PT_PRESENT_MASK = 0 then Inr (log, bad, None)
                else bindE (guest_walk_check m pml4 guest_addr expected_pt_ad l
                              (pte AND PT_ADDR_MASK) bad)
                       (\<lambda>(log', r). Inr (log @ log', r))))"

definition check_ept_ad :: "cells \<Rightarrow> u64 \<Rightarrow> u64 \<Rightarrow> u64 \<Rightarrow> u64 \<Rightarrow> u64 \<Rightarrow> err + ad_event list" where
  "check_ept_ad m pml4 guest_cr3 guest_addr expected_gpa_ad expected_pt_ad =
     bindE (guest_walk_check m pml4 guest_addr expected_pt_ad EPT_PAGE_LEVEL guest_cr3 False)
       (\<lambda>(log, bad, r).
        case r of
          None \<Rightarrow> Inr log
        | Some (l, pt) \<Rightarrow>
            let log = log @ (if bad then [] else [Guest_pts_ok]);
                gpa = guest_leaf_gpa m guest_addr l pt
            in bindE (get_ept_pte m pml4 gpa 1) (\<lambda>r.
               case r of
                 None \<Rightarrow> Inr (log @ [Gpa_not_mapped])
               | Some ept_pte \<Rightarrow>
                   Inr (log @ [Gpa_flags
                     (ept_pte AND (EPT_ACCESS_FLAG OR EPT_DIRTY_FLAG) = expected_gpa_ad)])))"

section \<open>Capabilities and invalidation\<close>

definition EPT_CAP_WT :: u64 where "EPT_CAP_WT = 1"
definition EPT_CAP_2M_PAGE :: u64 where "EPT_CAP_2M_PAGE = push_bit 16 1"
definition EPT_CAP_1G_PAGE :: u64 where "EPT_CAP_1G_PAGE = push_bit 17 1"
definition EPT_CAP_INVEPT_SINGLE :: u64 where "EPT_CAP_INVEPT_SINGLE = push_bit 25 1"
definition EPT_CAP_INVEPT_ALL :: u64 where "EPT_CAP_INVEPT_ALL = push_bit 26 1"
definition EPT_CAP_AD_FLAG :: u64 where "EPT_CAP_AD_FLAG = push_bit 21 1"
definition VPID_CAP_INVVPID_CXTGLB :: u64 where "VPID_CAP_INVVPID_CXTGLB = push_bit 41 1"
definition VPID_CAP_INVVPID_ALL :: u64 where "VPID_CAP_INVVPID_ALL = push_bit 42 1"

definition INVEPT_SINGLE :: int where "INVEPT_SINGLE = 1"
definition INVEPT_GLOBAL :: int where "INVEPT_GLOBAL = 2"
definition INVVPID_CONTEXT_GLOBAL :: int where "INVVPID_CONTEXT_GLOBAL = 1"
definition INVVPID_ALL :: int where "INVVPID_ALL = 2"

text \<open>The instruction the two functions issue, or the warning they print instead.\<close>

datatype inv_action = Invept int u64 | Invvpid int u16 u64 | Warn_no_invept | Warn_no_invvpid

definition ept_sync :: "u64 \<Rightarrow> int \<Rightarrow> u64 \<Rightarrow> inv_action" where
  "ept_sync ept_vpid type_op eptp =
     (if type_op = INVEPT_SINGLE \<and> ept_vpid AND EPT_CAP_INVEPT_SINGLE \<noteq> 0
      then Invept INVEPT_SINGLE eptp
      else if (type_op = INVEPT_SINGLE \<or> type_op = INVEPT_GLOBAL) \<and> ept_vpid AND EPT_CAP_INVEPT_ALL \<noteq> 0
      then Invept INVEPT_GLOBAL eptp
      else Warn_no_invept)"

definition vpid_sync :: "u64 \<Rightarrow> int \<Rightarrow> u16 \<Rightarrow> inv_action" where
  "vpid_sync ept_vpid type_op vpid =
     (if type_op = INVVPID_CONTEXT_GLOBAL \<and> ept_vpid AND VPID_CAP_INVVPID_CXTGLB \<noteq> 0
      then Invvpid INVVPID_CONTEXT_GLOBAL vpid 0
      else if (type_op = INVVPID_CONTEXT_GLOBAL \<or> type_op = INVVPID_ALL) \<and>
        ept_vpid AND VPID_CAP_INVVPID_ALL \<noteq> 0
      then Invvpid INVVPID_ALL vpid 0
      else Warn_no_invvpid)"

definition ept_2m_supported :: "u64 \<Rightarrow> bool" where
  "ept_2m_supported ept_vpid \<longleftrightarrow> ept_vpid AND EPT_CAP_2M_PAGE \<noteq> 0"

definition ept_1g_supported :: "u64 \<Rightarrow> bool" where
  "ept_1g_supported ept_vpid \<longleftrightarrow> ept_vpid AND EPT_CAP_1G_PAGE \<noteq> 0"

definition ept_huge_pages_supported :: "u64 \<Rightarrow> nat \<Rightarrow> bool" where
  "ept_huge_pages_supported ept_vpid lvl =
     (if lvl = 2 then ept_2m_supported ept_vpid
      else if lvl = 3 then ept_1g_supported ept_vpid
      else False)"

definition ept_execute_only_supported :: "u64 \<Rightarrow> bool" where
  "ept_execute_only_supported ept_vpid \<longleftrightarrow> ept_vpid AND EPT_CAP_WT \<noteq> 0"

definition ept_ad_bits_supported :: "u64 \<Rightarrow> bool" where
  "ept_ad_bits_supported ept_vpid \<longleftrightarrow> ept_vpid AND EPT_CAP_AD_FLAG \<noteq> 0"

section \<open>The nested tables as a format\<close>

lemma ensured_filled_table:
  assumes F: "link F l e" "addr F e = x" "\<not> link F l (cells s a)" "m a = e"
    and free: "free_inv s (x # xs)" "page_of a \<notin> set (x # xs)"
    and tab: "\<And>i. i < 512 \<Longrightarrow> \<not> link F (l - 1) (m (entry x i))"
      "\<And>va. xlate F l m x va =
        (if present F (cells s a) then Some (out F (Suc l) (cells s a) va) else None)"
    and frame: "\<And>b. \<lbrakk>b \<noteq> a; page_of b \<noteq> x\<rbrakk> \<Longrightarrow> m b = cells s b"
  shows "ensured F l a s (x # xs) {} (s\<lparr>freelist := cells s x, cells := m\<rparr>) xs {x}"
proof -
  let ?s = "s\<lparr>freelist := cells s x, cells := m\<rparr>"
  have x: "page_ok x" "x \<notin> set xs" "\<forall>y \<in> set xs. page_ok y" "distinct xs"
    "seg (cells s) (cells s x) xs 0" using free(1) by (auto simp: free_inv_def)
  have pages: "page_of y = y" if "y \<in> set xs" for y using that x(3) page_of_page by blast
  have "seg m (cells s x) xs 0 \<longleftrightarrow> seg (cells s) (cells s x) xs 0"
  proof (rule seg_cong)
    fix y assume y: "y \<in> set xs"
    then have "y \<noteq> a" "page_of y \<noteq> x" using free(2) pages x(2) by auto
    then show "m y = cells s y" by (rule frame)
  qed
  then have inv: "free_inv ?s xs" using x by (simp add: free_inv_def)
  obtain k where k: "l = Suc k" using F(1) by (cases l) (auto simp: link_def)
  have wf: "wf_table F l m x {x}"
    using x(1) tab(1) by (auto simp: k intro!: exI [of _ "\<lambda>_. {}"])
  have "\<forall>b. b \<noteq> a \<and> page_of b \<notin> set (x # xs) \<longrightarrow> cells ?s b = cells s b" using frame by simp
  then show ?thesis
    unfolding ensured_def using inv wf tab(2) F x(2)
    by (intro conjI) (assumption | rule subset_insertI2 | simp)+
qed

definition ept_format :: "(u64 \<times> u64) option table_format" where
  "ept_format = \<lparr>present = (\<lambda>e. e AND EPT_PRESENT \<noteq> 0),
     large = (\<lambda>l e. e AND EPT_LARGE_PAGE \<noteq> 0),
     addr = (\<lambda>e. e AND EPT_ADDR_MASK),
     out = (\<lambda>l e va. if l \<le> 3 \<and> (e AND EPT_ADDR_MASK) AND mask (EPT_LEVEL_SHIFT l) = 0
       then Some (e AND NOT EPT_ADDR_MASK AND NOT EPT_LARGE_PAGE,
         (e AND EPT_ADDR_MASK) OR (va AND mask (EPT_LEVEL_SHIFT l)))
       else None)\<rparr>"

definition ept_ensure :: "nat \<Rightarrow> u64 \<Rightarrow> 'a page_alloc_scheme \<Rightarrow> err + 'a page_alloc_scheme" where
  "ept_ensure l a s =
     (if cells s a AND EPT_PRESENT = 0 then
        let (s, p) = alloc_page s; s = s\<lparr>cells := zero_page (cells s) p\<rparr>
        in Inr (s\<lparr>cells := (cells s)(a := p OR EPT_RA OR EPT_WA OR EPT_EA)\<rparr>)
      else if cells s a AND EPT_LARGE_PAGE \<noteq> 0 then split_large_ept_entry a l s
      else Inr s)"

lemma EPT_LEVEL_SHIFT_eq: "EPT_LEVEL_SHIFT l = (l - 1) * 9 + 12"
  by (simp add: EPT_LEVEL_SHIFT_def EPT_PGDIR_WIDTH_def)

lemma ept_offset_eq [simp]: "ept_offset ga l = PGDIR_OFFSET ga l"
  by (simp add: ept_offset_def PGDIR_OFFSET_def EPT_LEVEL_SHIFT_eq PGDIR_BITS_def PAGE_SHIFT_def
      EPT_PGDIR_MASK_def)

lemma EPT_ADDR_MASK_eq: "EPT_ADDR_MASK = PT_ADDR_MASK"
  by (simp add: EPT_ADDR_MASK_def PT_ADDR_MASK_def)

lemma bit_EPT_ADDR_MASK: "bit EPT_ADDR_MASK i \<longleftrightarrow> 12 \<le> i \<and> i < 52"
  by (simp add: EPT_ADDR_MASK_eq bit_PT_ADDR_MASK)

lemma bit_EPT_LARGE_PAGE: "bit EPT_LARGE_PAGE i \<longleftrightarrow> i = 7"
  unfolding EPT_LARGE_PAGE_def push_bit_of_1 bit_exp_iff by auto

lemma EPT_PRESENT_mask: "EPT_PRESENT = mask 3" "EPT_RA OR EPT_WA OR EPT_EA = mask 3"
  by code_simp+

lemma and_EPT_PRESENT: "w AND EPT_PRESENT = 0 \<longleftrightarrow> (\<forall>i < 3. \<not> bit w i)"
  unfolding EPT_PRESENT_mask word_and_mask_0_iff by auto

lemma and_EPT_LARGE_PAGE [simp]: "w AND EPT_LARGE_PAGE = 0 \<longleftrightarrow> \<not> bit w 7"
  by (simp only: EPT_LARGE_PAGE_def and_push_bit_1)

lemma ept_format_simps [simp]:
  "present ept_format e \<longleftrightarrow> e AND EPT_PRESENT \<noteq> 0" "large ept_format l e \<longleftrightarrow> bit e 7"
  "addr ept_format e = e AND EPT_ADDR_MASK"
  by (simp_all add: ept_format_def)

lemma ept_out:
  "out ept_format l e va = (if l \<le> 3 \<and> (e AND EPT_ADDR_MASK) AND mask (EPT_LEVEL_SHIFT l) = 0
     then Some (e AND NOT EPT_ADDR_MASK AND NOT EPT_LARGE_PAGE,
       (e AND EPT_ADDR_MASK) OR (va AND mask (EPT_LEVEL_SHIFT l)))
     else None)"
  by (simp add: ept_format_def)

lemma split_fill_entry:
  assumes "i + k \<le> 512" "i \<le> j" "j < i + k"
  shows "split_fill k i m x pr g st (entry x j) = pr OR (g + st * of_nat (j - i))"
  using assms
proof (induction k arbitrary: i m g)
  case (Suc k)
  have other: "split_fill k i' m' x pr g' st (entry x j') = m' (entry x j')"
    if "j' < i'" "i' + k \<le> 512" for i' m' g' j' using that
  proof (induction k arbitrary: i' m' g')
    case (Suc k)
    have "entry x j' \<noteq> x + 8 * of_nat i'"
      using entry_inj [of x j' i'] Suc.prems by (auto simp: entry_def)
    then show ?case using Suc.IH Suc.prems by simp
  qed simp
  show ?case
  proof (cases "j = i")
    case True
    then show ?thesis using Suc.prems by (simp add: other) (simp add: entry_def)
  next
    case False
    then obtain d where d: "j = Suc i + d" using Suc.prems(2) less_iff_Suc_add [of i j] by auto
    then show ?thesis using Suc by (simp add: algebra_simps)
  qed
qed simp

lemma split_fill_other:
  assumes "page_ok x" "i + k \<le> 512" "page_of b \<noteq> x"
  shows "split_fill k i m x pr g st b = m b"
  using assms
proof (induction k arbitrary: i m g)
  case (Suc k)
  have "b \<noteq> x + 8 * of_nat i" using Suc.prems page_of_entry_ok [of x i] by (auto simp: entry_def)
  then show ?case using Suc by simp
qed simp

text \<open>An entry of the table that replaces a large page, at the index of an address.\<close>

definition split_proto :: "nat \<Rightarrow> u64 \<Rightarrow> u64" where
  "split_proto l pte = (if l = 1 then pte AND NOT EPT_ADDR_MASK AND NOT EPT_LARGE_PAGE
     else pte AND NOT EPT_ADDR_MASK)"

definition split_entry :: "nat \<Rightarrow> u64 \<Rightarrow> nat \<Rightarrow> u64" where
  "split_entry l pte i = split_proto l pte OR
     ((pte AND EPT_ADDR_MASK) + push_bit (EPT_LEVEL_SHIFT l) 1 * of_nat i)"

lemma split_entry_bits:
  assumes l: "l = 1 \<or> l = 2" and al: "(pte AND EPT_ADDR_MASK) AND mask (EPT_LEVEL_SHIFT (Suc l)) = 0"
  shows "bit (split_entry l pte (idx va l)) i \<longleftrightarrow> bit (split_proto l pte) i \<or>
    12 \<le> i \<and> i < 52 \<and> (if i < EPT_LEVEL_SHIFT (Suc l) then EPT_LEVEL_SHIFT l \<le> i \<and> bit va i else bit pte i)"
proof -
  let ?g = "pte AND EPT_ADDR_MASK"
  let ?sh = "EPT_LEVEL_SHIFT l"
  have sh: "EPT_LEVEL_SHIFT (Suc l) = ?sh + 9" "12 \<le> ?sh" "?sh \<le> 21" "?sh = (l - 1) * 9 + 12"
    using l by (auto simp: EPT_LEVEL_SHIFT_eq)
  have "of_nat (idx va l) = PGDIR_OFFSET va l" by (simp add: idx_def)
  then have p: "push_bit ?sh 1 * of_nat (idx va l) = push_bit ?sh (PGDIR_OFFSET va l)"
    by (simp add: push_bit_eq_mult)
  have bp: "bit (push_bit ?sh (PGDIR_OFFSET va l)) j \<longleftrightarrow> ?sh \<le> j \<and> j < ?sh + 9 \<and> bit va j" for j
  proof -
    have "bit (push_bit ?sh (PGDIR_OFFSET va l)) j \<longleftrightarrow> ?sh \<le> j \<and> j < 64 \<and> bit (PGDIR_OFFSET va l) (j - ?sh)"
      by (auto simp: bit_push_bit_iff)
    also have "\<dots> \<longleftrightarrow> ?sh \<le> j \<and> j < ?sh + 9 \<and> bit va j"
      using sh(3) by (auto simp: bit_PGDIR_OFFSET sh(4))
    finally show ?thesis .
  qed
  have low: "\<not> bit ?g j" if "j < ?sh + 9" for j
    using al that sh(3) by (simp add: word_and_mask_0_iff sh(1))
  have "?g AND push_bit ?sh (PGDIR_OFFSET va l) = 0"
    using low by (intro bit_word_eqI) (auto simp: bit_and_iff bp)
  then have "?g + push_bit ?sh (PGDIR_OFFSET va l) = ?g OR push_bit ?sh (PGDIR_OFFSET va l)"
    by (rule disjunctive_add_eq_or)
  then have "bit (split_entry l pte (idx va l)) i \<longleftrightarrow> bit (split_proto l pte) i \<or> bit ?g i \<or>
      ?sh \<le> i \<and> i < ?sh + 9 \<and> bit va i"
    by (simp only: split_entry_def p bit_or_iff bp)
  moreover have "bit ?g i \<longleftrightarrow> 12 \<le> i \<and> i < 52 \<and> ?sh + 9 \<le> i \<and> bit pte i"
  proof (cases "i < ?sh + 9")
    case True
    then show ?thesis using low [of i] by simp
  qed (auto simp: bit_and_iff bit_EPT_ADDR_MASK)
  ultimately show ?thesis using sh by auto
qed

lemma bit_split_proto:
  "bit (split_proto l pte) i \<longleftrightarrow> bit pte i \<and> i < 64 \<and> \<not> (12 \<le> i \<and> i < 52) \<and> (l = 1 \<longrightarrow> i \<noteq> 7)"
  using bit_imp_le_length [of pte i]
  by (auto simp: split_proto_def bit_and_iff bit_not_iff bit_EPT_ADDR_MASK bit_EPT_LARGE_PAGE)

lemma split_entry_out:
  assumes l: "l = 1 \<or> l = 2" and al: "(pte AND EPT_ADDR_MASK) AND mask (EPT_LEVEL_SHIFT (Suc l)) = 0"
  shows "out ept_format l (split_entry l pte (idx va l)) va = out ept_format (Suc l) pte va"
proof -
  let ?e = "split_entry l pte (idx va l)"
  note eb = split_entry_bits [OF l al, of va] bit_split_proto
  have sh: "EPT_LEVEL_SHIFT (Suc l) = EPT_LEVEL_SHIFT l + 9" "12 \<le> EPT_LEVEL_SHIFT l"
    "EPT_LEVEL_SHIFT l \<le> 21" using l by (auto simp: EPT_LEVEL_SHIFT_eq)
  have low: "\<not> bit pte i" if "12 \<le> i" "i < EPT_LEVEL_SHIFT l + 9" for i
  proof -
    have "\<not> bit (pte AND EPT_ADDR_MASK) i"
      using al [unfolded word_and_mask_0_iff sh(1)] that(2) sh(3) by simp
    then show ?thesis using that sh(3) by (simp add: bit_and_iff bit_EPT_ADDR_MASK)
  qed
  have 1: "(?e AND EPT_ADDR_MASK) AND mask (EPT_LEVEL_SHIFT l) = 0"
    using sh(2,3) unfolding word_and_mask_0_iff
    by (auto simp: bit_and_iff bit_EPT_ADDR_MASK eb sh(1))
  have 2: "?e AND NOT EPT_ADDR_MASK AND NOT EPT_LARGE_PAGE = pte AND NOT EPT_ADDR_MASK AND NOT EPT_LARGE_PAGE"
    by (intro bit_word_eqI) (auto simp: bit_and_iff bit_not_iff bit_EPT_ADDR_MASK bit_EPT_LARGE_PAGE eb)
  have 3: "(?e AND EPT_ADDR_MASK) OR (va AND mask (EPT_LEVEL_SHIFT l)) =
      (pte AND EPT_ADDR_MASK) OR (va AND mask (EPT_LEVEL_SHIFT (Suc l)))"
    using sh low by (intro bit_word_eqI)
      (auto simp: bit_and_iff bit_or_iff bit_mask_64 bit_EPT_ADDR_MASK eb not_less)
  have "l \<le> 3" "Suc l \<le> 3" using l by auto
  then show ?thesis unfolding ept_out using 1 2 3 al by simp
qed

definition split_link :: "u64 \<Rightarrow> u64 \<Rightarrow> u64" where
  "split_link x pte = (pte AND NOT EPT_LARGE_PAGE AND NOT EPT_ADDR_MASK) OR x"

definition split_cells :: "nat \<Rightarrow> u64 \<Rightarrow> u64 \<Rightarrow> cells \<Rightarrow> cells" where
  "split_cells l x pte m = split_fill 512 0 (zero_page m x) x (split_proto l pte)
     (pte AND EPT_ADDR_MASK) (push_bit (EPT_LEVEL_SHIFT l) 1)"

lemma split_runs:
  assumes "free_inv s (x # xs)" "cells s a AND EPT_PRESENT \<noteq> 0" "bit (cells s a) 7" "l = 1 \<or> l = 2"
  shows "split_large_ept_entry a (Suc l) s = Inr (s\<lparr>freelist := cells s x,
    cells := (split_cells l x (cells s a) (cells s))(a := split_link x (cells s a))\<rparr>)"
proof -
  have "x \<noteq> 0" using assms(1) by (auto simp: free_inv_def page_ok_def)
  moreover have "Suc l = 2 \<or> Suc l = 3" "(Suc l = 2) = (l = 1)" using assms(4) by auto
  ultimately show ?thesis
    using assms(2,3) alloc_page_Cons(1) [OF assms(1)]
    by (simp add: split_large_ept_entry_def split_cells_def split_link_def split_proto_def
        EPT_PGDIR_ENTRIES_def EPT_PGDIR_WIDTH_def Let_def and.assoc)
qed

lemma split_link_ok:
  assumes "page_ok x" "pte AND EPT_PRESENT \<noteq> 0" "0 < l"
  shows "link ept_format l (split_link x pte)" "addr ept_format (split_link x pte) = x"
proof -
  have x: "bit x i \<Longrightarrow> 12 \<le> i \<and> i < 52" for i using page_ok_bits [OF assms(1)] .
  have b: "bit (split_link x pte) i \<longleftrightarrow> bit x i \<or> bit pte i \<and> i < 64 \<and> i \<noteq> 7 \<and> \<not> (12 \<le> i \<and> i < 52)" for i
    by (auto simp: split_link_def bit_and_iff bit_or_iff bit_not_iff bit_EPT_ADDR_MASK bit_EPT_LARGE_PAGE)
  show "addr ept_format (split_link x pte) = x"
    using x by (intro bit_word_eqI) (auto simp: bit_and_iff bit_EPT_ADDR_MASK b)
  have "\<not> bit (split_link x pte) 7" using x [of 7] by (auto simp: b)
  moreover have "split_link x pte AND EPT_PRESENT \<noteq> 0"
    using assms(2) by (auto simp: and_EPT_PRESENT b)
  ultimately show "link ept_format l (split_link x pte)" using assms(3) by (simp add: link_def)
qed

lemma split_cells_entry: "i < 512 \<Longrightarrow> split_cells l x pte m (entry x i) = split_entry l pte i"
  unfolding split_cells_def split_entry_def by (subst split_fill_entry) simp_all

lemma split_cells_other: "\<lbrakk>page_ok x; page_of b \<noteq> x\<rbrakk> \<Longrightarrow> split_cells l x pte m b = m b"
  unfolding split_cells_def by (simp add: split_fill_other zero_page_page page_ok_aligned)

lemma split_entry_not_link:
  assumes "l = 1 \<or> l = 2" "bit pte 7"
  shows "\<not> link ept_format (l - 1) (split_entry l pte i)"
  using assms by (auto simp: link_def split_entry_def bit_or_iff bit_split_proto)

lemma split_entry_present: "pte AND EPT_PRESENT \<noteq> 0 \<Longrightarrow> split_entry l pte i AND EPT_PRESENT \<noteq> 0"
  unfolding and_EPT_PRESENT by (auto simp: split_entry_def bit_or_iff bit_split_proto)

lemma split_ensured:
  assumes l: "l = 1 \<or> l = 2" and free: "free_inv s (x # xs)" "page_of a \<notin> set (x # xs)"
    and pte: "cells s a AND EPT_PRESENT \<noteq> 0" "bit (cells s a) 7"
      "(cells s a AND EPT_ADDR_MASK) AND mask (EPT_LEVEL_SHIFT (Suc l)) = 0"
  shows "\<exists>s'. split_large_ept_entry a (Suc l) s = Inr s' \<and> ensured ept_format l a s (x # xs) {} s' xs {x}"
proof -
  let ?pte = "cells s a" and ?F = ept_format
  let ?m = "(split_cells l x ?pte (cells s))(a := split_link x ?pte)"
  have x: "page_ok x" using free(1) by (simp add: free_inv_def)
  have a: "page_of a \<noteq> x" using free(2) by simp
  have ent: "?m (entry x i) = split_entry l ?pte i" if "i < 512" for i
  proof -
    have "entry x i \<noteq> a" using page_of_entry_ok [OF x that] a by auto
    then show ?thesis using split_cells_entry [OF that] by simp
  qed
  have l0: "0 < l" using l by auto
  obtain k where k: "l = Suc k" using l0 by (cases l) auto
  have xl: "xlate ?F l ?m x va =
      (if present ?F ?pte then Some (out ?F (Suc l) ?pte va) else None)" for va
  proof -
    have e: "?m (entry x (idx va l)) = split_entry l ?pte (idx va l)" by (rule ent) simp
    have "\<not> link ?F k (split_entry l ?pte (idx va l))"
      using split_entry_not_link [OF l pte(2)] by (simp add: k)
    then show ?thesis
      using e split_entry_out [OF l pte(3), of va] split_entry_present [OF pte(1)] pte(1)
      by (simp add: k slot_entry Let_def del: fun_upd_apply)
  qed
  have "ensured ?F l a s (x # xs) {} (s\<lparr>freelist := cells s x, cells := ?m\<rparr>) xs {x}"
  proof (rule ensured_filled_table [OF split_link_ok [OF x pte(1) l0] _ _ free _ xl])
    show "\<not> link ?F l ?pte" using pte(2) by (simp add: link_def)
    show "\<not> link ?F (l - 1) (?m (entry x i))" if "i < 512" for i
      using split_entry_not_link [OF l pte(2)] ent [OF that] by (simp del: fun_upd_apply)
    show "?m b = cells s b" if "b \<noteq> a" "page_of b \<noteq> x" for b
      using that split_cells_other [OF x] by simp
  qed simp
  then show ?thesis using split_runs [OF free(1) pte(1,2) l] by blast
qed

lemma ept_table_entry:
  assumes "page_ok p" "0 < l"
  shows "link ept_format l (p OR mask 3)" "addr ept_format (p OR mask 3) = p"
proof -
  have "(mask 3 :: u64) AND PT_ADDR_MASK = 0"
    by (intro bit_word_eqI) (auto simp: bit_and_iff bit_mask_64 bit_PT_ADDR_MASK)
  then show "addr ept_format (p OR mask 3) = p"
    using assms(1) by (simp add: addr_page_or EPT_ADDR_MASK_eq)
  have "\<not> bit p 7" using page_ok_bits [OF assms(1), of 7] by auto
  then show "link ept_format l (p OR mask 3)"
    using assms(2) by (simp add: link_def bit_or_iff bit_mask_64 and_EPT_PRESENT) (intro exI [of _ 0], simp)
qed

lemma ept_ensure_absent:
  assumes "free_inv s (x # xs)" "cells s a AND EPT_PRESENT = 0"
  shows "ept_ensure l a s = Inr (s\<lparr>freelist := cells s x, cells := (zero_page (cells s) x)(a := x OR mask 3)\<rparr>)"
  using assms(2) alloc_page_Cons(1) [OF assms(1)]
  by (simp add: ept_ensure_def EPT_PRESENT_mask(2))

interpretation ept: radix ept_format ept_ensure 4 "\<lambda>t r. r = None"
proof
  fix l t a va B and s :: "'a page_alloc_scheme" and xs
  assume l: "0 < l" "Suc l \<le> 4" and free: "free_inv s xs" "xs \<noteq> []"
    and e: "link ept_format l (cells s a) \<or> \<not> present ept_format (cells s a) \<or>
      out ept_format (Suc l) (cells s a) va \<noteq> None"
    and B: "if link ept_format l (cells s a)
      then wf_table ept_format l (cells s) (addr ept_format (cells s a)) B else B = {}"
    and disj: "B \<inter> set xs = {}" "page_of a \<notin> B \<union> set xs"
  obtain x ys where xs: "xs = x # ys" using free(2) by (cases xs) auto
  have free': "free_inv s (x # ys)" "page_of a \<notin> set (x # ys)" using free disj xs by auto
  consider "link ept_format l (cells s a)" | "cells s a AND EPT_PRESENT = 0"
    | "cells s a AND EPT_PRESENT \<noteq> 0" "bit (cells s a) 7"
    using l by (auto simp: link_def)
  then show "\<exists>s' xs' B'. ept_ensure (Suc l) a s = Inr s' \<and> ensured ept_format l a s xs B s' xs' B'"
  proof cases
    case 1
    then have "ensured ept_format l a s xs B s xs B"
      using B free disj by (intro ensured_link) auto
    moreover have "ept_ensure (Suc l) a s = Inr s"
      using 1 by (simp add: ept_ensure_def link_def)
    ultimately show ?thesis by blast
  next
    case 2
    then have "\<not> link ept_format l (cells s a)" by (simp add: link_def)
    then have "B = {}" using B by simp
    moreover have "page_ok x" using free'(1) by (simp add: free_inv_def)
    note ept_table_entry [OF this l(1)]
    ultimately show ?thesis
      using ensured_new_table [of ept_format l _ x s a ys] ept_ensure_absent [OF free'(1) 2]
        2 free' xs by auto
  next
    case 3
    then have no: "\<not> link ept_format l (cells s a)" by (simp add: link_def)
    then have B0: "B = {}" using B by simp
    have "Suc l \<le> 3" "(cells s a AND EPT_ADDR_MASK) AND mask (EPT_LEVEL_SHIFT (Suc l)) = 0"
      using e no 3(1) by (auto simp: ept_out split: if_splits)
    moreover have "l = 1 \<or> l = 2" using l(1) \<open>Suc l \<le> 3\<close> by auto
    ultimately obtain s' where "split_large_ept_entry a (Suc l) s = Inr s'"
      "ensured ept_format l a s xs B s' ys {x}"
      using split_ensured [OF _ free' 3] unfolding B0 xs by blast
    moreover have "ept_ensure (Suc l) a s = split_large_ept_entry a (Suc l) s"
      using 3 by (simp add: ept_ensure_def)
    ultimately show ?thesis by metis
  qed
qed
section \<open>Installing entries\<close>

lemma install_ept_loop_at:
  assumes "0 < t" "t \<le> l"
  shows "install_at ept_format ept_ensure l t pt ga pte s =
    bindE (install_ept_loop t ga l pt 0 s) (\<lambda>(s', pt', lvl).
      Inr (s'\<lparr>cells := (cells s')(slot pt' ga lvl := pte)\<rparr>, slot pt' ga lvl))"
  using assms
proof (induction l arbitrary: pt s)
  case (Suc l)
  show ?case
  proof (cases "t = Suc l")
    case True
    then show ?thesis by (subst install_ept_loop.simps) (simp add: Let_def)
  next
    case False
    then have t: "t < Suc l" "t \<le> l" using Suc.prems(2) by simp_all
    let ?a = "slot pt ga (Suc l)"
    have "install_ept_loop t ga (Suc l) pt 0 s = bindE (ept_ensure (Suc l) ?a s)
        (\<lambda>s. install_ept_loop t ga l (cells s ?a AND EPT_ADDR_MASK) 0 s)"
      using t(1) by (subst install_ept_loop.simps)
        (simp add: ept_ensure_def slot_def Let_def bindE_assoc split: prod.splits)
    then show ?thesis
      using t Suc.IH [OF Suc.prems(1) t(2)] by (simp add: Let_def bindE_assoc)
  qed
qed simp

lemma install_ept_entry_at:
  assumes "0 < t" "t \<le> 4" "ga < 2 ^ 48"
  shows "install_ept_entry pml4 t ga pte 0 s =
    bindE (install_at ept_format ept_ensure 4 t pml4 ga pte s) (\<lambda>(s', a). Inr s')"
  using assms(3) unfolding install_ept_loop_at [OF assms(1,2)]
  by (simp add: install_ept_entry_def EPT_PAGE_LEVEL_def slot_def bindE_assoc Let_def case_prod_unfold)

definition ept_installed ::
    "nat \<Rightarrow> u64 \<Rightarrow> u64 \<Rightarrow> u64 \<Rightarrow> 'a page_alloc_scheme \<Rightarrow> 'a page_alloc_scheme \<Rightarrow> bool" where
  "ept_installed t pml4 ga pte s s' \<longleftrightarrow>
     (\<forall>ga'. xlate ept_format 4 (cells s') pml4 ga' =
        (if same_entry t 4 ga ga'
         then if pte AND EPT_PRESENT \<noteq> 0 then Some (out ept_format t pte ga') else None
         else xlate ept_format 4 (cells s) pml4 ga'))"

definition ept_leaf :: "nat \<Rightarrow> u64 \<Rightarrow> bool" where
  "ept_leaf t pte \<longleftrightarrow> t = 1 \<or> pte AND EPT_PRESENT = 0 \<or> pte AND EPT_LARGE_PAGE \<noteq> 0"

lemma ept_leaf_link: "\<lbrakk>ept_leaf t pte; 0 < t\<rbrakk> \<Longrightarrow> \<not> link ept_format (t - 1) pte"
  by (auto simp: ept_leaf_def link_def)

lemma install_ept_cases:
  assumes wf: "wf_table ept_format 4 (cells s) pml4 A" "free_inv s xs" "A \<inter> set xs = {}"
    and t: "0 < t" "t \<le> 4" "4 - t \<le> length xs" "ept_leaf t pte" "ga < 2 ^ 48"
    and good: "xlate ept_format 4 (cells s) pml4 ga \<noteq> Some None"
  obtains s' xs' A' where "install_ept_entry pml4 t ga pte 0 s = Inr s'"
    "ept_installed t pml4 ga pte s s'" "free_inv s' xs'" "set xs' \<subseteq> set xs"
    "length xs \<le> 4 - t + length xs'" "wf_table ept_format 4 (cells s') pml4 A'"
    "A' \<subseteq> A \<union> set xs" "A' \<inter> set xs' = {}"
proof -
  have unblocked: "r \<noteq> None" if "xlate ept_format 4 (cells s) pml4 ga = Some r" for r
    using good that by auto
  obtain s' a xs' A' where run: "install_at ept_format ept_ensure 4 t pml4 ga pte s = Inr (s', a)"
    and inst: "ept.installed 4 t pml4 ga pte s xs A s' xs' A'"
    using ept.install_at_correct [OF wf t(1,2) order_refl t(3) ept_leaf_link [OF t(4,1)] unblocked]
    by blast
  have "install_ept_entry pml4 t ga pte 0 s = Inr s'"
    using run by (simp add: install_ept_entry_at [OF t(1,2,5)])
  moreover have "ept_installed t pml4 ga pte s s'"
    using inst unfolding ept.installed_def ept_installed_def by simp
  ultimately show thesis
    using that inst unfolding ept.installed_def by blast
qed


text \<open>A root of zeroes and four free pages.\<close>

definition ept_sample :: "page_alloc" where
  "ept_sample = \<lparr>cells = (\<lambda>_. 0)(0x2000 := 0x3000, 0x3000 := 0x4000, 0x4000 := 0x5000),
     freelist = 0x2000\<rparr>"

lemma ept_sample_ok:
  "wf_table ept_format 4 (cells ept_sample) 0x1000 {0x1000}"
  "xlate ept_format 4 (cells ept_sample) 0x1000 ga = None"
  "free_inv ept_sample [0x2000, 0x3000, 0x4000, 0x5000]"
  "{0x1000} \<inter> set [0x2000, 0x3000, 0x4000, 0x5000 :: u64] = {}"
proof -
  have ok: "page_ok 0x1000" "page_ok 0x2000" "page_ok 0x3000" "page_ok 0x4000" "page_ok 0x5000"
    unfolding page_ok_def by code_simp+
  have z: "cells ept_sample b = 0" if "page_of b = 0x1000" for b
    using that page_of_page [OF ok(2)] page_of_page [OF ok(3)] page_of_page [OF ok(4)]
    by (auto simp: ept_sample_def)
  show "wf_table ept_format 4 (cells ept_sample) 0x1000 {0x1000}"
    "xlate ept_format 4 (cells ept_sample) 0x1000 ga = None"
    by (rule wf_table_zero [OF _ ok(1) _ z]; simp)+
  show "free_inv ept_sample [0x2000, 0x3000, 0x4000, 0x5000]"
    using ok by (simp add: free_inv_def ept_sample_def)
qed simp

section \<open>The identity map\<close>

text \<open>The entry the three functions install for a page at \<open>p\<close>.\<close>

definition ept_page :: "nat \<Rightarrow> u64 \<Rightarrow> u64 \<Rightarrow> u64" where
  "ept_page t perm p = (if t = 1 then (p AND PAGE_MASK) OR perm else (p AND PAGE_MASK) OR perm OR EPT_LARGE_PAGE)"

definition ept_perm :: "u64 \<Rightarrow> bool" where
  "ept_perm perm \<longleftrightarrow> perm AND EPT_ADDR_MASK = 0 \<and> perm AND EPT_LARGE_PAGE = 0 \<and> perm AND EPT_PRESENT \<noteq> 0"

lemma ept_perm_bits: "ept_perm perm \<Longrightarrow> bit perm i \<Longrightarrow> \<not> (12 \<le> i \<and> i < 52) \<and> i \<noteq> 7"
  using bit_and_iff [of perm EPT_ADDR_MASK i] by (auto simp: ept_perm_def bit_EPT_ADDR_MASK)

lemma bits_below: "unat (w :: u64) < 2 ^ k \<Longrightarrow> bit w i \<Longrightarrow> i < k"
proof -
  assume w: "unat w < 2 ^ k" and b: "bit w i"
  have "2 ^ i \<le> unat w" using b by (intro bit_imp_pow_le) (simp add: bit_unsigned_iff)
  with w have "(2 :: nat) ^ i < 2 ^ k" by linarith
  then show "i < k" by simp
qed

lemma bits_aligned: "unat (w :: u64) mod 2 ^ k = 0 \<Longrightarrow> i < k \<Longrightarrow> \<not> bit w i"
proof
  assume m: "unat w mod 2 ^ k = 0" and i: "i < k" "bit w i"
  have "bit (take_bit k (unat w)) i" using i by (simp add: bit_take_bit_iff bit_unsigned_iff)
  then show False using m by (simp add: take_bit_eq_mod)
qed

lemma unat_range_bits:
  assumes "unat p mod 2 ^ k = 0" "unat (p :: u64) < 2 ^ 48" "unat (va :: u64) < 2 ^ 48" "k \<le> 48"
  shows "(\<forall>i. k \<le> i \<and> i < 48 \<longrightarrow> bit p i = bit va i) \<longleftrightarrow> unat p \<le> unat va \<and> unat va < unat p + 2 ^ k"
proof -
  have "(\<forall>i. k \<le> i \<and> i < 48 \<longrightarrow> bit p i = bit va i) \<longleftrightarrow> drop_bit k (unat p) = drop_bit k (unat va)"
  proof
    assume eq: "\<forall>i. k \<le> i \<and> i < 48 \<longrightarrow> bit p i = bit va i"
    show "drop_bit k (unat p) = drop_bit k (unat va)"
    proof (rule bit_eqI)
      fix n
      show "bit (drop_bit k (unat p)) n = bit (drop_bit k (unat va)) n"
        using eq [rule_format, of "k + n"] bits_below [OF assms(2), of "k + n"]
          bits_below [OF assms(3), of "k + n"]
        by (auto simp: bit_drop_bit_eq bit_unsigned_iff)
    qed
  next
    assume eq: "drop_bit k (unat p) = drop_bit k (unat va)"
    show "\<forall>i. k \<le> i \<and> i < 48 \<longrightarrow> bit p i = bit va i"
    proof (intro allI impI)
      fix i assume i: "k \<le> i \<and> i < 48"
      have "bit (drop_bit k (unat p)) (i - k) = bit (drop_bit k (unat va)) (i - k)" using eq by simp
      then show "bit p i = bit va i" using i by (simp add: bit_drop_bit_eq bit_unsigned_iff)
    qed
  qed
  also have "\<dots> \<longleftrightarrow> unat p div 2 ^ k = unat va div 2 ^ k" by (simp add: drop_bit_eq_div)
  also have "\<dots> \<longleftrightarrow> unat p \<le> unat va \<and> unat va < unat p + 2 ^ k"
  proof -
    obtain q where q: "unat p = 2 ^ k * q" using assms(1) by (auto simp: mod_eq_0_iff_dvd)
    have "q = unat va div 2 ^ k \<longleftrightarrow> 2 ^ k * q \<le> unat va \<and> unat va < 2 ^ k * q + 2 ^ k"
    proof
      assume "q = unat va div 2 ^ k"
      then show "2 ^ k * q \<le> unat va \<and> unat va < 2 ^ k * q + 2 ^ k"
        using times_div_less_eq_dividend [of "2 ^ k" "unat va"]
          dividend_less_times_div [of "2 ^ k" "unat va"] by (simp add: add.commute)
    next
      assume "2 ^ k * q \<le> unat va \<and> unat va < 2 ^ k * q + 2 ^ k"
      then show "q = unat va div 2 ^ k"
        by (intro sym [OF div_nat_eqI]) (auto simp: algebra_simps)
    qed
    then show ?thesis by (simp add: q)
  qed
  finally show ?thesis .
qed

lemma ept_page_range:
  assumes t: "0 < t" "t \<le> 3" and p: "unat p mod 2 ^ EPT_LEVEL_SHIFT t = 0" "unat p < 2 ^ 48"
    and va: "unat va < 2 ^ 48"
  shows "same_entry t 4 p va \<longleftrightarrow> unat p \<le> unat va \<and> unat va < unat p + 2 ^ EPT_LEVEL_SHIFT t"
proof -
  have "EPT_LEVEL_SHIFT t \<le> 48" using t by (auto simp: EPT_LEVEL_SHIFT_eq)
  then show ?thesis
    using unat_range_bits [OF p va] same_entry_level_bits [OF t(1), of p va]
    by (simp add: EPT_LEVEL_SHIFT_eq)
qed

lemma bit_ept_page:
  "bit (ept_page t perm p) i \<longleftrightarrow> bit p i \<and> 12 \<le> i \<or> bit perm i \<or> t \<noteq> 1 \<and> i = 7"
  using bit_imp_le_length [of p i]
  by (auto simp: ept_page_def bit_and_iff bit_or_iff bit_not_iff PAGE_MASK_eq bit_mask_64 bit_EPT_LARGE_PAGE)

lemma ept_page_out:
  assumes t: "0 < t" "t \<le> 3" and p: "unat p mod 2 ^ EPT_LEVEL_SHIFT t = 0" "unat p < 2 ^ 48"
    and va: "unat va < 2 ^ 48" "same_entry t 4 p va" and perm: "ept_perm perm"
  shows "out ept_format t (ept_page t perm p) va = Some (perm, va)"
    "ept_page t perm p AND EPT_PRESENT \<noteq> 0" "ept_leaf t (ept_page t perm p)"
proof -
  let ?e = "ept_page t perm p" and ?sh = "EPT_LEVEL_SHIFT t"
  note pb = ept_perm_bits [OF perm]
  have sh: "12 \<le> ?sh" "?sh \<le> 30" using t by (auto simp: EPT_LEVEL_SHIFT_eq)
  note low = bits_aligned [OF p(1)] and p48 = bits_below [OF p(2)] and va48 = bits_below [OF va(1)]
  have same: "bit p i = bit va i" if "?sh \<le> i" "i < 48" for i
    using va(2) that t(1) by (simp add: same_entry_level_bits EPT_LEVEL_SHIFT_eq)
  have 1: "(?e AND EPT_ADDR_MASK) AND mask ?sh = 0"
    unfolding word_and_mask_0_iff
  proof (intro allI impI)
    fix i assume "i < ?sh" "i < 64"
    then show "\<not> bit (?e AND EPT_ADDR_MASK) i"
      using pb [of i] low [of i] sh by (auto simp: bit_and_iff bit_EPT_ADDR_MASK bit_ept_page)
  qed
  have 2: "?e AND NOT EPT_ADDR_MASK AND NOT EPT_LARGE_PAGE = perm"
    using pb p48 by (intro bit_word_eqI)
      (fastforce simp: bit_and_iff bit_not_iff bit_EPT_ADDR_MASK bit_EPT_LARGE_PAGE bit_ept_page)
  have 3: "(?e AND EPT_ADDR_MASK) OR (va AND mask ?sh) = va"
  proof (rule bit_word_eqI)
    fix i assume "i < LENGTH(64)"
    then have i: "i < 64" by simp
    have "bit ((?e AND EPT_ADDR_MASK) OR (va AND mask ?sh)) i \<longleftrightarrow>
        bit p i \<and> 12 \<le> i \<and> i < 52 \<or> bit va i \<and> i < ?sh"
      using pb [of i] i by (auto simp: bit_and_iff bit_or_iff bit_EPT_ADDR_MASK bit_ept_page bit_mask_64)
    also have "\<dots> \<longleftrightarrow> bit va i"
      using low [of i] p48 [of i] va48 [of i] same [of i] sh by (cases "i < ?sh"; cases "i < 48") auto
    finally show "bit ((?e AND EPT_ADDR_MASK) OR (va AND mask ?sh)) i = bit va i" .
  qed
  show "out ept_format t ?e va = Some (perm, va)" unfolding ept_out using 1 2 3 t by simp
  show "?e AND EPT_PRESENT \<noteq> 0"
    using perm unfolding ept_perm_def and_EPT_PRESENT by (auto simp: bit_ept_page)
  show "ept_leaf t ?e" by (cases "t = 1") (simp_all add: ept_leaf_def bit_ept_page)
qed

text \<open>
  What a part of the set-up does: every guest address from \<open>lo\<close> up to \<open>hi\<close> is mapped to itself,
  the others as before.
\<close>

definition ept_identity :: "u64 \<Rightarrow> u64 \<Rightarrow> nat \<Rightarrow> nat \<Rightarrow> 'a page_alloc_scheme \<Rightarrow> 'a page_alloc_scheme \<Rightarrow> bool" where
  "ept_identity pml4 perm lo hi s s' \<longleftrightarrow>
     (\<forall>ga. unat ga < 2 ^ 48 \<longrightarrow> xlate ept_format 4 (cells s') pml4 ga =
        (if lo \<le> unat ga \<and> unat ga < hi then Some (Some (perm, ga))
         else xlate ept_format 4 (cells s) pml4 ga))"

lemma ept_identity_trans:
  "\<lbrakk>ept_identity pml4 perm lo mid s s1; ept_identity pml4 perm mid hi s1 s'; lo \<le> mid; mid \<le> hi\<rbrakk>
   \<Longrightarrow> ept_identity pml4 perm lo hi s s'"
  unfolding ept_identity_def by auto

lemma ept_identity_refl: "ept_identity pml4 perm lo lo s s"
  unfolding ept_identity_def by auto

definition ept_good :: "u64 \<Rightarrow> nat \<Rightarrow> nat \<Rightarrow> 'a page_alloc_scheme \<Rightarrow> bool" where
  "ept_good pml4 lo hi s \<longleftrightarrow> (\<forall>ga. unat ga < 2 ^ 48 \<and> lo \<le> unat ga \<and> unat ga < hi \<longrightarrow>
     xlate ept_format 4 (cells s) pml4 ga \<noteq> Some None)"

lemma ept_good_after:
  "\<lbrakk>ept_good pml4 lo hi s; ept_identity pml4 perm lo mid s s1; lo \<le> mid\<rbrakk> \<Longrightarrow> ept_good pml4 mid hi s1"
  unfolding ept_good_def ept_identity_def by auto

text \<open>The tables, the free pages, and that the two are disjoint.\<close>

definition ept_ok :: "u64 \<Rightarrow> nat \<Rightarrow> 'a page_alloc_scheme \<Rightarrow> bool" where
  "ept_ok pml4 n s \<longleftrightarrow> (\<exists>A xs. wf_table ept_format 4 (cells s) pml4 A \<and> free_inv s xs \<and>
     A \<inter> set xs = {} \<and> n \<le> length xs)"

lemma setup_page:
  assumes t: "0 < t" "t \<le> 3" and p: "unat p mod 2 ^ EPT_LEVEL_SHIFT t = 0"
      "unat p + 2 ^ EPT_LEVEL_SHIFT t \<le> 2 ^ 48"
    and perm: "ept_perm perm" and ok: "ept_ok pml4 (4 - t + n) s"
    and good: "ept_good pml4 (unat p) hi s" "unat p < hi"
  shows "\<exists>s'. install_ept_entry pml4 t p (ept_page t perm p) 0 s = Inr s' \<and> ept_ok pml4 n s' \<and>
    ept_identity pml4 perm (unat p) (unat p + 2 ^ EPT_LEVEL_SHIFT t) s s'"
proof -
  let ?e = "ept_page t perm p"
  have pos: "(0 :: nat) < 2 ^ EPT_LEVEL_SHIFT t" by simp
  have p48: "unat p < 2 ^ 48" using p(2) pos by linarith
  have p48': "p < 2 ^ 48" using p48 by (simp add: word_less_nat_alt)
  obtain A xs where wf: "wf_table ept_format 4 (cells s) pml4 A" "free_inv s xs" "A \<inter> set xs = {}"
    "4 - t + n \<le> length xs" using ok unfolding ept_ok_def by blast
  have "xlate ept_format 4 (cells s) pml4 p \<noteq> Some None"
    using good p48 unfolding ept_good_def by blast
  note out = ept_page_out [OF t p(1) p48 _ _ perm]
  obtain s' xs' A' where s': "install_ept_entry pml4 t p ?e 0 s = Inr s'"
    "ept_installed t pml4 p ?e s s'" "free_inv s' xs'" "length xs \<le> 4 - t + length xs'"
    "wf_table ept_format 4 (cells s') pml4 A'" "A' \<inter> set xs' = {}"
    by (rule install_ept_cases [OF wf(1-3) t(1) _ _ out(3) p48'
          \<open>xlate ept_format 4 (cells s) pml4 p \<noteq> Some None\<close>, of p])
      (use t(2) wf(4) p48 in auto)
  have "ept_identity pml4 perm (unat p) (unat p + 2 ^ EPT_LEVEL_SHIFT t) s s'"
    unfolding ept_identity_def
  proof (intro allI impI)
    fix ga :: u64 assume ga: "unat ga < 2 ^ 48"
    have "xlate ept_format 4 (cells s') pml4 ga = (if same_entry t 4 p ga then Some (Some (perm, ga))
        else xlate ept_format 4 (cells s) pml4 ga)"
      using s'(2) out(1,2) [OF ga] unfolding ept_installed_def by auto
    then show "xlate ept_format 4 (cells s') pml4 ga =
        (if unat p \<le> unat ga \<and> unat ga < unat p + 2 ^ EPT_LEVEL_SHIFT t then Some (Some (perm, ga))
         else xlate ept_format 4 (cells s) pml4 ga)"
      unfolding ept_page_range [OF t p(1) p48 ga] .
  qed
  moreover have "ept_ok pml4 n s'"
    using s'(3-6) wf(4) unfolding ept_ok_def by (intro exI [of _ A'] exI [of _ xs']) auto
  ultimately show ?thesis using s'(1) by blast
qed

lemma setup_ept_loop_maps:
  assumes t: "0 < t" "t \<le> 3" and perm: "ept_perm perm"
    and f: "\<And>p s. f p s = install_ept_entry pml4 t p (ept_page t perm p) 0 s"
    and size: "unat page_size = 2 ^ EPT_LEVEL_SHIFT t"
    and mx: "unat mx \<le> 2 ^ 48"
    and lo: "unat lo mod 2 ^ EPT_LEVEL_SHIFT t = 0"
    and n: "unat lo + 2 ^ EPT_LEVEL_SHIFT t * n \<le> unat mx"
      "unat mx < unat lo + 2 ^ EPT_LEVEL_SHIFT t * Suc n"
    and ok: "ept_ok pml4 ((4 - t) * n + k) s" and good: "ept_good pml4 (unat lo) (unat mx) s"
  shows "\<exists>s' hi. setup_ept_loop f page_size lo mx s = Some (Inr (s', hi)) \<and> ept_ok pml4 k s' \<and>
    unat hi = unat lo + 2 ^ EPT_LEVEL_SHIFT t * n \<and> ept_identity pml4 perm (unat lo) (unat hi) s s'"
  using lo n ok good
proof (induction n arbitrary: lo s)
  case (0 lo s)
  let ?sz = "(2 :: nat) ^ EPT_LEVEL_SHIFT t"
  have "?sz \<le> 2 ^ 30" using t by (intro power_increasing) (auto simp: EPT_LEVEL_SHIFT_eq)
  then have "unat (lo + page_size) = unat lo + ?sz" using 0 mx size by (subst unat_add_noov) auto
  then have "\<not> lo + page_size \<le> mx" using 0 by (simp add: word_le_nat_alt)
  then show ?case using 0
    by (subst setup_ept_loop.simps) (simp add: ept_identity_refl)
next
  case (Suc n lo s)
  let ?sz = "(2 :: nat) ^ EPT_LEVEL_SHIFT t"
  have sz30: "?sz \<le> 2 ^ 30" using t by (intro power_increasing) (auto simp: EPT_LEVEL_SHIFT_eq)
  have pos: "0 < ?sz" by simp
  have n': "unat lo + ?sz + ?sz * n \<le> unat mx" "unat mx < unat lo + ?sz + ?sz * Suc n"
    using Suc.prems(2,3) by (simp_all add: algebra_simps)
  have add: "unat (lo + page_size) = unat lo + ?sz"
    using n'(1) size by (subst unat_add_noov) (simp, use unat_lt_64 [of mx] in linarith, simp)
  then have le: "lo + page_size \<le> mx" using n'(1) by (simp add: word_le_nat_alt)
  have "ept_ok pml4 (4 - t + ((4 - t) * n + k)) s" using Suc.prems(4) by (simp add: add.assoc)
  from setup_page [OF t Suc.prems(1) _ perm this Suc.prems(5)]
  obtain s1 where s1: "f lo s = Inr s1" "ept_ok pml4 ((4 - t) * n + k) s1"
    "ept_identity pml4 perm (unat lo) (unat lo + ?sz) s s1"
    using n'(1) mx pos unfolding f by auto
  have good1: "ept_good pml4 (unat (lo + page_size)) (unat mx) s1"
    unfolding add by (rule ept_good_after [OF Suc.prems(5) s1(3)]) simp
  have "unat (lo + page_size) mod ?sz = 0" unfolding add using Suc.prems(1) by simp
  from Suc.IH [OF this _ _ s1(2) good1] n'
  obtain s' hi where s': "setup_ept_loop f page_size (lo + page_size) mx s1 = Some (Inr (s', hi))"
    "ept_ok pml4 k s'" "unat hi = unat lo + ?sz + ?sz * n"
    "ept_identity pml4 perm (unat lo + ?sz) (unat hi) s1 s'"
    unfolding add by auto
  have "setup_ept_loop f page_size lo mx s = Some (Inr (s', hi))"
    using le s1(1) s'(1) by (subst setup_ept_loop.simps) simp
  moreover have "ept_identity pml4 perm (unat lo) (unat hi) s s'"
    by (rule ept_identity_trans [OF s1(3) s'(4)]) (simp_all add: s'(3))
  ultimately show ?case using s'(2,3) by (auto simp: algebra_simps)
qed

text \<open>The pages \<open>setup_ept_range\<close> takes from the allocator at most.\<close>

definition setup_pages :: "nat \<Rightarrow> bool \<Rightarrow> bool \<Rightarrow> nat" where
  "setup_pages len map_1g map_2m =
     (let n1 = (if map_1g then len div 2 ^ 30 else 0); len = len - 2 ^ 30 * n1;
          n2 = (if map_2m then len div 2 ^ 21 else 0); len = len - 2 ^ 21 * n2
      in n1 + 2 * n2 + 3 * (len div 2 ^ 12))"

lemma setup_stage:
  assumes t: "0 < t" "t \<le> 3" and perm: "ept_perm perm"
    and f: "\<And>p s. f p s = install_ept_entry pml4 t p (ept_page t perm p) 0 s"
    and size: "unat page_size = 2 ^ EPT_LEVEL_SHIFT t"
    and mx: "unat mx \<le> 2 ^ 48" "unat lo \<le> unat mx"
    and lo: "flag \<Longrightarrow> unat lo mod 2 ^ EPT_LEVEL_SHIFT t = 0"
    and n: "n = (if flag then (unat mx - unat lo) div 2 ^ EPT_LEVEL_SHIFT t else 0)"
    and ok: "ept_ok pml4 ((4 - t) * n + k) s" and good: "ept_good pml4 (unat lo) (unat mx) s"
  shows "\<exists>s' hi. (if flag then bindE (loopE (setup_ept_loop f page_size lo mx s)) (\<lambda>r. r)
      else Inr (s, lo)) = Inr (s', hi) \<and> ept_ok pml4 k s' \<and>
    unat hi = unat lo + 2 ^ EPT_LEVEL_SHIFT t * n \<and> unat hi \<le> unat mx \<and>
    ept_identity pml4 perm (unat lo) (unat hi) s s' \<and> ept_good pml4 (unat hi) (unat mx) s'"
proof (cases flag)
  case True
  let ?sz = "(2 :: nat) ^ EPT_LEVEL_SHIFT t"
  have "?sz * n \<le> unat mx - unat lo" using n True by simp
  then have n1: "unat lo + ?sz * n \<le> unat mx" using mx(2) by linarith
  have "unat mx - unat lo < ?sz * Suc n"
    using n True dividend_less_times_div [of ?sz "unat mx - unat lo"] by (simp add: algebra_simps)
  then have n2: "unat mx < unat lo + ?sz * Suc n" by linarith
  from setup_ept_loop_maps [OF t perm f size mx(1) lo [OF True] n1 n2 ok good]
  obtain s' hi where "setup_ept_loop f page_size lo mx s = Some (Inr (s', hi))" "ept_ok pml4 k s'"
    "unat hi = unat lo + ?sz * n" "ept_identity pml4 perm (unat lo) (unat hi) s s'" by blast
  moreover from this have "ept_good pml4 (unat hi) (unat mx) s'"
    by (intro ept_good_after [OF good]) simp_all
  ultimately show ?thesis using True n1 by simp
next
  case False
  then show ?thesis using ok good mx(2) n by (simp add: ept_identity_refl)
qed

lemma setup_ept_range_ok:
  assumes perm: "ept_perm perm" and mx: "unat start + unat len \<le> 2 ^ 48"
    and al: "unat start mod (if map_1g then 2 ^ 30 else if map_2m then 2 ^ 21 else 2 ^ 12) = 0"
    and ok: "ept_ok pml4 (setup_pages (unat len) map_1g map_2m + k) s"
    and good: "ept_good pml4 (unat start) (unat start + unat len) s"
  shows "\<exists>s'. setup_ept_range pml4 start len map_1g map_2m perm s = Inr s' \<and> ept_ok pml4 k s' \<and>
    ept_identity pml4 perm (unat start) (unat start + 2 ^ 12 * (unat len div 2 ^ 12)) s s'"
proof -
  define mx where "mx = len + start"
  have mx': "unat mx = unat start + unat len" using mx by (simp add: mx_def unat_add_noov)
  have mx48: "unat mx \<le> 2 ^ 48" using mx mx' by simp
  define n1 where "n1 = (if map_1g then (unat mx - unat start) div 2 ^ EPT_LEVEL_SHIFT 3 else 0)"
  define l1 where "l1 = unat len - 2 ^ 30 * n1"
  define n2 where "n2 = (if map_2m then l1 div 2 ^ 21 else 0)"
  define l2 where "l2 = l1 - 2 ^ 21 * n2"
  have sh: "EPT_LEVEL_SHIFT 3 = 30" "EPT_LEVEL_SHIFT 2 = 21" "EPT_LEVEL_SHIFT 1 = 12"
    "EPT_LEVEL_SHIFT (Suc 0) = 12" by (simp_all add: EPT_LEVEL_SHIFT_eq)
  have sz: "unat PAGE_SIZE_1G = 2 ^ EPT_LEVEL_SHIFT 3" "unat PAGE_SIZE_2M = 2 ^ EPT_LEVEL_SHIFT 2"
    "unat PAGE_SIZE = 2 ^ EPT_LEVEL_SHIFT 1"
    by (simp_all add: EPT_LEVEL_SHIFT_eq PAGE_SIZE_1G_def PAGE_SIZE_2M_def)
  have fs: "install_1g_ept pml4 p p perm s = install_ept_entry pml4 3 p (ept_page 3 perm p) 0 s"
    "install_2m_ept pml4 p p perm s = install_ept_entry pml4 2 p (ept_page 2 perm p) 0 s"
    "install_ept pml4 p p perm s = install_ept_entry pml4 1 p (ept_page 1 perm p) 0 s"
    for p and s :: "'a page_alloc_scheme"
    by (simp_all add: install_1g_ept_def install_2m_ept_def install_ept_def ept_page_def)
  have "n1 = (if map_1g then unat len div 2 ^ 30 else 0)" by (simp add: n1_def sh mx')
  then have "setup_pages (unat len) map_1g map_2m = n1 + 2 * n2 + 3 * (l2 div 2 ^ 12)"
    by (simp add: setup_pages_def Let_def l1_def n2_def l2_def)
  then have ok1: "ept_ok pml4 ((4 - 3) * n1 + (2 * n2 + (3 * (l2 div 2 ^ 12) + k))) s"
    using ok by (simp add: add.assoc)
  have al1: "unat start mod 2 ^ EPT_LEVEL_SHIFT 3 = 0" if map_1g using al that by (simp add: sh)
  obtain s1 h1 where s1: "(if map_1g then bindE (loopE (setup_ept_loop (\<lambda>p. install_1g_ept pml4 p p perm)
      PAGE_SIZE_1G start mx s)) (\<lambda>r. r) else Inr (s, start)) = Inr (s1, h1)"
    "ept_ok pml4 (2 * n2 + (3 * (l2 div 2 ^ 12) + k)) s1" "unat h1 = unat start + 2 ^ 30 * n1"
    "unat h1 \<le> unat mx" "ept_identity pml4 perm (unat start) (unat h1) s s1"
    "ept_good pml4 (unat h1) (unat mx) s1"
    using setup_stage [OF _ _ perm fs(1) sz(1) mx48 _ al1 n1_def ok1] good mx' by (auto simp: sh)
  have dv: "unat start mod 2 ^ 21 = 0" if "map_1g \<or> map_2m"
  proof -
    have "(2 :: nat) ^ 21 dvd 2 ^ 30" by (simp add: le_imp_power_dvd)
    then show ?thesis using al that by (auto simp: mod_eq_0_iff_dvd intro: dvd_trans split: if_splits)
  qed
  have al2: "unat h1 mod 2 ^ EPT_LEVEL_SHIFT 2 = 0" if map_2m
  proof -
    have "(2 :: nat) ^ 21 dvd 2 ^ 30 * n1" by (intro dvd_mult2 le_imp_power_dvd) simp
    then show ?thesis using dv that by (simp add: s1(3) sh mod_eq_0_iff_dvd dvd_add)
  qed
  have n2': "n2 = (if map_2m then (unat mx - unat h1) div 2 ^ EPT_LEVEL_SHIFT 2 else 0)"
    by (simp add: n2_def l1_def s1(3) mx' sh)
  have ok2: "ept_ok pml4 ((4 - 2) * n2 + (3 * (l2 div 2 ^ 12) + k)) s1" using s1(2) by simp
  obtain s2 h2 where s2: "(if map_2m then bindE (loopE (setup_ept_loop (\<lambda>p. install_2m_ept pml4 p p perm)
      PAGE_SIZE_2M h1 mx s1)) (\<lambda>r. r) else Inr (s1, h1)) = Inr (s2, h2)"
    "ept_ok pml4 (3 * (l2 div 2 ^ 12) + k) s2" "unat h2 = unat h1 + 2 ^ 21 * n2"
    "unat h2 \<le> unat mx" "ept_identity pml4 perm (unat h1) (unat h2) s1 s2"
    "ept_good pml4 (unat h2) (unat mx) s2"
    using setup_stage [OF _ _ perm fs(2) sz(2) mx48 s1(4) al2 n2' ok2 s1(6)] by (auto simp: sh)
  have al3: "unat h2 mod 2 ^ EPT_LEVEL_SHIFT 1 = 0"
  proof -
    have "(2 :: nat) ^ 12 dvd 2 ^ 30 * n1" "(2 :: nat) ^ 12 dvd 2 ^ 21 * n2" "(2 :: nat) ^ 12 dvd 2 ^ 21"
      "(2 :: nat) ^ 12 dvd 2 ^ 30"
      by (intro dvd_mult2 le_imp_power_dvd, simp)+
    moreover from this have "2 ^ 12 dvd unat start"
      using al by (auto simp: mod_eq_0_iff_dvd intro: dvd_trans split: if_splits)
    ultimately show ?thesis unfolding s1(3) s2(3) sh mod_eq_0_iff_dvd by (intro dvd_add)
  qed
  have n3: "l2 div 2 ^ 12 = (if True then (unat mx - unat h2) div 2 ^ EPT_LEVEL_SHIFT 1 else 0)"
    by (simp add: l2_def l1_def s1(3) s2(3) mx' sh)
  have ok3: "ept_ok pml4 ((4 - 1) * (l2 div 2 ^ 12) + k) s2" using s2(2) by simp
  obtain s3 h3 where s3: "bindE (loopE (setup_ept_loop (\<lambda>p. install_ept pml4 p p perm)
      PAGE_SIZE h2 mx s2)) (\<lambda>r. r) = Inr (s3, h3)" "ept_ok pml4 k s3"
    "unat h3 = unat h2 + 2 ^ 12 * (l2 div 2 ^ 12)" "ept_identity pml4 perm (unat h2) (unat h3) s2 s3"
    using setup_stage [OF _ _ perm fs(3) sz(3) mx48 s2(4) al3 n3 ok3 s2(6)] by (auto simp: sh)
  have run: "setup_ept_range pml4 start len map_1g map_2m perm s = Inr s3"
    by (simp only: setup_ept_range_def Let_def mx_def [symmetric] prod.case s1(1) s2(1) s3(1) bindE_Inr)
  have id: "ept_identity pml4 perm (unat start) (unat h3) s s3"
    by (rule ept_identity_trans [OF s1(5) ept_identity_trans [OF s2(5) s3(4)]])
      (simp_all add: s1(3) s2(3) s3(3))
  have "unat len = l2 + 2 ^ 12 * (2 ^ 18 * n1 + 2 ^ 9 * n2)"
    using s1(3,4) s2(3,4) mx' by (simp add: l2_def l1_def)
  then have "unat len div 2 ^ 12 = 2 ^ 18 * n1 + 2 ^ 9 * n2 + l2 div 2 ^ 12" by simp
  then have "unat h3 = unat start + 2 ^ 12 * (unat len div 2 ^ 12)"
    using s1(3) s2(3) s3(3) by simp
  then show ?thesis using run s3(2) id by metis
qed


section \<open>Reading and writing an entry\<close>

lemma get_ept_loop_Suc:
  "get_ept_loop m ga t (Suc l) pt =
     (let a = slot pt ga (Suc l); e = m a
      in if Suc l = t then Some a
         else if Suc l < 4 \<and> bit e 7 then None
         else if e AND EPT_PRESENT = 0 then None
         else get_ept_loop m ga t l (e AND EPT_ADDR_MASK))"
  by (simp add: slot_def Let_def)

lemma set_ept_loop_Suc:
  "set_ept_loop m ga t (Suc l) pt =
     (let a = slot pt ga (Suc l)
      in if Suc l = t then Inr a
         else if m a AND EPT_PRESENT \<noteq> 0 then set_ept_loop m ga t l (m a AND EPT_ADDR_MASK)
         else Inl Assert_failed)"
  by (simp add: slot_def Let_def)

declare get_ept_loop.simps(2) [simp del] set_ept_loop.simps(2) [simp del]

lemma get_ept_loop_xlate:
  assumes "0 < l" "l \<le> 4" "xlate ept_format l m pt ga \<noteq> Some None"
  shows "case get_ept_loop m ga 1 l pt of
      Some a \<Rightarrow> xlate ept_format l m pt ga =
        (if m a AND EPT_PRESENT \<noteq> 0 then Some (out ept_format 1 (m a) ga) else None)
    | None \<Rightarrow> xlate ept_format l m pt ga = None \<or>
        (\<exists>t e. (t = 2 \<or> t = 3) \<and> bit e 7 \<and> xlate ept_format l m pt ga = Some (out ept_format t e ga))"
  using assms
proof (induction l arbitrary: pt)
  case (Suc l)
  let ?e = "m (slot pt ga (Suc l))"
  have no4: "\<not> (l = 3 \<and> ?e AND EPT_PRESENT \<noteq> 0 \<and> bit ?e 7)"
    using Suc.prems(3) by (auto simp: link_def ept_out)
  have step: "xlate ept_format (Suc l) m pt ga = (if link ept_format l ?e
      then xlate ept_format l m (?e AND EPT_ADDR_MASK) ga
      else if ?e AND EPT_PRESENT \<noteq> 0 then Some (out ept_format (Suc l) ?e ga) else None)"
    by (simp add: Let_def)
  consider "l = 0" | "0 < l" "link ept_format l ?e" | "0 < l" "?e AND EPT_PRESENT = 0"
    | "l = 1 \<or> l = 2" "?e AND EPT_PRESENT \<noteq> 0" "bit ?e 7"
  proof -
    have "l = 0 \<or> l = 1 \<or> l = 2 \<or> l = 3" using Suc.prems(2) by auto
    then show thesis
      using that no4 by (cases "bit ?e 7"; cases "?e AND EPT_PRESENT = 0") (auto simp: link_def)
  qed
  then show ?case
  proof cases
    case 1
    then show ?thesis by (simp add: get_ept_loop_Suc Let_def link_def)
  next
    case 2
    then have g: "get_ept_loop m ga 1 (Suc l) pt = get_ept_loop m ga 1 l (?e AND EPT_ADDR_MASK)"
      by (simp add: get_ept_loop_Suc link_def Let_def)
    have x: "xlate ept_format (Suc l) m pt ga = xlate ept_format l m (?e AND EPT_ADDR_MASK) ga"
      unfolding step using 2(2) by simp
    show ?thesis unfolding g x using Suc.prems(2) Suc.prems(3) [unfolded x] by (intro Suc.IH [OF 2(1)]) simp_all
  next
    case 3
    then show ?thesis unfolding step by (simp add: get_ept_loop_Suc Let_def link_def)
  next
    case 4
    have "xlate ept_format (Suc l) m pt ga = Some (out ept_format (Suc l) ?e ga)"
      using 4 unfolding step by (simp add: link_def)
    moreover have "get_ept_loop m ga 1 (Suc l) pt = None"
      using 4 by (auto simp: get_ept_loop_Suc Let_def)
    ultimately show ?thesis using 4 by (auto simp: numeral_2_eq_2 numeral_3_eq_3)
  qed
qed simp

text \<open>
  When an address hits no misconfigured entry, \<open>get_ept_pte\<close> at the lowest level agrees with the
  translation: if it yields an entry, that entry decides the translation; if it returns false, the
  address is unmapped or mapped by a 2M or 1G page.
\<close>

theorem get_ept_pte_translation:
  assumes "xlate ept_format 4 m pml4 ga \<noteq> Some None"
  shows "\<exists>r. get_ept_pte m pml4 ga 1 = Inr r \<and> (case r of
      Some e \<Rightarrow> xlate ept_format 4 m pml4 ga =
        (if e AND EPT_PRESENT \<noteq> 0 then Some (out ept_format 1 e ga) else None)
    | None \<Rightarrow> xlate ept_format 4 m pml4 ga = None \<or>
        (\<exists>t e. (t = 2 \<or> t = 3) \<and> bit e 7 \<and> xlate ept_format 4 m pml4 ga = Some (out ept_format t e ga)))"
proof -
  have "get_ept_pte m pml4 ga 1 = Inr (map_option m (get_ept_loop m ga 1 4 pml4))"
    by (simp add: get_ept_pte_def EPT_PAGE_LEVEL_def)
  then show ?thesis
    using get_ept_loop_xlate [of 4 m pml4 ga] assms by (cases "get_ept_loop m ga 1 4 pml4") auto
qed

lemma get_ept_pte_translation_witness:
  "get_ept_pte (cells ept_sample) 0x1000 0x5678 1 = Inr None \<or>
   (\<exists>e. get_ept_pte (cells ept_sample) 0x1000 0x5678 1 = Inr (Some e) \<and> e AND EPT_PRESENT = 0)"
proof -
  have "xlate ept_format 4 (cells ept_sample) 0x1000 0x5678 \<noteq> Some None"
    by (simp add: ept_sample_ok(2))
  from get_ept_pte_translation [OF this] obtain r
    where r: "get_ept_pte (cells ept_sample) 0x1000 0x5678 1 = Inr r"
      "\<forall>e. r = Some e \<longrightarrow> xlate ept_format 4 (cells ept_sample) 0x1000 0x5678 =
          (if e AND EPT_PRESENT \<noteq> 0 then Some (out ept_format 1 e 0x5678) else None)"
    by (fastforce split: option.splits)
  then show ?thesis unfolding ept_sample_ok(2) by (cases r) (auto split: if_splits)
qed

text \<open>The entry \<open>get_ept_pte\<close> reads is the one \<open>set_ept_pte\<close> writes, and writing it keeps the way to it.\<close>

lemma get_ept_loop_path:
  assumes "wf_table ept_format l m pt A" "l \<le> 4" "xlate ept_format l m pt ga \<noteq> Some None"
    and "get_ept_loop m ga t l pt = Some a" "0 < t"
  shows "page_of a \<in> A \<and> set_ept_loop m ga t l pt = Inr a \<and> get_ept_loop (m(a := v)) ga t l pt = Some a"
  using assms
proof (induction l arbitrary: pt A)
  case (Suc l)
  let ?s = "slot pt ga (Suc l)"
  obtain B where B: "A = insert pt (\<Union>i<512. B i)" "page_ok pt" "\<forall>i<512. pt \<notin> B i"
    "\<forall>i<512. if link ept_format l (m (entry pt i))
       then wf_table ept_format l m (addr ept_format (m (entry pt i))) (B i) else B i = {}"
    using Suc.prems(1) by auto
  have here: "page_of ?s = pt" using B(2) by (simp add: slot_entry)
  show ?case
  proof (cases "t = Suc l")
    case True
    then show ?thesis
      using Suc.prems(4) here B(1) by (simp add: get_ept_loop_Suc set_ept_loop_Suc Let_def)
  next
    case False
    have pres: "m ?s AND EPT_PRESENT \<noteq> 0"
      and small: "\<not> (Suc l < 4 \<and> bit (m ?s) 7)"
      and sub: "get_ept_loop m ga t l (m ?s AND EPT_ADDR_MASK) = Some a"
      using Suc.prems(4) False by (auto simp: get_ept_loop_Suc Let_def split: if_splits)
    have "l \<noteq> 0" using sub by (cases l) auto
    moreover have "\<not> bit (m ?s) 7"
    proof
      assume b: "bit (m ?s) 7"
      then have "l = 3" using small Suc.prems(2) by simp
      have "xlate ept_format (Suc l) m pt ga = Some (out ept_format (Suc l) (m ?s) ga)"
        using b pres by (simp add: link_def Let_def)
      then show False using Suc.prems(3) \<open>l = 3\<close> by (simp add: ept_out)
    qed
    ultimately have lk: "link ept_format l (m ?s)" using pres by (simp add: link_def)
    then have wf: "wf_table ept_format l m (m ?s AND EPT_ADDR_MASK) (B (idx ga (Suc l)))"
      using B(4) [rule_format, OF idx_less [of ga "Suc l"]] by (simp add: slot_entry)
    have "xlate ept_format l m (m ?s AND EPT_ADDR_MASK) ga \<noteq> Some None"
      using Suc.prems(3) lk by (simp add: Let_def)
    from Suc.IH [OF wf _ this sub Suc.prems(5)] Suc.prems(2)
    have IH: "page_of a \<in> B (idx ga (Suc l))" "set_ept_loop m ga t l (m ?s AND EPT_ADDR_MASK) = Inr a"
      "get_ept_loop (m(a := v)) ga t l (m ?s AND EPT_ADDR_MASK) = Some a" by (simp_all del: fun_upd_apply)
    have "?s \<noteq> a" using IH(1) here B(3) by auto
    then have "(m(a := v)) ?s = m ?s" by simp
    then show ?thesis
      using IH B(1) False pres small
      by (auto simp: get_ept_loop_Suc set_ept_loop_Suc Let_def simp del: fun_upd_apply)
  qed
qed simp

text \<open>
  Where \<open>get_ept_pte\<close> finds an entry of a well-formed table, \<open>set_ept_pte\<close> passes its assertions and
  \<open>get_ept_pte\<close> then reads back the value set.
\<close>

theorem set_ept_pte_get:
  assumes "wf_table ept_format 4 m pml4 A" "xlate ept_format 4 m pml4 ga \<noteq> Some None"
    and "get_ept_pte m pml4 ga t = Inr (Some e)"
  shows "\<exists>m'. set_ept_pte m pml4 ga t v = Inr m' \<and> get_ept_pte m' pml4 ga t = Inr (Some v)"
proof -
  have t: "1 \<le> t \<and> t \<le> 4" and "map_option m (get_ept_loop m ga t 4 pml4) = Some e"
    using assms(3) by (auto simp: get_ept_pte_def EPT_PAGE_LEVEL_def errE)
  then obtain a where a: "get_ept_loop m ga t 4 pml4 = Some a" by auto
  have "set_ept_pte m pml4 ga t v = Inr (m(a := v))"
    "get_ept_pte (m(a := v)) pml4 ga t = Inr (Some v)"
    using get_ept_loop_path [OF assms(1) _ assms(2) a, of v] t
    by (simp_all add: set_ept_pte_def get_ept_pte_def EPT_PAGE_LEVEL_def)
  then show ?thesis by blast
qed

lemma set_ept_pte_get_witness:
  "\<exists>m'. set_ept_pte (cells ept_sample) 0x1000 0x5678 4 0x7 = Inr m' \<and>
     get_ept_pte m' 0x1000 0x5678 4 = Inr (Some 0x7)"
proof (rule set_ept_pte_get [OF ept_sample_ok(1)])
  have "get_ept_loop (cells ept_sample) 0x5678 4 4 0x1000 = Some (slot 0x1000 0x5678 4)"
    using get_ept_loop_Suc [of "cells ept_sample" "0x5678" 4 3 "0x1000"] by (simp add: Let_def)
  moreover have "slot 0x1000 0x5678 4 = 0x1000" by code_simp
  ultimately show "get_ept_pte (cells ept_sample) 0x1000 0x5678 4 = Inr (Some 0)"
    by (simp add: get_ept_pte_def EPT_PAGE_LEVEL_def ept_sample_def)
qed (simp add: ept_sample_ok(2))
end
