(* ===== verification/Access.thy ===== *)
theory Access
  imports X86Vm
begin

text \<open>
  The page-table permission tests, \<open>x86/access.c\<close>: the enumeration of the test vectors, the
  construction of the page tables of a vector, the prediction of what an access must do, and the
  runs that compare the prediction with the processor.

  The processor is not code of the program: the record \<open>ac_hw\<close> has the vector that a write of CR4
  raises, the effect of a memory access (new memory, whether it faulted, the error code), the CPUID
  words, the address of the boot table \<open>ptl2\<close> and the effect of \<open>setup_5level_page_table\<close>, which is
  assembly. Messages are left out, except which check of an access failed.
\<close>

section \<open>Flags\<close>

definition AC_PTE_PRESENT :: nat where "AC_PTE_PRESENT = 0"
definition AC_PTE_WRITABLE :: nat where "AC_PTE_WRITABLE = 1"
definition AC_PTE_USER :: nat where "AC_PTE_USER = 2"
definition AC_PTE_ACCESSED :: nat where "AC_PTE_ACCESSED = 3"
definition AC_PTE_DIRTY :: nat where "AC_PTE_DIRTY = 4"
definition AC_PTE_NX :: nat where "AC_PTE_NX = 5"
definition AC_PTE_BIT51 :: nat where "AC_PTE_BIT51 = 6"
definition AC_PDE_PRESENT :: nat where "AC_PDE_PRESENT = 7"
definition AC_PDE_WRITABLE :: nat where "AC_PDE_WRITABLE = 8"
definition AC_PDE_USER :: nat where "AC_PDE_USER = 9"
definition AC_PDE_ACCESSED :: nat where "AC_PDE_ACCESSED = 10"
definition AC_PDE_DIRTY :: nat where "AC_PDE_DIRTY = 11"
definition AC_PDE_PSE :: nat where "AC_PDE_PSE = 12"
definition AC_PDE_NX :: nat where "AC_PDE_NX = 13"
definition AC_PDE_BIT51 :: nat where "AC_PDE_BIT51 = 14"
definition AC_PDE_BIT13 :: nat where "AC_PDE_BIT13 = 15"
definition AC_PKU_AD :: nat where "AC_PKU_AD = 16"
definition AC_PKU_WD :: nat where "AC_PKU_WD = 17"
definition AC_PKU_PKEY :: nat where "AC_PKU_PKEY = 18"
definition AC_ACCESS_USER :: nat where "AC_ACCESS_USER = 19"
definition AC_ACCESS_WRITE :: nat where "AC_ACCESS_WRITE = 20"
definition AC_ACCESS_FETCH :: nat where "AC_ACCESS_FETCH = 21"
definition AC_ACCESS_TWICE :: nat where "AC_ACCESS_TWICE = 22"
definition AC_CPU_EFER_NX :: nat where "AC_CPU_EFER_NX = 23"
definition AC_CPU_CR0_WP :: nat where "AC_CPU_CR0_WP = 24"
definition AC_CPU_CR4_SMEP :: nat where "AC_CPU_CR4_SMEP = 25"
definition AC_CPU_CR4_PKE :: nat where "AC_CPU_CR4_PKE = 26"
definition NR_AC_FLAGS :: nat where "NR_AC_FLAGS = 27"

text \<open>The mask of a flag, and the macro \<open>F\<close>.\<close>

definition ac_mask :: "nat \<Rightarrow> u32" where
  "ac_mask n = push_bit n 1"

definition F :: "u32 \<Rightarrow> nat \<Rightarrow> bool" where
  "F flags n \<longleftrightarrow> flags AND ac_mask n \<noteq> 0"

definition PT_BASE_ADDR_MASK :: u64 where "PT_BASE_ADDR_MASK = (push_bit 40 1 - 1) AND PAGE_MASK"
definition PT_PSE_BASE_ADDR_MASK :: u64 where
  "PT_PSE_BASE_ADDR_MASK = PT_BASE_ADDR_MASK AND NOT (push_bit 21 1)"

definition CR0_WP_MASK :: u64 where "CR0_WP_MASK = push_bit 16 1"
definition CR4_SMEP_MASK :: u64 where "CR4_SMEP_MASK = push_bit 20 1"
definition X86_CR4_PKE :: u64 where "X86_CR4_PKE = 0x400000"
definition EFER_NX_MASK :: u64 where "EFER_NX_MASK = push_bit 11 1"
definition GP_VECTOR :: u32 where "GP_VECTOR = 13"

definition PFERR_PRESENT_MASK :: u32 where "PFERR_PRESENT_MASK = push_bit 0 1"
definition PFERR_WRITE_MASK :: u32 where "PFERR_WRITE_MASK = push_bit 1 1"
definition PFERR_USER_MASK :: u32 where "PFERR_USER_MASK = push_bit 2 1"
definition PFERR_RESERVED_MASK :: u32 where "PFERR_RESERVED_MASK = push_bit 3 1"
definition PFERR_FETCH_MASK :: u32 where "PFERR_FETCH_MASK = push_bit 4 1"
definition PFERR_PK_MASK :: u32 where "PFERR_PK_MASK = push_bit 5 1"

definition PT_INDEX :: "u64 \<Rightarrow> nat \<Rightarrow> u64" where
  "PT_INDEX address lvl = drop_bit (12 + (lvl - 1) * 9) address AND 511"

section \<open>State\<close>

record ac_pool =
  pt_pool :: u64
  pt_pool_size :: u32
  pt_pool_current :: u32

record ac_test =
  at_flags :: u32
  at_virt :: u64
  at_phys :: u64
  at_ptep :: u64
  expected_pte :: u64
  at_pdep :: u64
  expected_pde :: u64
  ignore_pde :: u64
  expected_fault :: bool
  expected_error :: u32

datatype ac_failure = Unexpected_fault | Unexpected_access | Bad_error_code | Bad_pte | Bad_pde

record ac_cpu =
  ac_cr0 :: u64
  ac_cr3 :: u64
  ac_cr4 :: u64
  ac_efer :: u64
  ac_pkru :: u32

record ac_state = ac_cpu +
  ac_mem :: cells
  unique_n :: u32
  invalid_mask :: u32
  page_table_levels :: nat
  ac_log :: "ac_failure list"

record ac_hw =
  cr4_vector :: "u64 \<Rightarrow> u32"
  mem_access :: "ac_cpu \<Rightarrow> cells \<Rightarrow> u64 \<Rightarrow> bool \<Rightarrow> bool \<Rightarrow> bool \<Rightarrow> cells \<times> bool \<times> u32"
  ptl2 :: u64
  cpuid_7_ebx :: u32
  cpuid_7_ecx :: u32
  setup_5level :: "ac_state \<Rightarrow> ac_state"

section \<open>Control registers\<close>

definition write_cr4_checking :: "ac_hw \<Rightarrow> u64 \<Rightarrow> ac_state \<Rightarrow> ac_state \<times> u32" where
  "write_cr4_checking hw val s =
     (if cr4_vector hw val = 0 then s\<lparr>ac_cr4 := val\<rparr> else s, cr4_vector hw val)"

definition set_cr0_wp :: "bool \<Rightarrow> ac_state \<Rightarrow> ac_state" where
  "set_cr0_wp wp s =
     (let old_cr0 = ac_cr0 s; cr0 = old_cr0 AND NOT CR0_WP_MASK;
          cr0 = (if wp then cr0 OR CR0_WP_MASK else cr0)
      in if old_cr0 \<noteq> cr0 then s\<lparr>ac_cr0 := cr0\<rparr> else s)"

definition set_cr4_smep :: "ac_hw \<Rightarrow> bool \<Rightarrow> ac_state \<Rightarrow> ac_state \<times> u32" where
  "set_cr4_smep hw smep s =
     (let old_cr4 = ac_cr4 s; cr4 = old_cr4 AND NOT CR4_SMEP_MASK;
          cr4 = (if smep then cr4 OR CR4_SMEP_MASK else cr4); a = ptl2 hw + 8 * 2
      in if old_cr4 = cr4 then (s, 0)
         else let s = (if smep then s\<lparr>ac_mem := (ac_mem s)(a := ac_mem s a AND NOT PT_USER_MASK)\<rparr> else s);
                  (s, r) = write_cr4_checking hw cr4 s;
                  s = (if r \<noteq> 0 \<or> \<not> smep then s\<lparr>ac_mem := (ac_mem s)(a := ac_mem s a OR PT_USER_MASK)\<rparr>
                       else s)
              in (s, r))"

definition set_cr4_pke :: "bool \<Rightarrow> ac_state \<Rightarrow> ac_state" where
  "set_cr4_pke pke s =
     (let old_cr4 = ac_cr4 s; cr4 = old_cr4 AND NOT X86_CR4_PKE;
          cr4 = (if pke then cr4 OR X86_CR4_PKE else cr4)
      in if old_cr4 = cr4 then s
         else let s = (if ac_cr4 s AND X86_CR4_PKE \<noteq> 0 \<and> \<not> pke then s\<lparr>ac_pkru := 0xfffffffc\<rparr> else s)
              in s\<lparr>ac_cr4 := cr4\<rparr>)"

definition set_efer_nx :: "bool \<Rightarrow> ac_state \<Rightarrow> ac_state" where
  "set_efer_nx nx s =
     (let old_efer = ac_efer s; efer = old_efer AND NOT EFER_NX_MASK;
          efer = (if nx then efer OR EFER_NX_MASK else efer)
      in if old_efer \<noteq> efer then s\<lparr>ac_efer := efer\<rparr> else s)"

section \<open>Test vectors\<close>

definition ac_env_int :: "ac_pool" where
  "ac_env_int = \<lparr>pt_pool = 33 * 1024 * 1024, pt_pool_size = 120 * 1024 * 1024 - 33 * 1024 * 1024,
     pt_pool_current = 0\<rparr>"

definition ac_test_init :: "u64 \<Rightarrow> ac_test \<Rightarrow> ac_state \<Rightarrow> ac_test \<times> ac_state" where
  "ac_test_init virt at s =
     (let s = s\<lparr>ac_efer := ac_efer s OR EFER_NX_MASK\<rparr>; s = set_cr0_wp True s
      in (at\<lparr>at_flags := 0, at_virt := virt, at_phys := 32 * 1024 * 1024\<rparr>, s))"

definition ac_test_bump_one :: "u32 \<Rightarrow> u32 \<Rightarrow> u32 \<times> bool" where
  "ac_test_bump_one invalid flags =
     (let flags = ((flags OR invalid) + 1) AND NOT invalid in (flags, flags < push_bit NR_AC_FLAGS 1))"

definition ac_test_legal :: "u32 \<Rightarrow> bool" where
  "ac_test_legal flags \<longleftrightarrow>
     (if F flags AC_ACCESS_FETCH \<and> F flags AC_ACCESS_WRITE then False
      else if F flags AC_ACCESS_USER \<and> F flags AC_CPU_CR4_SMEP then False
      else if \<not> F flags AC_CPU_CR4_PKE \<and> (F flags AC_PKU_AD \<or> F flags AC_PKU_WD) then False
      else if \<not> F flags AC_PDE_PSE \<and> F flags AC_PDE_BIT13 then False
      else True)"

text \<open>The loop of \<open>ac_test_bump\<close>, entered with the first candidate and whether it is in range.\<close>

partial_function (option) ac_bump_loop :: "u32 \<Rightarrow> u32 \<Rightarrow> bool \<Rightarrow> (u32 \<times> bool) option" where
  "ac_bump_loop invalid flags ret =
     (if ret \<and> \<not> ac_test_legal flags
      then let (flags, ret) = ac_test_bump_one invalid flags in ac_bump_loop invalid flags ret
      else Some (flags, ret))"

declare ac_bump_loop.simps [code]

definition ac_test_bump :: "u32 \<Rightarrow> u32 \<Rightarrow> (u32 \<times> bool) option" where
  "ac_test_bump invalid flags =
     (let (flags, ret) = ac_test_bump_one invalid flags in ac_bump_loop invalid flags ret)"

definition ac_test_alloc_pt :: "ac_pool \<Rightarrow> ac_pool \<times> u64" where
  "ac_test_alloc_pt pool =
     (pool\<lparr>pt_pool_current := pt_pool_current pool + 4096\<rparr>, pt_pool pool + ucast (pt_pool_current pool))"

definition ac_test_enough_room :: "ac_pool \<Rightarrow> bool" where
  "ac_test_enough_room pool \<longleftrightarrow>
     ucast (pt_pool_current pool) + 5 * PAGE_SIZE \<le> (ucast (pt_pool_size pool) :: u64)"

definition ac_test_reset_pt_pool :: "ac_pool \<Rightarrow> ac_pool" where
  "ac_test_reset_pt_pool pool = pool\<lparr>pt_pool_current := 0\<rparr>"

section \<open>The prediction\<close>

definition ac_test_permissions ::
    "ac_test \<Rightarrow> u32 \<Rightarrow> bool \<Rightarrow> bool \<Rightarrow> bool \<Rightarrow> ac_test \<times> u64" where
  "ac_test_permissions at flags writable user executable =
     (let kwritable = (\<not> F flags AC_CPU_CR0_WP \<and> \<not> F flags AC_ACCESS_USER);
          at = (if F flags AC_ACCESS_USER \<and> \<not> user then at\<lparr>expected_fault := True\<rparr> else at);
          at = (if F flags AC_ACCESS_WRITE \<and> \<not> writable \<and> \<not> kwritable
                then at\<lparr>expected_fault := True\<rparr> else at);
          at = (if F flags AC_ACCESS_FETCH \<and> \<not> executable then at\<lparr>expected_fault := True\<rparr> else at);
          at = (if F flags AC_ACCESS_FETCH \<and> user \<and> F flags AC_CPU_CR4_SMEP
                then at\<lparr>expected_fault := True\<rparr> else at);
          at = (if user \<and> \<not> F flags AC_ACCESS_FETCH \<and> F flags AC_PKU_PKEY \<and> F flags AC_CPU_CR4_PKE
                then if F flags AC_PKU_AD
                     then at\<lparr>expected_fault := True, expected_error := expected_error at OR PFERR_PK_MASK\<rparr>
                     else if F flags AC_ACCESS_WRITE \<and> F flags AC_PKU_WD \<and> \<not> kwritable
                     then at\<lparr>expected_fault := True, expected_error := expected_error at OR PFERR_PK_MASK\<rparr>
                     else at
                else at);
          expected = (if \<not> expected_fault at
            then if F flags AC_ACCESS_WRITE then PT_ACCESSED_MASK OR PT_DIRTY_MASK else PT_ACCESSED_MASK
            else 0)
      in (at, expected))"

text \<open>The code after the labels \<open>no_pte\<close> and \<open>fault\<close>.\<close>

definition ac_emulate_end :: "u32 \<Rightarrow> ac_test \<Rightarrow> ac_test" where
  "ac_emulate_end flags at =
     (let at = (if \<not> expected_fault at then at\<lparr>ignore_pde := 0\<rparr> else at)
      in if \<not> F flags AC_CPU_EFER_NX \<and> \<not> F flags AC_CPU_CR4_SMEP
         then at\<lparr>expected_error := expected_error at AND NOT PFERR_FETCH_MASK\<rparr> else at)"

text \<open>The fault for an invalid entry, present or not.\<close>

definition ac_invalid_entry :: "bool \<Rightarrow> ac_test \<Rightarrow> ac_test" where
  "ac_invalid_entry is_present at =
     (let at = at\<lparr>expected_fault := True\<rparr>
      in if is_present then at\<lparr>expected_error := expected_error at OR PFERR_RESERVED_MASK\<rparr>
         else at\<lparr>expected_error := expected_error at AND NOT PFERR_PRESENT_MASK\<rparr>)"

definition ac_emulate_access :: "ac_test \<Rightarrow> u32 \<Rightarrow> ac_test" where
  "ac_emulate_access at flags =
     (let at = (if F flags AC_ACCESS_USER
                then at\<lparr>expected_error := expected_error at OR PFERR_USER_MASK\<rparr> else at);
          at = (if F flags AC_ACCESS_WRITE
                then at\<lparr>expected_error := expected_error at OR PFERR_WRITE_MASK\<rparr> else at);
          at = (if F flags AC_ACCESS_FETCH
                then at\<lparr>expected_error := expected_error at OR PFERR_FETCH_MASK\<rparr> else at);
          at = (if \<not> F flags AC_PDE_ACCESSED then at\<lparr>ignore_pde := PT_ACCESSED_MASK\<rparr> else at);
          pde_valid = (F flags AC_PDE_PRESENT \<and> \<not> F flags AC_PDE_BIT51 \<and> \<not> F flags AC_PDE_BIT13 \<and>
            \<not> (F flags AC_PDE_NX \<and> \<not> F flags AC_CPU_EFER_NX))
      in if \<not> pde_valid then ac_emulate_end flags (ac_invalid_entry (F flags AC_PDE_PRESENT) at)
         else
           let writable = F flags AC_PDE_WRITABLE; user = F flags AC_PDE_USER;
               executable = (\<not> F flags AC_PDE_NX)
           in if F flags AC_PDE_PSE then
                let (at, expected) = ac_test_permissions at flags writable user executable
                in ac_emulate_end flags (at\<lparr>expected_pde := expected_pde at OR expected\<rparr>)
              else
                let at = at\<lparr>expected_pde := expected_pde at OR PT_ACCESSED_MASK\<rparr>;
                    pte_valid = (F flags AC_PTE_PRESENT \<and> \<not> F flags AC_PTE_BIT51 \<and>
                      \<not> (F flags AC_PTE_NX \<and> \<not> F flags AC_CPU_EFER_NX))
                in if \<not> pte_valid then ac_emulate_end flags (ac_invalid_entry (F flags AC_PTE_PRESENT) at)
                   else
                     let writable = (writable \<and> F flags AC_PTE_WRITABLE);
                         user = (user \<and> F flags AC_PTE_USER);
                         executable = (executable \<and> \<not> F flags AC_PTE_NX);
                         (at, expected) = ac_test_permissions at flags writable user executable
                     in ac_emulate_end flags (at\<lparr>expected_pte := expected_pte at OR expected\<rparr>))"

definition ac_set_expected_status :: "cells \<Rightarrow> ac_test \<Rightarrow> ac_test" where
  "ac_set_expected_status m at =
     (let at = (if at_ptep at \<noteq> 0 then at\<lparr>expected_pte := m (at_ptep at)\<rparr> else at);
          at = at\<lparr>expected_pde := m (at_pdep at), ignore_pde := 0, expected_fault := False,
                  expected_error := PFERR_PRESENT_MASK\<rparr>;
          at = (if at_flags at AND ac_mask AC_ACCESS_TWICE \<noteq> 0
                then (ac_emulate_access at (at_flags at AND NOT (ac_mask AC_ACCESS_WRITE) AND
                        NOT (ac_mask AC_ACCESS_FETCH) AND NOT (ac_mask AC_ACCESS_USER)))
                       \<lparr>expected_fault := False, expected_error := PFERR_PRESENT_MASK, ignore_pde := 0\<rparr>
                else at)
      in ac_emulate_access at (at_flags at))"

section \<open>Page tables of a vector\<close>

definition set_if :: "bool \<Rightarrow> u64 \<Rightarrow> u64 \<Rightarrow> u64" where
  "set_if b bits pte = (if b then pte OR bits else pte)"

text \<open>The entries of level 2 and of level 1; \<open>page\<close> is the page a non-leaf entry points at.\<close>

definition ac_pde :: "u32 \<Rightarrow> u64 \<Rightarrow> u64 \<Rightarrow> u64" where
  "ac_pde flags phys page =
     (let pte = (if \<not> F flags AC_PDE_PSE then set_if (F flags AC_PKU_PKEY) (push_bit 59 2) page
                 else set_if (F flags AC_PKU_PKEY) (push_bit 59 1)
                        ((phys AND PT_PSE_BASE_ADDR_MASK) OR PT_PAGE_SIZE_MASK));
          pte = set_if (F flags AC_PDE_PRESENT) PT_PRESENT_MASK pte;
          pte = set_if (F flags AC_PDE_WRITABLE) PT_WRITABLE_MASK pte;
          pte = set_if (F flags AC_PDE_USER) PT_USER_MASK pte;
          pte = set_if (F flags AC_PDE_ACCESSED) PT_ACCESSED_MASK pte;
          pte = set_if (F flags AC_PDE_DIRTY) PT_DIRTY_MASK pte;
          pte = set_if (F flags AC_PDE_NX) PT64_NX_MASK pte;
          pte = set_if (F flags AC_PDE_BIT51) (push_bit 51 1) pte;
          pte = set_if (F flags AC_PDE_BIT13) (push_bit 13 1) pte
      in pte)"

definition ac_pte :: "u32 \<Rightarrow> u64 \<Rightarrow> u64" where
  "ac_pte flags phys =
     (let pte = phys AND PT_BASE_ADDR_MASK;
          pte = set_if (F flags AC_PKU_PKEY) (push_bit 59 1) pte;
          pte = set_if (F flags AC_PTE_PRESENT) PT_PRESENT_MASK pte;
          pte = set_if (F flags AC_PTE_WRITABLE) PT_WRITABLE_MASK pte;
          pte = set_if (F flags AC_PTE_USER) PT_USER_MASK pte;
          pte = set_if (F flags AC_PTE_ACCESSED) PT_ACCESSED_MASK pte;
          pte = set_if (F flags AC_PTE_DIRTY) PT_DIRTY_MASK pte;
          pte = set_if (F flags AC_PTE_NX) PT64_NX_MASK pte;
          pte = set_if (F flags AC_PTE_BIT51) (push_bit 51 1) pte
      in pte)"

text \<open>The page of a table on the way: the given one, or the next of the pool.\<close>

definition ac_table_page :: "u64 \<Rightarrow> ac_pool \<Rightarrow> ac_pool \<times> u64" where
  "ac_table_page page pool = (if page \<noteq> 0 then (pool, page) else ac_test_alloc_pt pool)"

text \<open>The body of the loop for one level: the entry to store at \<open>a\<close>.\<close>

definition ac_setup_entry ::
    "u64 \<Rightarrow> u64 \<Rightarrow> nat \<Rightarrow> u64 \<Rightarrow> ac_test \<Rightarrow> ac_pool \<Rightarrow> ac_test \<times> ac_pool \<times> u64" where
  "ac_setup_entry pd_page pt_page i a at pool =
     (if i \<ge> 3 then
        let (pool, page) = ac_table_page pd_page pool
        in (at, pool, page OR (PT_PRESENT_MASK OR PT_WRITABLE_MASK OR PT_USER_MASK))
      else if i = 2 then
        let (pool, page) = (if F (at_flags at) AC_PDE_PSE then (pool, 0) else ac_table_page pt_page pool)
        in (at\<lparr>at_pdep := a\<rparr>, pool, ac_pde (at_flags at) (at_phys at) page)
      else (at\<lparr>at_ptep := a\<rparr>, pool, ac_pte (at_flags at) (at_phys at)))"

primrec ac_setup_loop ::
    "u64 \<Rightarrow> u64 \<Rightarrow> nat \<Rightarrow> u64 \<Rightarrow> bool \<Rightarrow> ac_test \<Rightarrow> ac_pool \<Rightarrow> cells \<Rightarrow> ac_test \<times> ac_pool \<times> cells" where
  "ac_setup_loop pd_page pt_page 0 root skip at pool m = (at, pool, m)"
| "ac_setup_loop pd_page pt_page (Suc i) root skip at pool m =
     (if Suc i \<ge> 2 \<or> \<not> F (at_flags at) AC_PDE_PSE then
        let vroot = root AND PT_BASE_ADDR_MASK;
            index = PT_INDEX (at_virt at) (Suc i);
            a = vroot + 8 * index
        in if skip \<and> Suc i \<ge> 2 \<and> index = 0
           then ac_setup_loop pd_page pt_page i (m a) skip at pool m
           else let (at, pool, pte) = ac_setup_entry pd_page pt_page (Suc i) a at pool
                in ac_setup_loop pd_page pt_page i pte False at pool (m(a := pte))
      else (at, pool, m))"

definition ac_setup_specific_pages ::
    "u64 \<Rightarrow> u64 \<Rightarrow> ac_test \<Rightarrow> ac_pool \<Rightarrow> ac_state \<Rightarrow> ac_test \<times> ac_pool \<times> ac_state" where
  "ac_setup_specific_pages pd_page pt_page at pool s =
     (let root = ac_cr3 s;
          pool = (if \<not> ac_test_enough_room pool then ac_test_reset_pt_pool pool else pool);
          at = at\<lparr>at_ptep := 0\<rparr>;
          (at, pool, m) = ac_setup_loop pd_page pt_page (page_table_levels s) root True at pool (ac_mem s)
      in (ac_set_expected_status m at, pool, s\<lparr>ac_mem := m\<rparr>))"

definition ac_test_setup_pte :: "ac_test \<Rightarrow> ac_pool \<Rightarrow> ac_state \<Rightarrow> ac_test \<times> ac_pool \<times> ac_state" where
  "ac_test_setup_pte at pool s = ac_setup_specific_pages 0 0 at pool s"

section \<open>Accesses\<close>

definition pt_match :: "u64 \<Rightarrow> u64 \<Rightarrow> u64 \<Rightarrow> bool" where
  "pt_match pte1 pte2 ignore \<longleftrightarrow> pte1 AND NOT ignore = pte2 AND NOT ignore"

text \<open>\<open>ac_test_check\<close>: only the first failed check of an access is reported.\<close>

definition ac_test_check :: "bool \<Rightarrow> ac_failure \<Rightarrow> bool \<times> ac_failure list \<Rightarrow> bool \<times> ac_failure list" where
  "ac_test_check cond f r =
     (case r of (success, l) \<Rightarrow> if \<not> success then (success, l) else if \<not> cond then (success, l)
      else (False, l @ [f]))"

definition ac_test_do_access :: "ac_hw \<Rightarrow> ac_test \<Rightarrow> ac_state \<Rightarrow> bool \<times> ac_state" where
  "ac_test_do_access hw at s =
     (let flags = at_flags at;
          s = s\<lparr>unique_n := unique_n s + 1\<rparr>;
          m = ac_mem s;
          s = s\<lparr>ac_mem := m(at_phys at := (m (at_phys at) AND NOT 0xff) OR 0xc3)\<rparr>;
          s = set_cr0_wp (F flags AC_CPU_CR0_WP) s;
          s = set_efer_nx (F flags AC_CPU_EFER_NX) s;
          s = set_cr4_pke (F flags AC_CPU_CR4_PKE) s;
          s = (if F flags AC_CPU_CR4_PKE
               then s\<lparr>ac_pkru := 0x30 OR (if F flags AC_PKU_WD then 8 else 0) OR
                        (if F flags AC_PKU_AD then 4 else 0)\<rparr> else s);
          (s, r) = set_cr4_smep hw (F flags AC_CPU_CR4_SMEP) s;
          s = (if F flags AC_ACCESS_TWICE then
                 let (m, f, e) = mem_access hw (ac_cpu.truncate s) (ac_mem s) (at_virt at) False False False
                 in s\<lparr>ac_mem := m\<rparr>
               else s);
          (m, fault, e) = mem_access hw (ac_cpu.truncate s) (ac_mem s) (at_virt at)
            (F flags AC_ACCESS_USER) (F flags AC_ACCESS_WRITE) (F flags AC_ACCESS_FETCH);
          s = s\<lparr>ac_mem := m\<rparr>;
          c = (True, ac_log s);
          c = ac_test_check (fault \<and> \<not> expected_fault at) Unexpected_fault c;
          c = ac_test_check (\<not> fault \<and> expected_fault at) Unexpected_access c;
          c = ac_test_check (fault \<and> e \<noteq> expected_error at) Bad_error_code c;
          c = ac_test_check (at_ptep at \<noteq> 0 \<and> m (at_ptep at) \<noteq> expected_pte at) Bad_pte c;
          c = ac_test_check (\<not> pt_match (m (at_pdep at)) (expected_pde at) (ignore_pde at)) Bad_pde c
      in (fst c, s\<lparr>ac_log := snd c\<rparr>))"

definition ac_test_exec ::
    "ac_hw \<Rightarrow> ac_test \<Rightarrow> ac_pool \<Rightarrow> ac_state \<Rightarrow> bool \<times> ac_test \<times> ac_pool \<times> ac_state" where
  "ac_test_exec hw at pool s =
     (let (at, pool, s) = ac_test_setup_pte at pool s; (r, s) = ac_test_do_access hw at s
      in (r, at, pool, s))"

text \<open>What is printed of a vector: its line of flag names, and the entries of its mapping.\<close>

definition ac_names :: "string list" where
  "ac_names = [''pte.p'', ''pte.rw'', ''pte.user'', ''pte.a'', ''pte.d'', ''pte.nx'', ''pte.51'',
     ''pde.p'', ''pde.rw'', ''pde.user'', ''pde.a'', ''pde.d'', ''pde.pse'', ''pde.nx'', ''pde.51'', ''pde.13'',
     ''pkru.ad'', ''pkru.wd'', ''pkey=1'', ''user'', ''write'', ''fetch'', ''twice'',
     ''efer.nx'', ''cr0.wp'', ''cr4.smep'', ''cr4.pke'']"

definition ac_test_show :: "ac_test \<Rightarrow> string" where
  "ac_test_show at =
     ''test'' @ concat (map (\<lambda>i. if at_flags at AND ac_mask i \<noteq> 0 then '' '' @ ac_names ! i else [])
       [0..<NR_AC_FLAGS]) @ '': ''"

primrec dump_loop :: "cells \<Rightarrow> ac_test \<Rightarrow> nat \<Rightarrow> u64 \<Rightarrow> (nat \<times> u64) list" where
  "dump_loop m at 0 root = []"
| "dump_loop m at (Suc i) root =
     (if Suc i \<ge> 2 \<or> \<not> F (at_flags at) AC_PDE_PSE then
        let vroot = root AND PT_BASE_ADDR_MASK;
            pte = m (vroot + 8 * PT_INDEX (at_virt at) (Suc i))
        in (Suc i, pte) # dump_loop m at i pte
      else [])"

definition dump_mapping :: "ac_test \<Rightarrow> ac_state \<Rightarrow> (nat \<times> u64) list" where
  "dump_mapping at s = dump_loop (ac_mem s) at (page_table_levels s) (ac_cr3 s)"

section \<open>The runs\<close>

text \<open>A fresh \<open>ac_test_t\<close>; its fields are set before they are read.\<close>

definition ac_test_new :: ac_test where
  "ac_test_new = \<lparr>at_flags = 0, at_virt = 0, at_phys = 0, at_ptep = 0, expected_pte = 0, at_pdep = 0,
     expected_pde = 0, ignore_pde = 0, expected_fault = False, expected_error = 0\<rparr>"

definition corrupt_hugepage_triger :: "ac_hw \<Rightarrow> ac_pool \<Rightarrow> ac_state \<Rightarrow> bool \<times> ac_pool \<times> ac_state" where
  "corrupt_hugepage_triger hw pool s =
     (let (at1, s) = ac_test_init 0x123400000000 ac_test_new s;
          (at2, s) = ac_test_init 0x666600000000 ac_test_new s;
          at2 = at2\<lparr>at_flags := ac_mask AC_CPU_CR0_WP OR ac_mask AC_PDE_PSE OR ac_mask AC_PDE_PRESENT\<rparr>;
          (at2, pool, s) = ac_test_setup_pte at2 pool s;
          (r, s) = ac_test_do_access hw at2 s
      in if \<not> r then (False, pool, s) else
      let at1 = at1\<lparr>at_flags := at_flags at2 OR ac_mask AC_PDE_WRITABLE\<rparr>;
          (at1, pool, s) = ac_test_setup_pte at1 pool s;
          (r, s) = ac_test_do_access hw at1 s
      in if \<not> r then (False, pool, s) else
      let at1 = at1\<lparr>at_flags := at_flags at1 OR ac_mask AC_ACCESS_WRITE\<rparr>;
          at1 = ac_set_expected_status (ac_mem s) at1;
          (r, s) = ac_test_do_access hw at1 s
      in if \<not> r then (False, pool, s) else
      let at2 = at2\<lparr>at_flags := at_flags at2 OR ac_mask AC_ACCESS_WRITE\<rparr>;
          at2 = ac_set_expected_status (ac_mem s) at2;
          (r, s) = ac_test_do_access hw at2 s
      in (r, pool, s))"

definition check_pfec_on_prefetch_pte :: "ac_hw \<Rightarrow> ac_pool \<Rightarrow> ac_state \<Rightarrow> bool \<times> ac_pool \<times> ac_state" where
  "check_pfec_on_prefetch_pte hw pool s =
     (let (at1, s) = ac_test_init 0x123406001000 ac_test_new s;
          (at2, s) = ac_test_init 0x123406003000 ac_test_new s;
          at1 = at1\<lparr>at_flags := ac_mask AC_PDE_PRESENT OR ac_mask AC_PTE_PRESENT\<rparr>;
          (at1, pool, s) = ac_setup_specific_pages (30 * 1024 * 1024) (30 * 1024 * 1024) at1 pool s;
          at2 = at2\<lparr>at_flags := at_flags at1 OR ac_mask AC_PTE_NX\<rparr>;
          (at2, pool, s) = ac_setup_specific_pages (30 * 1024 * 1024) (30 * 1024 * 1024) at2 pool s;
          (r, s) = ac_test_do_access hw at1 s
      in if \<not> r then (False, pool, s) else
      let (r, s) = ac_test_do_access hw at2 s
      in (r, pool, s))"

definition check_large_pte_dirty_for_nowp :: "ac_hw \<Rightarrow> ac_pool \<Rightarrow> ac_state \<Rightarrow> bool \<times> ac_pool \<times> ac_state" where
  "check_large_pte_dirty_for_nowp hw pool s =
     (let (at1, s) = ac_test_init 0x123403000000 ac_test_new s;
          (at2, s) = ac_test_init 0x666606000000 ac_test_new s;
          at2 = at2\<lparr>at_flags := ac_mask AC_PDE_PRESENT OR ac_mask AC_PDE_PSE\<rparr>;
          (at2, pool, s) = ac_test_setup_pte at2 pool s;
          (r, s) = ac_test_do_access hw at2 s
      in if \<not> r then (False, pool, s) else
      let at1 = at1\<lparr>at_flags := at_flags at2 OR ac_mask AC_ACCESS_WRITE\<rparr>;
          (at1, pool, s) = ac_test_setup_pte at1 pool s;
          (r, s) = ac_test_do_access hw at1 s
      in if \<not> r then (False, pool, s) else
      let at2 = at2\<lparr>at_flags := at_flags at2 OR ac_mask AC_ACCESS_WRITE\<rparr>;
          at2 = ac_set_expected_status (ac_mem s) at2;
          (r, s) = ac_test_do_access hw at2 s
      in (r, pool, s))"

definition check_smep_andnot_wp :: "ac_hw \<Rightarrow> ac_pool \<Rightarrow> ac_state \<Rightarrow> bool \<times> ac_pool \<times> ac_state" where
  "check_smep_andnot_wp hw pool s =
     (if cpuid_7_ebx hw AND push_bit 7 1 = 0 then (True, pool, s) else
      let (at1, s) = ac_test_init 0x123406001000 ac_test_new s;
          at1 = at1\<lparr>at_flags := ac_mask AC_PDE_PRESENT OR ac_mask AC_PTE_PRESENT OR
            ac_mask AC_PDE_USER OR ac_mask AC_PTE_USER OR ac_mask AC_PDE_ACCESSED OR
            ac_mask AC_PTE_ACCESSED OR ac_mask AC_CPU_CR4_SMEP OR ac_mask AC_CPU_CR0_WP OR
            ac_mask AC_ACCESS_WRITE\<rparr>;
          (at1, pool, s) = ac_test_setup_pte at1 pool s;
          (err_prepare, s) = ac_test_do_access hw at1 s
      in if \<not> err_prepare then (False, pool, fst (set_cr4_smep hw False s)) else
      let at1 = at1\<lparr>at_flags := at_flags at1 AND NOT (ac_mask AC_ACCESS_WRITE)\<rparr>;
          at1 = at1\<lparr>at_flags := at_flags at1 OR ac_mask AC_ACCESS_FETCH\<rparr>;
          at1 = ac_set_expected_status (ac_mem s) at1;
          (err_smep, s) = ac_test_do_access hw at1 s;
          s = fst (set_cr4_smep hw False s)
      in (err_smep, pool, s))"

text \<open>The \<open>do\<close> loop of \<open>ac_test_run\<close>: the counts of tests and of successes.\<close>

partial_function (option) ac_run_loop ::
    "ac_hw \<Rightarrow> ac_test \<Rightarrow> ac_pool \<Rightarrow> ac_state \<Rightarrow> nat \<Rightarrow> nat \<Rightarrow> (ac_pool \<times> ac_state \<times> nat \<times> nat) option" where
  "ac_run_loop hw at pool s tests successes =
     (let (r, at, pool, s) = ac_test_exec hw at pool s;
          tests = tests + 1; successes = successes + (if r then 1 else 0)
      in case ac_test_bump (invalid_mask s) (at_flags at) of
           None \<Rightarrow> None
         | Some (flags, again) \<Rightarrow>
             if again then ac_run_loop hw (at\<lparr>at_flags := flags\<rparr>) pool s tests successes
             else Some (pool, s, tests, successes))"

declare ac_run_loop.simps [code]

definition ac_probe_pke :: "ac_hw \<Rightarrow> ac_state \<Rightarrow> ac_state \<times> nat \<times> nat" where
  "ac_probe_pke hw s =
     (if cpuid_7_ecx hw AND push_bit 3 1 \<noteq> 0 then (set_cr4_pke False (set_cr4_pke True s), 0, 0)
      else let (s, r) = write_cr4_checking hw (ac_cr4 s OR X86_CR4_PKE) s
           in if r = GP_VECTOR
              then (s\<lparr>invalid_mask := invalid_mask s OR ac_mask AC_PKU_AD OR ac_mask AC_PKU_WD OR
                       ac_mask AC_PKU_PKEY OR ac_mask AC_CPU_CR4_PKE\<rparr>, 1, 1)
              else (set_cr4_pke False s, 1, 0))"

definition ac_probe_smep :: "ac_hw \<Rightarrow> ac_state \<Rightarrow> ac_state \<times> nat \<times> nat" where
  "ac_probe_smep hw s =
     (if cpuid_7_ebx hw AND push_bit 7 1 = 0
      then let (s, r) = set_cr4_smep hw True s
           in if r = GP_VECTOR then (s\<lparr>invalid_mask := invalid_mask s OR ac_mask AC_CPU_CR4_SMEP\<rparr>, 1, 1)
              else (fst (set_cr4_smep hw False s), 1, 0)
      else (s, 0, 0))"

definition ac_test_run :: "ac_hw \<Rightarrow> ac_state \<Rightarrow> (bool \<times> ac_state) option" where
  "ac_test_run hw s =
     (let (s, t1, n1) = ac_probe_pke hw s;
          (s, t2, n2) = ac_probe_smep hw s;
          pool = ac_env_int;
          (at, s) = ac_test_init 0x123400000000 ac_test_new s
      in case ac_run_loop hw at pool s (t1 + t2) (n1 + n2) of
           None \<Rightarrow> None
         | Some (pool, s, tests, successes) \<Rightarrow>
             let (c1, pool, s) = corrupt_hugepage_triger hw pool s;
                 (c2, pool, s) = check_pfec_on_prefetch_pte hw pool s;
                 (c3, pool, s) = check_large_pte_dirty_for_nowp hw pool s;
                 (c4, pool, s) = check_smep_andnot_wp hw pool s;
                 successes = successes + (\<Sum>c \<leftarrow> [c1, c2, c3, c4]. if c then 1 else 0)
             in Some (successes = tests + 4, s))"

text \<open>\<open>main\<close>: the exit status, 0 when the last run had no failure.\<close>

definition access_main :: "ac_hw \<Rightarrow> ac_state \<Rightarrow> (nat \<times> ac_state) option" where
  "access_main hw s =
     (case ac_test_run hw (s\<lparr>page_table_levels := 4\<rparr>) of
        None \<Rightarrow> None
      | Some (r, s) \<Rightarrow>
          if cpuid_7_ecx hw AND push_bit 16 1 \<noteq> 0
          then (case ac_test_run hw (setup_5level hw (s\<lparr>page_table_levels := 5\<rparr>)) of
                  None \<Rightarrow> None
                | Some (r, s) \<Rightarrow> Some (if r then 0 else 1, s))
          else Some (if r then 0 else 1, s))"

section \<open>The enumeration\<close>

text \<open>The arithmetic of \<open>ac_test_bump_one\<close>: the next number without a bit of the mask.\<close>

definition next_outside :: "int \<Rightarrow> int \<Rightarrow> int" where
  "next_outside m a = ((a OR m) + 1) AND NOT m"

definition no_common :: "int \<Rightarrow> int \<Rightarrow> bool" where
  "no_common a m \<longleftrightarrow> (\<forall>n. \<not> (bit a n \<and> bit m n))"

lemma no_common_half: "no_common a m \<Longrightarrow> no_common (a div 2) (m div 2)"
  unfolding no_common_def by (metis bit_Suc)

lemma no_common_odd: "no_common a m \<Longrightarrow> odd a \<Longrightarrow> even m"
  unfolding no_common_def by (metis bit_0)

lemma no_common_and: "no_common a m \<longleftrightarrow> a AND m = 0"
  unfolding no_common_def by (metis bit_and_iff bit_0_eq bot_apply bot_bool_def bit_eqI)

lemma next_outside_even:
  assumes "no_common a m" "even a" "even m"
  shows "next_outside m a = a + 1"
proof -
  have "(a OR m) + 1 = (a OR m) OR 1" "a + 1 = a OR 1"
    using assms by (simp_all add: or_one_eq even_or_iff)
  moreover have "((a OR m) OR 1) AND NOT m = a OR 1"
  proof (rule bit_eqI)
    fix n
    show "bit (((a OR m) OR 1) AND NOT m) n = bit (a OR 1) n"
      using assms(1,3) bit_0 [of m] unfolding no_common_def
      by (cases n) (auto simp: bit_and_iff bit_or_iff bit_not_iff bit_1_iff)
  qed
  ultimately show ?thesis by (simp only: next_outside_def)
qed

lemma next_outside_odd:
  assumes "odd a \<or> odd m"
  shows "next_outside m a = 2 * next_outside (m div 2) (a div 2)"
proof -
  let ?x = "(a div 2) OR (m div 2)"
  have "a OR m = 2 * ((a OR m) div 2) + (a OR m) mod 2" by simp
  also have "(a OR m) mod 2 = 1" using assms by (simp add: mod_2_eq_odd even_or_iff)
  also have "(a OR m) div 2 = ?x" by (simp add: drop_bit_Suc [of 0, simplified, symmetric] drop_bit_or)
  finally have "(a OR m) + 1 = 2 * (?x + 1)" by simp
  moreover have "(2 * y) AND NOT m = 2 * (y AND NOT (m div 2))" for y :: int
    by (rule bit_eqI) (auto simp: bit_and_iff bit_not_iff bit_double_iff bit_Suc [symmetric])
  ultimately show ?thesis by (simp only: next_outside_def)
qed

lemma next_outside_bounds:
  assumes "0 \<le> a" "0 \<le> m" "no_common a m"
  shows "a < next_outside m a \<and> (\<forall>b. a < b \<and> no_common b m \<longrightarrow> next_outside m a \<le> b)"
  using assms
proof (induction "nat (a + m)" arbitrary: a m rule: less_induct)
  case less
  show ?case
  proof (cases "odd a \<or> odd m")
    case False
    then show ?thesis using next_outside_even [OF less.prems(3)] by auto
  next
    case True
    let ?a = "a div 2" and ?m = "m div 2"
    have "?a + ?m < a + m" "0 \<le> ?a + ?m" using True less.prems(1,2) by presburger+
    then have "nat (?a + ?m) < nat (a + m)" by linarith
    then have IH: "?a < next_outside ?m ?a" "\<And>b. \<lbrakk>?a < b; no_common b ?m\<rbrakk> \<Longrightarrow> next_outside ?m ?a \<le> b"
      using less.hyps [of ?a ?m] less.prems no_common_half by auto
    have "2 * next_outside ?m ?a \<le> b" if b: "a < b" "no_common b m" for b
    proof -
      have "?a < b div 2" using b True no_common_odd [OF less.prems(3)] no_common_odd [OF b(2)]
        by (cases "odd a") presburger+
      then have "next_outside ?m ?a \<le> b div 2" using IH(2) no_common_half [OF b(2)] by blast
      then show ?thesis by linarith
    qed
    moreover have "a < 2 * next_outside ?m ?a" using IH(1) by linarith
    ultimately show ?thesis unfolding next_outside_odd [OF True] by blast
  qed
qed

lemma F_bit: "n < 32 \<Longrightarrow> F flags n \<longleftrightarrow> bit flags n"
  unfolding F_def ac_mask_def push_bit_of_1 by (simp only: and_exp_eq_0_iff_not_bit not_not)

lemma no_common_word: "no_common (uint (a :: u32)) (uint m) \<longleftrightarrow> a AND m = 0"
proof -
  have "uint (a AND m) = uint a AND uint m" by (simp add: unsigned_and_eq)
  then show ?thesis unfolding no_common_and by (metis unsigned_0 unsigned_word_eqI)
qed

lemma uint_lt_or:
  assumes "uint (a :: u32) < 2 ^ k" "uint m < 2 ^ k"
  shows "uint (a OR m) < 2 ^ k"
  using assms OR_upper [of "uint a" k "uint m"] by (simp add: unsigned_or_eq)

lemma ac_test_bump_one_next:
  assumes "uint a < 2 ^ 27" "uint m < 2 ^ 27"
  shows "uint (fst (ac_test_bump_one m a)) = next_outside (uint m) (uint a)"
    "snd (ac_test_bump_one m a) \<longleftrightarrow> next_outside (uint m) (uint a) < 2 ^ 27"
proof -
  have "uint (a OR m) < 2 ^ 27" using assms by (rule uint_lt_or)
  then have "uint ((a OR m) + 1) = uint (a OR m) + 1" by (simp add: uint_word_ariths)
  then have "uint ((a OR m) + 1) = (uint a OR uint m) + 1" by (simp add: unsigned_or_eq)
  moreover have "uint (x AND NOT m) = uint x AND NOT (uint m)" for x :: u32
    by (rule bit_eqI) (auto simp: bit_uint_iff bit_and_iff bit_not_iff)
  ultimately show 1: "uint (fst (ac_test_bump_one m a)) = next_outside (uint m) (uint a)"
    by (simp only: ac_test_bump_one_def Let_def fst_conv next_outside_def)
  have "snd (ac_test_bump_one m a) \<longleftrightarrow> fst (ac_test_bump_one m a) < push_bit 27 1"
    by (simp add: ac_test_bump_one_def NR_AC_FLAGS_def Let_def)
  also have "\<dots> \<longleftrightarrow> uint (fst (ac_test_bump_one m a)) < 2 ^ 27" by (simp add: word_less_def)
  finally show "snd (ac_test_bump_one m a) \<longleftrightarrow> next_outside (uint m) (uint a) < 2 ^ 27" unfolding 1 .
qed

text \<open>The vectors of a run: the words of 27 flags that avoid the disabled ones and are legal.\<close>

definition ac_vector :: "u32 \<Rightarrow> u32 \<Rightarrow> bool" where
  "ac_vector invalid f \<longleftrightarrow> uint f < 2 ^ 27 \<and> f AND invalid = 0 \<and> ac_test_legal f"

definition ac_next :: "u32 \<Rightarrow> u32 \<Rightarrow> u32 \<times> bool \<Rightarrow> bool" where
  "ac_next invalid f r \<longleftrightarrow>
     (if snd r then ac_vector invalid (fst r) \<and> f < fst r \<and> (\<forall>g. ac_vector invalid g \<and> f < g \<longrightarrow> fst r \<le> g)
      else \<forall>g. ac_vector invalid g \<longrightarrow> g \<le> f)"

lemma bump_one_least:
  assumes "uint a < 2 ^ 27" "uint m < 2 ^ 27" "a AND m = 0" and r: "ac_test_bump_one m a = (c, ret)"
  shows "a < c" "c AND m = 0" "\<lbrakk>ac_vector m g; a < g\<rbrakk> \<Longrightarrow> ret \<and> c \<le> g" "ret \<longleftrightarrow> uint c < 2 ^ 27"
proof -
  note n = ac_test_bump_one_next [OF assms(1,2)]
  have c: "uint c = next_outside (uint m) (uint a)" "ret \<longleftrightarrow> uint c < 2 ^ 27" using n r by simp_all
  note b = next_outside_bounds [of "uint a" "uint m", folded c(1)]
  have b: "uint a < uint c" "\<And>b. \<lbrakk>uint a < b; no_common b (uint m)\<rbrakk> \<Longrightarrow> uint c \<le> b"
    using b assms(3) by (simp_all add: no_common_word)
  show "a < c" using b(1) by (simp add: word_less_def)
  have "c = ((a OR m) + 1) AND NOT m" using r by (simp add: ac_test_bump_one_def Let_def)
  then show "c AND m = 0" by (intro bit_word_eqI) (simp add: bit_and_iff bit_not_iff)
  show "ret \<longleftrightarrow> uint c < 2 ^ 27" by (rule c(2))
  show "ret \<and> c \<le> g" if g: "ac_vector m g" "a < g"
  proof -
    have "uint c \<le> uint g"
      using g by (intro b(2)) (auto simp: ac_vector_def no_common_word word_less_def)
    then show ?thesis using c(2) g(1) by (simp add: ac_vector_def word_le_def)
  qed
qed

lemma ac_bump_loop_next:
  assumes "uint a < 2 ^ 27" "uint m < 2 ^ 27" "c AND m = 0" "a < c" "ret \<longleftrightarrow> uint c < 2 ^ 27"
    and "\<And>g. \<lbrakk>ac_vector m g; a < g\<rbrakk> \<Longrightarrow> ret \<and> c \<le> g"
  shows "\<exists>r. ac_bump_loop m c ret = Some r \<and> ac_next m a r"
  using assms(3-)
proof (induction "2 ^ 32 - unat c" arbitrary: c ret rule: less_induct)
  case less
  show ?case
  proof (cases "ret \<and> \<not> ac_test_legal c")
    case False
    then have "ac_bump_loop m c ret = Some (c, ret)" by (subst ac_bump_loop.simps) auto
    moreover have "ac_next m a (c, ret)"
      using False less.prems by (auto simp: ac_next_def ac_vector_def not_less intro: leI)
    ultimately show ?thesis by blast
  next
    case True
    obtain d ret' where d: "ac_test_bump_one m c = (d, ret')" by fastforce
    have c27: "uint c < 2 ^ 27" using True less.prems(3) by simp
    note n = bump_one_least [OF c27 assms(2) less.prems(1) d]
    have "unat c < unat d" using n(1) by (simp add: word_less_nat_alt)
    moreover have "unat d < 2 ^ 32" using unsigned_less [of d] by simp
    ultimately have dec: "2 ^ 32 - unat d < 2 ^ 32 - unat c" by linarith
    have "ret' \<and> d \<le> g" if g: "ac_vector m g" "a < g" for g
    proof -
      have "c \<le> g" using less.prems(4) g by blast
      moreover have "g \<noteq> c" using g(1) True by (auto simp: ac_vector_def)
      ultimately show ?thesis using n(3) [OF g(1)] by simp
    qed
    then have "\<exists>r. ac_bump_loop m d ret' = Some r \<and> ac_next m a r"
      using less.hyps [OF dec n(2) _ n(4)] less.prems(2) n(1) by force
    then show ?thesis using True d by (subst ac_bump_loop.simps) simp
  qed
qed

text \<open>
  \<open>ac_test_bump\<close> ends, and from a vector it goes to the next one: the least legal word of flags
  above it that has no disabled flag. It returns 0 only when there is none, so that the run loop
  meets every vector once, in increasing order.
\<close>

theorem ac_test_bump_next:
  assumes "uint flags < 2 ^ 27" "uint invalid < 2 ^ 27" "flags AND invalid = 0"
  shows "\<exists>r. ac_test_bump invalid flags = Some r \<and> ac_next invalid flags r"
proof -
  obtain c ret where c: "ac_test_bump_one invalid flags = (c, ret)" by fastforce
  note n = bump_one_least [OF assms c]
  show ?thesis
    using ac_bump_loop_next [OF assms(1,2) n(2,1,4,3)] by (simp add: ac_test_bump_def c)
qed

lemma ac_test_bump_next_witness:
  "ac_test_bump (ac_mask AC_PTE_PRESENT) 0 = Some (2, True) \<and> ac_next (ac_mask AC_PTE_PRESENT) 0 (2, True)"
proof -
  have "ac_test_bump (ac_mask AC_PTE_PRESENT) 0 = Some (2, True)" by code_simp
  moreover have "uint (0 :: u32) < 2 ^ 27" "uint (ac_mask AC_PTE_PRESENT) < 2 ^ 27" by code_simp+
  ultimately show ?thesis using ac_test_bump_next [of 0 "ac_mask AC_PTE_PRESENT"] by simp
qed
section \<open>The architecture's access check\<close>

text \<open>
  What the processor does with an access, from the entries of the walk: the page directory entry
  and, unless that maps a large page, the page table entry. Error codes are built by \<open>pferr\<close>:
  present, write, user, reserved, fetch and protection key.
\<close>

definition pferr :: "bool \<Rightarrow> bool \<Rightarrow> bool \<Rightarrow> bool \<Rightarrow> bool \<Rightarrow> bool \<Rightarrow> u32" where
  "pferr p w u r f k = (if p then PFERR_PRESENT_MASK else 0) OR (if w then PFERR_WRITE_MASK else 0) OR
     (if u then PFERR_USER_MASK else 0) OR (if r then PFERR_RESERVED_MASK else 0) OR
     (if f then PFERR_FETCH_MASK else 0) OR (if k then PFERR_PK_MASK else 0)"

record x86_mode =
  nxe :: bool
  wp :: bool
  smep :: bool
  pke :: bool
  pkru :: u32

definition reserved_bits :: "x86_mode \<Rightarrow> bool \<Rightarrow> u64 \<Rightarrow> bool" where
  "reserved_bits c is_large e \<longleftrightarrow> bit e 51 \<or> (bit e 63 \<and> \<not> nxe c) \<or> (is_large \<and> bit e 13)"

definition x86_rights ::
    "x86_mode \<Rightarrow> bool \<Rightarrow> bool \<Rightarrow> bool \<Rightarrow> bool \<Rightarrow> bool \<Rightarrow> bool \<Rightarrow> u64 \<Rightarrow> u32 option" where
  "x86_rights c usr wr fetch w u x leaf =
     (let key = unat (drop_bit 59 leaf AND 15);
          key_denies = (pke c \<and> u \<and> \<not> fetch \<and>
            (bit (pkru c) (2 * key) \<or> bit (pkru c) (2 * key + 1) \<and> wr \<and> (usr \<or> wp c)));
          denied = (usr \<and> \<not> u \<or> wr \<and> \<not> w \<and> (usr \<or> wp c) \<or> fetch \<and> \<not> x \<or>
            fetch \<and> smep c \<and> \<not> usr \<and> u)
      in if denied \<or> key_denies
         then Some (pferr True wr usr False (fetch \<and> (nxe c \<or> smep c)) key_denies) else None)"

text \<open>The error code of the page fault, or None when the access succeeds.\<close>

definition x86_access :: "x86_mode \<Rightarrow> bool \<Rightarrow> bool \<Rightarrow> bool \<Rightarrow> u64 \<Rightarrow> u64 \<Rightarrow> u32 option" where
  "x86_access c usr wr fetch pde pte =
     (let f = (fetch \<and> (nxe c \<or> smep c))
      in if \<not> bit pde 0 then Some (pferr False wr usr False f False)
         else if reserved_bits c (bit pde 7) pde then Some (pferr True wr usr True f False)
         else if bit pde 7 then x86_rights c usr wr fetch (bit pde 1) (bit pde 2) (\<not> bit pde 63) pde
         else if \<not> bit pte 0 then Some (pferr False wr usr False f False)
         else if reserved_bits c False pte then Some (pferr True wr usr True f False)
         else x86_rights c usr wr fetch (bit pde 1 \<and> bit pte 1) (bit pde 2 \<and> bit pte 2)
           (\<not> bit pde 63 \<and> \<not> bit pte 63) pte)"

lemma bit_if_0: "bit (if c then x else 0) i \<longleftrightarrow> c \<and> bit x i" for x :: u32
  by simp

lemma bit_pferr_masks:
  "bit PFERR_PRESENT_MASK i \<longleftrightarrow> i = 0" "bit PFERR_WRITE_MASK i \<longleftrightarrow> i = 1" "bit PFERR_USER_MASK i \<longleftrightarrow> i = 2"
  "bit PFERR_RESERVED_MASK i \<longleftrightarrow> i = 3" "bit PFERR_FETCH_MASK i \<longleftrightarrow> i = 4" "bit PFERR_PK_MASK i \<longleftrightarrow> i = 5"
  unfolding PFERR_PRESENT_MASK_def PFERR_WRITE_MASK_def PFERR_USER_MASK_def PFERR_RESERVED_MASK_def
    PFERR_FETCH_MASK_def PFERR_PK_MASK_def push_bit_of_1 bit_exp_iff by auto

lemma bit_pferr: "bit (pferr p w u r f k) i \<longleftrightarrow> i = 0 \<and> p \<or> i = 1 \<and> w \<or> i = 2 \<and> u \<or> i = 3 \<and> r \<or>
    i = 4 \<and> f \<or> i = 5 \<and> k"
  unfolding pferr_def bit_or_iff bit_if_0 bit_pferr_masks by blast

lemma pferr_ops:
  "PFERR_PRESENT_MASK = pferr True False False False False False"
  "pferr p w u r f k OR PFERR_WRITE_MASK = pferr p True u r f k"
  "pferr p w u r f k OR PFERR_USER_MASK = pferr p w True r f k"
  "pferr p w u r f k OR PFERR_RESERVED_MASK = pferr p w u True f k"
  "pferr p w u r f k OR PFERR_FETCH_MASK = pferr p w u r True k"
  "pferr p w u r f k OR PFERR_PK_MASK = pferr p w u r f True"
  "pferr p w u r f k AND NOT PFERR_PRESENT_MASK = pferr False w u r f k"
  "pferr p w u r f k AND NOT PFERR_FETCH_MASK = pferr p w u r False k"
  by (rule bit_word_eqI; simp only: bit_or_iff bit_and_iff bit_not_iff bit_pferr bit_pferr_masks
      possible_bit_word; auto)+

lemma set_fault: "(if c then at\<lparr>expected_fault := True\<rparr> else at) = at\<lparr>expected_fault := c \<or> expected_fault at\<rparr>"
  by (cases at) simp

lemma set_key_fault:
  "(if a then if b then at\<lparr>expected_fault := True, expected_error := e\<rparr>
      else if c then at\<lparr>expected_fault := True, expected_error := e\<rparr> else at else at) =
   at\<lparr>expected_fault := a \<and> (b \<or> c) \<or> expected_fault at,
      expected_error := (if a \<and> (b \<or> c) then e else expected_error at)\<rparr>"
  by (cases at) simp

text \<open>The conditions of \<open>ac_test_permissions\<close>.\<close>

definition key_denied :: "u32 \<Rightarrow> bool \<Rightarrow> bool" where
  "key_denied fl u \<longleftrightarrow> (u \<and> \<not> F fl AC_ACCESS_FETCH \<and> F fl AC_PKU_PKEY \<and> F fl AC_CPU_CR4_PKE) \<and>
    (F fl AC_PKU_AD \<or> F fl AC_ACCESS_WRITE \<and> F fl AC_PKU_WD \<and> \<not> (\<not> F fl AC_CPU_CR0_WP \<and> \<not> F fl AC_ACCESS_USER))"

definition access_denied :: "u32 \<Rightarrow> bool \<Rightarrow> bool \<Rightarrow> bool \<Rightarrow> bool" where
  "access_denied fl w u x \<longleftrightarrow> F fl AC_ACCESS_FETCH \<and> u \<and> F fl AC_CPU_CR4_SMEP \<or>
     F fl AC_ACCESS_FETCH \<and> \<not> x \<or>
     (F fl AC_ACCESS_WRITE \<and> \<not> w \<and> \<not> (\<not> F fl AC_CPU_CR0_WP \<and> \<not> F fl AC_ACCESS_USER)) \<or>
     F fl AC_ACCESS_USER \<and> \<not> u"

lemma ac_test_permissions_eq:
  "ac_test_permissions at fl w u x =
    (at\<lparr>expected_fault := key_denied fl u \<or> access_denied fl w u x \<or> expected_fault at,
        expected_error := (if key_denied fl u then expected_error at OR PFERR_PK_MASK else expected_error at)\<rparr>,
     if \<not> (key_denied fl u \<or> access_denied fl w u x \<or> expected_fault at)
     then if F fl AC_ACCESS_WRITE then PT_ACCESSED_MASK OR PT_DIRTY_MASK else PT_ACCESSED_MASK else 0)"
  unfolding ac_test_permissions_def set_fault set_key_fault
  by (cases at) (simp only: Let_def ac_test.simps ac_test.update_convs ac_test.select_convs
      key_denied_def access_denied_def prod.inject ac_test.ext_inject simp_thms disj_assoc)

lemma bit_set_if: "bit (set_if b m e) i \<longleftrightarrow> bit e i \<or> b \<and> bit m i"
  by (simp add: set_if_def bit_or_iff)

lemma bit_pt_masks:
  "bit PT_PRESENT_MASK i \<longleftrightarrow> i = 0" "bit PT_WRITABLE_MASK i \<longleftrightarrow> i = 1" "bit PT_USER_MASK i \<longleftrightarrow> i = 2"
  "bit PT_ACCESSED_MASK i \<longleftrightarrow> i = 5" "bit PT_DIRTY_MASK i \<longleftrightarrow> i = 6" "bit PT_PAGE_SIZE_MASK i \<longleftrightarrow> i = 7"
  "bit PT64_NX_MASK i \<longleftrightarrow> i = 63" "bit (push_bit 51 1 :: u64) i \<longleftrightarrow> i = 51"
  "bit (push_bit 13 1 :: u64) i \<longleftrightarrow> i = 13" "bit (push_bit 59 1 :: u64) i \<longleftrightarrow> i = 59"
  unfolding pt_mask_defs push_bit_of_1 bit_exp_iff by auto

lemma bit_push_59_2: "bit (push_bit 59 2 :: u64) i \<longleftrightarrow> i = 60"
proof -
  have "(push_bit 59 2 :: u64) = push_bit 60 1" by code_simp
  then show ?thesis unfolding push_bit_of_1 by (simp only: bit_exp_iff) auto
qed

text \<open>The frame the vectors map, and a page of the pool.\<close>

definition ac_frame :: u64 where "ac_frame = 32 * 1024 * 1024"

definition table_page :: "u64 \<Rightarrow> bool" where
  "table_page p \<longleftrightarrow> p AND PT_BASE_ADDR_MASK = p"

lemma bit_PT_BASE_ADDR_MASK: "bit PT_BASE_ADDR_MASK i \<longleftrightarrow> 12 \<le> i \<and> i < 40"
proof -
  have "PT_BASE_ADDR_MASK = mask 40 AND NOT (mask 12)"
    by (simp add: PT_BASE_ADDR_MASK_def PAGE_MASK_eq mask_eq_exp_minus_1)
  moreover have "bit (mask 40 AND NOT (mask 12) :: u64) i \<longleftrightarrow> 12 \<le> i \<and> i < 40"
    by (auto simp: bit_and_iff bit_not_iff bit_mask_64)
  ultimately show ?thesis by metis
qed

lemma bit_table_page: "\<lbrakk>table_page p; bit p i\<rbrakk> \<Longrightarrow> 12 \<le> i \<and> i < 40"
  unfolding table_page_def by (metis bit_and_iff bit_PT_BASE_ADDR_MASK)

lemma bit_ac_frame: "bit (ac_frame AND PT_PSE_BASE_ADDR_MASK) i \<longleftrightarrow> i = 25"
  "bit (ac_frame AND PT_BASE_ADDR_MASK) i \<longleftrightarrow> i = 25"
proof -
  have "ac_frame AND PT_PSE_BASE_ADDR_MASK = push_bit 25 1" "ac_frame AND PT_BASE_ADDR_MASK = push_bit 25 1"
    by code_simp+
  then show "bit (ac_frame AND PT_PSE_BASE_ADDR_MASK) i \<longleftrightarrow> i = 25"
    "bit (ac_frame AND PT_BASE_ADDR_MASK) i \<longleftrightarrow> i = 25"
    unfolding push_bit_of_1 by (simp_all only: bit_exp_iff) auto
qed

lemma ac_pde_bits:
  assumes "table_page page"
  shows "bit (ac_pde fl ac_frame page) 0 = F fl AC_PDE_PRESENT"
    "bit (ac_pde fl ac_frame page) 1 = F fl AC_PDE_WRITABLE"
    "bit (ac_pde fl ac_frame page) 2 = F fl AC_PDE_USER"
    "bit (ac_pde fl ac_frame page) 7 = F fl AC_PDE_PSE"
    "bit (ac_pde fl ac_frame page) 51 = F fl AC_PDE_BIT51"
    "bit (ac_pde fl ac_frame page) 63 = F fl AC_PDE_NX"
    "F fl AC_PDE_PSE \<Longrightarrow> bit (ac_pde fl ac_frame page) 13 = F fl AC_PDE_BIT13"
    "F fl AC_PDE_PSE \<Longrightarrow> bit (ac_pde fl ac_frame page) 59 = F fl AC_PKU_PKEY"
    "F fl AC_PDE_PSE \<Longrightarrow> \<not> bit (ac_pde fl ac_frame page) 60 \<and> \<not> bit (ac_pde fl ac_frame page) 61 \<and>
      \<not> bit (ac_pde fl ac_frame page) 62"
proof -
  have p: "\<not> bit page i" if "i < 12 \<or> 40 \<le> i" for i using bit_table_page [OF assms, of i] that by auto
  show "bit (ac_pde fl ac_frame page) 0 = F fl AC_PDE_PRESENT"
    "bit (ac_pde fl ac_frame page) 1 = F fl AC_PDE_WRITABLE"
    "bit (ac_pde fl ac_frame page) 2 = F fl AC_PDE_USER"
    "bit (ac_pde fl ac_frame page) 7 = F fl AC_PDE_PSE"
    "bit (ac_pde fl ac_frame page) 51 = F fl AC_PDE_BIT51"
    "bit (ac_pde fl ac_frame page) 63 = F fl AC_PDE_NX"
    "F fl AC_PDE_PSE \<Longrightarrow> bit (ac_pde fl ac_frame page) 13 = F fl AC_PDE_BIT13"
    "F fl AC_PDE_PSE \<Longrightarrow> bit (ac_pde fl ac_frame page) 59 = F fl AC_PKU_PKEY"
    "F fl AC_PDE_PSE \<Longrightarrow> \<not> bit (ac_pde fl ac_frame page) 60 \<and> \<not> bit (ac_pde fl ac_frame page) 61 \<and>
      \<not> bit (ac_pde fl ac_frame page) 62"
    by (cases "F fl AC_PDE_PSE"; simp add: ac_pde_def Let_def bit_set_if bit_pt_masks bit_push_59_2
        bit_ac_frame bit_or_iff p)+
qed

lemma ac_pte_bits:
  "bit (ac_pte fl ac_frame) 0 = F fl AC_PTE_PRESENT" "bit (ac_pte fl ac_frame) 1 = F fl AC_PTE_WRITABLE"
  "bit (ac_pte fl ac_frame) 2 = F fl AC_PTE_USER" "bit (ac_pte fl ac_frame) 51 = F fl AC_PTE_BIT51"
  "bit (ac_pte fl ac_frame) 63 = F fl AC_PTE_NX" "bit (ac_pte fl ac_frame) 59 = F fl AC_PKU_PKEY"
  "\<not> bit (ac_pte fl ac_frame) 60 \<and> \<not> bit (ac_pte fl ac_frame) 61 \<and> \<not> bit (ac_pte fl ac_frame) 62"
  by (simp_all add: ac_pte_def Let_def bit_set_if bit_pt_masks bit_ac_frame)

lemma leaf_key:
  assumes "bit e 59 = k" "\<not> bit e 60 \<and> \<not> bit e 61 \<and> \<not> bit e 62"
  shows "unat (drop_bit 59 e AND 15 :: u64) = (if k then 1 else 0)"
proof -
  have "(15 :: u64) = mask 4" by (simp add: mask_eq_exp_minus_1)
  moreover have "drop_bit 59 e AND mask 4 = (if k then 1 else 0)"
  proof (rule bit_word_eqI)
    fix i assume "i < LENGTH(64)"
    have "i < 4 \<Longrightarrow> i = 0 \<or> i = 1 \<or> i = 2 \<or> i = 3" by auto
    then show "bit (drop_bit 59 e AND mask 4) i = bit (if k then 1 else 0 :: u64) i"
      using assms by (auto simp: bit_and_iff bit_mask_64 bit_drop_bit_eq bit_1_iff)
  qed
  ultimately show ?thesis by simp
qed

definition ac_mode :: "u32 \<Rightarrow> x86_mode" where
  "ac_mode fl = \<lparr>nxe = F fl AC_CPU_EFER_NX, wp = F fl AC_CPU_CR0_WP, smep = F fl AC_CPU_CR4_SMEP,
     pke = F fl AC_CPU_CR4_PKE,
     pkru = 0x30 OR (if F fl AC_PKU_WD then 8 else 0) OR (if F fl AC_PKU_AD then 4 else 0)\<rparr>"

lemma ac_mode_keys:
  "bit (pkru (ac_mode fl)) 0 = False" "bit (pkru (ac_mode fl)) 1 = False"
  "bit (pkru (ac_mode fl)) 2 = F fl AC_PKU_AD" "bit (pkru (ac_mode fl)) 3 = F fl AC_PKU_WD"
proof -
  have "\<forall>wd \<in> {True, False}. \<forall>ad \<in> {True, False}.
      let r = (0x30 :: u32) OR (if wd then 8 else 0) OR (if ad then 4 else 0)
      in bit r 0 = False \<and> bit r 1 = False \<and> bit r 2 = ad \<and> bit r 3 = wd" by code_simp
  moreover have "b \<in> {True, False}" for b by simp
  ultimately show "bit (pkru (ac_mode fl)) 0 = False" "bit (pkru (ac_mode fl)) 1 = False"
    "bit (pkru (ac_mode fl)) 2 = F fl AC_PKU_AD" "bit (pkru (ac_mode fl)) 3 = F fl AC_PKU_WD"
    unfolding ac_mode_def Let_def x86_mode.simps by blast+
qed

text \<open>The rights of the architecture on a leaf are the conditions of \<open>ac_test_permissions\<close>.\<close>

lemma x86_rights_eq:
  assumes "bit leaf 59 = F fl AC_PKU_PKEY" "\<not> bit leaf 60 \<and> \<not> bit leaf 61 \<and> \<not> bit leaf 62"
    and "ac_test_legal fl"
  shows "x86_rights (ac_mode fl) (F fl AC_ACCESS_USER) (F fl AC_ACCESS_WRITE) (F fl AC_ACCESS_FETCH) w u x leaf =
    (if key_denied fl u \<or> access_denied fl w u x
     then Some (pferr True (F fl AC_ACCESS_WRITE) (F fl AC_ACCESS_USER) False
       (F fl AC_ACCESS_FETCH \<and> (F fl AC_CPU_EFER_NX \<or> F fl AC_CPU_CR4_SMEP)) (key_denied fl u))
     else None)"
proof -
  have m: "nxe (ac_mode fl) = F fl AC_CPU_EFER_NX" "wp (ac_mode fl) = F fl AC_CPU_CR0_WP"
    "smep (ac_mode fl) = F fl AC_CPU_CR4_SMEP" "pke (ac_mode fl) = F fl AC_CPU_CR4_PKE"
    by (simp_all add: ac_mode_def)
  define key where "key = unat (drop_bit 59 leaf AND 15)"
  have key: "key = (if F fl AC_PKU_PKEY then 1 else 0)" unfolding key_def by (rule leaf_key [OF assms(1,2)])
  have bits: "bit (pkru (ac_mode fl)) (2 * key) = (F fl AC_PKU_PKEY \<and> F fl AC_PKU_AD)"
    "bit (pkru (ac_mode fl)) (2 * key + 1) = (F fl AC_PKU_PKEY \<and> F fl AC_PKU_WD)"
    using ac_mode_keys [of fl] by (simp_all add: key)
  have no_both: "\<not> (F fl AC_ACCESS_USER \<and> F fl AC_CPU_CR4_SMEP)"
    using assms(3) unfolding ac_test_legal_def by argo
  have k: "(pke (ac_mode fl) \<and> u \<and> \<not> F fl AC_ACCESS_FETCH \<and>
      (bit (pkru (ac_mode fl)) (2 * key) \<or> bit (pkru (ac_mode fl)) (2 * key + 1) \<and> F fl AC_ACCESS_WRITE \<and>
        (F fl AC_ACCESS_USER \<or> wp (ac_mode fl)))) = key_denied fl u"
    unfolding bits m key_denied_def by argo
  have d: "(F fl AC_ACCESS_USER \<and> \<not> u \<or> F fl AC_ACCESS_WRITE \<and> \<not> w \<and> (F fl AC_ACCESS_USER \<or> wp (ac_mode fl)) \<or>
      F fl AC_ACCESS_FETCH \<and> \<not> x \<or> F fl AC_ACCESS_FETCH \<and> smep (ac_mode fl) \<and> \<not> F fl AC_ACCESS_USER \<and> u)
      = access_denied fl w u x"
    using no_both unfolding m access_denied_def by argo
  show ?thesis
    unfolding x86_rights_def Let_def key_def [symmetric] k d unfolding m by (simp only: disj_commute)
qed

lemma emulate_start:
  fixes at :: ac_test
  assumes "expected_error at = PFERR_PRESENT_MASK"
  shows "(let at = (if F fl AC_ACCESS_USER
                then at\<lparr>expected_error := expected_error at OR PFERR_USER_MASK\<rparr> else at);
          at = (if F fl AC_ACCESS_WRITE
                then at\<lparr>expected_error := expected_error at OR PFERR_WRITE_MASK\<rparr> else at);
          at = (if F fl AC_ACCESS_FETCH
                then at\<lparr>expected_error := expected_error at OR PFERR_FETCH_MASK\<rparr> else at);
          at = (if \<not> F fl AC_PDE_ACCESSED then at\<lparr>ignore_pde := PT_ACCESSED_MASK\<rparr> else at)
      in f at) = f (at\<lparr>expected_error := pferr True (F fl AC_ACCESS_WRITE) (F fl AC_ACCESS_USER) False
          (F fl AC_ACCESS_FETCH) False,
        ignore_pde := (if F fl AC_PDE_ACCESSED then ignore_pde at else PT_ACCESSED_MASK)\<rparr>)"
proof -
  have e: "expected_error at = pferr True False False False False False"
    using assms unfolding pferr_ops(1) .
  have s: "at\<lparr>ignore_pde := ignore_pde at\<rparr> = at" "at\<lparr>expected_error := expected_error at\<rparr> = at"
    "at\<lparr>expected_error := x, ignore_pde := ignore_pde at\<rparr> = at\<lparr>expected_error := x\<rparr>" for x
    by (cases at, simp)+
  show ?thesis
    by (cases "F fl AC_ACCESS_USER"; cases "F fl AC_ACCESS_WRITE"; cases "F fl AC_ACCESS_FETCH";
        cases "F fl AC_PDE_ACCESSED"; simp add: e pferr_ops(2-) Let_def s s(2) [unfolded e])
qed

lemma emulate_end_fields:
  "expected_fault (ac_emulate_end fl at) = expected_fault at"
  "ignore_pde (ac_emulate_end fl at) = (if expected_fault at then ignore_pde at else 0)"
  "expected_pde (ac_emulate_end fl at) = expected_pde at" "expected_pte (ac_emulate_end fl at) = expected_pte at"
  "expected_error at = pferr p w u r f k \<Longrightarrow>
     expected_error (ac_emulate_end fl at) = pferr p w u r (f \<and> (F fl AC_CPU_EFER_NX \<or> F fl AC_CPU_CR4_SMEP)) k"
  by (simp_all add: ac_emulate_end_def Let_def pferr_ops)

text \<open>
  What \<open>ac_emulate_access\<close> predicts, by the outcome of the access: the fault and its error code, or
  the accessed and dirty flags that a successful access sets in the entries.
\<close>

definition ac_predicts :: "ac_test \<Rightarrow> u32 \<Rightarrow> u32 option \<Rightarrow> ac_test \<Rightarrow> bool" where
  "ac_predicts at fl r at' \<longleftrightarrow>
     (let ad = (if F fl AC_ACCESS_WRITE then PT_ACCESSED_MASK OR PT_DIRTY_MASK else PT_ACCESSED_MASK)
      in case r of
          Some e \<Rightarrow> expected_fault at' \<and> expected_error at' = e \<and> expected_pte at' = expected_pte at
        | None \<Rightarrow> \<not> expected_fault at' \<and> ignore_pde at' = 0 \<and>
            (if F fl AC_PDE_PSE
             then expected_pde at' = expected_pde at OR ad \<and> expected_pte at' = expected_pte at
             else expected_pde at' = expected_pde at OR PT_ACCESSED_MASK \<and>
               expected_pte at' = expected_pte at OR ad))"

lemma ac_emulate_access_correct:
  assumes legal: "ac_test_legal fl" and page: "table_page page"
    and at: "\<not> expected_fault at" "expected_error at = PFERR_PRESENT_MASK"
  shows "ac_predicts at fl
    (x86_access (ac_mode fl) (F fl AC_ACCESS_USER) (F fl AC_ACCESS_WRITE) (F fl AC_ACCESS_FETCH)
      (ac_pde fl ac_frame page) (ac_pte fl ac_frame))
    (ac_emulate_access at fl)"
proof -
  note pde = ac_pde_bits [OF page, of fl] ac_pde_bits(2) [OF page, of fl, unfolded One_nat_def]
    and pte = ac_pte_bits [of fl] ac_pte_bits(2) [of fl, unfolded One_nat_def]
  have bit13: "\<not> F fl AC_PDE_PSE \<Longrightarrow> \<not> F fl AC_PDE_BIT13"
    using legal unfolding ac_test_legal_def by argo
  have m: "nxe (ac_mode fl) = F fl AC_CPU_EFER_NX" "smep (ac_mode fl) = F fl AC_CPU_CR4_SMEP"
    by (simp_all add: ac_mode_def)
  let ?at = "at\<lparr>expected_error := pferr True (F fl AC_ACCESS_WRITE) (F fl AC_ACCESS_USER) False
          (F fl AC_ACCESS_FETCH) False,
        ignore_pde := (if F fl AC_PDE_ACCESSED then ignore_pde at else PT_ACCESSED_MASK)\<rparr>"
  note start = ac_emulate_access_def emulate_start [OF at(2)]
  note rights = x86_rights_eq [OF _ _ legal]
  note simps = ac_predicts_def Let_def emulate_end_fields pferr_ops(2-) ac_invalid_entry_def at(1)
  consider (absent) "\<not> F fl AC_PDE_PRESENT"
    | (res) "F fl AC_PDE_PRESENT" "reserved_bits (ac_mode fl) (F fl AC_PDE_PSE) (ac_pde fl ac_frame page)"
    | (pse) "F fl AC_PDE_PRESENT" "\<not> reserved_bits (ac_mode fl) (F fl AC_PDE_PSE) (ac_pde fl ac_frame page)"
        "F fl AC_PDE_PSE"
    | (no_pte) "F fl AC_PDE_PRESENT" "\<not> reserved_bits (ac_mode fl) (F fl AC_PDE_PSE) (ac_pde fl ac_frame page)"
        "\<not> F fl AC_PDE_PSE" by blast
  then show ?thesis
  proof cases
    case absent
    then show ?thesis unfolding start by (simp add: simps x86_access_def pde m)
  next
    case res
    then have "F fl AC_PDE_BIT51 \<or> F fl AC_PDE_BIT13 \<or> F fl AC_PDE_NX \<and> \<not> F fl AC_CPU_EFER_NX"
      using pde m by (auto simp: reserved_bits_def)
    then show ?thesis using res unfolding start by (simp add: simps x86_access_def pde m)
  next
    case pse
    then have v: "\<not> F fl AC_PDE_BIT51" "\<not> F fl AC_PDE_BIT13" "\<not> (F fl AC_PDE_NX \<and> \<not> F fl AC_CPU_EFER_NX)"
      using pde m by (auto simp: reserved_bits_def)
    show ?thesis using v pse unfolding start
      by (simp add: simps x86_access_def pde m rights ac_test_permissions_eq)
  next
    case no_pte
    then have v: "\<not> F fl AC_PDE_BIT51" "\<not> F fl AC_PDE_BIT13" "\<not> (F fl AC_PDE_NX \<and> \<not> F fl AC_CPU_EFER_NX)"
      using pde m bit13 by (auto simp: reserved_bits_def)
    show ?thesis using v no_pte unfolding start
      by (simp add: simps x86_access_def pde pte m rights ac_test_permissions_eq reserved_bits_def) blast
  qed
qed

text \<open>
  C6: For every legal vector, \<open>ac_emulate_access\<close> predicts exactly what the architecture does with the
  entries the vector stands for: whether the access faults, the error code of the fault, and
  otherwise the accessed and dirty flags it sets.
\<close>

theorem ac_emulate_access_predicts:
  assumes "ac_test_legal fl" "table_page page"
    and "\<not> expected_fault at" "expected_error at = PFERR_PRESENT_MASK"
  shows "ac_predicts at fl
    (x86_access (ac_mode fl) (F fl AC_ACCESS_USER) (F fl AC_ACCESS_WRITE) (F fl AC_ACCESS_FETCH)
      (ac_pde fl ac_frame page) (ac_pte fl ac_frame))
    (ac_emulate_access at fl)"
  using assms by (rule ac_emulate_access_correct)

text \<open>A user write to a read-only page: the prediction is a fault with the error code 7.\<close>

lemma ac_emulate_access_predicts_witness:
  "expected_error (ac_emulate_access (ac_test_new\<lparr>expected_error := PFERR_PRESENT_MASK\<rparr>) 0x180785) = 7"
proof -
  have "ac_test_legal 0x180785" "table_page 0x2100000" unfolding table_page_def by code_simp+
  from ac_emulate_access_predicts [OF this, of "ac_test_new\<lparr>expected_error := PFERR_PRESENT_MASK\<rparr>"]
  have "ac_predicts (ac_test_new\<lparr>expected_error := PFERR_PRESENT_MASK\<rparr>) 0x180785
    (x86_access (ac_mode 0x180785) (F 0x180785 AC_ACCESS_USER) (F 0x180785 AC_ACCESS_WRITE)
      (F 0x180785 AC_ACCESS_FETCH) (ac_pde 0x180785 ac_frame 0x2100000) (ac_pte 0x180785 ac_frame))
    (ac_emulate_access (ac_test_new\<lparr>expected_error := PFERR_PRESENT_MASK\<rparr>) 0x180785)"
    by (simp add: ac_test_new_def)
  moreover have "x86_access (ac_mode 0x180785) (F 0x180785 AC_ACCESS_USER) (F 0x180785 AC_ACCESS_WRITE)
      (F 0x180785 AC_ACCESS_FETCH) (ac_pde 0x180785 ac_frame 0x2100000) (ac_pte 0x180785 ac_frame) = Some 7"
    by code_simp
  ultimately show ?thesis by (simp add: ac_predicts_def Let_def)
qed
section \<open>The pool\<close>

text \<open>The pool of tables between 33M and 120M, used up to a page boundary.\<close>

definition pool_ok :: "ac_pool \<Rightarrow> bool" where
  "pool_ok pool \<longleftrightarrow> pt_pool pool = 33 * 2 ^ 20 \<and> pt_pool_size pool = 87 * 2 ^ 20 \<and>
     unat (pt_pool_current pool) mod 4096 = 0 \<and> unat (pt_pool_current pool) \<le> 87 * 2 ^ 20"

definition pool_room :: "nat \<Rightarrow> ac_pool \<Rightarrow> bool" where
  "pool_room n pool \<longleftrightarrow> pool_ok pool \<and> unat (pt_pool_current pool) + 4096 * n \<le> 87 * 2 ^ 20"

lemma alloc_pt_room:
  assumes "pool_room (Suc n) pool" "ac_test_alloc_pt pool = (pool', p)"
  shows "pool_room n pool'" "33 * 2 ^ 20 \<le> unat p" "unat p + 4096 \<le> 120 * 2 ^ 20"
proof -
  have c: "unat (pt_pool_current pool + 4096) = unat (pt_pool_current pool) + 4096"
    using assms(1) by (simp add: pool_room_def unat_word_ariths)
  have "(unat (pt_pool_current pool) + 4096) mod 4096 = 0"
    using assms(1) by (simp add: pool_room_def pool_ok_def)
  then show "pool_room n pool'"
    using assms c by (auto simp: pool_room_def pool_ok_def ac_test_alloc_pt_def)
  have "unat p = 33 * 2 ^ 20 + unat (pt_pool_current pool)"
    using assms by (auto simp: pool_room_def pool_ok_def ac_test_alloc_pt_def unat_word_ariths unsigned_ucast_eq take_bit_nat_eq_self)
  then show "33 * 2 ^ 20 \<le> unat p" "unat p + 4096 \<le> 120 * 2 ^ 20"
    using assms(1) by (simp_all add: pool_room_def)
qed

lemma table_page_room:
  assumes "pool_room (Suc n) pool" "ac_table_page page pool = (pool', p)"
  shows "pool_room n pool'"
  using assms alloc_pt_room(1) [OF assms(1)]
  by (auto simp: ac_table_page_def pool_room_def split: if_splits)

lemma ac_setup_entry_room:
  assumes "pool_room i pool" "ac_setup_entry pd_page pt_page (Suc i) a at pool = (at', pool', pte)"
  shows "pool_room (i - 1) pool'"
proof (cases "i = 0")
  case True
  then show ?thesis using assms by (simp add: ac_setup_entry_def)
next
  case False
  then have "pool_room (Suc (i - 1)) pool" using assms(1) by simp
  note t = table_page_room [OF this]
  have "pool_room (i - 1) pool" using assms(1) by (auto simp: pool_room_def)
  then show ?thesis
    using assms(2) t [of pd_page] t [of pt_page] False
    by (cases "ac_table_page pd_page pool"; cases "ac_table_page pt_page pool")
      (auto simp: ac_setup_entry_def split: if_splits)
qed

lemma ac_setup_loop_room:
  assumes "pool_room (i - 1) pool" "ac_setup_loop pd_page pt_page i root skip at pool m = (at', pool', m')"
  shows "pool_ok pool'"
  using assms
proof (induction i arbitrary: root skip at pool m)
  case (Suc i)
  have room: "pool_room i pool" "pool_room (i - 1) pool" using Suc.prems(1) by (auto simp: pool_room_def)
  show ?case
    using Suc.prems(2) Suc.IH [OF room(2)] Suc.IH [OF ac_setup_entry_room [OF room(1)]] room(1)
    by (auto simp: Let_def pool_room_def split: if_splits prod.splits)
qed (simp add: pool_room_def)

text \<open>
  The tables of a vector never leave the pool: when a set-up starts, with at most five levels, the
  pool is inside its region, so each page it takes is between 33M and 120M, and it is inside its
  region again afterwards.
\<close>

theorem ac_setup_stays_in_pool:
  assumes "pool_ok pool" "page_table_levels s \<le> 5"
    and "ac_setup_specific_pages pd_page pt_page at pool s = (at', pool', s')"
  shows "pool_ok pool'"
proof -
  define p where "p = (if \<not> ac_test_enough_room pool then ac_test_reset_pt_pool pool else pool)"
  have room: "pool_room 5 p"
  proof (cases "ac_test_enough_room pool")
    case True
    have "unat (ucast (pt_pool_current pool) + 5 * PAGE_SIZE :: u64) = unat (pt_pool_current pool) + 5 * 4096"
      using assms(1) by (simp add: pool_ok_def unat_word_ariths unsigned_ucast_eq take_bit_nat_eq_self)
    then have "unat (pt_pool_current pool) + 4096 * 5 \<le> 87 * 2 ^ 20"
      using True assms(1) by (simp add: ac_test_enough_room_def pool_ok_def word_le_nat_alt unsigned_ucast_eq take_bit_nat_eq_self)
    then show ?thesis using True assms(1) by (simp add: p_def pool_room_def)
  next
    case False
    then show ?thesis using assms(1) by (simp add: p_def pool_room_def pool_ok_def ac_test_reset_pt_pool_def)
  qed
  have "pool_room (page_table_levels s - 1) p" using room assms(2) by (auto simp: pool_room_def)
  then show ?thesis
    using assms(3) ac_setup_loop_room
    by (auto simp: ac_setup_specific_pages_def p_def [symmetric] Let_def split: prod.splits)
qed

lemma ac_env_int_ok: "pool_ok ac_env_int"
  by (simp add: pool_ok_def ac_env_int_def)

lemma ac_setup_stays_in_pool_witness:
  "\<forall>s :: ac_state. pool_ok (fst (snd (ac_setup_specific_pages 0 0 ac_test_new ac_env_int
     (s\<lparr>page_table_levels := 4\<rparr>))))"
proof
  fix s :: ac_state
  show "pool_ok (fst (snd (ac_setup_specific_pages 0 0 ac_test_new ac_env_int (s\<lparr>page_table_levels := 4\<rparr>))))"
    by (rule ac_setup_stays_in_pool [OF ac_env_int_ok, of "s\<lparr>page_table_levels := 4\<rparr>" 0 0 ac_test_new])
      (simp_all add: prod_eq_iff)
qed

text \<open>The exit status is that of the last run: with 5-level paging, a failed first run is forgotten.\<close>

lemma access_main_last_run:
  assumes "cpuid_7_ecx hw AND push_bit 16 1 \<noteq> 0" "ac_test_run hw (s\<lparr>page_table_levels := 4\<rparr>) = Some (r1, s1)"
    and "ac_test_run hw (setup_5level hw (s1\<lparr>page_table_levels := 5\<rparr>)) = Some (True, s2)"
  shows "access_main hw s = Some (0, s2)"
  using assms by (simp add: access_main_def)
end
