(* ===== verification/AllocPhys.thy ===== *)
theory AllocPhys
  imports X86Vm
begin

text \<open>
  The early allocator, \<open>lib/alloc_phys.c\<close>: physical memory from \<open>phys_base\<close> up to \<open>phys_top\<close> is given
  out from the bottom, and each allocation is logged in a table of 256 regions. The state is that of
  the page tables with the allocator's variables, and with the allocator \<open>alloc_ops\<close> points at, which
  the allocators of \<open>lib/alloc_page.c\<close> and \<open>lib/vmalloc.c\<close> replace. The spinlock is left out: one
  thread runs.
\<close>

definition PHYS_ALLOC_NR_REGIONS :: nat where "PHYS_ALLOC_NR_REGIONS = 256"
definition DEFAULT_MINIMUM_ALIGNMENT :: u64 where "DEFAULT_MINIMUM_ALIGNMENT = 32"
definition INVALID_PHYS_ADDR :: u64 where "INVALID_PHYS_ADDR = NOT 0"

datatype alloc_ops = Early_ops | Page_ops | Vmalloc_ops

record heap_state = vm_state +
  phys_base :: u64
  phys_top :: u64
  regions :: "(u64 \<times> u64) list"
  early_align_min :: u64
  warned :: bool
  ops :: alloc_ops
  vfree_top :: u64
  page_root :: u64

text \<open>The lines \<open>phys_alloc_show\<close> prints: the bounds of the logged regions, then of the free memory.\<close>

definition phys_alloc_show :: "'a heap_state_scheme \<Rightarrow> u64 \<times> (u64 \<times> u64) list \<times> u64 \<times> u64" where
  "phys_alloc_show s = (early_align_min s, map (\<lambda>(b, z). (b, b + z - 1)) (regions s),
     phys_base s, phys_top s - 1)"

definition phys_alloc_init :: "u64 \<Rightarrow> u64 \<Rightarrow> 'a heap_state_scheme \<Rightarrow> 'a heap_state_scheme" where
  "phys_alloc_init base_addr sz s =
     s\<lparr>phys_base := base_addr, phys_top := base_addr + sz, regions := []\<rparr>"

definition phys_alloc_set_minimum_alignment ::
    "u64 \<Rightarrow> 'a heap_state_scheme \<Rightarrow> err + 'a heap_state_scheme" where
  "phys_alloc_set_minimum_alignment align s =
     bindE (assertE (align \<noteq> 0 \<and> align AND (align - 1) = 0)) (\<lambda>_. Inr (s\<lparr>early_align_min := align\<rparr>))"

definition phys_alloc_aligned_safe ::
    "u64 \<Rightarrow> u64 \<Rightarrow> 'a heap_state_scheme \<Rightarrow> err + ('a heap_state_scheme \<times> u64)" where
  "phys_alloc_aligned_safe sz align s =
     (let size_orig = sz; top_safe = phys_top s
      in bindE (assertE (phys_base s < top_safe)) (\<lambda>_.
         let a = ALIGN (phys_base s) align; sz = sz + (a - phys_base s)
         in if top_safe - phys_base s < sz then Inr (s, INVALID_PHYS_ADDR)
            else let s = s\<lparr>phys_base := phys_base s + sz\<rparr>;
                     s = (if length (regions s) < PHYS_ALLOC_NR_REGIONS
                          then s\<lparr>regions := regions s @ [(a, size_orig)]\<rparr>
                          else if \<not> warned s then s\<lparr>warned := True\<rparr> else s)
                 in Inr (s, a)))"

text \<open>The entry written here is not checked against the size of the table.\<close>

definition phys_alloc_get_unused :: "'a heap_state_scheme \<Rightarrow> err + ('a heap_state_scheme \<times> u64 \<times> u64)" where
  "phys_alloc_get_unused s =
     (let b = phys_base s; t = phys_top s
      in if b = t then Inr (s, b, t)
         else if PHYS_ALLOC_NR_REGIONS \<le> length (regions s) then Inl Out_of_bounds
         else Inr (s\<lparr>regions := regions s @ [(b, t - b)], phys_base := t\<rparr>, b, t))"

definition early_memalign :: "u64 \<Rightarrow> u64 \<Rightarrow> 'a heap_state_scheme \<Rightarrow> err + ('a heap_state_scheme \<times> u64)" where
  "early_memalign alignment sz s =
     bindE (assertE (alignment \<noteq> 0 \<and> alignment AND (alignment - 1) = 0)) (\<lambda>_.
     bindE (phys_alloc_aligned_safe sz alignment s) (\<lambda>(s, a).
     Inr (s, if a = INVALID_PHYS_ADDR then 0 else a)))"

section \<open>The invariant\<close>

text \<open>The logged regions lie in order, without overlap, between the start and the free memory.\<close>

fun regions_in :: "nat \<Rightarrow> (u64 \<times> u64) list \<Rightarrow> nat \<Rightarrow> bool" where
  "regions_in lo [] hi \<longleftrightarrow> lo \<le> hi"
| "regions_in lo ((b, z) # rs) hi \<longleftrightarrow> lo \<le> unat b \<and> regions_in (unat b + unat z) rs hi"

definition phys_inv :: "u64 \<Rightarrow> 'a heap_state_scheme \<Rightarrow> bool" where
  "phys_inv start s \<longleftrightarrow> regions_in (unat start) (regions s) (unat (phys_base s)) \<and>
     phys_base s \<le> phys_top s \<and> length (regions s) \<le> PHYS_ALLOC_NR_REGIONS"

lemma regions_in_le: "regions_in lo rs hi \<Longrightarrow> lo \<le> hi"
  by (induction lo rs hi rule: regions_in.induct) auto

lemma regions_in_mono: "regions_in lo rs hi \<Longrightarrow> hi \<le> hi' \<Longrightarrow> regions_in lo rs hi'"
  by (induction lo rs hi rule: regions_in.induct) auto

lemma regions_in_snoc:
  "regions_in lo rs hi \<Longrightarrow> hi \<le> unat b \<Longrightarrow> unat b + unat z \<le> hi' \<Longrightarrow> regions_in lo (rs @ [(b, z)]) hi'"
  by (induction lo rs hi rule: regions_in.induct) auto

lemma regions_in_disjoint:
  assumes "regions_in lo rs hi" "i < j" "j < length rs"
  shows "unat (fst (rs ! i)) + unat (snd (rs ! i)) \<le> unat (fst (rs ! j))"
  using assms
proof (induction lo rs hi arbitrary: i j rule: regions_in.induct)
  case (2 lo b z rs hi)
  show ?case
  proof (cases i)
    case 0
    have "lo' \<le> unat (fst (rs' ! k))" if "regions_in lo' rs' hi" "k < length rs'" for lo' rs' k
      using that by (induction lo' rs' hi arbitrary: k rule: regions_in.induct)
        (force simp: nth_Cons split: nat.splits)+
    then show ?thesis using 2 0 by (cases j) auto
  next
    case (Suc i')
    then show ?thesis using 2 by (cases j) auto
  qed
qed simp

text \<open>How far \<open>ALIGN\<close> moves an address, also when that leaves the address space.\<close>

lemma ALIGN_gap:
  assumes k: "k < 64"
  shows "unat (ALIGN b (2 ^ k) - b) < 2 ^ k"
    "unat b + unat (ALIGN b (2 ^ k) - b) < 2 ^ 64 \<Longrightarrow>
      unat (ALIGN b (2 ^ k)) = unat b + unat (ALIGN b (2 ^ k) - b) \<and> unat (ALIGN b (2 ^ k)) mod 2 ^ k = 0"
proof -
  let ?a = "ALIGN b (2 ^ k)"
  have pos: "(0 :: nat) < 2 ^ k" by simp
  have "unat ?a - unat b < 2 ^ k \<and> unat b \<le> unat ?a \<and> unat ?a mod 2 ^ k = 0
    \<or> unat b + (2 ^ k - 1) \<ge> 2 ^ 64 \<and> ?a = 0"
  proof (cases "unat b + (2 ^ k - 1) < 2 ^ 64")
    case True
    define q where "q = (unat b + (2 ^ k - 1)) div 2 ^ k"
    have a: "unat ?a = q * 2 ^ k" using ALIGN_unat [OF k True] by (simp add: q_def)
    have "q * 2 ^ k \<le> unat b + (2 ^ k - 1)" "unat b + (2 ^ k - 1) < 2 ^ k + q * 2 ^ k"
      using times_div_less_eq_dividend [of "2 ^ k" "unat b + (2 ^ k - 1)"]
        dividend_less_times_div [of "2 ^ k" "unat b + (2 ^ k - 1)"] pos by (simp_all add: q_def mult.commute)
    then show ?thesis using a pos by auto
  next
    case False
    have m: "unat (mask k :: u64) = 2 ^ k - 1"
      using k by (simp add: unat_sub unat_power2_64 mask_eq_exp_minus_1 word_le_nat_alt)
    have "?a = (b + mask k) AND NOT (mask k)" using k by (simp add: ALIGN_def ALIGN_MASK_def pow2_minus_1)
    then have a: "unat ?a = unat (b + mask k) - unat (b + mask k) mod 2 ^ k" by (simp add: and_not_mask_unat)
    have lt: "unat b < 2 ^ 64" using unat_lt_64 [of b] by simp
    have "(2 :: nat) ^ k \<le> 2 ^ 63" using k by (intro power_increasing) auto
    then have "unat b + (2 ^ k - 1) < 2 ^ 64 + 2 ^ 64" using lt by (simp del: unat_lt_64)
    then have "unat b + (2 ^ k - 1) - 2 ^ 64 < 2 ^ 64" "2 ^ 64 \<le> unat b + (2 ^ k - 1)"
      using False by simp_all
    then have "(unat b + (2 ^ k - 1)) mod 2 ^ 64 = unat b + (2 ^ k - 1) - 2 ^ 64"
      by (metis le_mod_geq mod_less)
    then have "unat (b + mask k) = unat b + (2 ^ k - 1) - 2 ^ 64" by (simp add: unat_word_ariths m)
    then have "unat (b + mask k) < 2 ^ k" using lt pos by linarith
    then have "unat ?a = 0" unfolding a by simp
    then have "?a = 0" by (simp only: unat_eq_0)
    then show ?thesis using False by simp
  qed
  then consider (fits) "unat ?a - unat b < 2 ^ k" "unat b \<le> unat ?a" "unat ?a mod 2 ^ k = 0"
    | (wraps) "unat b + (2 ^ k - 1) \<ge> 2 ^ 64" "?a = 0" by (elim disjE conjE)
  then have "unat (?a - b) < 2 ^ k \<and> (unat b + unat (?a - b) < 2 ^ 64 \<longrightarrow>
      unat ?a = unat b + unat (?a - b) \<and> unat ?a mod 2 ^ k = 0)"
  proof cases
    case fits
    then show ?thesis by (simp add: unat_sub_le word_le_nat_alt)
  next
    case wraps
    have pk: "(2 :: nat) ^ k \<le> 2 ^ 63" using k by (intro power_increasing) auto
    then have "0 < unat b" using wraps(1) by (cases "unat b") auto
    then have "unat (- b) = 2 ^ 64 - unat b" using unat_sub_if_size [of 0 b] by (simp add: word_size)
    then have "unat (?a - b) = 2 ^ 64 - unat b" "unat b < 2 ^ 64"
      using wraps(2) unat_lt_64 [of b] by simp_all
    then show ?thesis using wraps(1) pos by linarith
  qed
  then show "unat (?a - b) < 2 ^ k" "unat b + unat (?a - b) < 2 ^ 64 \<Longrightarrow>
      unat ?a = unat b + unat (?a - b) \<and> unat ?a mod 2 ^ k = 0" by blast+
qed

text \<open>What a call of \<open>phys_alloc_aligned_safe\<close> does when its size does not wrap around.\<close>

definition phys_gave :: "u64 \<Rightarrow> u64 \<Rightarrow> u64 \<Rightarrow> 'a heap_state_scheme \<Rightarrow> 'a heap_state_scheme \<Rightarrow> u64 \<Rightarrow> bool" where
  "phys_gave start sz align s s' a \<longleftrightarrow> unat a mod unat align = 0 \<and> unat (phys_base s) \<le> unat a \<and>
     unat a + unat sz = unat (phys_base s') \<and> phys_top s' = phys_top s \<and> phys_inv start s' \<and>
     cells s' = cells s \<and> (length (regions s) < PHYS_ALLOC_NR_REGIONS \<longrightarrow> regions s' = regions s @ [(a, sz)])"

lemma phys_alloc_cases:
  assumes inv: "phys_inv start s" and al: "is_power_of_2 align"
    and nowrap: "unat sz + unat align \<le> 2 ^ 64" "phys_base s < phys_top s"
  shows "phys_alloc_aligned_safe sz align s = Inr (s, INVALID_PHYS_ADDR) \<or>
    (\<exists>s' a. phys_alloc_aligned_safe sz align s = Inr (s', a) \<and> phys_gave start sz align s s' a)"
proof -
  obtain k where k: "k < 64" "align = 2 ^ k" using is_power_of_2_cases [OF al] .
  have ak: "unat align = 2 ^ k" using k by (simp add: unat_power2_64)
  let ?b = "phys_base s"
  define a where "a = ALIGN ?b align"
  define nb where "nb = ?b + (sz + (a - ?b))"
  let ?d = "unat (a - ?b)"
  note gap = ALIGN_gap [OF k(1), of ?b, folded k(2), folded a_def]
  have run: "phys_alloc_aligned_safe sz align s =
    (if phys_top s - ?b < sz + (a - ?b) then Inr (s, INVALID_PHYS_ADDR)
     else Inr ((let s = s\<lparr>phys_base := nb\<rparr>
       in if length (regions s) < PHYS_ALLOC_NR_REGIONS then s\<lparr>regions := regions s @ [(a, sz)]\<rparr>
          else if \<not> warned s then s\<lparr>warned := True\<rparr> else s), a))"
    using nowrap(2) by (simp add: phys_alloc_aligned_safe_def a_def nb_def Let_def)
  have need: "unat (sz + (a - ?b)) = unat sz + ?d"
    using gap(1) nowrap(1) ak by (intro unat_add_noov) simp
  have room: "unat (phys_top s - ?b) = unat (phys_top s) - unat ?b"
    using nowrap(2) by (simp add: unat_sub_le)
  have bt: "unat ?b < unat (phys_top s)" using nowrap(2) by (simp add: word_less_nat_alt)
  show ?thesis
  proof (cases "phys_top s - ?b < sz + (a - ?b)")
    case True
    then show ?thesis unfolding run by simp
  next
    case False
    then have le: "unat ?b + (unat sz + ?d) \<le> unat (phys_top s)"
      using bt by (simp add: word_less_nat_alt need room not_less)
    moreover have "unat (phys_top s) < 2 ^ 64" using unat_lt_64 [of "phys_top s"] by simp
    ultimately have "unat ?b + ?d < 2 ^ 64" by linarith
    then have a: "unat a = unat ?b + ?d" "unat a mod 2 ^ k = 0" using gap(2) by blast+
    have n: "unat nb = unat ?b + (unat sz + ?d)"
      using le_less_trans [OF le \<open>unat (phys_top s) < 2 ^ 64\<close>]
      unfolding nb_def by (subst unat_add_noov) (simp_all only: need)
    have ends: "unat a + unat sz = unat nb" "nb \<le> phys_top s" "unat ?b \<le> unat a"
      using n a(1) le by (simp_all add: word_le_nat_alt)
    have rs: "regions_in (unat start) (regions s) (unat nb)"
      "regions_in (unat start) (regions s @ [(a, sz)]) (unat nb)"
      using inv ends by (auto simp: phys_inv_def intro: regions_in_mono regions_in_snoc)
    have "length (regions s) \<le> PHYS_ALLOC_NR_REGIONS" using inv by (simp add: phys_inv_def)
    then show ?thesis
      using False rs ends a(2) unfolding run by (simp add: phys_gave_def phys_inv_def Let_def ak)
  qed
qed


definition heap_sample :: heap_state where
  "heap_sample = \<lparr>cells = (\<lambda>_. 0), freelist = 0, cr0_reg = 0, cr3_reg = 0, phys_base = 0x1010,
     phys_top = 0x9000, regions = [], early_align_min = 32, warned = False, ops = Early_ops,
     vfree_top = 0, page_root = 0\<rparr>"


text \<open>
  Without that hypothesis the size can wrap around: a request for almost the whole address space
  succeeds, and the free memory then starts below the returned block.
\<close>

lemma phys_alloc_wraps:
  "\<exists>s'. phys_alloc_aligned_safe (NOT 0) 32 heap_sample = Inr (s', 0x1020) \<and> phys_base s' = 0x101f"
  by (simp add: phys_alloc_aligned_safe_def heap_sample_def Let_def ALIGN_def ALIGN_MASK_def
      PHYS_ALLOC_NR_REGIONS_def)

end
