(* ===== verification/Vmalloc.thy ===== *)
theory Vmalloc
  imports AllocPhys
begin

text \<open>
  The virtual allocator, \<open>lib/vmalloc.c\<close>: addresses are taken downwards from \<open>vfree_top\<close>, and each
  page of an allocation is a page of the page allocator mapped by \<open>install_page\<close>. \<open>setup_vm\<close> moves
  the memory the early allocator has left to the page allocator and turns paging on.
\<close>

definition alloc_vpages :: "u64 \<Rightarrow> 'a heap_state_scheme \<Rightarrow> 'a heap_state_scheme \<times> u64" where
  "alloc_vpages nr s = (let s = s\<lparr>vfree_top := vfree_top s - PAGE_SIZE * nr\<rparr> in (s, vfree_top s))"

definition alloc_vpage :: "'a heap_state_scheme \<Rightarrow> 'a heap_state_scheme \<times> u64" where
  "alloc_vpage s = alloc_vpages 1 s"

definition init_alloc_vpage :: "u64 \<Rightarrow> 'a heap_state_scheme \<Rightarrow> 'a heap_state_scheme" where
  "init_alloc_vpage t s = s\<lparr>vfree_top := t\<rparr>"

primrec vmap_loop :: "nat \<Rightarrow> u64 \<Rightarrow> u64 \<Rightarrow> 'a heap_state_scheme \<Rightarrow> 'a heap_state_scheme" where
  "vmap_loop 0 phys p s = s"
| "vmap_loop (Suc n) phys p s =
     vmap_loop n (phys + PAGE_SIZE) (p + PAGE_SIZE) (fst (install_page (page_root s) phys p s))"

definition vmap :: "u64 \<Rightarrow> u64 \<Rightarrow> 'a heap_state_scheme \<Rightarrow> 'a heap_state_scheme \<times> u64" where
  "vmap phys sz s =
     (let sz = (sz + PAGE_SIZE - 1) AND NOT (PAGE_SIZE - 1);
          n = (ucast (sz div PAGE_SIZE) :: u32);
          (s, mem) = alloc_vpages (ucast n) s;
          phys = phys AND NOT (PAGE_SIZE - 1)
      in (vmap_loop (unat n) phys mem s, mem))"

primrec vm_memalign_loop :: "nat \<Rightarrow> u64 \<Rightarrow> 'a heap_state_scheme \<Rightarrow> 'a heap_state_scheme" where
  "vm_memalign_loop 0 p s = s"
| "vm_memalign_loop (Suc n) p s =
     (let (s, pa) = alloc_page s; s = fst (install_page (page_root s) pa p s)
      in vm_memalign_loop n (p + PAGE_SIZE) s)"

definition vm_memalign :: "u64 \<Rightarrow> u64 \<Rightarrow> 'a heap_state_scheme \<Rightarrow> err + ('a heap_state_scheme \<times> u64)" where
  "vm_memalign alignment sz s =
     bindE (assertE (alignment \<le> PAGE_SIZE)) (\<lambda>_.
     let sz = (sz + PAGE_SIZE - 1) AND NOT (PAGE_SIZE - 1);
         n = (ucast (sz div PAGE_SIZE) :: u32);
         (s, mem) = alloc_vpages (ucast n) s
     in Inr (vm_memalign_loop (unat n) mem s, mem))"

text \<open>The loop of \<open>vm_free\<close> ends only if the size is a multiple of the page size.\<close>

partial_function (option) vm_free_loop ::
    "u64 \<Rightarrow> u64 \<Rightarrow> 'a heap_state_scheme \<Rightarrow> (err + 'a heap_state_scheme) option" where
  "vm_free_loop mem sz s =
     (if sz \<noteq> 0 then
        (case virt_to_pte_phys (cells s) (page_root s) mem of
           Inl e \<Rightarrow> Some (Inl e)
         | Inr pa \<Rightarrow> vm_free_loop (mem + PAGE_SIZE) (sz - PAGE_SIZE) (free_page pa s))
      else Some (Inr s))"

declare vm_free_loop.simps [code]

definition vm_free :: "u64 \<Rightarrow> u64 \<Rightarrow> 'a heap_state_scheme \<Rightarrow> err + 'a heap_state_scheme" where
  "vm_free mem sz s = bindE (loopE (vm_free_loop mem sz s)) (\<lambda>r. r)"

definition setup_vm :: "'a heap_state_scheme \<Rightarrow> err + 'a heap_state_scheme" where
  "setup_vm s =
     (if ops s = Vmalloc_ops then Inr s
      else bindE (phys_alloc_get_unused s) (\<lambda>(s, b, t).
           bindE (assertE (b \<noteq> t \<or> page_alloc_initialized s)) (\<lambda>_.
           bindE (if \<not> page_alloc_initialized s then
                    let b = (b + PAGE_SIZE - 1) AND - PAGE_SIZE; t = t AND - PAGE_SIZE
                    in bindE (free_pages b (t - b) s) (\<lambda>s. Inr (s, t))
                  else Inr (s, t)) (\<lambda>(s, t).
           bindE (setup_mmu t s) (\<lambda>(s, root).
           Inr (s\<lparr>page_root := root, ops := Vmalloc_ops\<rparr>))))))"

section \<open>Allocations\<close>

text \<open>
  What a run of \<open>vm_memalign\<close> leaves: the pages of the range map, in order, to the given pages, and
  the other translations are as before.
\<close>

definition vm_mapped :: "u64 \<Rightarrow> u64 \<Rightarrow> u64 list \<Rightarrow> 'a page_alloc_scheme \<Rightarrow> 'a page_alloc_scheme \<Rightarrow> bool" where
  "vm_mapped root va ps s s' \<longleftrightarrow>
     (\<forall>i < length ps. xlate x86_format 4 (cells s') root (va + PAGE_SIZE * of_nat i) =
        Some (1, page_flags (ps ! i))) \<and>
     (\<forall>va'. (\<forall>i < length ps. \<not> same_entry 1 4 (va + PAGE_SIZE * of_nat i) va') \<longrightarrow>
        xlate x86_format 4 (cells s') root va' = xlate x86_format 4 (cells s) root va')"

text \<open>The page-table functions leave the variables of the allocators above them alone.\<close>

lemma alloc_page_more: "alloc_page s = (s', p) \<Longrightarrow> page_alloc.more s' = page_alloc.more s"
  by (auto simp: alloc_page_def split: if_splits)

lemma install_pte_loop_more:
  "install_pte_loop t va l pt pg s = (s', r) \<Longrightarrow> page_alloc.more s' = page_alloc.more s"
proof (induction t va l pt pg s arbitrary: s' rule: install_pte_loop.induct)
  case (1 t va l pt pg s)
  show ?case
  proof (cases "t < l")
    case True
    obtain s1 pg1 where s1: "(if cells s (pt + 8 * PGDIR_OFFSET va l) AND PT_PRESENT_MASK = 0 then
         let (s, new_pt, pt_page) = (if pg = 0 then let (s, p) = alloc_page s in (s, p, pg) else (s, pg, 0));
             s = s\<lparr>cells := zero_page (cells s) new_pt\<rparr>
         in (s\<lparr>cells := (cells s)(pt + 8 * PGDIR_OFFSET va l :=
                new_pt OR PT_PRESENT_MASK OR PT_WRITABLE_MASK OR PT_USER_MASK)\<rparr>, pt_page)
       else (s, pg)) = (s1, pg1)" by fastforce
    have "page_alloc.more s1 = page_alloc.more s"
      using s1 alloc_page_more [of s] by (auto simp: Let_def split: if_splits prod.splits)
    moreover have "page_alloc.more s' = page_alloc.more s1"
      using 1(1) [OF True refl s1 [symmetric] refl] 1(2) True s1
      by (subst (asm) install_pte_loop.simps) (simp add: Let_def)
    ultimately show ?thesis by simp
  next
    case False
    then show ?thesis using 1(2) by (subst (asm) install_pte_loop.simps) auto
  qed
qed

lemma install_pte_more: "install_pte cr3 t va pte pg s = (s', p) \<Longrightarrow> page_alloc.more s' = page_alloc.more s"
  using install_pte_loop_more [of t va PAGE_LEVEL cr3 pg s]
  by (auto simp: install_pte_def Let_def split: prod.splits)

lemma more_page_root: "page_alloc.more s = page_alloc.more s' \<Longrightarrow> page_root s = page_root s'"
  for s s' :: "'a heap_state_scheme"
  by (cases s; cases s') simp

text \<open>The tables at \<open>root\<close> use the pages \<open>A\<close>, the free list is \<open>xs\<close>.\<close>

definition vm_ok :: "u64 \<Rightarrow> u64 set \<Rightarrow> u64 list \<Rightarrow> 'a page_alloc_scheme \<Rightarrow> bool" where
  "vm_ok root A xs s \<longleftrightarrow> wf_table x86_format 4 (cells s) root A \<and> free_inv s xs \<and> A \<inter> set xs = {}"

text \<open>One page: a page of the free list is mapped, and is then neither free nor a table.\<close>

lemma vm_map_one:
  fixes s :: "'a heap_state_scheme"
  assumes ok: "vm_ok root A xs s" "4 \<le> length xs" and root: "page_root s = root"
    and low: "\<And>lv e. xlate x86_format 4 (cells s) root va = Some (lv, e) \<Longrightarrow> lv \<le> 1"
  obtains pa s1 s' A' xs' where "alloc_page s = (s1, pa)" "fst (install_page root pa va s1) = s'"
    "vm_ok root A' xs' s'" "length xs \<le> 4 + length xs'" "page_root s' = root" "pa \<in> set xs"
    "pa \<notin> A' \<union> set xs'" "A' \<union> set xs' \<subseteq> A \<union> set xs" "set xs' \<subseteq> set xs"
    "\<And>va'. xlate x86_format 4 (cells s') root va' =
      (if same_entry 1 4 va va' then Some (1, page_flags pa) else xlate x86_format 4 (cells s) root va')"
proof -
  obtain pa ys where xs: "xs = pa # ys" using ok(2) by (cases xs) auto
  let ?s1 = "s\<lparr>freelist := cells s pa\<rparr>"
  have free: "free_inv s (pa # ys)" using ok(1) xs by (simp add: vm_ok_def)
  note al = alloc_page_Cons [OF free]
  have wf: "wf_table x86_format 4 (cells ?s1) root A" and disj: "A \<inter> set ys = {}" "pa \<notin> A"
    using ok(1) xs by (auto simp: vm_ok_def)
  obtain s' p xs' A' where s': "install_pte root 1 va (page_flags pa) 0 ?s1 = (s', p)"
    "pte_installed 1 root va (page_flags pa) ?s1 s'" "free_inv s' xs'" "set xs' \<subseteq> set ys"
    "length ys \<le> 3 + length xs'" "wf_table x86_format 4 (cells s') root A'" "A' \<subseteq> A \<union> set ys"
    "A' \<inter> set xs' = {}"
    by (rule install_pte_cases [OF wf al(2) disj(1), of 1 "page_flags pa" va])
      (use low ok(2) xs in \<open>auto simp: leaf_pte_def\<close>)
  have "page_root s' = page_root ?s1"
    using install_pte_more [OF s'(1)] by (rule more_page_root)
  then have "page_root s' = root" using root by simp
  moreover have "vm_ok root A' xs' s'" using s'(3,6,8) by (simp add: vm_ok_def)
  moreover have "fst (install_page root pa va ?s1) = s'" using s'(1) by (simp add: install_page_eq)
  moreover have "pa \<notin> A' \<union> set xs'" using s'(4,7) disj(2) al(4) by auto
  moreover have "xlate x86_format 4 (cells s') root va' =
      (if same_entry 1 4 va va' then Some (1, page_flags pa) else xlate x86_format 4 (cells s) root va')" for va'
    using s'(2) page_flags_present by (simp add: pte_installed_def)
  ultimately show thesis using that [OF al(1)] s'(4,5,7) xs by force
qed

lemma vm_mapped_Cons:
  assumes one: "\<And>va'. xlate x86_format 4 (cells s1) root va' =
      (if same_entry 1 4 va va' then Some (1, page_flags pa) else xlate x86_format 4 (cells s) root va')"
    and rest: "vm_mapped root (va + PAGE_SIZE) ps s1 s'"
    and sep: "\<And>j. j < length ps \<Longrightarrow> \<not> same_entry 1 4 (va + PAGE_SIZE * of_nat (Suc j)) va"
  shows "vm_mapped root va (pa # ps) s s'"
proof -
  have shift: "va + PAGE_SIZE * of_nat (Suc i) = va + PAGE_SIZE + PAGE_SIZE * of_nat i" for i
    by (simp add: algebra_simps)
  have va: "xlate x86_format 4 (cells s') root va = Some (1, page_flags pa)"
    using rest sep one unfolding vm_mapped_def shift by simp
  show ?thesis unfolding vm_mapped_def
  proof (intro conjI allI impI)
    fix i assume "i < length (pa # ps)"
    then show "xlate x86_format 4 (cells s') root (va + PAGE_SIZE * of_nat i) = Some (1, page_flags ((pa # ps) ! i))"
      using va rest unfolding vm_mapped_def by (cases i) (simp, simp only: shift nth_Cons_Suc, simp)
  next
    fix va' assume far: "\<forall>i < length (pa # ps). \<not> same_entry 1 4 (va + PAGE_SIZE * of_nat i) va'"
    have "\<not> same_entry 1 4 (va + PAGE_SIZE + PAGE_SIZE * of_nat j) va'" if "j < length ps" for j
      using far [rule_format, of "Suc j"] that unfolding shift by simp
    then have "xlate x86_format 4 (cells s') root va' = xlate x86_format 4 (cells s1) root va'"
      using rest unfolding vm_mapped_def by blast
    then show "xlate x86_format 4 (cells s') root va' = xlate x86_format 4 (cells s) root va'"
      unfolding one using far [rule_format, of 0] by simp
  qed
qed

lemma vm_memalign_loop_maps:
  fixes s :: "'a heap_state_scheme"
  assumes "vm_ok root A xs s" "4 * n \<le> length xs" "page_root s = root"
    and "\<And>i lv e. \<lbrakk>i < n; xlate x86_format 4 (cells s) root (va + PAGE_SIZE * of_nat i) = Some (lv, e)\<rbrakk>
      \<Longrightarrow> lv \<le> 1"
    and "unat va mod 4096 = 0" "unat va + 4096 * n \<le> 2 ^ 64" "n \<le> 2 ^ 36"
  shows "\<exists>ps xs' A'. length ps = n \<and> distinct ps \<and> set ps \<subseteq> set xs \<and> set ps \<inter> (A' \<union> set xs') = {} \<and>
    vm_mapped root va ps s (vm_memalign_loop n va s) \<and> vm_ok root A' xs' (vm_memalign_loop n va s) \<and>
    A' \<union> set xs' \<subseteq> A \<union> set xs \<and> length xs \<le> 4 * n + length xs'"
  using assms
proof (induction n arbitrary: va s xs A)
  case 0
  then show ?case by (intro exI [of _ "[]"] exI [of _ xs] exI [of _ A]) (auto simp: vm_mapped_def)
next
  case (Suc n)
  let ?va = "va + PAGE_SIZE"
  have shift: "va + PAGE_SIZE * of_nat (Suc i) = ?va + PAGE_SIZE * of_nat i" for i
    by (simp add: algebra_simps)
  have low0: "lv \<le> 1" if "xlate x86_format 4 (cells s) root va = Some (lv, e)" for lv e
    using Suc.prems(4) [of 0] that by simp
  have four: "4 \<le> length xs" using Suc.prems(2) by simp
  obtain pa s1 s2 A1 xs1 where one: "alloc_page s = (s1, pa)" "fst (install_page root pa va s1) = s2"
    "vm_ok root A1 xs1 s2" "length xs \<le> 4 + length xs1" "page_root s2 = root" "pa \<in> set xs"
    "pa \<notin> A1 \<union> set xs1" "A1 \<union> set xs1 \<subseteq> A \<union> set xs"
    "set xs1 \<subseteq> set xs" "\<And>va'. xlate x86_format 4 (cells s2) root va' =
      (if same_entry 1 4 va va' then Some (1, page_flags pa) else xlate x86_format 4 (cells s) root va')"
    by (rule vm_map_one [OF Suc.prems(1) four Suc.prems(3), of va]) (erule low0, rule that)
  have root1: "page_root s1 = root"
    using alloc_page_more [OF one(1)] more_page_root Suc.prems(3) by metis
  have step: "vm_memalign_loop (Suc n) va s = vm_memalign_loop n ?va s2"
    using one(1,2) root1 by simp
  have sep: "\<not> same_entry 1 4 (va + PAGE_SIZE * of_nat i) (va + PAGE_SIZE * of_nat j)"
    if "i < Suc n" "j < Suc n" "i \<noteq> j" for i j
    using pages_not_same_entry [OF Suc.prems(5,6,7) that] .
  have low: "lv \<le> 1" if "i < n" "xlate x86_format 4 (cells s2) root (?va + PAGE_SIZE * of_nat i) = Some (lv, e)" for i lv e
    using that Suc.prems(4) [of "Suc i"] unfolding one(10) shift by (auto split: if_splits)
  show ?case
  proof (cases "n = 0")
    case True
    show ?thesis using one True unfolding step
      by (intro exI [of _ "[pa]"] exI [of _ xs1] exI [of _ A1]) (auto simp: vm_mapped_def)
  next
    case False
    then have va1: "unat ?va = unat va + 4096"
      using page_mult_unat [OF Suc.prems(6), of 1] by simp
    have prems: "4 * n \<le> length xs1" "unat ?va mod 4096 = 0" "unat ?va + 4096 * n \<le> 2 ^ 64" "n \<le> 2 ^ 36"
      using va1 Suc.prems(2,5,6,7) one(4) by (simp_all add: mod_simps)
    obtain ps xs' A' where IH: "length ps = n" "distinct ps" "set ps \<subseteq> set xs1" "set ps \<inter> (A' \<union> set xs') = {}"
      "vm_mapped root ?va ps s2 (vm_memalign_loop n ?va s2)" "vm_ok root A' xs' (vm_memalign_loop n ?va s2)"
      "A' \<union> set xs' \<subseteq> A1 \<union> set xs1" "length xs1 \<le> 4 * n + length xs'"
      using Suc.IH [of A1 xs1 s2 ?va, OF one(3) prems(1) one(5) _ prems(2-4)] low by metis
    have "vm_mapped root va (pa # ps) s (vm_memalign_loop n ?va s2)"
      by (rule vm_mapped_Cons [OF one(10) IH(5)]) (use sep [of "Suc _" 0] IH(1) in auto)
    then show ?thesis unfolding step using IH one(4,6,7,8,9)
      by (intro exI [of _ "pa # ps"] exI [of _ xs'] exI [of _ A']) auto
  qed
qed

text \<open>What both allocators compute of a size: its pages, as the type of the code has them, and where they end up.\<close>

lemma pages_of_size:
  assumes "n = (unat sz + 4095) div 4096" "n < 2 ^ 32" "4096 * n \<le> unat (t :: u64)"
  shows "unat (ucast (((sz + PAGE_SIZE - 1) AND NOT (PAGE_SIZE - 1)) div PAGE_SIZE) :: u32) = n"
    "ucast (ucast (((sz + PAGE_SIZE - 1) AND NOT (PAGE_SIZE - 1)) div PAGE_SIZE) :: u32) = (of_nat n :: u64)"
    "unat (t - PAGE_SIZE * of_nat n) = unat t - 4096 * n"
proof -
  let ?sz = "(sz + PAGE_SIZE - 1) AND NOT (PAGE_SIZE - 1)"
  have nb: "4096 * n < 2 ^ 64" using le_less_trans [OF assms(3) unat_lt_64] by simp
  have "?sz = ALIGN sz (2 ^ 12)"
    by (simp add: ALIGN_def ALIGN_MASK_def algebra_simps)
  then have "unat ?sz = (unat sz + 4095) div 4096 * 4096"
    using ALIGN_unat [of 12 sz] nb assms(1) by simp
  then have szn: "unat (?sz div PAGE_SIZE) = n" using assms(1) by (simp add: unat_div)
  then show ns: "unat (ucast (?sz div PAGE_SIZE) :: u32) = n"
    using assms(2) by (simp add: unsigned_ucast_eq take_bit_nat_eq_self)
  then show "ucast (ucast (?sz div PAGE_SIZE) :: u32) = (of_nat n :: u64)"
    by (metis of_nat_unat)
  have "unat (PAGE_SIZE * of_nat n :: u64) = 4096 * n" using nb
    by (simp add: unat_word_ariths unat_of_nat take_bit_nat_eq_self)
  then show "unat (t - PAGE_SIZE * of_nat n) = unat t - 4096 * n" using assms(3) by (simp add: unat_sub_if_size)
qed

lemma vm_memalign_cases:
  fixes s :: "'a heap_state_scheme"
  assumes "vm_ok root A xs s" "page_root s = root" "alignment \<le> PAGE_SIZE"
    and n: "n = (unat sz + 4095) div 4096" "n < 2 ^ 32" "4 * n \<le> length xs"
    and top: "unat (vfree_top s) mod 4096 = 0" "4096 * n \<le> unat (vfree_top s)"
    and "\<And>i lv e. \<lbrakk>i < n; xlate x86_format 4 (cells s) root (vfree_top s - PAGE_SIZE * of_nat n + PAGE_SIZE * of_nat i) =
      Some (lv, e)\<rbrakk> \<Longrightarrow> lv \<le> 1"
  shows "\<exists>s' va ps xs' A'. vm_memalign alignment sz s = Inr (s', va) \<and> unat va = unat (vfree_top s) - 4096 * n \<and>
    length ps = n \<and> distinct ps \<and> set ps \<subseteq> set xs \<and> set ps \<inter> (A' \<union> set xs') = {} \<and>
    vm_mapped root va ps s s' \<and> vm_ok root A' xs' s' \<and> length xs \<le> 4 * n + length xs'"
proof -
  let ?va = "vfree_top s - PAGE_SIZE * of_nat n" and ?s = "s\<lparr>vfree_top := vfree_top s - PAGE_SIZE * of_nat n\<rparr>"
  note ns = pages_of_size(1) [OF n(1,2) top(2)] and uc = pages_of_size(2) [OF n(1,2) top(2)]
    and va = pages_of_size(3) [OF n(1,2) top(2)]
  have run: "vm_memalign alignment sz s = Inr (vm_memalign_loop n ?va ?s, ?va)"
    using assms(3) ns uc by (simp add: vm_memalign_def alloc_vpages_def Let_def)
  have "vm_ok root A xs ?s" "page_root ?s = root" using assms(1,2) by (simp_all add: vm_ok_def free_inv_def)
  then have "\<exists>ps xs' A'. length ps = n \<and> distinct ps \<and> set ps \<subseteq> set xs \<and> set ps \<inter> (A' \<union> set xs') = {} \<and>
    vm_mapped root ?va ps ?s (vm_memalign_loop n ?va ?s) \<and> vm_ok root A' xs' (vm_memalign_loop n ?va ?s) \<and>
    A' \<union> set xs' \<subseteq> A \<union> set xs \<and> length xs \<le> 4 * n + length xs'"
  proof (rule vm_memalign_loop_maps [OF _ n(3)])
    show "unat ?va mod 4096 = 0" "unat ?va + 4096 * n \<le> 2 ^ 64" "n \<le> 2 ^ 36"
      using top n(2) less_imp_le [OF unat_lt_64 [of "vfree_top s"]] unfolding va by (auto simp: mod_eq_0_iff_dvd intro: dvd_diff_nat)
    fix i lv e
    assume "i < n" "xlate x86_format 4 (cells ?s) root (?va + PAGE_SIZE * of_nat i) = Some (lv, e)"
    then show "lv \<le> 1" using assms(9) [of i lv e] by simp
  qed
  then obtain ps xs' A' where *: "length ps = n \<and> distinct ps \<and> set ps \<subseteq> set xs \<and> set ps \<inter> (A' \<union> set xs') = {} \<and>
    vm_mapped root ?va ps ?s (vm_memalign_loop n ?va ?s) \<and> vm_ok root A' xs' (vm_memalign_loop n ?va ?s) \<and>
    A' \<union> set xs' \<subseteq> A \<union> set xs \<and> length xs \<le> 4 * n + length xs'" by blast
  moreover have "vm_mapped root ?va ps ?s = vm_mapped root ?va ps s" for ps
    by (intro ext) (simp add: vm_mapped_def)
  ultimately show ?thesis
    by (intro exI [of _ "vm_memalign_loop n ?va ?s"] exI [of _ ?va] exI [of _ ps] exI [of _ xs'] exI [of _ A'])
      (simp only: run va simp_thms)
qed


definition vm_sample :: heap_state where
  "vm_sample = heap_sample\<lparr>cells := (\<lambda>_. 0)(0x2000 := 0x3000, 0x3000 := 0x4000, 0x4000 := 0x5000),
     freelist := 0x2000, ops := Vmalloc_ops, vfree_top := 0x40000000, page_root := 0x1000\<rparr>"

lemma vm_sample_ok:
  "vm_ok 0x1000 {0x1000} [0x2000, 0x3000, 0x4000, 0x5000] vm_sample"
  "xlate x86_format 4 (cells vm_sample) 0x1000 va = None"
  "vfree_top vm_sample = 0x40000000" "page_root vm_sample = 0x1000" "ops vm_sample = Vmalloc_ops"
proof -
  have ok: "page_ok 0x1000" "page_ok 0x2000" "page_ok 0x3000" "page_ok 0x4000" "page_ok 0x5000"
    unfolding page_ok_def by code_simp+
  have z: "cells vm_sample b = 0" if "page_of b = 0x1000" for b
    using that page_of_page [OF ok(2)] page_of_page [OF ok(3)] page_of_page [OF ok(4)]
    by (auto simp: vm_sample_def)
  have "wf_table x86_format 4 (cells vm_sample) 0x1000 {0x1000}" and
    none: "xlate x86_format 4 (cells vm_sample) 0x1000 va = None" for va
    by (rule wf_table_zero [OF _ ok(1) _ z]; simp)+
  then show "vm_ok 0x1000 {0x1000} [0x2000, 0x3000, 0x4000, 0x5000] vm_sample"
    "xlate x86_format 4 (cells vm_sample) 0x1000 va = None"
    using ok by (simp_all add: vm_ok_def free_inv_def vm_sample_def)
qed (simp_all add: vm_sample_def)

end
