(* ===== verification/Alloc.thy ===== *)
theory Alloc
  imports Vmalloc
begin

text \<open>
  \<open>lib/alloc.c\<close>: \<open>malloc\<close>, \<open>memalign\<close> and \<open>free\<close> on top of the block allocator \<open>alloc_ops\<close> points at. A
  block is asked for that is larger than the request, and the distance to its start and its size are
  stored in front of the address returned, where \<open>free\<close> finds them. The locale \<open>block_allocator\<close> is
  what \<open>memalign\<close> relies on; the early and the virtual allocator interpret it.
\<close>

section \<open>Memory accesses\<close>

text \<open>
  An access by an address of the program: once \<open>setup_vm\<close> has run, the processor translates it by the
  tables at \<open>page_root\<close>; before, memory is mapped one to one.
\<close>

definition cpu_addr :: "u64 \<Rightarrow> 'a heap_state_scheme \<Rightarrow> err + u64" where
  "cpu_addr va s =
     (if ops s = Vmalloc_ops then
        (case xlate x86_format 4 (cells s) (page_root s) va of
           None \<Rightarrow> Inl Page_fault
         | Some (l, e) \<Rightarrow> (let m = mask (12 + 9 * (l - 1))
             in Inr ((e AND PT_ADDR_MASK AND NOT m) OR (va AND m))))
      else Inr va)"

definition heap_load :: "u64 \<Rightarrow> 'a heap_state_scheme \<Rightarrow> err + u64" where
  "heap_load va s = bindE (cpu_addr va s) (\<lambda>a. Inr (cells s a))"

definition heap_store :: "u64 \<Rightarrow> u64 \<Rightarrow> 'a heap_state_scheme \<Rightarrow> err + 'a heap_state_scheme" where
  "heap_store va v s = bindE (cpu_addr va s) (\<lambda>a. Inr (s\<lparr>cells := (cells s)(a := v)\<rparr>))"

text \<open>A byte is stored into the eight bytes of its cell.\<close>

definition heap_store_byte :: "u64 \<Rightarrow> u8 \<Rightarrow> 'a heap_state_scheme \<Rightarrow> err + 'a heap_state_scheme" where
  "heap_store_byte va v s =
     (let a = va AND NOT 7; k = 8 * unat (va AND 7)
      in bindE (heap_load a s) (\<lambda>w. heap_store a ((w AND NOT (push_bit k 0xff)) OR push_bit k (ucast v)) s))"

primrec heap_memset :: "nat \<Rightarrow> u64 \<Rightarrow> u8 \<Rightarrow> 'a heap_state_scheme \<Rightarrow> err + 'a heap_state_scheme" where
  "heap_memset 0 p v s = Inr s"
| "heap_memset (Suc n) p v s = bindE (heap_store_byte p v s) (heap_memset n (p + 1) v)"

section \<open>The operations\<close>

definition METADATA_EXTRA :: u64 where "METADATA_EXTRA = 2 * 8"
definition OFS_SLACK :: u64 where "OFS_SLACK = - (2 * 8)"
definition OFS_SIZE :: u64 where "OFS_SIZE = - 8"

text \<open>The three values of \<open>alloc_ops\<close>; the early allocator has no \<open>free\<close>.\<close>

definition ops_memalign ::
    "alloc_ops \<Rightarrow> u64 \<Rightarrow> u64 \<Rightarrow> 'a heap_state_scheme \<Rightarrow> err + ('a heap_state_scheme \<times> u64)" where
  "ops_memalign o' = (case o' of Early_ops \<Rightarrow> early_memalign | Page_ops \<Rightarrow> page_memalign
     | Vmalloc_ops \<Rightarrow> vm_memalign)"

definition ops_align_min :: "'a heap_state_scheme \<Rightarrow> u64" where
  "ops_align_min s = (case ops s of Early_ops \<Rightarrow> early_align_min s | Page_ops \<Rightarrow> PAGE_SIZE
     | Vmalloc_ops \<Rightarrow> PAGE_SIZE)"

definition ops_free ::
    "alloc_ops \<Rightarrow> (u64 \<Rightarrow> u64 \<Rightarrow> 'a heap_state_scheme \<Rightarrow> err + 'a heap_state_scheme) option" where
  "ops_free o' = (case o' of Early_ops \<Rightarrow> None | Page_ops \<Rightarrow> Some page_free | Vmalloc_ops \<Rightarrow> Some vm_free)"

definition block_begin :: "u64 \<Rightarrow> 'a heap_state_scheme \<Rightarrow> err + u64" where
  "block_begin mem s = bindE (heap_load (mem + OFS_SLACK) s) (\<lambda>slack. Inr (mem - slack))"

definition block_size :: "u64 \<Rightarrow> 'a heap_state_scheme \<Rightarrow> err + u64" where
  "block_size mem s = heap_load (mem + OFS_SIZE) s"

definition free :: "u64 \<Rightarrow> 'a heap_state_scheme \<Rightarrow> err + 'a heap_state_scheme" where
  "free ptr s =
     (case ops_free (ops s) of
        None \<Rightarrow> Inr s
      | Some f \<Rightarrow> bindE (block_begin ptr s) (\<lambda>b. bindE (block_size ptr s) (\<lambda>sz. f b sz s)))"

text \<open>
  The body of \<open>memalign\<close>, for the functions \<open>alloc\<close> and \<open>align_min\<close> of \<open>alloc_ops\<close>. The result of
  \<open>alloc\<close> is used without a test for NULL.
\<close>

definition memalign_by ::
    "(u64 \<Rightarrow> u64 \<Rightarrow> 'a heap_state_scheme \<Rightarrow> err + ('a heap_state_scheme \<times> u64)) \<Rightarrow> u64 \<Rightarrow>
     u64 \<Rightarrow> u64 \<Rightarrow> 'a heap_state_scheme \<Rightarrow> err + ('a heap_state_scheme \<times> u64)" where
  "memalign_by alloc align_min alignment sz s =
     (let (alignment, sz) = (if alignment \<le> 8 then (8, sz) else (alignment, sz + (alignment - 1)));
          blkalign = max alignment align_min;
          sz = ALIGN (sz + METADATA_EXTRA) align_min
      in bindE (alloc blkalign sz s) (\<lambda>(s, p).
         let mem = p + METADATA_EXTRA; mem = ALIGN mem alignment
         in bindE (heap_store (mem + OFS_SLACK) (mem - p) s) (\<lambda>s.
            bindE (heap_store (mem + OFS_SIZE) sz s) (\<lambda>s. Inr (s, mem)))))"

definition memalign :: "u64 \<Rightarrow> u64 \<Rightarrow> 'a heap_state_scheme \<Rightarrow> err + ('a heap_state_scheme \<times> u64)" where
  "memalign alignment sz s = memalign_by (ops_memalign (ops s)) (ops_align_min s) alignment sz s"

definition malloc :: "u64 \<Rightarrow> 'a heap_state_scheme \<Rightarrow> err + ('a heap_state_scheme \<times> u64)" where
  "malloc sz s = memalign 8 sz s"

definition calloc :: "u64 \<Rightarrow> u64 \<Rightarrow> 'a heap_state_scheme \<Rightarrow> err + ('a heap_state_scheme \<times> u64)" where
  "calloc nmemb sz s =
     bindE (malloc (nmemb * sz) s) (\<lambda>(s, ptr).
     if ptr \<noteq> 0 then bindE (heap_memset (unat (nmemb * sz)) ptr 0 s) (\<lambda>s. Inr (s, ptr)) else Inr (s, ptr))"

section \<open>What a block allocator must do\<close>

text \<open>
  \<open>can s al sz\<close>: a block of that alignment and size can be had; \<open>block s p sz\<close>: there is a block of
  memory at \<open>p\<close>, whose cells can be stored to and keep what is stored.
\<close>

locale block_allocator =
  fixes alloc :: "u64 \<Rightarrow> u64 \<Rightarrow> 'a heap_state_scheme \<Rightarrow> err + ('a heap_state_scheme \<times> u64)"
    and can :: "'a heap_state_scheme \<Rightarrow> u64 \<Rightarrow> u64 \<Rightarrow> bool"
    and block :: "'a heap_state_scheme \<Rightarrow> u64 \<Rightarrow> u64 \<Rightarrow> bool"
  assumes alloc_block: "can s al sz \<Longrightarrow> is_power_of_2 al \<Longrightarrow>
      \<exists>s' p. alloc al sz s = Inr (s', p) \<and> block s' p sz \<and> unat p mod unat al = 0"
    and block_fits: "block s p sz \<Longrightarrow> unat p + unat sz < 2 ^ 64"
    and block_store: "\<lbrakk>block s p sz; unat p \<le> unat a; unat a + 8 \<le> unat p + unat sz; unat a mod 8 = 0\<rbrakk> \<Longrightarrow>
      \<exists>s'. heap_store a v s = Inr s' \<and> block s' p sz \<and> heap_load a s' = Inr v \<and>
        (\<forall>b. unat p \<le> unat b \<and> unat b + 8 \<le> unat p + unat sz \<and> unat b mod 8 = 0 \<and> b \<noteq> a \<longrightarrow>
          heap_load b s' = heap_load b s)"

text \<open>The size of the block \<open>memalign\<close> asks for.\<close>

definition block_request :: "u64 \<Rightarrow> u64 \<Rightarrow> u64 \<Rightarrow> u64" where
  "block_request al sz amin = ALIGN ((if al \<le> 8 then sz else sz + (al - 1)) + METADATA_EXTRA) amin"

text \<open>
  What \<open>memalign\<close> has done when it returns \<open>m\<close>: there is a block at some \<open>p\<close>, the memory asked for
  lies in it behind the two words of metadata, aligned, and \<open>free\<close> would find the block.
\<close>

definition memalign_gave ::
    "('a heap_state_scheme \<Rightarrow> u64 \<Rightarrow> u64 \<Rightarrow> bool) \<Rightarrow> u64 \<Rightarrow> u64 \<Rightarrow> u64 \<Rightarrow> 'a heap_state_scheme \<Rightarrow> u64 \<Rightarrow> bool" where
  "memalign_gave block al sz bsz s m \<longleftrightarrow> (\<exists>p. block s p bsz \<and> unat m mod unat (max al 8) = 0 \<and>
     unat p + 16 \<le> unat m \<and> unat m + unat sz \<le> unat p + unat bsz \<and>
     block_begin m s = Inr p \<and> block_size m s = Inr bsz)"
section \<open>The client\<close>

lemma ALIGN_up:
  assumes "k < 64" "unat x + (2 ^ k - 1) < 2 ^ 64"
  shows "unat (ALIGN x (2 ^ k)) mod 2 ^ k = 0" "unat x \<le> unat (ALIGN x (2 ^ k))"
    "unat (ALIGN x (2 ^ k)) \<le> unat x + (2 ^ k - 1)"
    "unat x mod 2 ^ k = 0 \<Longrightarrow> ALIGN x (2 ^ k) = x"
proof -
  note a = ALIGN_unat [OF assms]
  have pos: "(0 :: nat) < 2 ^ k" by simp
  show "unat (ALIGN x (2 ^ k)) mod 2 ^ k = 0" unfolding a by simp
  show le: "unat x \<le> unat (ALIGN x (2 ^ k))"
    using dividend_less_times_div [OF pos, of "unat x + (2 ^ k - 1)"] pos unfolding a
    by (simp add: mult.commute)
  show up: "unat (ALIGN x (2 ^ k)) \<le> unat x + (2 ^ k - 1)"
    unfolding a by (rule div_times_less_eq_dividend)
  assume "unat x mod 2 ^ k = 0"
  then obtain q where q: "unat x = q * 2 ^ k" by (auto simp: mod_eq_0_iff_dvd dvd_def mult.commute)
  have "(2 ^ k - 1 + q * 2 ^ k) div 2 ^ k = q + (2 ^ k - 1) div (2 ^ k :: nat)"
    using pos by (intro div_mult_self1) simp
  then have "(unat x + (2 ^ k - 1)) div 2 ^ k = q" unfolding q using pos by (simp add: add.commute)
  then have "unat (ALIGN x (2 ^ k)) = unat x" unfolding a q by simp
  then show "ALIGN x (2 ^ k) = x" by (simp only: word_unat_eq_iff)
qed

lemma pow2_max_dvd:
  assumes "is_power_of_2 a" "is_power_of_2 b"
  shows "is_power_of_2 (max a b)" "unat a dvd unat (max a b)"
proof -
  obtain i j where ij: "i < 64" "a = 2 ^ i" "j < 64" "b = 2 ^ j"
    using is_power_of_2_cases [OF assms(1)] is_power_of_2_cases [OF assms(2)] by metis
  show "is_power_of_2 (max a b)" using assms by (simp add: max_def)
  have u: "unat a = 2 ^ i" "unat b = 2 ^ j" using ij by (simp_all add: unat_power2_64)
  show "unat a dvd unat (max a b)"
  proof (cases "a \<le> b")
    case True
    then have "(2 :: nat) ^ i \<le> 2 ^ j" using u by (simp add: word_le_nat_alt)
    then have "i \<le> j" by simp
    then show ?thesis using True u by (simp add: max_def le_imp_power_dvd)
  qed (simp add: max_def)
qed

lemma memalign_arith:
  assumes al: "al \<le> 8 \<or> is_power_of_2 al" and amin: "is_power_of_2 amin"
    and nowrap: "unat sz + unat al + unat amin + 32 \<le> 2 ^ 64"
    and p: "unat p + unat (block_request al sz amin) < 2 ^ 64" "unat p mod unat (max (max al 8) amin) = 0"
  defines "m \<equiv> ALIGN (p + METADATA_EXTRA) (max al 8)"
  shows "unat m mod unat (max al 8) = 0" "unat m mod 8 = 0" "unat p + 16 \<le> unat m"
    "unat m + unat sz \<le> unat p + unat (block_request al sz amin)"
proof -
  let ?x = "(if al \<le> 8 then sz else sz + (al - 1)) + METADATA_EXTRA"
  obtain j where j: "j < 64" "amin = 2 ^ j" using is_power_of_2_cases [OF amin] .
  have uj: "unat amin = 2 ^ j" using j by (simp add: unat_power2_64)
  have "is_power_of_2 8" by code_simp
  then have p2: "is_power_of_2 (max al 8)" using al by (auto simp: max_def)
  then obtain k where k: "k < 64" "max al 8 = 2 ^ k" using is_power_of_2_cases by metis
  have uk: "unat (max al 8) = 2 ^ k" using k by (simp add: unat_power2_64)
  have "8 \<le> max al 8" by simp
  then have "(2 :: nat) ^ 3 \<le> 2 ^ k" using uk by (simp add: word_le_nat_alt)
  then have k3: "3 \<le> k" by (rule power_le_imp_le_exp [rotated]) simp
  have d8: "(8 :: nat) dvd 2 ^ k" using le_imp_power_dvd [OF k3, of "2 :: nat"] by simp
  have x: "unat ?x = unat sz + (if al \<le> 8 then 0 else unat al - 1) + 16"
  proof (cases "al \<le> 8")
    case True
    then show ?thesis using nowrap unat_add_noov [of sz 16] by (simp add: METADATA_EXTRA_def)
  next
    case False
    then have "1 \<le> al" by (simp add: word_le_nat_alt)
    then have "unat (al - 1) = unat al - 1" by (simp add: unat_sub_le)
    then have "unat (sz + (al - 1)) = unat sz + (unat al - 1)" using nowrap by (subst unat_add_noov) simp_all
    then show ?thesis using False nowrap unat_add_noov [of "sz + (al - 1)" 16] by (simp add: METADATA_EXTRA_def)
  qed
  have req: "unat ?x \<le> unat (block_request al sz amin)"
    unfolding block_request_def j(2) using nowrap x uj by (intro ALIGN_up(2) j(1)) (auto split: if_splits)
  have p8: "unat p mod 2 ^ k = 0"
    using pow2_max_dvd(2) [OF p2 amin] p(2) unfolding uk mod_eq_0_iff_dvd by (rule dvd_trans)
  then have pm8: "unat p mod 8 = 0" using d8 by (auto simp: mod_eq_0_iff_dvd intro: dvd_trans)
  have "unat p + 16 < 2 ^ 64" using p(1) req x by linarith
  then have q: "unat (p + METADATA_EXTRA) = unat p + 16"
    using unat_add_noov [of p 16] by (simp add: METADATA_EXTRA_def)
  have fits: "unat (p + METADATA_EXTRA) + (2 ^ k - 1) < 2 ^ 64"
  proof (cases "al \<le> 8")
    case True
    then have "(2 :: nat) ^ k = 8" using uk by (simp add: max_def split: if_splits)
    moreover have "8 dvd (2 ^ 64 :: nat)" "8 dvd unat p + 16" using pm8 by (auto simp: mod_eq_0_iff_dvd)
    then have "8 dvd (2 ^ 64 :: nat) - (unat p + 16)" by (rule dvd_diff_nat)
    then have "8 \<le> (2 ^ 64 :: nat) - (unat p + 16)" using \<open>unat p + 16 < 2 ^ 64\<close> by (intro dvd_imp_le) auto
    ultimately show ?thesis unfolding q using \<open>unat p + 16 < 2 ^ 64\<close> by linarith
  next
    case False
    then have "unat al = 2 ^ k" using uk by (simp add: max_def)
    then show ?thesis unfolding q using p(1) req x False by simp
  qed
  note up = ALIGN_up [OF k(1) fits, folded k(2), folded m_def]
  show "unat m mod unat (max al 8) = 0" using up(1) uk by simp
  then show "unat m mod 8 = 0" using d8 uk by (auto simp: mod_eq_0_iff_dvd intro: dvd_trans)
  show "unat p + 16 \<le> unat m" using up(2) q by simp
  show "unat m + unat sz \<le> unat p + unat (block_request al sz amin)"
  proof (cases "al \<le> 8")
    case True
    then have "(2 :: nat) ^ k = 8" using uk by (simp add: max_def split: if_splits)
    then have "unat (p + METADATA_EXTRA) mod 2 ^ k = 0" using q pm8 by (simp add: mod_eq_0_iff_dvd)
    then have "m = p + METADATA_EXTRA" by (rule up(4))
    then show ?thesis using q req x by simp
  next
    case False
    then have "unat al = 2 ^ k" using uk by (simp add: max_def)
    then show ?thesis using up(3) q req x False by simp
  qed
qed

context block_allocator
begin

lemma memalign_block:
  assumes al: "al \<le> 8 \<or> is_power_of_2 al" and amin: "is_power_of_2 amin"
    and nowrap: "unat sz + unat al + unat amin + 32 \<le> 2 ^ 64"
    and can: "can s (max (max al 8) amin) (block_request al sz amin)"
  shows "\<exists>s' m. memalign_by alloc amin al sz s = Inr (s', m) \<and>
    memalign_gave block al sz (block_request al sz amin) s' m"
proof -
  let ?b = "block_request al sz amin"
  have "is_power_of_2 8" by code_simp
  then have "is_power_of_2 (max al 8)" using al by (auto simp: max_def)
  then have p2: "is_power_of_2 (max (max al 8) amin)" using amin by (rule pow2_max_dvd(1))
  obtain s1 p where s1: "alloc (max (max al 8) amin) ?b s = Inr (s1, p)" "block s1 p ?b"
    "unat p mod unat (max (max al 8) amin) = 0"
    using alloc_block [OF can p2] by (elim exE conjE)
  define m where "m = ALIGN (p + METADATA_EXTRA) (max al 8)"
  note ar = memalign_arith [OF al amin nowrap block_fits [OF s1(2)] s1(3), folded m_def]
  have a: "unat (m + OFS_SLACK) = unat m - 16" "unat (m + OFS_SIZE) = unat m - 8"
    using ar(3) unat_sub_le [of 16 m] unat_sub_le [of 8 m]
    by (simp_all add: OFS_SLACK_def OFS_SIZE_def word_le_nat_alt)
  have in_block: "unat p \<le> unat (m + OFS_SLACK)" "unat (m + OFS_SLACK) + 8 \<le> unat p + unat ?b"
    "unat (m + OFS_SLACK) mod 8 = 0" "unat p \<le> unat (m + OFS_SIZE)"
    "unat (m + OFS_SIZE) + 8 \<le> unat p + unat ?b" "unat (m + OFS_SIZE) mod 8 = 0"
    "m + OFS_SLACK \<noteq> m + OFS_SIZE"
    unfolding a using ar by (auto simp: mod_eq_0_iff_dvd OFS_SLACK_def OFS_SIZE_def intro: dvd_diff_nat)
  obtain s2 where s2: "heap_store (m + OFS_SLACK) (m - p) s1 = Inr s2" "block s2 p ?b"
    "heap_load (m + OFS_SLACK) s2 = Inr (m - p)"
    using block_store [OF s1(2) in_block(1-3), of "m - p"] by metis
  obtain s3 where s3: "heap_store (m + OFS_SIZE) ?b s2 = Inr s3" "block s3 p ?b"
    "heap_load (m + OFS_SIZE) s3 = Inr ?b" "heap_load (m + OFS_SLACK) s3 = heap_load (m + OFS_SLACK) s2"
    using block_store [OF s2(2) in_block(4-6), of ?b] in_block(1-3,7) by metis
  have "memalign_by alloc amin al sz s = Inr (s3, m)"
  proof -
    have ar: "(if al \<le> 8 then (8, sz) else (al, sz + (al - 1))) = (max al 8, if al \<le> 8 then sz else sz + (al - 1))"
      by (simp add: max_def)
    show ?thesis
      unfolding memalign_by_def ar Let_def prod.case block_request_def [symmetric] s1(1) bindE_Inr m_def [symmetric] s2(1) s3(1) ..
  qed
  moreover have "memalign_gave block al sz ?b s3 m"
    unfolding memalign_gave_def using s3 s2(3) ar
    by (intro exI [of _ p]) (simp add: block_begin_def block_size_def)
  ultimately show ?thesis by blast
qed

end
section \<open>The early allocator\<close>

definition early_can :: "'a heap_state_scheme \<Rightarrow> u64 \<Rightarrow> u64 \<Rightarrow> bool" where
  "early_can s al sz \<longleftrightarrow> ops s = Early_ops \<and> (\<exists>start. phys_inv start s) \<and> sz \<noteq> 0 \<and>
     unat (phys_base s) + unat sz + unat al \<le> unat (phys_top s)"

definition early_block :: "'a heap_state_scheme \<Rightarrow> u64 \<Rightarrow> u64 \<Rightarrow> bool" where
  "early_block s p sz \<longleftrightarrow> ops s = Early_ops \<and> unat p + unat sz < 2 ^ 64"

lemma early_memalign_block:
  fixes s :: "'a heap_state_scheme"
  assumes can: "early_can s al sz" and p2: "is_power_of_2 al"
  shows "\<exists>s' p. early_memalign al sz s = Inr (s', p) \<and> early_block s' p sz \<and> unat p mod unat al = 0"
proof -
  obtain start where inv: "phys_inv start s" and early: "ops s = Early_ops" "sz \<noteq> 0"
    and room: "unat (phys_base s) + unat sz + unat al \<le> unat (phys_top s)"
    using can by (auto simp: early_can_def)
  have top: "unat (phys_top s) < 2 ^ 64" using unat_lt_64 [of "phys_top s"] by simp
  obtain k where k: "k < 64" "al = 2 ^ k" using is_power_of_2_cases [OF p2] .
  have ak: "unat al = 2 ^ k" using k by (simp add: unat_power2_64)
  have "0 < unat sz" using early(2) by (simp add: unat_gt_0)
  then have base: "phys_base s < phys_top s" using room by (simp add: word_less_nat_alt)
  have al0: "al \<noteq> 0 \<and> al AND (al - 1) = 0"
    using k by (simp add: pow2_minus_1 exp_eq_zero_iff) (auto intro!: bit_word_eqI simp: bit_simps)
  define a where "a = ALIGN (phys_base s) al"
  note gap = ALIGN_gap [OF k(1), of "phys_base s", folded k(2), folded a_def]
  have "unat (phys_base s) + unat (a - phys_base s) < 2 ^ 64" using gap(1) room top ak by linarith
  from gap(2) [OF this] have a: "unat a = unat (phys_base s) + unat (a - phys_base s)" ..
  have need: "unat (sz + (a - phys_base s)) = unat sz + unat (a - phys_base s)"
    using gap(1) room top ak by (intro unat_add_noov) linarith
  have fits: "\<not> phys_top s - phys_base s < sz + (a - phys_base s)"
    using room gap(1) ak need unat_sub_le [of "phys_base s" "phys_top s"] less_imp_le [OF base]
    by (simp add: word_less_nat_alt)
  have "a \<noteq> INVALID_PHYS_ADDR"
  proof
    assume "a = INVALID_PHYS_ADDR"
    then have "unat a = 2 ^ 64 - 1" using unat_sub_if_size [of 0 "1 :: u64"] by (simp add: INVALID_PHYS_ADDR_def word_size)
    then show False using a gap(1) room top ak \<open>0 < unat sz\<close> by linarith
  qed
  moreover have "snd (sum.projr (phys_alloc_aligned_safe sz al s)) = a"
    using fits base unfolding phys_alloc_aligned_safe_def a_def by (simp add: Let_def)
  ultimately obtain s' where s': "phys_alloc_aligned_safe sz al s = Inr (s', a)" "phys_gave start sz al s s' a"
    using phys_alloc_cases [OF inv p2 _ base, of sz] room top by fastforce
  have "ops s' = ops s"
    using s'(1) base fits unfolding phys_alloc_aligned_safe_def a_def [symmetric] by (auto simp: Let_def)
  moreover have "unat a + unat sz \<le> unat (phys_top s)"
    using s'(2) by (auto simp: phys_gave_def phys_inv_def word_le_nat_alt)
  ultimately have "early_block s' a sz" using early le_less_trans [OF _ top] by (simp only: early_block_def)
  moreover have "early_memalign al sz s = Inr (s', a)"
    using al0 s'(1) \<open>a \<noteq> INVALID_PHYS_ADDR\<close> by (simp add: early_memalign_def)
  moreover have "unat a mod unat al = 0" using s'(2) by (simp add: phys_gave_def)
  ultimately show ?thesis by (intro exI [of _ s'] exI [of _ a] conjI)
qed

interpretation early: block_allocator early_memalign early_can early_block
proof
  fix s :: "'a heap_state_scheme" and p sz a v
  assume "early_block s p sz"
  then show "\<exists>s'. heap_store a v s = Inr s' \<and> early_block s' p sz \<and> heap_load a s' = Inr v \<and>
    (\<forall>b. unat p \<le> unat b \<and> unat b + 8 \<le> unat p + unat sz \<and> unat b mod 8 = 0 \<and> b \<noteq> a \<longrightarrow>
      heap_load b s' = heap_load b s)"
    by (simp add: heap_store_def heap_load_def cpu_addr_def early_block_def)
qed (simp_all add: early_memalign_block, simp add: early_block_def)

text \<open>
  \<open>memalign\<close> over the early allocator: where the block asked for fits into the free memory, it returns
  memory of the size asked for that is aligned and lies in the block behind its metadata, from which
  \<open>block_begin\<close> and \<open>block_size\<close> recover the block.
\<close>

theorem memalign_early:
  assumes "ops s = Early_ops" "al \<le> 8 \<or> is_power_of_2 al" "is_power_of_2 (early_align_min s)"
    and "unat sz + unat al + unat (early_align_min s) + 32 \<le> 2 ^ 64"
    and "early_can s (max (max al 8) (early_align_min s)) (block_request al sz (early_align_min s))"
  shows "\<exists>s' m. memalign al sz s = Inr (s', m) \<and>
    memalign_gave early_block al sz (block_request al sz (early_align_min s)) s' m"
  using early.memalign_block [OF assms(2-5)] assms(1)
  by (simp add: memalign_def ops_memalign_def ops_align_min_def)

lemma memalign_early_witness:
  "\<exists>s' m. memalign 64 100 heap_sample = Inr (s', m) \<and> unat m mod 64 = 0 \<and> block_size m s' = Inr 192"
proof -
  have "is_power_of_2 64" "is_power_of_2 32" by code_simp+
  moreover have req: "block_request 64 100 32 = 192" by code_simp
  moreover have "phys_inv 0x1000 heap_sample" by (simp add: phys_inv_def heap_sample_def)
  ultimately have "\<exists>s' m. memalign 64 100 heap_sample = Inr (s', m) \<and>
    memalign_gave early_block 64 100 (block_request 64 100 (early_align_min heap_sample)) s' m"
    by (intro memalign_early) (auto simp: early_can_def heap_sample_def max_def)
  then show ?thesis using req by (auto simp: memalign_gave_def heap_sample_def)
qed
section \<open>The virtual allocator\<close>

text \<open>
  \<open>vm_pages A ps s p sz\<close>: the tables are well formed in the pages \<open>A\<close>, and the pages from \<open>p\<close> are
  mapped to the distinct pages \<open>ps\<close>, none of which holds a table. The pages of a block are not free.
\<close>

definition vm_pages :: "u64 set \<Rightarrow> u64 list \<Rightarrow> 'a heap_state_scheme \<Rightarrow> u64 \<Rightarrow> u64 \<Rightarrow> bool" where
  "vm_pages A ps s p sz \<longleftrightarrow> ops s = Vmalloc_ops \<and> wf_table x86_format 4 (cells s) (page_root s) A \<and>
     distinct ps \<and> (\<forall>x \<in> set ps. page_ok x \<and> x \<notin> A) \<and> unat p mod 4096 = 0 \<and> unat sz = 4096 * length ps \<and>
     unat p + unat sz < 2 ^ 64 \<and>
     (\<forall>i < length ps. xlate x86_format 4 (cells s) (page_root s) (p + PAGE_SIZE * of_nat i) = Some (1, page_flags (ps ! i)))"

definition vm_block :: "'a heap_state_scheme \<Rightarrow> u64 \<Rightarrow> u64 \<Rightarrow> bool" where
  "vm_block s p sz \<longleftrightarrow> (\<exists>A ps xs. vm_pages A ps s p sz \<and> vm_ok (page_root s) A xs s \<and> set ps \<inter> set xs = {})"

lemma xlate_same_entry:
  assumes "same_entry 1 l va va'"
  shows "xlate x86_format l m pt va = xlate x86_format l m pt va'"
  using assms
proof (induction l arbitrary: pt)
  case (Suc l)
  have "idx va (Suc l) = idx va' (Suc l)" "same_entry 1 l va va'"
    using Suc.prems by (auto simp: same_entry_def)
  then show ?case using Suc.IH by (simp add: xlate_Suc Let_def del: xlate.simps)
qed simp

lemma page_ok_low: "page_ok p \<Longrightarrow> n < 12 \<Longrightarrow> \<not> bit p n"
  using page_ok_bits [of p n] by auto

lemma page_flags_addr:
  assumes "page_ok pa"
  shows "page_flags pa AND PT_ADDR_MASK AND NOT (mask 12) = pa"
proof -
  have "page_flags pa AND PT_ADDR_MASK = pa"
    using x86_table_entry(2) [OF assms, of 1] by (simp add: page_flags_def)
  moreover have "pa AND NOT (mask 12) = pa"
    using page_ok_low [OF assms] by (intro bit_word_eqI) (auto simp: bit_simps)
  ultimately show ?thesis by (metis and.assoc)
qed

lemma unat_and_mask12: "unat (va AND mask 12) = unat va mod 4096" for va :: u64
  by (simp flip: take_bit_eq_mask add: unsigned_take_bit_eq) (simp add: take_bit_eq_mod)

lemma vm_pages_addr:
  assumes b: "vm_pages A ps s p sz" and a: "unat p \<le> unat a" "unat a < unat p + unat sz"
  defines "i \<equiv> (unat a - unat p) div 4096"
  shows "i < length ps" "cpu_addr a s = Inr (ps ! i OR (a AND mask 12))"
    "unat a = unat p + 4096 * i + unat a mod 4096" "page_of (ps ! i OR (a AND mask 12)) = ps ! i"
proof -
  have p: "unat p mod 4096 = 0" "unat sz = 4096 * length ps" "unat p + unat sz < 2 ^ 64"
    using b by (auto simp: vm_pages_def)
  show i: "i < length ps" using a p(2) unfolding i_def
    by (simp add: div_less_iff_less_mult)
  obtain q where q: "unat p = 4096 * q" using p(1) by (auto simp: mod_eq_0_iff_dvd)
  have "unat a - unat p = 4096 * i + (unat a - unat p) mod 4096" unfolding i_def by simp
  moreover have "(unat a - unat p) mod 4096 = unat a mod 4096"
  proof -
    have "unat a mod 4096 = (unat p + (unat a - unat p)) mod 4096" using a(1) by simp
    then show ?thesis unfolding q by simp
  qed
  ultimately show au: "unat a = unat p + 4096 * i + unat a mod 4096" using a(1) by linarith
  have pi: "unat (p + PAGE_SIZE * of_nat i) = unat p + 4096 * i"
    by (rule page_mult_unat [of _ "length ps"]) (use p i in auto)
  have same: "same_entry 1 4 (p + PAGE_SIZE * of_nat i) a"
  proof -
    let ?x = "p + PAGE_SIZE * of_nat i"
    have "unat (?x AND mask 12) = 0" unfolding unat_and_mask12 pi q by simp
    then have x0: "?x AND mask 12 = 0" by (simp only: unat_eq_0)
    have "unat (a AND mask 12) < 4096" unfolding unat_and_mask12 by simp
    then have lt: "a AND mask 12 < 4096" by (simp add: word_less_nat_alt)
    have "unat (?x + (a AND mask 12)) = unat a"
      using au unat_lt_64 [of a] pi unat_and_mask12 [of a]
      by (subst unat_add_noov) (simp_all del: unat_lt_64)
    then have "a = ?x OR (a AND mask 12)"
      using page_add_or [OF x0 lt] by (simp only: word_unat_eq_iff)
    then show ?thesis unfolding same_entry_bits
      by (metis bit_mask_64 bit_and_iff bit_or_iff not_le)
  qed
  then have "xlate x86_format 4 (cells s) (page_root s) a = Some (1, page_flags (ps ! i))"
    using b i unfolding vm_pages_def xlate_same_entry [OF same, symmetric] by auto
  moreover have ok: "page_ok (ps ! i)" using b i by (simp add: vm_pages_def)
  ultimately show "cpu_addr a s = Inr (ps ! i OR (a AND mask 12))"
    using b page_flags_addr by (simp add: cpu_addr_def vm_pages_def Let_def)
  show "page_of (ps ! i OR (a AND mask 12)) = ps ! i"
    using page_ok_low [OF ok] by (intro bit_word_eqI) (auto simp: page_of_def bit_simps)
qed

lemma vm_pages_addr_inj:
  assumes b: "vm_pages A ps s p sz" and a: "unat p \<le> unat a" "unat a < unat p + unat sz"
    and a': "unat p \<le> unat a'" "unat a' < unat p + unat sz" and eq: "cpu_addr a s = cpu_addr a' s"
  shows "a = a'"
proof -
  note x = vm_pages_addr [OF b a] and x' = vm_pages_addr [OF b a']
  let ?i = "(unat a - unat p) div 4096" and ?i' = "(unat a' - unat p) div 4096"
  have e: "ps ! ?i OR (a AND mask 12) = ps ! ?i' OR (a' AND mask 12)" using eq x(2) x'(2) by simp
  then have ps: "ps ! ?i = ps ! ?i'" using x(4) x'(4) by metis
  then have i: "?i = ?i'" using b x(1) x'(1) by (simp add: vm_pages_def nth_eq_iff_index_eq)
  have "page_ok (ps ! ?i)" using b x(1) by (simp add: vm_pages_def)
  then have "(ps ! ?i OR (c AND mask 12)) AND mask 12 = c AND mask 12" for c
    using page_ok_low by (intro bit_word_eqI) (auto simp: bit_simps)
  then have "a AND mask 12 = a' AND mask 12" using e ps by metis
  then have "unat a mod 4096 = unat a' mod 4096" using unat_and_mask12 by metis
  then have "unat a = unat a'" using x(3) x'(3) i by metis
  then show ?thesis by (simp only: word_unat_eq_iff)
qed

lemma vm_block_store:
  assumes b: "vm_block s p sz" and a: "unat p \<le> unat a" "unat a + 8 \<le> unat p + unat sz"
  shows "\<exists>s'. heap_store a v s = Inr s' \<and> vm_block s' p sz \<and> heap_load a s' = Inr v \<and>
    (\<forall>b. unat p \<le> unat b \<and> unat b + 8 \<le> unat p + unat sz \<and> b \<noteq> a \<longrightarrow> heap_load b s' = heap_load b s)"
proof -
  obtain A ps xs where ps: "vm_pages A ps s p sz" and ok: "vm_ok (page_root s) A xs s" and
    sep: "set ps \<inter> set xs = {}" using b by (auto simp: vm_block_def)
  have lt: "unat a < unat p + unat sz" using a by simp
  note x = vm_pages_addr [OF ps a(1) lt]
  let ?a = "ps ! ((unat a - unat p) div 4096) OR (a AND mask 12)"
  let ?s = "s\<lparr>cells := (cells s)(?a := v)\<rparr>"
  have "page_of ?a \<notin> A" using x(1,4) ps by (simp add: vm_pages_def)
  then have keep: "cells ?s c = cells s c" if "page_of c \<in> A" for c using that by auto
  have wf: "wf_table x86_format 4 (cells s) (page_root s) A" using ps by (simp add: vm_pages_def)
  note frame = wf_table_frame [OF wf, of "cells ?s", OF keep]
  have ps': "vm_pages A ps ?s p sz" using ps frame by (simp add: vm_pages_def)
  have "?a \<notin> set xs"
  proof
    assume "?a \<in> set xs"
    then have "page_of ?a = ?a" using ok by (intro page_of_page) (simp add: vm_ok_def free_inv_def)
    then show False using \<open>?a \<in> set xs\<close> x(1,4) sep nth_mem [OF x(1)] by (metis disjoint_iff)
  qed
  then have ok': "vm_ok (page_root ?s) A xs ?s"
    using ok frame(1) by (simp add: vm_ok_def free_inv_def)
  have addr: "cpu_addr c ?s = cpu_addr c s" for c using frame(2) by (simp add: cpu_addr_def)
  have "heap_load c ?s = heap_load c s"
    if c: "unat p \<le> unat c" "unat c + 8 \<le> unat p + unat sz" "c \<noteq> a" for c
  proof -
    have "unat c < unat p + unat sz" using c(2) by simp
    note y = vm_pages_addr [OF ps c(1) this] and inj = vm_pages_addr_inj [OF ps c(1) this a(1) lt]
    show ?thesis using y(2) x(2) inj c(3) by (auto simp: heap_load_def addr)
  qed
  moreover have "heap_store a v s = Inr ?s" "heap_load a ?s = Inr v"
    by (simp_all add: heap_store_def heap_load_def addr x(2) del: fun_upd_apply) simp
  moreover have "vm_block ?s p sz" unfolding vm_block_def using ps' ok' sep
    by (intro exI [of _ A] exI [of _ ps] exI [of _ xs] conjI)
  ultimately show ?thesis by (intro exI [of _ ?s]) simp
qed
lemma vm_memalign_loop_more: "page_alloc.more (vm_memalign_loop n va s) = page_alloc.more s"
  for s :: "'a heap_state_scheme"
proof (induction n arbitrary: va s)
  case (Suc n)
  obtain s1 pa where s1: "alloc_page s = (s1, pa)" by fastforce
  have "page_alloc.more (fst (install_page (page_root s1) pa va s1)) = page_alloc.more s1"
    using install_pte_more by (metis install_page_eq prod.collapse)
  then show ?case using alloc_page_more [OF s1] Suc.IH by (simp add: s1)
qed simp

lemma more_ops: "page_alloc.more s = page_alloc.more s' \<Longrightarrow> ops s = ops s'"
  for s s' :: "'a heap_state_scheme"
  by (cases s; cases s') simp

definition vm_can :: "'a heap_state_scheme \<Rightarrow> u64 \<Rightarrow> u64 \<Rightarrow> bool" where
  "vm_can s al sz \<longleftrightarrow> ops s = Vmalloc_ops \<and> al \<le> PAGE_SIZE \<and>
     unat sz mod 4096 = 0 \<and> unat sz div 4096 < 2 ^ 32 \<and> unat sz \<le> unat (vfree_top s) \<and> unat (vfree_top s) mod 4096 = 0 \<and>
     (\<exists>A xs. vm_ok (page_root s) A xs s \<and> 4 * (unat sz div 4096) \<le> length xs) \<and>
     (\<forall>i < unat sz div 4096. \<forall>lv e. xlate x86_format 4 (cells s) (page_root s)
        (vfree_top s - sz + PAGE_SIZE * of_nat i) = Some (lv, e) \<longrightarrow> lv \<le> 1)"

lemma vm_memalign_pages:
  fixes s :: "'a heap_state_scheme"
  assumes can: "vm_can s al sz" and ok: "vm_ok (page_root s) A xs s" "4 * (unat sz div 4096) \<le> length xs"
  shows "\<exists>s' p ps xs' A'. vm_memalign al sz s = Inr (s', p) \<and> vm_pages A' ps s' p sz \<and>
    vm_ok (page_root s') A' xs' s' \<and> set ps \<inter> set xs' = {} \<and> set ps \<subseteq> set xs \<and> length xs \<le> unat sz div 1024 + length xs'"
proof -
  let ?n = "unat sz div 4096"
  have c: "al \<le> PAGE_SIZE" "unat sz mod 4096 = 0" "?n < 2 ^ 32" "unat sz \<le> unat (vfree_top s)"
    "unat (vfree_top s) mod 4096 = 0" "ops s = Vmalloc_ops"
    using can by (simp_all add: vm_can_def)
  have sz: "unat sz = 4096 * ?n" using c(2) by (simp add: mod_eq_0_iff_dvd)
  then obtain q where q: "unat sz = 4096 * q" by blast
  have n: "?n = (unat sz + 4095) div 4096" unfolding q by simp
  have "PAGE_SIZE * of_nat ?n = (of_nat (4096 * ?n) :: u64)" by simp
  also have "\<dots> = of_nat (unat sz)" using sz by (rule arg_cong [symmetric])
  finally have szw: "PAGE_SIZE * of_nat ?n = sz" by simp
  have low: "lv \<le> 1" if "i < ?n" "xlate x86_format 4 (cells s) (page_root s)
      (vfree_top s - PAGE_SIZE * of_nat ?n + PAGE_SIZE * of_nat i) = Some (lv, e)" for i lv e
    using can that unfolding szw vm_can_def by auto
  have "4096 * ?n \<le> unat (vfree_top s)" using c(4) sz by simp
  note ex = vm_memalign_cases [OF ok(1) refl c(1) n c(3) ok(2) c(5) this]
  obtain s' p ps xs' A' where run: "vm_memalign al sz s = Inr (s', p)" "unat p = unat (vfree_top s) - 4096 * ?n"
    "length ps = ?n" "distinct ps" "set ps \<subseteq> set xs" "set ps \<inter> (A' \<union> set xs') = {}"
    "vm_mapped (page_root s) p ps s s'" "vm_ok (page_root s) A' xs' s'" "length xs \<le> 4 * ?n + length xs'"
    using ex low by metis
  have "page_alloc.more s' = page_alloc.more (s\<lparr>vfree_top := p\<rparr>)"
    using run(1) c(1) by (auto simp: vm_memalign_def alloc_vpages_def Let_def vm_memalign_loop_more)
  then have same: "page_root s' = page_root s" "ops s' = Vmalloc_ops"
    using more_page_root [of s' "s\<lparr>vfree_top := p\<rparr>"] more_ops [of s' "s\<lparr>vfree_top := p\<rparr>"] c(6) by simp_all
  have "unat p + unat sz = unat (vfree_top s)" "unat p mod 4096 = 0"
    using run(2) c(2,4,5) sz by (auto simp: mod_eq_0_iff_dvd intro: dvd_diff_nat)
  moreover have "\<forall>x \<in> set ps. page_ok x" using ok(1) run(5) by (auto simp: vm_ok_def free_inv_def)
  ultimately have "vm_pages A' ps s' p sz"
    using run(3,4,6,7,8) same sz unfolding vm_pages_def vm_mapped_def vm_ok_def by auto
  moreover have "4 * ?n = unat sz div 1024" unfolding q by simp
  ultimately show ?thesis using run same by (intro exI [of _ s'] exI [of _ p] exI [of _ ps] exI [of _ xs'] exI [of _ A']) auto
qed

lemma vm_memalign_block:
  assumes "vm_can s al sz" "is_power_of_2 al"
  shows "\<exists>s' p. vm_memalign al sz s = Inr (s', p) \<and> vm_block s' p sz \<and> unat p mod unat al = 0"
proof -
  obtain A xs where ok: "vm_ok (page_root s) A xs s" "4 * (unat sz div 4096) \<le> length xs"
    using assms(1) by (auto simp: vm_can_def)
  obtain s' p ps xs' A' where s': "vm_memalign al sz s = Inr (s', p)" "vm_pages A' ps s' p sz"
    "vm_ok (page_root s') A' xs' s'" "set ps \<inter> set xs' = {}"
    using vm_memalign_pages [OF assms(1) ok] by metis
  then have "vm_block s' p sz" unfolding vm_block_def
    by (intro exI [of _ A'] exI [of _ ps] exI [of _ xs'] conjI)
  obtain k where k: "k < 64" "al = 2 ^ k" using is_power_of_2_cases [OF assms(2)] .
  have ak: "unat al = 2 ^ k" using k by (simp add: unat_power2_64)
  have "unat al \<le> 4096" using assms(1) by (simp add: vm_can_def word_le_nat_alt)
  then have "(2 :: nat) ^ k \<le> 2 ^ 12" using ak by simp
  then have "k \<le> 12" by (rule power_le_imp_le_exp [rotated]) simp
  then have "(2 :: nat) ^ k dvd 2 ^ 12" by (rule le_imp_power_dvd)
  then have "unat al dvd 4096" using ak by simp
  moreover have "4096 dvd unat p" using s'(2) by (simp add: vm_pages_def mod_eq_0_iff_dvd)
  ultimately have "unat p mod unat al = 0" unfolding mod_eq_0_iff_dvd by (rule dvd_trans)
  then show ?thesis using s'(1) \<open>vm_block s' p sz\<close> by (intro exI [of _ s'] exI [of _ p] conjI)
qed

interpretation virt: block_allocator vm_memalign vm_can vm_block
proof
  fix s :: "'a heap_state_scheme" and p sz :: u64
  assume "vm_block s p sz"
  then show "unat p + unat sz < 2 ^ 64" by (auto simp: vm_block_def vm_pages_def)
next
  fix s :: "'a heap_state_scheme" and p sz a v :: u64
  assume b: "vm_block s p sz" and a: "unat p \<le> unat a" "unat a + 8 \<le> unat p + unat sz"
  show "\<exists>s'. heap_store a v s = Inr s' \<and> vm_block s' p sz \<and> heap_load a s' = Inr v \<and>
    (\<forall>b. unat p \<le> unat b \<and> unat b + 8 \<le> unat p + unat sz \<and> unat b mod 8 = 0 \<and> b \<noteq> a \<longrightarrow>
      heap_load b s' = heap_load b s)"
    using vm_block_store [OF b a, of v] by auto
qed (rule vm_memalign_block)

lemma memalign_virtual_gave:
  assumes "ops s = Vmalloc_ops" "al \<le> 8 \<or> is_power_of_2 al" "unat sz + unat al + 4128 \<le> 2 ^ 64"
    and "vm_can s (max (max al 8) PAGE_SIZE) (block_request al sz PAGE_SIZE)"
  shows "\<exists>s' m. memalign al sz s = Inr (s', m) \<and>
    memalign_gave vm_block al sz (block_request al sz PAGE_SIZE) s' m"
proof -
  have "is_power_of_2 PAGE_SIZE" by code_simp
  from virt.memalign_block [OF assms(2) this _ assms(4)] assms(1,3) show ?thesis
    by (simp add: memalign_def ops_memalign_def ops_align_min_def)
qed

text \<open>
  \<open>memalign\<close> over the virtual allocator, when there are pages enough: the memory returned is mapped to
  distinct pages that hold no table, is aligned, and \<open>block_begin\<close> and \<open>block_size\<close> recover its block
  from the metadata in front of it, which the processor reads through the tables.
\<close>

theorem memalign_virtual:
  assumes "ops s = Vmalloc_ops" "al \<le> 8 \<or> is_power_of_2 al" "unat sz + unat al + 4128 \<le> 2 ^ 64"
    and "vm_can s (max (max al 8) PAGE_SIZE) (block_request al sz PAGE_SIZE)"
  shows "\<exists>s' m. memalign al sz s = Inr (s', m) \<and>
    memalign_gave vm_block al sz (block_request al sz PAGE_SIZE) s' m"
  using assms by (rule memalign_virtual_gave)

section \<open>Freeing\<close>

lemma virt_to_pte_phys_page:
  assumes "wf_table x86_format 4 (cells s) root A" "xlate x86_format 4 (cells s) root va = Some (1, page_flags pa)"
    and "page_ok pa" "unat va mod 4096 = 0"
  shows "virt_to_pte_phys (cells s) root va = Inr pa"
proof -
  obtain q where "get_pte (cells s) root va = Inr q" "q \<noteq> 0" "cells s q = page_flags pa"
    using get_pte_cases [OF assms(1), of va] assms(2) by auto
  moreover have "page_flags pa AND PT_ADDR_MASK = pa"
    using x86_table_entry(2) [OF assms(3), of 1] by (simp add: page_flags_def)
  moreover have "unat (va AND mask 12) = 0" using assms(4) unat_and_mask12 by metis
  then have "va AND mask 12 = 0" by (simp only: unat_eq_0)
  then have "va AND 4095 = 0" by (simp add: mask_eq_exp_minus_1)
  ultimately show ?thesis by (simp add: virt_to_pte_phys_def)
qed

lemma vm_free_loop_pages:
  assumes "vm_pages A ps s p sz" "vm_ok (page_root s) A xs s" "set ps \<inter> set xs = {}"
  shows "\<exists>s'. vm_free_loop p sz s = Some (Inr s') \<and> page_root s' = page_root s \<and>
    vm_ok (page_root s) A (rev ps @ xs) s'"
  using assms
proof (induction ps arbitrary: p sz s xs)
  case Nil
  then have "sz = 0" by (simp add: vm_pages_def unat_eq_0)
  then show ?case using Nil by (subst vm_free_loop.simps) simp
next
  case (Cons pa ps)
  have b: "wf_table x86_format 4 (cells s) (page_root s) A" "page_ok pa" "pa \<notin> A" "pa \<notin> set ps"
    "unat p mod 4096 = 0" "unat sz = 4096 * Suc (length ps)" "unat p + unat sz < 2 ^ 64"
    using Cons.prems(1) by (auto simp: vm_pages_def)
  have x: "xlate x86_format 4 (cells s) (page_root s) (p + PAGE_SIZE * of_nat i) = Some (1, page_flags ((pa # ps) ! i))"
    if "i < Suc (length ps)" for i
    using Cons.prems(1) that by (simp add: vm_pages_def)
  have v: "virt_to_pte_phys (cells s) (page_root s) p = Inr pa"
    by (rule virt_to_pte_phys_page [OF b(1) _ b(2,5)]) (use x [of 0] in simp)
  let ?s = "free_page pa s"
  have keep: "cells ?s c = cells s c" if "page_of c \<in> A" for c
    using that b(3) page_of_page [OF b(2)] by (auto simp: free_page_def)
  note frame = wf_table_frame [OF b(1), of "cells ?s", OF keep]
  have root: "page_root ?s = page_root s" "ops ?s = ops s" by (simp_all add: free_page_def)
  have u: "unat (p + PAGE_SIZE) = unat p + 4096" "unat (sz - PAGE_SIZE) = 4096 * length ps"
    using b(6,7) by (auto simp: unat_add_noov unat_sub_le word_le_nat_alt)
  have shift: "p + PAGE_SIZE + PAGE_SIZE * of_nat i = p + PAGE_SIZE * of_nat (Suc i)" for i
    by (simp add: algebra_simps)
  have "vm_pages A ps ?s (p + PAGE_SIZE) (sz - PAGE_SIZE)"
    using Cons.prems(1) frame x [of "Suc _"] b u unfolding vm_pages_def root shift by (auto simp: mod_simps)
  moreover have "free_inv ?s (pa # xs)"
    using Cons.prems(2,3) b(2) by (auto simp: free_inv_def vm_ok_def free_page_def page_ok_def)
  then have "vm_ok (page_root ?s) A (pa # xs) ?s"
    using Cons.prems(2) frame(1) b(3) by (simp add: vm_ok_def root)
  moreover have "set ps \<inter> set (pa # xs) = {}" using Cons.prems(3) b(4) by auto
  ultimately obtain s' where "vm_free_loop (p + PAGE_SIZE) (sz - PAGE_SIZE) ?s = Some (Inr s')"
    "page_root s' = page_root s" "vm_ok (page_root s) A (rev ps @ pa # xs) s'"
    using Cons.IH root by metis
  moreover have "sz \<noteq> 0" using b(6) by auto
  ultimately show ?case using v by (subst vm_free_loop.simps) simp
qed
lemma free_virtual_gave:
  fixes s :: "'a heap_state_scheme"
  assumes ops: "ops s = Vmalloc_ops" and gave: "memalign_gave vm_block al sz bsz s m"
  shows "\<exists>A ps xs p s'. vm_pages A ps s p bsz \<and> vm_ok (page_root s) A xs s \<and> free m s = Inr s' \<and>
    page_root s' = page_root s \<and> vm_ok (page_root s) A (rev ps @ xs) s'"
proof -
  obtain p where p: "vm_block s p bsz" "block_begin m s = Inr p" "block_size m s = Inr bsz"
    using gave by (auto simp: memalign_gave_def)
  obtain A ps xs where b: "vm_pages A ps s p bsz" "vm_ok (page_root s) A xs s" "set ps \<inter> set xs = {}"
    using p(1) by (auto simp: vm_block_def)
  obtain s' where "vm_free_loop p bsz s = Some (Inr s')" "page_root s' = page_root s"
    "vm_ok (page_root s) A (rev ps @ xs) s'" using vm_free_loop_pages [OF b] by metis
  moreover from this(1) have "free m s = Inr s'"
    using p(2,3) ops by (simp add: free_def ops_free_def vm_free_def)
  ultimately show ?thesis using b
    by (intro exI [of _ A] exI [of _ ps] exI [of _ xs] exI [of _ p] exI [of _ s'] conjI)
qed


lemma vm_can_sample: "vm_can vm_sample 0x1000 0x1000"
  using vm_sample_ok by (auto simp: vm_can_def intro!: exI [of _ "{0x1000}"] exI [of _ "[0x2000, 0x3000, 0x4000, 0x5000]"])

lemma block_request_sample: "block_request 64 100 PAGE_SIZE = 0x1000"
  by code_simp

lemma memalign_virtual_witness:
  "\<exists>s' m. memalign 64 100 vm_sample = Inr (s', m) \<and> unat m mod 64 = 0 \<and> block_size m s' = Inr 0x1000"
proof -
  have "is_power_of_2 64" by code_simp
  then have "\<exists>s' m. memalign 64 100 vm_sample = Inr (s', m) \<and>
      memalign_gave vm_block 64 100 (block_request 64 100 PAGE_SIZE) s' m"
    by (intro memalign_virtual) (simp_all add: vm_sample_ok vm_can_sample block_request_sample [unfolded PAGE_SIZE_eq] max_def)
  then show ?thesis using block_request_sample by (auto simp: memalign_gave_def)
qed

end
