(* ===== verification/Report.thy ===== *)
theory Report
  imports Printf
begin

text \<open>
  Test results, \<open>lib/report.c\<close>: counters of the tests and of their outcomes, and a prefix of the
  messages, kept in a buffer of 256 characters to which a test pushes names and from which it pops
  them. The prefix buffer is the string before its NUL; what is printed is appended to \<open>console\<close>. The
  spinlock is left out: one thread runs.
\<close>

record report_state =
  tests :: u32
  failures :: u32
  xfailures :: u32
  skipped :: u32
  prefixes :: string
  console :: string

definition PREFIX_DELIMITER :: string where "PREFIX_DELIMITER = '': ''"

definition prefixes_size :: u32 where "prefixes_size = 256"

definition report_pass :: "report_state \<Rightarrow> report_state" where
  "report_pass s = s\<lparr>tests := tests s + 1\<rparr>"

definition put_out :: "string \<Rightarrow> report_state \<Rightarrow> report_state" where
  "put_out out s = s\<lparr>console := console s @ out\<rparr>"

text \<open>The lengths are of type \<open>unsigned int\<close>; \<open>vsnprintf\<close> returns the length of its full output.\<close>

definition report_prefix_pushf :: "string \<Rightarrow> vararg list \<Rightarrow> report_state \<Rightarrow> err + report_state" where
  "report_prefix_pushf fmt va s =
     (let len = of_nat (length (prefixes s)); start = length (prefixes s)
      in bindE (assertE (len < prefixes_size)) (\<lambda>_.
         bindE (vsnprintf (prefixes_size - len) fmt va) (\<lambda>(text, n).
         let s = s\<lparr>prefixes := prefixes s @ text\<rparr>; len = len + n
         in bindE (assertE (len < prefixes_size)) (\<lambda>_.
            bindE (assertE (find_sub PREFIX_DELIMITER (drop start (prefixes s)) = None)) (\<lambda>_.
            bindE (snprintf (prefixes_size - len) PREFIX_DELIMITER []) (\<lambda>(text, n).
            let s = s\<lparr>prefixes := prefixes s @ text\<rparr>; len = len + n
            in bindE (assertE (len < prefixes_size)) (\<lambda>_. Inr s)))))))"

definition report_prefix_push :: "string \<Rightarrow> report_state \<Rightarrow> err + report_state" where
  "report_prefix_push p s = report_prefix_pushf ''%s'' [Str p] s"

text \<open>
  The loop of \<open>report_prefix_pop\<close>, with \<open>p\<close> and \<open>q\<close> as indices: where the last prefix starts. Without
  a delimiter after \<open>p\<close> it reads through NULL.
\<close>

function pop_loop :: "string \<Rightarrow> nat \<Rightarrow> err + nat" where
  "pop_loop s p =
     (case find_sub PREFIX_DELIMITER (drop p s) of
        None \<Rightarrow> Inl Null_deref
      | Some i \<Rightarrow> if p + i + 2 < length s then pop_loop s (p + i + 2) else Inr p)"
  by pat_completeness auto
termination by (relation "measure (\<lambda>(s, p). length s - p)") auto

declare pop_loop.simps [simp del]

definition report_prefix_pop :: "report_state \<Rightarrow> err + report_state" where
  "report_prefix_pop s =
     (if prefixes s = [] then Inr s
      else bindE (pop_loop (prefixes s) 0) (\<lambda>p. Inr (s\<lparr>prefixes := take p (prefixes s)\<rparr>)))"

definition va_report ::
    "string \<Rightarrow> bool \<Rightarrow> bool \<Rightarrow> bool \<Rightarrow> vararg list \<Rightarrow> report_state \<Rightarrow> err + report_state" where
  "va_report msg_fmt pass xfail skip va s =
     (let verdict = (if skip then ''SKIP''
                     else if xfail then (if pass then ''XPASS'' else ''XFAIL'')
                     else (if pass then ''PASS'' else ''FAIL''));
          s = s\<lparr>tests := tests s + 1\<rparr>
      in bindE (printf ''%s: '' [Str verdict]) (\<lambda>(out, _).
         let s = put_out out s; s = put_out (prefixes s) s
         in bindE (vprintf msg_fmt va) (\<lambda>(out, _).
            let s = put_out out s; s = put_out [CHR 0x0A] s
            in Inr (if skip then s\<lparr>skipped := skipped s + 1\<rparr>
                    else if xfail \<and> \<not> pass then s\<lparr>xfailures := xfailures s + 1\<rparr>
                    else if xfail \<or> \<not> pass then s\<lparr>failures := failures s + 1\<rparr> else s))))"

definition report :: "string \<Rightarrow> bool \<Rightarrow> vararg list \<Rightarrow> report_state \<Rightarrow> err + report_state" where
  "report msg_fmt pass va s = va_report msg_fmt pass False False va s"

definition report_xfail :: "string \<Rightarrow> bool \<Rightarrow> bool \<Rightarrow> vararg list \<Rightarrow> report_state \<Rightarrow> err + report_state" where
  "report_xfail msg_fmt xfail pass va s = va_report msg_fmt pass xfail False va s"

definition report_skip :: "string \<Rightarrow> vararg list \<Rightarrow> report_state \<Rightarrow> err + report_state" where
  "report_skip msg_fmt va s = va_report msg_fmt False False True va s"

definition report_info :: "string \<Rightarrow> vararg list \<Rightarrow> report_state \<Rightarrow> err + report_state" where
  "report_info msg_fmt va s =
     (let s = put_out ''INFO: '' s; s = put_out (prefixes s) s
      in bindE (vprintf msg_fmt va) (\<lambda>(out, _). Inr (put_out [CHR 0x0A] (put_out out s))))"

text \<open>A counter is printed as an \<open>int\<close>.\<close>

definition put_count :: "string \<Rightarrow> u32 \<Rightarrow> report_state \<Rightarrow> err + report_state" where
  "put_count fmt n s = bindE (printf fmt [Word (ucast n)]) (\<lambda>(out, _). Inr (put_out out s))"

definition report_summary :: "report_state \<Rightarrow> err + (report_state \<times> int)" where
  "report_summary s =
     bindE (put_count ''SUMMARY: %d tests'' (tests s) s) (\<lambda>s.
     bindE (if failures s \<noteq> 0 then put_count '', %d unexpected failures'' (failures s) s else Inr s) (\<lambda>s.
     bindE (if xfailures s \<noteq> 0 then put_count '', %d expected failures'' (xfailures s) s else Inr s) (\<lambda>s.
     bindE (if skipped s \<noteq> 0 then put_count '', %d skipped'' (skipped s) s else Inr s) (\<lambda>s.
     let s = put_out [CHR 0x0A] s
     in if tests s = skipped s then Inr (s, drop_bit 1 77)
        else Inr (s, if failures s > 0 then 1 else 0)))))"

definition report_abort :: "string \<Rightarrow> vararg list \<Rightarrow> report_state \<Rightarrow> err + report_state" where
  "report_abort msg_fmt va s =
     (let s = put_out ''ABORT: '' s; s = put_out (prefixes s) s
      in bindE (vprintf msg_fmt va) (\<lambda>(out, _).
         let s = put_out out s; s = put_out [CHR 0x0A] s
         in bindE (report_summary s) (\<lambda>_. Inl Aborted)))"

section \<open>The prefixes are a stack\<close>

text \<open>
  A name can be pushed when it has no delimiter in it; the buffer then is the names, each with the
  delimiter behind it.
\<close>

definition prefix_name :: "string \<Rightarrow> bool" where
  "prefix_name p \<longleftrightarrow> find_sub PREFIX_DELIMITER p = None"

definition prefix_text :: "string list \<Rightarrow> string" where
  "prefix_text ps = concat (map (\<lambda>p. p @ PREFIX_DELIMITER) ps)"

definition prefix_stack :: "string list \<Rightarrow> report_state \<Rightarrow> bool" where
  "prefix_stack ps s \<longleftrightarrow> prefixes s = prefix_text ps \<and> (\<forall>p \<in> set ps. prefix_name p) \<and>
     length (prefixes s) < 256"

lemma prefix_text_simps [simp]:
  "prefix_text [] = []" "prefix_text (p # ps) = p @ PREFIX_DELIMITER @ prefix_text ps"
  "prefix_text (ps @ qs) = prefix_text ps @ prefix_text qs"
  by (simp_all add: prefix_text_def)

lemma length_delimiter [simp]: "length PREFIX_DELIMITER = 2"
  by (simp add: PREFIX_DELIMITER_def)

lemma find_delimiter: "prefix_name p \<Longrightarrow> find_sub PREFIX_DELIMITER (p @ PREFIX_DELIMITER @ r) = Some (length p)"
proof (induction p)
  case Nil
  then show ?case by (simp add: find_sub_0)
next
  case (Cons c p)
  have "\<not> prefix PREFIX_DELIMITER (c # p @ PREFIX_DELIMITER @ r)"
    using Cons.prems by (cases p) (auto simp: prefix_name_def PREFIX_DELIMITER_def split: if_splits)
  moreover have "prefix_name p"
    using Cons.prems by (auto simp: prefix_name_def split: if_splits)
  ultimately show ?case using Cons.IH by simp
qed

lemma pop_loop_last:
  assumes "\<forall>p \<in> set (ps @ [q]). prefix_name p"
  shows "pop_loop (pre @ prefix_text (ps @ [q])) (length pre) = Inr (length pre + length (prefix_text ps))"
  using assms
proof (induction ps arbitrary: pre)
  case Nil
  then have "find_sub PREFIX_DELIMITER (q @ PREFIX_DELIMITER) = Some (length q)"
    using find_delimiter [of q "[]"] by simp
  then show ?case by (subst pop_loop.simps) simp
next
  case (Cons p ps)
  have "prefix_text (ps @ [q]) \<noteq> []" by (simp add: PREFIX_DELIMITER_def)
  then have "pop_loop (pre @ prefix_text ((p # ps) @ [q])) (length pre) =
      pop_loop ((pre @ p @ PREFIX_DELIMITER) @ prefix_text (ps @ [q])) (length (pre @ p @ PREFIX_DELIMITER))"
    using Cons.prems by (subst pop_loop.simps) (simp add: find_delimiter del: prefix_text_simps(3))
  also have "\<dots> = Inr (length (pre @ p @ PREFIX_DELIMITER) + length (prefix_text ps))"
    using Cons.prems by (intro Cons.IH) auto
  finally show ?case by simp
qed
lemma snprintf_delimiter:
  "snprintf sz PREFIX_DELIMITER [] = Inr (take (unat (sz - 1)) PREFIX_DELIMITER, 2)"
proof -
  have "vsnprintf_loop s PREFIX_DELIMITER [] = Inr (addstr s PREFIX_DELIMITER)" for s
    by (simp add: PREFIX_DELIMITER_def vsnprintf_loop.simps)
  then show ?thesis by (simp add: snprintf_def vsnprintf_def addstr_eq)
qed

lemma vsnprintf_s: "vsnprintf sz ''%s'' [Str p] = Inr (take (unat (sz - 1)) p, of_nat (length p))"
proof -
  have m: "morefmt ''s'' 0 default_props = (''s'', 0, default_props)" by code_simp
  have "pad_str p default_props = p" by (simp add: pad_str_def default_props_def)
  then have "vsnprintf_loop s ''%s'' [Str p] = Inr (addstr s p)" for s
    by (subst vsnprintf_loop.simps)
      (simp add: m convert_def va_str_def print_str_addstr vsnprintf_loop.simps [of _ "[]"])
  then show ?thesis by (simp add: vsnprintf_def addstr_eq)
qed

lemma of_nat_less_256: "n < 2 ^ 32 \<Longrightarrow> (of_nat n :: u32) < 256 \<longleftrightarrow> n < 256"
  by (simp add: word_less_nat_alt unat_of_nat take_bit_nat_eq_self)

lemma push_run:
  assumes st: "prefix_stack ps s" and len: "length p < 2 ^ 31"
  shows "report_prefix_push p s =
    (if prefix_name p \<and> length (prefixes s) + length p + 2 < 256
     then Inr (s\<lparr>prefixes := prefixes s @ p @ PREFIX_DELIMITER\<rparr>) else Inl Assert_failed)"
proof -
  let ?n = "length (prefixes s)"
  have n: "?n < 256" using st unfolding prefix_stack_def by blast
  have u: "unat (prefixes_size - of_nat k - 1) = 255 - k" if "k < 256" for k
  proof -
    have "prefixes_size - of_nat k - 1 = 255 - of_nat k" by (simp add: prefixes_size_def)
    also have "\<dots> = of_nat (255 - k)" using that by (simp add: of_nat_diff)
    finally have eq: "prefixes_size - of_nat k - 1 = of_nat (255 - k)" .
    show ?thesis unfolding eq using that by (simp add: unat_of_nat take_bit_nat_eq_self del: of_nat_diff)
  qed
  have fits: "(of_nat (?n + length p) :: u32) < prefixes_size \<longleftrightarrow> ?n + length p < 256"
    unfolding prefixes_size_def by (rule of_nat_less_256) (use n len in simp)
  have fits2: "(of_nat (?n + length p + 2) :: u32) < prefixes_size \<longleftrightarrow> ?n + length p + 2 < 256"
    unfolding prefixes_size_def by (rule of_nat_less_256) (use n len in simp)
  then have fits3: "(of_nat ?n + (of_nat (length p) + 2) :: u32) < prefixes_size \<longleftrightarrow> ?n + length p < 254"
    by (simp add: ac_simps)
  have n': "(of_nat ?n :: u32) < prefixes_size"
    unfolding prefixes_size_def using n by (subst of_nat_less_256) simp_all
  show ?thesis
  proof (cases "?n + length p < 256")
    case True
    then have "take (255 - ?n) p = p" by simp
    moreover have "take (255 - (?n + length p)) PREFIX_DELIMITER = PREFIX_DELIMITER"
      if "?n + length p + 2 < 256" using that by simp
    ultimately show ?thesis
      using n' fits fits3 True u [OF n] u [OF True]
      by (cases "?n + length p < 254"; cases "find_sub PREFIX_DELIMITER p")
        (simp_all add: report_prefix_push_def report_prefix_pushf_def vsnprintf_s snprintf_delimiter Let_def
          prefix_name_def add.assoc)
  next
    case False
    then show ?thesis using n' fits
      by (simp add: report_prefix_push_def report_prefix_pushf_def vsnprintf_s Let_def)
  qed
qed

text \<open>
  C17: The prefixes are a stack of names. \<open>report_prefix_push\<close> pushes a name if it has no delimiter in it
  and there is room, and fails its assertion otherwise; \<open>report_prefix_pop\<close> removes the last name, also
  when that is empty, never reads through NULL, and leaves an empty stack alone.
\<close>

theorem report_prefix_stack:
  assumes "prefix_stack ps s" "length p < 2 ^ 31"
  shows "(case report_prefix_push p s of
       Inr s' \<Rightarrow> prefix_stack (ps @ [p]) s'
     | Inl e \<Rightarrow> e = Assert_failed \<and> (\<not> prefix_name p \<or> 256 \<le> length (prefix_text (ps @ [p])))) \<and>
    (\<exists>s'. report_prefix_pop s = Inr s' \<and> prefix_stack (butlast ps) s')"
proof
  have s: "prefixes s = prefix_text ps" "\<forall>p \<in> set ps. prefix_name p" "length (prefixes s) < 256"
    using assms(1) unfolding prefix_stack_def by blast+
  show "case report_prefix_push p s of Inr s' \<Rightarrow> prefix_stack (ps @ [p]) s'
     | Inl e \<Rightarrow> e = Assert_failed \<and> (\<not> prefix_name p \<or> 256 \<le> length (prefix_text (ps @ [p])))"
    using s unfolding push_run [OF assms] by (auto simp: prefix_stack_def)
  show "\<exists>s'. report_prefix_pop s = Inr s' \<and> prefix_stack (butlast ps) s'"
  proof (cases ps rule: rev_cases)
    case Nil
    then show ?thesis using s by (simp add: report_prefix_pop_def prefix_stack_def)
  next
    case (snoc qs q)
    have "pop_loop (prefixes s) 0 = Inr (length (prefix_text qs))"
      using pop_loop_last [of qs q "[]"] s snoc by simp
    moreover have "prefixes s \<noteq> []" using s(1) snoc by (simp add: PREFIX_DELIMITER_def)
    ultimately show ?thesis using s snoc by (simp add: report_prefix_pop_def prefix_stack_def)
  qed
qed

definition report_init :: report_state where
  "report_init = \<lparr>tests = 0, failures = 0, xfailures = 0, skipped = 0, prefixes = [], console = []\<rparr>"

lemma report_prefix_stack_witness:
  "\<exists>s'. report_prefix_push ''vmx'' report_init = Inr s' \<and> prefixes s' = ''vmx: ''"
proof -
  have "prefix_stack [] report_init" by (simp add: prefix_stack_def report_init_def)
  then have "(case report_prefix_push ''vmx'' report_init of Inr s' \<Rightarrow> prefix_stack ([] @ [''vmx'']) s'
     | Inl e \<Rightarrow> e = Assert_failed \<and> (\<not> prefix_name ''vmx'' \<or> 256 \<le> length (prefix_text ([] @ [''vmx''])))) \<and>
    (\<exists>s'. report_prefix_pop report_init = Inr s' \<and> prefix_stack (butlast []) s')"
    by (rule report_prefix_stack) simp
  then
  have "case report_prefix_push ''vmx'' report_init of Inr s' \<Rightarrow> prefix_stack [''vmx''] s'
     | Inl e \<Rightarrow> e = Assert_failed \<and> (\<not> prefix_name ''vmx'' \<or> 256 \<le> length (prefix_text [''vmx'']))"
    unfolding append_Nil by blast
  moreover have "prefix_name ''vmx''" "\<not> 256 \<le> length (prefix_text [''vmx''])"
    by (simp_all add: prefix_name_def PREFIX_DELIMITER_def)
  ultimately show ?thesis by (auto simp: prefix_stack_def PREFIX_DELIMITER_def split: sum.splits)
qed
section \<open>The exit status\<close>

lemma vsnprintf_loop_plain:
  "CHR ''%'' \<notin> set x \<Longrightarrow> vsnprintf_loop s (x @ fmt) va = vsnprintf_loop (addstr s x) fmt va"
proof (induction x arbitrary: s)
  case (Cons c x)
  then show ?case by (subst vsnprintf_loop.simps) auto
qed simp

lemma vsnprintf_loop_d:
  "vsnprintf_loop s (''%d'' @ fmt) (Word w # va) =
    vsnprintf_loop (addstr s (int_str 10 (sint (as_int 0 w)))) fmt va"
proof -
  have m: "morefmt (CHR ''d'' # fmt) 0 default_props = (CHR ''d'' # fmt, 0, default_props)"
    by (subst morefmt.simps) (simp add: is_numflag_def)
  have c: "convert s (CHR ''d'' # fmt) (Word w # va) 0 default_props =
      Inr (addstr s (int_str 10 (sint (as_int 0 w))), fmt, va)"
    using print_int_addstr [of 10 "as_int 0 w" s default_props] as_int_not_least [of w]
    by (simp add: convert_def va_word_def pad_str_def default_props_def)
  show ?thesis by (subst vsnprintf_loop.simps) (simp add: m c)
qed

lemma put_count_out:
  assumes "CHR ''%'' \<notin> set x" "CHR ''%'' \<notin> set y"
  shows "\<exists>out. put_count (x @ ''%d'' @ y) n s = Inr (put_out out s)"
proof -
  have "vsnprintf_loop p (y @ []) [] = Inr (addstr p y)" for p
    by (subst vsnprintf_loop_plain [OF assms(2)]) (simp add: vsnprintf_loop.simps)
  then have "vsnprintf_loop p (x @ ''%d'' @ y) [Word (ucast n)] =
      Inr (addstr (addstr (addstr p x) (int_str 10 (sint (as_int 0 (ucast n))))) y)" for p
    by (simp only: vsnprintf_loop_plain [OF assms(1)] vsnprintf_loop_d append_Nil2)
  then show ?thesis by (simp add: put_count_def printf_def vsnprintf_def) (rule exI, rule refl)
qed

text \<open>What a test reports, one call at a time.\<close>

datatype report_op = Passed | Reported (op_pass: bool) (op_xfail: bool) (op_skip: bool) string "vararg list"

primrec run_op :: "report_op \<Rightarrow> report_state \<Rightarrow> err + report_state" where
  "run_op Passed s = Inr (report_pass s)"
| "run_op (Reported pass xfail skip fmt va) s = va_report fmt pass xfail skip va s"

primrec run_ops :: "report_op list \<Rightarrow> report_state \<Rightarrow> err + report_state" where
  "run_ops [] s = Inr s"
| "run_ops (r # rs) s = bindE (run_op r s) (run_ops rs)"

primrec was_skipped :: "report_op \<Rightarrow> bool" where
  "was_skipped Passed \<longleftrightarrow> False"
| "was_skipped (Reported pass xfail skip fmt va) \<longleftrightarrow> skip"

primrec unexpected :: "report_op \<Rightarrow> bool" where
  "unexpected Passed \<longleftrightarrow> False"
| "unexpected (Reported pass xfail skip fmt va) \<longleftrightarrow> \<not> skip \<and> pass = xfail"

lemma prefixes_put_out: "prefixes (put_out out s) = prefixes s"
  by (simp add: put_out_def)

lemma prefixes_tests: "prefixes (s\<lparr>tests := n\<rparr>) = prefixes s"
  by simp

lemma va_report_counts:
  assumes "va_report fmt pass xfail skip va s = Inr s'"
  shows "\<exists>out. s' = (let s = s\<lparr>tests := tests s + 1, console := out\<rparr>
     in if skip then s\<lparr>skipped := skipped s + 1\<rparr>
        else if xfail \<and> \<not> pass then s\<lparr>xfailures := xfailures s + 1\<rparr>
        else if xfail \<or> \<not> pass then s\<lparr>failures := failures s + 1\<rparr> else s)"
proof -
  define verdict where "verdict = (if skip then ''SKIP''
                     else if xfail then (if pass then ''XPASS'' else ''XFAIL'')
                     else (if pass then ''PASS'' else ''FAIL''))"
  have s': "bindE (printf ''%s: '' [Str verdict]) (\<lambda>(o1, _).
      bindE (vprintf fmt va) (\<lambda>(o2, _). let s = put_out [CHR 0x0A] (put_out o2 (put_out (prefixes s)
          (put_out o1 (s\<lparr>tests := tests s + 1\<rparr>))))
        in Inr (if skip then s\<lparr>skipped := skipped s + 1\<rparr>
                else if xfail \<and> \<not> pass then s\<lparr>xfailures := xfailures s + 1\<rparr>
                else if xfail \<or> \<not> pass then s\<lparr>failures := failures s + 1\<rparr> else s))) = Inr s'"
    using assms unfolding va_report_def verdict_def [symmetric] Let_def
    by (simp only: prefixes_put_out prefixes_tests)
  obtain o1 n1 where p: "printf ''%s: '' [Str verdict] = Inr (o1, n1)" using s' by (cases "printf ''%s: '' [Str verdict]") auto
  obtain o2 n2 where v: "vprintf fmt va = Inr (o2, n2)" using s' p by (cases "vprintf fmt va") auto
  define out where "out = console s @ o1 @ prefixes s @ o2 @ [CHR 0x0A]"
  have "put_out [CHR 0x0A] (put_out o2 (put_out (prefixes s) (put_out o1 (s\<lparr>tests := tests s + 1\<rparr>)))) =
      s\<lparr>tests := tests s + 1, console := out\<rparr>" by (cases s) (simp add: put_out_def out_def)
  with s' p v have "Inr s' = (Inr (let s = s\<lparr>tests := tests s + 1, console := out\<rparr>
     in if skip then s\<lparr>skipped := skipped s + 1\<rparr>
        else if xfail \<and> \<not> pass then s\<lparr>xfailures := xfailures s + 1\<rparr>
        else if xfail \<or> \<not> pass then s\<lparr>failures := failures s + 1\<rparr> else s) :: err + report_state)"
    by (simp only: bindE_Inr prod.case Let_def)
  then show ?thesis by (simp only: sum.inject) (rule exI, rule refl)
qed

lemma run_op_counts:
  assumes "run_op r s = Inr s'"
  shows "tests s' = tests s + 1" "skipped s' = skipped s + (if was_skipped r then 1 else 0)"
    "failures s' = failures s + (if unexpected r then 1 else 0)"
proof -
  have "tests s' = tests s + 1 \<and> skipped s' = skipped s + (if was_skipped r then 1 else 0) \<and>
    failures s' = failures s + (if unexpected r then 1 else 0)"
  proof (cases r)
    case Passed
    then show ?thesis using assms by (auto simp: report_pass_def)
  next
    case (Reported pass xfail skip fmt va)
    then have "va_report fmt pass xfail skip va s = Inr s'" using assms by simp
    from va_report_counts [OF this] obtain out where "s' = (let s = s\<lparr>tests := tests s + 1, console := out\<rparr>
     in if skip then s\<lparr>skipped := skipped s + 1\<rparr>
        else if xfail \<and> \<not> pass then s\<lparr>xfailures := xfailures s + 1\<rparr>
        else if xfail \<or> \<not> pass then s\<lparr>failures := failures s + 1\<rparr> else s)"
      by (elim exE)
    then show ?thesis unfolding Reported Let_def by (cases pass; cases xfail; cases skip; simp)
  qed
  then show "tests s' = tests s + 1" "skipped s' = skipped s + (if was_skipped r then 1 else 0)"
    "failures s' = failures s + (if unexpected r then 1 else 0)" by blast+
qed

lemma run_ops_counts:
  assumes "run_ops rs s = Inr s'"
  shows "tests s' = tests s + of_nat (length rs)"
    "skipped s' = skipped s + of_nat (length (filter was_skipped rs))"
    "failures s' = failures s + of_nat (length (filter unexpected rs))"
proof -
  have "tests s' = tests s + of_nat (length rs) \<and> skipped s' = skipped s + of_nat (length (filter was_skipped rs)) \<and>
    failures s' = failures s + of_nat (length (filter unexpected rs))"
    using assms
  proof (induction rs arbitrary: s)
    case (Cons r rs)
    then obtain s1 where s1: "run_op r s = Inr s1" "run_ops rs s1 = Inr s'" by (cases "run_op r s") auto
    show ?case using Cons.IH [OF s1(2)] run_op_counts [OF s1(1)] by simp
  qed simp
  then show "tests s' = tests s + of_nat (length rs)"
    "skipped s' = skipped s + of_nat (length (filter was_skipped rs))"
    "failures s' = failures s + of_nat (length (filter unexpected rs))" by blast+
qed

lemma report_summary_code:
  "\<exists>s'. report_summary s = Inr (s', if tests s = skipped s then 38 else if failures s > 0 then 1 else 0)"
proof -
  have x: "\<exists>out. put_count ''SUMMARY: %d tests'' n s = Inr (put_out out s)"
    "\<exists>out. put_count '', %d unexpected failures'' n s = Inr (put_out out s)"
    "\<exists>out. put_count '', %d expected failures'' n s = Inr (put_out out s)"
    "\<exists>out. put_count '', %d skipped'' n s = Inr (put_out out s)" for n s
    using put_count_out [of "''SUMMARY: ''" "'' tests''" n s] put_count_out [of "'', ''" "'' unexpected failures''" n s]
      put_count_out [of "'', ''" "'' expected failures''" n s] put_count_out [of "'', ''" "'' skipped''" n s]
    by simp_all
  let ?P = "\<lambda>s'. tests s' = tests s \<and> failures s' = failures s \<and> xfailures s' = xfailures s \<and> skipped s' = skipped s"
  have step: "\<exists>s2. (if b then put_count fmt n s1 else Inr s1) = Inr s2 \<and> ?P s2"
    if "\<And>n s. \<exists>out. put_count fmt n s = Inr (put_out out s)" "?P s1" for b fmt n s1
    using that(1) [of n s1] that(2) by (auto simp: put_out_def)
  obtain s1 where s1: "put_count ''SUMMARY: %d tests'' (tests s) s = Inr s1" "?P s1"
    using x(1) [of "tests s" s] by (auto simp: put_out_def)
  obtain s2 where s2: "(if failures s1 \<noteq> 0 then put_count '', %d unexpected failures'' (failures s1) s1 else Inr s1) = Inr s2" "?P s2"
    using step [OF x(2) s1(2)] by blast
  obtain s3 where s3: "(if xfailures s2 \<noteq> 0 then put_count '', %d expected failures'' (xfailures s2) s2 else Inr s2) = Inr s3" "?P s3"
    using step [OF x(3) s2(2)] by blast
  obtain s4 where s4: "(if skipped s3 \<noteq> 0 then put_count '', %d skipped'' (skipped s3) s3 else Inr s3) = Inr s4" "?P s4"
    using step [OF x(4) s3(2)] by blast
  have "drop_bit 1 (77 :: int) = 38" by code_simp
  then show ?thesis using s1(1) s2(1) s3(1) s4
    by (simp only: report_summary_def bindE_Inr Let_def) (simp add: put_out_def)
qed

text \<open>
  The exit status of a test that makes fewer than \<open>2 ^ 32\<close> reports and then calls \<open>report_summary\<close>: 38
  if every report was a skip, or there was none; otherwise 1 if some report was unexpected (a failure, or the
  pass of a test that was to fail), and 0 if not.
\<close>

theorem report_summary_verdict:
  assumes "run_ops rs report_init = Inr s" "length rs < 2 ^ 32"
  shows "\<exists>s'. report_summary s = Inr (s',
    if \<forall>r \<in> set rs. was_skipped r then 38 else if \<exists>r \<in> set rs. unexpected r then 1 else 0)"
proof -
  have small: "length (filter P rs) < 2 ^ 32" for P :: "report_op \<Rightarrow> bool"
    using assms(2) length_filter_le [of P rs] by linarith
  have c: "tests s = of_nat (length rs)" "skipped s = of_nat (length (filter was_skipped rs))"
    "failures s = of_nat (length (filter unexpected rs))"
    using run_ops_counts [OF assms(1)] by (simp_all add: report_init_def)
  have "tests s = skipped s \<longleftrightarrow> length rs = length (filter was_skipped rs)"
    unfolding c using assms(2) small [of was_skipped]
    by (metis of_nat_inverse len_words(2))
  also have "\<dots> \<longleftrightarrow> (\<forall>r \<in> set rs. was_skipped r)"
    by (metis filter_True length_filter_less less_irrefl)
  finally have all: "tests s = skipped s \<longleftrightarrow> (\<forall>r \<in> set rs. was_skipped r)" .
  have "failures s > 0 \<longleftrightarrow> length (filter unexpected rs) > 0"
    unfolding c word_less_nat_alt using small [of unexpected] by (simp add: unat_of_nat take_bit_nat_eq_self)
  then have "failures s > 0 \<longleftrightarrow> (\<exists>r \<in> set rs. unexpected r)" by (auto simp: filter_empty_conv)
  with all report_summary_code [of s] show ?thesis by (simp only:)
qed

lemma report_summary_verdict_witness:
  "\<exists>s s'. run_ops [Passed, Reported False True False [] []] report_init = Inr s \<and> report_summary s = Inr (s', 0)"
proof -
  have p: "vsnprintf_loop p ''%s: '' [Str v] = Inr (addstr p (v @ '': ''))" for p v
  proof -
    have "morefmt ''s: '' 0 default_props = (''s: '', 0, default_props)" by code_simp
    moreover have "pad_str v default_props = v" by (simp add: pad_str_def default_props_def)
    ultimately show ?thesis by (subst vsnprintf_loop.simps)
      (simp add: convert_def va_str_def print_str_addstr addstr_append vsnprintf_loop.simps)
  qed
  have "\<exists>s. run_ops [Passed, Reported False True False [] []] report_init = Inr s"
    by (simp add: va_report_def printf_def vprintf_def vsnprintf_def p vsnprintf_loop.simps [of _ "[]"] Let_def)
  then obtain s where s: "run_ops [Passed, Reported False True False [] []] report_init = Inr s" by blast
  then show ?thesis using report_summary_verdict [OF s] by auto
qed
end
