(* ===== verification/Argv.thy ===== *)
theory Argv
  imports CString
begin

text \<open>
  The arguments of \<open>main\<close> and the environment, \<open>lib/argv.c\<close>, over the byte memory of the string
  functions. The words of the argument string are copied to the 1000 bytes of \<open>args_copy\<close>, and
  \<open>argv\<close> points at the copies; the environment is cut into strings in place. The source has no bounds
  checks: a store past \<open>args_copy\<close>, \<open>__argv\<close> or \<open>__environ\<close> is an error value. A loop that finds no
  NUL does not end, which is \<open>None\<close>.
\<close>

record argv_state =
  bytes :: mem
  argc :: nat
  argv :: "u64 list"
  env_vars :: "u64 list"
  args_copy :: u64
  copy_ptr :: u64
  messages :: "u8 list list"

definition args_copy_size :: nat where "args_copy_size = 1000"
definition argv_size :: nat where "argv_size = 100"
definition environ_size :: nat where "environ_size = 200"

definition isblank :: "u8 \<Rightarrow> bool" where
  "isblank c \<longleftrightarrow> c = 32 \<or> c = 9"

definition isalpha :: "u8 \<Rightarrow> bool" where
  "isalpha c \<longleftrightarrow> 65 \<le> c \<and> c \<le> 90 \<or> 97 \<le> c \<and> c \<le> 122 \<or> c = 95"

definition isalnum :: "u8 \<Rightarrow> bool" where
  "isalnum c \<longleftrightarrow> isalpha c \<or> 48 \<le> c \<and> c \<le> 57"

section \<open>Arguments\<close>

partial_function (option) skip_blanks :: "mem \<Rightarrow> u64 \<Rightarrow> u64 option" where
  "skip_blanks m p = (if isblank (m p) then skip_blanks m (p + 1) else Some p)"

text \<open>\<open>*copy_ptr++ = c\<close>.\<close>

definition put_copy :: "u8 \<Rightarrow> argv_state \<Rightarrow> err + argv_state" where
  "put_copy c s =
     (if unat (copy_ptr s - args_copy s) < args_copy_size
      then Inr (s\<lparr>bytes := (bytes s)(copy_ptr s := c), copy_ptr := copy_ptr s + 1\<rparr>)
      else Inl Out_of_bounds)"

partial_function (option) copy_word :: "u64 \<Rightarrow> argv_state \<Rightarrow> (err + (argv_state \<times> u64)) option" where
  "copy_word args s =
     (if bytes s args \<noteq> 0 \<and> \<not> isblank (bytes s args) then
        (case put_copy (bytes s args) s of
           Inl e \<Rightarrow> Some (Inl e)
         | Inr s \<Rightarrow> copy_word (args + 1) s)
      else Some (Inr (s, args)))"

text \<open>The loop of \<open>__setup_args\<close>; \<open>n\<close> is the index \<open>argv - __argv\<close>.\<close>

partial_function (option) setup_args_loop :: "u64 \<Rightarrow> nat \<Rightarrow> argv_state \<Rightarrow> (err + (argv_state \<times> nat)) option" where
  "setup_args_loop args n s =
     Option.bind (skip_blanks (bytes s) args) (\<lambda>args.
     if bytes s args = 0 then Some (Inr (s, n))
     else if argv_size \<le> n then Some (Inl Out_of_bounds)
     else let s = s\<lparr>argv := (argv s)[n := copy_ptr s]\<rparr>
          in Option.bind (copy_word args s) (\<lambda>r.
             case r of Inl e \<Rightarrow> Some (Inl e)
             | Inr (s, args) \<Rightarrow>
                 (case put_copy 0 s of
                    Inl e \<Rightarrow> Some (Inl e)
                  | Inr s \<Rightarrow> setup_args_loop args (n + 1) s)))"

definition setup_args_from :: "u64 \<Rightarrow> argv_state \<Rightarrow> err + argv_state" where
  "setup_args_from args s =
     bindE (loopE (setup_args_loop args (argc s) s)) (\<lambda>r. bindE r (\<lambda>(s, n). Inr (s\<lparr>argc := n\<rparr>)))"

definition setup_args :: "u64 \<Rightarrow> argv_state \<Rightarrow> err + argv_state" where
  "setup_args args s = (if args = 0 then Inr s else setup_args_from args s)"

text \<open>\<open>progname\<close> is the address of \<open>auxinfo.progname\<close>; \<open>strcpy\<close> stores its length and a NUL.\<close>

definition setup_args_progname :: "u64 \<Rightarrow> u64 \<Rightarrow> argv_state \<Rightarrow> err + argv_state" where
  "setup_args_progname progname args s =
     bindE (loopE (strlen (bytes s) progname)) (\<lambda>n.
     if args_copy_size < unat (copy_ptr s - args_copy s) + unat n + 1 then Inl Out_of_bounds
     else let s = s\<lparr>argv := (argv s)[0 := copy_ptr s]\<rparr>
          in bindE (loopE (strcpy (bytes s) (copy_ptr s) progname)) (\<lambda>(m, _).
             setup_args args (s\<lparr>bytes := m, copy_ptr := copy_ptr s + n + 1, argc := argc s + 1\<rparr>)))"

section \<open>The environment\<close>

partial_function (option) env_eol :: "mem \<Rightarrow> u64 \<Rightarrow> u64 option" where
  "env_eol m env = (if m env \<noteq> 0 \<and> m env \<noteq> 10 then env_eol m (env + 1) else Some env)"

text \<open>What a \<open>%s\<close> for the address prints.\<close>

partial_function (option) read_cstr :: "mem \<Rightarrow> u64 \<Rightarrow> u8 list option" where
  "read_cstr m p = (if m p = 0 then Some [] else Option.bind (read_cstr m (p + 1)) (\<lambda>x. Some (m p # x)))"

text \<open>
  The line is ended by a NUL while it is printed, and restored; the message \<open>Invalid environment
  variable\<close> is recorded by the text it prints.
\<close>

definition env_invalid_eol :: "u64 \<Rightarrow> argv_state \<Rightarrow> (argv_state \<times> u64) option" where
  "env_invalid_eol env s =
     Option.bind (env_eol (bytes s) env) (\<lambda>eol.
     let eol_old = bytes s eol; s = s\<lparr>bytes := (bytes s)(eol := 0)\<rparr>
     in Option.bind (read_cstr (bytes s) env) (\<lambda>line.
        let s = s\<lparr>messages := messages s @ [line]\<rparr>
        in Some (s\<lparr>bytes := (bytes s)(eol := eol_old)\<rparr>, eol)))"

text \<open>The scan of a name: where it stops, and whether an invalid character was seen.\<close>

partial_function (option) scan_name :: "mem \<Rightarrow> u64 \<Rightarrow> bool \<Rightarrow> (u64 \<times> bool) option" where
  "scan_name m p invalid =
     (if m p \<noteq> 0 \<and> m p \<noteq> 61 \<and> m p \<noteq> 10 then scan_name m (p + 1) (if \<not> isalnum (m p) then True else invalid)
      else Some (p, invalid))"

partial_function (option) env_next :: "u64 \<Rightarrow> argv_state \<Rightarrow> (argv_state \<times> u64) option" where
  "env_next env s =
     (if bytes s env = 0 then Some (s, env)
      else if isalpha (bytes s env) then
        Option.bind (scan_name (bytes s) (env + 1) False) (\<lambda>(p, invalid).
        let invalid = (if bytes s p \<noteq> 61 then True else invalid)
        in if invalid then
             Option.bind (env_invalid_eol env s) (\<lambda>(s, env).
             if bytes s env \<noteq> 0 then env_next (env + 1) s else Some (s, env))
           else Some (s, env))
      else
        Option.bind (skip_blanks (bytes s) env) (\<lambda>p.
        if bytes s p = 10 then env_next (p + 1) s
        else
          Option.bind (if bytes s p = 35 then map_option (\<lambda>e. (s, e)) (env_eol (bytes s) env)
                       else env_invalid_eol env s) (\<lambda>(s, env).
          if bytes s env \<noteq> 0 then env_next (env + 1) s else Some (s, env))))"

text \<open>The end of a variable: the end of the buffer, a NUL, or a newline when lines are variables.\<close>

partial_function (option) env_end :: "mem \<Rightarrow> u64 \<Rightarrow> u64 \<Rightarrow> bool \<Rightarrow> u64 option" where
  "env_end m env eof newline =
     (if env < eof \<and> m env \<noteq> 0 \<and> \<not> (newline \<and> m env = 10) then env_end m (env + 1) eof newline
      else Some env)"

text \<open>The NUL after the last variable can be stored at \<open>eof\<close>, one byte behind the buffer.\<close>

partial_function (option) setup_env_loop ::
    "u64 \<Rightarrow> u64 \<Rightarrow> bool \<Rightarrow> nat \<Rightarrow> argv_state \<Rightarrow> (err + argv_state) option" where
  "setup_env_loop env eof newline i s =
     (if \<not> env < eof then Some (Inr s)
      else
        Option.bind (if newline then env_next env s else Some (s, env)) (\<lambda>(s, env).
        if bytes s env = 0 \<or> eof \<le> env then Some (Inr s)
        else if environ_size \<le> i then Some (Inl Out_of_bounds)
        else let s = s\<lparr>env_vars := (env_vars s)[i := env]\<rparr>
             in Option.bind (env_end (bytes s) env eof newline) (\<lambda>env.
                let s = s\<lparr>bytes := (bytes s)(env := 0)\<rparr>
                in setup_env_loop (env + 1) eof newline (i + 1) s)))"

definition setup_env :: "u64 \<Rightarrow> u32 \<Rightarrow> argv_state \<Rightarrow> err + argv_state" where
  "setup_env env sz s =
     (let eof = env + scast sz
      in bindE (loopE (skip_string (bytes s) env)) (\<lambda>p.
         bindE (loopE (setup_env_loop env eof (p = eof) 0 s)) (\<lambda>r. r)))"

declare skip_blanks.simps [code] copy_word.simps [code] setup_args_loop.simps [code] env_eol.simps [code]
  read_cstr.simps [code] scan_name.simps [code] env_next.simps [code] env_end.simps [code]
  setup_env_loop.simps [code]

section \<open>The words of the arguments\<close>

function words :: "u8 list \<Rightarrow> u8 list list" where
  "words x = (let y = dropWhile isblank x
     in if y = [] then [] else takeWhile (\<lambda>c. \<not> isblank c) y # words (dropWhile (\<lambda>c. \<not> isblank c) y))"
  by pat_completeness auto
termination
proof (relation "measure length", goal_cases)
  case (2 x y)
  obtain c z where y: "y = c # z" using 2(2) by (cases y) blast+
  then have "\<not> isblank c" using hd_dropWhile [of isblank x] 2 by (metis list.sel(1))
  then have "length (dropWhile (\<lambda>c. \<not> isblank c) y) \<le> length z"
    using length_dropWhile_le [of "\<lambda>c. \<not> isblank c" z] by (simp add: y)
  moreover have "length y \<le> length x" using 2 length_dropWhile_le by simp
  ultimately show ?case using y by simp
qed simp

declare words.simps [simp del]
lemma words_blank: "isblank c \<Longrightarrow> words (c # x) = words x"
  by (subst (1 2) words.simps) simp

lemma words_dropWhile: "words (dropWhile isblank x) = words x"
  by (induction x) (simp_all add: words_blank)

lemma words_Nil [simp]: "words [] = []"
  by (subst words.simps) simp

lemma words_word:
  assumes "\<not> isblank c"
  shows "words (c # x) = takeWhile (\<lambda>c. \<not> isblank c) (c # x) # words (dropWhile (\<lambda>c. \<not> isblank c) (c # x))"
  using assms by (subst words.simps) simp

lemma isblank_0: "\<not> isblank 0"
  by (simp add: isblank_def)

lemma skip_blanks_cstr:
  "cstr m a x \<Longrightarrow> skip_blanks m a = Some (a + of_nat (length (takeWhile isblank x)))"
proof (induction x arbitrary: a)
  case Nil
  then show ?case by (subst skip_blanks.simps) (simp add: isblank_0)
next
  case (Cons c x)
  then show ?case by (subst skip_blanks.simps) (auto simp: algebra_simps)
qed

lemma copy_ptr_room:
  fixes p b :: u64
  assumes "unat (p - b) + k \<le> args_copy_size"
  shows "unat (p + of_nat k - b) = unat (p - b) + k"
proof -
  have "p + of_nat k - b = (p - b) + of_nat k" by simp
  moreover have "unat (of_nat k :: u64) = k"
    using assms by (simp add: unat_of_nat_64 args_copy_size_def)
  moreover from this have "unat (p - b) + unat (of_nat k :: u64) < 2 ^ 64"
    using assms by (simp add: args_copy_size_def)
  ultimately show ?thesis using unat_add_noov by metis
qed

lemma copy_word_run:
  fixes s :: "argv_state"
  defines "nb \<equiv> \<lambda>c. \<not> isblank c"
  assumes "cstr (bytes s) a x" "addrs a (Suc (length x)) \<inter> addrs (copy_ptr s) (length (takeWhile nb x)) = {}"
    and "unat (copy_ptr s - args_copy s) + length (takeWhile nb x) \<le> args_copy_size"
  shows "copy_word a s = Some (Inr (s\<lparr>bytes := put (bytes s) (copy_ptr s) (takeWhile nb x),
    copy_ptr := copy_ptr s + of_nat (length (takeWhile nb x))\<rparr>, a + of_nat (length (takeWhile nb x))))"
  using assms(2-)
proof (induction x arbitrary: a s)
  case Nil
  then show ?case by (subst copy_word.simps) simp
next
  case (Cons c x)
  show ?case
  proof (cases "isblank c")
    case True
    then show ?thesis using Cons.prems(1) by (subst copy_word.simps) (simp add: nb_def)
  next
    case False
    let ?s = "s\<lparr>bytes := (bytes s)(copy_ptr s := c), copy_ptr := copy_ptr s + 1\<rparr>"
    let ?w = "takeWhile nb x"
    have c: "bytes s a = c" "c \<noteq> 0" "cstr (bytes s) (a + 1) x" using Cons.prems(1) by auto
    have lt: "unat (copy_ptr s - args_copy s) + Suc (length ?w) \<le> args_copy_size"
      using Cons.prems(3) False by (simp add: nb_def)
    then have room: "unat (copy_ptr s - args_copy s) < args_copy_size" by simp
    have disj: "addrs a (Suc (Suc (length x))) \<inter> addrs (copy_ptr s) (Suc (length ?w)) = {}"
      using Cons.prems(2) False by (simp add: nb_def)
    have "cstr (bytes ?s) (a + 1) x"
      by (rule cstr_frame [OF c(3)]) (use disj in \<open>auto simp: addrs_Suc\<close>)
    moreover have "addrs (a + 1) (Suc (length x)) \<inter> addrs (copy_ptr ?s) (length ?w) = {}"
      using disj by (auto simp: addrs_Suc)
    moreover have "unat (copy_ptr ?s - args_copy ?s) = unat (copy_ptr s - args_copy s) + 1"
      using copy_ptr_room [of "copy_ptr s" "args_copy s" 1] lt by simp
    then have "unat (copy_ptr ?s - args_copy ?s) + length ?w \<le> args_copy_size" using lt by simp
    ultimately have IH: "copy_word (a + 1) ?s = Some (Inr (?s\<lparr>bytes := put (bytes ?s) (copy_ptr ?s) ?w,
        copy_ptr := copy_ptr ?s + of_nat (length ?w)\<rparr>, a + 1 + of_nat (length ?w)))"
      by (rule Cons.IH)
    then show ?thesis using c False room
      by (subst copy_word.simps) (simp add: put_copy_def nb_def algebra_simps)
  qed
qed

lemma addrs_after:
  assumes "k + n \<le> 2 ^ 63"
  shows "addrs a k \<inter> addrs (a + of_nat k) n = {}"
proof (cases "k = 0")
  case False
  have k: "unat (of_nat k :: u64) = k" using assms by (simp add: unat_of_nat_64)
  moreover have "unat (- of_nat k :: u64) = 2 ^ 64 - k"
    using unat_sub_if_size [of 0 "of_nat k :: u64"] k False by (simp add: word_size)
  ultimately show ?thesis using assms by (intro addrs_disjointI) simp_all
qed simp

definition words_size :: "u8 list \<Rightarrow> nat" where
  "words_size x = sum_list (map (\<lambda>w. Suc (length w)) (words x))"

lemma addrs_append: "addrs a (k + n) = addrs a k \<union> addrs (a + of_nat k) n"
proof (induction k arbitrary: a)
  case (Suc k)
  have "a + of_nat (Suc k) = a + 1 + of_nat k" by simp
  then show ?case using Suc.IH [of "a + 1"] by (simp only: add_Suc addrs_Suc Un_insert_left)
qed simp

text \<open>One word: skipped to, copied, ended by a NUL.\<close>

lemma copy_word_nul:
  fixes s :: argv_state
  defines "nb \<equiv> \<lambda>c. \<not> isblank c"
  assumes "cstr (bytes s) a x" "addrs a (Suc (length x)) \<inter> addrs (copy_ptr s) (Suc (length (takeWhile nb x))) = {}"
    and "unat (copy_ptr s - args_copy s) + Suc (length (takeWhile nb x)) \<le> args_copy_size"
  shows "\<exists>s1. copy_word a s = Some (Inr (s1, a + of_nat (length (takeWhile nb x)))) \<and>
    put_copy 0 s1 = Inr (s\<lparr>bytes := put (bytes s) (copy_ptr s) (takeWhile nb x @ [0]),
      copy_ptr := copy_ptr s + of_nat (Suc (length (takeWhile nb x)))\<rparr>)"
proof -
  let ?w = "takeWhile nb x"
  let ?s1 = "s\<lparr>bytes := put (bytes s) (copy_ptr s) ?w, copy_ptr := copy_ptr s + of_nat (length ?w)\<rparr>"
  have "addrs (copy_ptr s) (length ?w) \<subseteq> addrs (copy_ptr s) (Suc (length ?w))" by (rule addrs_mono) simp
  then have "copy_word a s = Some (Inr (?s1, a + of_nat (length ?w)))"
    using copy_word_run [OF assms(2)] assms(3,4) unfolding nb_def by (metis (no_types, lifting) Suc_leD add_Suc_right disjoint_iff subsetD)
  moreover have "unat (copy_ptr ?s1 - args_copy ?s1) = unat (copy_ptr s - args_copy s) + length ?w"
    using copy_ptr_room [of "copy_ptr s" "args_copy s" "length ?w"] assms(4) by simp
  then have "put_copy 0 ?s1 = Inr (s\<lparr>bytes := put (bytes s) (copy_ptr s) (?w @ [0]),
      copy_ptr := copy_ptr s + of_nat (Suc (length ?w))\<rparr>)"
    using assms(4) by (simp add: put_copy_def put_append algebra_simps)
  ultimately show ?thesis by blast
qed

definition args_parsed :: "nat \<Rightarrow> u8 list list \<Rightarrow> nat \<Rightarrow> argv_state \<Rightarrow> argv_state \<Rightarrow> bool" where
  "args_parsed n ws z s s' \<longleftrightarrow> (\<forall>i < length ws. cstr (bytes s') (argv s' ! (n + i)) (ws ! i)) \<and>
     (\<forall>i < n. argv s' ! i = argv s ! i) \<and> length (argv s') = length (argv s) \<and> argc s' = argc s \<and>
     (\<forall>b. b \<notin> addrs (copy_ptr s) z \<longrightarrow> bytes s' b = bytes s b) \<and>
     copy_ptr s' = copy_ptr s + of_nat z \<and> args_copy s' = args_copy s"

lemma setup_args_loop_words:
  assumes "cstr (bytes s) a x" "addrs a (Suc (length x)) \<inter> addrs (copy_ptr s) (words_size x) = {}"
    and "unat (copy_ptr s - args_copy s) + words_size x \<le> args_copy_size"
    and "n + length (words x) \<le> argv_size" "length (argv s) = argv_size"
  shows "\<exists>s'. setup_args_loop a n s = Some (Inr (s', n + length (words x))) \<and> args_parsed n (words x) (words_size x) s s'"
  using assms
proof (induction x arbitrary: a n s rule: words.induct)
  case (1 x)
  let ?y = "dropWhile isblank x" and ?nb = "\<lambda>c. \<not> isblank c"
  let ?a = "a + of_nat (length (takeWhile isblank x))"
  have sk: "skip_blanks (bytes s) a = Some ?a" using skip_blanks_cstr 1(2) .
  have y: "?y = drop (length (takeWhile isblank x)) x" by (rule dropWhile_eq_drop)
  have cy: "cstr (bytes s) ?a ?y" unfolding y by (rule cstr_drop [OF 1(2)]) (rule length_takeWhile_le)
  have wx: "words x = words ?y" "words_size x = words_size ?y"
    by (simp_all add: words_size_def words_dropWhile)
  show ?case
  proof (cases "?y = []")
    case True
    have "bytes s ?a = 0" using cy unfolding True by simp
    then have "setup_args_loop a n s = Some (Inr (s, n))"
      by (subst setup_args_loop.simps) (simp add: sk)
    moreover have "words x = []" using wx(1) True by simp
    ultimately show ?thesis by (intro exI [of _ s]) (simp add: args_parsed_def words_size_def)
  next
    case False
    then obtain c z where cz: "?y = c # z" by (cases ?y) blast+
    let ?w = "takeWhile ?nb ?y" and ?r = "dropWhile ?nb ?y"
    have nb: "\<not> isblank c" using hd_dropWhile [of isblank x] cz False by simp
    have ws: "words x = ?w # words ?r" "words_size x = Suc (length ?w) + words_size ?r"
      using wx words_word [OF nb, of z] cz by (simp_all add: words_size_def)
    let ?k = "length (takeWhile isblank x)" and ?m = "length ?w" and ?cp = "copy_ptr s"
    let ?s0 = "s\<lparr>argv := (argv s)[n := ?cp]\<rparr>"
    have ylen: "length x = ?k + length ?y" "length ?y = ?m + length ?r"
      by (metis length_append takeWhile_dropWhile_id)+
    have src: "addrs ?a (Suc (length ?y)) \<subseteq> addrs a (Suc (length x))"
      by (rule addrs_shift) (use ylen in simp)
    have dst: "addrs ?cp (Suc ?m) \<subseteq> addrs ?cp (words_size x)" by (rule addrs_mono) (simp add: ws)
    have room: "unat (?cp - args_copy s) + Suc ?m \<le> args_copy_size" using 1(4) ws(2) by simp
    define s2 where s2: "s2 = ?s0\<lparr>bytes := put (bytes s) ?cp (?w @ [0]), copy_ptr := ?cp + of_nat (Suc ?m)\<rparr>"
    have c0: "cstr (bytes ?s0) ?a ?y" using cy by simp
    have d: "addrs ?a (Suc (length ?y)) \<inter> addrs (copy_ptr ?s0) (Suc ?m) = {}" using src dst 1(3) by auto
    have rm: "unat (copy_ptr ?s0 - args_copy ?s0) + Suc ?m \<le> args_copy_size" using room by simp
    obtain s1 where s1: "copy_word ?a ?s0 = Some (Inr (s1, ?a + of_nat ?m))" "put_copy 0 s1 = Inr s2"
      using copy_word_nul [OF c0 d rm] unfolding s2 by (auto simp del: of_nat_Suc)
    let ?a2 = "?a + of_nat ?m"
    have r: "?r = drop ?m ?y" by (rule dropWhile_eq_drop)
    have cr: "cstr (bytes s) ?a2 ?r" unfolding r by (rule cstr_drop [OF cy]) (rule length_takeWhile_le)
    have src2: "addrs ?a2 (Suc (length ?r)) \<subseteq> addrs ?a (Suc (length ?y))"
      by (rule addrs_shift) (use ylen in simp)
    have cr2: "cstr (bytes s2) ?a2 ?r"
    proof (rule cstr_frame [OF cr])
      fix b assume "b \<in> addrs ?a2 (Suc (length ?r))"
      then have "b \<notin> addrs ?cp (length (?w @ [0]))" using src src2 dst 1(3) by auto
      then show "bytes s2 b = bytes s b" unfolding s2 by (simp add: put_other)
    qed
    have "addrs (copy_ptr s2) (words_size ?r) \<subseteq> addrs ?cp (words_size x)"
      unfolding s2 using ws(2) by (simp del: of_nat_Suc) (rule addrs_shift, simp)
    then have disj2: "addrs ?a2 (Suc (length ?r)) \<inter> addrs (copy_ptr s2) (words_size ?r) = {}"
      using 1(3) src src2 by blast
    have room2: "unat (copy_ptr s2 - args_copy s2) + words_size ?r \<le> args_copy_size"
      using copy_ptr_room [OF room] 1(4) ws(2) s2 by (simp del: of_nat_Suc)
    obtain s' where s': "setup_args_loop ?a2 (n + 1) s2 = Some (Inr (s', n + 1 + length (words ?r)))"
      "args_parsed (n + 1) (words ?r) (words_size ?r) s2 s'"
      using 1(1) [OF refl False cr2 disj2 room2, of "n + 1"] 1(5,6) ws(1) s2 by auto
    have na: "bytes s ?a \<noteq> 0" "n < argv_size" using cy cz 1(5) ws(1) by auto
    have run: "setup_args_loop a n s = Some (Inr (s', n + length (words x)))"
      using s1 s'(1) na ws(1) by (subst setup_args_loop.simps) (simp add: sk)
    have "cstr (bytes s') (argv s' ! n) ?w"
    proof -
      have "0 \<notin> set ?w" using cstr_nonnul [OF cy] by (auto dest: set_takeWhileD)
      then have "cstr (bytes s2) ?cp ?w" unfolding s2 using room by (simp add: cstr_put args_copy_size_def)
      moreover have "addrs ?cp (Suc ?m) \<inter> addrs (copy_ptr s2) (words_size ?r) = {}"
        unfolding s2 using addrs_after [of "Suc ?m" "words_size ?r" ?cp] 1(4) ws(2)
        by (simp add: args_copy_size_def del: of_nat_Suc)
      ultimately have "cstr (bytes s') ?cp ?w"
        using s'(2) by (elim cstr_frame) (auto simp: args_parsed_def)
      moreover have "argv s' ! n = ?cp" using s'(2) s2 na(2) 1(6) by (simp add: args_parsed_def)
      ultimately show ?thesis by simp
    qed
    moreover have "bytes s' b = bytes s b" if "b \<notin> addrs ?cp (words_size x)" for b
    proof -
      have "b \<notin> addrs ?cp (Suc ?m)" "b \<notin> addrs (copy_ptr s2) (words_size ?r)"
        using that addrs_append [of ?cp "Suc ?m" "words_size ?r"] ws(2) s2 by (auto simp del: of_nat_Suc)
      then show ?thesis using s'(2) s2 put_other [of b ?cp "?w @ [0]"] by (simp add: args_parsed_def)
    qed
    ultimately have "args_parsed n (words x) (words_size x) s s'"
      using s'(2) s2 ws 1(6) unfolding args_parsed_def
      by (auto simp: nth_Cons algebra_simps split: nat.splits)
    with run show ?thesis by blast
  qed
qed

text \<open>
  \<open>setup_args\<close> of a string apart from the copies, when its words and their NULs fit into what is left
  of \<open>args_copy\<close> and their number into \<open>__argv\<close>: it ends without an error, \<open>__argc\<close> grows by the number
  of words, the new entries of \<open>__argv\<close> are the words as C strings, in order, and the earlier
  entries and all memory outside the copies are kept.
\<close>

theorem setup_args_words:
  assumes "args \<noteq> 0" "cstr (bytes s) args x" "addrs args (Suc (length x)) \<inter> addrs (copy_ptr s) (words_size x) = {}"
    and "unat (copy_ptr s - args_copy s) + words_size x \<le> args_copy_size"
    and "argc s + length (words x) \<le> argv_size" "length (argv s) = argv_size"
  shows "\<exists>s'. setup_args args s = Inr s' \<and> argc s' = argc s + length (words x) \<and>
    (\<forall>i < length (words x). cstr (bytes s') (argv s' ! (argc s + i)) (words x ! i)) \<and>
    (\<forall>i < argc s. argv s' ! i = argv s ! i) \<and>
    (\<forall>b. b \<notin> addrs (copy_ptr s) (words_size x) \<longrightarrow> bytes s' b = bytes s b)"
proof -
  obtain s' where "setup_args_loop args (argc s) s = Some (Inr (s', argc s + length (words x)))"
    "args_parsed (argc s) (words x) (words_size x) s s'"
    using setup_args_loop_words [OF assms(2-6)] by blast
  then show ?thesis using assms(1)
    by (intro exI [of _ "s'\<lparr>argc := argc s + length (words x)\<rparr>"])
      (simp add: setup_args_def setup_args_from_def args_parsed_def)
qed

lemma setup_args_words_witness:
  "\<exists>s'. setup_args 0x1000 \<lparr>bytes = put (\<lambda>_. 0) 0x1000 [32, 97, 98, 9, 99], argc = 0, argv = replicate 100 0,
     env_vars = [], args_copy = 0x2000, copy_ptr = 0x2000, messages = []\<rparr> = Inr s' \<and> argc s' = 2 \<and>
     cstr (bytes s') (argv s' ! 1) [99]"
proof -
  let ?x = "[32, 97, 98, 9, 99] :: u8 list"
  let ?s = "\<lparr>bytes = put (\<lambda>_. 0) 0x1000 ?x, argc = 0, argv = replicate 100 0,
     env_vars = [], args_copy = 0x2000, copy_ptr = 0x2000, messages = []\<rparr> :: argv_state"
  have w: "words ?x = [[97, 98], [99]]" by (simp add: words.simps isblank_def)
  have "cstr (bytes ?s) 0x1000 ?x" by simp
  moreover have "addrs 0x1000 (Suc (length ?x)) \<inter> addrs (copy_ptr ?s) (words_size ?x) = {}"
    by (rule addrs_disjointI) (simp_all add: words_size_def w)
  ultimately have "\<exists>s'. setup_args 0x1000 ?s = Inr s' \<and> argc s' = argc ?s + length (words ?x) \<and>
    (\<forall>i < length (words ?x). cstr (bytes s') (argv s' ! (argc ?s + i)) (words ?x ! i)) \<and>
    (\<forall>i < argc ?s. argv s' ! i = argv ?s ! i) \<and>
    (\<forall>b. b \<notin> addrs (copy_ptr ?s) (words_size ?x) \<longrightarrow> bytes s' b = bytes ?s b)"
    by (intro setup_args_words) (simp_all add: w words_size_def args_copy_size_def argv_size_def)
  then show ?thesis unfolding w by (auto simp: nth_Cons split: nat.splits)
qed
end
