(* ===== verification/DeviceIO.thy ===== *)
theory DeviceIO
  imports Printf
begin

text \<open>
  The hardware the drivers of the program talk to is a parameter of the model: a record of functions
  on a state of any type, for the port and memory accesses of the processor, its model-specific registers, CPUID and CR8, and
  for what is printed.
  An operation of a driver takes that state to a result and a state, or to an error.
\<close>

record 'd machine =
  in8 :: "u16 \<Rightarrow> 'd \<Rightarrow> u8 \<times> 'd"
  in16 :: "u16 \<Rightarrow> 'd \<Rightarrow> u16 \<times> 'd"
  in32 :: "u16 \<Rightarrow> 'd \<Rightarrow> u32 \<times> 'd"
  out8 :: "u16 \<Rightarrow> u8 \<Rightarrow> 'd \<Rightarrow> 'd"
  out16 :: "u16 \<Rightarrow> u16 \<Rightarrow> 'd \<Rightarrow> 'd"
  out32 :: "u16 \<Rightarrow> u32 \<Rightarrow> 'd \<Rightarrow> 'd"
  read8 :: "u64 \<Rightarrow> 'd \<Rightarrow> u8 \<times> 'd"
  read16 :: "u64 \<Rightarrow> 'd \<Rightarrow> u16 \<times> 'd"
  read32 :: "u64 \<Rightarrow> 'd \<Rightarrow> u32 \<times> 'd"
  read64 :: "u64 \<Rightarrow> 'd \<Rightarrow> u64 \<times> 'd"
  write8 :: "u64 \<Rightarrow> u8 \<Rightarrow> 'd \<Rightarrow> 'd"
  write16 :: "u64 \<Rightarrow> u16 \<Rightarrow> 'd \<Rightarrow> 'd"
  write32 :: "u64 \<Rightarrow> u32 \<Rightarrow> 'd \<Rightarrow> 'd"
  write64 :: "u64 \<Rightarrow> u64 \<Rightarrow> 'd \<Rightarrow> 'd"
  puts_con :: "string \<Rightarrow> 'd \<Rightarrow> 'd"
  read_msr :: "u32 \<Rightarrow> 'd \<Rightarrow> u64 \<times> 'd"
  write_msr :: "u32 \<Rightarrow> u64 \<Rightarrow> 'd \<Rightarrow> 'd"
  read_cpuid :: "u32 \<Rightarrow> 'd \<Rightarrow> (u32 \<times> u32 \<times> u32 \<times> u32) \<times> 'd"
  read_cr8 :: "'d \<Rightarrow> u64 \<times> 'd"
  write_cr8 :: "u64 \<Rightarrow> 'd \<Rightarrow> 'd"

type_synonym ('d, 'a) io = "'d \<Rightarrow> err + ('a \<times> 'd)"

definition returnS :: "'a \<Rightarrow> ('d, 'a) io" where
  "returnS x d = Inr (x, d)"

definition bindS :: "('d, 'a) io \<Rightarrow> ('a \<Rightarrow> ('d, 'b) io) \<Rightarrow> ('d, 'b) io" where
  "bindS f g d = bindE (f d) (\<lambda>(x, d). g x d)"

definition assertS :: "bool \<Rightarrow> ('d, unit) io" where
  "assertS b d = (if b then Inr ((), d) else Inl Assert_failed)"

definition liftS :: "err + 'a \<Rightarrow> ('d, 'a) io" where
  "liftS r d = bindE r (\<lambda>x. Inr (x, d))"

definition inS :: "('d \<Rightarrow> 'a \<times> 'd) \<Rightarrow> ('d, 'a) io" where
  "inS f d = Inr (f d)"

definition outS :: "('d \<Rightarrow> 'd) \<Rightarrow> ('d, unit) io" where
  "outS f d = Inr ((), f d)"

primrec forS :: "('a \<Rightarrow> ('d, unit) io) \<Rightarrow> 'a list \<Rightarrow> ('d, unit) io" where
  "forS f [] = returnS ()"
| "forS f (x # xs) = bindS (f x) (\<lambda>_. forS f xs)"

definition printfS :: "'d machine \<Rightarrow> string \<Rightarrow> vararg list \<Rightarrow> ('d, unit) io" where
  "printfS M fmt va = bindS (liftS (printf fmt va)) (\<lambda>(out, _). outS (puts_con M out))"

text \<open>A machine without devices, for examples.\<close>

definition idle_machine :: "'d machine" where
  "idle_machine = \<lparr>in8 = (\<lambda>p d. (0, d)), in16 = (\<lambda>p d. (0, d)), in32 = (\<lambda>p d. (0, d)), out8 = (\<lambda>p v d. d), out16 = (\<lambda>p v d. d),
     out32 = (\<lambda>p v d. d), read8 = (\<lambda>a d. (0, d)), read16 = (\<lambda>a d. (0, d)), read32 = (\<lambda>a d. (0, d)), read64 = (\<lambda>a d. (0, d)),
     write8 = (\<lambda>a v d. d), write16 = (\<lambda>a v d. d), write32 = (\<lambda>a v d. d), write64 = (\<lambda>a v d. d), puts_con = (\<lambda>t d. d),
     read_msr = (\<lambda>r d. (0, d)), write_msr = (\<lambda>r v d. d), read_cpuid = (\<lambda>l d. ((0, 0, 0, 0), d)), read_cr8 = (\<lambda>d. (0, d)),
     write_cr8 = (\<lambda>v d. d)\<rparr>"

text \<open>A format that fits its arguments is printed.\<close>

lemma printfS_ok:
  assumes "fmt_ok fmt va"
  shows "\<exists>out. \<forall>d. printfS M fmt va d = Inr ((), puts_con M out d)"
proof -
  obtain out n where "printf fmt va = Inr (out, n)" using fmt_ok_vsnprintf [OF assms] unfolding printf_def by blast
  then show ?thesis by (intro exI [of _ out]) (simp add: printfS_def bindS_def liftS_def outS_def)
qed

lemmas io_defs = returnS_def bindS_def assertS_def liftS_def inS_def outS_def

lemma bindS_returnS [simp]: "bindS (returnS x) g = g x"
  by (simp add: io_defs fun_eq_iff)

lemma bindS_assoc: "bindS (bindS f g) h = bindS f (\<lambda>x. bindS (g x) h)"
proof (rule ext)
  show "bindS (bindS f g) h d = bindS f (\<lambda>x. bindS (g x) h) d" for d
    by (cases "f d") (auto simp: bindS_def)
qed

lemma bindS_Inr: "f d = Inr (x, d') \<Longrightarrow> bindS f g d = g x d'"
  by (simp add: bindS_def)

lemma bindS_Inl: "f d = Inl e \<Longrightarrow> bindS f g d = Inl e"
  by (simp add: bindS_def)

lemma bindS_eval: "bindS f g d = (case f d of Inl e \<Rightarrow> Inl e | Inr (x, d') \<Rightarrow> g x d')"
  by (simp add: bindS_def bindE_def split: sum.splits)

lemma bindS_assertS: "bindS (assertS b) g d = (if b then g () d else Inl Assert_failed)"
  by (simp add: io_defs)

section \<open>Bit fields\<close>

text \<open>A field of \<open>n\<close> bits at bit \<open>lo\<close> of a word, as a C bit field is read and stored.\<close>

definition get_field :: "nat \<Rightarrow> nat \<Rightarrow> u64 \<Rightarrow> u64" where
  "get_field lo n w = drop_bit lo w AND mask n"

definition set_field :: "nat \<Rightarrow> nat \<Rightarrow> u64 \<Rightarrow> u64 \<Rightarrow> u64" where
  "set_field lo n v w = (w AND NOT (push_bit lo (mask n))) OR push_bit lo (v AND mask n)"

lemma bit_get_field: "bit (get_field lo n w) i \<longleftrightarrow> i < n \<and> bit w (lo + i)"
  using bit_imp_le_length [of w "lo + i"] by (auto simp: get_field_def bit_simps)

lemma bit_set_field:
  "lo + n \<le> 64 \<Longrightarrow> bit (set_field lo n v w) i \<longleftrightarrow> (if lo \<le> i \<and> i < lo + n then bit v (i - lo) else bit w i)"
  using bit_imp_le_length [of w i] bit_imp_le_length [of v "i - lo"]
  by (auto simp: set_field_def bit_simps)

text \<open>A field reads what was last stored in it, and stores to other fields do not change it.\<close>

lemma get_set_field: "lo + n \<le> 64 \<Longrightarrow> get_field lo n (set_field lo n v w) = v AND mask n"
  by (intro bit_word_eqI) (auto simp: bit_get_field bit_set_field bit_simps)

lemma get_set_other:
  "\<lbrakk>lo' + n' \<le> 64; lo + n \<le> lo' \<or> lo' + n' \<le> lo\<rbrakk> \<Longrightarrow> get_field lo n (set_field lo' n' v w) = get_field lo n w"
  by (intro bit_word_eqI) (auto simp: bit_get_field bit_set_field)

end
