(* ===== verification/Pci.thy ===== *)
theory Pci
  imports DeviceIO Libcflat
begin

text \<open>
  PCI devices, \<open>lib/pci.c\<close> with the configuration accesses of \<open>lib/x86/asm/pci.h\<close>: capability lists,
  message-signalled interrupts, the command register, and the base address registers (BARs) with the
  algorithm that finds their sizes. The devices are behind the ports of the machine.
\<close>

section \<open>Registers\<close>

definition PCI_VENDOR_ID :: u8 where "PCI_VENDOR_ID = 0x00"
definition PCI_DEVICE_ID :: u8 where "PCI_DEVICE_ID = 0x02"
definition PCI_COMMAND :: u8 where "PCI_COMMAND = 0x04"
definition PCI_COMMAND_MASTER :: u16 where "PCI_COMMAND_MASTER = 0x4"
definition PCI_CLASS_PROG :: u8 where "PCI_CLASS_PROG = 0x09"
definition PCI_CLASS_DEVICE :: u8 where "PCI_CLASS_DEVICE = 0x0a"
definition PCI_HEADER_TYPE :: u8 where "PCI_HEADER_TYPE = 0x0e"
definition PCI_HEADER_TYPE_NORMAL :: u8 where "PCI_HEADER_TYPE_NORMAL = 0"
definition PCI_HEADER_TYPE_MASK :: u8 where "PCI_HEADER_TYPE_MASK = 0x7f"
definition PCI_BASE_ADDRESS_0 :: int where "PCI_BASE_ADDRESS_0 = 0x10"
definition PCI_BASE_ADDRESS_SPACE_IO :: u32 where "PCI_BASE_ADDRESS_SPACE_IO = 0x01"
definition PCI_BASE_ADDRESS_MEM_TYPE_MASK :: u32 where "PCI_BASE_ADDRESS_MEM_TYPE_MASK = 0x06"
definition PCI_BASE_ADDRESS_MEM_TYPE_32 :: u32 where "PCI_BASE_ADDRESS_MEM_TYPE_32 = 0x00"
definition PCI_BASE_ADDRESS_MEM_TYPE_1M :: u32 where "PCI_BASE_ADDRESS_MEM_TYPE_1M = 0x02"
definition PCI_BASE_ADDRESS_MEM_TYPE_64 :: u32 where "PCI_BASE_ADDRESS_MEM_TYPE_64 = 0x04"
definition PCI_BASE_ADDRESS_MEM_PREFETCH :: u32 where "PCI_BASE_ADDRESS_MEM_PREFETCH = 0x08"
definition PCI_BASE_ADDRESS_MEM_MASK :: u64 where "PCI_BASE_ADDRESS_MEM_MASK = NOT 0x0f"
definition PCI_BASE_ADDRESS_IO_MASK :: u64 where "PCI_BASE_ADDRESS_IO_MASK = NOT 0x03"
definition PCI_CAPABILITY_LIST :: u8 where "PCI_CAPABILITY_LIST = 0x34"
definition PCI_INTERRUPT_LINE :: u8 where "PCI_INTERRUPT_LINE = 0x3c"
definition PCI_CAP_ID_MSI :: u8 where "PCI_CAP_ID_MSI = 0x05"
definition PCI_CAP_ID_MAX :: u8 where "PCI_CAP_ID_MAX = 0x14"
definition PCI_MSI_FLAGS :: u16 where "PCI_MSI_FLAGS = 2"
definition PCI_MSI_FLAGS_ENABLE :: u16 where "PCI_MSI_FLAGS_ENABLE = 0x0001"
definition PCI_MSI_FLAGS_64BIT :: u16 where "PCI_MSI_FLAGS_64BIT = 0x0080"
definition PCI_MSI_ADDRESS_LO :: u16 where "PCI_MSI_ADDRESS_LO = 4"
definition PCI_MSI_ADDRESS_HI :: u16 where "PCI_MSI_ADDRESS_HI = 8"
definition PCI_MSI_DATA_32 :: u16 where "PCI_MSI_DATA_32 = 8"
definition PCI_MSI_DATA_64 :: u16 where "PCI_MSI_DATA_64 = 12"

definition PCIDEVADDR_INVALID :: u16 where "PCIDEVADDR_INVALID = 0xffff"
definition PCI_BAR_NUM :: int where "PCI_BAR_NUM = 6"
definition PCI_DEVFN_MAX :: nat where "PCI_DEVFN_MAX = 256"
definition PCI_INVALID_PHYS_ADDR :: u64 where "PCI_INVALID_PHYS_ADDR = NOT 0"

definition PCI_BDF_GET_DEVFN :: "u16 \<Rightarrow> u16" where "PCI_BDF_GET_DEVFN x = x AND 0xff"
definition PCI_BDF_GET_BUS :: "u16 \<Rightarrow> u16" where "PCI_BDF_GET_BUS x = drop_bit 8 x AND 0xff"

record pci_dev =
  bdf :: u16
  msi_offset :: u16
  resource :: "u64 list"

section \<open>Configuration accesses\<close>

definition PCI_CONF1_ADDRESS :: "u16 \<Rightarrow> u8 \<Rightarrow> u32" where
  "PCI_CONF1_ADDRESS dev reg = push_bit 31 1 OR push_bit 8 (ucast dev) OR ucast reg"

definition conf1_select :: "'d machine \<Rightarrow> u16 \<Rightarrow> u8 \<Rightarrow> ('d, unit) io" where
  "conf1_select M dev reg = outS (out32 M 0xCF8 (PCI_CONF1_ADDRESS dev reg))"

definition conf1_readb :: "'d machine \<Rightarrow> u16 \<Rightarrow> u8 \<Rightarrow> ('d, u8) io" where
  "conf1_readb M dev reg = bindS (conf1_select M dev reg) (\<lambda>_. inS (in8 M 0xCFC))"

definition conf1_readw :: "'d machine \<Rightarrow> u16 \<Rightarrow> u8 \<Rightarrow> ('d, u16) io" where
  "conf1_readw M dev reg = bindS (conf1_select M dev reg) (\<lambda>_. inS (in16 M 0xCFC))"

definition conf1_readl :: "'d machine \<Rightarrow> u16 \<Rightarrow> u8 \<Rightarrow> ('d, u32) io" where
  "conf1_readl M dev reg = bindS (conf1_select M dev reg) (\<lambda>_. inS (in32 M 0xCFC))"

definition conf1_writeb :: "'d machine \<Rightarrow> u16 \<Rightarrow> u8 \<Rightarrow> u8 \<Rightarrow> ('d, unit) io" where
  "conf1_writeb M dev reg val = bindS (conf1_select M dev reg) (\<lambda>_. outS (out8 M 0xCFC val))"

definition conf1_writew :: "'d machine \<Rightarrow> u16 \<Rightarrow> u8 \<Rightarrow> u16 \<Rightarrow> ('d, unit) io" where
  "conf1_writew M dev reg val = bindS (conf1_select M dev reg) (\<lambda>_. outS (out16 M 0xCFC val))"

definition conf1_writel :: "'d machine \<Rightarrow> u16 \<Rightarrow> u8 \<Rightarrow> u32 \<Rightarrow> ('d, unit) io" where
  "conf1_writel M dev reg val = bindS (conf1_select M dev reg) (\<lambda>_. outS (out32 M 0xCFC val))"

text \<open>The accesses to configuration space of the architecture that is built, on x86 through two ports.\<close>

record 'd pci_access =
  pci_config_readb :: "u16 \<Rightarrow> u8 \<Rightarrow> ('d, u8) io"
  pci_config_readw :: "u16 \<Rightarrow> u8 \<Rightarrow> ('d, u16) io"
  pci_config_readl :: "u16 \<Rightarrow> u8 \<Rightarrow> ('d, u32) io"
  pci_config_writeb :: "u16 \<Rightarrow> u8 \<Rightarrow> u8 \<Rightarrow> ('d, unit) io"
  pci_config_writew :: "u16 \<Rightarrow> u8 \<Rightarrow> u16 \<Rightarrow> ('d, unit) io"
  pci_config_writel :: "u16 \<Rightarrow> u8 \<Rightarrow> u32 \<Rightarrow> ('d, unit) io"
  pci_translate_addr :: "u16 \<Rightarrow> u64 \<Rightarrow> u64"
  pci_machine :: "'d machine"

definition x86_pci :: "'d machine \<Rightarrow> 'd pci_access" where
  "x86_pci M = \<lparr>pci_config_readb = conf1_readb M, pci_config_readw = conf1_readw M, pci_config_readl = conf1_readl M,
     pci_config_writeb = conf1_writeb M, pci_config_writew = conf1_writew M, pci_config_writel = conf1_writel M,
     pci_translate_addr = (\<lambda>dev a. a), pci_machine = M\<rparr>"

section \<open>Capabilities and interrupts\<close>

text \<open>
  The loop of \<open>pci_cap_walk\<close>; \<open>n\<close> is \<open>255 - count\<close>. The handler can change the device.
\<close>

primrec cap_walk_loop ::
    "'d pci_access \<Rightarrow> (pci_dev \<Rightarrow> u8 \<Rightarrow> u8 \<Rightarrow> ('d, pci_dev) io) \<Rightarrow> nat \<Rightarrow> pci_dev \<Rightarrow> u8 \<Rightarrow> ('d, pci_dev) io" where
  "cap_walk_loop M handler 0 dev cap_offset =
     (if cap_offset \<noteq> 0 then
        bindS (pci_config_readb M (bdf dev) cap_offset) (\<lambda>cap_id.
        bindS (assertS (cap_id < PCI_CAP_ID_MAX + 1)) (\<lambda>_.
        bindS (handler dev cap_offset cap_id) (\<lambda>dev.
        bindS (pci_config_readb M (bdf dev) (cap_offset + 1)) (\<lambda>cap_offset.
        bindS (assertS False) (\<lambda>_. returnS dev)))))
      else returnS dev)"
| "cap_walk_loop M handler (Suc n) dev cap_offset =
     (if cap_offset \<noteq> 0 then
        bindS (pci_config_readb M (bdf dev) cap_offset) (\<lambda>cap_id.
        bindS (assertS (cap_id < PCI_CAP_ID_MAX + 1)) (\<lambda>_.
        bindS (handler dev cap_offset cap_id) (\<lambda>dev.
        bindS (pci_config_readb M (bdf dev) (cap_offset + 1)) (\<lambda>cap_offset.
        bindS (assertS True) (\<lambda>_. cap_walk_loop M handler n dev cap_offset)))))
      else returnS dev)"

definition pci_cap_walk ::
    "'d pci_access \<Rightarrow> pci_dev \<Rightarrow> (pci_dev \<Rightarrow> u8 \<Rightarrow> u8 \<Rightarrow> ('d, pci_dev) io) \<Rightarrow> ('d, pci_dev) io" where
  "pci_cap_walk M dev handler =
     bindS (pci_config_readb M (bdf dev) PCI_CAPABILITY_LIST) (\<lambda>cap_offset.
     cap_walk_loop M handler 255 dev cap_offset)"

definition pci_msi_set_enable :: "'d pci_access \<Rightarrow> pci_dev \<Rightarrow> bool \<Rightarrow> ('d, unit) io" where
  "pci_msi_set_enable M dev enabled =
     (let offset = msi_offset dev
      in bindS (pci_config_readw M (bdf dev) (ucast (offset + PCI_MSI_FLAGS))) (\<lambda>msi_control.
         let msi_control = (if enabled then msi_control OR PCI_MSI_FLAGS_ENABLE
                            else msi_control AND NOT PCI_MSI_FLAGS_ENABLE)
         in pci_config_writew M (bdf dev) (ucast (offset + PCI_MSI_FLAGS)) msi_control))"

definition pci_setup_msi :: "'d pci_access \<Rightarrow> pci_dev \<Rightarrow> u64 \<Rightarrow> u32 \<Rightarrow> ('d, bool) io" where
  "pci_setup_msi M dev msi_addr msi_data =
     (if msi_offset dev = 0 then
        bindS (printfS (pci_machine M) (''MSI: dev %#x does not support MSI.'' @ [CHR 0x0A]) [Word (ucast (bdf dev))])
          (\<lambda>_. returnS False)
      else
        let a = bdf dev; offset = msi_offset dev
        in bindS (pci_config_readw M a (ucast (offset + PCI_MSI_FLAGS))) (\<lambda>msi_control.
           bindS (pci_config_writel M a (ucast (offset + PCI_MSI_ADDRESS_LO)) (ucast (msi_addr AND 0xffffffff))) (\<lambda>_.
           bindS (if msi_control AND PCI_MSI_FLAGS_64BIT \<noteq> 0 then
                    bindS (pci_config_writel M a (ucast (offset + PCI_MSI_ADDRESS_HI)) (ucast (drop_bit 32 msi_addr))) (\<lambda>_.
                    pci_config_writel M a (ucast (offset + PCI_MSI_DATA_64)) msi_data)
                  else pci_config_writel M a (ucast (offset + PCI_MSI_DATA_32)) msi_data) (\<lambda>_.
           bindS (pci_msi_set_enable M dev True) (\<lambda>_. returnS True)))))"

definition pci_cmd_set_clr :: "'d pci_access \<Rightarrow> pci_dev \<Rightarrow> u16 \<Rightarrow> u16 \<Rightarrow> ('d, unit) io" where
  "pci_cmd_set_clr M dev bits_set bits_clr =
     bindS (pci_config_readw M (bdf dev) PCI_COMMAND) (\<lambda>val.
     bindS (assertS (bits_set AND bits_clr = 0)) (\<lambda>_.
     let val = val OR bits_set; val = val AND NOT bits_clr
     in pci_config_writew M (bdf dev) PCI_COMMAND val))"

definition pci_dev_exists :: "'d pci_access \<Rightarrow> u16 \<Rightarrow> ('d, bool) io" where
  "pci_dev_exists M dev =
     bindS (pci_config_readw M dev PCI_VENDOR_ID) (\<lambda>vendor.
     if vendor \<noteq> 0xffff then
       bindS (pci_config_readw M dev PCI_DEVICE_ID) (\<lambda>device. returnS (device \<noteq> 0xffff))
     else returnS False)"

primrec find_dev_loop :: "'d pci_access \<Rightarrow> u16 \<Rightarrow> u16 \<Rightarrow> nat list \<Rightarrow> ('d, u16) io" where
  "find_dev_loop M vendor_id device_id [] = returnS PCIDEVADDR_INVALID"
| "find_dev_loop M vendor_id device_id (n # ns) =
     (let dev = of_nat n
      in bindS (pci_config_readw M dev PCI_VENDOR_ID) (\<lambda>vendor.
         bindS (if vendor = vendor_id then
                  bindS (pci_config_readw M dev PCI_DEVICE_ID) (\<lambda>device. returnS (device = device_id))
                else returnS False) (\<lambda>found.
         if found then returnS dev else find_dev_loop M vendor_id device_id ns)))"

definition pci_find_dev :: "'d pci_access \<Rightarrow> u16 \<Rightarrow> u16 \<Rightarrow> ('d, u16) io" where
  "pci_find_dev M vendor_id device_id = find_dev_loop M vendor_id device_id [0..<PCI_DEVFN_MAX]"

section \<open>Base address registers\<close>

definition bar_num_ok :: "int \<Rightarrow> bool" where
  "bar_num_ok n \<longleftrightarrow> n \<ge> 0 \<and> n < PCI_BAR_NUM"

definition bar_reg :: "int \<Rightarrow> u8" where
  "bar_reg n = word_of_int (PCI_BASE_ADDRESS_0 + n * 4)"

text \<open>\<open>dev->resource[n]\<close>, which the source also reads before it has checked \<open>n\<close>.\<close>

definition resource_at :: "pci_dev \<Rightarrow> int \<Rightarrow> ('d, u64) io" where
  "resource_at dev n = liftS (if bar_num_ok n then Inr (resource dev ! nat n) else Inl Out_of_bounds)"

definition set_resource :: "int \<Rightarrow> u64 \<Rightarrow> pci_dev \<Rightarrow> pci_dev" where
  "set_resource n v dev = dev\<lparr>resource := (resource dev)[nat n := v]\<rparr>"

definition pci_bar_mask :: "u32 \<Rightarrow> u32" where
  "pci_bar_mask bar = ucast (if bar AND PCI_BASE_ADDRESS_SPACE_IO \<noteq> 0 then PCI_BASE_ADDRESS_IO_MASK
     else PCI_BASE_ADDRESS_MEM_MASK)"

definition pci_bar_get :: "'d pci_access \<Rightarrow> pci_dev \<Rightarrow> int \<Rightarrow> ('d, u32) io" where
  "pci_bar_get M dev n =
     bindS (assertS (bar_num_ok n)) (\<lambda>_. pci_config_readl M (bdf dev) (bar_reg n))"

definition pci_bar_is64 :: "'d pci_access \<Rightarrow> pci_dev \<Rightarrow> int \<Rightarrow> ('d, bool) io" where
  "pci_bar_is64 M dev n =
     bindS (pci_bar_get M dev n) (\<lambda>bar.
     if bar AND PCI_BASE_ADDRESS_SPACE_IO \<noteq> 0 then returnS False
     else returnS (bar AND PCI_BASE_ADDRESS_MEM_TYPE_MASK = PCI_BASE_ADDRESS_MEM_TYPE_64))"

definition pci_bar_is_memory :: "'d pci_access \<Rightarrow> pci_dev \<Rightarrow> int \<Rightarrow> ('d, bool) io" where
  "pci_bar_is_memory M dev n =
     bindS (pci_bar_get M dev n) (\<lambda>bar. returnS (bar AND PCI_BASE_ADDRESS_SPACE_IO = 0))"

definition pci_bar_is_valid :: "pci_dev \<Rightarrow> int \<Rightarrow> ('d, bool) io" where
  "pci_bar_is_valid dev n = bindS (resource_at dev n) (\<lambda>r. returnS (r \<noteq> PCI_INVALID_PHYS_ADDR))"

definition read_bar_addr :: "'d pci_access \<Rightarrow> pci_dev \<Rightarrow> int \<Rightarrow> ('d, u64) io" where
  "read_bar_addr M dev n =
     bindS (pci_bar_get M dev n) (\<lambda>bar.
     let m = pci_bar_mask bar; a = ucast (bar AND m)
     in bindS (pci_bar_is64 M dev n) (\<lambda>is64.
        bindS (if is64 then bindS (pci_bar_get M dev (n + 1)) (\<lambda>hi. returnS (a OR push_bit 32 (ucast hi)))
               else returnS a) (\<lambda>a.
        let phys_addr = pci_translate_addr M (bdf dev) a
        in bindS (assertS (phys_addr \<noteq> PCI_INVALID_PHYS_ADDR)) (\<lambda>_. returnS phys_addr))))"

definition pci_bar_get_addr :: "pci_dev \<Rightarrow> int \<Rightarrow> ('d, u64) io" where
  "pci_bar_get_addr dev n = bindS (assertS (bar_num_ok n)) (\<lambda>_. resource_at dev n)"

definition pci_bar_set_addr :: "'d pci_access \<Rightarrow> pci_dev \<Rightarrow> int \<Rightarrow> u64 \<Rightarrow> ('d, pci_dev) io" where
  "pci_bar_set_addr M dev n a =
     (let off = bar_reg n
      in bindS (assertS (a \<noteq> PCI_INVALID_PHYS_ADDR)) (\<lambda>_.
         bindS (resource_at dev n) (\<lambda>r.
         bindS (assertS (r \<noteq> PCI_INVALID_PHYS_ADDR)) (\<lambda>_.
         bindS (assertS (bar_num_ok n)) (\<lambda>_.
         bindS (pci_bar_is64 M dev n) (\<lambda>is64.
         bindS (assertS (if is64 then bar_num_ok (n + 1) else drop_bit 32 a = 0)) (\<lambda>_.
         bindS (pci_config_writel M (bdf dev) off (ucast a)) (\<lambda>_.
         let dev = set_resource n a dev
         in bindS (pci_bar_is64 M dev n) (\<lambda>is64.
            if is64 then
              bindS (pci_config_writel M (bdf dev) (off + 4) (ucast (drop_bit 32 a))) (\<lambda>_.
              returnS (set_resource (n + 1) (resource dev ! nat n) dev))
            else returnS dev)))))))))"

definition pci_bar_size_helper :: "'d pci_access \<Rightarrow> pci_dev \<Rightarrow> int \<Rightarrow> ('d, u32) io" where
  "pci_bar_size_helper M dev n =
     (let off = bar_reg n
      in bindS (pci_config_readl M (bdf dev) off) (\<lambda>bar.
         bindS (pci_config_writel M (bdf dev) off (NOT 0)) (\<lambda>_.
         bindS (pci_config_readl M (bdf dev) off) (\<lambda>val.
         bindS (pci_config_writel M (bdf dev) off bar) (\<lambda>_. returnS val)))))"

definition pci_bar_size :: "'d pci_access \<Rightarrow> pci_dev \<Rightarrow> int \<Rightarrow> ('d, u64) io" where
  "pci_bar_size M dev n =
     bindS (pci_bar_size_helper M dev n) (\<lambda>sz.
     if sz = 0 then returnS 0
     else
       bindS (pci_bar_get M dev n) (\<lambda>bar.
       let sz = sz AND pci_bar_mask bar
       in bindS (pci_bar_is64 M dev n) (\<lambda>is64.
          if is64 then
            bindS (pci_bar_size_helper M dev (n + 1)) (\<lambda>hi.
            let size64 = ucast hi; size64 = push_bit 32 size64 OR ucast sz
            in returnS (NOT size64 + 1))
          else returnS (ucast (NOT sz + 1)))))"

text \<open>The loop of \<open>pci_dev_init\<close>; its index grows, so as many steps as there are registers do.\<close>

primrec dev_init_loop :: "'d pci_access \<Rightarrow> nat \<Rightarrow> int \<Rightarrow> pci_dev \<Rightarrow> ('d, pci_dev) io" where
  "dev_init_loop M 0 i dev = returnS dev"
| "dev_init_loop M (Suc k) i dev =
     (if i < PCI_BAR_NUM then
        bindS (pci_bar_size M dev i) (\<lambda>sz.
        if sz \<noteq> 0 then
          bindS (read_bar_addr M dev i) (\<lambda>a.
          let dev = set_resource i a dev
          in bindS (pci_bar_is64 M dev i) (\<lambda>is64.
             if is64 then
               bindS (assertS (i + 1 < PCI_BAR_NUM)) (\<lambda>_.
               dev_init_loop M k (i + 2) (set_resource (i + 1) (resource dev ! nat i) dev))
             else dev_init_loop M k (i + 1) dev))
        else dev_init_loop M k (i + 1) (set_resource i PCI_INVALID_PHYS_ADDR dev))
      else returnS dev)"

definition pci_dev_init :: "'d pci_access \<Rightarrow> u16 \<Rightarrow> ('d, pci_dev) io" where
  "pci_dev_init M b = dev_init_loop M 6 0 \<lparr>bdf = b, msi_offset = 0, resource = replicate 6 0\<rparr>"

definition pci_intx_line :: "'d pci_access \<Rightarrow> pci_dev \<Rightarrow> ('d, u8) io" where
  "pci_intx_line M dev = pci_config_readb M (bdf dev) PCI_INTERRUPT_LINE"

definition pci_cap_setup :: "pci_dev \<Rightarrow> u8 \<Rightarrow> u8 \<Rightarrow> ('d, pci_dev) io" where
  "pci_cap_setup dev cap_offset cap_id =
     returnS (if cap_id = PCI_CAP_ID_MSI then dev\<lparr>msi_offset := ucast cap_offset\<rparr> else dev)"

definition pci_enable_defaults :: "'d pci_access \<Rightarrow> pci_dev \<Rightarrow> ('d, pci_dev) io" where
  "pci_enable_defaults M dev =
     bindS (pci_cmd_set_clr M dev PCI_COMMAND_MASTER 0) (\<lambda>_. pci_cap_walk M dev pci_cap_setup)"

section \<open>Printing\<close>

definition pci_bar_print :: "'d pci_access \<Rightarrow> pci_dev \<Rightarrow> int \<Rightarrow> ('d, unit) io" where
  "pci_bar_print M dev n =
     bindS (pci_bar_is_valid dev n) (\<lambda>valid.
     if \<not> valid then returnS ()
     else
       bindS (pci_bar_get M dev n) (\<lambda>bar.
       bindS (pci_bar_size M dev n) (\<lambda>sz.
       bindS (pci_bar_get_addr dev n) (\<lambda>start.
       let last = start + sz - 1
       in bindS (pci_bar_is64 M dev n) (\<lambda>is64.
          bindS (if is64 then
                   printfS (pci_machine M) ''BAR#%d,%d [%lx-%lx '' [Word (word_of_int n), Word (word_of_int (n + 1)), Word start, Word last]
                 else
                   printfS (pci_machine M) ''BAR#%d [%02x-%02x '' [Word (word_of_int n), Word (ucast (ucast start :: u32)),
                     Word (ucast (ucast last :: u32))]) (\<lambda>_.
          bindS (if bar AND PCI_BASE_ADDRESS_SPACE_IO \<noteq> 0 then printfS (pci_machine M) ''PIO'' []
                 else
                   bindS (printfS (pci_machine M) ''MEM'' []) (\<lambda>_.
                   let ty = bar AND PCI_BASE_ADDRESS_MEM_TYPE_MASK
                   in if ty = PCI_BASE_ADDRESS_MEM_TYPE_32 then printfS (pci_machine M) ''32'' []
                      else if ty = PCI_BASE_ADDRESS_MEM_TYPE_1M then printfS (pci_machine M) ''1M'' []
                      else if ty = PCI_BASE_ADDRESS_MEM_TYPE_64 then printfS (pci_machine M) ''64'' []
                      else assertS False)) (\<lambda>_.
          bindS (if bar AND PCI_BASE_ADDRESS_MEM_PREFETCH \<noteq> 0 then printfS (pci_machine M) ''/p'' [] else returnS ()) (\<lambda>_.
          printfS (pci_machine M) '']'' []))))))))"

definition pci_dev_print_id :: "'d pci_access \<Rightarrow> pci_dev \<Rightarrow> ('d, unit) io" where
  "pci_dev_print_id M dev =
     (let b = bdf dev
      in bindS (pci_config_readw M b PCI_VENDOR_ID) (\<lambda>vendor.
         bindS (pci_config_readw M b PCI_DEVICE_ID) (\<lambda>device.
         printfS (pci_machine M) ''00.%02x.%1x %04x:%04x'' [Word (ucast (b div 8)), Word (ucast (b mod 8)), Word (ucast vendor), Word (ucast device)])))"

definition pci_cap_print :: "'d pci_access \<Rightarrow> pci_dev \<Rightarrow> u8 \<Rightarrow> u8 \<Rightarrow> ('d, pci_dev) io" where
  "pci_cap_print M dev cap_offset cap_id =
     bindS (if cap_id = PCI_CAP_ID_MSI then
              bindS (pci_config_readw M (bdf dev) (ucast (ucast cap_offset + PCI_MSI_FLAGS))) (\<lambda>control.
              printfS (pci_machine M) (CHR 0x09 # ''MSI,%s-bit capability '')
                [Str (if control AND PCI_MSI_FLAGS_64BIT \<noteq> 0 then ''64'' else ''32'')])
            else printfS (pci_machine M) (CHR 0x09 # ''capability %#04x '') [Word (ucast cap_id)]) (\<lambda>_.
     bindS (printfS (pci_machine M) (''at offset %#04x'' @ [CHR 0x0A]) [Word (ucast cap_offset)]) (\<lambda>_. returnS dev))"

primrec print_bars_loop :: "'d pci_access \<Rightarrow> pci_dev \<Rightarrow> nat \<Rightarrow> int \<Rightarrow> ('d, unit) io" where
  "print_bars_loop M dev 0 i = returnS ()"
| "print_bars_loop M dev (Suc k) i =
     (if i < PCI_BAR_NUM then
        bindS (pci_bar_is_valid dev i) (\<lambda>valid.
        bindS (if valid then
                 bindS (printfS (pci_machine M) [CHR 0x09] []) (\<lambda>_.
                 bindS (pci_bar_print M dev i) (\<lambda>_. printfS (pci_machine M) [CHR 0x0A] []))
               else returnS ()) (\<lambda>_.
        bindS (pci_bar_is64 M dev i) (\<lambda>is64.
        print_bars_loop M dev k (if is64 then i + 2 else i + 1))))
      else returnS ())"

definition pci_dev_print :: "'d pci_access \<Rightarrow> pci_dev \<Rightarrow> ('d, unit) io" where
  "pci_dev_print M dev =
     (let b = bdf dev
      in bindS (pci_config_readb M b PCI_HEADER_TYPE) (\<lambda>header.
         bindS (pci_config_readb M b PCI_CLASS_PROG) (\<lambda>progif.
         bindS (pci_config_readb M b PCI_CLASS_DEVICE) (\<lambda>subclass.
         bindS (pci_config_readb M b (PCI_CLASS_DEVICE + 1)) (\<lambda>cls.
         bindS (pci_dev_print_id M dev) (\<lambda>_.
         bindS (printfS (pci_machine M) ('' type %02x progif %02x class %02x subclass %02x'' @ [CHR 0x0A])
                  [Word (ucast header), Word (ucast progif), Word (ucast cls), Word (ucast subclass)]) (\<lambda>_.
         bindS (pci_cap_walk M dev (pci_cap_print M)) (\<lambda>dev.
         if header AND PCI_HEADER_TYPE_MASK \<noteq> PCI_HEADER_TYPE_NORMAL then returnS ()
         else print_bars_loop M dev 6 0))))))))"

definition pci_print :: "'d pci_access \<Rightarrow> ('d, unit) io" where
  "pci_print M =
     forS (\<lambda>devfn.
       bindS (pci_dev_exists M (of_nat devfn)) (\<lambda>ex.
       if ex then bindS (pci_dev_init M (of_nat devfn)) (pci_dev_print M) else returnS ())) [0..<PCI_DEVFN_MAX]"
section \<open>The capability walk\<close>

text \<open>
  What the drivers rely on: a read of configuration space returns the byte there and changes none.
\<close>

definition pci_bytes :: "'d pci_access \<Rightarrow> ('d \<Rightarrow> u16 \<Rightarrow> u8 \<Rightarrow> u8) \<Rightarrow> bool" where
  "pci_bytes M cfg \<longleftrightarrow> (\<forall>d dev reg. \<exists>d'. pci_config_readb M dev reg d = Inr (cfg d dev reg, d') \<and> cfg d' = cfg d)"

text \<open>The capabilities of a device from an offset: their offsets and identifiers.\<close>

fun cap_chain :: "(u8 \<Rightarrow> u8) \<Rightarrow> u8 \<Rightarrow> (u8 \<times> u8) list \<Rightarrow> bool" where
  "cap_chain c off [] \<longleftrightarrow> off = 0"
| "cap_chain c off ((a, i) # caps) \<longleftrightarrow> off \<noteq> 0 \<and> a = off \<and> i = c off \<and> i \<le> PCI_CAP_ID_MAX \<and> cap_chain c (c (off + 1)) caps"

definition setup_cap :: "pci_dev \<Rightarrow> u8 \<times> u8 \<Rightarrow> pci_dev" where
  "setup_cap dev c = (if snd c = PCI_CAP_ID_MSI then dev\<lparr>msi_offset := ucast (fst c)\<rparr> else dev)"

lemma cap_id_ok: "i < PCI_CAP_ID_MAX + 1 \<longleftrightarrow> i \<le> PCI_CAP_ID_MAX"
  by (simp add: PCI_CAP_ID_MAX_def word_less_nat_alt word_le_nat_alt) linarith

lemma cap_walk_loop_cases:
  assumes cfg: "pci_bytes M cfg"
  shows "(\<exists>caps d'. cap_chain (cfg d (bdf dev)) off caps \<and> length caps \<le> n \<and>
      cap_walk_loop M pci_cap_setup n dev off d = Inr (foldl setup_cap dev caps, d') \<and> cfg d' = cfg d) \<or>
    (\<nexists>caps. cap_chain (cfg d (bdf dev)) off caps \<and> length caps \<le> n) \<and>
      cap_walk_loop M pci_cap_setup n dev off d = Inl Assert_failed"
proof (induction n arbitrary: dev off d)
  case 0
  show ?case
  proof (cases "off = 0")
    case True
    then show ?thesis by (intro disjI1 exI [of _ "[]"] exI [of _ d]) (simp add: returnS_def)
  next
    case False
    obtain d1 where d1: "pci_config_readb M (bdf dev) off d = Inr (cfg d (bdf dev) off, d1)"
      using cfg unfolding pci_bytes_def by blast
    obtain d2 where "pci_config_readb M (bdf dev) (off + 1) d1 = Inr (cfg d1 (bdf dev) (off + 1), d2)"
      using cfg unfolding pci_bytes_def by blast
    then show ?thesis using False d1
      by (auto simp: bindS_eval d1 assertS_def pci_cap_setup_def returnS_def)
  qed
next
  case (Suc n)
  show ?case
  proof (cases "off = 0")
    case True
    then show ?thesis by (intro disjI1 exI [of _ "[]"] exI [of _ d]) (simp add: returnS_def)
  next
    case False
    let ?c = "cfg d (bdf dev)"
    obtain d1 where d1: "pci_config_readb M (bdf dev) off d = Inr (?c off, d1)" "cfg d1 = cfg d"
      using cfg unfolding pci_bytes_def by blast
    show ?thesis
    proof (cases "?c off \<le> PCI_CAP_ID_MAX")
      case bad: False
      have "\<not> cap_chain ?c off caps" for caps using False bad by (cases caps) auto
      then show ?thesis using False bad d1
        by (simp add: bindS_eval d1(1) assertS_def cap_id_ok)
    next
      case True
      let ?dev = "setup_cap dev (off, ?c off)"
      have b: "bdf ?dev = bdf dev" by (simp add: setup_cap_def)
      obtain d2 where d2: "pci_config_readb M (bdf dev) (off + 1) d1 = Inr (?c (off + 1), d2)" "cfg d2 = cfg d"
        using cfg d1(2) unfolding pci_bytes_def by metis
      have run: "cap_walk_loop M pci_cap_setup (Suc n) dev off d = cap_walk_loop M pci_cap_setup n ?dev (?c (off + 1)) d2"
        using False True b d2(1)
        by (simp add: bindS_eval [of _ _ d] bindS_eval [of _ _ d1] bindS_eval [of _ _ d2] d1(1) assertS_def cap_id_ok pci_cap_setup_def setup_cap_def returnS_def)
      have chain: "cap_chain ?c off caps \<longleftrightarrow> (\<exists>caps'. caps = (off, ?c off) # caps' \<and> cap_chain ?c (?c (off + 1)) caps')" for caps
        using False True by (cases caps) auto
      show ?thesis
        using Suc.IH [of d2 ?dev "?c (off + 1)"] unfolding run b d2(2) chain
        by (elim disjE exE conjE; force)
    qed
  qed
qed

text \<open>
  \<open>pci_cap_walk\<close> ends whatever the device answers. If the capability list is a chain of at most 255
  known capabilities, the driver's \<open>msi_offset\<close> is afterwards that of the last MSI capability in it;
  for a longer or circular list, or an unknown capability, the walk fails an assertion.
\<close>

theorem pci_cap_walk_ends:
  assumes "pci_bytes M cfg"
  defines "first \<equiv> \<lambda>d dev. cfg d (bdf dev) PCI_CAPABILITY_LIST"
  shows "(\<exists>caps d'. cap_chain (cfg d (bdf dev)) (first d dev) caps \<and> length caps \<le> 255 \<and>
      pci_cap_walk M dev pci_cap_setup d = Inr (foldl setup_cap dev caps, d') \<and> cfg d' = cfg d) \<or>
    (\<nexists>caps. cap_chain (cfg d (bdf dev)) (first d dev) caps \<and> length caps \<le> 255) \<and>
      pci_cap_walk M dev pci_cap_setup d = Inl Assert_failed"
proof -
  obtain d1 where d1: "pci_config_readb M (bdf dev) PCI_CAPABILITY_LIST d = Inr (first d dev, d1)" "cfg d1 = cfg d"
    using assms(1) unfolding pci_bytes_def first_def by blast
  then show ?thesis
    using cap_walk_loop_cases [OF assms(1), of d1 dev "first d dev" 255]
    by (simp add: pci_cap_walk_def bindS_eval [of _ _ d])
qed
section \<open>Sizing a BAR\<close>

text \<open>
  Registers of a device: a write changes the writable bits \<open>w\<close> of one register, a read none.
\<close>

definition pci_dwords :: "'d pci_access \<Rightarrow> ('d \<Rightarrow> u16 \<Rightarrow> u8 \<Rightarrow> u32) \<Rightarrow> (u16 \<Rightarrow> u8 \<Rightarrow> u32) \<Rightarrow> bool" where
  "pci_dwords M cfg w \<longleftrightarrow>
     (\<forall>d dev reg. \<exists>d'. pci_config_readl M dev reg d = Inr (cfg d dev reg, d') \<and> cfg d' = cfg d) \<and>
     (\<forall>d dev reg v. \<exists>d'. pci_config_writel M dev reg v d = Inr ((), d') \<and>
        cfg d' = (\<lambda>dev' reg'. if dev' = dev \<and> reg' = reg then (v AND w dev reg) OR (cfg d dev reg AND NOT (w dev reg))
                              else cfg d dev' reg'))"

lemma pci_dwords_read:
  assumes "pci_dwords M cfg w"
  obtains d' where "pci_config_readl M dev reg d = Inr (cfg d dev reg, d')" "cfg d' = cfg d"
  using assms unfolding pci_dwords_def by blast

lemma write_back: "(a AND w) OR ((w OR (a AND NOT w)) AND NOT w) = (a :: u32)"
  by (intro bit_word_eqI) (auto simp: bit_simps)

lemma size_helper_run:
  assumes "pci_dwords M cfg w"
  shows "\<exists>d'. pci_bar_size_helper M dev n d =
    Inr (w (bdf dev) (bar_reg n) OR cfg d (bdf dev) (bar_reg n), d') \<and> cfg d' = cfg d"
proof -
  let ?b = "bdf dev" and ?r = "bar_reg n"
  let ?w = "w ?b ?r" and ?o = "cfg d ?b ?r"
  obtain d1 where d1: "pci_config_readl M ?b ?r d = Inr (?o, d1)" "cfg d1 = cfg d"
    using pci_dwords_read [OF assms] .
  obtain d2 where d2: "pci_config_writel M ?b ?r (NOT 0) d1 = Inr ((), d2)"
    "cfg d2 = (\<lambda>b r. if b = ?b \<and> r = ?r then (NOT 0 AND ?w) OR (cfg d1 ?b ?r AND NOT ?w) else cfg d1 b r)"
    using assms unfolding pci_dwords_def by blast
  obtain d3 where d3: "pci_config_readl M ?b ?r d2 = Inr (cfg d2 ?b ?r, d3)" "cfg d3 = cfg d2"
    using pci_dwords_read [OF assms] .
  obtain d4 where d4: "pci_config_writel M ?b ?r ?o d3 = Inr ((), d4)"
    "cfg d4 = (\<lambda>b r. if b = ?b \<and> r = ?r then (?o AND ?w) OR (cfg d3 ?b ?r AND NOT ?w) else cfg d3 b r)"
    using assms unfolding pci_dwords_def by blast
  have "cfg d2 ?b ?r = ?w OR ?o"
    unfolding d2(2) d1(2) by (simp, intro bit_word_eqI) (auto simp: bit_simps)
  moreover have "cfg d4 = cfg d"
    unfolding d4(2) d3(2) d2(2) d1(2) by (intro ext) (simp add: write_back)
  ultimately show ?thesis
    using d1(1) d2(1) d3(1) d4(1) by (simp add: pci_bar_size_helper_def Let_def bindS_eval returnS_def)
qed

lemma pci_bar_mask_mem: "\<not> bit bar 0 \<Longrightarrow> pci_bar_mask bar = NOT (mask 4)"
proof -
  assume "\<not> bit bar 0"
  then have "bar AND PCI_BASE_ADDRESS_SPACE_IO = 0"
    by (simp add: PCI_BASE_ADDRESS_SPACE_IO_def) (metis and_exp_eq_0_iff_not_bit power_0)
  moreover have "ucast PCI_BASE_ADDRESS_MEM_MASK = (NOT (mask 4) :: u32)" by code_simp
  ultimately show ?thesis by (simp add: pci_bar_mask_def)
qed

text \<open>
  The address in a memory BAR, without its flags; for a 64-bit one, with the register after it.
\<close>

definition bar_is64 :: "u32 \<Rightarrow> bool" where
  "bar_is64 bar \<longleftrightarrow> bar AND PCI_BASE_ADDRESS_MEM_TYPE_MASK = PCI_BASE_ADDRESS_MEM_TYPE_64"

definition bar_pair :: "(u8 \<Rightarrow> u32) \<Rightarrow> int \<Rightarrow> u64" where
  "bar_pair c n = (if bar_is64 (c (bar_reg n)) then push_bit 32 (ucast (c (bar_reg (n + 1)))) else 0) OR
     ucast (c (bar_reg n) AND NOT (mask 4))"

text \<open>
  A BAR for a region of \<open>2 ^ k\<close> bytes, at an aligned address: its writable bits are those from \<open>k\<close> up.
\<close>

definition bar_region :: "(u8 \<Rightarrow> u32) \<Rightarrow> (u8 \<Rightarrow> u32) \<Rightarrow> int \<Rightarrow> nat \<Rightarrow> bool" where
  "bar_region c w n k \<longleftrightarrow> \<not> bit (c (bar_reg n)) 0 \<and> 4 \<le> k \<and> k < (if bar_is64 (c (bar_reg n)) then 64 else 32) \<and>
     bar_pair c n AND mask k = 0 \<and> w (bar_reg n) = ucast (NOT (mask k) :: u64) \<and>
     (bar_is64 (c (bar_reg n)) \<longrightarrow> w (bar_reg (n + 1)) = ucast (drop_bit 32 (NOT (mask k) :: u64)))"

lemma size_bits_32:
  assumes "bar_region c w n k" "\<not> bar_is64 (c (bar_reg n))"
  shows "(w (bar_reg n) OR c (bar_reg n)) AND NOT (mask 4) = NOT (mask k)"
proof (rule bit_word_eqI)
  fix i assume i: "i < LENGTH(32)"
  have "\<not> bit (bar_pair c n AND mask k) i" using assms(1) by (simp add: bar_region_def)
  then have "4 \<le> i \<and> i < k \<longrightarrow> \<not> bit (c (bar_reg n)) i"
    using assms(2) i by (auto simp: bar_pair_def bit_simps)
  then show "bit ((w (bar_reg n) OR c (bar_reg n)) AND NOT (mask 4)) i \<longleftrightarrow> bit (NOT (mask k) :: u32) i"
    using assms i by (auto simp: bar_region_def bit_simps)
qed

lemma size_bits_64:
  assumes "bar_region c w n k" "bar_is64 (c (bar_reg n))"
  shows "push_bit 32 (ucast (w (bar_reg (n + 1)) OR c (bar_reg (n + 1)))) OR
    ucast ((w (bar_reg n) OR c (bar_reg n)) AND NOT (mask 4)) = (NOT (mask k) :: u64)"
proof (rule bit_word_eqI)
  fix i assume i: "i < LENGTH(64)"
  have "\<not> bit (bar_pair c n AND mask k) i" using assms(1) by (simp add: bar_region_def)
  then have "i < k \<longrightarrow> (if i < 32 then 4 \<le> i \<longrightarrow> \<not> bit (c (bar_reg n)) i else \<not> bit (c (bar_reg (n + 1))) (i - 32))"
    using assms(2) i by (auto simp: bar_pair_def bit_simps split: if_splits)
  then show "bit (push_bit 32 (ucast (w (bar_reg (n + 1)) OR c (bar_reg (n + 1)))) OR
      ucast ((w (bar_reg n) OR c (bar_reg n)) AND NOT (mask 4)) :: u64) i \<longleftrightarrow> bit (NOT (mask k) :: u64) i"
    using assms i by (auto simp: bar_region_def bit_simps)
qed

lemma bar_size_region:
  assumes "pci_dwords M cfg w" "bar_num_ok n" "bar_region (cfg d (bdf dev)) (w (bdf dev)) n k"
  shows "\<exists>d'. pci_bar_size M dev n d = Inr (2 ^ k, d') \<and> cfg d' = cfg d"
proof -
  let ?c = "cfg d (bdf dev)" and ?w = "w (bdf dev)"
  let ?r = "bar_reg n"
  obtain d1 where d1: "pci_bar_size_helper M dev n d = Inr (?w ?r OR ?c ?r, d1)" "cfg d1 = cfg d"
    using size_helper_run [OF assms(1)] by blast
  obtain d2 where d2: "pci_config_readl M (bdf dev) ?r d1 = Inr (cfg d1 (bdf dev) ?r, d2)" "cfg d2 = cfg d1"
    using pci_dwords_read [OF assms(1)] .
  obtain d3 where d3: "pci_config_readl M (bdf dev) ?r d2 = Inr (cfg d2 (bdf dev) ?r, d3)" "cfg d3 = cfg d2"
    using pci_dwords_read [OF assms(1)] .
  obtain d4 where d4: "pci_bar_size_helper M dev (n + 1) d3 = Inr (?w (bar_reg (n + 1)) OR ?c (bar_reg (n + 1)), d4)"
    "cfg d4 = cfg d" using size_helper_run [OF assms(1), of dev "n + 1" d3] d3(2) d2(2) d1(2) by auto
  have b0: "\<not> bit (?c ?r) 0" using assms(3) by (simp add: bar_region_def)
  then have io: "?c ?r AND PCI_BASE_ADDRESS_SPACE_IO = 0"
    by (simp add: PCI_BASE_ADDRESS_SPACE_IO_def) (metis and_exp_eq_0_iff_not_bit power_0)
  have nz: "?w ?r OR ?c ?r \<noteq> 0"
  proof (cases "bar_is64 (?c ?r)")
    case True
    then have "?c ?r \<noteq> 0"
      by (auto simp: bar_is64_def PCI_BASE_ADDRESS_MEM_TYPE_MASK_def PCI_BASE_ADDRESS_MEM_TYPE_64_def)
    then show ?thesis by (metis or_eq_0_iff)
  next
    case False
    then have "bit (?w ?r) 31" using assms(3) by (auto simp: bar_region_def bit_simps)
    then have "?w ?r \<noteq> 0" by auto
    then show ?thesis by (metis or_eq_0_iff)
  qed
  have p: "NOT (NOT (mask k)) + 1 = (2 ^ k :: u32)" "NOT (NOT (mask k)) + 1 = (2 ^ k :: u64)"
    by (simp_all add: mask_eq_exp_minus_1)
  show ?thesis
  proof (cases "bar_is64 (?c ?r)")
    case True
    then show ?thesis
      using d1 d2 d3 d4 nz assms(2) io size_bits_64 [OF assms(3) True] p(2)
      by (simp add: pci_bar_size_def pci_bar_is64_def pci_bar_get_def bindS_eval assertS_def returnS_def Let_def
          pci_bar_mask_mem [OF b0] bar_is64_def del: bit.de_Morgan_disj)
  next
    case False
    have "k < 32" using assms(3) False by (simp add: bar_region_def)
    then have "ucast (2 ^ k :: u32) = (2 ^ k :: u64)" by (intro bit_word_eqI) (auto simp: bit_simps bit_exp_iff)
    then show ?thesis
      using d1 d2 d3 nz False assms(2) io size_bits_32 [OF assms(3) False] p(1)
      by (simp add: pci_bar_size_def pci_bar_is64_def pci_bar_get_def bindS_eval assertS_def returnS_def Let_def
          pci_bar_mask_mem [OF b0] bar_is64_def)
  qed
qed

text \<open>
  C16: \<open>pci_bar_size\<close> of a memory BAR, of 32 or of 64 bits, for a region of \<open>2 ^ k\<close> bytes at an aligned
  address returns \<open>2 ^ k\<close>, and leaves the registers of the device as they were.
\<close>

theorem pci_bar_size_region:
  assumes "pci_dwords M cfg w" "bar_num_ok n" "bar_region (cfg d (bdf dev)) (w (bdf dev)) n k"
  shows "\<exists>d'. pci_bar_size M dev n d = Inr (2 ^ k, d') \<and> cfg d' = cfg d"
  using assms by (rule bar_size_region)

text \<open>A machine with registers behind the two ports: the address selected, and the registers.\<close>

definition conf1_machine :: "(u32 \<Rightarrow> u32) \<Rightarrow> (u32 \<times> (u32 \<Rightarrow> u32)) machine" where
  "conf1_machine w = \<lparr>in8 = (\<lambda>p (a, m). (ucast (m a), a, m)), in16 = (\<lambda>p (a, m). (ucast (m a), a, m)),
     in32 = (\<lambda>p (a, m). (m a, a, m)), out8 = (\<lambda>p v d. d), out16 = (\<lambda>p v d. d),
     out32 = (\<lambda>p v (a, m). if p = 0xCF8 then (v, m) else (a, m(a := (v AND w a) OR (m a AND NOT (w a))))),
     read8 = (\<lambda>p d. (0, d)), read16 = (\<lambda>p d. (0, d)), read32 = (\<lambda>p d. (0, d)), read64 = (\<lambda>p d. (0, d)),
     write8 = (\<lambda>p v d. d), write16 = (\<lambda>p v d. d), write32 = (\<lambda>p v d. d), write64 = (\<lambda>p v d. d),
     puts_con = (\<lambda>t d. d), read_msr = (\<lambda>r d. (0, d)), write_msr = (\<lambda>r v d. d), read_cpuid = (\<lambda>l d. ((0, 0, 0, 0), d)),
     read_cr8 = (\<lambda>d. (0, d)), write_cr8 = (\<lambda>v d. d)\<rparr>"

definition conf1_view :: "u32 \<times> (u32 \<Rightarrow> u32) \<Rightarrow> u16 \<Rightarrow> u8 \<Rightarrow> u32" where
  "conf1_view d dev reg = snd d (PCI_CONF1_ADDRESS dev reg)"

lemma bit_conf1: "bit (PCI_CONF1_ADDRESS dev reg) i \<longleftrightarrow> i = 31 \<or> (8 \<le> i \<and> i < 24 \<and> bit dev (i - 8)) \<or> (i < 8 \<and> bit reg i)"
proof -
  have "bit (push_bit 31 1 :: u32) i \<longleftrightarrow> i = 31"
    by (simp only: push_bit_of_1 bit_exp_iff) auto
  then show ?thesis unfolding PCI_CONF1_ADDRESS_def bit_or_iff
    using bit_imp_le_length [of dev "i - 8"] bit_imp_le_length [of reg i] by (auto simp: bit_simps)
qed

lemma conf1_inj: "PCI_CONF1_ADDRESS dev reg = PCI_CONF1_ADDRESS dev' reg' \<longleftrightarrow> dev = dev' \<and> reg = reg'"
proof (intro iffI conjI)
  assume eq: "PCI_CONF1_ADDRESS dev reg = PCI_CONF1_ADDRESS dev' reg'"
  show "dev = dev'"
  proof (rule bit_word_eqI)
    fix i :: nat assume "i < LENGTH(16)"
    then show "bit dev i = bit dev' i" using bit_conf1 [of dev reg "i + 8"] bit_conf1 [of dev' reg' "i + 8"] eq by simp
  qed
  show "reg = reg'"
  proof (rule bit_word_eqI)
    fix i :: nat assume "i < LENGTH(8)"
    then show "bit reg i = bit reg' i" using bit_conf1 [of dev reg i] bit_conf1 [of dev' reg' i] eq by simp
  qed
qed simp

lemma conf1_dwords: "pci_dwords (x86_pci (conf1_machine w)) conf1_view (\<lambda>dev reg. w (PCI_CONF1_ADDRESS dev reg))"
  unfolding pci_dwords_def
  by (auto simp: x86_pci_def conf1_readl_def conf1_writel_def conf1_select_def conf1_machine_def bindS_eval
      outS_def inS_def conf1_view_def fun_eq_iff conf1_inj)

lemma conf1_bytes: "pci_bytes (x86_pci (conf1_machine w)) (\<lambda>d dev reg. ucast (conf1_view d dev reg))"
  unfolding pci_bytes_def
  by (auto simp: x86_pci_def conf1_readb_def conf1_select_def conf1_machine_def bindS_eval outS_def inS_def conf1_view_def)

definition sample_dev :: pci_dev where
  "sample_dev = \<lparr>bdf = 8, msi_offset = 0, resource = replicate 6 0\<rparr>"

text \<open>A device with one MSI capability at offset \<open>0x40\<close>.\<close>

lemma pci_cap_walk_ends_witness:
  "\<exists>d'. pci_cap_walk (x86_pci (conf1_machine (\<lambda>_. 0))) sample_dev pci_cap_setup
     (0, (\<lambda>_. 0)(PCI_CONF1_ADDRESS 8 0x34 := 0x40, PCI_CONF1_ADDRESS 8 0x40 := 5)) =
     Inr (sample_dev\<lparr>msi_offset := 0x40\<rparr>, d')"
proof -
  define d :: "u32 \<times> (u32 \<Rightarrow> u32)" where
    "d = (0, (\<lambda>_. 0)(PCI_CONF1_ADDRESS 8 0x34 := 0x40, PCI_CONF1_ADDRESS 8 0x40 := 5))"
  have c: "ucast (conf1_view d 8 r) = (if r = 0x34 then 0x40 else if r = 0x40 then 5 else 0 :: u8)" for r
    by (simp add: conf1_view_def conf1_inj d_def)
  have chain: "cap_chain (\<lambda>r. ucast (conf1_view d 8 r)) 0x40 caps \<longleftrightarrow> caps = [(0x40, 5)]" for caps
    by (cases caps; cases "tl caps") (auto simp: c PCI_CAP_ID_MAX_def)
  have dev: "bdf sample_dev = 8" "ucast (conf1_view d 8 PCI_CAPABILITY_LIST) = (0x40 :: u8)"
    by (simp_all add: PCI_CAPABILITY_LIST_def sample_dev_def c)
  have "\<exists>d'. pci_cap_walk (x86_pci (conf1_machine (\<lambda>_. 0))) sample_dev pci_cap_setup d = Inr (foldl setup_cap sample_dev [(0x40, 5)], d')"
    using pci_cap_walk_ends [OF conf1_bytes, of d sample_dev "\<lambda>_. 0"] unfolding dev chain by auto
  then show ?thesis by (simp add: setup_cap_def PCI_CAP_ID_MSI_def d_def)
qed

text \<open>A 32-bit memory BAR of a page at \<open>0xfebf1000\<close>.\<close>

lemma pci_bar_size_region_witness:
  "\<exists>d'. pci_bar_size (x86_pci (conf1_machine (\<lambda>_. NOT 0xfff))) sample_dev 0 (0, \<lambda>_. 0xfebf1000) = Inr (0x1000, d')"
proof -
  have "bar_region (conf1_view (0, \<lambda>_. 0xfebf1000) (bdf sample_dev)) (\<lambda>_. NOT 0xfff) 0 12"
  proof -
    have "\<not> bar_is64 0xfebf1000" unfolding bar_is64_def by code_simp
    moreover have "ucast ((0xfebf1000 :: u32) AND NOT (mask 4)) AND mask 12 = (0 :: u64)"
      "NOT 0xfff = (ucast (NOT (mask 12) :: u64) :: u32)" by code_simp+
    ultimately show ?thesis by (simp add: bar_region_def bar_pair_def conf1_view_def)
  qed
  moreover have "bar_num_ok 0" by (simp add: bar_num_ok_def PCI_BAR_NUM_def)
  ultimately show ?thesis using pci_bar_size_region [OF conf1_dwords, of 0 "(0, \<lambda>_. 0xfebf1000)" sample_dev "\<lambda>_. NOT 0xfff" 12]
    by auto
qed
end
