(* ===== verification/Apic.thy ===== *)
theory Apic
  imports DeviceIO
begin

text \<open>
  The interrupt controllers, \<open>lib/x86/apic.c\<close>: the local APIC through its page of registers (xAPIC) or
  its model-specific registers (x2APIC), switched by \<open>apic_ops\<close>, and the redirection table of the IO-APIC.
\<close>

definition APIC_ID :: u32 where "APIC_ID = 0x20"
definition APIC_EOI :: u32 where "APIC_EOI = 0xB0"
definition APIC_ICR :: u32 where "APIC_ICR = 0x300"
definition APIC_ICR2 :: u32 where "APIC_ICR2 = 0x310"
definition APIC_ICR_BUSY :: u32 where "APIC_ICR_BUSY = 0x01000"
definition APIC_BASE_MSR :: u32 where "APIC_BASE_MSR = 0x800"
definition MSR_IA32_APICBASE :: u32 where "MSR_IA32_APICBASE = 0x0000001b"
definition APIC_EXTD :: u64 where "APIC_EXTD = push_bit 10 1"
definition APIC_EN :: u64 where "APIC_EN = push_bit 11 1"

definition g_apic :: u64 where "g_apic = 0xfee00000"
definition g_ioapic :: u64 where "g_ioapic = 0xfec00000"

section \<open>The local APIC\<close>

definition xapic_read :: "'d machine \<Rightarrow> u32 \<Rightarrow> ('d, u32) io" where
  "xapic_read M reg = inS (read32 M (g_apic + ucast reg))"

definition xapic_write :: "'d machine \<Rightarrow> u32 \<Rightarrow> u32 \<Rightarrow> ('d, unit) io" where
  "xapic_write M reg val = outS (write32 M (g_apic + ucast reg) val)"

text \<open>The wait for the interrupt command register; a busy one is never left.\<close>

partial_function (option) icr_wait :: "'d machine \<Rightarrow> 'd \<Rightarrow> 'd option" where
  "icr_wait M d =
     (let (v, d) = read32 M (g_apic + ucast APIC_ICR) d
      in if v AND APIC_ICR_BUSY \<noteq> 0 then icr_wait M d else Some d)"

declare icr_wait.simps [code]

definition xapic_icr_write :: "'d machine \<Rightarrow> u32 \<Rightarrow> u32 \<Rightarrow> ('d, unit) io" where
  "xapic_icr_write M val dest =
     bindS (\<lambda>d. bindE (loopE (icr_wait M d)) (\<lambda>d. Inr ((), d))) (\<lambda>_.
     bindS (xapic_write M APIC_ICR2 (push_bit 24 dest)) (\<lambda>_. xapic_write M APIC_ICR val))"

definition xapic_id :: "'d machine \<Rightarrow> ('d, u32) io" where
  "xapic_id M = bindS (xapic_read M APIC_ID) (\<lambda>v. returnS (drop_bit 24 v))"

text \<open>The high half that \<open>x2apic_read\<close> puts together is lost in its result.\<close>

definition x2apic_read :: "'d machine \<Rightarrow> u32 \<Rightarrow> ('d, u32) io" where
  "x2apic_read M reg = bindS (inS (read_msr M (APIC_BASE_MSR + reg div 16))) (\<lambda>v. returnS (ucast v))"

definition x2apic_write :: "'d machine \<Rightarrow> u32 \<Rightarrow> u32 \<Rightarrow> ('d, unit) io" where
  "x2apic_write M reg val = outS (write_msr M (APIC_BASE_MSR + reg div 16) (ucast val))"

definition x2apic_icr_write :: "'d machine \<Rightarrow> u32 \<Rightarrow> u32 \<Rightarrow> ('d, unit) io" where
  "x2apic_icr_write M val dest =
     outS (write_msr M (APIC_BASE_MSR + APIC_ICR div 16) (push_bit 32 (ucast dest) OR ucast val))"

definition x2apic_id :: "'d machine \<Rightarrow> ('d, u32) io" where
  "x2apic_id M = x2apic_read M APIC_ID"

text \<open>The state with the variable \<open>apic_ops\<close>.\<close>

datatype apic_mode = Xapic | X2apic

record 'd apic_state =
  apic_ops :: apic_mode
  apic_hw :: 'd

definition on_apic :: "('d, 'a) io \<Rightarrow> ('d apic_state, 'a) io" where
  "on_apic f s = bindE (f (apic_hw s)) (\<lambda>(x, d). Inr (x, s\<lparr>apic_hw := d\<rparr>))"

definition by_mode :: "('d, 'a) io \<Rightarrow> ('d, 'a) io \<Rightarrow> ('d apic_state, 'a) io" where
  "by_mode f g s = (case apic_ops s of Xapic \<Rightarrow> on_apic f s | X2apic \<Rightarrow> on_apic g s)"

definition apic_read :: "'d machine \<Rightarrow> u32 \<Rightarrow> ('d apic_state, u32) io" where
  "apic_read M reg = by_mode (xapic_read M reg) (x2apic_read M reg)"

definition apic_write :: "'d machine \<Rightarrow> u32 \<Rightarrow> u32 \<Rightarrow> ('d apic_state, unit) io" where
  "apic_write M reg val = by_mode (xapic_write M reg val) (x2apic_write M reg val)"

definition eoi :: "'d machine \<Rightarrow> ('d apic_state, unit) io" where
  "eoi M = apic_write M APIC_EOI 0"

definition apic_read_bit :: "'d machine \<Rightarrow> u32 \<Rightarrow> nat \<Rightarrow> ('d apic_state, bool) io" where
  "apic_read_bit M reg n =
     (let reg = reg + of_nat ((n div 32) * 16); n = n mod 32
      in bindS (apic_read M reg) (\<lambda>v. returnS (v AND push_bit n 1 \<noteq> 0)))"

definition apic_icr_write :: "'d machine \<Rightarrow> u32 \<Rightarrow> u32 \<Rightarrow> ('d apic_state, unit) io" where
  "apic_icr_write M val dest = by_mode (xapic_icr_write M val dest) (x2apic_icr_write M val dest)"

definition apic_id :: "'d machine \<Rightarrow> ('d apic_state, u32) io" where
  "apic_id M = by_mode (xapic_id M) (x2apic_id M)"

definition apic_get_tpr :: "'d machine \<Rightarrow> ('d, u8) io" where
  "apic_get_tpr M = bindS (inS (read_cr8 M)) (\<lambda>v. returnS (ucast v))"

definition apic_set_tpr :: "'d machine \<Rightarrow> u8 \<Rightarrow> ('d, unit) io" where
  "apic_set_tpr M tpr = outS (write_cr8 M (ucast tpr))"

definition enable_x2apic :: "'d machine \<Rightarrow> ('d apic_state, int) io" where
  "enable_x2apic M =
     bindS (on_apic (inS (read_cpuid M 1))) (\<lambda>(a, b, c, d).
     if c AND push_bit 21 1 \<noteq> 0 then
       bindS (on_apic (inS (read_msr M MSR_IA32_APICBASE))) (\<lambda>v.
       bindS (on_apic (outS (write_msr M MSR_IA32_APICBASE (v OR push_bit 10 1)))) (\<lambda>_ s.
       Inr (1, s\<lparr>apic_ops := X2apic\<rparr>)))
     else returnS 0)"

definition disable_apic :: "'d machine \<Rightarrow> ('d apic_state, unit) io" where
  "disable_apic M =
     bindS (on_apic (inS (read_msr M MSR_IA32_APICBASE))) (\<lambda>v.
     bindS (on_apic (outS (write_msr M MSR_IA32_APICBASE (v AND NOT (APIC_EN OR APIC_EXTD))))) (\<lambda>_ s.
     Inr ((), s\<lparr>apic_ops := Xapic\<rparr>)))"

definition reset_apic :: "'d machine \<Rightarrow> ('d apic_state, unit) io" where
  "reset_apic M =
     bindS (disable_apic M) (\<lambda>_.
     bindS (on_apic (inS (read_msr M MSR_IA32_APICBASE))) (\<lambda>v.
     on_apic (outS (write_msr M MSR_IA32_APICBASE (v OR APIC_EN)))))"

section \<open>The IO-APIC\<close>

definition ioapic_read_reg :: "'d machine \<Rightarrow> u32 \<Rightarrow> ('d, u32) io" where
  "ioapic_read_reg M reg =
     bindS (outS (write32 M g_ioapic reg)) (\<lambda>_. inS (read32 M (g_ioapic + 0x10)))"

definition ioapic_write_reg :: "'d machine \<Rightarrow> u32 \<Rightarrow> u32 \<Rightarrow> ('d, unit) io" where
  "ioapic_write_reg M reg val =
     bindS (outS (write32 M g_ioapic reg)) (\<lambda>_. outS (write32 M (g_ioapic + 0x10) val))"

text \<open>A redirection entry is its eight bytes; these are its fields.\<close>

type_synonym redir_entry = u64

definition redir_vector :: "u64 \<Rightarrow> redir_entry \<Rightarrow> redir_entry" where "redir_vector = set_field 0 8"
definition redir_delivery_mode :: "u64 \<Rightarrow> redir_entry \<Rightarrow> redir_entry" where "redir_delivery_mode = set_field 8 3"
definition redir_trig_mode :: "u64 \<Rightarrow> redir_entry \<Rightarrow> redir_entry" where "redir_trig_mode = set_field 15 1"
definition redir_mask :: "u64 \<Rightarrow> redir_entry \<Rightarrow> redir_entry" where "redir_mask = set_field 16 1"

definition ioapic_write_redir :: "'d machine \<Rightarrow> u32 \<Rightarrow> redir_entry \<Rightarrow> ('d, unit) io" where
  "ioapic_write_redir M line e =
     bindS (ioapic_write_reg M (0x10 + line * 2 + 0) (ucast e)) (\<lambda>_.
     ioapic_write_reg M (0x10 + line * 2 + 1) (ucast (drop_bit 32 e)))"

definition ioapic_read_redir :: "'d machine \<Rightarrow> u32 \<Rightarrow> ('d, redir_entry) io" where
  "ioapic_read_redir M line =
     bindS (ioapic_read_reg M (0x10 + line * 2 + 0)) (\<lambda>lo.
     bindS (ioapic_read_reg M (0x10 + line * 2 + 1)) (\<lambda>hi.
     returnS (push_bit 32 (ucast hi) OR ucast lo)))"

definition ioapic_set_redir :: "'d machine \<Rightarrow> u32 \<Rightarrow> u32 \<Rightarrow> u64 \<Rightarrow> ('d, unit) io" where
  "ioapic_set_redir M line vec trig_mode =
     ioapic_write_redir M line (redir_trig_mode trig_mode (redir_delivery_mode 0 (redir_vector (ucast vec) 0)))"

definition set_mask :: "'d machine \<Rightarrow> u32 \<Rightarrow> u64 \<Rightarrow> ('d, unit) io" where
  "set_mask M line m =
     bindS (ioapic_read_redir M line) (\<lambda>e. ioapic_write_redir M line (redir_mask m e))"

definition set_irq_line :: "'d machine \<Rightarrow> u32 \<Rightarrow> u32 \<Rightarrow> ('d, unit) io" where
  "set_irq_line M line val = outS (out8 M (ucast (0x2000 + line)) (ucast val))"

definition enable_apic :: "'d machine \<Rightarrow> ('d, unit) io" where
  "enable_apic M = bindS (printfS M (''enabling apic'' @ [CHR 0x0A]) []) (\<lambda>_. xapic_write M 0xf0 0x1ff)"

definition mask_pic_interrupts :: "'d machine \<Rightarrow> ('d, unit) io" where
  "mask_pic_interrupts M = bindS (outS (out8 M 0x21 0xff)) (\<lambda>_. outS (out8 M 0xa1 0xff))"

section \<open>Redirection entries\<close>

text \<open>
  What the driver relies on: the IO-APIC behind its two registers is a file \<open>regs\<close> of 32-bit registers,
  in which a write through the data register changes the writable bits \<open>w\<close> of the one selected.
\<close>

definition ioapic_regs :: "'d machine \<Rightarrow> ('d \<Rightarrow> u32 \<Rightarrow> u32) \<Rightarrow> (u32 \<Rightarrow> u32) \<Rightarrow> bool" where
  "ioapic_regs M regs w \<longleftrightarrow>
     (\<forall>d r. \<exists>d'. ioapic_read_reg M r d = Inr (regs d r, d') \<and> regs d' = regs d) \<and>
     (\<forall>d r v. \<exists>d'. ioapic_write_reg M r v d = Inr ((), d') \<and>
        regs d' = (regs d)(r := (v AND w r) OR (regs d r AND NOT (w r))))"

definition redir_of :: "(u32 \<Rightarrow> u32) \<Rightarrow> u32 \<Rightarrow> redir_entry" where
  "redir_of f line = push_bit 32 (ucast (f (0x10 + line * 2 + 1))) OR ucast (f (0x10 + line * 2))"

lemma bit_redir_of:
  "bit (redir_of f line) i \<longleftrightarrow> (if i < 32 then bit (f (0x10 + line * 2)) i else i < 64 \<and> bit (f (0x10 + line * 2 + 1)) (i - 32))"
  using bit_imp_le_length [of "f (0x10 + line * 2)" i] bit_imp_le_length [of "f (0x10 + line * 2 + 1)" "i - 32"]
  by (auto simp: redir_of_def bit_simps)

lemma redir_regs_differ: "0x10 + line * 2 + 1 \<noteq> (0x10 + line * 2 :: u32)"
  by simp

lemma ioapic_read_redir_run:
  assumes "ioapic_regs M regs w"
  shows "\<exists>d'. ioapic_read_redir M line d = Inr (redir_of (regs d) line, d') \<and> regs d' = regs d"
proof -
  obtain d1 where d1: "ioapic_read_reg M (0x10 + line * 2) d = Inr (regs d (0x10 + line * 2), d1)" "regs d1 = regs d"
    using assms unfolding ioapic_regs_def by blast
  obtain d2 where "ioapic_read_reg M (0x10 + line * 2 + 1) d1 = Inr (regs d1 (0x10 + line * 2 + 1), d2)" "regs d2 = regs d1"
    using assms unfolding ioapic_regs_def by blast
  then show ?thesis using d1 by (simp add: ioapic_read_redir_def bindS_eval returnS_def redir_of_def)
qed

lemma ioapic_write_redir_run:
  assumes "ioapic_regs M regs w"
  shows "\<exists>d'. ioapic_write_redir M line e d = Inr ((), d') \<and>
    redir_of (regs d') line = (e AND redir_of w line) OR (redir_of (regs d) line AND NOT (redir_of w line)) \<and>
    (\<forall>r. r \<noteq> 0x10 + line * 2 \<and> r \<noteq> 0x10 + line * 2 + 1 \<longrightarrow> regs d' r = regs d r)"
proof -
  define lo hi where lh: "lo = 0x10 + line * 2" "hi = 0x10 + line * 2 + 1"
  have ne: "hi \<noteq> lo" unfolding lh by simp
  obtain d1 where d1: "ioapic_write_reg M lo (ucast e) d = Inr ((), d1)"
    "regs d1 = (regs d)(lo := (ucast e AND w lo) OR (regs d lo AND NOT (w lo)))"
    using assms unfolding ioapic_regs_def by blast
  obtain d2 where d2: "ioapic_write_reg M hi (ucast (drop_bit 32 e)) d1 = Inr ((), d2)"
    "regs d2 = (regs d1)(hi := (ucast (drop_bit 32 e) AND w hi) OR (regs d1 hi AND NOT (w hi)))"
    using assms unfolding ioapic_regs_def by blast
  have regs: "regs d2 lo = (ucast e AND w lo) OR (regs d lo AND NOT (w lo))"
    "regs d2 hi = (ucast (drop_bit 32 e) AND w hi) OR (regs d hi AND NOT (w hi))"
    "\<forall>r. r \<noteq> lo \<and> r \<noteq> hi \<longrightarrow> regs d2 r = regs d r"
    unfolding d2(2) d1(2) using ne by simp_all
  note bits = bit_redir_of [of _ line, folded lh]
  have "redir_of (regs d2) line = (e AND redir_of w line) OR (redir_of (regs d) line AND NOT (redir_of w line))"
    by (rule bit_word_eqI) (auto simp: bits regs bit_simps)
  moreover have "ioapic_write_redir M line e d = Inr ((), d2)"
    using d1(1) d2(1) unfolding lh by (simp add: ioapic_write_redir_def bindS_eval)
  ultimately show ?thesis using regs(3) unfolding lh by blast
qed

text \<open>
  \<open>set_mask\<close> on an IO-APIC whose mask bits are writable: the mask bit of the line becomes the low bit of
  the argument, every other writable bit of its entry is kept, and the registers of the other lines are kept.
\<close>

theorem set_mask_line:
  assumes "ioapic_regs M regs w" "bit (redir_of w line) 16"
  shows "\<exists>d'. set_mask M line m d = Inr ((), d') \<and>
    (\<forall>i. bit (redir_of (regs d') line) i = (if i = 16 then bit m 0 else bit (redir_of (regs d) line) i)) \<and>
    (\<forall>r. r \<noteq> 0x10 + line * 2 \<and> r \<noteq> 0x10 + line * 2 + 1 \<longrightarrow> regs d' r = regs d r)"
proof -
  obtain d1 where d1: "ioapic_read_redir M line d = Inr (redir_of (regs d) line, d1)" "regs d1 = regs d"
    using ioapic_read_redir_run [OF assms(1)] by blast
  let ?e = "redir_mask m (redir_of (regs d) line)"
  obtain d2 where d2: "ioapic_write_redir M line ?e d1 = Inr ((), d2)"
    "redir_of (regs d2) line = (?e AND redir_of w line) OR (redir_of (regs d1) line AND NOT (redir_of w line))"
    "\<forall>r. r \<noteq> 0x10 + line * 2 \<and> r \<noteq> 0x10 + line * 2 + 1 \<longrightarrow> regs d2 r = regs d1 r"
    using ioapic_write_redir_run [OF assms(1)] by blast
  have e: "bit ?e i = (if i = 16 then bit m 0 else bit (redir_of (regs d) line) i)" for i
    by (auto simp: redir_mask_def bit_set_field)
  have "\<forall>i. bit (redir_of (regs d2) line) i = (if i = 16 then bit m 0 else bit (redir_of (regs d) line) i)"
    unfolding d2(2) d1(2) using assms(2) bit_imp_le_length [of "redir_of (regs d) line"]
    by (auto simp: bit_and_iff bit_or_iff bit_not_iff e)
  then show ?thesis using d1 d2 by (simp add: set_mask_def bindS_eval)
qed

text \<open>An IO-APIC: the register selected and the registers.\<close>

definition ioapic_machine :: "(u32 \<times> (u32 \<Rightarrow> u32)) machine" where
  "ioapic_machine = \<lparr>in8 = (\<lambda>p d. (0, d)), in16 = (\<lambda>p d. (0, d)), in32 = (\<lambda>p d. (0, d)),
     out8 = (\<lambda>p v d. d), out16 = (\<lambda>p v d. d), out32 = (\<lambda>p v d. d),
     read8 = (\<lambda>p d. (0, d)), read16 = (\<lambda>p d. (0, d)), read32 = (\<lambda>p (r, f). (f r, r, f)), read64 = (\<lambda>p d. (0, d)),
     write8 = (\<lambda>p v d. d), write16 = (\<lambda>p v d. d),
     write32 = (\<lambda>p v (r, f). if p = g_ioapic then (v, f) else (r, f(r := v))), write64 = (\<lambda>p v d. d),
     puts_con = (\<lambda>t d. d), read_msr = (\<lambda>r d. (0, d)), write_msr = (\<lambda>r v d. d), read_cpuid = (\<lambda>l d. ((0, 0, 0, 0), d)),
     read_cr8 = (\<lambda>d. (0, d)), write_cr8 = (\<lambda>v d. d)\<rparr>"

lemma ioapic_machine_regs: "ioapic_regs ioapic_machine snd (\<lambda>_. NOT 0)"
  by (auto simp: ioapic_regs_def ioapic_machine_def ioapic_read_reg_def ioapic_write_reg_def bindS_eval outS_def inS_def
      g_ioapic_def)

lemma set_mask_line_witness:
  "\<exists>d'. set_mask ioapic_machine 3 1 (0, \<lambda>_. 0x31) = Inr ((), d') \<and> bit (redir_of (snd d') 3) 16 \<and> snd d' 0x20 = 0x31"
proof -
  have "bit (redir_of (\<lambda>_. NOT 0) 3) 16" by (simp add: bit_redir_of bit_simps)
  from set_mask_line [OF ioapic_machine_regs this, of 1 "(0, \<lambda>_. 0x31)"] show ?thesis by (auto dest: spec [of _ 16])
qed

end
