(* ===== verification/IntelIommu.thy ===== *)
theory IntelIommu
  imports X86Vm Pci Apic
begin

text \<open>
  The Intel IOMMU driver, \<open>lib/x86/intel-iommu.c\<close>: its registers, the root, context and second-level
  page tables that translate the addresses of devices, and interrupt remapping. The second-level tables
  are the third interpretation of the locale \<open>radix\<close>.
\<close>

section \<open>Registers\<close>

definition VTD_PAGE_LEVEL :: nat where "VTD_PAGE_LEVEL = 3"
definition VTD_CE_AW_39BIT :: u64 where "VTD_CE_AW_39BIT = 0x1"
definition VTD_RTA_MASK :: u64 where "VTD_RTA_MASK = PAGE_MASK"
definition VTD_IRTA_MASK :: u64 where "VTD_IRTA_MASK = PAGE_MASK"
definition Q35_HOST_BRIDGE_IOMMU_ADDR :: u64 where "Q35_HOST_BRIDGE_IOMMU_ADDR = 0xfed90000"
definition VTD_PAGE_SHIFT :: nat where "VTD_PAGE_SHIFT = PAGE_SHIFT"
definition VTD_PAGE_SIZE :: u64 where "VTD_PAGE_SIZE = PAGE_SIZE"
definition DMAR_VER_REG :: u64 where "DMAR_VER_REG = 0x0"
definition DMAR_CAP_REG :: u64 where "DMAR_CAP_REG = 0x8"
definition DMAR_ECAP_REG :: u64 where "DMAR_ECAP_REG = 0x10"
definition DMAR_GCMD_REG :: u64 where "DMAR_GCMD_REG = 0x18"
definition DMAR_GSTS_REG :: u64 where "DMAR_GSTS_REG = 0x1c"
definition DMAR_RTADDR_REG :: u64 where "DMAR_RTADDR_REG = 0x20"
definition DMAR_IRTA_REG :: u64 where "DMAR_IRTA_REG = 0xb8"
definition VTD_GCMD_IR_TABLE :: u32 where "VTD_GCMD_IR_TABLE = 0x1000000"
definition VTD_GCMD_IR :: u32 where "VTD_GCMD_IR = 0x2000000"
definition VTD_GCMD_QI :: u32 where "VTD_GCMD_QI = 0x4000000"
definition VTD_GCMD_WBF :: u32 where "VTD_GCMD_WBF = 0x8000000"
definition VTD_GCMD_SFL :: u32 where "VTD_GCMD_SFL = 0x20000000"
definition VTD_GCMD_ROOT :: u32 where "VTD_GCMD_ROOT = 0x40000000"
definition VTD_GCMD_DMAR :: u32 where "VTD_GCMD_DMAR = 0x80000000"
definition VTD_GCMD_ONE_SHOT_BITS :: u32 where
  "VTD_GCMD_ONE_SHOT_BITS = VTD_GCMD_IR_TABLE OR VTD_GCMD_WBF OR VTD_GCMD_SFL OR VTD_GCMD_ROOT"
definition VTD_CONTEXT_TT_MULTI_LEVEL :: u64 where "VTD_CONTEXT_TT_MULTI_LEVEL = 0"
definition VTD_PTE_R :: u64 where "VTD_PTE_R = push_bit 0 1"
definition VTD_PTE_W :: u64 where "VTD_PTE_W = push_bit 1 1"
definition VTD_PTE_RW :: u64 where "VTD_PTE_RW = VTD_PTE_R OR VTD_PTE_W"
definition VTD_PTE_ADDR :: u64 where "VTD_PTE_ADDR = GENMASK_ULL 63 12"
definition VTD_PTE_HUGE :: u64 where "VTD_PTE_HUGE = push_bit 7 1"

text \<open>The memory of the tables, the variables of the driver, and the hardware.\<close>

record 'd iommu_state = page_alloc +
  vtd_reg_base :: u64
  index_ctr :: u32
  iommu_hw :: 'd

definition on_hw :: "('d, 'a) io \<Rightarrow> ('d iommu_state, 'a) io" where
  "on_hw f s = bindE (f (iommu_hw s)) (\<lambda>(x, d). Inr (x, s\<lparr>iommu_hw := d\<rparr>))"

definition vtd_reg :: "u64 \<Rightarrow> ('d iommu_state, u64) io" where
  "vtd_reg reg s = bindE (assertE (vtd_reg_base s \<noteq> 0)) (\<lambda>_. Inr (vtd_reg_base s + reg, s))"

definition vtd_writel :: "'d machine \<Rightarrow> u64 \<Rightarrow> u32 \<Rightarrow> ('d iommu_state, unit) io" where
  "vtd_writel M reg val = bindS (vtd_reg reg) (\<lambda>a. on_hw (outS (write32 M a val)))"

definition vtd_writeq :: "'d machine \<Rightarrow> u64 \<Rightarrow> u64 \<Rightarrow> ('d iommu_state, unit) io" where
  "vtd_writeq M reg val = bindS (vtd_reg reg) (\<lambda>a. on_hw (outS (write64 M a val)))"

definition vtd_readl :: "'d machine \<Rightarrow> u64 \<Rightarrow> ('d iommu_state, u32) io" where
  "vtd_readl M reg = bindS (vtd_reg reg) (\<lambda>a. on_hw (inS (read32 M a)))"

definition vtd_readq :: "'d machine \<Rightarrow> u64 \<Rightarrow> ('d iommu_state, u64) io" where
  "vtd_readq M reg = bindS (vtd_reg reg) (\<lambda>a. on_hw (inS (read64 M a)))"

definition vtd_root_table :: "'d machine \<Rightarrow> ('d iommu_state, u64) io" where
  "vtd_root_table M = bindS (vtd_readq M DMAR_RTADDR_REG) (\<lambda>v. returnS (v AND VTD_RTA_MASK))"

definition vtd_ir_table :: "'d machine \<Rightarrow> ('d iommu_state, u64) io" where
  "vtd_ir_table M = bindS (vtd_readq M DMAR_IRTA_REG) (\<lambda>v. returnS (v AND VTD_IRTA_MASK))"

text \<open>The wait for the status bit of a command; it does not end if the device never sets it.\<close>

partial_function (option) gcmd_wait :: "'d machine \<Rightarrow> u32 \<Rightarrow> 'd iommu_state \<Rightarrow> (err + 'd iommu_state) option" where
  "gcmd_wait M cmd s =
     (case vtd_readl M DMAR_GSTS_REG s of
        Inl e \<Rightarrow> Some (Inl e)
      | Inr (v, s) \<Rightarrow> if v AND cmd = 0 then gcmd_wait M cmd s else Some (Inr s))"

declare gcmd_wait.simps [code]

definition vtd_gcmd_or :: "'d machine \<Rightarrow> u32 \<Rightarrow> ('d iommu_state, unit) io" where
  "vtd_gcmd_or M cmd =
     bindS (assertS (is_power_of_2 (ucast cmd))) (\<lambda>_.
     bindS (vtd_readl M DMAR_GSTS_REG) (\<lambda>status.
     bindS (vtd_writel M DMAR_GCMD_REG (status OR cmd)) (\<lambda>_.
     if cmd AND VTD_GCMD_ONE_SHOT_BITS \<noteq> 0 then returnS ()
     else (\<lambda>s. bindE (loopE (gcmd_wait M cmd s)) (\<lambda>r. bindE r (\<lambda>s. Inr ((), s)))))))"

definition vtd_dump_init_info :: "'d machine \<Rightarrow> ('d iommu_state, unit) io" where
  "vtd_dump_init_info M =
     bindS (vtd_readl M DMAR_VER_REG) (\<lambda>version.
     bindS (assertS (1 \<le> drop_bit 3 version AND 0xf)) (\<lambda>_.
     bindS (on_hw (printfS M (''VT-d version:   %#x'' @ [CHR 0x0A]) [Word (ucast version)])) (\<lambda>_.
     bindS (vtd_readq M DMAR_CAP_REG) (\<lambda>cap.
     bindS (on_hw (printfS M (''     cap:       %#018lx'' @ [CHR 0x0A]) [Word cap])) (\<lambda>_.
     bindS (vtd_readq M DMAR_ECAP_REG) (\<lambda>ecap.
     on_hw (printfS M (''     ecap:      %#018lx'' @ [CHR 0x0A]) [Word ecap])))))))"

text \<open>\<open>alloc_page\<close> and \<open>memset\<close> of the page to 0.\<close>

definition zeroed_page :: "('d iommu_state, u64) io" where
  "zeroed_page s = (let (s, p) = alloc_page s in Inr (p, s\<lparr>cells := zero_page (cells s) p\<rparr>))"

definition vtd_setup_root_table :: "'d machine \<Rightarrow> ('d iommu_state, unit) io" where
  "vtd_setup_root_table M =
     bindS zeroed_page (\<lambda>root.
     bindS (vtd_writeq M DMAR_RTADDR_REG root) (\<lambda>_.
     bindS (vtd_gcmd_or M VTD_GCMD_ROOT) (\<lambda>_.
     bindS (vtd_root_table M) (\<lambda>t.
     on_hw (printfS M (''DMAR table address: %#018lx'' @ [CHR 0x0A]) [Word t])))))"

definition vtd_setup_ir_table :: "'d machine \<Rightarrow> ('d iommu_state, unit) io" where
  "vtd_setup_ir_table M =
     bindS zeroed_page (\<lambda>root.
     bindS (vtd_writeq M DMAR_IRTA_REG (root OR 0xf)) (\<lambda>_.
     bindS (vtd_gcmd_or M VTD_GCMD_IR_TABLE) (\<lambda>_.
     bindS (vtd_ir_table M) (\<lambda>t.
     on_hw (printfS M (''IR table address: %#018lx'' @ [CHR 0x0A]) [Word t])))))"

section \<open>Second-level tables\<close>

function vtd_install_loop ::
    "nat \<Rightarrow> u64 \<Rightarrow> nat \<Rightarrow> u64 \<Rightarrow> 'a page_alloc_scheme \<Rightarrow> 'a page_alloc_scheme \<times> u64 \<times> nat" where
  "vtd_install_loop level_target iova lvl root s =
     (if level_target < lvl then
        let a = root + 8 * PGDIR_OFFSET iova lvl;
            s = (if cells s a AND VTD_PTE_RW = 0 then
                   let (s, page) = alloc_page s; s = s\<lparr>cells := zero_page (cells s) page\<rparr>
                   in s\<lparr>cells := (cells s)(a := page OR VTD_PTE_RW)\<rparr>
                 else s)
        in vtd_install_loop level_target iova (lvl - 1) (cells s a AND VTD_PTE_ADDR) s
      else (s, root, lvl))"
  by pat_completeness auto
termination by (relation "measure (\<lambda>(t, iova, lvl, root, s). lvl)") auto

declare vtd_install_loop.simps [simp del]

definition vtd_install_pte ::
    "u64 \<Rightarrow> u64 \<Rightarrow> u64 \<Rightarrow> nat \<Rightarrow> 'a page_alloc_scheme \<Rightarrow> 'a page_alloc_scheme" where
  "vtd_install_pte root iova pa level_target s =
     (let (s, root, lvl) = vtd_install_loop level_target iova VTD_PAGE_LEVEL root s;
          a = root + 8 * PGDIR_OFFSET iova lvl;
          s = s\<lparr>cells := (cells s)(a := pa OR VTD_PTE_RW)\<rparr>
      in if lvl \<noteq> 1 then s\<lparr>cells := (cells s)(a := cells s a OR VTD_PTE_HUGE)\<rparr> else s)"

text \<open>
  The fields of root and context entries, each of two words at \<open>re\<close> or \<open>ce\<close>.
\<close>

definition re_present :: "u64 \<Rightarrow> u64" where "re_present q = get_field 0 1 q"
definition re_context_table_p :: "u64 \<Rightarrow> u64" where "re_context_table_p q = get_field 12 52 q"
definition ce_present :: "u64 \<Rightarrow> u64" where "ce_present q = get_field 0 1 q"
definition ce_slptptr :: "u64 \<Rightarrow> u64" where "ce_slptptr q = get_field 12 52 q"

definition new_root_entry :: "u64 \<Rightarrow> u64" where
  "new_root_entry ce = set_field 0 1 1 (set_field 12 52 (drop_bit VTD_PAGE_SHIFT ce) 0)"

definition new_context_entry :: "u64 \<Rightarrow> u64" where
  "new_context_entry slptptr =
     set_field 1 1 1 (set_field 0 1 1 (set_field 2 2 VTD_CONTEXT_TT_MULTI_LEVEL
       (set_field 12 52 (drop_bit VTD_PAGE_SHIFT slptptr) 0)))"

definition new_context_entry_hi :: "u16 \<Rightarrow> u64" where
  "new_context_entry_hi sid = set_field 0 3 VTD_CE_AW_39BIT (set_field 8 16 (ucast sid) 0)"

text \<open>The two steps of \<open>vtd_map_range\<close> that find or make the context table and the page table.\<close>

definition find_context_table :: "'d machine \<Rightarrow> u64 \<Rightarrow> u8 \<Rightarrow> ('d iommu_state, u64) io" where
  "find_context_table M re bus_n s =
     (if re_present (cells s re) = 0 then
        bindS zeroed_page (\<lambda>ce s.
          bindS (on_hw (printfS M (''allocated vt-d root entry for PCI bus %d'' @ [CHR 0x0A]) [Word (ucast bus_n)])) (\<lambda>_. returnS ce)
            (s\<lparr>cells := (cells s)(re := new_root_entry ce, re + 8 := 0)\<rparr>)) s
      else Inr (push_bit VTD_PAGE_SHIFT (re_context_table_p (cells s re)), s))"

definition find_page_table :: "'d machine \<Rightarrow> u64 \<Rightarrow> u16 \<Rightarrow> u8 \<Rightarrow> ('d iommu_state, u64) io" where
  "find_page_table M ce sid devfn s =
     (if ce_present (cells s ce) = 0 then
        bindS zeroed_page (\<lambda>slptptr s.
          bindS (on_hw (printfS M (''allocated vt-d context entry for devfn %#x'' @ [CHR 0x0A]) [Word (ucast devfn)])) (\<lambda>_. returnS slptptr)
            (s\<lparr>cells := (cells s)(ce := new_context_entry slptptr, ce + 8 := new_context_entry_hi sid)\<rparr>)) s
      else Inr (push_bit VTD_PAGE_SHIFT (ce_slptptr (cells s ce)), s))"

partial_function (option) vtd_map_loop ::
    "'d machine \<Rightarrow> u16 \<Rightarrow> u64 \<Rightarrow> u64 \<Rightarrow> u64 \<Rightarrow> u64 \<Rightarrow> 'd iommu_state \<Rightarrow> (err + 'd iommu_state) option" where
  "vtd_map_loop M sid slptptr iova pa sz s =
     (if sz \<noteq> 0 then
        (case on_hw (printfS M (''map 4K page IOVA %#lx to %#lx (sid=%#06x)'' @ [CHR 0x0A]) [Word iova, Word pa, Word (ucast sid)]) s of
           Inl e \<Rightarrow> Some (Inl e)
         | Inr (_, s) \<Rightarrow>
             vtd_map_loop M sid slptptr (iova + VTD_PAGE_SIZE) (pa + VTD_PAGE_SIZE) (sz - VTD_PAGE_SIZE)
               (vtd_install_pte slptptr iova pa 1 s))
      else Some (Inr s))"

declare vtd_map_loop.simps [code]

definition vtd_map_range :: "'d machine \<Rightarrow> u16 \<Rightarrow> u64 \<Rightarrow> u64 \<Rightarrow> u64 \<Rightarrow> ('d iommu_state, unit) io" where
  "vtd_map_range M sid iova pa sz =
     bindS (vtd_root_table M) (\<lambda>re.
     bindS (assertS (IS_ALIGNED iova 0x1000)) (\<lambda>_.
     bindS (assertS (IS_ALIGNED pa 0x1000)) (\<lambda>_.
     bindS (assertS (IS_ALIGNED sz 0x1000)) (\<lambda>_.
     let bus_n = ucast (PCI_BDF_GET_BUS sid); devfn = ucast (PCI_BDF_GET_DEVFN sid);
         re = re + 16 * ucast bus_n
     in bindS (find_context_table M re bus_n) (\<lambda>ce.
        let ce = ce + 16 * ucast devfn
        in bindS (find_page_table M ce sid devfn) (\<lambda>slptptr s.
           bindE (loopE (vtd_map_loop M sid slptptr iova pa sz s)) (\<lambda>r. bindE r (\<lambda>s. Inr ((), s)))))))))"

section \<open>Interrupt remapping\<close>

definition vtd_intr_index_alloc :: "'d machine \<Rightarrow> ('d iommu_state, u16) io" where
  "vtd_intr_index_alloc M s =
     bindE (assertE (index_ctr s <s 65535)) (\<lambda>_.
     let ctr = index_ctr s + 1; s = s\<lparr>index_ctr := ctr\<rparr>
     in bindS (on_hw (printfS M (''INTR: alloc IRTE index %d'' @ [CHR 0x0A]) [Word (ucast ctr)])) (\<lambda>_. returnS (ucast ctr)) s)"

text \<open>The two words of an interrupt remapping entry.\<close>

definition irte_lo :: "u32 \<Rightarrow> u32 \<Rightarrow> u64 \<Rightarrow> u64" where
  "irte_lo vector dest_id trigger =
     set_field 0 1 1 (set_field 32 32 (ucast dest_id) (set_field 16 8 (ucast vector) (set_field 15 1 0
       (set_field 5 3 0 (set_field 4 1 trigger (set_field 2 1 0 (set_field 1 1 1 0)))))))"

definition irte_hi :: "u16 \<Rightarrow> u64" where
  "irte_hi source_id = set_field 18 2 1 (set_field 16 2 0 (set_field 0 16 (ucast source_id) 0))"

definition vtd_setup_irte :: "pci_dev \<Rightarrow> u64 \<Rightarrow> u32 \<Rightarrow> u32 \<Rightarrow> u64 \<Rightarrow> ('d iommu_state, unit) io" where
  "vtd_setup_irte dev irte vector dest_id trigger s =
     Inr ((), s\<lparr>cells := (cells s)(irte := irte_lo vector dest_id trigger, irte + 8 := irte_hi (bdf dev))\<rparr>)"

definition TRIGGER_EDGE :: u64 where "TRIGGER_EDGE = 0"

text \<open>The message address and the IO-APIC entry, which carry the index of the remapping entry.\<close>

definition msi_addr_of :: "u16 \<Rightarrow> u64" where
  "msi_addr_of index =
     set_field 20 12 0xfee (set_field 5 15 (ucast (index AND 0x7fff)) (set_field 4 1 1 (set_field 3 1 0
       (set_field 2 1 (ucast (drop_bit 15 index AND 1)) 0))))"

definition ioapic_entry_of :: "u16 \<Rightarrow> u32 \<Rightarrow> u64 \<Rightarrow> u64" where
  "ioapic_entry_of index vector trigger =
     set_field 49 15 (ucast (index AND 0x7fff)) (set_field 48 1 1 (set_field 11 1 (ucast (drop_bit 15 index AND 1))
       (set_field 15 1 trigger (set_field 0 8 (ucast vector) 0))))"

definition vtd_setup_msi :: "'d machine \<Rightarrow> pci_dev \<Rightarrow> u32 \<Rightarrow> u32 \<Rightarrow> ('d iommu_state, bool) io" where
  "vtd_setup_msi M dev vector dest_id =
     bindS (vtd_ir_table M) (\<lambda>irte.
     bindS (vtd_intr_index_alloc M) (\<lambda>index.
     bindS (vtd_setup_irte dev (irte + 16 * ucast index) vector dest_id TRIGGER_EDGE) (\<lambda>_.
     let msi_addr = msi_addr_of index; msi_data = 0
     in bindS (on_hw (printfS M (''%s: msi_addr=%#lx, msi_data=%#x'' @ [CHR 0x0A])
                        [Str ''vtd_setup_msi'', Word msi_addr, Word (ucast (msi_data :: u32))])) (\<lambda>_.
        on_hw (pci_setup_msi (x86_pci M) dev msi_addr msi_data)))))"

definition vtd_setup_ioapic_irq :: "'d machine \<Rightarrow> pci_dev \<Rightarrow> u32 \<Rightarrow> u32 \<Rightarrow> u64 \<Rightarrow> ('d iommu_state, unit) io" where
  "vtd_setup_ioapic_irq M dev vector dest_id trigger =
     bindS (vtd_ir_table M) (\<lambda>irte.
     bindS (vtd_intr_index_alloc M) (\<lambda>index.
     bindS (vtd_setup_irte dev (irte + 16 * ucast index) vector dest_id trigger) (\<lambda>_.
     bindS (on_hw (pci_intx_line (x86_pci M) dev)) (\<lambda>line.
     on_hw (ioapic_write_redir M (ucast line) (ioapic_entry_of index vector trigger))))))"

text \<open>The argument \<open>ioremap\<close> is that function of \<open>lib/x86/io.c\<close>, which maps the registers.\<close>

definition vtd_init :: "'d machine \<Rightarrow> (u64 \<Rightarrow> u64 \<Rightarrow> ('d iommu_state, u64) io) \<Rightarrow> ('d iommu_state, unit) io" where
  "vtd_init M ioremap =
     bindS (ioremap Q35_HOST_BRIDGE_IOMMU_ADDR PAGE_SIZE) (\<lambda>base.
     bindS (\<lambda>s. Inr ((), s\<lparr>vtd_reg_base := base\<rparr>)) (\<lambda>_.
     bindS (vtd_dump_init_info M) (\<lambda>_.
     bindS (vtd_gcmd_or M VTD_GCMD_QI) (\<lambda>_.
     bindS (vtd_setup_root_table M) (\<lambda>_.
     bindS (vtd_setup_ir_table M) (\<lambda>_.
     bindS (vtd_gcmd_or M VTD_GCMD_DMAR) (\<lambda>_.
     vtd_gcmd_or M VTD_GCMD_IR)))))))"

section \<open>The second-level tables as a format\<close>

definition vtd_format :: "(nat \<times> u64) table_format" where
  "vtd_format = \<lparr>present = (\<lambda>e. e AND VTD_PTE_RW \<noteq> 0),
     large = (\<lambda>l e. (l = 2 \<or> l = 3) \<and> e AND VTD_PTE_HUGE \<noteq> 0),
     addr = (\<lambda>e. e AND VTD_PTE_ADDR), out = (\<lambda>l e va. (l, e))\<rparr>"

definition vtd_ensure :: "nat \<Rightarrow> u64 \<Rightarrow> 'a page_alloc_scheme \<Rightarrow> err + 'a page_alloc_scheme" where
  "vtd_ensure l a s =
     (if cells s a AND VTD_PTE_RW = 0 then
        let (s, p) = alloc_page s; s = s\<lparr>cells := zero_page (cells s) p\<rparr>
        in Inr (s\<lparr>cells := (cells s)(a := p OR VTD_PTE_RW)\<rparr>)
      else Inr s)"

lemma bit_VTD_PTE_RW: "bit VTD_PTE_RW i \<longleftrightarrow> i < 2"
proof -
  have "VTD_PTE_RW = mask 2" by code_simp
  then show ?thesis using bit_mask_64 [of 2 i] by (simp only:) auto
qed

lemma bit_VTD_PTE_ADDR: "bit VTD_PTE_ADDR i \<longleftrightarrow> 12 \<le> i \<and> i < 64"
  by (auto simp: VTD_PTE_ADDR_def GENMASK_ULL_def bit_simps)

lemma and_VTD_PTE_RW [simp]: "e AND VTD_PTE_RW = 0 \<longleftrightarrow> \<not> bit e 0 \<and> \<not> bit e 1"
proof -
  have "e AND VTD_PTE_RW = 0 \<longleftrightarrow> (\<forall>i. \<not> (bit e i \<and> i < 2))"
    using bit_imp_le_length [of e] by (auto simp: bit_eq_iff bit_and_iff bit_VTD_PTE_RW)
  then show ?thesis by (auto simp: less_2_cases_iff)
qed

lemma and_VTD_PTE_HUGE [simp]: "e AND VTD_PTE_HUGE = 0 \<longleftrightarrow> \<not> bit e 7"
  by (simp only: VTD_PTE_HUGE_def and_push_bit_1)

lemma vtd_format_simps [simp]:
  "present vtd_format e \<longleftrightarrow> bit e 0 \<or> bit e 1"
  "large vtd_format l e \<longleftrightarrow> (l = 2 \<or> l = 3) \<and> bit e 7"
  "addr vtd_format e = e AND VTD_PTE_ADDR" "out vtd_format l e va = (l, e)"
  by (simp_all add: vtd_format_def)

lemma vtd_table_entry:
  assumes "page_ok p" "0 < l"
  shows "link vtd_format l (p OR VTD_PTE_RW)" "addr vtd_format (p OR VTD_PTE_RW) = p"
proof -
  note p = page_ok_bits [OF assms(1)]
  show "addr vtd_format (p OR VTD_PTE_RW) = p"
    using p by (intro bit_word_eqI) (auto simp: bit_and_iff bit_or_iff bit_VTD_PTE_ADDR bit_VTD_PTE_RW)
  have "\<not> bit p 7" using p [of 7] by auto
  then show "link vtd_format l (p OR VTD_PTE_RW)"
    using assms(2) by (simp add: link_def bit_or_iff bit_VTD_PTE_RW)
qed

lemma vtd_ensure_absent:
  assumes "free_inv s (x # xs)" "\<not> present vtd_format (cells s a)"
  shows "vtd_ensure l a s = Inr (s\<lparr>freelist := cells s x, cells := (zero_page (cells s) x)(a := x OR VTD_PTE_RW)\<rparr>)"
  using assms alloc_page_Cons(1) [OF assms(1)] by (simp add: vtd_ensure_def)

interpretation vtd: radix vtd_format vtd_ensure 3 "\<lambda>t r. t < fst r"
proof
  fix l t a va B and s :: "'a page_alloc_scheme" and xs
  assume l: "0 < l" and free: "free_inv s xs" "xs \<noteq> []" and t: "t < Suc l"
    and e: "link vtd_format l (cells s a) \<or> \<not> present vtd_format (cells s a) \<or>
      \<not> t < fst (out vtd_format (Suc l) (cells s a) va)"
    and B: "if link vtd_format l (cells s a)
      then wf_table vtd_format l (cells s) (addr vtd_format (cells s a)) B else B = {}"
    and disj: "B \<inter> set xs = {}" "page_of a \<notin> B \<union> set xs"
  show "\<exists>s' xs' B'. vtd_ensure (Suc l) a s = Inr s' \<and> ensured vtd_format l a s xs B s' xs' B'"
  proof (cases "present vtd_format (cells s a)")
    case True
    then have "link vtd_format l (cells s a)" using e t by auto
    then have "ensured vtd_format l a s xs B s xs B"
      using B free disj by (intro ensured_link) auto
    moreover have "vtd_ensure (Suc l) a s = Inr s"
      using True by (auto simp: vtd_ensure_def)
    ultimately show ?thesis by blast
  next
    case False
    obtain x ys where xs: "xs = x # ys" using free(2) by (cases xs) auto
    have "\<not> link vtd_format l (cells s a)" using False by (simp add: link_def)
    then have "B = {}" using B by simp
    moreover have "page_ok x" using free(1) xs by (simp add: free_inv_def)
    note x86_entry = vtd_table_entry [OF this l]
    moreover have "\<not> present vtd_format 0" by simp
    moreover have "free_inv s (x # ys)" "page_of a \<notin> set (x # ys)" using free(1) disj(2) xs by auto
    ultimately have "ensured vtd_format l a s xs B
      (s\<lparr>freelist := cells s x, cells := (zero_page (cells s) x)(a := x OR VTD_PTE_RW)\<rparr>) ys {x}"
      unfolding xs using ensured_new_table [OF _ _ _ False] by metis
    then show ?thesis
      using vtd_ensure_absent [OF _ False, of x ys "Suc l"] \<open>free_inv s (x # ys)\<close> by blast
  qed
qed

section \<open>Installing an address\<close>

definition vtd_leaf :: "nat \<Rightarrow> u64 \<Rightarrow> u64" where
  "vtd_leaf t pa = (if t = 1 then pa OR VTD_PTE_RW else pa OR VTD_PTE_RW OR VTD_PTE_HUGE)"

lemma vtd_install_loop_at:
  assumes "0 < t" "t \<le> l"
  shows "install_at vtd_format vtd_ensure l t pt va pte s =
    Inr (let (s', pt', lvl) = vtd_install_loop t va l pt s
      in (s'\<lparr>cells := (cells s')(slot pt' va lvl := pte)\<rparr>, slot pt' va lvl))"
    "snd (snd (vtd_install_loop t va l pt s)) = t"
proof -
  have "install_at vtd_format vtd_ensure l t pt va pte s =
    Inr (let (s', pt', lvl) = vtd_install_loop t va l pt s
      in (s'\<lparr>cells := (cells s')(slot pt' va lvl := pte)\<rparr>, slot pt' va lvl)) \<and>
    snd (snd (vtd_install_loop t va l pt s)) = t"
    using assms
  proof (induction l arbitrary: pt s)
    case (Suc l)
    show ?case
    proof (cases "t = Suc l")
      case True
      then show ?thesis by (subst (1 2) vtd_install_loop.simps) (simp add: Let_def)
    next
      case False
      then have t: "t < Suc l" "t \<le> l" using Suc.prems(2) by simp_all
      let ?a = "slot pt va (Suc l)"
      define s1 where "s1 = (case vtd_ensure (Suc l) ?a s of Inr x \<Rightarrow> x | Inl _ \<Rightarrow> s)"
      have s1: "vtd_ensure (Suc l) ?a s = Inr s1"
        by (simp add: s1_def vtd_ensure_def Let_def split: prod.splits)
      have run: "vtd_install_loop t va (Suc l) pt s =
          vtd_install_loop t va l (cells s1 ?a AND VTD_PTE_ADDR) s1"
        using t(1) by (subst vtd_install_loop.simps)
          (simp add: s1_def vtd_ensure_def slot_def Let_def split: prod.splits)
      show ?thesis
        using t(1) Suc.IH [OF Suc.prems(1) t(2), of "cells s1 ?a AND VTD_PTE_ADDR" s1]
        by (simp add: s1 run Let_def)
    qed
  qed simp
  then show "install_at vtd_format vtd_ensure l t pt va pte s =
    Inr (let (s', pt', lvl) = vtd_install_loop t va l pt s
      in (s'\<lparr>cells := (cells s')(slot pt' va lvl := pte)\<rparr>, slot pt' va lvl))"
    "snd (snd (vtd_install_loop t va l pt s)) = t" by blast+
qed

lemma vtd_install_pte_at:
  assumes "0 < t" "t \<le> 3"
  shows "\<exists>a. install_at vtd_format vtd_ensure 3 t root va (vtd_leaf t pa) s =
    Inr (vtd_install_pte root va pa t s, a)"
  using vtd_install_loop_at(1) [OF assms, of root va "vtd_leaf t pa" s]
    vtd_install_loop_at(2) [OF assms, of va root s]
  by (auto simp: vtd_install_pte_def VTD_PAGE_LEVEL_def slot_def Let_def vtd_leaf_def or.assoc split: prod.splits)

lemma vtd_leaf_link: "0 < t \<Longrightarrow> t \<le> 3 \<Longrightarrow> \<not> link vtd_format (t - 1) (vtd_leaf t pa)"
  by (auto simp: link_def vtd_leaf_def bit_or_iff VTD_PTE_HUGE_def bit_push_bit_iff)

lemma vtd_leaf_present: "present vtd_format (vtd_leaf t pa)"
  by (simp add: vtd_leaf_def bit_or_iff bit_VTD_PTE_RW)

text \<open>
  C15: on well-formed second-level tables with enough free pages, and no large page above the entry,
  \<open>vtd_install_pte\<close> maps exactly the addresses under the entry of its level to \<open>pa\<close>, with the bit of
  large pages above the level of 4K pages, leaves the translation of every other address alone, keeps the
  tables and the free list well-formed and disjoint, and writes nothing outside them.
\<close>

theorem vtd_install_pte_maps:
  assumes "wf_table vtd_format 3 (cells s) root A" "free_inv s xs" "A \<inter> set xs = {}"
    and "0 < t" "t \<le> 3" "3 - t \<le> length xs"
    and "\<And>lv e. xlate vtd_format 3 (cells s) root iova = Some (lv, e) \<Longrightarrow> lv \<le> t"
  shows "\<exists>xs' A'. free_inv (vtd_install_pte root iova pa t s) xs' \<and>
    wf_table vtd_format 3 (cells (vtd_install_pte root iova pa t s)) root A' \<and> A' \<inter> set xs' = {} \<and>
    (\<forall>va. xlate vtd_format 3 (cells (vtd_install_pte root iova pa t s)) root va =
       (if same_entry t 3 iova va then Some (t, vtd_leaf t pa) else xlate vtd_format 3 (cells s) root va)) \<and>
    (\<forall>b. page_of b \<notin> A \<union> set xs \<longrightarrow> cells (vtd_install_pte root iova pa t s) b = cells s b)"
proof -
  have unblocked: "\<not> t < fst r" if "xlate vtd_format 3 (cells s) root iova = Some r" for r
    using assms(7) that by (cases r) (simp add: not_less)
  obtain s' p xs' A' where run: "install_at vtd_format vtd_ensure 3 t root iova (vtd_leaf t pa) s = Inr (s', p)"
    and inst: "vtd.installed 3 t root iova (vtd_leaf t pa) s xs A s' xs' A'"
    using vtd.install_at_correct [OF assms(1-5) order_refl assms(6) vtd_leaf_link [OF assms(4,5)] unblocked] by blast
  have eq: "s' = vtd_install_pte root iova pa t s"
    using run vtd_install_pte_at [OF assms(4,5), of root iova pa s] by auto
  show ?thesis
    using inst vtd_leaf_present [of t pa] unfolding eq vtd.installed_def
    by (intro exI [of _ xs'] exI [of _ A']) (auto simp only: vtd_format_simps if_True)
qed

lemma vtd_install_pte_maps_witness:
  "xlate vtd_format 3 (cells (vtd_install_pte 0x1000 0x12345000 0x7000 1 sample)) 0x1000 0x12345000 = Some (1, 0x7003)"
proof -
  have ok: "page_ok 0x1000" unfolding page_ok_def by code_simp
  have z: "cells sample b = 0" if "page_of b = 0x1000" for b
  proof -
    have "page_ok 0x2000" "page_ok 0x3000" unfolding page_ok_def by code_simp+
    note page_of_page [OF this(1)] page_of_page [OF this(2)]
    then show ?thesis using that by (auto simp: sample_def)
  qed
  note tab = wf_table_zero [of vtd_format _ 3, OF _ ok _ z]
  have leaf: "vtd_leaf (Suc 0) 0x7000 = 0x7003" by code_simp
  have "\<exists>xs' A'. free_inv (vtd_install_pte 0x1000 0x12345000 0x7000 1 sample) xs' \<and>
    wf_table vtd_format 3 (cells (vtd_install_pte 0x1000 0x12345000 0x7000 1 sample)) 0x1000 A' \<and> A' \<inter> set xs' = {} \<and>
    (\<forall>va. xlate vtd_format 3 (cells (vtd_install_pte 0x1000 0x12345000 0x7000 1 sample)) 0x1000 va =
       (if same_entry 1 3 0x12345000 va then Some (1, vtd_leaf 1 0x7000) else xlate vtd_format 3 (cells sample) 0x1000 va)) \<and>
    (\<forall>b. page_of b \<notin> {0x1000} \<union> set [0x2000, 0x3000, 0x4000] \<longrightarrow>
       cells (vtd_install_pte 0x1000 0x12345000 0x7000 1 sample) b = cells sample b)"
    by (rule vtd_install_pte_maps [OF _ sample_ok(3,4)]) (simp_all add: tab)
  then show ?thesis using leaf by (auto simp: same_entry_def)
qed
section \<open>Remapped interrupts\<close>

text \<open>
  The index of a remapping entry as the hardware reads it from a message address or from an entry of the
  IO-APIC: fifteen bits in one field, the last in another.
\<close>

definition msi_index :: "u64 \<Rightarrow> u64" where
  "msi_index a = get_field 5 15 a OR push_bit 15 (get_field 2 1 a)"

definition ioapic_index :: "u64 \<Rightarrow> u64" where
  "ioapic_index e = get_field 49 15 e OR push_bit 15 (get_field 11 1 e)"

lemma index_parts:
  "(ucast (i AND 0x7fff) AND mask 15) OR push_bit 15 (ucast (drop_bit 15 i AND 1) AND mask 1) = (ucast i :: u64)"
  for i :: u16
proof (rule bit_word_eqI)
  fix n :: nat
  have m: "(0x7fff :: u16) = mask 15" "(1 :: u16) = mask 1" by (simp_all add: mask_eq_exp_minus_1)
  have "n < 15 \<or> n = 15 \<or> 15 < n" by auto
  then show "bit ((ucast (i AND 0x7fff) AND mask 15) OR push_bit 15 (ucast (drop_bit 15 i AND 1) AND mask 1) :: u64) n
      = bit (ucast i :: u64) n"
    using bit_imp_le_length [of i n] unfolding m
    by (auto simp: bit_simps)
qed

text \<open>
  the message address and the IO-APIC entry that the driver builds for a remapping entry are read back
  by the hardware as that entry's index, in remappable format, whatever the index; the IO-APIC entry also
  keeps the low eight bits of the vector and the trigger mode.
\<close>

theorem interrupt_index_roundtrip:
  "msi_index (msi_addr_of i) = ucast i \<and> get_field 4 1 (msi_addr_of i) = 1 \<and>
   get_field 20 12 (msi_addr_of i) = 0xfee \<and>
   ioapic_index (ioapic_entry_of i vector trigger) = ucast i \<and>
   get_field 48 1 (ioapic_entry_of i vector trigger) = 1 \<and>
   get_field 0 8 (ioapic_entry_of i vector trigger) = ucast vector AND mask 8 \<and>
   get_field 15 1 (ioapic_entry_of i vector trigger) = trigger AND mask 1"
  unfolding msi_index_def ioapic_index_def msi_addr_of_def ioapic_entry_of_def
  using index_parts [of i]
  by (simp add: get_set_field get_set_other) (simp add: mask_eq_exp_minus_1 push_bit_and)

text \<open>
  a remapping entry is present, and carries the vector, the destination, the trigger mode and the
  source that \<open>vtd_setup_irte\<close> is called with, the source to be checked in full.
\<close>

theorem vtd_setup_irte_fields:
  "\<exists>s'. vtd_setup_irte dev irte vector dest_id trigger s = Inr ((), s') \<and>
     get_field 0 1 (cells s' irte) = 1 \<and> get_field 1 1 (cells s' irte) = 1 \<and>
     get_field 16 8 (cells s' irte) = ucast vector AND mask 8 \<and>
     get_field 32 32 (cells s' irte) = ucast dest_id \<and> get_field 4 1 (cells s' irte) = trigger AND mask 1 \<and>
     get_field 15 1 (cells s' irte) = 0 \<and>
     get_field 0 16 (cells s' (irte + 8)) = ucast (bdf dev) \<and> get_field 18 2 (cells s' (irte + 8)) = 1 \<and>
     {a. cells s' a \<noteq> cells s a} \<subseteq> {irte, irte + 8}"
proof -
  have w: "ucast d AND mask 32 = (ucast d :: u64)" for d :: u32
    using bit_imp_le_length [of d] by (intro bit_word_eqI) (auto simp: bit_simps)
  have h: "ucast d AND mask 16 = (ucast d :: u64)" for d :: u16
    using bit_imp_le_length [of d] by (intro bit_word_eqI) (auto simp: bit_simps)
  show ?thesis
    unfolding vtd_setup_irte_def
    by (simp add: irte_lo_def irte_hi_def get_set_field get_set_other w h) (auto simp: mask_eq_exp_minus_1)
qed
end
