(* ===== verification/Virtio.thy ===== *)
theory Virtio
  imports AllocPage DeviceIO "HOL-Library.Multiset"
begin

text \<open>
  Virtqueues, \<open>lib/virtio.c\<close> and \<open>lib/virtio.h\<close>, and the device behind memory-mapped registers,
  \<open>lib/virtio-mmio.c\<close>. The pages of a ring are kept as what they hold: the descriptors, the ring of
  available and the ring of used descriptors. The driver and the device interleave as the step relation
  \<open>vq_step\<close>.
\<close>

definition VRING_DESC_F_NEXT :: u16 where "VRING_DESC_F_NEXT = 1"

record vring_desc =
  desc_addr :: u64
  desc_len :: u32
  desc_flags :: u16
  desc_next :: u16

text \<open>\<open>struct vring\<close>: the size and the addresses of the three parts.\<close>

record vring =
  ring_num :: u32
  ring_desc :: u64
  ring_avail :: u64
  ring_used :: u64

text \<open>What the pages of a ring hold; an element of the used ring is an id and a length.\<close>

record vring_mem =
  descs :: "vring_desc list"
  avail_idx :: u16
  avail_ring :: "u16 list"
  used_idx :: u16
  used_ring :: "(u32 \<times> u32) list"

text \<open>\<open>data\<close> has as many elements as the allocated block has room for.\<close>

record ('n, 'c) vring_virtqueue = vring_mem +
  vring :: vring
  callback :: 'c
  vq_name :: string
  vdev :: u64
  index :: u32
  num_free :: u32
  free_head :: u32
  num_added :: u32
  last_used_idx :: u16
  notify :: 'n
  data :: "u64 list"

section \<open>The ring\<close>

text \<open>A descriptor is 16 bytes, the available ring has a header of 4 bytes and elements of 2.\<close>

definition vring_init :: "u32 \<Rightarrow> u64 \<Rightarrow> u64 \<Rightarrow> vring" where
  "vring_init num p align =
     (let avail = p + ucast num * 16
      in \<lparr>ring_num = num, ring_desc = p, ring_avail = avail,
          ring_used = ((avail + 4 + 2 * ucast num) + 2 + align - 1) AND NOT (align - 1)\<rparr>)"

function init_loop :: "nat \<Rightarrow> nat \<Rightarrow> vring_desc list \<Rightarrow> u64 list \<Rightarrow> err + (vring_desc list \<times> u64 list)" where
  "init_loop m i ds ptrs =
     (if i < m then
        (if i < length ds \<and> i < length ptrs
         then init_loop m (i + 1) (ds[i := (ds ! i)\<lparr>desc_next := of_nat (i + 1)\<rparr>]) (ptrs[i := 0])
         else Inl Out_of_bounds)
      else if i < length ptrs then Inr (ds, ptrs[i := 0]) else Inl Out_of_bounds)"
  by pat_completeness auto
termination by (relation "measure (\<lambda>(m, i, _). m - i)") auto

declare init_loop.simps [simp del]

definition vring_init_virtqueue ::
    "nat \<Rightarrow> vring_mem \<Rightarrow> u32 \<Rightarrow> u32 \<Rightarrow> u64 \<Rightarrow> u64 \<Rightarrow> u64 \<Rightarrow> 'n \<Rightarrow> 'c \<Rightarrow> string \<Rightarrow> err + ('n, 'c) vring_virtqueue" where
  "vring_init_virtqueue room m ind num vring_align dev queue ntf cb name =
     bindE (init_loop (unat (num - 1)) 0 (descs m) (replicate room 0)) (\<lambda>(ds, ptrs). Inr
       \<lparr>descs = ds, avail_idx = avail_idx m, avail_ring = avail_ring m, used_idx = used_idx m, used_ring = used_ring m,
        vring = vring_init num queue vring_align, callback = cb, vq_name = name, vdev = dev,
        index = ind, num_free = num, free_head = 0, num_added = 0, last_used_idx = 0, notify = ntf, data = ptrs\<rparr>)"

definition virtqueue_add_outbuf ::
    "u64 \<Rightarrow> u32 \<Rightarrow> ('n, 'c) vring_virtqueue \<Rightarrow> err + (int \<times> ('n, 'c) vring_virtqueue)" where
  "virtqueue_add_outbuf buf len vq =
     bindE (assertE (buf \<noteq> 0)) (\<lambda>_.
     bindE (assertE (len \<noteq> 0)) (\<lambda>_.
     if num_free vq = 0 then Inr (- 1, vq)
     else
       let vq = vq\<lparr>num_free := num_free vq - 1\<rparr>;
           head = unat (free_head vq);
           avail = unat (ucast (avail_idx vq) AND (ring_num (vring vq) - 1))
       in if head < length (descs vq) \<and> head < length (data vq) \<and> avail < length (avail_ring vq) then
            let d = (descs vq ! head)\<lparr>desc_flags := 0, desc_addr := buf, desc_len := len\<rparr>;
                vq = vq\<lparr>descs := (descs vq)[head := d], free_head := ucast (desc_next d),
                        data := (data vq)[head := buf],
                        avail_ring := (avail_ring vq)[avail := of_nat head],
                        avail_idx := avail_idx vq + 1, num_added := num_added vq + 1\<rparr>
            in Inr (0, vq)
          else Inl Out_of_bounds))"

definition virtqueue_kick :: "(('n, 'c) vring_virtqueue \<Rightarrow> ('d, bool) io) \<Rightarrow> ('n, 'c) vring_virtqueue \<Rightarrow> ('d, bool) io" where
  "virtqueue_kick run_notify vq = run_notify vq"

text \<open>The walk along a chain of descriptors, which counts them as free.\<close>

partial_function (option) detach_loop :: "vring_desc list \<Rightarrow> nat \<Rightarrow> u32 \<Rightarrow> (err + (nat \<times> u32)) option" where
  "detach_loop ds i free =
     (if i < length ds then
        if desc_flags (ds ! i) AND VRING_DESC_F_NEXT \<noteq> 0
        then detach_loop ds (unat (desc_next (ds ! i))) (free + 1)
        else Some (Inr (i, free))
      else Some (Inl Out_of_bounds))"

declare detach_loop.simps [code]

definition detach_buf :: "nat \<Rightarrow> ('n, 'c) vring_virtqueue \<Rightarrow> err + ('n, 'c) vring_virtqueue" where
  "detach_buf head vq =
     (if head < length (data vq) then
        let vq = vq\<lparr>data := (data vq)[head := 0]\<rparr>
        in bindE (loopE (detach_loop (descs vq) head (num_free vq))) (\<lambda>r. bindE r (\<lambda>(i, n). Inr
             (vq\<lparr>descs := (descs vq)[i := (descs vq ! i)\<lparr>desc_next := ucast (free_head vq)\<rparr>],
                 free_head := of_nat head, num_free := n + 1\<rparr>)))
      else Inl Out_of_bounds)"

definition virtqueue_get_buf ::
    "('n, 'c) vring_virtqueue \<Rightarrow> err + ((u64 \<times> u32) \<times> ('n, 'c) vring_virtqueue)" where
  "virtqueue_get_buf vq =
     (let last_used = unat (ucast (last_used_idx vq) AND (ring_num (vring vq) - 1))
      in if last_used < length (used_ring vq) then
           let (i, len) = used_ring vq ! last_used
           in if unat i < length (data vq) then
                let ret = data vq ! unat i
                in bindE (detach_buf (unat i) vq) (\<lambda>vq.
                   Inr ((ret, len), vq\<lparr>last_used_idx := last_used_idx vq + 1\<rparr>))
              else Inl Out_of_bounds
         else Inl Out_of_bounds)"

section \<open>The free list of descriptors\<close>

primrec free_chain :: "vring_desc list \<Rightarrow> nat \<Rightarrow> nat list \<Rightarrow> bool" where
  "free_chain ds h [] \<longleftrightarrow> True"
| "free_chain ds h (i # is) \<longleftrightarrow> h = i \<and> free_chain ds (unat (desc_next (ds ! i))) is"

lemma free_chain_upd [simp]: "i \<notin> set is \<Longrightarrow> free_chain (ds[i := d]) h is = free_chain ds h is"
  by (induction "is" arbitrary: h) auto

text \<open>
  A queue of \<open>n\<close> descriptors in order: \<open>fl\<close> are the free ones, chained from \<open>free_head\<close>, and the others
  hold a buffer. The size is a power of two, at most the 32768 of the virtio standard.
\<close>

definition vq_ok :: "('n, 'c) vring_virtqueue \<Rightarrow> nat list \<Rightarrow> bool" where
  "vq_ok vq fl \<longleftrightarrow>
     (\<exists>k \<le> 15. unat (ring_num (vring vq)) = 2 ^ k \<and> length (descs vq) = 2 ^ k \<and> length (data vq) = 2 ^ k \<and>
        length (avail_ring vq) = 2 ^ k \<and> length (used_ring vq) = 2 ^ k) \<and>
     distinct fl \<and> unat (num_free vq) = length fl \<and> free_chain (descs vq) (unat (free_head vq)) fl \<and>
     (\<forall>i \<in> set fl. i < length (data vq)) \<and>
     (\<forall>i < length (data vq). data vq ! i = 0 \<longleftrightarrow> i \<in> set fl) \<and>
     (\<forall>i < length (data vq). desc_flags (descs vq ! i) = 0)"

lemma unat_ucast_16_32: "unat (ucast (i :: u16) :: u32) = unat i"
proof -
  have "unat i < 2 ^ 32" by (rule less_trans [OF unsigned_less]) simp
  then show ?thesis by (simp only: unsigned_ucast_eq len_words take_bit_nat_eq_self)
qed

text \<open>The place of an index in the rings.\<close>

definition ring_slot :: "('n, 'c) vring_virtqueue \<Rightarrow> u16 \<Rightarrow> nat" where
  "ring_slot vq i = unat i mod length (data vq)"

lemma ring_slot_eq:
  assumes "vq_ok vq fl"
  shows "unat (ucast i AND (ring_num (vring vq) - 1)) = ring_slot vq i"
proof -
  obtain k where k: "k \<le> 15" "unat (ring_num (vring vq)) = 2 ^ k" "length (data vq) = 2 ^ k"
    using assms by (auto simp: vq_ok_def)
  have "ring_num (vring vq) = 2 ^ k"
  proof (rule unsigned_word_eqI)
    have "(2 :: nat) ^ k < 2 ^ 32" using k(1) by (intro power_strict_increasing) auto
    then show "unat (ring_num (vring vq)) = unat ((2 :: u32) ^ k)"
      using k(1,2) unat_of_nat [of "2 ^ k", where 'a = 32] by (simp add: take_bit_eq_mod)
  qed
  then have "ring_num (vring vq) - 1 = mask k" by (simp add: mask_eq_exp_minus_1)
  then have "unat (ucast i AND (ring_num (vring vq) - 1)) = unat (take_bit k (ucast i :: u32))"
    by (simp only: take_bit_eq_mask)
  also have "\<dots> = take_bit k (unat (ucast i :: u32))" by (rule unsigned_take_bit_eq)
  also have "unat (ucast i :: u32) = unat i" by (rule unat_ucast_16_32)
  finally show ?thesis using k(3) by (simp only: ring_slot_def take_bit_eq_mod)
qed

section \<open>The operations\<close>

text \<open>Adding a buffer takes the first free descriptor, and fails when there is none.\<close>

lemma add_outbuf_full:
  assumes "vq_ok vq []" "buf \<noteq> 0" "len \<noteq> 0"
  shows "virtqueue_add_outbuf buf len vq = Inr (- 1, vq)"
  using assms by (auto simp: vq_ok_def virtqueue_add_outbuf_def unat_eq_0)

lemma free_head_small: "vq_ok vq (i # is) \<Longrightarrow> i < length (data vq) \<and> i < 2 ^ 15"
proof -
  assume ok: "vq_ok vq (i # is)"
  then obtain k where "k \<le> 15" "length (data vq) = 2 ^ k" "i < length (data vq)" by (auto simp: vq_ok_def)
  moreover from this(1) have "(2 :: nat) ^ k \<le> 2 ^ 15" by (rule power_increasing) simp
  ultimately show ?thesis by simp
qed

lemma add_outbuf_run:
  assumes ok: "vq_ok vq (i # is)" and buf: "buf \<noteq> 0" "len \<noteq> 0"
  obtains vq' where "virtqueue_add_outbuf buf len vq = Inr (0, vq')" "vq_ok vq' is"
    "data vq' = (data vq)[i := buf]" "used_idx vq' = used_idx vq" "used_ring vq' = used_ring vq"
    "last_used_idx vq' = last_used_idx vq" "avail_idx vq' = avail_idx vq + 1"
    "avail_ring vq' = (avail_ring vq)[ring_slot vq (avail_idx vq) := of_nat i]"
    "desc_addr (descs vq' ! i) = buf" "desc_len (descs vq' ! i) = len"
proof -
  let ?d = "(descs vq ! i)\<lparr>desc_flags := 0, desc_addr := buf, desc_len := len\<rparr>"
  let ?a = "ring_slot vq (avail_idx vq)"
  let ?vq = "vq\<lparr>num_free := num_free vq - 1, descs := (descs vq)[i := ?d], free_head := ucast (desc_next ?d),
      data := (data vq)[i := buf], avail_ring := (avail_ring vq)[?a := of_nat i],
      avail_idx := avail_idx vq + 1, num_added := num_added vq + 1\<rparr>"
  have i: "unat (free_head vq) = i" "i < length (data vq)" "i < length (descs vq)"
    using ok by (auto simp: vq_ok_def)
  have n0: "num_free vq \<noteq> 0" using ok by (auto simp: vq_ok_def)
  have a: "?a < length (avail_ring vq)" using ok by (auto simp: vq_ok_def ring_slot_def)
  have run: "virtqueue_add_outbuf buf len vq = Inr (0, ?vq)"
    using buf n0 i a ring_slot_eq [OF ok]
    by (simp add: virtqueue_add_outbuf_def Let_def)
  have "unat (num_free vq - 1) = unat (num_free vq) - 1" using n0 by (rule unat_minus_one)
  moreover have "unat (ucast (desc_next (descs vq ! i)) :: u32) = unat (desc_next (descs vq ! i))"
    by (simp add: unat_ucast_16_32)
  ultimately have "vq_ok ?vq is"
    using ok buf by (auto simp: vq_ok_def nth_list_update)
  with run show thesis by (rule that) (use i in simp_all)
qed
text \<open>Taking a used buffer frees its descriptor, in front of the others.\<close>

lemma unat_of_nat_small: "i < 2 ^ 15 \<Longrightarrow> unat (of_nat i :: u32) = i" "i < 2 ^ 15 \<Longrightarrow> unat (of_nat i :: u16) = i"
  by (simp_all add: unat_of_nat take_bit_nat_eq_self)

lemma vq_index_small: "vq_ok vq fl \<Longrightarrow> i < length (data vq) \<Longrightarrow> i < 2 ^ 15"
proof -
  assume "vq_ok vq fl" "i < length (data vq)"
  then obtain k where "k \<le> 15" "i < 2 ^ k" by (auto simp: vq_ok_def)
  moreover from this(1) have "(2 :: nat) ^ k \<le> 2 ^ 15" by (rule power_increasing) simp
  ultimately show ?thesis by (rule_tac less_le_trans)
qed

lemma detach_run:
  assumes ok: "vq_ok vq fl" and i: "i < length (data vq)" "i \<notin> set fl"
  obtains vq' where "detach_buf i vq = Inr vq'" "vq_ok vq' (i # fl)" "data vq' = (data vq)[i := 0]"
    "used_idx vq' = used_idx vq" "used_ring vq' = used_ring vq" "last_used_idx vq' = last_used_idx vq"
proof -
  let ?d = "(descs vq ! i)\<lparr>desc_next := ucast (free_head vq)\<rparr>"
  let ?vq = "vq\<lparr>data := (data vq)[i := 0], descs := (descs vq)[i := ?d], free_head := of_nat i, num_free := num_free vq + 1\<rparr>"
  have len: "length (descs vq) = length (data vq)" using ok by (auto simp: vq_ok_def)
  have "desc_flags (descs vq ! i) = 0" using ok i by (auto simp: vq_ok_def)
  then have "detach_loop (descs vq) i (num_free vq) = Some (Inr (i, num_free vq))"
    using i(1) len by (subst detach_loop.simps) simp
  then have run: "detach_buf i vq = Inr ?vq" using i(1) by (simp add: detach_buf_def)
  have small: "j < 2 ^ 15" if "j < length (data vq)" for j using vq_index_small [OF ok that] .
  have fl: "distinct fl" "unat (num_free vq) = length fl" "free_chain (descs vq) (unat (free_head vq)) fl"
    "\<forall>j \<in> set fl. j < length (data vq)" using ok by (auto simp: vq_ok_def)
  have "length fl < 2 ^ 15"
  proof -
    have "set fl \<subseteq> {..<length (data vq)} - {i}" using fl(4) i(2) by auto
    then have "card (set fl) \<le> length (data vq) - 1"
      using card_mono [of "{..<length (data vq)} - {i}" "set fl"] i(1) by simp
    then have "length fl < length (data vq)" using i(1) by (simp add: distinct_card [OF fl(1)])
    then show ?thesis by (rule small)
  qed
  then have "unat (num_free vq + 1) = Suc (length fl)"
    using fl(2) by (simp add: unat_word_ariths)
  moreover have chain: "free_chain (descs vq) (unat (desc_next ?d)) fl"
  proof (cases fl)
    case (Cons j js)
    then have "unat (free_head vq) = j" "j < 2 ^ 15" using fl(3,4) small by auto
    then have "unat (ucast (free_head vq) :: u16) = unat (free_head vq)"
      by (simp add: unsigned_ucast_eq take_bit_nat_eq_self)
    then show ?thesis using fl(3) by simp
  qed simp
  moreover have "unat (of_nat i :: u32) = i" using small [OF i(1)] by (rule unat_of_nat_small)
  ultimately have "vq_ok ?vq (i # fl)"
    using ok i len by (auto simp: vq_ok_def nth_list_update)
  with run show thesis by (rule that) simp_all
qed

lemma get_buf_run:
  assumes ok: "vq_ok vq fl" and i: "i < length (data vq)" "i \<notin> set fl"
    and used: "used_ring vq ! ring_slot vq (last_used_idx vq) = (of_nat i, l)"
  obtains vq' where "virtqueue_get_buf vq = Inr ((data vq ! i, l), vq')" "vq_ok vq' (i # fl)"
    "data vq' = (data vq)[i := 0]" "used_idx vq' = used_idx vq" "used_ring vq' = used_ring vq"
    "last_used_idx vq' = last_used_idx vq + 1"
proof -
  obtain vq1 where d: "detach_buf i vq = Inr vq1" "vq_ok vq1 (i # fl)" "data vq1 = (data vq)[i := 0]"
    "used_idx vq1 = used_idx vq" "used_ring vq1 = used_ring vq" "last_used_idx vq1 = last_used_idx vq"
    by (rule detach_run [OF ok i])
  have u: "unat (of_nat i :: u32) = i" using vq_index_small [OF ok i(1)] by (rule unat_of_nat_small)
  have s: "ring_slot vq (last_used_idx vq) < length (used_ring vq)"
    using ok i(1) by (auto simp: vq_ok_def ring_slot_def)
  have "virtqueue_get_buf vq = Inr ((data vq ! i, l), vq1\<lparr>last_used_idx := last_used_idx vq1 + 1\<rparr>)"
    using s u used i(1) d(1) ring_slot_eq [OF ok] by (simp add: virtqueue_get_buf_def Let_def)
  moreover have "vq_ok (vq1\<lparr>last_used_idx := last_used_idx vq1 + 1\<rparr>) (i # fl)" using d(2) by (simp add: vq_ok_def)
  ultimately show thesis by (rule that) (use d in simp_all)
qed
section \<open>The driver and the device\<close>

text \<open>The device has used descriptor \<open>i\<close>.\<close>

definition device_completes :: "nat \<Rightarrow> u32 \<Rightarrow> ('n, 'c) vring_virtqueue \<Rightarrow> ('n, 'c) vring_virtqueue" where
  "device_completes i l vq =
     vq\<lparr>used_ring := (used_ring vq)[ring_slot vq (used_idx vq) := (of_nat i, l)], used_idx := used_idx vq + 1\<rparr>"

datatype vq_event = Sent u64 | Refused u64 | Completed u64 | Got u64

definition sent :: "vq_event list \<Rightarrow> u64 list" where
  "sent es = concat (map (\<lambda>e. case e of Sent b \<Rightarrow> [b] | _ \<Rightarrow> []) es)"

definition completed :: "vq_event list \<Rightarrow> u64 list" where
  "completed es = concat (map (\<lambda>e. case e of Completed b \<Rightarrow> [b] | _ \<Rightarrow> []) es)"

definition got :: "vq_event list \<Rightarrow> u64 list" where
  "got es = concat (map (\<lambda>e. case e of Got b \<Rightarrow> [b] | _ \<Rightarrow> []) es)"

lemma event_lists [simp]:
  "sent [] = []" "sent (es @ [Sent b]) = sent es @ [b]" "sent (es @ [Refused b]) = sent es"
  "sent (es @ [Completed b]) = sent es" "sent (es @ [Got b]) = sent es"
  "completed [] = []" "completed (es @ [Sent b]) = completed es" "completed (es @ [Refused b]) = completed es"
  "completed (es @ [Completed b]) = completed es @ [b]" "completed (es @ [Got b]) = completed es"
  "got [] = []" "got (es @ [Sent b]) = got es" "got (es @ [Refused b]) = got es"
  "got (es @ [Completed b]) = got es" "got (es @ [Got b]) = got es @ [b]"
  by (simp_all add: sent_def completed_def got_def)

text \<open>
  The interleavings: the driver adds buffers, the device completes descriptors that hold a buffer in any
  order, and the driver takes a used buffer when there is one (\<open>used_idx\<close> is ahead). The list has the
  descriptors completed and not yet taken.
\<close>

inductive vq_run ::
    "('n, 'c) vring_virtqueue \<Rightarrow> vq_event list \<Rightarrow> ('n, 'c) vring_virtqueue \<Rightarrow> nat list \<Rightarrow> bool" for vq0 where
  start: "vq_run vq0 [] vq0 []"
| add: "\<lbrakk>vq_run vq0 es vq ps; buf \<noteq> 0; len \<noteq> 0; virtqueue_add_outbuf buf len vq = Inr (r, vq')\<rbrakk> \<Longrightarrow>
    vq_run vq0 (es @ [if r = 0 then Sent buf else Refused buf]) vq' ps"
| complete: "\<lbrakk>vq_run vq0 es vq ps; i < length (data vq); data vq ! i \<noteq> 0; i \<notin> set ps\<rbrakk> \<Longrightarrow>
    vq_run vq0 (es @ [Completed (data vq ! i)]) (device_completes i l vq) (ps @ [i])"
| get: "\<lbrakk>vq_run vq0 es vq ps; used_idx vq \<noteq> last_used_idx vq; virtqueue_get_buf vq = Inr ((b, l), vq')\<rbrakk> \<Longrightarrow>
    vq_run vq0 (es @ [Got b]) vq' (tl ps)"

definition queue_inv :: "('n, 'c) vring_virtqueue \<Rightarrow> nat list \<Rightarrow> nat list \<Rightarrow> bool" where
  "queue_inv vq ps fl \<longleftrightarrow> vq_ok vq fl \<and> distinct ps \<and> set ps \<inter> set fl = {} \<and> (\<forall>i \<in> set ps. i < length (data vq)) \<and>
     used_idx vq = last_used_idx vq + of_nat (length ps) \<and>
     (\<forall>k < length ps. fst (used_ring vq ! ring_slot vq (last_used_idx vq + of_nat k)) = of_nat (ps ! k))"

lemma ring_slot_add:
  assumes "vq_ok vq fl"
  shows "ring_slot vq (w + of_nat k) = (unat w + k) mod length (data vq)"
proof -
  obtain j where j: "j \<le> 15" "length (data vq) = 2 ^ j" using assms by (auto simp: vq_ok_def)
  have "(2 :: nat) ^ j dvd 2 ^ 16" using j(1) by (intro le_imp_power_dvd) simp
  then have cancel: "(x mod 2 ^ 16) mod 2 ^ j = x mod 2 ^ j" for x :: nat by (rule mod_mod_cancel)
  have "unat (w + of_nat k) = (unat w + k mod 2 ^ 16) mod 2 ^ 16"
    by (simp add: unat_word_ariths unat_of_nat take_bit_eq_mod)
  then have "unat (w + of_nat k) = (unat w + k) mod 2 ^ 16" by (simp only: mod_add_right_eq)
  then show ?thesis by (simp only: ring_slot_def j(2) cancel)
qed

lemma ring_slots_differ:
  assumes "vq_ok vq fl" "k < m" "m < length (data vq)"
  shows "ring_slot vq (w + of_nat k) \<noteq> ring_slot vq (w + of_nat m)"
proof
  assume "ring_slot vq (w + of_nat k) = ring_slot vq (w + of_nat m)"
  then have "(unat w + m) mod length (data vq) = (unat w + k) mod length (data vq)"
    by (simp add: ring_slot_add [OF assms(1)])
  then have "length (data vq) dvd (unat w + m) - (unat w + k)"
    using assms(2) by (subst (asm) mod_eq_dvd_iff_nat) simp_all
  then show False using assms(2,3) by (auto dest: dvd_imp_le)
qed

lemma queue_inv_length:
  assumes "queue_inv vq ps fl"
  shows "length ps + length fl \<le> length (data vq)"
proof -
  have "set (ps @ fl) \<subseteq> {..<length (data vq)}" "distinct (ps @ fl)"
    using assms by (auto simp: queue_inv_def vq_ok_def)
  then show ?thesis using card_mono [of "{..<length (data vq)}" "set (ps @ fl)"]
    by (simp only: distinct_card length_append) simp
qed

lemma queue_inv_add:
  assumes inv: "queue_inv vq ps fl" and "buf \<noteq> 0" "len \<noteq> 0"
  shows "fl = [] \<and> virtqueue_add_outbuf buf len vq = Inr (- 1, vq) \<or>
    (\<exists>i is vq'. fl = i # is \<and> virtqueue_add_outbuf buf len vq = Inr (0, vq') \<and> queue_inv vq' ps is \<and>
       data vq' = (data vq)[i := buf])"
proof (cases fl)
  case Nil
  then show ?thesis using assms add_outbuf_full by (auto simp: queue_inv_def)
next
  case (Cons i "is")
  then have ok: "vq_ok vq (i # is)" using inv by (simp add: queue_inv_def)
  obtain vq' where "virtqueue_add_outbuf buf len vq = Inr (0, vq')" "vq_ok vq' is"
    "data vq' = (data vq)[i := buf]" "used_idx vq' = used_idx vq" "used_ring vq' = used_ring vq"
    "last_used_idx vq' = last_used_idx vq"
    by (rule add_outbuf_run [OF ok assms(2,3)])
  moreover from this have "queue_inv vq' ps is"
    using inv Cons by (auto simp: queue_inv_def ring_slot_def)
  ultimately show ?thesis using Cons by blast
qed

lemma queue_inv_complete:
  assumes inv: "queue_inv vq ps fl" and i: "i < length (data vq)" "data vq ! i \<noteq> 0" "i \<notin> set ps"
  shows "queue_inv (device_completes i l vq) (ps @ [i]) fl"
proof -
  let ?vq = "device_completes i l vq"
  have ok: "vq_ok vq fl" and u: "used_idx vq = last_used_idx vq + of_nat (length ps)"
    using inv by (simp_all add: queue_inv_def)
  have nfl: "i \<notin> set fl" using ok i by (auto simp: vq_ok_def)
  have short: "length ps < length (data vq)"
  proof -
    have "set (i # ps) \<subseteq> {..<length (data vq)}" "distinct (i # ps)" using inv i by (auto simp: queue_inv_def)
    then show ?thesis using card_mono [of "{..<length (data vq)}" "set (i # ps)"]
      by (simp only: distinct_card) simp
  qed
  have slot: "ring_slot vq (used_idx vq) < length (used_ring vq)"
    using ok i(1) by (auto simp: vq_ok_def ring_slot_def)
  have eqs: "vq_ok ?vq fl" "data ?vq = data vq" "last_used_idx ?vq = last_used_idx vq" "ring_slot ?vq = ring_slot vq"
    using ok by (auto simp: device_completes_def vq_ok_def ring_slot_def)
  have "fst (used_ring ?vq ! ring_slot vq (last_used_idx vq + of_nat k)) = of_nat ((ps @ [i]) ! k)"
    if "k < Suc (length ps)" for k
  proof (cases "k = length ps")
    case True
    then show ?thesis using slot by (simp add: device_completes_def u)
  next
    case False
    then have "k < length ps" using that by simp
    then show ?thesis
      using ring_slots_differ [OF ok \<open>k < length ps\<close> short, of "last_used_idx vq"] inv
      by (simp add: device_completes_def u queue_inv_def nth_append)
  qed
  then show ?thesis
    using inv i nfl eqs unfolding queue_inv_def by (simp add: device_completes_def u add.assoc)
qed

lemma queue_inv_get:
  assumes inv: "queue_inv vq ps fl" and ne: "used_idx vq \<noteq> last_used_idx vq"
  obtains i js l vq' where "ps = i # js" "virtqueue_get_buf vq = Inr ((data vq ! i, l), vq')"
    "queue_inv vq' js (i # fl)" "data vq' = (data vq)[i := 0]" "data vq ! i \<noteq> 0" "i < length (data vq)"
proof -
  obtain i js where ps: "ps = i # js" using inv ne by (cases ps) (auto simp: queue_inv_def)
  have ok: "vq_ok vq fl" and i: "i < length (data vq)" "i \<notin> set fl" using inv ps by (auto simp: queue_inv_def)
  have "fst (used_ring vq ! ring_slot vq (last_used_idx vq)) = of_nat i"
    using inv ps by (auto simp: queue_inv_def dest: spec [of _ 0])
  then obtain l where u: "used_ring vq ! ring_slot vq (last_used_idx vq) = (of_nat i, l)"
    by (metis prod.collapse)
  obtain vq' where r: "virtqueue_get_buf vq = Inr ((data vq ! i, l), vq')" "vq_ok vq' (i # fl)"
    "data vq' = (data vq)[i := 0]" "used_idx vq' = used_idx vq" "used_ring vq' = used_ring vq"
    "last_used_idx vq' = last_used_idx vq + 1"
    by (rule get_buf_run [OF ok i u])
  have "fst (used_ring vq ! ring_slot vq (last_used_idx vq + 1 + of_nat k)) = of_nat (js ! k)" if "k < length js" for k
  proof -
    have "Suc k < length ps" using that ps by simp
    then have "fst (used_ring vq ! ring_slot vq (last_used_idx vq + of_nat (Suc k))) = of_nat (ps ! Suc k)"
      using inv by (simp only: queue_inv_def)
    then show ?thesis using ps by (simp add: add.assoc)
  qed
  moreover have "ring_slot vq' = ring_slot vq" by (simp add: ring_slot_def r(3) fun_eq_iff)
  ultimately have "queue_inv vq' js (i # fl)"
    using inv r ps by (auto simp: queue_inv_def add.assoc)
  then show thesis by (rule that [OF ps r(1) _ r(3)]) (use ok i in \<open>auto simp: vq_ok_def\<close>)
qed
text \<open>The buffers in a queue.\<close>

definition in_flight :: "('n, 'c) vring_virtqueue \<Rightarrow> u64 multiset" where
  "in_flight vq = mset (filter (\<lambda>b. b \<noteq> 0) (data vq))"

lemma in_flight_put:
  assumes "i < length (data vq)" "data vq ! i = 0" "b \<noteq> 0" "data vq' = (data vq)[i := b]"
  shows "in_flight vq' = add_mset b (in_flight vq)"
  using assms by (simp add: in_flight_def mset_filter mset_update filter_diff_mset)

lemma in_flight_take:
  assumes "i < length (data vq)" "data vq ! i \<noteq> 0" "data vq' = (data vq)[i := 0]"
  shows "in_flight vq = add_mset (data vq ! i) (in_flight vq')"
proof -
  have "data vq ! i \<in># filter_mset (\<lambda>b. b \<noteq> 0) (mset (data vq))" using assms by simp
  then show ?thesis using assms by (simp add: in_flight_def mset_filter mset_update filter_diff_mset)
qed

text \<open>What holds at every point of an interleaving.\<close>

lemma vq_run_inv:
  assumes "vq_run vq0 es vq ps" "queue_inv vq0 [] fl0" "in_flight vq0 = {#}"
  shows "\<exists>fl. queue_inv vq ps fl \<and> completed es = got es @ map ((!) (data vq)) ps \<and>
    mset (sent es) = mset (got es) + in_flight vq \<and> 0 \<notin> set (got es)"
  using assms
proof (induction rule: vq_run.induct)
  case start
  then show ?case by auto
next
  case (add es vq ps buf len r vq')
  then obtain fl where IH: "queue_inv vq ps fl" "completed es = got es @ map ((!) (data vq)) ps"
    "mset (sent es) = mset (got es) + in_flight vq" "0 \<notin> set (got es)" by blast
  from queue_inv_add [OF IH(1) add.hyps(2,3)] show ?case
  proof (elim disjE conjE exE)
    assume "virtqueue_add_outbuf buf len vq = Inr (- 1, vq)"
    then show ?thesis using IH add.hyps by auto
  next
    fix i "is" vq1
    assume fl: "fl = i # is" and r: "virtqueue_add_outbuf buf len vq = Inr (0, vq1)" "queue_inv vq1 ps is"
      "data vq1 = (data vq)[i := buf]"
    then have eq: "vq1 = vq'" "r = 0" using add.hyps(4) by auto
    have "i < length (data vq)" "data vq ! i = 0" "i \<notin> set ps"
      using IH(1) fl by (auto simp: queue_inv_def vq_ok_def)
    then show ?thesis
      using IH r in_flight_put [of i vq buf vq1] add.hyps(2) unfolding eq
      by (intro exI [of _ "is"]) (auto simp: nth_list_update)
  qed
next
  case (complete es vq ps i l)
  then obtain fl where IH: "queue_inv vq ps fl" "completed es = got es @ map ((!) (data vq)) ps"
    "mset (sent es) = mset (got es) + in_flight vq" "0 \<notin> set (got es)" by blast
  have "data (device_completes i l vq) = data vq" by (simp add: device_completes_def)
  then show ?case
    using IH queue_inv_complete [OF IH(1) complete.hyps(2-4)]
    by (intro exI [of _ fl]) (simp add: in_flight_def)
next
  case (get es vq ps b l vq')
  then obtain fl where IH: "queue_inv vq ps fl" "completed es = got es @ map ((!) (data vq)) ps"
    "mset (sent es) = mset (got es) + in_flight vq" "0 \<notin> set (got es)" by blast
  obtain i js l1 vq1 where r: "ps = i # js" "virtqueue_get_buf vq = Inr ((data vq ! i, l1), vq1)"
    "queue_inv vq1 js (i # fl)" "data vq1 = (data vq)[i := 0]" "data vq ! i \<noteq> 0" "i < length (data vq)"
    by (rule queue_inv_get [OF IH(1) get.hyps(2)])
  then have eq: "vq1 = vq'" "b = data vq ! i" using get.hyps(3) by auto
  have "i \<notin> set js" using IH(1) r(1) by (simp add: queue_inv_def)
  then show ?case
    using IH r in_flight_take [OF r(6,5,4)] unfolding eq
    by (intro exI [of _ "i # fl"]) (auto simp: nth_list_update)
qed



section \<open>A new queue\<close>

lemma init_loop_run:
  assumes "m \<le> length ds" "m < length ptrs" "i \<le> m"
  shows "\<exists>ds'. init_loop m i ds ptrs = Inr (ds', take i ptrs @ replicate (Suc m - i) 0 @ drop (Suc m) ptrs) \<and>
    length ds' = length ds \<and> (\<forall>j. ds' ! j = (if i \<le> j \<and> j < m then (ds ! j)\<lparr>desc_next := of_nat (j + 1)\<rparr> else ds ! j))"
  using assms
proof (induction "m - i" arbitrary: i ds ptrs)
  case 0
  then have "i = m" by simp
  then show ?case using 0 by (subst init_loop.simps) (auto simp: upd_conv_take_nth_drop)
next
  case (Suc x)
  then have i: "i < m" "i < length ds" "i < length ptrs" by auto
  let ?ds = "ds[i := (ds ! i)\<lparr>desc_next := of_nat (i + 1)\<rparr>]" and ?p = "ptrs[i := 0]"
  have "x = m - Suc i" "m \<le> length ?ds" "m < length ?p" "Suc i \<le> m" using Suc by auto
  from Suc.hyps(1) [OF this]
  obtain ds' where "init_loop m (Suc i) ?ds ?p = Inr (ds', take (Suc i) ?p @ replicate (Suc m - Suc i) 0 @ drop (Suc m) ?p)"
    "length ds' = length ds"
    "\<forall>j. ds' ! j = (if Suc i \<le> j \<and> j < m then (?ds ! j)\<lparr>desc_next := of_nat (j + 1)\<rparr> else ?ds ! j)" by auto
  moreover have "take (Suc i) ?p @ replicate (Suc m - Suc i) 0 @ drop (Suc m) ?p =
      take i ptrs @ replicate (Suc m - i) 0 @ drop (Suc m) ptrs"
    using i by (simp add: take_Suc_conv_app_nth Suc_diff_le)
  ultimately show ?case
    using i by (subst init_loop.simps) (auto simp: nth_list_update)
qed

lemma free_chain_upt:
  assumes "\<And>j. i \<le> j \<Longrightarrow> Suc j < n \<Longrightarrow> unat (desc_next (ds ! j)) = Suc j"
  shows "free_chain ds i [i..<n]"
  using assms
proof (induction "n - i" arbitrary: i)
  case (Suc x)
  then have i: "[i..<n] = i # [Suc i..<n]" "x = n - Suc i" by (simp_all add: upt_conv_Cons)
  have "free_chain ds (Suc i) [Suc i..<n]" by (rule Suc.hyps(1) [OF i(2)]) (use Suc.prems in auto)
  then show ?case using Suc.prems [of i] by (cases "Suc i < n") (simp_all add: i(1))
qed simp

text \<open>A ring of \<open>n\<close> elements in pages of zeroes.\<close>

definition zero_ring :: "nat \<Rightarrow> vring_mem" where
  "zero_ring n = \<lparr>descs = replicate n \<lparr>desc_addr = 0, desc_len = 0, desc_flags = 0, desc_next = 0\<rparr>,
     avail_idx = 0, avail_ring = replicate n 0, used_idx = 0, used_ring = replicate n (0, 0)\<rparr>"

lemma init_queue:
  assumes "k \<le> 15"
  obtains vq where "vring_init_virtqueue (2 ^ k) (zero_ring (2 ^ k)) ind (2 ^ k) align dev queue ntf cb name = Inr vq"
    "queue_inv vq [] [0..<2 ^ k]" "in_flight vq = {#}" "data vq = replicate (2 ^ k) 0"
    "used_ring vq = replicate (2 ^ k) (0, 0)" "used_idx vq = 0" "last_used_idx vq = 0"
proof -
  define n where "n = (2 :: nat) ^ k"
  have n: "0 < n" "n \<le> 2 ^ 15" unfolding n_def by simp (rule power_increasing [OF assms], simp)
  have num: "unat ((2 :: u32) ^ k) = n" "unat ((2 :: u32) ^ k - 1) = n - 1"
  proof -
    have "n < 2 ^ 32" by (rule le_less_trans [OF n(2)]) simp
    then have "unat (of_nat n :: u32) = n" by (simp only: unat_of_nat len_words mod_less)
    moreover have "(of_nat n :: u32) = 2 ^ k" by (simp add: n_def)
    ultimately show u: "unat ((2 :: u32) ^ k) = n" by (simp only:)
    then have "(2 :: u32) ^ k \<noteq> 0" using n(1) by (metis less_irrefl unsigned_0)
    then show "unat ((2 :: u32) ^ k - 1) = n - 1" using u by (simp add: unat_minus_one)
  qed
  let ?z = "zero_ring n"
  have l: "n - 1 \<le> length (descs ?z)" "n - 1 < length (replicate n (0 :: u64))" "0 \<le> n - 1"
    using n(1) by (simp_all add: zero_ring_def)
  obtain ds where ds: "init_loop (n - 1) 0 (descs ?z) (replicate n 0) = Inr (ds, replicate n 0)" "length ds = n"
    "\<And>j. j < n \<Longrightarrow> desc_flags (ds ! j) = 0" "\<And>j. Suc j < n \<Longrightarrow> unat (desc_next (ds ! j)) = Suc j"
  proof -
    obtain ds where r: "init_loop (n - 1) 0 (descs ?z) (replicate n 0) = Inr (ds, replicate n 0)"
      "length ds = length (descs ?z)"
      "\<And>j. ds ! j = (if j < n - 1 then (descs ?z ! j)\<lparr>desc_next := of_nat (j + 1)\<rparr> else descs ?z ! j)"
      using init_loop_run [OF l] n(1) by auto
    have nx: "unat (desc_next (ds ! j)) = Suc j" if "Suc j < n" for j
    proof -
      have "j < n - 1" using that by simp
      then show ?thesis using that n(2) unat_of_nat_small(2) [of "Suc j"] by (simp add: r(3) del: of_nat_Suc)
    qed
    have "length ds = n" "desc_flags (ds ! j) = 0" if "j < n" for j using r(2,3) that by (auto simp: zero_ring_def)
    then show thesis using r(2) by (intro that [OF r(1)] nx) (auto simp: zero_ring_def)
  qed
  let ?vq = "\<lparr>descs = ds, avail_idx = 0, avail_ring = replicate n 0, used_idx = 0, used_ring = replicate n (0, 0),
    vring = vring_init (2 ^ k) queue align, callback = cb, vq_name = name, vdev = dev, index = ind, num_free = 2 ^ k,
    free_head = 0, num_added = 0, last_used_idx = 0, notify = ntf, data = replicate n 0\<rparr>"
  have run: "vring_init_virtqueue n (zero_ring n) ind (2 ^ k) align dev queue ntf cb name = Inr ?vq"
    using ds(1) num(2) by (simp add: vring_init_virtqueue_def zero_ring_def)
  have "free_chain ds 0 [0..<n]" using ds(4) by (intro free_chain_upt) simp
  then have "vq_ok ?vq [0..<n]"
    using ds(2,3) num(1) assms unfolding vq_ok_def n_def by (auto simp: vring_init_def Let_def intro!: exI [of _ k])
  then have "queue_inv ?vq [] [0..<n]" by (simp add: queue_inv_def)
  then show thesis by (rule that [OF run [unfolded n_def], folded n_def]) (simp_all add: in_flight_def n_def)
qed

text \<open>
  C37: \<open>vring_init_virtqueue\<close> on pages of zeroes, with room for the pointers, makes an empty queue in which
  all descriptors are free: the state that the interleavings start from.
\<close>

theorem vring_init_virtqueue_ok:
  assumes "k \<le> 15"
  shows "\<exists>vq. vring_init_virtqueue (2 ^ k) (zero_ring (2 ^ k)) ind (2 ^ k) align dev queue ntf cb name = Inr vq \<and>
    queue_inv vq [] [0..<2 ^ k] \<and> in_flight vq = {#}"
  using init_queue [OF assms, of ind align dev queue ntf cb name] by metis

lemma vring_init_virtqueue_ok_witness:
  "\<exists>vq. vring_init_virtqueue 128 (zero_ring 128) 0 128 0x1000 0x500 0x2000 () () ''out'' = Inr vq \<and>
    queue_inv vq [] [0..<128] \<and> in_flight vq = {#}"
  using vring_init_virtqueue_ok [of 7 0 "0x1000" "0x500" "0x2000" "()" "()" "''out''"] by simp
text \<open>Two steps on a queue of two descriptors, for the examples.\<close>

lemma two_steps:
  obtains vq0 vq1 :: "(unit, unit) vring_virtqueue" where "queue_inv vq0 [] [0, 1]" "in_flight vq0 = {#}"
    "vq_run vq0 [Sent 0x3000, Completed 0x3000] vq1 [0]" "used_idx vq1 \<noteq> last_used_idx vq1" "data vq1 = [0x3000, 0]"
proof -
  have k: "(1 :: nat) \<le> 15" by simp
  obtain vq0 :: "(unit, unit) vring_virtqueue" where "vring_init_virtqueue (2 ^ 1) (zero_ring (2 ^ 1)) 0 (2 ^ 1) 0 0 0 () () [] = Inr vq0"
    and vq0: "queue_inv vq0 [] [0..<2 ^ 1]" "in_flight vq0 = {#}"
    "data vq0 = replicate (2 ^ 1) 0" "used_ring vq0 = replicate (2 ^ 1) (0, 0)" "used_idx vq0 = 0" "last_used_idx vq0 = 0"
    by (rule init_queue [OF k])
  have fl: "[0..<2 ^ 1] = [0, 1 :: nat]" by (simp add: upt_rec)
  have ok: "vq_ok vq0 (0 # [1])" using vq0(1) unfolding fl queue_inv_def by (simp only: simp_thms)
  have nz: "(0x3000 :: u64) \<noteq> 0" "(5 :: u32) \<noteq> 0" by simp_all
  obtain vq1 where vq1: "virtqueue_add_outbuf 0x3000 5 vq0 = Inr (0, vq1)" "data vq1 = (data vq0)[0 := 0x3000]"
    "used_idx vq1 = used_idx vq0" "last_used_idx vq1 = last_used_idx vq0"
    by (rule add_outbuf_run [OF ok nz])
  have d: "data vq1 = [0x3000, 0]" using vq1(2) vq0(3) by (simp add: numeral_2_eq_2)
  have "vq_run vq0 [Sent 0x3000] vq1 []"
    using vq_run.add [OF vq_run.start nz vq1(1)] by simp
  then have "vq_run vq0 [Sent 0x3000, Completed 0x3000] (device_completes 0 0 vq1) [0]"
    using vq_run.complete [of vq0 "[Sent 0x3000]" vq1 "[]" 0 0] d by simp
  then show thesis
    by (rule that [OF vq0(1) [unfolded fl] vq0(2)]) (use vq0 vq1 d in \<open>simp_all add: device_completes_def\<close>)
qed



lemma vring_init_virtqueue_run:
  "k \<le> 15 \<Longrightarrow> \<exists>vq. vring_init_virtqueue (2 ^ k) (zero_ring (2 ^ k)) ind (2 ^ k) align dev queue ntf cb name = Inr vq"
  by (erule init_queue) blast

text \<open>
  \<open>virtqueue_get_buf\<close> does not look at \<open>used_idx\<close>: right after the first buffer is added to a new queue,
  before the device has completed anything, it returns that buffer with length 0 and frees its descriptor.
\<close>

theorem virtqueue_get_buf_too_early:
  assumes "k \<le> 15" "buf \<noteq> 0" "len \<noteq> 0"
    and "vring_init_virtqueue (2 ^ k) (zero_ring (2 ^ k)) ind (2 ^ k) align dev queue ntf cb name = Inr vq"
  shows "\<exists>vq1 vq2. virtqueue_add_outbuf buf len vq = Inr (0, vq1) \<and> used_idx vq1 = last_used_idx vq1 \<and>
    virtqueue_get_buf vq1 = Inr ((buf, 0), vq2) \<and> num_free vq2 = num_free vq"
proof -
  have vq: "queue_inv vq [] [0..<2 ^ k]" "data vq = replicate (2 ^ k) 0" "used_ring vq = replicate (2 ^ k) (0, 0)"
    "used_idx vq = 0" "last_used_idx vq = 0"
    using init_queue [OF assms(1), of ind align dev queue ntf cb name] assms(4) by (metis Inr_inject)+
  have "[0..<2 ^ k] = 0 # [1..<2 ^ k]" by (simp add: upt_conv_Cons)
  then have ok: "vq_ok vq (0 # [1..<2 ^ k])" using vq(1) by (simp add: queue_inv_def)
  obtain vq1 where vq1: "virtqueue_add_outbuf buf len vq = Inr (0, vq1)" "vq_ok vq1 [1..<2 ^ k]"
    "data vq1 = (data vq)[0 := buf]" "used_idx vq1 = used_idx vq" "used_ring vq1 = used_ring vq"
    "last_used_idx vq1 = last_used_idx vq"
    by (rule add_outbuf_run [OF ok assms(2,3)])
  have i: "0 < length (data vq1)" "0 \<notin> set [1..<2 ^ k]" using vq(2) vq1(3) by simp_all
  have u: "used_ring vq1 ! ring_slot vq1 (last_used_idx vq1) = (of_nat 0, 0)"
    using vq vq1 by (simp add: ring_slot_def)
  obtain vq2 where vq2: "virtqueue_get_buf vq1 = Inr ((data vq1 ! 0, 0), vq2)" "vq_ok vq2 (0 # [1..<2 ^ k])"
    by (rule get_buf_run [OF vq1(2) i u])
  have "unat (num_free vq2) = unat (num_free vq)" using vq2(2) ok by (simp add: vq_ok_def)
  then have "num_free vq2 = num_free vq" by (rule unsigned_word_eqI)
  moreover have "data vq1 ! 0 = buf" using vq(2) vq1(3) by simp
  ultimately show ?thesis using vq vq1 vq2(1) by auto
qed

lemma virtqueue_get_buf_too_early_witness:
  "\<exists>(vq :: (unit, unit) vring_virtqueue) vq1 vq2. virtqueue_add_outbuf 0x3000 5 vq = Inr (0, vq1) \<and> used_idx vq1 = last_used_idx vq1 \<and>
    virtqueue_get_buf vq1 = Inr ((0x3000, 0), vq2)"
proof -
  obtain vq :: "(unit, unit) vring_virtqueue" where
    vq: "vring_init_virtqueue (2 ^ 7) (zero_ring (2 ^ 7)) 0 (2 ^ 7) 0x1000 0x500 0x2000 () () [] = Inr vq"
    using vring_init_virtqueue_run [of 7 0 "0x1000" "0x500" "0x2000" "()" "()" "[]"] by auto
  show ?thesis using virtqueue_get_buf_too_early [OF _ _ _ vq, of "0x3000" 5] by auto
qed

section \<open>The layout of a ring\<close>

text \<open>
  \<open>vring_init\<close> lays the three parts of a ring out one after the other without overlap, the used ring at
  a multiple of \<open>align\<close> and less than that behind the available ring, and a ring of the 128 elements of
  \<open>vm_setup_vq\<close> on two pages, aligned to a page, ends within them.
\<close>

theorem vring_init_layout:
  assumes "a < 64" "unat p + 18 * unat n + 6 + 2 ^ a < 2 ^ 64"
  shows "ring_desc (vring_init n p (2 ^ a)) = p \<and>
    (n = 128 \<and> a = 12 \<and> 4096 dvd unat p \<longrightarrow> unat (ring_used (vring_init n p (2 ^ a))) + 6 + 8 * 128 \<le> unat p + 2 * 4096) \<and>
    unat (ring_avail (vring_init n p (2 ^ a))) = unat p + 16 * unat n \<and>
    2 ^ a dvd unat (ring_used (vring_init n p (2 ^ a))) \<and>
    unat p + 16 * unat n + (6 + 2 * unat n) \<le> unat (ring_used (vring_init n p (2 ^ a))) \<and>
    unat (ring_used (vring_init n p (2 ^ a))) < unat p + 16 * unat n + (6 + 2 * unat n) + 2 ^ a"
proof -
  have n: "unat (ucast n :: u64) = unat n" 
  proof -
    have "unat n < 2 ^ 64" by (rule less_trans [OF unsigned_less]) simp
    then show ?thesis by (simp only: unsigned_ucast_eq len_words take_bit_nat_eq_self)
  qed
  have e: "p + ucast n * 16 = of_nat (unat p + 16 * unat n)"
    "p + ucast n * 16 + 4 + 2 * ucast n + 2 + 2 ^ a - 1 = of_nat (unat p + 18 * unat n + 6 + (2 ^ a - 1))"
  proof -
    obtain c where c: "(2 :: nat) ^ a = Suc c" by (cases "(2 :: nat) ^ a") auto
    then have w: "(2 :: u64) ^ a = 1 + of_nat c" by (metis of_nat_Suc of_nat_numeral of_nat_power)
    show "p + ucast n * 16 = of_nat (unat p + 16 * unat n)" by (simp add: n [symmetric] algebra_simps)
    show "p + ucast n * 16 + 4 + 2 * ucast n + 2 + 2 ^ a - 1 = of_nat (unat p + 18 * unat n + 6 + (2 ^ a - 1))"
      unfolding c w by (simp add: n [symmetric] algebra_simps)
  qed
  have m: "(2 :: u64) ^ a - 1 = mask a" by (simp add: mask_eq_exp_minus_1)
  let ?x = "unat p + 18 * unat n + 6 + (2 ^ a - 1)"
  have lt: "?x < 2 ^ 64" "unat p + 16 * unat n < 2 ^ 64" using assms(2) by simp_all
  have used: "unat (ring_used (vring_init n p (2 ^ a))) = ?x - ?x mod 2 ^ a"
    by (simp only: vring_init_def Let_def vring.simps e(2) m and_not_mask_unat unat_of_nat_64 [OF lt(1)])
  have "?x mod 2 ^ a < 2 ^ a" by simp
  then have "?x - ?x mod 2 ^ a \<le> ?x" "?x < ?x - ?x mod 2 ^ a + 2 ^ a" "2 ^ a dvd ?x - ?x mod 2 ^ a"
    using dvd_minus_mod [of "2 ^ a" ?x] mod_less_eq_dividend [of ?x "2 ^ a"] by linarith+
  moreover have "0 < (2 :: nat) ^ a" by simp
  moreover have "unat (ring_avail (vring_init n p (2 ^ a))) = unat p + 16 * unat n"
    by (simp only: vring_init_def Let_def vring.simps e(1) unat_of_nat_64 [OF lt(2)])
  moreover have "ring_desc (vring_init n p (2 ^ a)) = p" by (simp add: vring_init_def Let_def)
  moreover have "?x - ?x mod 2 ^ a + 6 + 8 * 128 \<le> unat p + 2 * 4096" if c: "n = 128 \<and> a = 12 \<and> 4096 dvd unat p"
  proof -
    obtain q where "unat p = 4096 * q" using c unfolding dvd_def by blast
    then show ?thesis using c by simp
  qed
  ultimately show ?thesis unfolding used by (intro conjI impI) (blast | linarith)+
qed

lemma vring_init_layout_witness:
  "unat (ring_avail (vring_init 128 0x7000 (2 ^ 12))) = 0x7800 \<and> unat (ring_used (vring_init 128 0x7000 (2 ^ 12))) + 6 + 8 * 128 \<le> 0x9000"
  using vring_init_layout [of 12 "0x7000" 128] by simp
section \<open>The device behind memory-mapped registers\<close>

definition VIRTIO_MMIO_MAGIC_VALUE :: u64 where "VIRTIO_MMIO_MAGIC_VALUE = 0x000"
definition VIRTIO_MMIO_DEVICE_ID :: u64 where "VIRTIO_MMIO_DEVICE_ID = 0x008"
definition VIRTIO_MMIO_VENDOR_ID :: u64 where "VIRTIO_MMIO_VENDOR_ID = 0x00c"
definition VIRTIO_MMIO_GUEST_PAGE_SIZE :: u64 where "VIRTIO_MMIO_GUEST_PAGE_SIZE = 0x028"
definition VIRTIO_MMIO_QUEUE_SEL :: u64 where "VIRTIO_MMIO_QUEUE_SEL = 0x030"
definition VIRTIO_MMIO_QUEUE_NUM_MAX :: u64 where "VIRTIO_MMIO_QUEUE_NUM_MAX = 0x034"
definition VIRTIO_MMIO_QUEUE_NUM :: u64 where "VIRTIO_MMIO_QUEUE_NUM = 0x038"
definition VIRTIO_MMIO_QUEUE_ALIGN :: u64 where "VIRTIO_MMIO_QUEUE_ALIGN = 0x03c"
definition VIRTIO_MMIO_QUEUE_PFN :: u64 where "VIRTIO_MMIO_QUEUE_PFN = 0x040"
definition VIRTIO_MMIO_QUEUE_NOTIFY :: u64 where "VIRTIO_MMIO_QUEUE_NOTIFY = 0x050"
definition VIRTIO_MMIO_CONFIG :: u64 where "VIRTIO_MMIO_CONFIG = 0x100"
definition VIRTIO_MMIO_VRING_ALIGN :: u64 where "VIRTIO_MMIO_VRING_ALIGN = PAGE_SIZE"
definition VIRTIO_MMIO_QUEUE_SIZE_MIN :: u64 where "VIRTIO_MMIO_QUEUE_SIZE_MIN = 2 * VIRTIO_MMIO_VRING_ALIGN"
definition VIRTIO_MMIO_QUEUE_NUM_MIN :: u32 where "VIRTIO_MMIO_QUEUE_NUM_MIN = 128"

record virtio_mmio_device =
  id_device :: u32
  id_vendor :: u32
  vm_base :: u64

text \<open>The page allocator and the hardware.\<close>

record 'd vmmio_state = page_alloc +
  vm_hw :: 'd

definition on_vm :: "('d, 'a) io \<Rightarrow> ('d vmmio_state, 'a) io" where
  "on_vm f s = bindE (f (vm_hw s)) (\<lambda>(x, d). Inr (x, s\<lparr>vm_hw := d\<rparr>))"

primrec vm_get_loop :: "'d machine \<Rightarrow> u64 \<Rightarrow> nat list \<Rightarrow> ('d, u8 list) io" where
  "vm_get_loop M a [] = returnS []"
| "vm_get_loop M a (i # is) =
     bindS (inS (read8 M (a + of_nat i))) (\<lambda>b. bindS (vm_get_loop M a is) (\<lambda>bs. returnS (b # bs)))"

definition vm_get :: "'d machine \<Rightarrow> virtio_mmio_device \<Rightarrow> u32 \<Rightarrow> nat \<Rightarrow> ('d, u8 list) io" where
  "vm_get M vm_dev offset len = vm_get_loop M (vm_base vm_dev + VIRTIO_MMIO_CONFIG + ucast offset) [0..<len]"

definition vm_set :: "'d machine \<Rightarrow> virtio_mmio_device \<Rightarrow> u32 \<Rightarrow> u8 list \<Rightarrow> ('d, unit) io" where
  "vm_set M vm_dev offset buf =
     forS (\<lambda>i. outS (write8 M (vm_base vm_dev + VIRTIO_MMIO_CONFIG + ucast offset + of_nat i) (buf ! i))) [0..<length buf]"

text \<open>The bytes of a value, least significant first.\<close>

primrec le_val :: "u8 list \<Rightarrow> u32" where
  "le_val [] = 0"
| "le_val (b # bs) = ucast b OR push_bit 8 (le_val bs)"

definition le_bytes :: "nat \<Rightarrow> u32 \<Rightarrow> u8 list" where
  "le_bytes n w = map (\<lambda>i. ucast (drop_bit (8 * i) w)) [0..<n]"

definition virtio_config_readb :: "'d machine \<Rightarrow> virtio_mmio_device \<Rightarrow> u32 \<Rightarrow> ('d, u8) io" where
  "virtio_config_readb M v offset = bindS (vm_get M v offset 1) (\<lambda>bs. returnS (ucast (le_val bs)))"

definition virtio_config_readw :: "'d machine \<Rightarrow> virtio_mmio_device \<Rightarrow> u32 \<Rightarrow> ('d, u16) io" where
  "virtio_config_readw M v offset = bindS (vm_get M v offset 2) (\<lambda>bs. returnS (ucast (le_val bs)))"

definition virtio_config_readl :: "'d machine \<Rightarrow> virtio_mmio_device \<Rightarrow> u32 \<Rightarrow> ('d, u32) io" where
  "virtio_config_readl M v offset = bindS (vm_get M v offset 4) (\<lambda>bs. returnS (ucast (le_val bs)))"

definition virtio_config_writeb :: "'d machine \<Rightarrow> virtio_mmio_device \<Rightarrow> u32 \<Rightarrow> u8 \<Rightarrow> ('d, unit) io" where
  "virtio_config_writeb M v offset val = vm_set M v offset [val]"

definition virtio_config_writew :: "'d machine \<Rightarrow> virtio_mmio_device \<Rightarrow> u32 \<Rightarrow> u16 \<Rightarrow> ('d, unit) io" where
  "virtio_config_writew M v offset val = vm_set M v offset (le_bytes 2 (ucast val))"

definition virtio_config_writel :: "'d machine \<Rightarrow> virtio_mmio_device \<Rightarrow> u32 \<Rightarrow> u32 \<Rightarrow> ('d, unit) io" where
  "virtio_config_writel M v offset val = vm_set M v offset (le_bytes 4 val)"

definition vm_notify :: "'d machine \<Rightarrow> virtio_mmio_device \<Rightarrow> u32 \<Rightarrow> ('d, bool) io" where
  "vm_notify M vm_dev ind = bindS (outS (write32 M (vm_base vm_dev + VIRTIO_MMIO_QUEUE_NOTIFY) ind)) (\<lambda>_. returnS True)"

text \<open>
  \<open>calloc\<close> gives an address and for how many pointers there is room behind the structure in the block. A
  queue has as its notification the function from its index, and \<open>None\<close> is NULL.
\<close>

type_synonym ('d, 'c) vm_queue = "(u32 \<Rightarrow> ('d, bool) io, 'c) vring_virtqueue"

definition vm_setup_vq ::
    "'d machine \<Rightarrow> ('d vmmio_state, u64 \<times> nat) io \<Rightarrow> u64 \<Rightarrow> virtio_mmio_device \<Rightarrow> u32 \<Rightarrow> 'c \<Rightarrow> string \<Rightarrow>
     ('d vmmio_state, ('d, 'c) vm_queue option) io" where
  "vm_setup_vq M calloc dev vm_dev ind cb name =
     (let num = VIRTIO_MMIO_QUEUE_NUM_MIN; base = vm_base vm_dev
      in bindS calloc (\<lambda>(vq, room).
         bindS (assertS (VIRTIO_MMIO_QUEUE_SIZE_MIN \<le> 2 * PAGE_SIZE)) (\<lambda>_.
         bindS (\<lambda>s. bindE (alloc_pages 1 s) (\<lambda>(s, queue).
                     Inr (queue, s\<lparr>cells := zero_page (zero_page (cells s) queue) (queue + PAGE_SIZE)\<rparr>))) (\<lambda>queue.
         bindS (assertS (vq \<noteq> 0 \<and> queue \<noteq> 0)) (\<lambda>_.
         bindS (on_vm (outS (write32 M (base + VIRTIO_MMIO_QUEUE_SEL) ind))) (\<lambda>_.
         bindS (on_vm (inS (read32 M (base + VIRTIO_MMIO_QUEUE_NUM_MAX)))) (\<lambda>n.
         bindS (assertS (num \<le> n)) (\<lambda>_.
         bindS (on_vm (inS (read32 M (base + VIRTIO_MMIO_QUEUE_PFN)))) (\<lambda>pfn.
         if pfn \<noteq> 0 then
           bindS (on_vm (printfS M (''%s: virtqueue %d already setup! base=%p'' @ [CHR 0x0A])
                    [Str ''vm_setup_vq'', Word (ucast ind), Word base])) (\<lambda>_. returnS None)
         else
           bindS (on_vm (outS (write32 M (base + VIRTIO_MMIO_QUEUE_NUM) num))) (\<lambda>_.
           bindS (on_vm (outS (write32 M (base + VIRTIO_MMIO_QUEUE_ALIGN) (ucast VIRTIO_MMIO_VRING_ALIGN)))) (\<lambda>_.
           bindS (on_vm (outS (write32 M (base + VIRTIO_MMIO_QUEUE_PFN) (ucast (drop_bit PAGE_SHIFT queue))))) (\<lambda>_.
           bindS (liftS (vring_init_virtqueue room (zero_ring (unat num)) ind num VIRTIO_MMIO_VRING_ALIGN dev queue
                           (vm_notify M vm_dev) cb name)) (\<lambda>q. returnS (Some q))))))))))))))"

text \<open>The queues made so far, and \<open>-1\<close> when one could not be made.\<close>

primrec vm_find_vqs ::
    "'d machine \<Rightarrow> ('d vmmio_state, u64 \<times> nat) io \<Rightarrow> u64 \<Rightarrow> virtio_mmio_device \<Rightarrow> (u32 \<times> 'c \<times> string) list \<Rightarrow>
     ('d vmmio_state, int \<times> ('d, 'c) vm_queue list) io" where
  "vm_find_vqs M calloc dev vm_dev [] = returnS (0, [])"
| "vm_find_vqs M calloc dev vm_dev (q # qs) =
     (case q of (i, cb, name) \<Rightarrow>
        bindS (vm_setup_vq M calloc dev vm_dev i cb name) (\<lambda>r.
        case r of None \<Rightarrow> returnS (- 1, [])
        | Some vq \<Rightarrow> bindS (vm_find_vqs M calloc dev vm_dev qs) (\<lambda>(ret, vqs). returnS (ret, vq # vqs))))"

definition vm_device_init :: "'d machine \<Rightarrow> u64 \<Rightarrow> ('d, virtio_mmio_device) io" where
  "vm_device_init M base =
     bindS (inS (read32 M (base + VIRTIO_MMIO_DEVICE_ID))) (\<lambda>d.
     bindS (inS (read32 M (base + VIRTIO_MMIO_VENDOR_ID))) (\<lambda>v.
     bindS (outS (write32 M (base + VIRTIO_MMIO_GUEST_PAGE_SIZE) (ucast PAGE_SIZE))) (\<lambda>_.
     returnS \<lparr>id_device = d, id_vendor = v, vm_base = base\<rparr>)))"

text \<open>
  A node of the device tree is given by what \<open>dt_pbus_get_base\<close> returns for it; the result is the address
  of the registers, which stays in the search, and whether the node matches.
\<close>

definition vm_dt_match ::
    "'d machine \<Rightarrow> (u64 \<Rightarrow> u64 \<Rightarrow> ('d, u64) io) \<Rightarrow> u32 \<Rightarrow> int \<times> u64 \<times> u64 \<Rightarrow> ('d, u64 \<times> bool) io" where
  "vm_dt_match M ioremap devid node =
     (case node of (ret, addr, sz) \<Rightarrow>
        bindS (assertS (ret = 0)) (\<lambda>_.
        bindS (ioremap addr sz) (\<lambda>base.
        bindS (inS (read32 M (base + VIRTIO_MMIO_MAGIC_VALUE))) (\<lambda>magic.
        if magic \<noteq> 0x74726976 then returnS (base, False)
        else bindS (inS (read32 M (base + VIRTIO_MMIO_DEVICE_ID))) (\<lambda>d. returnS (base, d = devid))))))"

text \<open>
  \<open>vm_setup_vq\<close> asks \<open>calloc\<close> for the structure without its array \<open>data\<close>, whose elements
  \<open>vring_init_virtqueue\<close> then stores behind the block.
\<close>

lemma vring_init_no_room:
  "vring_init_virtqueue 0 m ind num align dev queue ntf cb name = Inl Out_of_bounds"
  unfolding vring_init_virtqueue_def by (subst init_loop.simps) simp

end
