(* ===== verification/KvmClock.thy ===== *)
theory KvmClock
  imports DeviceIO
begin

text \<open>
  The paravirtual clock, \<open>x86/kvmclock.c\<close> and \<open>x86/kvmclock.h\<close>: scaling of time-stamp differences,
  the division routine, time values in seconds and nanoseconds, the reading of the record a hypervisor
  updates, and the global value that keeps the clock of all processors from going back, whose updates by
  several processors interleave as the step relation \<open>clock_run\<close>.
\<close>

definition MSR_KVM_WALL_CLOCK_NEW :: u32 where "MSR_KVM_WALL_CLOCK_NEW = 0x4b564d00"
definition MSR_KVM_SYSTEM_TIME_NEW :: u32 where "MSR_KVM_SYSTEM_TIME_NEW = 0x4b564d01"
definition PVCLOCK_TSC_STABLE_BIT :: u8 where "PVCLOCK_TSC_STABLE_BIT = push_bit 0 1"
definition PVCLOCK_RAW_CYCLE_BIT :: u8 where "PVCLOCK_RAW_CYCLE_BIT = push_bit 7 1"
definition NSEC_PER_SEC :: u64 where "NSEC_PER_SEC = 1000000000"

section \<open>Arithmetic\<close>

text \<open>\<open>mul\<close> gives 128 bits in two registers, of which \<open>shrd\<close> leaves bits 32 to 95 in the first.\<close>

definition scale_delta :: "u64 \<Rightarrow> u32 \<Rightarrow> int \<Rightarrow> u64" where
  "scale_delta delta mul_frac shift =
     (let delta = (if shift < 0 then drop_bit (nat (- shift)) delta else push_bit (nat shift) delta)
      in ucast (drop_bit 32 (ucast delta * ucast mul_frac :: 128 word)))"

lemma sless_0_iff: "0 <s (b :: u64) \<longleftrightarrow> 0 < unat b \<and> unat b < 2 ^ 63"
proof -
  define k where "k = unat b"
  have u: "uint b = int k" by (simp add: k_def)
  have "k < 2 ^ 64" using unsigned_less [of b] by (simp add: k_def)
  then show ?thesis unfolding word_sless_alt sint_64 u k_def [symmetric] by (cases "k < 2 ^ 63") simp_all
qed

lemma sless_0_neg_iff: "(b :: u64) <s 0 \<longleftrightarrow> 2 ^ 63 \<le> unat b"
proof -
  define k where "k = unat b"
  have u: "uint b = int k" by (simp add: k_def)
  have "k < 2 ^ 64" using unsigned_less [of b] by (simp add: k_def)
  then show ?thesis unfolding word_sless_alt sint_64 u k_def [symmetric] by (cases "k < 2 ^ 63") simp_all
qed

text \<open>The two loops of \<open>__div64_32\<close>.\<close>

function div_grow :: "u64 \<Rightarrow> u64 \<Rightarrow> u64 \<Rightarrow> u64 \<times> u64" where
  "div_grow b d rm = (if 0 <s b \<and> b < rm then div_grow (b + b) (d + d) rm else (b, d))"
  by pat_completeness auto
termination
proof (relation "measure (\<lambda>(b, d, rm). 2 ^ 64 - unat b)")
  fix b d rm :: u64
  assume "0 <s b \<and> b < rm"
  then have b: "0 < unat b" "unat b < 2 ^ 63" by (simp_all only: sless_0_iff)
  then have "unat (b + b) = 2 * unat b" by (simp add: unat_word_ariths)
  then show "((b + b, d + d, rm), (b, d, rm)) \<in> measure (\<lambda>(b, d, rm). 2 ^ 64 - unat b)" using b by simp
qed simp

function div_shrink :: "u64 \<Rightarrow> u64 \<Rightarrow> u64 \<Rightarrow> u64 \<Rightarrow> u64 \<times> u64" where
  "div_shrink b d rm res =
     (let (rm, res) = (if b \<le> rm then (rm - b, res + d) else (rm, res));
          b = drop_bit 1 b; d' = drop_bit 1 d
      in if d' \<noteq> 0 then div_shrink b d' rm res else (res, rm))"
  by pat_completeness auto
termination
proof (relation "measure (\<lambda>(b, d, rm, res). unat d)")
  fix b d rm res rm1 res1 b1 :: u64 and x d1
  assume d1: "d1 = drop_bit 1 d" "d1 \<noteq> 0"
  have "unat d1 = unat d div 2" by (simp add: d1(1) drop_bit_Suc unat_div)
  moreover have "unat d1 \<noteq> 0" using d1(2) by (simp only: unat_eq_0 not_False_eq_True)
  ultimately show "((b1, d1, rm1, res1), (b, d, rm, res)) \<in> measure (\<lambda>(b, d, rm, res). unat d)" by simp
qed simp

declare div_grow.simps [simp del] div_shrink.simps [simp del]

text \<open>The quotient, which replaces \<open>n\<close>, and the remainder.\<close>

definition div64_32 :: "u64 \<Rightarrow> u32 \<Rightarrow> err + (u64 \<times> u32)" where
  "div64_32 n base =
     (let rm = n; b = ucast base; high = (ucast (drop_bit 32 rm) :: u32)
      in bindE (if base \<le> high then
           if base = 0 then Inl Divide_error
           else let high' = high div base in Inr (push_bit 32 (ucast high'), rm - push_bit 32 (ucast (high' * base)))
         else Inr (0, rm)) (\<lambda>(res, rm).
         let (b, d) = div_grow b 1 rm; (res, rm) = div_shrink b d rm res
         in Inr (res, ucast rm)))"

definition do_div :: "u64 \<Rightarrow> u32 \<Rightarrow> err + (u64 \<times> u32)" where
  "do_div n base =
     (if drop_bit 32 n = 0 then
        if base = 0 then Inl Divide_error
        else Inr (ucast ((ucast n :: u32) div base), (ucast n :: u32) mod base)
      else div64_32 n base)"

section \<open>Time values\<close>

record timespec =
  tv_sec :: u64
  tv_nsec :: u64

text \<open>
  The loops of \<open>set_normalized_timespec\<close>. \<open>NSEC_PER_SEC\<close> is unsigned, so the first one compares and
  subtracts without sign.
\<close>

function norm_down :: "u64 \<Rightarrow> u64 \<Rightarrow> u64 \<times> u64" where
  "norm_down sec nsec = (if NSEC_PER_SEC \<le> nsec then norm_down (sec + 1) (nsec - NSEC_PER_SEC) else (sec, nsec))"
  by pat_completeness auto
termination
  by (relation "measure (\<lambda>(sec, nsec). unat nsec)") (auto simp: NSEC_PER_SEC_def unat_sub word_le_nat_alt)

function norm_up :: "u64 \<Rightarrow> u64 \<Rightarrow> u64 \<times> u64" where
  "norm_up sec nsec = (if nsec <s 0 then norm_up (sec - 1) (nsec + NSEC_PER_SEC) else (sec, nsec))"
  by pat_completeness auto
termination
proof (relation "measure (\<lambda>(sec, nsec). if nsec <s 0 then 2 ^ 64 - unat nsec else 0)")
  fix sec nsec :: u64
  assume neg: "nsec <s 0"
  define k where "k = unat nsec"
  have "k < 2 ^ 64" "2 ^ 63 \<le> k" using neg unsigned_less [of nsec] by (simp_all add: k_def sless_0_neg_iff)
  moreover have "unat (nsec + NSEC_PER_SEC) = (k + 1000000000) mod 2 ^ 64"
    by (simp add: NSEC_PER_SEC_def unat_word_ariths k_def)
  moreover have "2 ^ 63 \<le> (k + 1000000000) mod 2 ^ 64 \<Longrightarrow> k < (k + 1000000000) mod 2 ^ 64"
  proof -
    have "(k + 1000000000) mod 2 ^ 64 = (if k + 1000000000 < 2 ^ 64 then k + 1000000000 else k + 1000000000 - 2 ^ 64)"
      using \<open>k < 2 ^ 64\<close> by (auto simp: le_mod_geq)
    then show "2 ^ 63 \<le> (k + 1000000000) mod 2 ^ 64 \<Longrightarrow> k < (k + 1000000000) mod 2 ^ 64"
      using \<open>k < 2 ^ 64\<close> by (auto split: if_splits)
  qed
  ultimately show "((sec - 1, nsec + NSEC_PER_SEC), sec, nsec) \<in> measure (\<lambda>(sec, nsec). if nsec <s 0 then 2 ^ 64 - unat nsec else 0)"
    using neg by (auto simp: sless_0_neg_iff k_def [symmetric] simp del: unat_lt_64)
qed simp

declare norm_down.simps [simp del] norm_up.simps [simp del]

definition set_normalized_timespec :: "u64 \<Rightarrow> u64 \<Rightarrow> timespec" where
  "set_normalized_timespec sec nsec =
     (let (sec, nsec) = norm_down sec nsec; (sec, nsec) = norm_up sec nsec in \<lparr>tv_sec = sec, tv_nsec = nsec\<rparr>)"

section \<open>Reading the clock\<close>

text \<open>
  \<open>hv_clock[i]\<close> is memory the hypervisor writes: \<open>fetch\<close> is what it holds when one of its fields is
  read. \<open>rdtsc\<close> reads the time-stamp counter.
\<close>

record pvclock_vcpu_time_info =
  version :: u32
  tsc_timestamp :: u64
  system_time :: u64
  tsc_to_system_mul :: u32
  tsc_shift :: u8
  flags :: u8

record pvclock_wall_clock =
  wc_version :: u32
  wc_sec :: u32
  wc_nsec :: u32

text \<open>The hardware, and the variables of the program.\<close>

record 'd clock_machine = "'d machine" +
  fetch_info :: "nat \<Rightarrow> 'd \<Rightarrow> pvclock_vcpu_time_info \<times> 'd"
  fetch_wall :: "'d \<Rightarrow> pvclock_wall_clock \<times> 'd"
  rdtsc :: "'d \<Rightarrow> u64 \<times> 'd"
  smp_id :: "'d \<Rightarrow> nat \<times> 'd"
  hv_clock_addr :: "nat \<Rightarrow> u64"
  wall_clock_addr :: u64

record 'd clock_state =
  valid_flags :: u8
  last_value :: u64
  clock_hw :: 'd

definition pvclock_read_begin :: "('d, 'e) clock_machine_scheme \<Rightarrow> nat \<Rightarrow> ('d, u32) io" where
  "pvclock_read_begin M src = bindS (inS (fetch_info M src)) (\<lambda>i. returnS (version i AND NOT 1))"

definition pvclock_read_retry :: "('d, 'e) clock_machine_scheme \<Rightarrow> nat \<Rightarrow> u32 \<Rightarrow> ('d, bool) io" where
  "pvclock_read_retry M src ver = bindS (inS (fetch_info M src)) (\<lambda>i. returnS (ver \<noteq> version i))"

definition pvclock_read_cycles :: "('d, 'e) clock_machine_scheme \<Rightarrow> nat \<Rightarrow> ('d, u64) io" where
  "pvclock_read_cycles M src =
     bindS (inS (rdtsc M)) (\<lambda>tsc.
     bindS (inS (fetch_info M src)) (\<lambda>i1.
     bindS (inS (fetch_info M src)) (\<lambda>i2.
     bindS (inS (fetch_info M src)) (\<lambda>i3.
     bindS (inS (fetch_info M src)) (\<lambda>i4.
     returnS (system_time i4 + scale_delta (tsc - tsc_timestamp i1) (tsc_to_system_mul i2) (sint (tsc_shift i3))))))))"

text \<open>The loop that repeats the reading while the hypervisor updates the record.\<close>

definition read_once :: "('d, 'e) clock_machine_scheme \<Rightarrow> nat \<Rightarrow> ('d, u64 \<times> u8 \<times> bool) io" where
  "read_once M src =
     bindS (pvclock_read_begin M src) (\<lambda>ver.
     bindS (pvclock_read_cycles M src) (\<lambda>ret.
     bindS (inS (fetch_info M src)) (\<lambda>i.
     bindS (pvclock_read_retry M src ver) (\<lambda>again. returnS (ret, flags i, again)))))"

partial_function (option) read_loop ::
    "('d, 'e) clock_machine_scheme \<Rightarrow> nat \<Rightarrow> 'd \<Rightarrow> (err + ((u64 \<times> u8) \<times> 'd)) option" where
  "read_loop M src d =
     (case read_once M src d of
        Inl e \<Rightarrow> Some (Inl e)
      | Inr ((ret, fl, again), d) \<Rightarrow> if again then read_loop M src d else Some (Inr ((ret, fl), d)))"

declare read_loop.simps [code]

text \<open>The result is the old value, and the variable changes when that is the expected one.\<close>

definition atomic64_cmpxchg :: "u64 \<Rightarrow> u64 \<Rightarrow> u64 \<Rightarrow> u64 \<times> u64" where
  "atomic64_cmpxchg v old new = (v, if v = old then new else v)"

text \<open>
  One turn of the loop that moves \<open>last_value\<close> forward: the new value of the variable, and either the
  value returned or the next \<open>last\<close>.
\<close>

datatype turn = Again u64 | Return u64

definition last_turn :: "u64 \<Rightarrow> u64 \<Rightarrow> u64 \<Rightarrow> u64 \<times> turn" where
  "last_turn ret lst v =
     (if ret < lst then (v, Return lst)
      else let (old, v) = atomic64_cmpxchg v lst ret
           in (v, if old \<noteq> ret then Again old else Return ret))"

partial_function (option) last_loop :: "u64 \<Rightarrow> u64 \<Rightarrow> u64 \<Rightarrow> (u64 \<times> u64) option" where
  "last_loop ret lst v =
     (case last_turn ret lst v of (v, Again lst) \<Rightarrow> last_loop ret lst v | (v, Return r) \<Rightarrow> Some (r, v))"

declare last_loop.simps [code]

definition on_clock :: "('d, 'a) io \<Rightarrow> ('d clock_state, 'a) io" where
  "on_clock f s = bindE (f (clock_hw s)) (\<lambda>(x, d). Inr (x, s\<lparr>clock_hw := d\<rparr>))"

definition pvclock_clocksource_read :: "('d, 'e) clock_machine_scheme \<Rightarrow> nat \<Rightarrow> ('d clock_state, u64) io" where
  "pvclock_clocksource_read M src =
     bindS (on_clock (\<lambda>d. bindE (loopE (read_loop M src d)) (\<lambda>r. r))) (\<lambda>(ret, fl) s.
     if valid_flags s AND PVCLOCK_RAW_CYCLE_BIT \<noteq> 0 \<or>
        valid_flags s AND PVCLOCK_TSC_STABLE_BIT \<noteq> 0 \<and> fl AND PVCLOCK_TSC_STABLE_BIT \<noteq> 0
     then Inr (ret, s)
     else bindE (loopE (last_loop ret (last_value s) (last_value s))) (\<lambda>(r, v). Inr (r, s\<lparr>last_value := v\<rparr>)))"

definition kvm_clock_read :: "('d, 'e) clock_machine_scheme \<Rightarrow> ('d clock_state, u64) io" where
  "kvm_clock_read M = bindS (on_clock (inS (smp_id M))) (\<lambda>index. pvclock_clocksource_read M index)"

definition kvm_clock_init :: "'d clock_machine \<Rightarrow> ('d clock_state, unit) io" where
  "kvm_clock_init M =
     bindS (on_clock (inS (smp_id M))) (\<lambda>index.
     bindS (on_clock (printfS (machine.truncate M) (''kvm-clock: cpu %d, msr %p'' @ [CHR 0x0A])
              [Word (of_nat index), Word (hv_clock_addr M index)])) (\<lambda>_.
     on_clock (outS (write_msr M MSR_KVM_SYSTEM_TIME_NEW (hv_clock_addr M index OR 1)))))"

definition kvm_clock_clear :: "('d, 'e) clock_machine_scheme \<Rightarrow> ('d clock_state, unit) io" where
  "kvm_clock_clear M = on_clock (outS (write_msr M MSR_KVM_SYSTEM_TIME_NEW 0))"

text \<open>The wall clock at boot, read like the record of a processor but by its own rule.\<close>

definition wall_once :: "('d, 'e) clock_machine_scheme \<Rightarrow> ('d, u32 \<times> u32 \<times> bool) io" where
  "wall_once M =
     bindS (inS (fetch_wall M)) (\<lambda>w1.
     bindS (inS (fetch_wall M)) (\<lambda>w2.
     bindS (inS (fetch_wall M)) (\<lambda>w3.
     bindS (inS (fetch_wall M)) (\<lambda>w4.
     if wc_version w4 AND 1 \<noteq> 0 then returnS (wc_sec w2, wc_nsec w3, True)
     else bindS (inS (fetch_wall M)) (\<lambda>w5. returnS (wc_sec w2, wc_nsec w3, wc_version w1 \<noteq> wc_version w5))))))"

partial_function (option) wall_loop :: "('d, 'e) clock_machine_scheme \<Rightarrow> 'd \<Rightarrow> (err + ((u32 \<times> u32) \<times> 'd)) option" where
  "wall_loop M d =
     (case wall_once M d of
        Inl e \<Rightarrow> Some (Inl e)
      | Inr ((sec, nsec, again), d) \<Rightarrow> if again then wall_loop M d else Some (Inr ((sec, nsec), d)))"

declare wall_loop.simps [code]

definition pvclock_read_wallclock :: "('d, 'e) clock_machine_scheme \<Rightarrow> nat \<Rightarrow> ('d clock_state, timespec) io" where
  "pvclock_read_wallclock M vcpu =
     bindS (on_clock (\<lambda>d. bindE (loopE (wall_loop M d)) (\<lambda>r. r))) (\<lambda>(sec, nsec).
     bindS (pvclock_clocksource_read M vcpu) (\<lambda>delta.
     bindS (liftS (do_div (delta + (ucast sec * NSEC_PER_SEC + ucast nsec)) (ucast NSEC_PER_SEC))) (\<lambda>(q, r).
     returnS (set_normalized_timespec q (ucast r)))))"

definition kvm_get_wallclock :: "('d, 'e) clock_machine_scheme \<Rightarrow> ('d clock_state, timespec) io" where
  "kvm_get_wallclock M =
     bindS (on_clock (inS (smp_id M))) (\<lambda>index.
     bindS (on_clock (outS (write_msr M MSR_KVM_WALL_CLOCK_NEW (wall_clock_addr M)))) (\<lambda>_.
     pvclock_read_wallclock M index))"

definition pvclock_set_flags :: "u8 \<Rightarrow> 'd clock_state \<Rightarrow> 'd clock_state" where
  "pvclock_set_flags fl s = s\<lparr>valid_flags := fl\<rparr>"

section \<open>Division\<close>

text \<open>Doubling keeps the divisor a multiple \<open>base * 2 ^ k\<close>, and ends above half of the dividend.\<close>

lemma div_grow_run:
  assumes "unat b = base * 2 ^ k" "unat d = 2 ^ k" "0 < base"
  shows "\<exists>k b' d'. div_grow b d rm = (b', d') \<and> unat b' = base * 2 ^ k \<and> unat d' = 2 ^ k \<and> unat rm < 2 * unat b'"
  using assms
proof (induction b d rm arbitrary: k rule: div_grow.induct)
  case (1 b d rm)
  show ?case
  proof (cases "0 <s b \<and> b < rm")
    case True
    then have b: "unat b < 2 ^ 63" by (simp only: sless_0_iff)
    have "unat d \<le> unat b" using "1.prems" by simp
    then have "unat (d + d) = unat d + unat d" using b by (intro unat_add_noov) simp
    moreover have "unat (b + b) = unat b + unat b" using b by (intro unat_add_noov) simp
    ultimately have "unat (b + b) = base * 2 ^ Suc k" "unat (d + d) = 2 ^ Suc k"
      using "1.prems" by simp_all
    from "1.IH" [OF True this "1.prems"(3)] show ?thesis using True by (simp add: div_grow.simps [of b])
  next
    case False
    have "0 < unat b" using "1.prems" by simp
    then have "2 ^ 63 \<le> unat b \<or> unat rm \<le> unat b" using False by (auto simp: sless_0_iff word_less_nat_alt)
    moreover have "unat rm < 2 ^ 64" by simp
    ultimately have "unat rm < 2 * unat b" using \<open>0 < unat b\<close> by (auto simp del: unat_lt_64)
    then show ?thesis using "1.prems" False by (auto simp: div_grow.simps [of b])
  qed
qed

lemma div_shrink_run:
  assumes "unat b = base * 2 ^ k" "unat d = 2 ^ k" "0 < base" "unat rm < 2 * unat b"
    and "unat res * base + unat rm = m" "m < 2 ^ 64"
  shows "\<exists>res' rm'. div_shrink b d rm res = (res', rm') \<and> unat res' * base + unat rm' = m \<and> unat rm' < base"
  using assms
proof (induction k arbitrary: b d rm res)
  case (0 b d rm res)
  have d: "drop_bit 1 d = 0" using "0.prems"(2) by (simp add: drop_bit_Suc word_unat_eq_iff unat_div)
  show ?case
  proof (cases "b \<le> rm")
    case True
    have "unat (rm - b) = unat rm - unat b" using True by (rule unat_sub_le)
    moreover have "unat (res + d) = unat res + 1"
    proof -
      have "unat b \<le> unat rm" using True by (simp only: word_le_nat_alt)
      then have "unat res * base + base \<le> m" using 0 by simp
      moreover have "unat res * 1 \<le> unat res * base" using 0 by (intro mult_le_mono2) simp
      ultimately have "unat res + 1 < 2 ^ 64" using 0 by linarith
      then show ?thesis using 0 by (simp add: unat_word_ariths)
    qed
    moreover have "div_shrink b d rm res = (res + d, rm - b)"
      using True d by (subst div_shrink.simps) simp
    moreover have "unat b \<le> unat rm" using True by (simp only: word_le_nat_alt)
    ultimately show ?thesis using 0 by simp
  next
    case False
    then show ?thesis using 0 d by (subst div_shrink.simps) (simp add: word_le_nat_alt not_le)
  qed
next
  case (Suc k b d rm res)
  define rm1 where "rm1 = (if b \<le> rm then rm - b else rm)"
  define res1 where "res1 = (if b \<le> rm then res + d else res)"
  have half: "unat (drop_bit 1 b) = base * 2 ^ k" "unat (drop_bit 1 d) = 2 ^ k"
    using Suc.prems(1,2) by (simp_all add: drop_bit_Suc unat_div)
  then have nz: "drop_bit 1 d \<noteq> 0" by (metis power_not_zero unsigned_0 zero_neq_numeral)
  have "unat rm1 < unat b \<and> unat res1 * base + unat rm1 = m"
  proof (cases "b \<le> rm")
    case True
    then have le: "unat b \<le> unat rm" by (simp only: word_le_nat_alt)
    have s: "unat (rm - b) = unat rm - unat b" using True by (rule unat_sub_le)
    have "unat res * base + unat d * base \<le> m" using Suc.prems(1,2,5) le by (simp add: mult.commute)
    moreover have "(unat res + unat d) * 1 \<le> (unat res + unat d) * base" using Suc.prems(3) by (intro mult_le_mono2) simp
    ultimately have "unat res + unat d < 2 ^ 64" using Suc.prems(6) by (simp add: algebra_simps)
    then have "unat (res + d) = unat res + unat d" by (rule unat_add_noov)
    then show ?thesis using True s le Suc.prems by (simp add: rm1_def res1_def algebra_simps)
  next
    case False
    then show ?thesis using Suc.prems by (simp add: rm1_def res1_def word_le_nat_alt)
  qed
  then have "unat rm1 < 2 * unat (drop_bit 1 b)" "unat res1 * base + unat rm1 = m"
    using half(1) Suc.prems(1) by simp_all
  from Suc.IH [OF half Suc.prems(3) this Suc.prems(6)]
  obtain res' rm' where "div_shrink (drop_bit 1 b) (drop_bit 1 d) rm1 res1 = (res', rm')"
    "unat res' * base + unat rm' = m" "unat rm' < base" by blast
  moreover have "div_shrink b d rm res = div_shrink (drop_bit 1 b) (drop_bit 1 d) rm1 res1"
    using nz by (subst div_shrink.simps) (simp add: rm1_def res1_def Let_def)
  ultimately show ?case by simp
qed

lemma unat_push_32: "unat (push_bit 32 (ucast (w :: u32)) :: u64) = unat w * 2 ^ 32"
proof -
  have w: "unat w < 2 ^ 32" using unsigned_less [of w] by simp
  then have "unat w < 2 ^ 64" by simp
  then have "unat (ucast w :: u64) = unat w" by (simp only: unsigned_ucast_eq len_words take_bit_nat_eq_self)
  then show ?thesis using w by (simp add: push_bit_eq_mult unat_word_ariths)
qed

lemma div64_32_run:
  assumes "base \<noteq> 0"
  shows "div64_32 n base = Inr (n div ucast base, ucast (n mod ucast base))"
proof -
  define B where "B = unat base"
  define H where "H = unat n div 2 ^ 32"
  have B: "0 < B" "B < 2 ^ 32" "unat (ucast base :: u64) = B"
  proof -
    show "0 < B" using assms by (simp add: B_def unat_gt_0)
    show B32: "B < 2 ^ 32" using unsigned_less [of base] by (simp add: B_def)
    then have "B < 2 ^ 64" by simp
    then show "unat (ucast base :: u64) = B" by (simp only: B_def unsigned_ucast_eq len_words take_bit_nat_eq_self)
  qed
  have n64: "unat n < 2 ^ 64" by simp
  then have H32: "H < 2 ^ 32" by (simp add: H_def div_less_iff_less_mult del: unat_lt_64)
  let ?high = "ucast (drop_bit 32 n) :: u32"
  have high: "unat ?high = H"
    using H32 by (simp only: unsigned_ucast_eq len_words unat_drop_bit_64 H_def take_bit_nat_eq_self)
  obtain res rm :: u64 where red: "(if base \<le> ?high then
           if base = 0 then Inl Divide_error
           else let high' = ?high div base in Inr (push_bit 32 (ucast high'), n - push_bit 32 (ucast (high' * base)))
         else Inr (0, n)) = Inr (res, rm)" "unat res * B + unat rm = unat n" "unat rm < B * 2 ^ 32"
  proof (cases "base \<le> ?high")
    case True
    then have HB: "B \<le> H" by (simp only: word_le_nat_alt high B_def)
    define Q where "Q = H div B"
    let ?q = "?high div base"
    have q: "unat ?q = Q" by (simp only: unat_div high Q_def B_def)
    have QB: "Q * B \<le> H" by (simp add: Q_def)
    then have "unat (?q * base) = Q * B"
      using H32 q by (simp add: unat_word_ariths B_def)
    then have sub: "unat (push_bit 32 (ucast (?q * base)) :: u64) = Q * B * 2 ^ 32"
      and res: "unat (push_bit 32 (ucast ?q) :: u64) = Q * 2 ^ 32"
      by (simp_all only: unat_push_32 q)
    have low: "unat n mod 2 ^ 32 < 2 ^ 32" by simp
    have split: "unat n = H * 2 ^ 32 + unat n mod 2 ^ 32" by (simp add: H_def)
    have le: "Q * B * 2 ^ 32 \<le> unat n" using mult_le_mono1 [OF QB, of "2 ^ 32"] split by linarith
    then have rm: "unat (n - push_bit 32 (ucast (?q * base))) = unat n - Q * B * 2 ^ 32"
      by (simp only: sub unat_sub word_le_nat_alt)
    have "H - Q * B < B" using B(1) by (simp add: Q_def minus_div_mult_eq_mod)
    then have "(H - Q * B + 1) * 2 ^ 32 \<le> B * 2 ^ 32" by (intro mult_le_mono1) simp
    then have "unat n - Q * B * 2 ^ 32 < B * 2 ^ 32"
      using split low unfolding add_mult_distrib diff_mult_distrib by linarith
    then have 3: "unat (n - push_bit 32 (ucast (?q * base))) < B * 2 ^ 32" by (simp only: rm)
    have "Q * 2 ^ 32 * B + (unat n - Q * B * 2 ^ 32) = unat n" using le by (simp add: mult.commute mult.left_commute)
    then have 2: "unat (push_bit 32 (ucast ?q) :: u64) * B + unat (n - push_bit 32 (ucast (?q * base))) = unat n"
      by (simp only: rm res)
    show thesis by (rule that [OF _ 2 3]) (use True assms in \<open>simp only: if_True if_False Let_def\<close>)
  next
    case False
    then have "H < B" by (simp only: word_le_nat_alt high B_def not_le)
    then have "unat n < B * 2 ^ 32" by (simp add: H_def div_less_iff_less_mult)
    with False show thesis by (intro that [of 0 n]) simp_all
  qed
  obtain k b d where g: "div_grow (ucast base) 1 rm = (b, d)" "unat b = B * 2 ^ k" "unat d = 2 ^ k" "unat rm < 2 * unat b"
    using div_grow_run [of "ucast base" B 0 1 rm] B by auto
  obtain q r where s: "div_shrink b d rm res = (q, r)" "unat q * B + unat r = unat n" "unat r < B"
    using div_shrink_run [OF g(2,3) B(1) g(4) red(2) n64] by blast
  have "unat q = unat n div B" "unat r = unat n mod B" using B(1) s(3) by (simp_all flip: s(2))
  then have "q = n div ucast base" "r = n mod ucast base"
    by (simp_all add: word_unat_eq_iff unat_div unat_mod B(3))
  then show ?thesis using g(1) s(1) red(1) by (simp add: div64_32_def Let_def)
qed

text \<open>
  the division routine gives quotient and remainder of the 64-bit dividend, whatever it is, and a
  division by zero is an error in both branches.
\<close>

theorem do_div_correct:
  "do_div n base =
     (if base = 0 then Inl Divide_error else Inr (n div ucast base, ucast (n mod ucast base)))"
proof (cases "drop_bit 32 n = 0")
  case True
  then have n: "unat n < 2 ^ 32"
    using unat_drop_bit_64 [of 32 n] by (simp add: div_eq_0_iff del: unat_lt_64)
  have B: "unat (ucast base :: u64) = unat base" for base :: u32
  proof -
    have "unat base < 2 ^ 64" by (rule less_trans [OF unsigned_less]) simp
    then show ?thesis by (simp only: unsigned_ucast_eq len_words take_bit_nat_eq_self)
  qed
  have u: "unat (ucast n :: u32) = unat n" using n by (simp only: unsigned_ucast_eq len_words take_bit_nat_eq_self)
  have r: "unat (n mod ucast base) < 2 ^ 32"
    unfolding unat_mod B by (rule le_less_trans [OF mod_less_eq_dividend n])
  have "ucast ((ucast n :: u32) div base) = n div ucast base"
    by (simp add: word_unat_eq_iff unat_div B u)
  moreover have "(ucast n :: u32) mod base = ucast (n mod ucast base)"
  proof -
    have "unat (ucast (n mod ucast base) :: u32) = unat (n mod ucast base)"
      using r by (simp only: unsigned_ucast_eq len_words take_bit_nat_eq_self)
    then show ?thesis by (simp only: word_unat_eq_iff unat_mod u B)
  qed
  ultimately show ?thesis using True by (simp add: do_div_def)
next
  case False
  then show ?thesis
    by (cases "base = 0") (simp_all add: do_div_def div64_32_run, simp add: div64_32_def)
qed
section \<open>Normalized times\<close>

lemma norm_down_div:
  "norm_down sec nsec = (sec + nsec div NSEC_PER_SEC, nsec mod NSEC_PER_SEC)"
proof (induction sec nsec rule: norm_down.induct)
  case (1 sec nsec)
  have N: "unat NSEC_PER_SEC = 1000000000" by (simp add: NSEC_PER_SEC_def)
  show ?case
  proof (cases "NSEC_PER_SEC \<le> nsec")
    case True
    then have le: "1000000000 \<le> unat nsec" by (simp only: word_le_nat_alt N)
    have s: "unat (nsec - NSEC_PER_SEC) = unat nsec - 1000000000" using True by (simp only: unat_sub_le N)
    have "unat (nsec - NSEC_PER_SEC) mod 1000000000 = unat nsec mod 1000000000"
      using le by (simp add: s le_mod_geq)
    then have m: "(nsec - NSEC_PER_SEC) mod NSEC_PER_SEC = nsec mod NSEC_PER_SEC"
      by (simp only: word_unat_eq_iff unat_mod N)
    have "unat nsec div 1000000000 = Suc ((unat nsec - 1000000000) div 1000000000)"
      using le by (simp add: le_div_geq)
    then have "unat (nsec div NSEC_PER_SEC) = unat ((nsec - NSEC_PER_SEC) div NSEC_PER_SEC) + 1"
      by (simp only: unat_div N s)
    then have "of_nat (unat (nsec div NSEC_PER_SEC)) = (of_nat (unat ((nsec - NSEC_PER_SEC) div NSEC_PER_SEC) + 1) :: u64)"
      by (simp only:)
    then have d: "nsec div NSEC_PER_SEC = (nsec - NSEC_PER_SEC) div NSEC_PER_SEC + 1" by simp
    have "norm_down sec nsec = norm_down (sec + 1) (nsec - NSEC_PER_SEC)" using True by (subst norm_down.simps) simp
    then show ?thesis using 1 [OF True] m d by simp
  next
    case False
    then have lt: "unat nsec < 1000000000" by (simp only: word_le_nat_alt N not_le)
    have "nsec div NSEC_PER_SEC = 0" "nsec mod NSEC_PER_SEC = nsec"
      using lt by (simp_all only: word_unat_eq_iff unat_div unat_mod N mod_less div_less unsigned_0)
    then show ?thesis using False by (subst norm_down.simps) simp
  qed
qed

text \<open>
  \<open>set_normalized_timespec\<close> ends with nanoseconds below one second. It divides as if \<open>nsec\<close> had no sign:
  the second loop is never entered, and -1 ns is taken for 2^64 - 1.
\<close>

theorem set_normalized_timespec_unsigned:
  "set_normalized_timespec sec nsec = \<lparr>tv_sec = sec + nsec div NSEC_PER_SEC, tv_nsec = nsec mod NSEC_PER_SEC\<rparr> \<and>
   nsec mod NSEC_PER_SEC < NSEC_PER_SEC \<and>
   set_normalized_timespec 5 (- 1) = \<lparr>tv_sec = 18446744078, tv_nsec = 709551615\<rparr>"
proof -
  have N: "unat NSEC_PER_SEC = 1000000000" by (simp add: NSEC_PER_SEC_def)
  have lt: "nsec mod NSEC_PER_SEC < NSEC_PER_SEC" for nsec by (simp only: word_less_nat_alt unat_mod N mod_less_divisor zero_less_numeral)
  have all: "set_normalized_timespec sec nsec = \<lparr>tv_sec = sec + nsec div NSEC_PER_SEC, tv_nsec = nsec mod NSEC_PER_SEC\<rparr>" for sec nsec
  proof -
    have "unat (nsec mod NSEC_PER_SEC) < 2 ^ 63" using lt [of nsec] by (simp add: word_less_nat_alt N)
    then have "\<not> nsec mod NSEC_PER_SEC <s 0" by (simp only: sless_0_neg_iff not_le)
    then have "norm_up s (nsec mod NSEC_PER_SEC) = (s, nsec mod NSEC_PER_SEC)" for s
      by (subst norm_up.simps) simp
    then show ?thesis by (simp add: set_normalized_timespec_def norm_down_div)
  qed
  have "set_normalized_timespec 5 (- 1) = \<lparr>tv_sec = 18446744078, tv_nsec = 709551615\<rparr>"
    unfolding all by (simp add: NSEC_PER_SEC_def)
  then show ?thesis using all lt by blast
qed

section \<open>The clock of all processors\<close>

text \<open>
  A processor in \<open>pvclock_clocksource_read\<close>: it has computed \<open>ret\<close>, or has also read \<open>last\<close>. The
  events are kept newest first.
\<close>

datatype vcpu = Idle | Start u64 | Trying u64 u64

datatype clock_event = Begin nat | End nat u64

text \<open>The values returned so far, and those returned before the current reading of processor \<open>c\<close> began.\<close>

fun results :: "clock_event list \<Rightarrow> u64 set" where
  "results [] = {}"
| "results (Begin c # es) = results es"
| "results (End c r # es) = insert r (results es)"

fun seen :: "nat \<Rightarrow> clock_event list \<Rightarrow> u64 set" where
  "seen c [] = {}"
| "seen c (Begin c' # es) = (if c' = c then results es else seen c es)"
| "seen c (End c' r # es) = seen c es"

fun never_back :: "clock_event list \<Rightarrow> bool" where
  "never_back [] \<longleftrightarrow> True"
| "never_back (Begin c # es) \<longleftrightarrow> never_back es"
| "never_back (End c r # es) \<longleftrightarrow> (\<forall>x \<in> seen c es. x \<le> r) \<and> never_back es"

inductive clock_run :: "u64 \<Rightarrow> clock_event list \<Rightarrow> (nat \<Rightarrow> vcpu) \<Rightarrow> u64 \<Rightarrow> bool" for v0 where
  clock_start: "clock_run v0 [] (\<lambda>_. Idle) v0"
| clock_begin: "\<lbrakk>clock_run v0 es T v; T c = Idle\<rbrakk> \<Longrightarrow> clock_run v0 (Begin c # es) (T(c := Start ret)) v"
| clock_load: "\<lbrakk>clock_run v0 es T v; T c = Start ret\<rbrakk> \<Longrightarrow> clock_run v0 es (T(c := Trying ret v)) v"
| clock_again: "\<lbrakk>clock_run v0 es T v; T c = Trying ret lst; last_turn ret lst v = (v', Again lst')\<rbrakk> \<Longrightarrow>
    clock_run v0 es (T(c := Trying ret lst')) v'"
| clock_return: "\<lbrakk>clock_run v0 es T v; T c = Trying ret lst; last_turn ret lst v = (v', Return r)\<rbrakk> \<Longrightarrow>
    clock_run v0 (End c r # es) (T(c := Idle)) v'"

lemma seen_results: "seen c es \<subseteq> results es"
  by (induction es rule: results.induct) auto

lemma last_turn_Again:
  "last_turn ret lst v = (v', Again lst') \<longleftrightarrow> lst \<le> ret \<and> v \<noteq> ret \<and> lst' = v \<and> v' = (if v = lst then ret else v)"
  by (auto simp: last_turn_def atomic64_cmpxchg_def)

lemma last_turn_Return:
  "last_turn ret lst v = (v', Return r) \<longleftrightarrow> v' = v \<and> (if ret < lst then r = lst else v = ret \<and> r = ret)"
  by (auto simp: last_turn_def atomic64_cmpxchg_def)

text \<open>The global value only grows; a pending reading holds a value not below those seen and not above it.\<close>

definition clock_inv :: "clock_event list \<Rightarrow> (nat \<Rightarrow> vcpu) \<Rightarrow> u64 \<Rightarrow> bool" where
  "clock_inv es T v \<longleftrightarrow> never_back es \<and> (\<forall>r \<in> results es. r \<le> v) \<and>
    (\<forall>c ret lst. T c = Trying ret lst \<longrightarrow> lst \<le> v \<and> (\<forall>r \<in> seen c es. r \<le> lst))"

lemma clock_invD:
  assumes "clock_inv es T v"
  shows "never_back es" "r \<in> results es \<Longrightarrow> r \<le> v" "T c = Trying ret lst \<Longrightarrow> lst \<le> v"
    "T c = Trying ret lst \<Longrightarrow> r \<in> seen c es \<Longrightarrow> r \<le> lst"
  using assms by (auto simp: clock_inv_def)

lemma clock_inv_grow:
  assumes "clock_inv es T v" "v \<le> v'"
  shows "clock_inv es T v'"
  using assms unfolding clock_inv_def by (metis order_trans)

lemma clock_inv_load:
  assumes "clock_inv es T v"
  shows "clock_inv es (T(c := Trying ret v)) v"
  using assms seen_results [of c es] unfolding clock_inv_def by (simp add: subset_iff)

lemma clock_inv_begin:
  assumes "clock_inv es T v"
  shows "clock_inv (Begin c # es) (T(c := Start ret)) v"
  using assms unfolding clock_inv_def by simp

lemma clock_inv_return:
  assumes "clock_inv es T v" "T c = Trying ret lst" "lst \<le> r" "r \<le> v"
  shows "clock_inv (End c r # es) (T(c := Idle)) v"
proof -
  have "\<forall>x \<in> seen c es. x \<le> r"
    using clock_invD(4) [OF assms(1,2)] assms(3) by (meson order_trans)
  then show ?thesis using assms unfolding clock_inv_def by simp
qed

lemma clock_run_inv: "clock_run v0 es T v \<Longrightarrow> clock_inv es T v"
proof (induction rule: clock_run.induct)
  case (clock_again es T v c ret lst v' lst')
  then have "v \<le> v'" "lst' = v" by (auto simp: last_turn_Again)
  then show ?case using clock_inv_grow [OF clock_inv_load [OF clock_again.IH]] by (simp only:)
next
  case (clock_return es T v c ret lst v' r)
  have lst: "lst \<le> v" using clock_invD(3) [OF clock_return.IH clock_return.hyps(2)] .
  have "v' = v" "lst \<le> r" "r \<le> v"
    using clock_return.hyps(3) lst by (auto simp: last_turn_Return split: if_splits)
  then show ?case using clock_inv_return [OF clock_return.IH clock_return.hyps(2)] by (simp only:)
next
  case (clock_begin es T v c ret)
  show ?case by (rule clock_inv_begin [OF clock_begin.IH])
next
  case (clock_load es T v c ret)
  show ?case by (rule clock_inv_load [OF clock_load.IH])
qed (simp add: clock_inv_def)


section \<open>Reading while the hypervisor writes\<close>

text \<open>
  What the reading relies on: every read of a field sees the record \<open>snap t\<close> of some time, and time goes
  on; versions never decrease, and while the version is the same even number the record does not change.
\<close>

definition hv_protocol ::
    "('d, 'e) clock_machine_scheme \<Rightarrow> nat \<Rightarrow> (nat \<Rightarrow> pvclock_vcpu_time_info) \<Rightarrow> ('d \<Rightarrow> nat) \<Rightarrow> bool" where
  "hv_protocol M src snap time \<longleftrightarrow>
     (\<forall>d. \<exists>d'. fetch_info M src d = (snap (time d), d') \<and> time d < time d') \<and>
     (\<forall>d. time d \<le> time (snd (rdtsc M d))) \<and>
     (\<forall>t t'. t \<le> t' \<longrightarrow> version (snap t) \<le> version (snap t')) \<and>
     (\<forall>t t'. version (snap t) = version (snap t') \<and> version (snap t) AND 1 = 0 \<longrightarrow> snap t = snap t')"

definition cycles_of :: "pvclock_vcpu_time_info \<Rightarrow> u64 \<Rightarrow> u64" where
  "cycles_of i tsc = system_time i + scale_delta (tsc - tsc_timestamp i) (tsc_to_system_mul i) (sint (tsc_shift i))"

lemma and_not_1_fix: "v AND NOT 1 = v \<Longrightarrow> v AND 1 = (0 :: u32)"
proof -
  assume "v AND NOT 1 = v"
  then have "v AND 1 = (v AND NOT 1) AND 1" by simp
  also have "\<dots> = 0" by (simp add: and.assoc)
  finally show ?thesis .
qed

lemma and_not_1_even: "v AND 1 = (0 :: u32) \<Longrightarrow> v AND NOT 1 = v"
proof (rule bit_word_eqI)
  fix n :: nat
  assume "v AND 1 = 0" "n < LENGTH(32)"
  moreover have "bit (v AND 1) 0 = bit v 0" by (simp add: bit_and_iff bit_1_iff)
  ultimately show "bit (v AND NOT 1) n = bit v n"
    by (cases "n = 0") (simp_all add: bit_and_iff bit_not_iff bit_1_iff)
qed

lemma and_not_1_le: "v AND NOT 1 \<le> (v :: u32)"
  by (rule word_and_le2)

text \<open>The seven reads of one turn of the loop, at seven times.\<close>

lemma read_once_run:
  assumes p: "hv_protocol M src snap time"
  obtains t0 t1 t2 t3 t4 t5 t6 tsc d1 d' where
    "read_once M src d = Inr ((system_time (snap t4) +
        scale_delta (tsc - tsc_timestamp (snap t1)) (tsc_to_system_mul (snap t2)) (sint (tsc_shift (snap t3))),
        flags (snap t5), version (snap t0) AND NOT 1 \<noteq> version (snap t6)), d')"
    "t0 \<le> t1" "t1 \<le> t2" "t2 \<le> t3" "t3 \<le> t4" "t4 \<le> t5" "t5 \<le> t6" "t0 = time d" "t6 < time d'"
    "tsc = fst (rdtsc M d1)"
proof -
  have f: "\<exists>d'. fetch_info M src d = (snap (time d), d') \<and> time d < time d'" for d
    using p by (simp add: hv_protocol_def)
  obtain d1 where d1: "fetch_info M src d = (snap (time d), d1)" "time d < time d1" using f by blast
  obtain tsc e1 where e1: "rdtsc M d1 = (tsc, e1)" by (cases "rdtsc M d1")
  have te: "time d1 \<le> time e1" using p e1 by (metis hv_protocol_def snd_conv)
  obtain d2 where d2: "fetch_info M src e1 = (snap (time e1), d2)" "time e1 < time d2" using f by blast
  obtain d3 where d3: "fetch_info M src d2 = (snap (time d2), d3)" "time d2 < time d3" using f by blast
  obtain d4 where d4: "fetch_info M src d3 = (snap (time d3), d4)" "time d3 < time d4" using f by blast
  obtain d5 where d5: "fetch_info M src d4 = (snap (time d4), d5)" "time d4 < time d5" using f by blast
  obtain d6 where d6: "fetch_info M src d5 = (snap (time d5), d6)" "time d5 < time d6" using f by blast
  obtain d7 where d7: "fetch_info M src d6 = (snap (time d6), d7)" "time d6 < time d7" using f by blast
  have "read_once M src d = Inr ((system_time (snap (time d4)) +
        scale_delta (tsc - tsc_timestamp (snap (time e1))) (tsc_to_system_mul (snap (time d2))) (sint (tsc_shift (snap (time d3)))),
        flags (snap (time d5)), version (snap (time d)) AND NOT 1 \<noteq> version (snap (time d6))), d7)"
    by (simp add: read_once_def pvclock_read_begin_def pvclock_read_cycles_def pvclock_read_retry_def bindS_eval inS_def
        returnS_def d1 e1 d2 d3 d4 d5 d6 d7)
  then show thesis
    by (rule that [OF _ _ _ _ _ _ _ _ _ sym [of "fst (rdtsc M d1)"]]) (use d1 te d2 d3 d4 d5 d6 d7 e1 in simp_all)
qed

lemma read_once_consistent:
  assumes p: "hv_protocol M src snap time" and r: "read_once M src d = Inr ((ret, fl, False), d')"
  shows "\<exists>t d1. ret = cycles_of (snap t) (fst (rdtsc M d1)) \<and> fl = flags (snap t) \<and> version (snap t) AND 1 = 0 \<and>
    time d \<le> t \<and> t < time d'"
proof -
  obtain t0 t1 t2 t3 t4 t5 t6 tsc d1 d2 where
    o: "read_once M src d = Inr ((system_time (snap t4) +
        scale_delta (tsc - tsc_timestamp (snap t1)) (tsc_to_system_mul (snap t2)) (sint (tsc_shift (snap t3))),
        flags (snap t5), version (snap t0) AND NOT 1 \<noteq> version (snap t6)), d2)"
    and t: "t0 \<le> t1" "t1 \<le> t2" "t2 \<le> t3" "t3 \<le> t4" "t4 \<le> t5" "t5 \<le> t6" "t0 = time d" "t6 < time d2"
    and tsc: "tsc = fst (rdtsc M d1)"
    by (rule read_once_run [OF p])
  have ver: "version (snap t0) AND NOT 1 = version (snap t6)" and eqs: "d2 = d'" "fl = flags (snap t5)"
    "ret = system_time (snap t4) +
        scale_delta (tsc - tsc_timestamp (snap t1)) (tsc_to_system_mul (snap t2)) (sint (tsc_shift (snap t3)))"
    using o r by simp_all
  have mono: "version (snap x) \<le> version (snap y)" if "x \<le> y" for x y using p that by (simp add: hv_protocol_def)
  have same: "version (snap t0) = version (snap t6)"
    using mono [of t0 t6] and_not_1_le [of "version (snap t0)"] ver t by simp
  then have even: "version (snap t0) AND 1 = 0" using ver and_not_1_fix by metis
  have snap: "snap x = snap t0" if "t0 \<le> x" "x \<le> t6" for x
  proof -
    have "version (snap t0) = version (snap x)" using mono [of t0 x] mono [of x t6] that same by simp
    then have "snap t0 = snap x" using p even by (simp add: hv_protocol_def)
    then show ?thesis by simp
  qed
  show ?thesis
    using snap [of t1] snap [of t2] snap [of t3] snap [of t4] snap [of t5] even eqs t tsc
    by (intro exI [of _ t0] exI [of _ d1]) (simp add: cycles_of_def)
qed

definition consistent_read ::
    "('d, 'e) clock_machine_scheme \<Rightarrow> (nat \<Rightarrow> pvclock_vcpu_time_info) \<Rightarrow> ('d \<Rightarrow> nat) \<Rightarrow> 'd \<Rightarrow> u64 \<Rightarrow> u8 \<Rightarrow> 'd \<Rightarrow> bool" where
  "consistent_read M snap time d ret fl d' \<longleftrightarrow>
     (\<exists>t d1. ret = cycles_of (snap t) (fst (rdtsc M d1)) \<and> fl = flags (snap t) \<and> version (snap t) AND 1 = 0 \<and>
        time d \<le> t \<and> t < time d')"

lemma consistent_read_mono:
  "consistent_read M snap time d1 ret fl d' \<Longrightarrow> time d < time d1 \<Longrightarrow> consistent_read M snap time d ret fl d'"
  unfolding consistent_read_def by (elim exE conjE, intro exI conjI, assumption+) simp_all

lemma read_once_ok:
  assumes "hv_protocol M src snap time"
  shows "\<exists>x d'. read_once M src d = Inr (x, d') \<and> time d < time d' \<and>
    (\<forall>ret fl again. x = (ret, fl, again) \<longrightarrow>
      (\<exists>t t'. again = (version (snap t) AND NOT 1 \<noteq> version (snap t')) \<and> time d \<le> t \<and> t \<le> t'))"
proof -
  obtain t0 t1 t2 t3 t4 t5 t6 tsc d1 d2 where
    o: "read_once M src d = Inr ((system_time (snap t4) +
        scale_delta (tsc - tsc_timestamp (snap t1)) (tsc_to_system_mul (snap t2)) (sint (tsc_shift (snap t3))),
        flags (snap t5), version (snap t0) AND NOT 1 \<noteq> version (snap t6)), d2)"
    and t: "t0 \<le> t1" "t1 \<le> t2" "t2 \<le> t3" "t3 \<le> t4" "t4 \<le> t5" "t5 \<le> t6" "t0 = time d" "t6 < time d2"
    by (rule read_once_run [OF assms, of d])
  have "time d < time d2" "time d \<le> t0" "t0 \<le> t6" using t by simp_all
  then show ?thesis unfolding o by (intro exI conjI allI impI) (rule refl, assumption, simp, assumption+)
qed

lemma read_loop_consistent:
  assumes "read_loop M src d = Some r" "hv_protocol M src snap time"
  shows "\<exists>ret fl d'. r = Inr ((ret, fl), d') \<and> consistent_read M snap time d ret fl d'"
proof -
  have "hv_protocol M src snap time \<longrightarrow> (\<exists>ret fl d'. r = Inr ((ret, fl), d') \<and> consistent_read M snap time d ret fl d')"
  proof (rule read_loop.raw_induct [OF _ assms(1), where P = "\<lambda>M src d r. hv_protocol M src snap time \<longrightarrow>
      (\<exists>ret fl d'. r = Inr ((ret, fl), d') \<and> consistent_read M snap time d ret fl d')"], intro impI)
    fix loop and M :: "('a, 'b) clock_machine_scheme" and src d r
    assume IH: "\<And>M src d r. loop M src d = Some r \<Longrightarrow> hv_protocol M src snap time \<longrightarrow>
        (\<exists>ret fl d'. r = Inr ((ret, fl), d') \<and> consistent_read M snap time d ret fl d')"
      and body: "(case read_once M src d of Inl e \<Rightarrow> Some (Inl e)
        | Inr ((ret, fl, again), d) \<Rightarrow> if again then loop M src d else Some (Inr ((ret, fl), d))) = Some r"
      and p: "hv_protocol M src snap time"
    obtain ret fl again d1 where o: "read_once M src d = Inr ((ret, fl, again), d1)" "time d < time d1"
      using read_once_ok [OF p, of d] by (metis prod.collapse)
    show "\<exists>ret fl d'. r = Inr ((ret, fl), d') \<and> consistent_read M snap time d ret fl d'"
    proof (cases again)
      case True
      then have "loop M src d1 = Some r" using body o(1) by simp
      then obtain ret fl d' where "r = Inr ((ret, fl), d')" "consistent_read M snap time d1 ret fl d'"
        using IH p by blast
      then show ?thesis using consistent_read_mono [of M snap time d1 _ _ _ d] o(2) by blast
    next
      case False
      then have "r = Inr ((ret, fl), d1)" using body o(1) by simp
      moreover have "consistent_read M snap time d ret fl d1"
        unfolding consistent_read_def using o(1) False by (intro read_once_consistent [OF p]) simp
      ultimately show ?thesis by blast
    qed
  qed
  then show ?thesis using assms(2) by blast
qed

text \<open>The loop ends when the hypervisor leaves the record alone, with an even version, from some time on.\<close>

lemma read_loop_ends:
  assumes p: "hv_protocol M src snap time" and stable: "\<And>t. n \<le> t \<Longrightarrow> snap t = snap n" "version (snap n) AND 1 = 0"
  shows "\<exists>r. read_loop M src d = Some r"
proof (induction "n - time d" arbitrary: d rule: less_induct)
  case less
  obtain ret fl again d2 t t' where o: "read_once M src d = Inr ((ret, fl, again), d2)" "time d < time d2"
    and t: "again = (version (snap t) AND NOT 1 \<noteq> version (snap t'))" "time d \<le> t" "t \<le> t'"
    using read_once_ok [OF p, of d] by (metis prod.collapse)
  show ?case
  proof (cases "n \<le> time d")
    case True
    then have "snap t = snap n" "snap t' = snap n" using stable(1) [of t] stable(1) [of t'] t(2,3) by simp_all
    then have "\<not> again" using t(1) and_not_1_even [OF stable(2)] by simp
    then show ?thesis using o(1) by (subst read_loop.simps) simp
  next
    case False
    then have "n - time d2 < n - time d" using o(2) by simp
    then obtain r where "read_loop M src d2 = Some r" using less by blast
    then have "read_loop M src d = Some (if again then r else Inr ((ret, fl), d2))"
      using o(1) by (subst read_loop.simps) simp
    then show ?thesis by blast
  qed
qed

text \<open>
  C12: under the protocol of the hypervisor, the clock is never read from a torn record: what the loop returns
  is computed from one record, that of a time between the start and the end of the reading and with an even
  version; and the loop returns if the hypervisor leaves the record alone from some time on.
\<close>

theorem pvclock_read_not_torn:
  assumes "hv_protocol M src snap time"
  shows "(\<forall>r. read_loop M src d = Some r \<longrightarrow>
      (\<exists>ret fl d'. r = Inr ((ret, fl), d') \<and> consistent_read M snap time d ret fl d')) \<and>
    ((\<exists>n. (\<forall>t \<ge> n. snap t = snap n) \<and> version (snap n) AND 1 = 0) \<longrightarrow> (\<exists>r. read_loop M src d = Some r))"
  using read_loop_consistent [OF _ assms] read_loop_ends [OF assms] by blast

text \<open>A hypervisor that is writing until time 3.\<close>

definition snap_sample :: "nat \<Rightarrow> pvclock_vcpu_time_info" where
  "snap_sample t = (if t < 3 then \<lparr>version = 1, tsc_timestamp = 0, system_time = 0, tsc_to_system_mul = 0, tsc_shift = 0, flags = 0\<rparr>
     else \<lparr>version = 2, tsc_timestamp = 50, system_time = 1000, tsc_to_system_mul = 0x80000000, tsc_shift = 1, flags = 1\<rparr>)"

definition clock_sample :: "nat clock_machine" where
  "clock_sample = \<lparr>in8 = (\<lambda>p d. (0, d)), in16 = (\<lambda>p d. (0, d)), in32 = (\<lambda>p d. (0, d)), out8 = (\<lambda>p v d. d),
     out16 = (\<lambda>p v d. d), out32 = (\<lambda>p v d. d), read8 = (\<lambda>p d. (0, d)), read16 = (\<lambda>p d. (0, d)),
     read32 = (\<lambda>p d. (0, d)), read64 = (\<lambda>p d. (0, d)), write8 = (\<lambda>p v d. d), write16 = (\<lambda>p v d. d),
     write32 = (\<lambda>p v d. d), write64 = (\<lambda>p v d. d), puts_con = (\<lambda>t d. d), read_msr = (\<lambda>r d. (0, d)),
     write_msr = (\<lambda>r v d. d), read_cpuid = (\<lambda>l d. ((0, 0, 0, 0), d)), read_cr8 = (\<lambda>d. (0, d)), write_cr8 = (\<lambda>v d. d),
     fetch_info = (\<lambda>src t. (snap_sample t, t + 1)), fetch_wall = (\<lambda>t. (\<lparr>wc_version = 0, wc_sec = 0, wc_nsec = 0\<rparr>, t + 1)),
     rdtsc = (\<lambda>t. (150, t + 1)), smp_id = (\<lambda>t. (0, t)), hv_clock_addr = (\<lambda>i. 0), wall_clock_addr = 0\<rparr>"

lemma clock_sample_protocol: "hv_protocol clock_sample 0 snap_sample (\<lambda>t. t)"
  by (simp add: hv_protocol_def clock_sample_def snap_sample_def)

lemma pvclock_read_not_torn_witness:
  "\<exists>ret fl t'. read_loop clock_sample 0 0 = Some (Inr ((ret, fl), t')) \<and>
     consistent_read clock_sample snap_sample (\<lambda>t. t) 0 ret fl t'"
proof -
  note w = pvclock_read_not_torn [OF clock_sample_protocol, of 0]
  have "snap_sample t = snap_sample 3" if "3 \<le> t" for t using that by (simp add: snap_sample_def)
  moreover have "version (snap_sample 3) AND 1 = 0" by (simp add: snap_sample_def)
  ultimately have "\<exists>n. (\<forall>t \<ge> n. snap_sample t = snap_sample n) \<and> version (snap_sample n) AND 1 = 0" by blast
  then obtain r where "read_loop clock_sample 0 0 = Some r" using w by blast
  with w show ?thesis by blast
qed

text \<open>Alone, a processor moves the global value up to its own, or returns the global value.\<close>

lemma last_loop_alone: "last_loop ret v v = Some (max ret v, max ret v)"
proof (cases "v \<le> ret")
  case True
  have nl: "\<not> ret < v" using True by (rule leD)
  have "last_loop ret v ret = Some (ret, ret)"
    using nl by (subst last_loop.simps) (simp add: last_turn_def atomic64_cmpxchg_def)
  then show ?thesis using True nl
    by (subst last_loop.simps) (auto simp: last_turn_def atomic64_cmpxchg_def max_def)
next
  case False
  then have "ret < v" by (simp add: not_le)
  moreover from this have "max ret v = v" by (simp add: max_absorb2)
  ultimately show ?thesis by (subst last_loop.simps) (simp only: last_turn_def if_True prod.case turn.case)
qed

end
