(* ===== verification/Desc.thy ===== *)
theory Desc
  imports DeviceIO Report
begin

text \<open>
  Interrupts and exceptions, \<open>lib/x86/desc.c\<close> and \<open>lib/x86/desc.h\<close>, with \<open>lib/x86/isr.c\<close> and
  \<open>lib/x86/fault_test.c\<close> on top of them: the interrupt descriptor table, the table of handlers, the
  fixup of instructions listed in the exception table, and tests that expect a fault, in kernel mode or
  through \<open>lib/x86/usermode.c\<close> in user mode.
\<close>

definition KERNEL_CS :: u16 where "KERNEL_CS = 0x08"

record ex_regs =
  rax :: u64
  rcx :: u64
  rdx :: u64
  rbx :: u64
  dummy :: u64
  rbp :: u64
  rsi :: u64
  rdi :: u64
  r8 :: u64
  r9 :: u64
  r10 :: u64
  r11 :: u64
  r12 :: u64
  r13 :: u64
  r14 :: u64
  r15 :: u64
  vector :: u64
  error_code :: u64
  rip :: u64
  cs :: u64
  rflags :: u64

text \<open>The bit fields of the last half-word, and the two unnamed ones, are words of their own.\<close>

record idt_entry =
  offset0 :: u16
  selector :: u16
  ist :: u16
  gate_type :: u16
  dpl :: u16
  p :: u16
  offset1 :: u16
  offset2 :: u32
  reserved :: u32

definition zero_gate :: idt_entry where
  "zero_gate = \<lparr>offset0 = 0, selector = 0, ist = 0, gate_type = 0, dpl = 0, p = 0, offset1 = 0, offset2 = 0, reserved = 0\<rparr>"

text \<open>
  The functions stored in \<open>exception_handlers\<close>: the two of \<open>desc.c\<close>, the ones of \<open>fault_test.c\<close> and
  \<open>usermode.c\<close>, and others, which are a parameter.
\<close>

datatype 'h handler = Check_exception_table | Exception_handler | Fault_test_fault | Restore_exec | User_handler 'h

text \<open>
  The variables of \<open>desc.c\<close> and the hardware; \<open>gs_ex\<close> is the word at \<open>gs:4\<close>, \<open>jmp_set\<close> whether
  \<open>exception_jmpbuf\<close> points at a buffer, and \<open>ist1\<close> the field of the task segment.
\<close>

record ('h, 'd) desc_state =
  boot_idt :: "nat \<Rightarrow> idt_entry"
  exception_handlers :: "nat \<Rightarrow> 'h handler option"
  idt_initialized :: bool
  exception_flag :: bool
  jmp_set :: bool
  gs_ex :: u32
  ist1 :: u64
  desc_hw :: 'd

section \<open>The descriptor table\<close>

definition set_idt_entry :: "u16 \<Rightarrow> nat \<Rightarrow> u64 \<Rightarrow> u16 \<Rightarrow> ('h, 'd) desc_state \<Rightarrow> err + ('h, 'd) desc_state" where
  "set_idt_entry read_cs vec addr dpl' s =
     (if vec < 256 then
        let e = zero_gate\<lparr>offset0 := ucast addr, selector := read_cs, ist := 0, gate_type := 14, dpl := dpl' AND mask 2,
                  p := 1, offset1 := ucast (drop_bit 16 addr), offset2 := ucast (drop_bit 32 addr)\<rparr>
        in Inr (s\<lparr>boot_idt := (boot_idt s)(vec := e)\<rparr>)
      else Inl Out_of_bounds)"

definition set_idt_dpl :: "nat \<Rightarrow> u16 \<Rightarrow> ('h, 'd) desc_state \<Rightarrow> err + ('h, 'd) desc_state" where
  "set_idt_dpl vec dpl' s =
     (if vec < 256 then Inr (s\<lparr>boot_idt := (boot_idt s)(vec := (boot_idt s vec)\<lparr>dpl := dpl' AND mask 2\<rparr>)\<rparr>)
      else Inl Out_of_bounds)"

definition set_idt_sel :: "nat \<Rightarrow> u16 \<Rightarrow> ('h, 'd) desc_state \<Rightarrow> err + ('h, 'd) desc_state" where
  "set_idt_sel vec sel s =
     (if vec < 256 then Inr (s\<lparr>boot_idt := (boot_idt s)(vec := (boot_idt s vec)\<lparr>selector := sel\<rparr>)\<rparr>)
      else Inl Out_of_bounds)"

text \<open>The address a gate leads to, as \<open>handle_external_interrupt\<close> puts it together.\<close>

definition gate_entry :: "idt_entry \<Rightarrow> u64" where
  "gate_entry idt = ucast (offset0 idt) OR push_bit 16 (ucast (offset1 idt)) OR push_bit 32 (ucast (offset2 idt))"

definition set_intr_alt_stack :: "u16 \<Rightarrow> nat \<Rightarrow> u64 \<Rightarrow> ('h, 'd) desc_state \<Rightarrow> err + ('h, 'd) desc_state" where
  "set_intr_alt_stack read_cs e addr s =
     bindE (set_idt_entry read_cs e addr 0 s) (\<lambda>s.
     Inr (s\<lparr>boot_idt := (boot_idt s)(e := (boot_idt s e)\<lparr>ist := 1\<rparr>)\<rparr>))"

definition setup_alt_stack :: "u64 \<Rightarrow> ('h, 'd) desc_state \<Rightarrow> ('h, 'd) desc_state" where
  "setup_alt_stack intr_alt_stack s = s\<lparr>ist1 := intr_alt_stack + 4096\<rparr>"

section \<open>Handlers\<close>

definition exception_mnemonic :: "u64 \<Rightarrow> string" where
  "exception_mnemonic v =
     (if v = 0 then ''#DE'' else if v = 1 then ''#DB'' else if v = 2 then ''#NMI'' else if v = 3 then ''#BP''
      else if v = 4 then ''#OF'' else if v = 5 then ''#BR'' else if v = 6 then ''#UD'' else if v = 7 then ''#NM''
      else if v = 8 then ''#DF'' else if v = 10 then ''#TS'' else if v = 11 then ''#NP'' else if v = 12 then ''#SS''
      else if v = 13 then ''#GP'' else if v = 14 then ''#PF'' else if v = 16 then ''#MF'' else if v = 17 then ''#AC''
      else if v = 18 then ''#MC'' else if v = 19 then ''#XM'' else ''#??'')"

text \<open>It prints the registers, and ends the program.\<close>

definition unhandled_exception :: "ex_regs \<Rightarrow> bool \<Rightarrow> ('h, 'd) desc_state \<Rightarrow> err + (ex_regs \<times> ('h, 'd) desc_state)" where
  "unhandled_exception regs cpu s = Inl Aborted"

text \<open>The old handler is read before the number is checked.\<close>

definition handle_exception ::
    "u8 \<Rightarrow> 'h handler option \<Rightarrow> ('h, 'd) desc_state \<Rightarrow> err + ('h handler option \<times> ('h, 'd) desc_state)" where
  "handle_exception v fn s =
     (if unat v < 32 then
        Inr (exception_handlers s (unat v), s\<lparr>exception_handlers := (exception_handlers s)(unat v := fn)\<rparr>)
      else Inl Out_of_bounds)"

definition ex_val_of :: "ex_regs \<Rightarrow> u32" where
  "ex_val_of regs = ucast (vector regs OR push_bit 16 (error_code regs) OR push_bit 8 (drop_bit 16 (rflags regs) AND 1))"

primrec find_fixup :: "(u64 \<times> u64) list \<Rightarrow> u64 \<Rightarrow> u64 option" where
  "find_fixup [] a = None"
| "find_fixup (ex # exs) a = (if fst ex = a then Some (snd ex) else find_fixup exs a)"

definition check_exception_table ::
    "(u64 \<times> u64) list \<Rightarrow> ex_regs \<Rightarrow> ('h, 'd) desc_state \<Rightarrow> err + (ex_regs \<times> ('h, 'd) desc_state)" where
  "check_exception_table exception_table regs s =
     (let s = s\<lparr>gs_ex := ex_val_of regs\<rparr>
      in case find_fixup exception_table (rip regs) of
           Some h \<Rightarrow> Inr (regs\<lparr>rip := h\<rparr>, s)
         | None \<Rightarrow> unhandled_exception regs False s)"

text \<open>
  The program around the handlers: its exception table, the addresses of the three functions that jump to a
  saved context and of the label \<open>ret_to_kernel\<close>, the selector of the code segment, and the handlers of the tests.
\<close>

record ('h, 'd) image =
  exception_table :: "(u64 \<times> u64) list"
  longjmp_addr :: u64
  fault_longjmp_addr :: u64
  user_longjmp_addr :: u64
  ret_to_kernel :: u64
  read_cs :: u16
  run_user :: "'h \<Rightarrow> ex_regs \<Rightarrow> 'd \<Rightarrow> err + (ex_regs \<times> 'd)"

definition exception_handler ::
    "('h, 'd) image \<Rightarrow> ex_regs \<Rightarrow> ('h, 'd) desc_state \<Rightarrow> err + (ex_regs \<times> ('h, 'd) desc_state)" where
  "exception_handler I regs s =
     Inr (regs\<lparr>rip := longjmp_addr I, cs := ucast (read_cs I)\<rparr>, s\<lparr>exception_flag := True\<rparr>)"

definition fault_test_fault ::
    "('h, 'd) image \<Rightarrow> ex_regs \<Rightarrow> ('h, 'd) desc_state \<Rightarrow> err + (ex_regs \<times> ('h, 'd) desc_state)" where
  "fault_test_fault I regs s = Inr (regs\<lparr>rip := fault_longjmp_addr I\<rparr>, s)"

definition restore_exec_handler ::
    "('h, 'd) image \<Rightarrow> ex_regs \<Rightarrow> ('h, 'd) desc_state \<Rightarrow> err + (ex_regs \<times> ('h, 'd) desc_state)" where
  "restore_exec_handler I regs s = Inr (regs\<lparr>rip := user_longjmp_addr I, cs := ucast KERNEL_CS\<rparr>, s)"

definition run_handler ::
    "('h, 'd) image \<Rightarrow> 'h handler \<Rightarrow> ex_regs \<Rightarrow> ('h, 'd) desc_state \<Rightarrow> err + (ex_regs \<times> ('h, 'd) desc_state)" where
  "run_handler I h regs s =
     (case h of
        Check_exception_table \<Rightarrow> check_exception_table (exception_table I) regs s
      | Exception_handler \<Rightarrow> exception_handler I regs s
      | Fault_test_fault \<Rightarrow> fault_test_fault I regs s
      | Restore_exec \<Rightarrow> restore_exec_handler I regs s
      | User_handler u \<Rightarrow> bindE (run_user I u regs (desc_hw s)) (\<lambda>(regs, d). Inr (regs, s\<lparr>desc_hw := d\<rparr>)))"

definition do_handle_exception ::
    "('h, 'd) image \<Rightarrow> ex_regs \<Rightarrow> ('h, 'd) desc_state \<Rightarrow> err + (ex_regs \<times> ('h, 'd) desc_state)" where
  "do_handle_exception I regs s =
     (if vector regs < 32 then
        case exception_handlers s (unat (vector regs)) of
          Some h \<Rightarrow> run_handler I h regs s
        | None \<Rightarrow> unhandled_exception regs True s
      else unhandled_exception regs True s)"

definition exception_vector :: "('h, 'd) desc_state \<Rightarrow> u8" where
  "exception_vector s = ucast (gs_ex s)"

definition exception_error_code :: "('h, 'd) desc_state \<Rightarrow> u16" where
  "exception_error_code s = ucast (drop_bit 16 (gs_ex s))"

definition exception_rflags_rf :: "('h, 'd) desc_state \<Rightarrow> bool" where
  "exception_rflags_rf s \<longleftrightarrow> (ucast (drop_bit 8 (gs_ex s)) :: u8) AND 1 \<noteq> 0"

text \<open>The entry points of \<open>idt_handlers\<close> are given by their addresses; there is none for 9, 15 and 20 to 31.\<close>

primrec setup_idt_loop :: "('h, 'd) image \<Rightarrow> (nat \<Rightarrow> u64 option) \<Rightarrow> nat list \<Rightarrow> ('h, 'd) desc_state \<Rightarrow> err + ('h, 'd) desc_state" where
  "setup_idt_loop I idt_handlers [] s = Inr s"
| "setup_idt_loop I idt_handlers (i # is) s =
     (case idt_handlers i of
        None \<Rightarrow> setup_idt_loop I idt_handlers is s
      | Some a \<Rightarrow> bindE (set_idt_entry (read_cs I) i a 0 s) (setup_idt_loop I idt_handlers is))"

definition setup_idt :: "('h, 'd) image \<Rightarrow> (nat \<Rightarrow> u64 option) \<Rightarrow> ('h, 'd) desc_state \<Rightarrow> err + ('h, 'd) desc_state" where
  "setup_idt I idt_handlers s =
     (if idt_initialized s then Inr s
      else
        bindE (setup_idt_loop I idt_handlers [0..<32] (s\<lparr>idt_initialized := True\<rparr>)) (\<lambda>s.
        bindE (handle_exception 0 (Some Check_exception_table) s) (\<lambda>(_, s).
        bindE (handle_exception 6 (Some Check_exception_table) s) (\<lambda>(_, s).
        bindE (handle_exception 13 (Some Check_exception_table) s) (\<lambda>(_, s). Inr s)))))"

section \<open>Code that may fault\<close>

text \<open>
  A piece of code: it ends with a result, or it faults, and what it does next depends on the registers
  the handler leaves and on the state.
\<close>

datatype ('r, 's) code = Done 'r 's | Fault ex_regs 's "ex_regs \<times> 's \<Rightarrow> ('r, 's) code"

text \<open>
  Running it: after a handler the processor goes on at its \<open>rip\<close>; at the address of a function that jumps
  to a saved context, that context is resumed, which is the result \<open>None\<close>.
\<close>

primrec run_code ::
    "('h, 'd) image \<Rightarrow> u64 \<Rightarrow> ('r, ('h, 'd) desc_state) code \<Rightarrow> err + ('r option \<times> ('h, 'd) desc_state)" where
  "run_code I jmp (Done r s) = Inr (Some r, s)"
| "run_code I jmp (Fault regs s k) =
     (case do_handle_exception I regs s of
        Inl e \<Rightarrow> Inl e
      | Inr (regs, s) \<Rightarrow> if rip regs = jmp then Inr (None, s) else run_code I jmp (k (regs, s)))"

definition set_exception_jmpbuf :: "('h, 'd) desc_state \<Rightarrow> ('h, 'd) desc_state" where
  "set_exception_jmpbuf s = s\<lparr>jmp_set := True\<rparr>"

text \<open>The parameter of \<open>handle_exception\<close> is of type \<open>u8\<close>, so the vector is cut to a byte.\<close>

definition test_for_exception ::
    "('h, 'd) image \<Rightarrow> u32 \<Rightarrow> (('h, 'd) desc_state \<Rightarrow> (unit, ('h, 'd) desc_state) code) \<Rightarrow> ('h, 'd) desc_state \<Rightarrow>
     err + (bool \<times> ('h, 'd) desc_state)" where
  "test_for_exception I ex trigger_func s =
     bindE (handle_exception (ucast ex) (Some Exception_handler) s) (\<lambda>(old, s).
     let s = set_exception_jmpbuf s
     in bindE (run_code I (longjmp_addr I) (trigger_func s)) (\<lambda>(r, s).
        bindE (handle_exception (ucast ex) old s) (\<lambda>(_, s). Inr (r = None, s))))"

section \<open>Interrupt handlers\<close>

text \<open>Storing bytes one after the other, and a 32-bit word least significant byte first.\<close>

fun store_bytes :: "u64 \<Rightarrow> u8 list \<Rightarrow> (u64 \<Rightarrow> u8) \<Rightarrow> (u64 \<Rightarrow> u8)" where
  "store_bytes a [] m = m"
| "store_bytes a (b # bs) m = store_bytes (a + 1) bs (m(a := b))"

definition le32 :: "u64 \<Rightarrow> u8 list" where
  "le32 w = map (\<lambda>i. ucast (drop_bit (8 * i) w)) [0..<4]"

text \<open>
  The thunk: room for the address of the function on the stack, the two halves of the address, and a
  jump relative to the end of the thunk.
\<close>

definition thunk_bytes :: "u64 \<Rightarrow> u64 \<Rightarrow> u64 \<Rightarrow> u8 list" where
  "thunk_bytes thunk func isr_entry_point =
     [0x48, 0x83, 0xec, 0x08] @ [0xc7, 0x04, 0x24] @ le32 func @ [0xc7, 0x44, 0x24, 0x04] @ le32 (drop_bit 32 func) @
     [0xe9] @ le32 (isr_entry_point - (thunk + 24))"

definition handle_irq ::
    "u16 \<Rightarrow> u64 \<Rightarrow> u64 \<Rightarrow> nat \<Rightarrow> u64 \<Rightarrow> (u64 \<Rightarrow> u8) \<Rightarrow> ('h, 'd) desc_state \<Rightarrow> err + ((u64 \<Rightarrow> u8) \<times> ('h, 'd) desc_state)" where
  "handle_irq code_sel thunk isr_entry_point vec func m s =
     bindE (set_idt_entry code_sel vec thunk 0 s) (\<lambda>s. Inr (store_bytes thunk (thunk_bytes thunk func isr_entry_point) m, s))"

section \<open>Tests that expect a fault\<close>

text \<open>
  Code run at privilege level 3; the assembly that switches to user mode, calls the function with its
  arguments and comes back through the gate of \<open>RET_TO_KERNEL_IRQ\<close> is part of the piece of code.
\<close>

definition RET_TO_KERNEL_IRQ :: nat where "RET_TO_KERNEL_IRQ = 0x20"

definition run_in_user ::
    "('h, 'd) image \<Rightarrow> (('h, 'd) desc_state \<Rightarrow> (u64, ('h, 'd) desc_state) code) \<Rightarrow> u32 \<Rightarrow> ('h, 'd) desc_state \<Rightarrow>
     err + ((u64 \<times> bool) \<times> ('h, 'd) desc_state)" where
  "run_in_user I func fault_vector s =
     bindE (set_idt_entry (read_cs I) RET_TO_KERNEL_IRQ (ret_to_kernel I) 3 s) (\<lambda>s.
     bindE (handle_exception (ucast fault_vector) (Some Restore_exec) s) (\<lambda>(_, s).
     bindE (run_code I (user_longjmp_addr I) (func s)) (\<lambda>(r, s).
     Inr (case r of None \<Rightarrow> (0, True) | Some v \<Rightarrow> (v, False), s))))"

record ('h, 'd) fault_test_arg =
  usermode :: bool
  fault_vector :: u32
  should_fault :: bool
  retval :: u64
  func :: "('h, 'd) desc_state \<Rightarrow> (u64, ('h, 'd) desc_state) code"
  callback :: "(u64 \<Rightarrow> ('h, 'd) desc_state \<Rightarrow> bool \<times> ('h, 'd) desc_state) option"

text \<open>
  The arguments of the function are part of it. The result is whether the test passed, with the value that
  is stored in \<open>retval\<close>.
\<close>

definition fault_test ::
    "('h, 'd) image \<Rightarrow> ('h, 'd) fault_test_arg \<Rightarrow> ('h, 'd) desc_state \<Rightarrow>
     err + (bool \<times> ('h, 'd) fault_test_arg \<times> ('h, 'd) desc_state)" where
  "fault_test I arg s =
     bindE (if usermode arg then run_in_user I (func arg) (fault_vector arg) s
            else bindE (handle_exception (ucast (fault_vector arg)) (Some Fault_test_fault) s) (\<lambda>(_, s).
                 bindE (run_code I (fault_longjmp_addr I) (func arg s)) (\<lambda>(r, s).
                 Inr (case r of None \<Rightarrow> (0, True) | Some val \<Rightarrow> (val, False), s)))) (\<lambda>((val, raised_vector), s).
     let (callback_success, arg, s) =
           (if raised_vector then (True, arg, s)
            else
              let arg = arg\<lparr>retval := val\<rparr>
              in case callback arg of
                   None \<Rightarrow> (True, arg, s)
                 | Some f \<Rightarrow> let (b, s) = f val s in (b, arg, s))
     in Inr (if should_fault arg then raised_vector else \<not> raised_vector \<and> callback_success, arg, s))"

definition test_run ::
    "('h, 'd) image \<Rightarrow> string \<Rightarrow> ('h, 'd) fault_test_arg \<Rightarrow> ('h, 'd) desc_state \<Rightarrow> report_state \<Rightarrow>
     err + (('h, 'd) fault_test_arg \<times> ('h, 'd) desc_state \<times> report_state)" where
  "test_run I test_name arg s rep =
     bindE (fault_test I arg s) (\<lambda>(passed, arg, s).
     bindE (report ''%s'' passed [Str test_name] rep) (\<lambda>rep. Inr (arg, s, rep)))"

section \<open>Gates and thunks\<close>

lemma gate_entry_bits: "bit (gate_entry e) i \<longleftrightarrow>
    (if i < 16 then bit (offset0 e) i else if i < 32 then bit (offset1 e) (i - 16) else i < 64 \<and> bit (offset2 e) (i - 32))"
  using bit_imp_le_length [of "offset0 e" i] bit_imp_le_length [of "offset1 e" "i - 16"] bit_imp_le_length [of "offset2 e" "i - 32"]
  by (auto simp: gate_entry_def bit_simps)

text \<open>The gate leads to the address it was set to, in the code segment given.\<close>

lemma set_idt_entry_gate:
  assumes "vec < 256" "set_idt_entry c vec addr d s = Inr s'"
  shows "gate_entry (boot_idt s' vec) = addr" "selector (boot_idt s' vec) = c" "ist (boot_idt s' vec) = 0"
    "exception_handlers s' = exception_handlers s" "i \<noteq> vec \<Longrightarrow> boot_idt s' i = boot_idt s i"
proof -
  have s': "s' = s\<lparr>boot_idt := (boot_idt s)(vec := zero_gate\<lparr>offset0 := ucast addr, selector := c, ist := 0, gate_type := 14,
      dpl := d AND mask 2, p := 1, offset1 := ucast (drop_bit 16 addr), offset2 := ucast (drop_bit 32 addr)\<rparr>)\<rparr>"
    using assms by (simp add: set_idt_entry_def)
  show "gate_entry (boot_idt s' vec) = addr"
    by (rule bit_word_eqI) (auto simp: s' gate_entry_bits bit_simps)
  show "selector (boot_idt s' vec) = c" "ist (boot_idt s' vec) = 0" "exception_handlers s' = exception_handlers s"
    "i \<noteq> vec \<Longrightarrow> boot_idt s' i = boot_idt s i" by (simp_all add: s')
qed

lemma store_bytes_other: "(\<And>i. i < length bs \<Longrightarrow> b \<noteq> a + of_nat i) \<Longrightarrow> store_bytes a bs m b = m b"
proof (induction bs arbitrary: a m)
  case (Cons x bs)
  have "b \<noteq> a + 1 + of_nat i" if "i < length bs" for i
    using Cons.prems [of "Suc i"] that by (simp add: add.assoc)
  then have "store_bytes (a + 1) bs (m(a := x)) b = (m(a := x)) b" by (rule Cons.IH)
  then show ?case using Cons.prems [of 0] by simp
qed simp

lemma store_bytes_nth:
  "\<lbrakk>i < length bs; length bs < 2 ^ 64\<rbrakk> \<Longrightarrow> store_bytes a bs m (a + of_nat i) = bs ! i"
proof (induction bs arbitrary: a m i)
  case (Cons x bs)
  show ?case
  proof (cases i)
    case 0
    have "a \<noteq> a + 1 + of_nat j" if "j < length bs" for j
    proof
      assume "a = a + 1 + of_nat j"
      then have "(of_nat (Suc j) :: u64) = of_nat 0" by (simp add: add.assoc)
      then show False using of_nat_eq_64 [of "Suc j" 0] that Cons.prems by simp
    qed
    then have "store_bytes (a + 1) bs (m(a := x)) a = (m(a := x)) a" by (rule store_bytes_other)
    then show ?thesis using 0 by simp
  next
    case (Suc j)
    have "store_bytes (a + 1) bs (m(a := x)) (a + 1 + of_nat j) = bs ! j"
      using Cons.prems Suc by (intro Cons.IH) simp_all
    then show ?thesis using Suc by (simp add: add.assoc)
  qed
qed simp

text \<open>A 32-bit word of the thunk as the processor reads it.\<close>

definition load32 :: "(u64 \<Rightarrow> u8) \<Rightarrow> u64 \<Rightarrow> u32" where
  "load32 m a = ucast (m a) OR push_bit 8 (ucast (m (a + 1))) OR push_bit 16 (ucast (m (a + 2))) OR push_bit 24 (ucast (m (a + 3)))"

lemma le32_load:
  assumes "m a = le32 w ! 0" "m (a + 1) = le32 w ! 1" "m (a + 2) = le32 w ! 2" "m (a + 3) = le32 w ! 3"
  shows "load32 m a = ucast w"
proof -
  have b: "le32 w ! 0 = ucast w" "le32 w ! 1 = ucast (drop_bit 8 w)" "le32 w ! 2 = ucast (drop_bit 16 w)"
    "le32 w ! 3 = ucast (drop_bit 24 w)" by (simp_all add: le32_def)
  show ?thesis
  proof (rule bit_word_eqI)
    fix n :: nat
    assume "n < LENGTH(32)"
    then consider "n < 8" | "8 \<le> n" "n < 16" | "16 \<le> n" "n < 24" | "24 \<le> n" "n < 32" by fastforce
    then show "bit (load32 m a) n = bit (ucast w :: u32) n"
      unfolding load32_def assms b by cases (auto simp: bit_simps)
  qed
qed

lemma thunk_nth:
  "\<lbrakk>i < 24\<rbrakk> \<Longrightarrow> store_bytes t (thunk_bytes t f e) m (t + of_nat i) = thunk_bytes t f e ! i"
  by (rule store_bytes_nth) (simp_all add: thunk_bytes_def le32_def)

lemma scast_displacement:
  assumes "sint (d :: u64) \<in> {- (2 ^ 31)..<2 ^ 31}"
  shows "scast (ucast d :: u32) = d"
proof -
  have "take_bit 32 (sint d) = take_bit 32 (uint d)" by (simp add: sint_uint take_bit_signed_take_bit)
  then have e: "(ucast d :: u32) = word_of_int (sint d)"
    unfolding ucast_eq word_of_int_eq_iff len_words by (rule sym)
  have "LENGTH(32) - 1 = (31 :: nat)" by simp
  then have "sint (ucast d :: u32) = signed_take_bit 31 (sint d)" unfolding e sint_sbintrunc' by (rule arg_cong)
  also have "\<dots> = sint d" using assms by (intro signed_take_bit_int_eq_self) (simp_all only: atLeastLessThan_iff)
  finally have s: "sint (ucast d :: u32) = sint d" .
  show ?thesis unfolding scast_eq [of "ucast d :: u32"] s by simp
qed

text \<open>A gate to write, for the examples.\<close>

definition desc_sample :: "(unit, unit) desc_state" where
  "desc_sample = \<lparr>boot_idt = (\<lambda>_. zero_gate), exception_handlers = (\<lambda>_. None), idt_initialized = False,
     exception_flag = False, jmp_set = False, gs_ex = 0, ist1 = 0, desc_hw = ()\<rparr>"


section \<open>Exceptions\<close>

text \<open>The word at \<open>gs:4\<close> is read back as vector, error code and resume flag.\<close>

lemma ex_val_fields:
  assumes "vector regs < 256" "gs_ex s = ex_val_of regs"
  shows "exception_vector s = ucast (vector regs)" "exception_error_code s = ucast (error_code regs)"
    "exception_rflags_rf s \<longleftrightarrow> bit (rflags regs) 16"
proof -
  have v: "\<not> bit (vector regs) n" if "8 \<le> n" for n
  proof
    assume b: "bit (vector regs) n"
    then have "bit (unat (vector regs)) n" by (simp add: bit_unsigned_iff)
    then have "2 ^ n \<le> unat (vector regs)" by (rule bit_imp_pow_le)
    moreover have "(2 :: nat) ^ 8 \<le> 2 ^ n" using that by (rule power_increasing) simp
    moreover have "unat (vector regs) < 256" using assms(1) by (simp add: word_less_nat_alt)
    ultimately show False by simp
  qed
  show "exception_vector s = ucast (vector regs)"
    by (rule bit_word_eqI) (auto simp: exception_vector_def assms(2) ex_val_of_def bit_simps)
  have m: "bit (256 :: int) n \<longleftrightarrow> n = 8" for n
    using bit_exp_iff [of 8 n, where 'a = int] by simp
  show "exception_error_code s = ucast (error_code regs)"
    using v m by (intro bit_word_eqI) (auto simp: exception_error_code_def assms(2) ex_val_of_def bit_simps)
  have "exception_rflags_rf s \<longleftrightarrow> bit (gs_ex s) 8"
  proof -
    have "(ucast (drop_bit 8 (gs_ex s)) :: u8) AND 1 \<noteq> 0 \<longleftrightarrow> bit (ucast (drop_bit 8 (gs_ex s)) :: u8) 0"
      unfolding bit_0 and_one_eq even_iff_mod_2_eq_zero by simp
    then show ?thesis by (simp add: exception_rflags_rf_def bit_simps)
  qed
  also have "\<dots> \<longleftrightarrow> bit (rflags regs) 16" using v [of 8] by (auto simp: assms(2) ex_val_of_def bit_simps)
  finally show "exception_rflags_rf s \<longleftrightarrow> bit (rflags regs) 16" .
qed
lemma setup_idt_loop_run:
  "(\<And>i. i \<in> set is \<Longrightarrow> i < 256) \<Longrightarrow>
   \<exists>s'. setup_idt_loop I h is s = Inr s' \<and> exception_handlers s' = exception_handlers s"
proof (induction "is" arbitrary: s)
  case (Cons i "is")
  have small: "i < 256" "\<And>j. j \<in> set is \<Longrightarrow> j < 256" using Cons.prems by simp_all
  show ?case
  proof (cases "h i")
    case None
    then show ?thesis using Cons.IH [OF small(2)] by simp
  next
    case (Some a)
    obtain s1 where s1: "set_idt_entry (read_cs I) i a 0 s = Inr s1" using small(1) by (simp add: set_idt_entry_def)
    then have "exception_handlers s1 = exception_handlers s" using set_idt_entry_gate(4) [OF small(1)] by blast
    then show ?thesis using Cons.IH [OF small(2), of s1] Some s1 by simp
  qed
qed simp

lemma setup_idt_run:
  assumes "\<not> idt_initialized s"
  obtains s1 where "setup_idt I h s = Inr s1" "exception_handlers s1 = (exception_handlers s)
    (0 := Some Check_exception_table, 6 := Some Check_exception_table, 13 := Some Check_exception_table)"
proof -
  obtain s1 where s1: "setup_idt_loop I h [0..<32] (s\<lparr>idt_initialized := True\<rparr>) = Inr s1"
    "exception_handlers s1 = exception_handlers s"
    using setup_idt_loop_run [of "[0..<32]" I h "s\<lparr>idt_initialized := True\<rparr>"] by auto
  show thesis
    by (rule that [of "s1\<lparr>exception_handlers := (exception_handlers s1)
        (0 := Some Check_exception_table, 6 := Some Check_exception_table, 13 := Some Check_exception_table)\<rparr>"])
      (use assms s1 in \<open>simp_all add: setup_idt_def handle_exception_def\<close>)
qed

text \<open>
  after \<open>setup_idt\<close> a divide error, an invalid opcode or a general protection fault at an instruction of
  the exception table goes on at the first fixup listed for it, and the vector, the error code and the
  resume flag are then read back at \<open>gs:4\<close>; at any other instruction it ends the program.
\<close>

theorem setup_idt_fixups:
  assumes "\<not> idt_initialized s" "vector regs \<in> {0, 6, 13}"
  shows "\<exists>s1 s2. setup_idt I h s = Inr s1 \<and> exception_vector s2 = ucast (vector regs) \<and>
    exception_error_code s2 = ucast (error_code regs) \<and> (exception_rflags_rf s2 \<longleftrightarrow> bit (rflags regs) 16) \<and>
    do_handle_exception I regs s1 =
      (case find_fixup (exception_table I) (rip regs) of
         Some a \<Rightarrow> Inr (regs\<lparr>rip := a\<rparr>, s2) | None \<Rightarrow> Inl Aborted)"
proof -
  obtain s1 where s1: "setup_idt I h s = Inr s1" "exception_handlers s1 = (exception_handlers s)
    (0 := Some Check_exception_table, 6 := Some Check_exception_table, 13 := Some Check_exception_table)"
    by (rule setup_idt_run [OF assms(1), of I h]) blast
  have v: "vector regs < 256" "vector regs < 32" using assms(2) by auto
  have "exception_handlers s1 (unat (vector regs)) = Some Check_exception_table" using assms(2) s1(2) by auto
  then have "do_handle_exception I regs s1 = check_exception_table (exception_table I) regs s1"
    using v(2) by (simp add: do_handle_exception_def run_handler_def)
  moreover have "check_exception_table (exception_table I) regs s1 = (case find_fixup (exception_table I) (rip regs) of
      Some a \<Rightarrow> Inr (regs\<lparr>rip := a\<rparr>, s1\<lparr>gs_ex := ex_val_of regs\<rparr>) | None \<Rightarrow> Inl Aborted)"
    by (simp add: check_exception_table_def unhandled_exception_def Let_def cong: option.case_cong)
  moreover have "gs_ex (s1\<lparr>gs_ex := ex_val_of regs\<rparr>) = ex_val_of regs" by simp
  ultimately show ?thesis
    using s1(1) ex_val_fields [OF v(1)] by metis
qed

definition image_sample :: "(unit, unit) image" where
  "image_sample = \<lparr>exception_table = [(0x1000, 0x2000), (0x1010, 0x2010)], longjmp_addr = 0x9000,
     fault_longjmp_addr = 0x9100, user_longjmp_addr = 0x9200, ret_to_kernel = 0x9300, read_cs = 8, run_user = (\<lambda>_ regs d. Inr (regs, d))\<rparr>"

definition regs_sample :: ex_regs where
  "regs_sample = \<lparr>rax = 0, rcx = 0, rdx = 0, rbx = 0, dummy = 0, rbp = 0, rsi = 0, rdi = 0, r8 = 0, r9 = 0, r10 = 0,
     r11 = 0, r12 = 0, r13 = 0, r14 = 0, r15 = 0, vector = 13, error_code = 0x18, rip = 0x1010, cs = 8, rflags = 0x10002\<rparr>"

lemma setup_idt_fixups_witness:
  "\<exists>s1 s2. setup_idt image_sample (\<lambda>_. None) desc_sample = Inr s1 \<and>
     do_handle_exception image_sample regs_sample s1 = Inr (regs_sample\<lparr>rip := 0x2010\<rparr>, s2) \<and>
     exception_vector s2 = 13 \<and> exception_error_code s2 = 0x18"
proof -
  have "\<not> idt_initialized desc_sample" "vector regs_sample \<in> {0, 6, 13}" by (simp_all add: desc_sample_def regs_sample_def)
  from setup_idt_fixups [OF this, of image_sample "\<lambda>_. None"] show ?thesis
    by (auto simp: image_sample_def regs_sample_def)
qed

section \<open>Testing for exceptions\<close>

text \<open>
  what \<open>test_for_exception\<close> says of a trigger that leaves the handlers alone: false when it ends without a
  fault, true when its first fault has the vector asked for, and then the handlers are those of before;
  a first fault of a vector without a handler ends the program.
\<close>

theorem test_for_exception_verdict:
  assumes "unat ex < 32"
    and "s0 = s\<lparr>exception_handlers := (exception_handlers s)(unat ex := Some Exception_handler), jmp_set := True\<rparr>"
    and "case trigger_func s0 of Done _ s1 \<Rightarrow> exception_handlers s1 = exception_handlers s0
      | Fault regs s1 _ \<Rightarrow> exception_handlers s1 = exception_handlers s0 \<and>
          (vector regs = ucast ex \<or> 32 \<le> vector regs \<or> exception_handlers s (unat (vector regs)) = None)"
  shows "case trigger_func s0 of
      Done _ s1 \<Rightarrow> \<exists>s2. test_for_exception I ex trigger_func s = Inr (False, s2) \<and> exception_handlers s2 = exception_handlers s
    | Fault regs s1 _ \<Rightarrow>
        if vector regs = ucast ex
        then \<exists>s2. test_for_exception I ex trigger_func s = Inr (True, s2) \<and>
          exception_handlers s2 = exception_handlers s \<and> exception_flag s2
        else test_for_exception I ex trigger_func s = Inl Aborted"
proof -
  have u: "unat (ucast ex :: u64) = unat ex"
  proof -
    have "unat ex < 2 ^ 64" using assms(1) by simp
    then show ?thesis by (simp only: unsigned_ucast_eq len_words take_bit_nat_eq_self)
  qed
  have lt: "(ucast ex :: u64) < 32" using assms(1) u by (simp add: word_less_nat_alt)
  have c: "unat (ucast ex :: u8) = unat ex"
  proof -
    have "unat ex < 2 ^ 8" using assms(1) by simp
    then show ?thesis by (simp only: unsigned_ucast_eq len_words take_bit_nat_eq_self)
  qed
  have run: "test_for_exception I ex trigger_func s =
      bindE (run_code I (longjmp_addr I) (trigger_func s0)) (\<lambda>(r, s1).
        Inr (r = None, s1\<lparr>exception_handlers := (exception_handlers s1)(unat ex := exception_handlers s (unat ex))\<rparr>))"
    using assms(1) c by (simp add: test_for_exception_def handle_exception_def set_exception_jmpbuf_def assms(2) case_prod_beta')
  show ?thesis
  proof (cases "trigger_func s0")
    case (Done r s1)
    then show ?thesis using assms(3) by (simp add: run assms(2))
  next
    case (Fault regs s1 k)
    have h: "exception_handlers s1 = (exception_handlers s)(unat ex := Some Exception_handler)"
      using assms(2,3) Fault by simp
    show ?thesis
    proof (cases "vector regs = ucast ex")
      case True
      then have "do_handle_exception I regs s1 = exception_handler I regs s1"
        using lt u by (simp add: do_handle_exception_def h run_handler_def)
      then show ?thesis using Fault True by (simp add: run exception_handler_def h)
    next
      case False
      then have "unat (vector regs) \<noteq> unat ex" using u by (metis unsigned_word_eqI)
      moreover have "32 \<le> vector regs \<or> exception_handlers s (unat (vector regs)) = None" using assms(3) Fault False by simp
      ultimately have "do_handle_exception I regs s1 = Inl Aborted"
        by (auto simp: do_handle_exception_def h unhandled_exception_def)
      then show ?thesis using Fault False by (simp add: run)
    qed
  qed
qed

lemma test_for_exception_verdict_witness:
  "\<exists>s2. test_for_exception image_sample 13 (\<lambda>s. Fault regs_sample s (\<lambda>(_, s). Done () s)) desc_sample = Inr (True, s2) \<and>
     exception_handlers s2 = exception_handlers desc_sample"
  using test_for_exception_verdict [of 13 _ desc_sample "\<lambda>s. Fault regs_sample s (\<lambda>(_, s). Done () s)" image_sample, OF _ refl]
  by (auto simp: regs_sample_def)
text \<open>A first fault of a vector that has a handler runs that handler.\<close>

lemma run_code_fault:
  assumes "unat v < 32" "vector regs = ucast (v :: u32)" "exception_handlers s (unat v) = Some h"
  shows "do_handle_exception I regs s = run_handler I h regs s"
proof -
  have "unat v < 2 ^ 64" using assms(1) by simp
  then have u: "unat (ucast v :: u64) = unat v" by (simp only: unsigned_ucast_eq len_words take_bit_nat_eq_self)
  then show ?thesis using assms by (simp add: do_handle_exception_def word_less_nat_alt)
qed

lemma unat_ucast_vector: "unat (v :: u32) < 32 \<Longrightarrow> unat (ucast v :: u8) = unat v"
proof -
  assume "unat v < 32"
  then have "unat v < 2 ^ 8" by simp
  then show ?thesis by (simp only: unsigned_ucast_eq len_words take_bit_nat_eq_self)
qed

text \<open>
  \<open>fault_test\<close>, in kernel and in user mode, with a function that leaves the handlers alone: when its
  first fault has the vector of the test, the test passes just if a fault was expected; when it returns,
  the value is stored in \<open>retval\<close> and the test passes just if none was expected and the callback, when
  there is one, agrees.
\<close>

theorem fault_test_verdict:
  assumes "unat (fault_vector arg) < 32"
    and "\<And>s0. case func arg s0 of
        Done v s1 \<Rightarrow> True
      | Fault regs s1 _ \<Rightarrow> exception_handlers s1 = exception_handlers s0 \<and> vector regs = ucast (fault_vector arg)"
  shows "\<exists>s0. exception_handlers s0 = (exception_handlers s)
      (unat (fault_vector arg) := Some (if usermode arg then Restore_exec else Fault_test_fault)) \<and>
    (case func arg s0 of
       Fault regs s1 _ \<Rightarrow> fault_test I arg s = Inr (should_fault arg, arg, s1)
     | Done v s1 \<Rightarrow> \<exists>passed s2. fault_test I arg s = Inr (passed, arg\<lparr>retval := v\<rparr>, s2) \<and>
         passed = (\<not> should_fault arg \<and> (case callback arg of None \<Rightarrow> True | Some f \<Rightarrow> fst (f v s1))))"
proof (cases "usermode arg")
  case False
  let ?s0 = "s\<lparr>exception_handlers := (exception_handlers s)(unat (fault_vector arg) := Some Fault_test_fault)\<rparr>"
  have run: "handle_exception (ucast (fault_vector arg)) (Some Fault_test_fault) s =
      Inr (exception_handlers s (unat (fault_vector arg)), ?s0)"
    using assms(1) by (simp add: handle_exception_def unat_ucast_vector)
  show ?thesis
  proof (cases "func arg ?s0")
    case (Done v s1)
    then show ?thesis using False run
      by (intro exI [of _ ?s0]) (auto simp: fault_test_def Let_def split: option.splits prod.splits)
  next
    case (Fault regs s1 k)
    then have h: "exception_handlers s1 = exception_handlers ?s0" "vector regs = ucast (fault_vector arg)"
      using assms(2) [of ?s0] by simp_all
    then have "do_handle_exception I regs s1 = fault_test_fault I regs s1"
      using run_code_fault [OF assms(1) h(2), of s1 Fault_test_fault I] by (simp add: run_handler_def)
    then show ?thesis using False run Fault
      by (intro exI [of _ ?s0]) (simp add: fault_test_def fault_test_fault_def Let_def)
  qed
next
  case True
  obtain s' where s': "set_idt_entry (read_cs I) RET_TO_KERNEL_IRQ (ret_to_kernel I) 3 s = Inr s'"
    by (simp add: set_idt_entry_def RET_TO_KERNEL_IRQ_def)
  have e: "exception_handlers s' = exception_handlers s"
    by (rule set_idt_entry_gate(4) [OF _ s']) (simp add: RET_TO_KERNEL_IRQ_def)
  let ?s0 = "s'\<lparr>exception_handlers := (exception_handlers s)(unat (fault_vector arg) := Some Restore_exec)\<rparr>"
  have run: "handle_exception (ucast (fault_vector arg)) (Some Restore_exec) s' =
      Inr (exception_handlers s (unat (fault_vector arg)), ?s0)"
    using assms(1) by (simp add: handle_exception_def unat_ucast_vector e)
  show ?thesis
  proof (cases "func arg ?s0")
    case (Done v s1)
    then show ?thesis using True run s'
      by (intro exI [of _ ?s0]) (auto simp: fault_test_def run_in_user_def Let_def split: option.splits prod.splits)
  next
    case (Fault regs s1 k)
    then have h: "exception_handlers s1 = exception_handlers ?s0" "vector regs = ucast (fault_vector arg)"
      using assms(2) [of ?s0] by simp_all
    then have "do_handle_exception I regs s1 = restore_exec_handler I regs s1"
      using run_code_fault [OF assms(1) h(2), of s1 Restore_exec I] by (simp add: run_handler_def)
    then show ?thesis using True run s' Fault
      by (intro exI [of _ ?s0]) (simp add: fault_test_def run_in_user_def restore_exec_handler_def Let_def)
  qed
qed

definition fault_arg_sample :: "(unit, unit) fault_test_arg" where
  "fault_arg_sample = \<lparr>usermode = True, fault_vector = 13, should_fault = True, retval = 0,
     func = (\<lambda>s. Fault regs_sample s (\<lambda>(_, s). Done 0 s)), callback = None\<rparr>"

lemma fault_test_verdict_witness:
  "\<exists>s1. fault_test image_sample fault_arg_sample desc_sample = Inr (True, fault_arg_sample, s1)"
  using fault_test_verdict [of fault_arg_sample desc_sample image_sample]
  by (auto simp: fault_arg_sample_def regs_sample_def)
end
