(* ===== verification/Smp.thy ===== *)
theory Smp
  imports DeviceIO "HOL-Library.Multiset"
begin

text \<open>
  Calls of functions on other processors, \<open>lib/x86/smp.c\<close> and \<open>lib/x86/fwcfg.c\<close>: the processors share the
  lock and the variables of \<open>smp.c\<close>, each statement of \<open>__on_cpu\<close> and of the handler \<open>ipi\<close> is a step of its
  own, and the steps of the processors interleave in any order.
\<close>

section \<open>State\<close>

text \<open>A function given to \<open>on_cpu\<close>: the one of \<open>smp.c\<close>, or another, which only its call is recorded of.\<close>

datatype 'f ipi_fn = Setup_smp_id | User_fn 'f

text \<open>The parameters of \<open>__on_cpu\<close>.\<close>

datatype 'f ipi_call = Call (call_cpu: nat) (call_fn: "'f ipi_fn") (call_data: u64) (call_wait: bool)

text \<open>
  Where a processor is in \<open>__on_cpu\<close>: the statement it executes next, with the parameters. \<open>Out\<close> is
  outside.
\<close>

datatype 'f on_cpu_pc =
    Out
  | At_lock "'f ipi_call"
  | At_test "'f ipi_call"
  | At_clear "'f ipi_call"
  | At_fn "'f ipi_call"
  | At_data "'f ipi_call"
  | At_wait "'f ipi_call"
  | At_send "'f ipi_call"
  | At_poll "'f ipi_call"
  | At_unlock "'f ipi_call"

text \<open>What runs around the calls: nothing, the loop of \<open>on_cpus\<close>, or the loop of \<open>smp_init\<close>.\<close>

datatype 'f caller = Direct | On_cpus nat "'f ipi_fn" u64 | Smp_init nat

text \<open>Where a processor is in the handler, with the local variables read so far.\<close>

datatype 'f ipi_pc =
    No_ipi
  | Read_fn
  | Read_data "'f ipi_fn"
  | Read_wait "'f ipi_fn" u64
  | Ack "'f ipi_fn" u64
  | Ack_eoi "'f ipi_fn" u64
  | Run "'f ipi_fn" u64 bool
  | Dec bool
  | Fin
  | Fin_eoi
  | Iret

text \<open>
  The variables of \<open>smp.c\<close>, then by processor the number at \<open>gs:0\<close>, whether the vector is requested and in
  service in its local APIC, and where its program is.
\<close>

record 'f smp =
  ipi_lock :: bool
  ipi_function :: "'f ipi_fn"
  ipi_data :: u64
  ipi_done :: bool
  ipi_wait :: bool
  active_cpus :: u32
  gs_id :: "nat \<Rightarrow> nat"
  irr :: "nat \<Rightarrow> bool"
  in_service :: "nat \<Rightarrow> bool"
  pc :: "nat \<Rightarrow> 'f on_cpu_pc"
  caller :: "nat \<Rightarrow> 'f caller"
  frame :: "nat \<Rightarrow> 'f ipi_pc"

datatype 'f smp_event =
    Issue nat "'f ipi_call"
  | Ran nat "'f ipi_fn" u64
  | Ret nat "'f ipi_call"
  | Issue_all nat "'f ipi_fn" u64
  | Ret_all nat "'f ipi_fn" u64
  | Init_done

section \<open>Steps\<close>

text \<open>Calling the function on a processor; \<open>apic_id\<close> of a processor is its number here.\<close>

definition call_fn_on :: "nat \<Rightarrow> 'f ipi_fn \<Rightarrow> 'f smp \<Rightarrow> 'f smp" where
  "call_fn_on k f s = (case f of Setup_smp_id \<Rightarrow> s\<lparr>gs_id := (gs_id s)(k := k)\<rparr> | User_fn _ \<Rightarrow> s)"

abbreviation goto :: "nat \<Rightarrow> 'f on_cpu_pc \<Rightarrow> 'f smp \<Rightarrow> 'f smp" where
  "goto k p s \<equiv> s\<lparr>pc := (pc s)(k := p)\<rparr>"

abbreviation iframe :: "nat \<Rightarrow> 'f ipi_pc \<Rightarrow> 'f smp \<Rightarrow> 'f smp" where
  "iframe k p s \<equiv> s\<lparr>frame := (frame s)(k := p)\<rparr>"

abbreviation within :: "nat \<Rightarrow> 'f caller \<Rightarrow> 'f smp \<Rightarrow> 'f smp" where
  "within k c s \<equiv> s\<lparr>caller := (caller s)(k := c)\<rparr>"

text \<open>
  The statements of \<open>__on_cpu\<close>. A step that would only find the lock taken, or \<open>ipi_done\<close> still 0,
  changes nothing and is left out (\<open>None\<close>).
\<close>

fun on_cpu_step :: "nat \<Rightarrow> 'f on_cpu_pc \<Rightarrow> 'f smp \<Rightarrow> ('f smp_event list \<times> 'f smp) option" where
  "on_cpu_step k Out s = None"
| "on_cpu_step k (At_lock c) s = (if ipi_lock s then None else Some ([], goto k (At_test c) (s\<lparr>ipi_lock := True\<rparr>)))"
| "on_cpu_step k (At_test c) s =
     (if call_cpu c = gs_id s k
      then Some ([Ran k (call_fn c) (call_data c)], goto k (At_unlock c) (call_fn_on k (call_fn c) s))
      else Some ([], goto k (At_clear c) (s\<lparr>active_cpus := active_cpus s + 1\<rparr>)))"
| "on_cpu_step k (At_clear c) s = Some ([], goto k (At_fn c) (s\<lparr>ipi_done := False\<rparr>))"
| "on_cpu_step k (At_fn c) s = Some ([], goto k (At_data c) (s\<lparr>ipi_function := call_fn c\<rparr>))"
| "on_cpu_step k (At_data c) s = Some ([], goto k (At_wait c) (s\<lparr>ipi_data := call_data c\<rparr>))"
| "on_cpu_step k (At_wait c) s = Some ([], goto k (At_send c) (s\<lparr>ipi_wait := call_wait c\<rparr>))"
| "on_cpu_step k (At_send c) s = Some ([], goto k (At_poll c) (s\<lparr>irr := (irr s)(call_cpu c := True)\<rparr>))"
| "on_cpu_step k (At_poll c) s = (if ipi_done s then Some ([], goto k (At_unlock c) s) else None)"
| "on_cpu_step k (At_unlock c) s = Some ([Ret k c], goto k Out (s\<lparr>ipi_lock := False\<rparr>))"

definition cpus_active :: "'f smp \<Rightarrow> u32" where
  "cpus_active s = active_cpus s"

definition on_cpu :: "nat \<Rightarrow> nat \<Rightarrow> 'f ipi_fn \<Rightarrow> u64 \<Rightarrow> 'f smp \<Rightarrow> 'f smp_event list \<times> 'f smp" where
  "on_cpu k cpu f d s = ([Issue k (Call cpu f d True)], goto k (At_lock (Call cpu f d True)) s)"

definition on_cpu_async :: "nat \<Rightarrow> nat \<Rightarrow> 'f ipi_fn \<Rightarrow> u64 \<Rightarrow> 'f smp \<Rightarrow> 'f smp_event list \<times> 'f smp" where
  "on_cpu_async k cpu f d s = ([Issue k (Call cpu f d False)], goto k (At_lock (Call cpu f d False)) s)"

text \<open>The loops of \<open>on_cpus\<close>, of which the second waits while more than one processor is active.\<close>

definition on_cpus_step :: "nat \<Rightarrow> nat \<Rightarrow> 'f ipi_fn \<Rightarrow> u64 \<Rightarrow> 'f smp \<Rightarrow> ('f smp_event list \<times> 'f smp) option" where
  "on_cpus_step k n f d s =
     (if n \<noteq> 0 then Some (on_cpu_async k (n - 1) f d (within k (On_cpus (n - 1) f d) s))
      else if 1 <s cpus_active s then None
      else Some ([Ret_all k f d], within k Direct s))"

definition on_cpus :: "nat \<Rightarrow> nat \<Rightarrow> 'f ipi_fn \<Rightarrow> u64 \<Rightarrow> 'f smp \<Rightarrow> 'f smp_event list \<times> 'f smp" where
  "on_cpus N k f d s = ([Issue_all k f d], within k (On_cpus N f d) s)"

definition smp_init_step :: "nat \<Rightarrow> nat \<Rightarrow> nat \<Rightarrow> 'f smp \<Rightarrow> 'f smp_event list \<times> 'f smp" where
  "smp_init_step N k i s =
     (if i < N then on_cpu k i Setup_smp_id 0 (within k (Smp_init (i + 1)) s)
      else ([Init_done], within k Direct (s\<lparr>active_cpus := active_cpus s + 1\<rparr>)))"

definition main_step :: "nat \<Rightarrow> nat \<Rightarrow> 'f smp \<Rightarrow> ('f smp_event list \<times> 'f smp) option" where
  "main_step N k s =
     (case pc s k of
        Out \<Rightarrow>
          (case caller s k of
             Direct \<Rightarrow> None
           | On_cpus n f d \<Rightarrow> on_cpus_step k n f d s
           | Smp_init i \<Rightarrow> Some (smp_init_step N k i s))
      | p \<Rightarrow> on_cpu_step k p s)"

text \<open>The handler, from the delivery of the interrupt to the return from it.\<close>

fun ipi_step :: "nat \<Rightarrow> 'f ipi_pc \<Rightarrow> 'f smp \<Rightarrow> ('f smp_event list \<times> 'f smp) option" where
  "ipi_step k No_ipi s =
     (if irr s k \<and> \<not> in_service s k
      then Some ([], iframe k Read_fn (s\<lparr>irr := (irr s)(k := False), in_service := (in_service s)(k := True)\<rparr>))
      else None)"
| "ipi_step k Read_fn s = Some ([], iframe k (Read_data (ipi_function s)) s)"
| "ipi_step k (Read_data f) s = Some ([], iframe k (Read_wait f (ipi_data s)) s)"
| "ipi_step k (Read_wait f d) s = Some ([], iframe k (if ipi_wait s then Run f d True else Ack f d) s)"
| "ipi_step k (Ack f d) s = Some ([], iframe k (Ack_eoi f d) (s\<lparr>ipi_done := True\<rparr>))"
| "ipi_step k (Ack_eoi f d) s = Some ([], iframe k (Run f d False) (s\<lparr>in_service := (in_service s)(k := False)\<rparr>))"
| "ipi_step k (Run f d w) s = Some ([Ran k f d], iframe k (Dec w) (call_fn_on k f s))"
| "ipi_step k (Dec w) s = Some ([], iframe k (if w then Fin else Iret) (s\<lparr>active_cpus := active_cpus s - 1\<rparr>))"
| "ipi_step k Fin s = Some ([], iframe k Fin_eoi (s\<lparr>ipi_done := True\<rparr>))"
| "ipi_step k Fin_eoi s = Some ([], iframe k Iret (s\<lparr>in_service := (in_service s)(k := False)\<rparr>))"
| "ipi_step k Iret s = Some ([], iframe k No_ipi s)"

text \<open>
  The start of \<open>smp_init\<close>: processor 0 has set its own number, the others wait for interrupts.
\<close>

definition smp_start :: "nat \<Rightarrow> 'f smp \<Rightarrow> bool" where
  "smp_start N s \<longleftrightarrow> \<not> ipi_lock s \<and> active_cpus s = 0 \<and> gs_id s 0 = 0 \<and>
     (\<forall>k. \<not> irr s k \<and> \<not> in_service s k \<and> pc s k = Out \<and> frame s k = No_ipi \<and>
        caller s k = (if k = 0 then Smp_init 1 else Direct))"

definition init_over :: "'f smp \<Rightarrow> bool" where
  "init_over s \<longleftrightarrow> (case caller s 0 of Smp_init _ \<Rightarrow> False | _ \<Rightarrow> True)"

text \<open>
  A step of one of \<open>N\<close> processors, with what happens: while a handler is active the rest of its processor
  waits, and interrupts are enabled outside the handler. After \<open>smp_init\<close> any processor can call.
\<close>

inductive smp_step :: "nat \<Rightarrow> 'f smp \<Rightarrow> 'f smp_event list \<Rightarrow> 'f smp \<Rightarrow> bool" for N where
  handler: "\<lbrakk>k < N; ipi_step k (frame s k) s = Some (es, s')\<rbrakk> \<Longrightarrow> smp_step N s es s'"
| main: "\<lbrakk>k < N; frame s k = No_ipi; main_step N k s = Some (es, s')\<rbrakk> \<Longrightarrow> smp_step N s es s'"
| sync: "\<lbrakk>init_over s; k < N; frame s k = No_ipi; pc s k = Out; caller s k = Direct; cpu < N;
    on_cpu k cpu f d s = (es, s')\<rbrakk> \<Longrightarrow> smp_step N s es s'"
| async: "\<lbrakk>init_over s; k < N; frame s k = No_ipi; pc s k = Out; caller s k = Direct; cpu < N;
    on_cpu_async k cpu f d s = (es, s')\<rbrakk> \<Longrightarrow> smp_step N s es s'"
| all: "\<lbrakk>init_over s; k < N; frame s k = No_ipi; pc s k = Out; caller s k = Direct;
    on_cpus N k f d s = (es, s')\<rbrakk> \<Longrightarrow> smp_step N s es s'"

text \<open>The interleavings, with the events in the order they happen.\<close>

inductive smp_run :: "nat \<Rightarrow> 'f smp \<Rightarrow> 'f smp_event list \<Rightarrow> 'f smp \<Rightarrow> bool" for N s0 where
  start: "smp_run N s0 [] s0"
| step: "\<lbrakk>smp_run N s0 tr s; smp_step N s es s'\<rbrakk> \<Longrightarrow> smp_run N s0 (tr @ es) s'"

text \<open>The steps of a handler or of a call that has begun.\<close>

definition ongoing :: "nat \<Rightarrow> 'f smp \<Rightarrow> 'f smp \<Rightarrow> bool" where
  "ongoing N s s' \<longleftrightarrow> (\<exists>k < N. \<exists>es. ipi_step k (frame s k) s = Some (es, s') \<or>
     frame s k = No_ipi \<and> main_step N k s = Some (es, s'))"

definition idle :: "nat \<Rightarrow> 'f smp \<Rightarrow> bool" where
  "idle N s \<longleftrightarrow> (\<forall>k < N. pc s k = Out \<and> caller s k = Direct \<and> frame s k = No_ipi)"

section \<open>The lock and the variables it protects\<close>

fun holding :: "'f on_cpu_pc \<Rightarrow> bool" where
  "holding Out \<longleftrightarrow> False"
| "holding (At_lock c) \<longleftrightarrow> False"
| "holding p \<longleftrightarrow> True"

fun pc_call :: "'f on_cpu_pc \<Rightarrow> 'f ipi_call option" where
  "pc_call Out = None"
| "pc_call (At_lock c) = Some c"
| "pc_call (At_test c) = Some c"
| "pc_call (At_clear c) = Some c"
| "pc_call (At_fn c) = Some c"
| "pc_call (At_data c) = Some c"
| "pc_call (At_wait c) = Some c"
| "pc_call (At_send c) = Some c"
| "pc_call (At_poll c) = Some c"
| "pc_call (At_unlock c) = Some c"

text \<open>The handler before it sets \<open>ipi_done\<close>, and before the end of the interrupt.\<close>

fun early :: "'f ipi_pc \<Rightarrow> bool" where
  "early No_ipi \<longleftrightarrow> False"
| "early (Ack_eoi f d) \<longleftrightarrow> False"
| "early (Run f d w) \<longleftrightarrow> w"
| "early (Dec w) \<longleftrightarrow> w"
| "early Fin_eoi \<longleftrightarrow> False"
| "early Iret \<longleftrightarrow> False"
| "early fr \<longleftrightarrow> True"

fun serving :: "'f ipi_pc \<Rightarrow> bool" where
  "serving (Ack_eoi f d) \<longleftrightarrow> True"
| "serving Fin_eoi \<longleftrightarrow> True"
| "serving fr \<longleftrightarrow> early fr"

text \<open>What the handler has read so far belongs to the call.\<close>

fun agrees :: "'f ipi_call \<Rightarrow> 'f ipi_pc \<Rightarrow> bool" where
  "agrees c (Read_data f) \<longleftrightarrow> f = call_fn c"
| "agrees c (Read_wait f d) \<longleftrightarrow> f = call_fn c \<and> d = call_data c"
| "agrees c (Ack f d) \<longleftrightarrow> f = call_fn c \<and> d = call_data c \<and> \<not> call_wait c"
| "agrees c (Run f d w) \<longleftrightarrow> (w \<longrightarrow> f = call_fn c \<and> d = call_data c \<and> call_wait c)"
| "agrees c (Dec w) \<longleftrightarrow> (w \<longrightarrow> call_wait c)"
| "agrees c Fin \<longleftrightarrow> call_wait c"
| "agrees c fr \<longleftrightarrow> True"

definition quiet_at :: "'f smp \<Rightarrow> nat \<Rightarrow> bool" where
  "quiet_at s j \<longleftrightarrow> \<not> irr s j \<and> \<not> early (frame s j)"

definition quiet :: "'f smp \<Rightarrow> bool" where
  "quiet s \<longleftrightarrow> (\<forall>j. quiet_at s j)"

text \<open>
  What the variables are while a processor holds the lock: until it sends the interrupt no processor has
  one to answer, and from then on until \<open>ipi_done\<close> only the target has, requested or in its handler.
\<close>

definition polled :: "'f smp \<Rightarrow> 'f ipi_call \<Rightarrow> bool" where
  "polled s c \<longleftrightarrow> (\<forall>j. j \<noteq> call_cpu c \<longrightarrow> quiet_at s j) \<and>
     (irr s (call_cpu c) \<longleftrightarrow> \<not> early (frame s (call_cpu c))) \<and> agrees c (frame s (call_cpu c))"

fun holder_ok :: "'f smp \<Rightarrow> nat \<Rightarrow> 'f on_cpu_pc \<Rightarrow> bool" where
  "holder_ok s h (At_test c) \<longleftrightarrow> quiet s"
| "holder_ok s h (At_clear c) \<longleftrightarrow> quiet s \<and> call_cpu c \<noteq> h"
| "holder_ok s h (At_fn c) \<longleftrightarrow> quiet s \<and> call_cpu c \<noteq> h \<and> \<not> ipi_done s"
| "holder_ok s h (At_data c) \<longleftrightarrow> quiet s \<and> call_cpu c \<noteq> h \<and> \<not> ipi_done s \<and> ipi_function s = call_fn c"
| "holder_ok s h (At_wait c) \<longleftrightarrow> quiet s \<and> call_cpu c \<noteq> h \<and> \<not> ipi_done s \<and> ipi_function s = call_fn c \<and>
     ipi_data s = call_data c"
| "holder_ok s h (At_send c) \<longleftrightarrow> quiet s \<and> call_cpu c \<noteq> h \<and> \<not> ipi_done s \<and> ipi_function s = call_fn c \<and>
     ipi_data s = call_data c \<and> ipi_wait s = call_wait c"
| "holder_ok s h (At_poll c) \<longleftrightarrow> call_cpu c \<noteq> h \<and> ipi_function s = call_fn c \<and> ipi_data s = call_data c \<and>
     ipi_wait s = call_wait c \<and> (if ipi_done s then quiet s else polled s c)"
| "holder_ok s h (At_unlock c) \<longleftrightarrow> quiet s"
| "holder_ok s h p \<longleftrightarrow> False"

definition lock_ok :: "'f smp \<Rightarrow> bool" where
  "lock_ok s \<longleftrightarrow>
     (if ipi_lock s then \<exists>h. holder_ok s h (pc s h) \<and> (\<forall>k. holding (pc s k) \<longrightarrow> k = h)
      else quiet s \<and> (\<forall>k. \<not> holding (pc s k)))"

definition cpus_ok :: "nat \<Rightarrow> 'f smp \<Rightarrow> bool" where
  "cpus_ok N s \<longleftrightarrow> (\<forall>j. in_service s j \<longleftrightarrow> serving (frame s j)) \<and> (\<forall>j. irr s j \<or> frame s j \<noteq> No_ipi \<longrightarrow> j < N) \<and>
     (\<forall>k c. pc_call (pc s k) = Some c \<longrightarrow> k < N \<and> gs_id s k = k \<and> call_cpu c < N)"

lemma holder_okD: "holder_ok s h p \<Longrightarrow> holding p"
  by (cases p) auto

lemma lock_ok_holder:
  "\<lbrakk>lock_ok s; holding (pc s k)\<rbrakk> \<Longrightarrow> ipi_lock s \<and> holder_ok s k (pc s k) \<and> (\<forall>k'. holding (pc s k') \<longrightarrow> k' = k)"
  by (auto simp: lock_ok_def split: if_splits dest: holder_okD)

lemma lock_okI:
  "\<lbrakk>ipi_lock s; holder_ok s h (pc s h); \<And>k. holding (pc s k) \<Longrightarrow> k = h\<rbrakk> \<Longrightarrow> lock_ok s"
  by (auto simp: lock_ok_def)

lemma call_fn_on_fields [simp]:
  "ipi_lock (call_fn_on k f s) = ipi_lock s" "ipi_function (call_fn_on k f s) = ipi_function s"
  "ipi_data (call_fn_on k f s) = ipi_data s" "ipi_done (call_fn_on k f s) = ipi_done s"
  "ipi_wait (call_fn_on k f s) = ipi_wait s" "active_cpus (call_fn_on k f s) = active_cpus s"
  "irr (call_fn_on k f s) = irr s" "in_service (call_fn_on k f s) = in_service s" "pc (call_fn_on k f s) = pc s"
  "caller (call_fn_on k f s) = caller s" "frame (call_fn_on k f s) = frame s"
  "gs_id (call_fn_on k f s) = (if f = Setup_smp_id then (gs_id s)(k := k) else gs_id s)"
  by (simp_all add: call_fn_on_def split: ipi_fn.splits)

lemma late_agrees: "\<not> early fr \<Longrightarrow> agrees c fr"
  by (cases fr) auto

text \<open>The handler of a processor leaves the invariant alone, whether it answers the holder or not.\<close>

lemma handler_lock:
  assumes "lock_ok s" "ipi_step k (frame s k) s = Some (es, s')" "\<forall>j. in_service s j \<longleftrightarrow> serving (frame s j)"
  shows "lock_ok s'"
proof (cases "quiet_at s k")
  case True
  have c: "quiet_at s' k" "\<And>j. j \<noteq> k \<Longrightarrow> quiet_at s' j = quiet_at s j" "ipi_lock s' = ipi_lock s" "pc s' = pc s"
    "ipi_function s' = ipi_function s" "ipi_data s' = ipi_data s" "ipi_wait s' = ipi_wait s" "ipi_done s' = ipi_done s"
    using assms(2) True by (cases "frame s k"; auto simp: quiet_at_def split: if_splits)+
  have q: "quiet s' = quiet s" unfolding quiet_def using c(1,2) True by metis
  have "polled s' c" if "polled s c" for c
    using that c(1,2) True assms(2) by (cases "frame s k"; auto simp: polled_def quiet_at_def split: if_splits)
  then have "holder_ok s' h p" if "holder_ok s h p" for h p using that q c by (cases p) auto
  then show ?thesis using assms(1) c(3,4) q unfolding lock_ok_def by metis
next
  case False
  then have "\<not> quiet s" by (auto simp: quiet_def)
  then obtain h where h: "ipi_lock s" "holder_ok s h (pc s h)" "\<forall>k. holding (pc s k) \<longrightarrow> k = h"
    using assms(1) by (auto simp: lock_ok_def split: if_splits)
  obtain c where c: "pc s h = At_poll c" "\<not> ipi_done s" "polled s c"
    using h(2) \<open>\<not> quiet s\<close> by (cases "pc s h") (auto split: if_splits)
  have k: "call_cpu c = k" using c(3) False unfolding polled_def by metis
  have "ipi_lock s' \<and> holder_ok s' h (pc s' h) \<and> pc s' = pc s"
    using assms(2,3) h c k
    by (cases "frame s k") (auto simp: polled_def quiet_def quiet_at_def split: if_splits)
  then show ?thesis using h(3) by (intro lock_okI [of s' h]) auto
qed

lemma on_cpu_step_lock:
  assumes "lock_ok s" "on_cpu_step k (pc s k) s = Some (es, s')" "gs_id s k = k"
  shows "lock_ok s'"
proof (cases "holding (pc s k)")
  case True
  have l: "ipi_lock s" and h: "holder_ok s k (pc s k)" and u: "\<And>k'. holding (pc s k') \<Longrightarrow> k' = k"
    using lock_ok_holder [OF assms(1) True] by blast+
  show ?thesis
  proof (cases "\<exists>c. pc s k = At_unlock c")
    case True
    then obtain c where "pc s k = At_unlock c" ..
    then have "s' = goto k Out (s\<lparr>ipi_lock := False\<rparr>)" "quiet s" using assms(2) h by simp_all
    then show ?thesis using u unfolding lock_ok_def by (auto simp: quiet_def quiet_at_def)
  next
    case False
    have f: "frame s' = frame s" "ipi_lock s'"
      using assms(2) l True False by (cases "pc s k"; simp split: if_splits; fastforce)+
    have p: "\<exists>q. pc s' = (pc s)(k := q)"
      using assms(2) True False by (cases "pc s k") (simp_all split: if_splits, auto)
    have "holder_ok s' k (pc s' k)"
    proof (cases "\<exists>c. pc s k = At_send c")
      case True
      then obtain c where c: "pc s k = At_send c" ..
      then have "quiet s" and s': "s' = goto k (At_poll c) (s\<lparr>irr := (irr s)(call_cpu c := True)\<rparr>)"
        using h assms(2) by simp_all
      then have "polled s' c" by (auto simp: polled_def quiet_def quiet_at_def late_agrees)
      then show ?thesis using h c by (simp add: s')
    next
      case False
      then have i: "irr s' = irr s"
        using assms(2) True \<open>\<nexists>c. pc s k = At_unlock c\<close> by (cases "pc s k") (simp_all split: if_splits, auto)
      have q: "quiet s' = quiet s" by (simp add: quiet_def quiet_at_def i f)
      show ?thesis
        using assms(2,3) h True False q \<open>\<nexists>c. pc s k = At_unlock c\<close>
        by (cases "pc s k") (simp_all split: if_splits, auto)
    qed
    then show ?thesis using f(2) p u by (intro lock_okI [of s' k]) (auto split: if_splits)
  qed
next
  case False
  then obtain c where "pc s k = At_lock c" using assms(2) by (cases "pc s k") auto
  then have s': "\<not> ipi_lock s" "s' = goto k (At_test c) (s\<lparr>ipi_lock := True\<rparr>)" using assms(2) by (simp_all split: if_splits)
  have "quiet s" "\<And>k'. \<not> holding (pc s k')" using assms(1) s'(1) by (simp_all add: lock_ok_def)
  then show ?thesis unfolding s'(2) by (intro lock_okI [of _ k]) (auto simp: quiet_def quiet_at_def split: if_splits)
qed

text \<open>Outside \<open>__on_cpu\<close> the lock is not touched.\<close>

lemma lock_ok_outside:
  assumes "lock_ok s" "ipi_lock s' = ipi_lock s" "ipi_function s' = ipi_function s" "ipi_data s' = ipi_data s"
    "ipi_wait s' = ipi_wait s" "ipi_done s' = ipi_done s" "irr s' = irr s" "frame s' = frame s"
    "pc s' = (pc s)(k := p)" "\<not> holding (pc s k)" "\<not> holding p"
  shows "lock_ok s'"
proof -
  have q: "quiet_at s' = quiet_at s" "quiet s' = quiet s" "polled s' = polled s"
    by (simp_all add: fun_eq_iff quiet_at_def quiet_def polled_def assms)
  have h: "holding (pc s' j) = holding (pc s j)" for j using assms by simp
  have "holder_ok s' j r = holder_ok s j r" for j r by (cases r) (simp_all add: q assms)
  moreover have "holder_ok s j (pc s' j) \<longleftrightarrow> holder_ok s j (pc s j)" for j
    using assms by (auto dest: holder_okD)
  ultimately show ?thesis using assms(1,2) q h unfolding lock_ok_def by metis
qed

section \<open>The processors\<close>

lemma on_cpu_step_others:
  assumes "on_cpu_step k p s = Some (es, s')"
  shows "frame s' = frame s" "in_service s' = in_service s" "caller s' = caller s" "pc s' = (pc s)(k := pc s' k)"
    "gs_id s' = gs_id s \<or> gs_id s' = (gs_id s)(k := k)"
  using assms by (cases p; simp split: if_splits; force)+

lemma on_cpu_step_call:
  assumes "on_cpu_step k p s = Some (es, s')"
  shows "pc_call p = Some c \<Longrightarrow> pc_call (pc s' k) = Some c \<and> p \<noteq> At_unlock c \<or> pc s' k = Out \<and> p = At_unlock c \<and> es = [Ret k c]"
    "pc_call p \<noteq> None"
  using assms by (cases p; simp split: if_splits; force)+

lemma on_cpu_step_irr:
  "\<lbrakk>on_cpu_step k p s = Some (es, s'); irr s' j\<rbrakk> \<Longrightarrow> irr s j \<or> (\<exists>c. pc_call p = Some c \<and> call_cpu c = j)"
  by (cases p) (auto split: if_splits)

lemma on_cpu_step_events:
  assumes "on_cpu_step k p s = Some (es, s')"
  shows "es = [] \<or> (\<exists>c. p = At_unlock c \<and> es = [Ret k c]) \<or>
    (\<exists>c. p = At_test c \<and> call_cpu c = gs_id s k \<and> pc s' k = At_unlock c \<and> es = [Ran k (call_fn c) (call_data c)] \<and>
       (call_fn c = Setup_smp_id \<longrightarrow> gs_id s' k = k))"
  using assms by (cases p; simp split: if_splits; force)

lemma ipi_step_others:
  assumes "ipi_step k fr s = Some (es, s')"
  shows "pc s' = pc s" "caller s' = caller s" "ipi_lock s' = ipi_lock s" "ipi_function s' = ipi_function s"
    "ipi_data s' = ipi_data s" "ipi_wait s' = ipi_wait s" "frame s' = (frame s)(k := frame s' k)"
    "in_service s' = (in_service s)(k := in_service s' k)" "irr s' = (if fr = No_ipi then (irr s)(k := False) else irr s)"
    "gs_id s' = gs_id s \<or> gs_id s' = (gs_id s)(k := k)"
  using assms by (cases fr; simp split: if_splits; force)+

lemma ipi_step_events:
  assumes "ipi_step k fr s = Some (es, s')"
  shows "es = [] \<or> (\<exists>f d w. fr = Run f d w \<and> frame s' k = Dec w \<and> es = [Ran k f d] \<and> (f = Setup_smp_id \<longrightarrow> gs_id s' k = k))"
  using assms by (cases fr; simp split: if_splits; force)

lemma on_cpu_step_cpus:
  assumes "cpus_ok N s" "on_cpu_step k (pc s k) s = Some (es, s')"
  shows "cpus_ok N s'"
proof -
  note e = on_cpu_step_others [OF assms(2)] on_cpu_step_call [OF assms(2)] on_cpu_step_irr [OF assms(2)]
  obtain c where c: "pc_call (pc s k) = Some c" using e(7) by auto
  then have "k < N" "call_cpu c < N" "gs_id s k = k" using assms(1) by (simp_all add: cpus_ok_def)
  then have "\<forall>j. irr s' j \<longrightarrow> j < N" using assms(1) e(8) c unfolding cpus_ok_def by (metis option.inject)
  moreover have "\<forall>j c. pc_call (pc s' j) = Some c \<longrightarrow> j < N \<and> gs_id s' j = j \<and> call_cpu c < N"
  proof (intro allI impI)
    fix j c' assume a: "pc_call (pc s' j) = Some c'"
    have "pc_call (pc s j) = Some c'"
    proof (cases "j = k")
      case True then show ?thesis using a c e(6) [OF c] by auto
    next
      case False then show ?thesis using a e(4) by (metis fun_upd_other)
    qed
    then show "j < N \<and> gs_id s' j = j \<and> call_cpu c' < N" using assms(1) e(5) by (auto simp: cpus_ok_def)
  qed
  ultimately show ?thesis using assms(1) by (simp add: cpus_ok_def e(1,2))
qed

lemma ipi_step_cpus:
  assumes "cpus_ok N s" "ipi_step k (frame s k) s = Some (es, s')" "k < N"
  shows "cpus_ok N s'"
proof -
  note e = ipi_step_others [OF assms(2)]
  have "in_service s' k = serving (frame s' k)"
    using assms(1,2) by (cases "frame s k") (auto simp: cpus_ok_def split: if_splits)
  then have "in_service s' j = serving (frame s' j)" for j
    using assms(1) e(7,8) unfolding cpus_ok_def by (metis fun_upd_other)
  moreover have "irr s' j \<or> frame s' j \<noteq> No_ipi \<Longrightarrow> j < N" for j
    using assms(1,3) e(7,9) unfolding cpus_ok_def by (metis fun_upd_apply)
  ultimately show ?thesis using assms(1) e(1,10) by (auto simp: cpus_ok_def)
qed

definition boot_ok :: "nat \<Rightarrow> 'f smp_event list \<Rightarrow> 'f smp \<Rightarrow> bool" where
  "boot_ok N tr s \<longleftrightarrow> gs_id s 0 = 0 \<and> (\<forall>k d. Ran k Setup_smp_id d \<in> set tr \<longrightarrow> gs_id s k = k) \<and>
     (\<forall>k. caller s k = Direct \<or> (\<exists>n f d. caller s k = On_cpus n f d \<and> n \<le> N) \<or> (k = 0 \<and> (\<exists>i. caller s k = Smp_init i))) \<and>
     (case caller s 0 of
        Smp_init i \<Rightarrow> 1 \<le> i \<and> (\<forall>k. k \<noteq> 0 \<longrightarrow> pc s k = Out \<and> caller s k = Direct) \<and>
          (\<forall>j. 1 \<le> j \<and> j < i \<longrightarrow> (\<exists>d. Ran j Setup_smp_id d \<in> set tr) \<or>
             (j = i - 1 \<and> pc_call (pc s 0) = Some (Call j Setup_smp_id 0 True)))
      | _ \<Rightarrow> \<forall>k < N. gs_id s k = k)"

section \<open>Calls that wait\<close>

fun issues :: "nat \<Rightarrow> 'f smp_event \<Rightarrow> bool" where
  "issues k (Issue j c) \<longleftrightarrow> j = k"
| "issues k e \<longleftrightarrow> False"

text \<open>The events since the last call of a processor.\<close>

definition since :: "nat \<Rightarrow> 'f smp_event list \<Rightarrow> 'f smp_event list" where
  "since k tr = rev (takeWhile (\<lambda>e. \<not> issues k e) (rev tr))"

lemma since_append [simp]:
  "since k [] = []" "since k (tr @ [e]) = (if issues k e then [] else since k tr @ [e])"
  by (simp_all add: since_def)

lemma since_subset: "e \<in> set (since k tr) \<Longrightarrow> e \<in> set tr"
  by (auto simp: since_def dest: set_takeWhileD)

abbreviation ran_of :: "'f ipi_call \<Rightarrow> 'f smp_event" where
  "ran_of c \<equiv> Ran (call_cpu c) (call_fn c) (call_data c)"

definition wait_ok :: "'f smp_event list \<Rightarrow> 'f smp \<Rightarrow> bool" where
  "wait_ok tr s \<longleftrightarrow> (\<forall>k c.
     (pc s k = At_unlock c \<and> (call_wait c \<or> call_cpu c = k) \<longrightarrow> ran_of c \<in> set (since k tr)) \<and>
     (pc s k = At_poll c \<and> call_wait c \<and>
        (ipi_done s \<or> frame s (call_cpu c) = Dec True \<or> frame s (call_cpu c) = Fin) \<longrightarrow> ran_of c \<in> set (since k tr)))"

lemma boot_ok_init_over: "\<lbrakk>boot_ok N tr s; init_over s; k < N\<rbrakk> \<Longrightarrow> gs_id s k = k"
  by (auto simp: boot_ok_def init_over_def split: caller.splits)

text \<open>What a step leaves of the invariant of the start-up.\<close>

lemma boot_ok_step:
  assumes "boot_ok N tr s" "caller s' = caller s"
    "gs_id s' = gs_id s \<or> gs_id s' = (gs_id s)(k := k)"
    "\<And>j d. Ran j Setup_smp_id d \<in> set es \<Longrightarrow> gs_id s' j = j"
    "\<And>j. j \<noteq> 0 \<Longrightarrow> pc s j = Out \<Longrightarrow> pc s' j = Out"
    "\<And>j. pc_call (pc s 0) = Some (Call j Setup_smp_id 0 True) \<Longrightarrow>
       pc_call (pc s' 0) = Some (Call j Setup_smp_id 0 True) \<or> (\<exists>d. Ran j Setup_smp_id d \<in> set (tr @ es))"
  shows "boot_ok N (tr @ es) s'"
proof -
  have g: "gs_id s' j = j" if "gs_id s j = j" for j using assms(3) that by auto
  have r: "\<forall>j d. Ran j Setup_smp_id d \<in> set (tr @ es) \<longrightarrow> gs_id s' j = j"
    using assms(1,4) g by (auto simp: boot_ok_def)
  show ?thesis
  proof (cases "caller s 0")
    case (Smp_init i)
    have b: "1 \<le> i" "\<And>j. j \<noteq> 0 \<Longrightarrow> pc s j = Out" "\<And>j. j \<noteq> 0 \<Longrightarrow> caller s j = Direct"
      "\<And>j. \<lbrakk>1 \<le> j; j < i\<rbrakk> \<Longrightarrow> (\<exists>d. Ran j Setup_smp_id d \<in> set tr) \<or>
         (j = i - 1 \<and> pc_call (pc s 0) = Some (Call j Setup_smp_id 0 True))"
      using assms(1) Smp_init by (simp_all add: boot_ok_def)
    have "(\<exists>d. Ran j Setup_smp_id d \<in> set (tr @ es)) \<or> (j = i - 1 \<and> pc_call (pc s' 0) = Some (Call j Setup_smp_id 0 True))"
      if "1 \<le> j" "j < i" for j using b(4) [OF that] assms(6) [of j] by auto
    then show ?thesis using assms(1) g r b(1,2,3) Smp_init assms(2,5) by (simp add: boot_ok_def)
  qed (use assms(1,2) g r in \<open>simp_all add: boot_ok_def\<close>)
qed

lemma ipi_step_boot:
  assumes "boot_ok N tr s" "ipi_step k (frame s k) s = Some (es, s')"
  shows "boot_ok N (tr @ es) s'"
proof -
  note e = ipi_step_others [OF assms(2)]
  show ?thesis
    by (rule boot_ok_step [OF assms(1) e(2) e(10)])
      (use ipi_step_events [OF assms(2)] in \<open>auto simp: e(1)\<close>)
qed

lemma on_cpu_step_boot:
  assumes "boot_ok N tr s" "wait_ok tr s" "on_cpu_step k (pc s k) s = Some (es, s')"
  shows "boot_ok N (tr @ es) s'"
proof -
  note e = on_cpu_step_others [OF assms(3)]
  show ?thesis
  proof (rule boot_ok_step [OF assms(1) e(3) e(5)])
    show "gs_id s' j = j" if "Ran j Setup_smp_id d \<in> set es" for j d
      using that on_cpu_step_events [OF assms(3)] by auto
    show "pc s' j = Out" if "j \<noteq> 0" "pc s j = Out" for j
      using that e(4) assms(3) by (cases "j = k") (simp, metis fun_upd_other)
    fix j
    assume c: "pc_call (pc s 0) = Some (Call j Setup_smp_id 0 True)"
    show "pc_call (pc s' 0) = Some (Call j Setup_smp_id 0 True) \<or> (\<exists>d. Ran j Setup_smp_id d \<in> set (tr @ es))"
    proof (cases "k = 0")
      case True
      show ?thesis
      proof (cases "pc s 0 = At_unlock (Call j Setup_smp_id 0 True)")
        case u: True
        have "ran_of (Call j Setup_smp_id 0 True) \<in> set (since 0 tr)"
          using assms(2) u unfolding wait_ok_def by (metis ipi_call.sel(4))
        then show ?thesis by (auto dest: since_subset)
      next
        case False
        then show ?thesis using on_cpu_step_call(1) [OF assms(3), of "Call j Setup_smp_id 0 True"] c True by auto
      qed
    next
      case False
      then show ?thesis using c e(4) by (metis fun_upd_other)
    qed
  qed
qed

text \<open>A step of the handler keeps the invariant of the calls that wait.\<close>

lemma since_grows: "e \<in> set (since k tr) \<Longrightarrow> \<not> issues k e' \<Longrightarrow> e \<in> set (since k (tr @ [e']))"
  by simp

lemma ipi_step_wait:
  assumes "wait_ok tr s" "lock_ok s" "ipi_step k (frame s k) s = Some (es, s')"
  shows "wait_ok (tr @ es) s'"
proof -
  note e = ipi_step_others [OF assms(3)]
  have grow: "x \<in> set (since j (tr @ es))" if "x \<in> set (since j tr)" for x j
    using that ipi_step_events [OF assms(3)] by auto
  have "ran_of c \<in> set (since j (tr @ es))"
    if a: "pc s' j = At_poll c" "call_wait c" "ipi_done s' \<or> frame s' (call_cpu c) = Dec True \<or> frame s' (call_cpu c) = Fin" for j c
  proof (cases "ipi_done s \<or> frame s (call_cpu c) = Dec True \<or> frame s (call_cpu c) = Fin")
    case True
    then show ?thesis using assms(1) a e(1) grow unfolding wait_ok_def by metis
  next
    case False
    have h: "holder_ok s j (At_poll c)" using lock_ok_holder [OF assms(2), of j] a(1) e(1) by simp
    then have p: "polled s c" using False by simp
    have k: "call_cpu c = k"
    proof (rule ccontr)
      assume n: "call_cpu c \<noteq> k"
      then have "frame s' (call_cpu c) = frame s (call_cpu c)" using e(7) by (metis fun_upd_other)
      then have d: "ipi_done s'" using a(3) False by simp
      have "quiet_at s k" using p n by (auto simp: polled_def)
      then have "ipi_done s' = ipi_done s" using assms(3) by (cases "frame s k") (auto simp: quiet_at_def split: if_splits)
      then show False using d False by simp
    qed
    have g: "agrees c (frame s k)" using p k by (simp add: polled_def)
    show ?thesis using assms(3) a False g k h by (cases "frame s k") (auto split: if_splits)
  qed
  moreover have "ran_of c \<in> set (since j (tr @ es))" if "pc s' j = At_unlock c" "call_wait c \<or> call_cpu c = j" for j c
    using assms(1) that e(1) grow unfolding wait_ok_def by metis
  ultimately show ?thesis unfolding wait_ok_def by blast
qed

lemma on_cpu_step_wait:
  assumes "wait_ok tr s" "lock_ok s" "gs_id s k = k" "on_cpu_step k (pc s k) s = Some (es, s')"
  shows "wait_ok (tr @ es) s'"
proof -
  note e = on_cpu_step_others [OF assms(4)]
  have grow: "x \<in> set (since j (tr @ es))" if "x \<in> set (since j tr)" for x j
    using that on_cpu_step_events [OF assms(4)] by auto
  show ?thesis
    unfolding wait_ok_def
  proof (intro allI conjI impI)
    fix j c assume a: "pc s' j = At_unlock c \<and> (call_wait c \<or> call_cpu c = j)"
    show "ran_of c \<in> set (since j (tr @ es))"
    proof (cases "j = k")
      case False
      then have "pc s j = At_unlock c" using a e(4) by (metis fun_upd_other)
      then show ?thesis using assms(1) a grow unfolding wait_ok_def by blast
    next
      case True
      show ?thesis
      proof (cases "pc s k = At_poll c")
        case p: True
        have "call_cpu c \<noteq> k" using lock_ok_holder [OF assms(2), of k] p by simp
        moreover have "ipi_done s" using assms(4) p by (simp split: if_splits)
        ultimately have "ran_of c \<in> set (since k tr)" using assms(1) a p True unfolding wait_ok_def by blast
        then show ?thesis using grow True by simp
      next
        case False
        have u: "pc s' k = At_unlock c" using a True by blast
        have t: "pc s k = At_test c"
          using False assms(4) u by (cases "pc s k"; simp split: if_splits; fastforce)
        then have "es = [Ran k (call_fn c) (call_data c)]" "call_cpu c = k"
          using assms(3,4) u by (auto split: if_splits)
        then show ?thesis using True by simp
      qed
    qed
  next
    fix j c assume a: "pc s' j = At_poll c \<and> call_wait c \<and>
      (ipi_done s' \<or> frame s' (call_cpu c) = Dec True \<or> frame s' (call_cpu c) = Fin)"
    show "ran_of c \<in> set (since j (tr @ es))"
    proof (cases "pc s j = At_poll c")
      case True
      then have "j \<noteq> k" using a assms(4) by (auto split: if_splits)
      moreover have "ipi_done s' = ipi_done s"
      proof -
        have "\<not> holding (pc s k)" using lock_ok_holder [OF assms(2), of j] True \<open>j \<noteq> k\<close> by auto
        then show ?thesis using assms(4) by (cases "pc s k") (auto split: if_splits)
      qed
      ultimately show ?thesis using assms(1) a True e(1) grow unfolding wait_ok_def by metis
    next
      case False
      then have "j = k" using a e(4) by (metis fun_upd_other)
      then have p: "pc s k = At_send c" using a False assms(4) by (cases "pc s k") (auto split: if_splits)
      then have "holder_ok s k (At_send c)" using lock_ok_holder [OF assms(2), of k] by simp
      then have "\<not> ipi_done s" "\<not> early (frame s (call_cpu c))" by (auto simp: quiet_def quiet_at_def)
      moreover have "ipi_done s' = ipi_done s" using assms(4) p by auto
      ultimately show ?thesis using a e(1) by auto
    qed
  qed
qed
section \<open>Every call is run once\<close>

abbreviation job :: "'f ipi_call \<Rightarrow> nat \<times> 'f ipi_fn \<times> u64" where
  "job c \<equiv> (call_cpu c, call_fn c, call_data c)"

definition issued :: "'f smp_event list \<Rightarrow> (nat \<times> 'f ipi_fn \<times> u64) multiset" where
  "issued tr = mset (List.map_filter (\<lambda>e. case e of Issue _ c \<Rightarrow> Some (job c) | _ \<Rightarrow> None) tr)"

definition ran :: "'f smp_event list \<Rightarrow> (nat \<times> 'f ipi_fn \<times> u64) multiset" where
  "ran tr = mset (List.map_filter (\<lambda>e. case e of Ran k f d \<Rightarrow> Some (k, f, d) | _ \<Rightarrow> None) tr)"

text \<open>The calls a processor has yet to hand over, and those it has yet to run.\<close>

fun caller_part :: "'f on_cpu_pc \<Rightarrow> (nat \<times> 'f ipi_fn \<times> u64) multiset" where
  "caller_part Out = {#}"
| "caller_part (At_poll c) = {#}"
| "caller_part (At_unlock c) = {#}"
| "caller_part p = (case pc_call p of Some c \<Rightarrow> {#job c#} | None \<Rightarrow> {#})"

fun frame_part :: "'f smp \<Rightarrow> nat \<Rightarrow> 'f ipi_pc \<Rightarrow> (nat \<times> 'f ipi_fn \<times> u64) multiset" where
  "frame_part s j Read_fn = {#(j, ipi_function s, ipi_data s)#}"
| "frame_part s j (Read_data f) = {#(j, f, ipi_data s)#}"
| "frame_part s j (Read_wait f d) = {#(j, f, d)#}"
| "frame_part s j (Ack f d) = {#(j, f, d)#}"
| "frame_part s j (Ack_eoi f d) = {#(j, f, d)#}"
| "frame_part s j (Run f d w) = {#(j, f, d)#}"
| "frame_part s j fr = {#}"

definition target_part :: "'f smp \<Rightarrow> nat \<Rightarrow> (nat \<times> 'f ipi_fn \<times> u64) multiset" where
  "target_part s j = (if irr s j then {#(j, ipi_function s, ipi_data s)#} else {#}) + frame_part s j (frame s j)"

definition flights :: "nat \<Rightarrow> 'f smp \<Rightarrow> (nat \<times> 'f ipi_fn \<times> u64) multiset" where
  "flights N s = (\<Sum>k<N. caller_part (pc s k)) + (\<Sum>j<N. target_part s j)"

lemma issued_append [simp]: "issued [] = {#}" "issued (tr @ tr') = issued tr + issued tr'"
  "issued [Issue k c] = {#job c#}" "issued [Ran k f d] = {#}" "issued [Ret k c] = {#}" "issued [Issue_all k f d] = {#}"
  "issued [Ret_all k f d] = {#}" "issued [Init_done] = {#}"
  by (simp_all add: issued_def map_filter_simps map_filter_def)

lemma ran_append [simp]: "ran [] = {#}" "ran (tr @ tr') = ran tr + ran tr'"
  "ran [Issue k c] = {#}" "ran [Ran k f d] = {#(k, f, d)#}" "ran [Ret k c] = {#}" "ran [Issue_all k f d] = {#}"
  "ran [Ret_all k f d] = {#}" "ran [Init_done] = {#}"
  by (simp_all add: ran_def map_filter_simps map_filter_def)

text \<open>A sum of which one term changes.\<close>

lemma sum_step:
  fixes f g :: "nat \<Rightarrow> 'a::comm_monoid_add"
  assumes "k < N" "\<And>j. j < N \<Longrightarrow> j \<noteq> k \<Longrightarrow> g j = f j" "f k + x = g k + y"
  shows "sum f {..<N} + x = sum g {..<N} + y"
proof -
  have "sum g ({..<N} - {k}) = sum f ({..<N} - {k})" by (rule sum.cong) (use assms(2) in auto)
  moreover have "sum f {..<N} = f k + sum f ({..<N} - {k})" "sum g {..<N} = g k + sum g ({..<N} - {k})"
    using assms(1) by (simp_all add: sum.remove)
  ultimately show ?thesis using assms(3) by (metis add.assoc add.commute)
qed

lemma quiet_part:
  "\<lbrakk>quiet_at s j; irr s' j = irr s j; frame s' j = frame s j\<rbrakk> \<Longrightarrow> target_part s' j = target_part s j"
  by (cases "frame s j") (simp_all add: target_part_def quiet_at_def)

lemma same_part:
  "\<lbrakk>ipi_function s' = ipi_function s; ipi_data s' = ipi_data s; irr s' j = irr s j; frame s' j = frame s j\<rbrakk> \<Longrightarrow>
   target_part s' j = target_part s j"
  by (cases "frame s j") (simp_all add: target_part_def)

lemma ipi_step_flights:
  assumes "ipi_step k (frame s k) s = Some (es, s')" "k < N"
  shows "flights N s = flights N s' + ran es" "issued es = {#}"
proof -
  note e = ipi_step_others [OF assms(1)]
  have "(\<Sum>j<N. target_part s j) + {#} = (\<Sum>j<N. target_part s' j) + ran es"
  proof (rule sum_step [OF assms(2)])
    show "target_part s' j = target_part s j" if "j \<noteq> k" for j
      using e(4,5,7,9) that by (intro same_part) (metis fun_upd_other)+
    show "target_part s k + {#} = target_part s' k + ran es"
      using assms(1) by (cases "frame s k") (auto simp: target_part_def split: if_splits)
  qed
  then show "flights N s = flights N s' + ran es" using e(1) by (simp add: flights_def)
  show "issued es = {#}" using ipi_step_events [OF assms(1)] by auto
qed

lemma on_cpu_step_flights:
  assumes "lock_ok s" "cpus_ok N s" "gs_id s k = k" "on_cpu_step k (pc s k) s = Some (es, s')"
  shows "flights N s = flights N s' + ran es" "issued es = {#}"
proof -
  note e = on_cpu_step_others [OF assms(4)]
  obtain c where c: "pc_call (pc s k) = Some c" using on_cpu_step_call(2) [OF assms(4)] by auto
  have n: "k < N" "call_cpu c < N" using assms(2) c by (auto simp: cpus_ok_def)
  have pcs: "caller_part (pc s' j) = caller_part (pc s j)" if "j \<noteq> k" for j using e(4) that by (metis fun_upd_other)
  show "flights N s = flights N s' + ran es"
  proof (cases "pc s k = At_send c")
    case True
    have h: "quiet s" "ipi_function s = call_fn c" "ipi_data s = call_data c"
      using lock_ok_holder [OF assms(1), of k] True by simp_all
    have s': "s' = goto k (At_poll c) (s\<lparr>irr := (irr s)(call_cpu c := True)\<rparr>)" "es = []" using assms(4) True by simp_all
    have "(\<Sum>j<N. caller_part (pc s j)) + {#} = (\<Sum>j<N. caller_part (pc s' j)) + {#job c#}"
      by (rule sum_step [OF n(1) pcs]) (simp_all add: s' True)
    moreover have "(\<Sum>j<N. target_part s j) + {#job c#} = (\<Sum>j<N. target_part s' j) + {#}"
    proof (rule sum_step [OF n(2)])
      show "target_part s' j = target_part s j" if "j \<noteq> call_cpu c" for j
        using that by (intro same_part) (simp_all add: s')
      show "target_part s (call_cpu c) + {#job c#} = target_part s' (call_cpu c) + {#}"
        using h by (cases "frame s (call_cpu c)") (auto simp: target_part_def s' quiet_def quiet_at_def)
    qed
    ultimately show ?thesis by (simp add: flights_def s'(2))
  next
    case False
    have p: "target_part s' j = target_part s j" for j
    proof (cases "\<exists>c. pc s k = At_fn c \<or> pc s k = At_data c")
      case True
      then have "quiet s" using lock_ok_holder [OF assms(1), of k] by auto
      then show ?thesis using True assms(4) by (intro quiet_part) (auto simp: quiet_def)
    next
      case f: False
      have "ipi_function s' = ipi_function s" "ipi_data s' = ipi_data s" "irr s' = irr s"
        using assms(4) f c False by (cases "pc s k"; simp split: if_splits; force)+
      then show ?thesis using e(1) by (intro same_part) simp_all
    qed
    have "(\<Sum>j<N. caller_part (pc s j)) + {#} = (\<Sum>j<N. caller_part (pc s' j)) + ran es"
    proof (rule sum_step [OF n(1) pcs])
      show "caller_part (pc s k) + {#} = caller_part (pc s' k) + ran es"
        using assms(3,4) c False by (cases "pc s k"; simp split: if_splits; force)
    qed
    then show ?thesis by (simp add: flights_def p)
  qed
  show "issued es = {#}" using on_cpu_step_events [OF assms(4)] by auto
qed

lemma issue_flights:
  assumes "k < N" "pc s k = Out" "pc s' = (pc s)(k := At_lock c)" "irr s' = irr s" "frame s' = frame s"
    "ipi_function s' = ipi_function s" "ipi_data s' = ipi_data s"
  shows "flights N s + {#job c#} = flights N s'"
proof -
  have "(\<Sum>j<N. caller_part (pc s j)) + {#job c#} = (\<Sum>j<N. caller_part (pc s' j)) + {#}"
    by (rule sum_step [OF assms(1)]) (simp_all add: assms)
  moreover have "target_part s' j = target_part s j" for j using assms by (intro same_part) simp_all
  ultimately show ?thesis by (simp add: flights_def)
qed

section \<open>How many processors are active\<close>

fun caller_busy :: "'f on_cpu_pc \<Rightarrow> nat" where
  "caller_busy Out = 0"
| "caller_busy (At_lock c) = 0"
| "caller_busy (At_test c) = 0"
| "caller_busy (At_poll c) = 0"
| "caller_busy (At_unlock c) = 0"
| "caller_busy p = 1"

fun frame_busy :: "'f ipi_pc \<Rightarrow> nat" where
  "frame_busy No_ipi = 0"
| "frame_busy Fin = 0"
| "frame_busy Fin_eoi = 0"
| "frame_busy Iret = 0"
| "frame_busy fr = 1"

definition target_busy :: "'f smp \<Rightarrow> nat \<Rightarrow> nat" where
  "target_busy s j = of_bool (irr s j) + frame_busy (frame s j)"

definition busy :: "nat \<Rightarrow> 'f smp \<Rightarrow> nat" where
  "busy N s = (\<Sum>k<N. caller_busy (pc s k)) + (\<Sum>j<N. target_busy s j)"

lemma ipi_step_busy:
  assumes "ipi_step k (frame s k) s = Some (es, s')" "k < N"
  shows "active_cpus s' + of_nat (busy N s) = active_cpus s + of_nat (busy N s')"
proof -
  note e = ipi_step_others [OF assms(1)]
  define m where "m = (if \<exists>w. frame s k = Dec w then (1 :: nat) else 0)"
  have "(\<Sum>j<N. target_busy s j) + 0 = (\<Sum>j<N. target_busy s' j) + m"
  proof (rule sum_step [OF assms(2)])
    show "target_busy s' j = target_busy s j" if "j \<noteq> k" for j
      using e(7,9) that unfolding target_busy_def by (metis fun_upd_other)
    show "target_busy s k + 0 = target_busy s' k + m"
      using assms(1) by (cases "frame s k") (auto simp: target_busy_def m_def split: if_splits)
  qed
  then have "busy N s = busy N s' + m" using e(1) by (simp add: busy_def)
  moreover have "active_cpus s = active_cpus s' + of_nat m"
    using assms(1) by (cases "frame s k") (auto simp: m_def split: if_splits)
  ultimately show ?thesis by simp
qed

lemma on_cpu_step_busy:
  assumes "lock_ok s" "cpus_ok N s" "gs_id s k = k" "on_cpu_step k (pc s k) s = Some (es, s')"
  shows "active_cpus s' + of_nat (busy N s) = active_cpus s + of_nat (busy N s')"
proof -
  note e = on_cpu_step_others [OF assms(4)]
  obtain c where c: "pc_call (pc s k) = Some c" using on_cpu_step_call(2) [OF assms(4)] by auto
  have n: "k < N" "call_cpu c < N" using assms(2) c by (auto simp: cpus_ok_def)
  have pcs: "caller_busy (pc s' j) = caller_busy (pc s j)" if "j \<noteq> k" for j using e(4) that by (metis fun_upd_other)
  show ?thesis
  proof (cases "pc s k = At_send c")
    case True
    have h: "quiet s" using lock_ok_holder [OF assms(1), of k] True by simp
    have s': "s' = goto k (At_poll c) (s\<lparr>irr := (irr s)(call_cpu c := True)\<rparr>)" using assms(4) True by simp
    have "(\<Sum>j<N. caller_busy (pc s j)) + 0 = (\<Sum>j<N. caller_busy (pc s' j)) + 1"
      by (rule sum_step [OF n(1) pcs]) (simp_all add: s' True)
    moreover have "(\<Sum>j<N. target_busy s j) + 1 = (\<Sum>j<N. target_busy s' j) + 0"
      by (rule sum_step [OF n(2)]) (use h in \<open>simp_all add: s' target_busy_def quiet_def quiet_at_def\<close>)
    ultimately have "busy N s' = busy N s" by (simp add: busy_def)
    then show ?thesis by (simp add: s')
  next
    case False
    have i: "irr s' = irr s" using assms(4) c False by (cases "pc s k"; simp split: if_splits; force)
    have t: "target_busy s' j = target_busy s j" for j by (simp add: target_busy_def i e(1))
    define m where "m = caller_busy (pc s' k) - caller_busy (pc s k)"
    have m: "caller_busy (pc s k) + m = caller_busy (pc s' k) + 0 \<and> active_cpus s' = active_cpus s + of_nat m"
      using assms(4) c False by (cases "pc s k"; simp add: m_def split: if_splits; force)
    have "(\<Sum>j<N. caller_busy (pc s j)) + m = (\<Sum>j<N. caller_busy (pc s' j)) + 0"
      by (rule sum_step [OF n(1) pcs]) (use m in simp_all)
    then have "busy N s' = busy N s + m" by (simp add: busy_def t)
    then show ?thesis using m by simp
  qed
qed
section \<open>The invariant\<close>

definition smp_inv :: "nat \<Rightarrow> 'f smp_event list \<Rightarrow> 'f smp \<Rightarrow> bool" where
  "smp_inv N tr s \<longleftrightarrow> lock_ok s \<and> cpus_ok N s \<and> boot_ok N tr s \<and> wait_ok tr s \<and>
     issued tr = ran tr + flights N s \<and>
     active_cpus s = of_nat (busy N s) + (if init_over s then 1 else 0)"

lemma sums_zero: "(\<And>k. f k = 0) \<Longrightarrow> sum f {..<N :: nat} = 0"
  by simp

lemma smp_inv_start: "smp_start N s \<Longrightarrow> smp_inv N [] s"
  by (auto simp: smp_inv_def smp_start_def lock_ok_def quiet_def quiet_at_def cpus_ok_def boot_ok_def wait_ok_def flights_def
      busy_def target_part_def target_busy_def init_over_def)

lemma init_over_caller: "caller s' = caller s \<Longrightarrow> init_over s' = init_over s"
  by (simp add: init_over_def)

lemma smp_inv_handler:
  assumes "smp_inv N tr s" "k < N" "ipi_step k (frame s k) s = Some (es, s')"
  shows "smp_inv N (tr @ es) s'"
proof -
  have i: "lock_ok s" "cpus_ok N s" "boot_ok N tr s" "wait_ok tr s" using assms(1) by (simp_all add: smp_inv_def)
  have "lock_ok s'" using handler_lock [OF i(1) assms(3)] i(2) by (simp add: cpus_ok_def)
  moreover have "active_cpus s' = of_nat (busy N s') + (if init_over s' then 1 else 0)"
    using ipi_step_busy [OF assms(3,2)] assms(1) init_over_caller [OF ipi_step_others(2) [OF assms(3)]]
    by (simp add: smp_inv_def algebra_simps)
  moreover have "issued (tr @ es) = ran (tr @ es) + flights N s'"
    using ipi_step_flights [OF assms(3,2)] assms(1) by (simp add: smp_inv_def)
  ultimately show ?thesis
    using ipi_step_cpus [OF i(2) assms(3,2)] ipi_step_boot [OF i(3) assms(3)] ipi_step_wait [OF i(4,1) assms(3)]
    by (simp add: smp_inv_def)
qed

lemma smp_inv_on_cpu:
  assumes "smp_inv N tr s" "on_cpu_step k (pc s k) s = Some (es, s')"
  shows "smp_inv N (tr @ es) s'"
proof -
  have i: "lock_ok s" "cpus_ok N s" "boot_ok N tr s" "wait_ok tr s" using assms(1) by (simp_all add: smp_inv_def)
  have id: "gs_id s k = k" using i(2) on_cpu_step_call(2) [OF assms(2)] by (auto simp: cpus_ok_def)
  have "active_cpus s' = of_nat (busy N s') + (if init_over s' then 1 else 0)"
    using on_cpu_step_busy [OF i(1,2) id assms(2)] assms(1) init_over_caller [OF on_cpu_step_others(3) [OF assms(2)]]
    by (simp add: smp_inv_def algebra_simps)
  moreover have "issued (tr @ es) = ran (tr @ es) + flights N s'"
    using on_cpu_step_flights [OF i(1,2) id assms(2)] assms(1) by (simp add: smp_inv_def)
  ultimately show ?thesis
    using on_cpu_step_lock [OF i(1) assms(2) id] on_cpu_step_cpus [OF i(2) assms(2)]
      on_cpu_step_boot [OF i(3,4) assms(2)] on_cpu_step_wait [OF i(4,1) id assms(2)]
    by (simp add: smp_inv_def)
qed

text \<open>A new call, with what runs around it.\<close>

lemma smp_inv_issue:
  assumes "smp_inv N tr s" "k < N" "pc s k = Out" "gs_id s k = k" "call_cpu c < N"
    "s' = goto k (At_lock c) (within k cl s)" "init_over s' = init_over s" "boot_ok N (tr @ [Issue k c]) s'"
  shows "smp_inv N (tr @ [Issue k c]) s'"
proof -
  have "lock_ok s'"
    by (rule lock_ok_outside [of s _ k "At_lock c"]) (use assms in \<open>simp_all add: smp_inv_def\<close>)
  moreover have "cpus_ok N s'" using assms by (auto simp: smp_inv_def cpus_ok_def)
  moreover have "wait_ok (tr @ [Issue k c]) s'" using assms by (auto simp: smp_inv_def wait_ok_def)
  moreover have "flights N s + {#job c#} = flights N s'"
    by (rule issue_flights [of k]) (use assms in simp_all)
  then have "issued (tr @ [Issue k c]) = ran (tr @ [Issue k c]) + flights N s'"
    using assms(1) by (simp add: smp_inv_def)
  moreover have "busy N s' = busy N s"
  proof -
    have "caller_busy (pc s' j) = caller_busy (pc s j)" for j using assms by simp
    moreover have "target_busy s' j = target_busy s j" for j by (simp add: target_busy_def assms(6))
    ultimately show ?thesis by (simp add: busy_def)
  qed
  ultimately show ?thesis using assms by (simp add: smp_inv_def)
qed

text \<open>A step that only changes what runs around the calls.\<close>

lemma caller_only:
  assumes "pc s' = pc s" "irr s' = irr s" "frame s' = frame s" "ipi_function s' = ipi_function s" "ipi_data s' = ipi_data s"
    "in_service s' = in_service s" "gs_id s' = gs_id s" "ipi_done s' = ipi_done s"
  shows "flights N s' = flights N s" "busy N s' = busy N s" "cpus_ok N s' = cpus_ok N s" "wait_ok tr s' = wait_ok tr s"
proof -
  have "target_part s' j = target_part s j" for j using assms by (intro same_part) simp_all
  then show "flights N s' = flights N s" by (simp add: flights_def assms)
  show "busy N s' = busy N s" "cpus_ok N s' = cpus_ok N s" "wait_ok tr s' = wait_ok tr s"
    by (simp_all add: busy_def target_busy_def cpus_ok_def wait_ok_def assms)
qed

lemma wait_ok_append: "\<lbrakk>wait_ok tr s; \<And>k. \<not> issues k e\<rbrakk> \<Longrightarrow> wait_ok (tr @ [e]) s"
  by (auto simp: wait_ok_def)

lemma boot_ok_caller:
  assumes "boot_ok N tr s" "init_over s" "s' = goto k p (within k cl s)" "cl = Direct \<or> (\<exists>n f d. cl = On_cpus n f d \<and> n \<le> N)"
    "\<And>j d. Ran j Setup_smp_id d \<notin> set es"
  shows "boot_ok N (tr @ es) s'" "init_over s'"
  using assms by (auto simp: boot_ok_def init_over_def split: caller.splits)

lemma smp_inv_main:
  assumes "smp_inv N tr s" "k < N" "main_step N k s = Some (es, s')"
  shows "smp_inv N (tr @ es) s'"
proof (cases "pc s k = Out")
  case False
  then have "on_cpu_step k (pc s k) s = Some (es, s')" using assms(3) by (simp add: main_step_def split: on_cpu_pc.splits)
  then show ?thesis by (rule smp_inv_on_cpu [OF assms(1)])
next
  case out: True
  have b: "boot_ok N tr s" "lock_ok s" "cpus_ok N s" using assms(1) by (simp_all add: smp_inv_def)
  show ?thesis
  proof (cases "caller s k")
    case Direct
    then show ?thesis using assms(3) out by (simp add: main_step_def)
  next
    case (On_cpus n f d)
    have over: "init_over s"
    proof (rule ccontr)
      assume "\<not> init_over s"
      then show False using b(1) On_cpus by (cases "k = 0") (auto simp: init_over_def boot_ok_def split: caller.splits)
    qed
    have n: "n \<le> N" using b(1) On_cpus by (auto simp: boot_ok_def dest: spec [of _ k])
    show ?thesis
    proof (cases "n = 0")
      case False
      then have s': "es = [Issue k (Call (n - 1) f d False)]" "s' = goto k (At_lock (Call (n - 1) f d False)) (within k (On_cpus (n - 1) f d) s)"
        using assms(3) out On_cpus by (simp_all add: main_step_def on_cpus_step_def on_cpu_async_def)
      note bo = boot_ok_caller [OF b(1) over s'(2), of es]
      show ?thesis
        unfolding s'(1)
        by (rule smp_inv_issue [OF assms(1,2) out _ _ s'(2)])
          (use bo over b(1) boot_ok_init_over [OF b(1) over assms(2)] n False in \<open>simp_all add: s'(1)\<close>)
    next
      case True
      then have s': "es = [Ret_all k f d]" "s' = within k Direct s"
        using assms(3) out On_cpus by (simp_all add: main_step_def on_cpus_step_def split: if_splits)
      have s2: "s' = goto k Out (within k Direct s)" using s'(2) out by (simp add: fun_upd_idem)
      have "lock_ok s'"
        by (rule lock_ok_outside [of s _ k Out]) (use b out in \<open>simp_all add: s2\<close>)
      moreover have c: "flights N s' = flights N s" "busy N s' = busy N s" "cpus_ok N s' = cpus_ok N s" "wait_ok tr s' = wait_ok tr s"
        by (rule caller_only; simp add: s'(2))+
      moreover have "wait_ok (tr @ es) s'"
        unfolding s'(1) by (rule wait_ok_append) (use c(4) assms(1) in \<open>simp_all add: smp_inv_def\<close>)
      moreover have "boot_ok N (tr @ es) s'" "init_over s'"
        using boot_ok_caller [OF b(1) over s2, of es] by (simp_all add: s'(1))
      ultimately show ?thesis using assms(1) over by (simp add: smp_inv_def s')
    qed
  next
    case (Smp_init i)
    then have k: "k = 0" using b(1) by (auto simp: boot_ok_def dest: spec [of _ k])
    have over: "\<not> init_over s" using Smp_init k by (simp add: init_over_def)
    have b0: "1 \<le> i" "\<And>j. \<lbrakk>1 \<le> j; j < i\<rbrakk> \<Longrightarrow> \<exists>d. Ran j Setup_smp_id d \<in> set tr"
      using b(1) Smp_init k out by (simp_all add: boot_ok_def)
    show ?thesis
    proof (cases "i < N")
      case True
      let ?c = "Call i Setup_smp_id 0 True"
      have s': "es = [Issue k ?c]" "s' = goto k (At_lock ?c) (within k (Smp_init (i + 1)) s)"
        using assms(3) out Smp_init True by (simp_all add: main_step_def smp_init_step_def on_cpu_def)
      have "boot_ok N (tr @ [Issue k ?c]) s'"
        using b(1) Smp_init k b0 by (auto simp: boot_ok_def s' less_Suc_eq)
      moreover have "init_over s' = init_over s" using over k by (simp add: init_over_def s')
      ultimately show ?thesis
        unfolding s'(1) using True k b(1)
        by (intro smp_inv_issue [OF assms(1,2) out _ _ s'(2)]) (simp_all add: boot_ok_def)
    next
      case False
      then have s': "es = [Init_done]" "s' = within k Direct (s\<lparr>active_cpus := active_cpus s + 1\<rparr>)"
        using assms(3) out Smp_init by (simp_all add: main_step_def smp_init_step_def)
      have s2: "pc s' = (pc s)(k := Out)" using s'(2) out by (simp add: fun_upd_idem)
      have "lock_ok s'" by (rule lock_ok_outside [of s _ k Out]) (use b out s2 in \<open>simp_all add: s'\<close>)
      moreover have c: "flights N s' = flights N s" "busy N s' = busy N s" "cpus_ok N s' = cpus_ok N s" "wait_ok tr s' = wait_ok tr s"
        by (rule caller_only; simp add: s'(2))+
      moreover have "wait_ok (tr @ es) s'"
        unfolding s'(1) by (rule wait_ok_append) (use c(4) assms(1) in \<open>simp_all add: smp_inv_def\<close>)
      moreover have "\<forall>j<N. gs_id s j = j"
      proof (intro allI impI)
        fix j assume "j < N"
        show "gs_id s j = j"
        proof (cases "j = 0")
          case nz: False
          then have "1 \<le> j" "j < i" using False \<open>j < N\<close> by simp_all
          then show ?thesis using b0(2) b(1) unfolding boot_ok_def by blast
        qed (use b(1) in \<open>simp add: boot_ok_def\<close>)
      qed
      then have "boot_ok N (tr @ es) s'" "init_over s'" using b(1) k by (auto simp: boot_ok_def s' init_over_def)
      ultimately show ?thesis using assms(1) over by (simp add: smp_inv_def s')
    qed
  qed
qed
lemma smp_inv_step:
  assumes "smp_inv N tr s" "smp_step N s es s'"
  shows "smp_inv N (tr @ es) s'"
  using assms(2)
proof cases
  case (handler k)
  then show ?thesis by (intro smp_inv_handler [OF assms(1)])
next
  case (main k)
  then show ?thesis by (intro smp_inv_main [OF assms(1)])
next
  case (sync k cpu f d)
  have b: "boot_ok N tr s" using assms(1) by (simp add: smp_inv_def)
  have s': "es = [Issue k (Call cpu f d True)]" "s' = goto k (At_lock (Call cpu f d True)) (within k Direct s)"
    using sync by (simp_all add: on_cpu_def fun_upd_idem)
  show ?thesis
    unfolding s'(1)
    by (rule smp_inv_issue [OF assms(1) sync(2,4) _ _ s'(2)])
      (use boot_ok_caller [OF b sync(1) s'(2), of es] boot_ok_init_over [OF b sync(1,2)] sync in \<open>simp_all add: s'(1)\<close>)
next
  case (async k cpu f d)
  have b: "boot_ok N tr s" using assms(1) by (simp add: smp_inv_def)
  have s': "es = [Issue k (Call cpu f d False)]" "s' = goto k (At_lock (Call cpu f d False)) (within k Direct s)"
    using async by (simp_all add: on_cpu_async_def fun_upd_idem)
  show ?thesis
    unfolding s'(1)
    by (rule smp_inv_issue [OF assms(1) async(2,4) _ _ s'(2)])
      (use boot_ok_caller [OF b async(1) s'(2), of es] boot_ok_init_over [OF b async(1,2)] async in \<open>simp_all add: s'(1)\<close>)
next
  case (all k f d)
  have b: "boot_ok N tr s" "lock_ok s" using assms(1) by (simp_all add: smp_inv_def)
  have s': "es = [Issue_all k f d]" "s' = within k (On_cpus N f d) s" using all by (simp_all add: on_cpus_def)
  have s2: "s' = goto k Out (within k (On_cpus N f d) s)" using s'(2) all by (simp add: fun_upd_idem)
  have "lock_ok s'" by (rule lock_ok_outside [of s _ k Out]) (use b all in \<open>simp_all add: s2\<close>)
  moreover have c: "flights N s' = flights N s" "busy N s' = busy N s" "cpus_ok N s' = cpus_ok N s" "wait_ok tr s' = wait_ok tr s"
    by (rule caller_only; simp add: s'(2))+
  moreover have "wait_ok (tr @ es) s'"
    unfolding s'(1) by (rule wait_ok_append) (use c(4) assms(1) in \<open>simp_all add: smp_inv_def\<close>)
  moreover have "boot_ok N (tr @ es) s'" "init_over s'" using boot_ok_caller [OF b(1) all(1) s2, of es] by (simp_all add: s'(1))
  ultimately show ?thesis using assms(1) all by (simp add: smp_inv_def s')
qed

lemma smp_run_inv:
  assumes "smp_start N s0" "smp_run N s0 tr s"
  shows "smp_inv N tr s"
  using assms(2)
proof induction
  case start
  show ?case by (rule smp_inv_start [OF assms(1)])
next
  case (step tr s es s')
  show ?case by (rule smp_inv_step [OF step.IH step.hyps(2)])
qed

lemma ongoing_step: "ongoing N s s' \<Longrightarrow> \<exists>es. smp_step N s es s'"
  unfolding ongoing_def by (blast intro: smp_step.intros)

lemma ongoing_inv: "smp_inv N tr s \<Longrightarrow> (ongoing N ^^ m) s s' \<Longrightarrow> \<exists>tr'. smp_inv N tr' s'"
proof (induction m arbitrary: s')
  case (Suc m)
  from Suc.prems(2) obtain s1 where "(ongoing N ^^ m) s s1" "ongoing N s1 s'" by auto
  then show ?case using Suc.IH [OF Suc.prems(1)] smp_inv_step ongoing_step by metis
qed auto

section \<open>Properties\<close>

lemma no_holder_quiet: "\<lbrakk>lock_ok s; \<And>k. \<not> holding (pc s k)\<rbrakk> \<Longrightarrow> quiet s"
  by (auto simp: lock_ok_def split: if_splits dest: holder_okD)

lemma pc_call_None: "pc_call p = None \<longleftrightarrow> p = Out"
  by (cases p) simp_all

lemma cpus_ok_out: "\<lbrakk>cpus_ok N s; \<not> k < N\<rbrakk> \<Longrightarrow> pc s k = Out \<and> frame s k = No_ipi \<and> \<not> irr s k"
  unfolding cpus_ok_def by (metis pc_call_None not_None_eq)

lemma idle_flights:
  assumes "smp_inv N tr s" "idle N s"
  shows "flights N s = {#}" "busy N s = 0"
proof -
  have c: "cpus_ok N s" "lock_ok s" using assms(1) by (simp_all add: smp_inv_def)
  have o: "pc s k = Out \<and> frame s k = No_ipi" for k
    using assms(2) cpus_ok_out [OF c(1), of k] by (cases "k < N") (auto simp: idle_def)
  then have "quiet s" by (intro no_holder_quiet [OF c(2)]) simp
  then show "flights N s = {#}" "busy N s = 0"
    using o by (simp_all add: flights_def busy_def target_part_def target_busy_def quiet_def quiet_at_def)
qed

text \<open>
  C2: whatever the interleaving, a call of a function on a processor is run at most once, with its own data
  and on the processor it names; none is lost, so that once every processor is idle the calls run are
  exactly the calls issued, and one processor counts as active.
\<close>

theorem smp_calls_run_once:
  assumes "smp_start N s0" "smp_run N s0 tr s"
  shows "ran tr \<subseteq># issued tr \<and>
    (idle N s \<longrightarrow> ran tr = issued tr \<and> cpus_active s = (if init_over s then 1 else 0))"
proof -
  have i: "smp_inv N tr s" by (rule smp_run_inv [OF assms])
  then have "issued tr = ran tr + flights N s" "active_cpus s = of_nat (busy N s) + (if init_over s then 1 else 0)"
    by (simp_all add: smp_inv_def)
  then show ?thesis using idle_flights [OF i] by (simp add: cpus_active_def)
qed

text \<open>The step that adds the last event.\<close>

lemma smp_step_events: "smp_step N s es s' \<Longrightarrow> es = [] \<or> (\<exists>e. es = [e])"
proof (induction rule: smp_step.induct)
  case (handler k s es s')
  then show ?case using ipi_step_events [OF handler(2)] by auto
next
  case (main k s es s')
  show ?case
  proof (cases "pc s k")
    case Out
    then show ?thesis using main by (auto simp: main_step_def on_cpus_step_def on_cpu_async_def smp_init_step_def on_cpu_def
      split: caller.splits if_splits)
  qed (use main on_cpu_step_events [of k "pc s k" s es s'] in \<open>auto simp: main_step_def\<close>)
qed (auto simp: on_cpu_def on_cpu_async_def on_cpus_def)

lemma smp_run_last:
  assumes "smp_run N s0 tr' s" "tr' = tr @ [e]"
  shows "\<exists>s1 s2. smp_run N s0 tr s1 \<and> smp_step N s1 [e] s2"
  using assms
proof induction
  case (step tr1 s1 es s')
  show ?case
  proof (cases "es = []")
    case True
    then show ?thesis using step by simp
  next
    case False
    then have "es = [e]" "tr1 = tr" using smp_step_events [OF step.hyps(2)] step.prems by auto
    then show ?thesis using step.hyps by blast
  qed
qed simp

lemma ret_step:
  assumes "smp_step N s [Ret k c] s'"
  shows "pc s k = At_unlock c"
  using assms
proof cases
  case (handler j)
  then show ?thesis using ipi_step_events by fastforce
next
  case (main j)
  show ?thesis
  proof (cases "pc s j")
    case Out
    then show ?thesis using main by (auto simp: main_step_def on_cpus_step_def on_cpu_async_def smp_init_step_def on_cpu_def
      split: caller.splits if_splits)
  qed (use main on_cpu_step_events [of j "pc s j" s "[Ret k c]" s'] in \<open>auto simp: main_step_def\<close>)
qed (auto simp: on_cpu_def on_cpu_async_def on_cpus_def)

text \<open>
  C3: when \<open>on_cpu\<close> returns, or a call of the own processor, the function has been run, on the processor
  named and with its data, after the call began.
\<close>

theorem smp_wait_returns:
  assumes "smp_start N s0" "smp_run N s0 (tr @ [Ret k c]) s" "call_wait c \<or> call_cpu c = k"
  shows "Ran (call_cpu c) (call_fn c) (call_data c) \<in> set (since k tr)"
proof -
  obtain s1 s2 where s: "smp_run N s0 tr s1" "smp_step N s1 [Ret k c] s2" using smp_run_last [OF assms(2)] by blast
  have "wait_ok tr s1" using smp_run_inv [OF assms(1) s(1)] by (simp add: smp_inv_def)
  then show ?thesis using ret_step [OF s(2)] assms(3) unfolding wait_ok_def by blast
qed
section \<open>The calls end\<close>

text \<open>A bound of the steps a processor still takes without new calls.\<close>

fun pc_weight :: "'f on_cpu_pc \<Rightarrow> nat" where
  "pc_weight Out = 0"
| "pc_weight (At_unlock c) = 1"
| "pc_weight (At_poll c) = 2"
| "pc_weight (At_send c) = 15"
| "pc_weight (At_wait c) = 16"
| "pc_weight (At_data c) = 17"
| "pc_weight (At_fn c) = 18"
| "pc_weight (At_clear c) = 19"
| "pc_weight (At_test c) = 20"
| "pc_weight (At_lock c) = 21"

fun caller_weight :: "nat \<Rightarrow> 'f caller \<Rightarrow> nat" where
  "caller_weight N Direct = 0"
| "caller_weight N (On_cpus n f d) = 1 + 22 * n"
| "caller_weight N (Smp_init i) = 1 + 22 * (N - i)"

fun frame_weight :: "'f ipi_pc \<Rightarrow> nat" where
  "frame_weight No_ipi = 0"
| "frame_weight Iret = 1"
| "frame_weight Fin_eoi = 2"
| "frame_weight Fin = 3"
| "frame_weight (Dec w) = 4"
| "frame_weight (Run f d w) = 5"
| "frame_weight (Ack_eoi f d) = 6"
| "frame_weight (Ack f d) = 7"
| "frame_weight (Read_wait f d) = 8"
| "frame_weight (Read_data f) = 9"
| "frame_weight Read_fn = 10"

definition target_weight :: "'f smp \<Rightarrow> nat \<Rightarrow> nat" where
  "target_weight s j = 11 * of_bool (irr s j) + frame_weight (frame s j)"

definition caller_weights :: "nat \<Rightarrow> 'f smp \<Rightarrow> nat \<Rightarrow> nat" where
  "caller_weights N s k = pc_weight (pc s k) + caller_weight N (caller s k)"

definition weight :: "nat \<Rightarrow> 'f smp \<Rightarrow> nat" where
  "weight N s = (\<Sum>k<N. caller_weights N s k) + (\<Sum>j<N. target_weight s j)"

lemma sum_less:
  fixes f g :: "nat \<Rightarrow> nat"
  assumes "k < N" "\<And>j. j < N \<Longrightarrow> j \<noteq> k \<Longrightarrow> g j = f j" "g k + m \<le> f k"
  shows "sum g {..<N} + m \<le> sum f {..<N}"
proof -
  have "sum f {..<N} + 0 = sum g {..<N} + (f k - g k)" by (rule sum_step [OF assms(1,2)]) (use assms(3) in simp_all)
  then show ?thesis using assms(3) by simp
qed

lemma ipi_step_weight:
  assumes "k < N" "ipi_step k (frame s k) s = Some (es, s')"
  shows "weight N s' < weight N s"
proof -
  note e = ipi_step_others [OF assms(2)]
  have "(\<Sum>j<N. target_weight s' j) + 1 \<le> (\<Sum>j<N. target_weight s j)"
  proof (rule sum_less [OF assms(1)])
    show "target_weight s' j = target_weight s j" if "j \<noteq> k" for j
      using e(7,9) that unfolding target_weight_def by (metis fun_upd_other)
    show "target_weight s' k + 1 \<le> target_weight s k"
      using assms(2) by (cases "frame s k") (auto simp: target_weight_def split: if_splits)
  qed
  then show ?thesis by (simp add: weight_def caller_weights_def e(1,2))
qed

lemma on_cpu_step_weight:
  assumes "k < N" "on_cpu_step k (pc s k) s = Some (es, s')"
  shows "weight N s' < weight N s"
proof -
  note e = on_cpu_step_others [OF assms(2)]
  obtain c where c: "pc_call (pc s k) = Some c" using on_cpu_step_call(2) [OF assms(2)] by auto
  have o: "caller_weights N s' j = caller_weights N s j" if "j \<noteq> k" for j
    using e(3,4) that unfolding caller_weights_def by (metis fun_upd_other)
  show ?thesis
  proof (cases "pc s k = At_send c")
    case True
    then have s': "s' = goto k (At_poll c) (s\<lparr>irr := (irr s)(call_cpu c := True)\<rparr>)" using assms(2) by simp
    have "(\<Sum>j<N. caller_weights N s' j) + 13 \<le> (\<Sum>j<N. caller_weights N s j)"
      by (rule sum_less [OF assms(1) o]) (simp_all add: caller_weights_def s' True)
    moreover have "(\<Sum>j<N. target_weight s' j) \<le> (\<Sum>j<N. target_weight s j) + 11"
    proof (cases "call_cpu c < N")
      case c: True
      have "(\<Sum>j<N. target_weight s' j) + (target_weight s (call_cpu c)) = (\<Sum>j<N. target_weight s j) + target_weight s' (call_cpu c)"
        by (rule sum_step [OF c]) (simp_all add: s' target_weight_def)
      moreover have "target_weight s' (call_cpu c) \<le> target_weight s (call_cpu c) + 11"
        by (simp add: s' target_weight_def)
      ultimately show ?thesis by linarith
    next
      case False
      then have "(\<Sum>j<N. target_weight s' j) = (\<Sum>j<N. target_weight s j)"
        by (intro sum.cong) (auto simp: s' target_weight_def)
      then show ?thesis by simp
    qed
    ultimately show ?thesis by (simp add: weight_def)
  next
    case False
    have i: "irr s' = irr s" using assms(2) c False by (cases "pc s k"; simp split: if_splits; force)
    have "(\<Sum>j<N. caller_weights N s' j) + 1 \<le> (\<Sum>j<N. caller_weights N s j)"
    proof (rule sum_less [OF assms(1) o])
      show "caller_weights N s' k + 1 \<le> caller_weights N s k"
        using assms(2) c False e(3) by (cases "pc s k"; simp add: caller_weights_def split: if_splits; force)
    qed
    then show ?thesis by (simp add: weight_def target_weight_def i e(1))
  qed
qed

lemma main_step_weight:
  assumes "k < N" "main_step N k s = Some (es, s')"
  shows "weight N s' < weight N s"
proof (cases "pc s k = Out")
  case False
  then have "on_cpu_step k (pc s k) s = Some (es, s')" using assms(2) by (simp add: main_step_def split: on_cpu_pc.splits)
  then show ?thesis by (rule on_cpu_step_weight [OF assms(1)])
next
  case True
  have t: "irr s' = irr s" "frame s' = frame s"
    using assms(2) True by (auto simp: main_step_def on_cpus_step_def on_cpu_async_def smp_init_step_def on_cpu_def
      split: caller.splits if_splits)
  have "(\<Sum>j<N. caller_weights N s' j) + 1 \<le> (\<Sum>j<N. caller_weights N s j)"
  proof (rule sum_less [OF assms(1)])
    show "caller_weights N s' j = caller_weights N s j" if "j \<noteq> k" for j
      using assms(2) True that by (auto simp: main_step_def on_cpus_step_def on_cpu_async_def smp_init_step_def on_cpu_def
        caller_weights_def split: caller.splits if_splits)
    show "caller_weights N s' k + 1 \<le> caller_weights N s k"
      using assms(2) True by (auto simp: main_step_def on_cpus_step_def on_cpu_async_def smp_init_step_def on_cpu_def
        caller_weights_def split: caller.splits if_splits)
  qed
  then show ?thesis by (simp add: weight_def target_weight_def t)
qed

lemma ongoing_weight: "ongoing N s s' \<Longrightarrow> weight N s' < weight N s"
  unfolding ongoing_def using ipi_step_weight main_step_weight by blast

lemma ongoing_bound: "(ongoing N ^^ m) s s' \<Longrightarrow> m + weight N s' \<le> weight N s"
proof (induction m arbitrary: s')
  case (Suc m)
  from Suc.prems obtain s1 where "(ongoing N ^^ m) s s1" "ongoing N s1 s'" by auto
  then show ?case using Suc.IH [of s1] ongoing_weight [of N s1 s'] by simp
qed simp

section \<open>Nothing waits for ever\<close>

lemma busy_bound: "\<lbrakk>smp_inv N tr s\<rbrakk> \<Longrightarrow> busy N s \<le> 3 * N"
proof -
  have "(\<Sum>k<N. caller_busy (pc s k)) \<le> (\<Sum>k<N. 1)"
  proof (rule sum_mono)
    show "caller_busy (pc s k) \<le> 1" for k by (cases "pc s k") simp_all
  qed
  moreover have "(\<Sum>j<N. target_busy s j) \<le> (\<Sum>j<N. 2)"
  proof (rule sum_mono)
    show "target_busy s j \<le> 2" for j by (cases "frame s j") (simp_all add: target_busy_def)
  qed
  ultimately show ?thesis by (simp add: busy_def)
qed

lemma sless_of_nat: "n < 2 ^ 31 \<Longrightarrow> (1 :: u32) <s of_nat n \<longleftrightarrow> 1 < n"
proof -
  assume n: "n < 2 ^ 31"
  have "LENGTH(32) - 1 = (31 :: nat)" by simp
  then have "sint (of_nat n :: u32) = signed_take_bit 31 (int n)"
    by (metis of_int_of_nat_eq sint_sbintrunc')
  also have "\<dots> = int n" using n by (intro signed_take_bit_int_eq_self) simp_all
  finally show ?thesis by (simp add: word_sless_alt)
qed

text \<open>\<open>on_cpus\<close> goes on when no call is in flight.\<close>

lemma cpus_active_busy:
  assumes "smp_inv N tr s" "init_over s" "N < 2 ^ 29"
  shows "\<not> 1 <s cpus_active s \<longleftrightarrow> busy N s = 0"
proof -
  have "cpus_active s = of_nat (busy N s + 1)" using assms(1,2) by (simp add: smp_inv_def cpus_active_def add.commute)
  moreover have "busy N s + 1 < 2 ^ 31" using busy_bound [OF assms(1)] assms(3) by simp
  ultimately have "1 <s cpus_active s \<longleftrightarrow> 1 < busy N s + 1" by (simp only: sless_of_nat)
  then show ?thesis by simp
qed

lemma progress:
  assumes inv: "smp_inv N tr s" and stuck: "\<And>s'. \<not> ongoing N s s'" and "N < 2 ^ 29"
  shows "idle N s"
proof -
  have c: "cpus_ok N s" "lock_ok s" "boot_ok N tr s" using inv by (simp_all add: smp_inv_def)
  have no: "ipi_step k (frame s k) s = None" "frame s k = No_ipi \<Longrightarrow> main_step N k s = None" if "k < N" for k
    using stuck that unfolding ongoing_def by (metis not_None_eq surj_pair)+
  have f: "frame s k = No_ipi" for k
  proof (cases "k < N")
    case True
    then show ?thesis using no(1) [of k] by (cases "frame s k") simp_all
  qed (simp add: cpus_ok_out [OF c(1)])
  have i: "\<not> irr s k" for k
  proof (cases "k < N")
    case True
    have "\<not> in_service s k" using c(1) f [of k] by (simp add: cpus_ok_def)
    then show ?thesis using no(1) [OF True] f [of k] by (simp split: if_splits)
  qed (simp add: cpus_ok_out [OF c(1)])
  have q: "quiet s" using f i by (simp add: quiet_def quiet_at_def)
  have m: "on_cpu_step k (pc s k) s = None" if "k < N" for k
    using no(2) [OF that f] by (cases "pc s k") (simp_all add: main_step_def)
  have h: "\<not> holding (pc s k)" for k
  proof
    assume h: "holding (pc s k)"
    then have k: "k < N" using cpus_ok_out [OF c(1), of k] by (cases "k < N") auto
    have "holder_ok s k (pc s k)" using lock_ok_holder [OF c(2) h] by blast
    then show False using m [OF k] q h f i by (cases "pc s k") (auto simp: polled_def split: if_splits)
  qed
  then have "\<not> ipi_lock s" using c(2) holder_okD unfolding lock_ok_def by metis
  then have o: "pc s k = Out" if "k < N" for k using m [OF that] h [of k] by (cases "pc s k") simp_all
  have "busy N s = 0" using o f i by (simp add: busy_def target_busy_def)
  then have a: "init_over s \<Longrightarrow> \<not> 1 <s cpus_active s" using cpus_active_busy [OF inv _ assms(3)] by simp
  have "caller s k = Direct" if k: "k < N" for k
  proof (cases "caller s k")
    case (On_cpus n g d)
    then have "init_over s" using c(3) by (cases "k = 0") (auto simp: init_over_def boot_ok_def split: caller.splits)
    then show ?thesis using no(2) [OF k f] o [OF k] On_cpus a
      by (simp add: main_step_def on_cpus_step_def split: if_splits)
  next
    case (Smp_init j)
    then show ?thesis using no(2) [OF k f] o [OF k] by (simp add: main_step_def)
  qed
  then show ?thesis using o f by (simp add: idle_def)
qed

text \<open>
  C4: without new calls the processors come to rest after boundedly many steps, whatever the interleaving,
  and where no step is left every one is idle: no call, wait or loop of \<open>smp.c\<close> is stuck.
\<close>

theorem smp_calls_finish:
  assumes "smp_start N s0" "smp_run N s0 tr s" "N < 2 ^ 29"
  shows "\<exists>n. \<forall>m s'. (ongoing N ^^ m) s s' \<longrightarrow> m \<le> n \<and> ((\<nexists>s2. ongoing N s' s2) \<longrightarrow> idle N s')"
proof -
  have i: "smp_inv N tr s" by (rule smp_run_inv [OF assms(1,2)])
  have "m \<le> weight N s \<and> ((\<nexists>s2. ongoing N s' s2) \<longrightarrow> idle N s')" if r: "(ongoing N ^^ m) s s'" for m s'
  proof -
    obtain tr' where "smp_inv N tr' s'" using ongoing_inv [OF i r] by blast
    then show ?thesis using progress [of N tr' s'] assms(3) ongoing_bound [OF r] by auto
  qed
  then show ?thesis by blast
qed
section \<open>Calls on all processors\<close>

definition all_issued :: "nat \<Rightarrow> 'f smp_event list \<Rightarrow> 'f smp \<Rightarrow> bool" where
  "all_issued N tr s \<longleftrightarrow> (\<forall>k n f d j. caller s k = On_cpus n f d \<longrightarrow> n \<le> j \<longrightarrow> j < N \<longrightarrow> Issue k (Call j f d False) \<in> set tr)"

lemma all_issued_same: "\<lbrakk>all_issued N tr s; caller s' = caller s\<rbrakk> \<Longrightarrow> all_issued N (tr @ es) s'"
  by (simp add: all_issued_def)

lemma all_issued_on_cpus_step:
  assumes "all_issued N tr s" "caller s k = On_cpus n f d" "on_cpus_step k n f d s = Some (es, s')"
  shows "all_issued N (tr @ es) s'"
proof (cases "n = 0")
  case True
  then show ?thesis using assms by (auto simp: all_issued_def on_cpus_step_def split: if_splits)
next
  case False
  then have s': "es = [Issue k (Call (n - 1) f d False)]" "caller s' = (caller s)(k := On_cpus (n - 1) f d)"
    using assms(3) by (auto simp: on_cpus_step_def on_cpu_async_def)
  have "Issue k (Call j f d False) \<in> set tr" if "n \<le> j" "j < N" for j using assms(1,2) that by (simp add: all_issued_def)
  then have "Issue k (Call j f d False) \<in> set (tr @ es)" if "n - 1 \<le> j" "j < N" for j
    using that s'(1) by (cases "j = n - 1") auto
  then show ?thesis using assms(1) s'(2) by (simp add: all_issued_def)
qed

lemma all_issued_step: "smp_step N s es s' \<Longrightarrow> all_issued N tr s \<Longrightarrow> all_issued N (tr @ es) s'"
proof (induction rule: smp_step.induct)
  case (handler k s es s')
  then show ?case using all_issued_same ipi_step_others(2) by metis
next
  case (main k s es s')
  show ?case
  proof (cases "pc s k = Out")
    case False
    then have "on_cpu_step k (pc s k) s = Some (es, s')" using main by (simp add: main_step_def split: on_cpu_pc.splits)
    then show ?thesis using all_issued_same main on_cpu_step_others(3) by metis
  next
    case True
    show ?thesis
    proof (cases "caller s k")
      case (On_cpus n f d)
      then show ?thesis using main True by (auto simp: main_step_def intro: all_issued_on_cpus_step)
    qed (use main True in \<open>auto simp: main_step_def smp_init_step_def on_cpu_def all_issued_def split: if_splits\<close>)
  qed
qed (auto simp: on_cpu_def on_cpu_async_def on_cpus_def all_issued_def)

lemma smp_run_all_issued:
  assumes "smp_start N s0" "smp_run N s0 tr s"
  shows "all_issued N tr s"
  using assms(2)
proof induction
  case start
  show ?case using assms(1) by (auto simp: all_issued_def smp_start_def)
next
  case (step tr s es s')
  show ?case by (rule all_issued_step [OF step.hyps(2) step.IH])
qed

lemma ret_all_step:
  assumes "smp_step N s [Ret_all k f d] s'"
  shows "pc s k = Out \<and> caller s k = On_cpus 0 f d \<and> \<not> 1 <s cpus_active s \<and> k < N"
  using assms
proof cases
  case (handler j)
  then show ?thesis using ipi_step_events by fastforce
next
  case (main j)
  show ?thesis
  proof (cases "pc s j")
    case Out
    then show ?thesis using main by (auto simp: main_step_def on_cpus_step_def on_cpu_async_def smp_init_step_def on_cpu_def
      split: caller.splits if_splits)
  qed (use main on_cpu_step_events [of j "pc s j" s "[Ret_all k f d]" s'] in \<open>auto simp: main_step_def\<close>)
qed (auto simp: on_cpu_def on_cpu_async_def on_cpus_def)

lemma target_not_busy: "target_busy s j = 0 \<Longrightarrow> target_part s j = {#}"
  by (cases "frame s j") (auto simp: target_busy_def target_part_def)

text \<open>
  C35: when \<open>on_cpus\<close> returns it has called the function on every processor, and every call anyone began has
  been run: those left are of other processors that still wait for the lock or have just taken it.
\<close>

theorem smp_on_cpus_waits:
  assumes "smp_start N s0" "smp_run N s0 (tr @ [Ret_all k f d]) s" "N < 2 ^ 29"
  shows "\<exists>s1. smp_run N s0 tr s1 \<and> (\<forall>j<N. Issue k (Call j f d False) \<in> set tr) \<and>
    issued tr = ran tr + (\<Sum>i \<in> {..<N} - {k}. caller_part (pc s1 i)) \<and>
    (\<forall>i<N. caller_part (pc s1 i) \<noteq> {#} \<longrightarrow> (\<exists>c. pc s1 i = At_lock c \<or> pc s1 i = At_test c))"
proof -
  obtain s1 s2 where s: "smp_run N s0 tr s1" "smp_step N s1 [Ret_all k f d] s2" using smp_run_last [OF assms(2)] by blast
  have i: "smp_inv N tr s1" by (rule smp_run_inv [OF assms(1) s(1)])
  note r = ret_all_step [OF s(2)]
  have "boot_ok N tr s1" using i by (simp add: smp_inv_def)
  then have "init_over s1" using r by (cases "k = 0") (auto simp: init_over_def boot_ok_def split: caller.splits)
  then have "busy N s1 = 0" using cpus_active_busy [OF i _ assms(3)] r by simp
  then have z: "caller_busy (pc s1 j) = 0" "target_busy s1 j = 0" if "j < N" for j using that by (simp_all add: busy_def)
  have "(\<Sum>j<N. target_part s1 j) = {#}"
    by (rule sum.neutral) (use z(2) target_not_busy in blast)
  then have "flights N s1 = (\<Sum>i<N. caller_part (pc s1 i))" by (simp add: flights_def)
  also have "\<dots> = (\<Sum>i \<in> {..<N} - {k}. caller_part (pc s1 i))" using r sum.remove [of "{..<N}" k "\<lambda>i. caller_part (pc s1 i)"] by simp
  finally have "issued tr = ran tr + (\<Sum>i \<in> {..<N} - {k}. caller_part (pc s1 i))" using i by (simp add: smp_inv_def)
  moreover have "\<exists>c. pc s1 j = At_lock c \<or> pc s1 j = At_test c" if "j < N" "caller_part (pc s1 j) \<noteq> {#}" for j
    using z(1) [OF that(1)] that(2) by (cases "pc s1 j") auto
  moreover have "Issue k (Call j f d False) \<in> set tr" if "j < N" for j
    using smp_run_all_issued [OF assms(1) s(1)] r that by (simp add: all_issued_def)
  ultimately show ?thesis using s(1) by blast
qed

text \<open>The number of the processor and of the processors.\<close>

definition smp_id :: "nat \<Rightarrow> 'f smp \<Rightarrow> nat" where
  "smp_id k s = gs_id s k"

text \<open>After \<open>smp_init\<close> every processor knows its number.\<close>

lemma smp_ids_set: "\<lbrakk>smp_start N s0; smp_run N s0 tr s; init_over s; k < N\<rbrakk> \<Longrightarrow> smp_id k s = k"
  using smp_run_inv [of N s0 tr s] boot_ok_init_over [of N tr s k] by (simp add: smp_inv_def smp_id_def)

section \<open>The configuration device\<close>

definition BIOS_CFG_IOPORT :: u16 where "BIOS_CFG_IOPORT = 0x510"

primrec fwcfg_get_loop :: "'d machine \<Rightarrow> nat list \<Rightarrow> u64 \<Rightarrow> 'd \<Rightarrow> u64 \<times> 'd" where
  "fwcfg_get_loop M [] r d = (r, d)"
| "fwcfg_get_loop M (i # is) r d =
     (let (b, d) = in8 M (BIOS_CFG_IOPORT + 1) d in fwcfg_get_loop M is (r OR push_bit (i * 8) (ucast b)) d)"

definition fwcfg_get_u :: "'d machine \<Rightarrow> u16 \<Rightarrow> nat \<Rightarrow> 'd \<Rightarrow> u64 \<times> 'd" where
  "fwcfg_get_u M index bytes d = fwcfg_get_loop M [0..<bytes] 0 (out16 M BIOS_CFG_IOPORT index d)"

definition fwcfg_get_u8 :: "'d machine \<Rightarrow> u32 \<Rightarrow> 'd \<Rightarrow> u8 \<times> 'd" where
  "fwcfg_get_u8 M index d = apfst ucast (fwcfg_get_u M (ucast index) 1 d)"

definition fwcfg_get_u16 :: "'d machine \<Rightarrow> u32 \<Rightarrow> 'd \<Rightarrow> u16 \<times> 'd" where
  "fwcfg_get_u16 M index d = apfst ucast (fwcfg_get_u M (ucast index) 2 d)"

definition fwcfg_get_u32 :: "'d machine \<Rightarrow> u32 \<Rightarrow> 'd \<Rightarrow> u32 \<times> 'd" where
  "fwcfg_get_u32 M index d = apfst ucast (fwcfg_get_u M (ucast index) 4 d)"

definition fwcfg_get_u64 :: "'d machine \<Rightarrow> u32 \<Rightarrow> 'd \<Rightarrow> u64 \<times> 'd" where
  "fwcfg_get_u64 M index d = fwcfg_get_u M (ucast index) 8 d"

definition fwcfg_get_nb_cpus :: nat where "fwcfg_get_nb_cpus = 2"

section \<open>An example\<close>

text \<open>A schedule: which processor moves, in its handler or in its program.\<close>

primrec schedule :: "nat \<Rightarrow> (nat \<times> bool) list \<Rightarrow> 'f smp \<Rightarrow> ('f smp_event list \<times> 'f smp) option" where
  "schedule N [] s = Some ([], s)"
| "schedule N (m # ms) s =
     (case (if snd m then ipi_step (fst m) (frame s (fst m)) s
            else if frame s (fst m) = No_ipi then main_step N (fst m) s else None) of
        None \<Rightarrow> None
      | Some (es, s) \<Rightarrow> (case schedule N ms s of None \<Rightarrow> None | Some (es', s) \<Rightarrow> Some (es @ es', s)))"

lemma schedule_run:
  "\<lbrakk>schedule N ms s = Some (es, s'); smp_run N s0 tr s; \<forall>m \<in> set ms. fst m < N\<rbrakk> \<Longrightarrow> smp_run N s0 (tr @ es) s'"
proof (induction ms arbitrary: s es tr)
  case (Cons m ms)
  obtain e1 s1 e2 where e: "(if snd m then ipi_step (fst m) (frame s (fst m)) s
      else if frame s (fst m) = No_ipi then main_step N (fst m) s else None) = Some (e1, s1)"
    "schedule N ms s1 = Some (e2, s')" "es = e1 @ e2"
    using Cons.prems(1) by (auto split: option.splits prod.splits)
  have "smp_step N s e1 s1" using e(1) Cons.prems(3) by (auto split: if_splits intro: smp_step.intros)
  then have "smp_run N s0 (tr @ e1) s1" by (rule smp_run.step [OF Cons.prems(2)])
  then have "smp_run N s0 ((tr @ e1) @ e2) s'" using Cons.prems(3) by (intro Cons.IH [OF e(2)]) simp_all
  then show ?case by (simp add: e(3))
qed simp

definition smp_sample :: "unit smp" where
  "smp_sample = \<lparr>ipi_lock = False, ipi_function = Setup_smp_id, ipi_data = 0, ipi_done = False, ipi_wait = False,
     active_cpus = 0, gs_id = (\<lambda>_. 0), irr = (\<lambda>_. False), in_service = (\<lambda>_. False), pc = (\<lambda>_. Out),
     caller = (\<lambda>k. if k = 0 then Smp_init 1 else Direct), frame = (\<lambda>_. No_ipi)\<rparr>"

text \<open>\<open>smp_init\<close> on two processors, then a call of a function on both.\<close>

definition init_schedule :: "(nat \<times> bool) list" where
  "init_schedule = replicate 8 (0, False) @ replicate 9 (1, True) @ replicate 2 (0, False)"

definition all_schedule :: "(nat \<times> bool) list" where
  "all_schedule = replicate 8 (0, False) @ replicate 5 (1, True) @ replicate 6 (0, False) @ replicate 4 (1, True)"

definition init_events :: "unit smp_event list" where
  "init_events = [Issue 0 (Call 1 Setup_smp_id 0 True), Ran 1 Setup_smp_id 0]"

definition all_events :: "unit smp_event list" where
  "all_events = [Issue 0 (Call 1 (User_fn ()) 7 False), Ret 0 (Call 1 (User_fn ()) 7 False), Issue 0 (Call 0 (User_fn ()) 7 False),
     Ran 0 (User_fn ()) 7, Ret 0 (Call 0 (User_fn ()) 7 False), Ran 1 (User_fn ()) 7]"

lemma smp_start_sample: "smp_start n smp_sample"
  by (simp add: smp_start_def smp_sample_def)

lemma init_runs:
  "\<exists>s. schedule 2 init_schedule smp_sample = Some (init_events @ [Ret 0 (Call 1 Setup_smp_id 0 True)], s)"
  by (simp add: init_schedule_def init_events_def smp_sample_def numeral_eq_Suc main_step_def smp_init_step_def on_cpu_def call_fn_on_def)

lemma all_runs:
  "\<exists>s s'. schedule 2 (init_schedule @ [(0, False)]) smp_sample = Some (init_events @ [Ret 0 (Call 1 Setup_smp_id 0 True), Init_done], s) \<and>
     init_over s \<and> frame s 0 = No_ipi \<and> pc s 0 = Out \<and> caller s 0 = Direct \<and>
     schedule 2 (all_schedule @ [(0, False)]) (snd (on_cpus 2 0 (User_fn ()) 7 s)) = Some (all_events @ [Ret_all 0 (User_fn ()) 7], s') \<and>
     idle 2 s' \<and> init_over s'"
  by (simp add: init_schedule_def init_events_def all_schedule_def all_events_def smp_sample_def numeral_eq_Suc main_step_def
      smp_init_step_def on_cpu_def call_fn_on_def init_over_def on_cpus_def on_cpus_step_def on_cpu_async_def cpus_active_def
      idle_def less_Suc_eq)

text \<open>The run of the example, up to the return of \<open>on_cpus\<close> and with it.\<close>

definition sample_trace :: "unit smp_event list" where
  "sample_trace = init_events @ [Ret 0 (Call 1 Setup_smp_id 0 True), Init_done, Issue_all 0 (User_fn ()) 7] @ all_events"

lemma schedule_append:
  "schedule N (ms @ ms') s = (case schedule N ms s of None \<Rightarrow> None
     | Some (es, s) \<Rightarrow> (case schedule N ms' s of None \<Rightarrow> None | Some (es', s) \<Rightarrow> Some (es @ es', s)))"
  by (induction ms arbitrary: s) (auto split: option.splits)

lemma sample_run:
  "\<exists>s. smp_run 2 smp_sample (sample_trace @ [Ret_all 0 (User_fn ()) 7]) s \<and> idle 2 s \<and> init_over s"
proof -
  obtain s s' where r: "schedule 2 (init_schedule @ [(0, False)]) smp_sample = Some (init_events @ [Ret 0 (Call 1 Setup_smp_id 0 True), Init_done], s)"
    "init_over s" "frame s 0 = No_ipi" "pc s 0 = Out" "caller s 0 = Direct"
    "schedule 2 (all_schedule @ [(0, False)]) (snd (on_cpus 2 0 (User_fn ()) 7 s)) = Some (all_events @ [Ret_all 0 (User_fn ()) 7], s')"
    "idle 2 s'" "init_over s'"
    using all_runs by blast
  have "smp_run 2 smp_sample ([] @ init_events @ [Ret 0 (Call 1 Setup_smp_id 0 True), Init_done]) s"
    by (rule schedule_run [OF r(1) smp_run.start]) (auto simp: init_schedule_def)
  then have "smp_run 2 smp_sample (([] @ init_events @ [Ret 0 (Call 1 Setup_smp_id 0 True), Init_done]) @ [Issue_all 0 (User_fn ()) 7])
      (snd (on_cpus 2 0 (User_fn ()) 7 s))"
    by (rule smp_run.step) (rule smp_step.all [OF r(2) _ r(3-5)], simp_all add: on_cpus_def)
  from schedule_run [OF r(6) this] have "smp_run 2 smp_sample (sample_trace @ [Ret_all 0 (User_fn ()) 7]) s'"
    by (auto simp: sample_trace_def all_schedule_def)
  then show ?thesis using r(7,8) by blast
qed

lemma smp_calls_run_once_witness:
  "\<exists>s. smp_run 2 smp_sample (sample_trace @ [Ret_all 0 (User_fn ()) 7]) s \<and> idle 2 s \<and> cpus_active s = 1 \<and>
     ran (sample_trace @ [Ret_all 0 (User_fn ()) 7]) = issued (sample_trace @ [Ret_all 0 (User_fn ()) 7])"
proof -
  obtain s where s: "smp_run 2 smp_sample (sample_trace @ [Ret_all 0 (User_fn ()) 7]) s" "idle 2 s" "init_over s"
    using sample_run by blast
  then show ?thesis using smp_calls_run_once [OF smp_start_sample s(1)] by auto
qed

lemma smp_wait_returns_witness:
  "(\<exists>s. smp_run 2 smp_sample (init_events @ [Ret 0 (Call 1 Setup_smp_id 0 True)]) s) \<and>
   Ran 1 Setup_smp_id 0 \<in> set (since 0 init_events)"
proof -
  obtain s where s: "schedule 2 init_schedule smp_sample = Some (init_events @ [Ret 0 (Call 1 Setup_smp_id 0 True)], s)"
    using init_runs by blast
  have "smp_run 2 smp_sample ([] @ init_events @ [Ret 0 (Call 1 Setup_smp_id 0 True)]) s"
    by (rule schedule_run [OF s smp_run.start]) (auto simp: init_schedule_def)
  then have r: "smp_run 2 smp_sample (init_events @ [Ret 0 (Call 1 Setup_smp_id 0 True)]) s" by simp
  show ?thesis using smp_wait_returns [OF smp_start_sample r] r by auto
qed

lemma smp_calls_finish_witness:
  "\<exists>n. \<forall>m s'. (ongoing 2 ^^ m) smp_sample s' \<longrightarrow> m \<le> n \<and> ((\<nexists>s2. ongoing 2 s' s2) \<longrightarrow> idle 2 s')"
  by (rule smp_calls_finish [OF smp_start_sample smp_run.start]) simp

lemma smp_on_cpus_waits_witness:
  "\<exists>s1. smp_run 2 smp_sample sample_trace s1 \<and> Issue 0 (Call 1 (User_fn ()) 7 False) \<in> set sample_trace \<and>
     issued sample_trace = ran sample_trace + caller_part (pc s1 1)"
proof -
  obtain s where "smp_run 2 smp_sample (sample_trace @ [Ret_all 0 (User_fn ()) 7]) s" using sample_run by blast
  from smp_on_cpus_waits [OF smp_start_sample this] obtain s1 where s1: "smp_run 2 smp_sample sample_trace s1"
    "\<forall>j<2. Issue 0 (Call j (User_fn ()) 7 False) \<in> set sample_trace"
    "issued sample_trace = ran sample_trace + (\<Sum>i \<in> {..<2} - {0}. caller_part (pc s1 i))" by auto
  have "{..<2} - {0} = {1 :: nat}" by auto
  then show ?thesis using s1 by auto
qed
end
