(* ===== verification/VmxDefs.thy ===== *)
theory VmxDefs
  imports Prelude
begin

text \<open>
  The constants of \<open>x86/vmx.h\<close>: the encodings of the fields of a VMCS, exit reasons and control bits. An
  \<open>enum\<close> is a word here, as wide as its use: the code puts the values into registers and masks.
\<close>

named_theorems vmx_const "the values of the constants"

text \<open>\<open>enum Encoding\<close>\<close>

definition VPID :: u64 where [vmx_const]: "VPID = 0"
definition PINV :: u64 where [vmx_const]: "PINV = 0x0002"
definition EPTP_IDX :: u64 where [vmx_const]: "EPTP_IDX = 0x0004"
definition GUEST_SEL_ES :: u64 where [vmx_const]: "GUEST_SEL_ES = 0x0800"
definition GUEST_SEL_CS :: u64 where [vmx_const]: "GUEST_SEL_CS = 0x0802"
definition GUEST_SEL_SS :: u64 where [vmx_const]: "GUEST_SEL_SS = 0x0804"
definition GUEST_SEL_DS :: u64 where [vmx_const]: "GUEST_SEL_DS = 0x0806"
definition GUEST_SEL_FS :: u64 where [vmx_const]: "GUEST_SEL_FS = 0x0808"
definition GUEST_SEL_GS :: u64 where [vmx_const]: "GUEST_SEL_GS = 0x080a"
definition GUEST_SEL_LDTR :: u64 where [vmx_const]: "GUEST_SEL_LDTR = 0x080c"
definition GUEST_SEL_TR :: u64 where [vmx_const]: "GUEST_SEL_TR = 0x080e"
definition GUEST_INT_STATUS :: u64 where [vmx_const]: "GUEST_INT_STATUS = 0x0810"
definition GUEST_PML_INDEX :: u64 where [vmx_const]: "GUEST_PML_INDEX = 0x0812"
definition HOST_SEL_ES :: u64 where [vmx_const]: "HOST_SEL_ES = 0x0c00"
definition HOST_SEL_CS :: u64 where [vmx_const]: "HOST_SEL_CS = 0x0c02"
definition HOST_SEL_SS :: u64 where [vmx_const]: "HOST_SEL_SS = 0x0c04"
definition HOST_SEL_DS :: u64 where [vmx_const]: "HOST_SEL_DS = 0x0c06"
definition HOST_SEL_FS :: u64 where [vmx_const]: "HOST_SEL_FS = 0x0c08"
definition HOST_SEL_GS :: u64 where [vmx_const]: "HOST_SEL_GS = 0x0c0a"
definition HOST_SEL_TR :: u64 where [vmx_const]: "HOST_SEL_TR = 0x0c0c"
definition IO_BITMAP_A :: u64 where [vmx_const]: "IO_BITMAP_A = 0x2000"
definition IO_BITMAP_B :: u64 where [vmx_const]: "IO_BITMAP_B = 0x2002"
definition MSR_BITMAP :: u64 where [vmx_const]: "MSR_BITMAP = 0x2004"
definition EXIT_MSR_ST_ADDR :: u64 where [vmx_const]: "EXIT_MSR_ST_ADDR = 0x2006"
definition EXIT_MSR_LD_ADDR :: u64 where [vmx_const]: "EXIT_MSR_LD_ADDR = 0x2008"
definition ENTER_MSR_LD_ADDR :: u64 where [vmx_const]: "ENTER_MSR_LD_ADDR = 0x200a"
definition VMCS_EXEC_PTR :: u64 where [vmx_const]: "VMCS_EXEC_PTR = 0x200c"
definition TSC_OFFSET :: u64 where [vmx_const]: "TSC_OFFSET = 0x2010"
definition TSC_OFFSET_HI :: u64 where [vmx_const]: "TSC_OFFSET_HI = 0x2011"
definition APIC_VIRT_ADDR :: u64 where [vmx_const]: "APIC_VIRT_ADDR = 0x2012"
definition APIC_ACCS_ADDR :: u64 where [vmx_const]: "APIC_ACCS_ADDR = 0x2014"
definition POSTED_INTR_DESC_ADDR :: u64 where [vmx_const]: "POSTED_INTR_DESC_ADDR = 0x2016"
definition EPTP :: u64 where [vmx_const]: "EPTP = 0x201a"
definition EPTP_HI :: u64 where [vmx_const]: "EPTP_HI = 0x201b"
definition VMREAD_BITMAP :: u64 where [vmx_const]: "VMREAD_BITMAP = 0x2026"
definition VMREAD_BITMAP_HI :: u64 where [vmx_const]: "VMREAD_BITMAP_HI = 0x2027"
definition VMWRITE_BITMAP :: u64 where [vmx_const]: "VMWRITE_BITMAP = 0x2028"
definition VMWRITE_BITMAP_HI :: u64 where [vmx_const]: "VMWRITE_BITMAP_HI = 0x2029"
definition EOI_EXIT_BITMAP0 :: u64 where [vmx_const]: "EOI_EXIT_BITMAP0 = 0x201c"
definition EOI_EXIT_BITMAP1 :: u64 where [vmx_const]: "EOI_EXIT_BITMAP1 = 0x201e"
definition EOI_EXIT_BITMAP2 :: u64 where [vmx_const]: "EOI_EXIT_BITMAP2 = 0x2020"
definition EOI_EXIT_BITMAP3 :: u64 where [vmx_const]: "EOI_EXIT_BITMAP3 = 0x2022"
definition PMLADDR :: u64 where [vmx_const]: "PMLADDR = 0x200e"
definition PMLADDR_HI :: u64 where [vmx_const]: "PMLADDR_HI = 0x200f"
definition INFO_PHYS_ADDR :: u64 where [vmx_const]: "INFO_PHYS_ADDR = 0x2400"
definition VMCS_LINK_PTR :: u64 where [vmx_const]: "VMCS_LINK_PTR = 0x2800"
definition VMCS_LINK_PTR_HI :: u64 where [vmx_const]: "VMCS_LINK_PTR_HI = 0x2801"
definition GUEST_DEBUGCTL :: u64 where [vmx_const]: "GUEST_DEBUGCTL = 0x2802"
definition GUEST_DEBUGCTL_HI :: u64 where [vmx_const]: "GUEST_DEBUGCTL_HI = 0x2803"
definition GUEST_EFER :: u64 where [vmx_const]: "GUEST_EFER = 0x2806"
definition GUEST_PAT :: u64 where [vmx_const]: "GUEST_PAT = 0x2804"
definition GUEST_PERF_GLOBAL_CTRL :: u64 where [vmx_const]: "GUEST_PERF_GLOBAL_CTRL = 0x2808"
definition GUEST_PDPTE :: u64 where [vmx_const]: "GUEST_PDPTE = 0x280a"
definition HOST_PAT :: u64 where [vmx_const]: "HOST_PAT = 0x2c00"
definition HOST_EFER :: u64 where [vmx_const]: "HOST_EFER = 0x2c02"
definition HOST_PERF_GLOBAL_CTRL :: u64 where [vmx_const]: "HOST_PERF_GLOBAL_CTRL = 0x2c04"
definition PIN_CONTROLS :: u64 where [vmx_const]: "PIN_CONTROLS = 0x4000"
definition CPU_EXEC_CTRL0 :: u64 where [vmx_const]: "CPU_EXEC_CTRL0 = 0x4002"
definition EXC_BITMAP :: u64 where [vmx_const]: "EXC_BITMAP = 0x4004"
definition PF_ERROR_MASK :: u64 where [vmx_const]: "PF_ERROR_MASK = 0x4006"
definition PF_ERROR_MATCH :: u64 where [vmx_const]: "PF_ERROR_MATCH = 0x4008"
definition CR3_TARGET_COUNT :: u64 where [vmx_const]: "CR3_TARGET_COUNT = 0x400a"
definition EXI_CONTROLS :: u64 where [vmx_const]: "EXI_CONTROLS = 0x400c"
definition EXI_MSR_ST_CNT :: u64 where [vmx_const]: "EXI_MSR_ST_CNT = 0x400e"
definition EXI_MSR_LD_CNT :: u64 where [vmx_const]: "EXI_MSR_LD_CNT = 0x4010"
definition ENT_CONTROLS :: u64 where [vmx_const]: "ENT_CONTROLS = 0x4012"
definition ENT_MSR_LD_CNT :: u64 where [vmx_const]: "ENT_MSR_LD_CNT = 0x4014"
definition ENT_INTR_INFO :: u64 where [vmx_const]: "ENT_INTR_INFO = 0x4016"
definition ENT_INTR_ERROR :: u64 where [vmx_const]: "ENT_INTR_ERROR = 0x4018"
definition ENT_INST_LEN :: u64 where [vmx_const]: "ENT_INST_LEN = 0x401a"
definition TPR_THRESHOLD :: u64 where [vmx_const]: "TPR_THRESHOLD = 0x401c"
definition CPU_EXEC_CTRL1 :: u64 where [vmx_const]: "CPU_EXEC_CTRL1 = 0x401e"
definition VMX_INST_ERROR :: u64 where [vmx_const]: "VMX_INST_ERROR = 0x4400"
definition EXI_REASON :: u64 where [vmx_const]: "EXI_REASON = 0x4402"
definition EXI_INTR_INFO :: u64 where [vmx_const]: "EXI_INTR_INFO = 0x4404"
definition EXI_INTR_ERROR :: u64 where [vmx_const]: "EXI_INTR_ERROR = 0x4406"
definition IDT_VECT_INFO :: u64 where [vmx_const]: "IDT_VECT_INFO = 0x4408"
definition IDT_VECT_ERROR :: u64 where [vmx_const]: "IDT_VECT_ERROR = 0x440a"
definition EXI_INST_LEN :: u64 where [vmx_const]: "EXI_INST_LEN = 0x440c"
definition EXI_INST_INFO :: u64 where [vmx_const]: "EXI_INST_INFO = 0x440e"
definition GUEST_LIMIT_ES :: u64 where [vmx_const]: "GUEST_LIMIT_ES = 0x4800"
definition GUEST_LIMIT_CS :: u64 where [vmx_const]: "GUEST_LIMIT_CS = 0x4802"
definition GUEST_LIMIT_SS :: u64 where [vmx_const]: "GUEST_LIMIT_SS = 0x4804"
definition GUEST_LIMIT_DS :: u64 where [vmx_const]: "GUEST_LIMIT_DS = 0x4806"
definition GUEST_LIMIT_FS :: u64 where [vmx_const]: "GUEST_LIMIT_FS = 0x4808"
definition GUEST_LIMIT_GS :: u64 where [vmx_const]: "GUEST_LIMIT_GS = 0x480a"
definition GUEST_LIMIT_LDTR :: u64 where [vmx_const]: "GUEST_LIMIT_LDTR = 0x480c"
definition GUEST_LIMIT_TR :: u64 where [vmx_const]: "GUEST_LIMIT_TR = 0x480e"
definition GUEST_LIMIT_GDTR :: u64 where [vmx_const]: "GUEST_LIMIT_GDTR = 0x4810"
definition GUEST_LIMIT_IDTR :: u64 where [vmx_const]: "GUEST_LIMIT_IDTR = 0x4812"
definition GUEST_AR_ES :: u64 where [vmx_const]: "GUEST_AR_ES = 0x4814"
definition GUEST_AR_CS :: u64 where [vmx_const]: "GUEST_AR_CS = 0x4816"
definition GUEST_AR_SS :: u64 where [vmx_const]: "GUEST_AR_SS = 0x4818"
definition GUEST_AR_DS :: u64 where [vmx_const]: "GUEST_AR_DS = 0x481a"
definition GUEST_AR_FS :: u64 where [vmx_const]: "GUEST_AR_FS = 0x481c"
definition GUEST_AR_GS :: u64 where [vmx_const]: "GUEST_AR_GS = 0x481e"
definition GUEST_AR_LDTR :: u64 where [vmx_const]: "GUEST_AR_LDTR = 0x4820"
definition GUEST_AR_TR :: u64 where [vmx_const]: "GUEST_AR_TR = 0x4822"
definition GUEST_INTR_STATE :: u64 where [vmx_const]: "GUEST_INTR_STATE = 0x4824"
definition GUEST_ACTV_STATE :: u64 where [vmx_const]: "GUEST_ACTV_STATE = 0x4826"
definition GUEST_SMBASE :: u64 where [vmx_const]: "GUEST_SMBASE = 0x4828"
definition GUEST_SYSENTER_CS :: u64 where [vmx_const]: "GUEST_SYSENTER_CS = 0x482a"
definition PREEMPT_TIMER_VALUE :: u64 where [vmx_const]: "PREEMPT_TIMER_VALUE = 0x482e"
definition HOST_SYSENTER_CS :: u64 where [vmx_const]: "HOST_SYSENTER_CS = 0x4c00"
definition CR0_MASK :: u64 where [vmx_const]: "CR0_MASK = 0x6000"
definition CR4_MASK :: u64 where [vmx_const]: "CR4_MASK = 0x6002"
definition CR0_READ_SHADOW :: u64 where [vmx_const]: "CR0_READ_SHADOW = 0x6004"
definition CR4_READ_SHADOW :: u64 where [vmx_const]: "CR4_READ_SHADOW = 0x6006"
definition CR3_TARGET_0 :: u64 where [vmx_const]: "CR3_TARGET_0 = 0x6008"
definition CR3_TARGET_1 :: u64 where [vmx_const]: "CR3_TARGET_1 = 0x600a"
definition CR3_TARGET_2 :: u64 where [vmx_const]: "CR3_TARGET_2 = 0x600c"
definition CR3_TARGET_3 :: u64 where [vmx_const]: "CR3_TARGET_3 = 0x600e"
definition EXI_QUALIFICATION :: u64 where [vmx_const]: "EXI_QUALIFICATION = 0x6400"
definition IO_RCX :: u64 where [vmx_const]: "IO_RCX = 0x6402"
definition IO_RSI :: u64 where [vmx_const]: "IO_RSI = 0x6404"
definition IO_RDI :: u64 where [vmx_const]: "IO_RDI = 0x6406"
definition IO_RIP :: u64 where [vmx_const]: "IO_RIP = 0x6408"
definition GUEST_LINEAR_ADDRESS :: u64 where [vmx_const]: "GUEST_LINEAR_ADDRESS = 0x640a"
definition GUEST_CR0 :: u64 where [vmx_const]: "GUEST_CR0 = 0x6800"
definition GUEST_CR3 :: u64 where [vmx_const]: "GUEST_CR3 = 0x6802"
definition GUEST_CR4 :: u64 where [vmx_const]: "GUEST_CR4 = 0x6804"
definition GUEST_BASE_ES :: u64 where [vmx_const]: "GUEST_BASE_ES = 0x6806"
definition GUEST_BASE_CS :: u64 where [vmx_const]: "GUEST_BASE_CS = 0x6808"
definition GUEST_BASE_SS :: u64 where [vmx_const]: "GUEST_BASE_SS = 0x680a"
definition GUEST_BASE_DS :: u64 where [vmx_const]: "GUEST_BASE_DS = 0x680c"
definition GUEST_BASE_FS :: u64 where [vmx_const]: "GUEST_BASE_FS = 0x680e"
definition GUEST_BASE_GS :: u64 where [vmx_const]: "GUEST_BASE_GS = 0x6810"
definition GUEST_BASE_LDTR :: u64 where [vmx_const]: "GUEST_BASE_LDTR = 0x6812"
definition GUEST_BASE_TR :: u64 where [vmx_const]: "GUEST_BASE_TR = 0x6814"
definition GUEST_BASE_GDTR :: u64 where [vmx_const]: "GUEST_BASE_GDTR = 0x6816"
definition GUEST_BASE_IDTR :: u64 where [vmx_const]: "GUEST_BASE_IDTR = 0x6818"
definition GUEST_DR7 :: u64 where [vmx_const]: "GUEST_DR7 = 0x681a"
definition GUEST_RSP :: u64 where [vmx_const]: "GUEST_RSP = 0x681c"
definition GUEST_RIP :: u64 where [vmx_const]: "GUEST_RIP = 0x681e"
definition GUEST_RFLAGS :: u64 where [vmx_const]: "GUEST_RFLAGS = 0x6820"
definition GUEST_PENDING_DEBUG :: u64 where [vmx_const]: "GUEST_PENDING_DEBUG = 0x6822"
definition GUEST_SYSENTER_ESP :: u64 where [vmx_const]: "GUEST_SYSENTER_ESP = 0x6824"
definition GUEST_SYSENTER_EIP :: u64 where [vmx_const]: "GUEST_SYSENTER_EIP = 0x6826"
definition HOST_CR0 :: u64 where [vmx_const]: "HOST_CR0 = 0x6c00"
definition HOST_CR3 :: u64 where [vmx_const]: "HOST_CR3 = 0x6c02"
definition HOST_CR4 :: u64 where [vmx_const]: "HOST_CR4 = 0x6c04"
definition HOST_BASE_FS :: u64 where [vmx_const]: "HOST_BASE_FS = 0x6c06"
definition HOST_BASE_GS :: u64 where [vmx_const]: "HOST_BASE_GS = 0x6c08"
definition HOST_BASE_TR :: u64 where [vmx_const]: "HOST_BASE_TR = 0x6c0a"
definition HOST_BASE_GDTR :: u64 where [vmx_const]: "HOST_BASE_GDTR = 0x6c0c"
definition HOST_BASE_IDTR :: u64 where [vmx_const]: "HOST_BASE_IDTR = 0x6c0e"
definition HOST_SYSENTER_ESP :: u64 where [vmx_const]: "HOST_SYSENTER_ESP = 0x6c10"
definition HOST_SYSENTER_EIP :: u64 where [vmx_const]: "HOST_SYSENTER_EIP = 0x6c12"
definition HOST_RSP :: u64 where [vmx_const]: "HOST_RSP = 0x6c14"
definition HOST_RIP :: u64 where [vmx_const]: "HOST_RIP = 0x6c16"

text \<open>\<open>enum Reason\<close>\<close>

definition VMX_EXC_NMI :: u64 where [vmx_const]: "VMX_EXC_NMI = 0"
definition VMX_EXTINT :: u64 where [vmx_const]: "VMX_EXTINT = 1"
definition VMX_TRIPLE_FAULT :: u64 where [vmx_const]: "VMX_TRIPLE_FAULT = 2"
definition VMX_INIT :: u64 where [vmx_const]: "VMX_INIT = 3"
definition VMX_SIPI :: u64 where [vmx_const]: "VMX_SIPI = 4"
definition VMX_SMI_IO :: u64 where [vmx_const]: "VMX_SMI_IO = 5"
definition VMX_SMI_OTHER :: u64 where [vmx_const]: "VMX_SMI_OTHER = 6"
definition VMX_INTR_WINDOW :: u64 where [vmx_const]: "VMX_INTR_WINDOW = 7"
definition VMX_NMI_WINDOW :: u64 where [vmx_const]: "VMX_NMI_WINDOW = 8"
definition VMX_TASK_SWITCH :: u64 where [vmx_const]: "VMX_TASK_SWITCH = 9"
definition VMX_CPUID :: u64 where [vmx_const]: "VMX_CPUID = 10"
definition VMX_GETSEC :: u64 where [vmx_const]: "VMX_GETSEC = 11"
definition VMX_HLT :: u64 where [vmx_const]: "VMX_HLT = 12"
definition VMX_INVD :: u64 where [vmx_const]: "VMX_INVD = 13"
definition VMX_INVLPG :: u64 where [vmx_const]: "VMX_INVLPG = 14"
definition VMX_RDPMC :: u64 where [vmx_const]: "VMX_RDPMC = 15"
definition VMX_RDTSC :: u64 where [vmx_const]: "VMX_RDTSC = 16"
definition VMX_RSM :: u64 where [vmx_const]: "VMX_RSM = 17"
definition VMX_VMCALL :: u64 where [vmx_const]: "VMX_VMCALL = 18"
definition VMX_VMCLEAR :: u64 where [vmx_const]: "VMX_VMCLEAR = 19"
definition VMX_VMLAUNCH :: u64 where [vmx_const]: "VMX_VMLAUNCH = 20"
definition VMX_VMPTRLD :: u64 where [vmx_const]: "VMX_VMPTRLD = 21"
definition VMX_VMPTRST :: u64 where [vmx_const]: "VMX_VMPTRST = 22"
definition VMX_VMREAD :: u64 where [vmx_const]: "VMX_VMREAD = 23"
definition VMX_VMRESUME :: u64 where [vmx_const]: "VMX_VMRESUME = 24"
definition VMX_VMWRITE :: u64 where [vmx_const]: "VMX_VMWRITE = 25"
definition VMX_VMXOFF :: u64 where [vmx_const]: "VMX_VMXOFF = 26"
definition VMX_VMXON :: u64 where [vmx_const]: "VMX_VMXON = 27"
definition VMX_CR :: u64 where [vmx_const]: "VMX_CR = 28"
definition VMX_DR :: u64 where [vmx_const]: "VMX_DR = 29"
definition VMX_IO :: u64 where [vmx_const]: "VMX_IO = 30"
definition VMX_RDMSR :: u64 where [vmx_const]: "VMX_RDMSR = 31"
definition VMX_WRMSR :: u64 where [vmx_const]: "VMX_WRMSR = 32"
definition VMX_FAIL_STATE :: u64 where [vmx_const]: "VMX_FAIL_STATE = 33"
definition VMX_FAIL_MSR :: u64 where [vmx_const]: "VMX_FAIL_MSR = 34"
definition VMX_MWAIT :: u64 where [vmx_const]: "VMX_MWAIT = 36"
definition VMX_MTF :: u64 where [vmx_const]: "VMX_MTF = 37"
definition VMX_MONITOR :: u64 where [vmx_const]: "VMX_MONITOR = 39"
definition VMX_PAUSE :: u64 where [vmx_const]: "VMX_PAUSE = 40"
definition VMX_FAIL_MCHECK :: u64 where [vmx_const]: "VMX_FAIL_MCHECK = 41"
definition VMX_TPR_THRESHOLD :: u64 where [vmx_const]: "VMX_TPR_THRESHOLD = 43"
definition VMX_APIC_ACCESS :: u64 where [vmx_const]: "VMX_APIC_ACCESS = 44"
definition VMX_EOI_INDUCED :: u64 where [vmx_const]: "VMX_EOI_INDUCED = 45"
definition VMX_GDTR_IDTR :: u64 where [vmx_const]: "VMX_GDTR_IDTR = 46"
definition VMX_LDTR_TR :: u64 where [vmx_const]: "VMX_LDTR_TR = 47"
definition VMX_EPT_VIOLATION :: u64 where [vmx_const]: "VMX_EPT_VIOLATION = 48"
definition VMX_EPT_MISCONFIG :: u64 where [vmx_const]: "VMX_EPT_MISCONFIG = 49"
definition VMX_INVEPT :: u64 where [vmx_const]: "VMX_INVEPT = 50"
definition VMX_PREEMPT :: u64 where [vmx_const]: "VMX_PREEMPT = 52"
definition VMX_INVVPID :: u64 where [vmx_const]: "VMX_INVVPID = 53"
definition VMX_WBINVD :: u64 where [vmx_const]: "VMX_WBINVD = 54"
definition VMX_XSETBV :: u64 where [vmx_const]: "VMX_XSETBV = 55"
definition VMX_APIC_WRITE :: u64 where [vmx_const]: "VMX_APIC_WRITE = 56"
definition VMX_RDRAND :: u64 where [vmx_const]: "VMX_RDRAND = 57"
definition VMX_INVPCID :: u64 where [vmx_const]: "VMX_INVPCID = 58"
definition VMX_VMFUNC :: u64 where [vmx_const]: "VMX_VMFUNC = 59"
definition VMX_RDSEED :: u64 where [vmx_const]: "VMX_RDSEED = 61"
definition VMX_PML_FULL :: u64 where [vmx_const]: "VMX_PML_FULL = 62"
definition VMX_XSAVES :: u64 where [vmx_const]: "VMX_XSAVES = 63"
definition VMX_XRSTORS :: u64 where [vmx_const]: "VMX_XRSTORS = 64"

text \<open>\<open>enum Ctrl_exi\<close>\<close>

definition EXI_SAVE_DBGCTLS :: u32 where [vmx_const]: "EXI_SAVE_DBGCTLS = push_bit 2 1"
definition EXI_HOST_64 :: u32 where [vmx_const]: "EXI_HOST_64 = push_bit 9 1"
definition EXI_LOAD_PERF :: u32 where [vmx_const]: "EXI_LOAD_PERF = push_bit 12 1"
definition EXI_INTA :: u32 where [vmx_const]: "EXI_INTA = push_bit 15 1"
definition EXI_SAVE_PAT :: u32 where [vmx_const]: "EXI_SAVE_PAT = push_bit 18 1"
definition EXI_LOAD_PAT :: u32 where [vmx_const]: "EXI_LOAD_PAT = push_bit 19 1"
definition EXI_SAVE_EFER :: u32 where [vmx_const]: "EXI_SAVE_EFER = push_bit 20 1"
definition EXI_LOAD_EFER :: u32 where [vmx_const]: "EXI_LOAD_EFER = push_bit 21 1"
definition EXI_SAVE_PREEMPT :: u32 where [vmx_const]: "EXI_SAVE_PREEMPT = push_bit 22 1"

text \<open>\<open>enum Ctrl_ent\<close>\<close>

definition ENT_LOAD_DBGCTLS :: u32 where [vmx_const]: "ENT_LOAD_DBGCTLS = push_bit 2 1"
definition ENT_GUEST_64 :: u32 where [vmx_const]: "ENT_GUEST_64 = push_bit 9 1"
definition ENT_LOAD_PAT :: u32 where [vmx_const]: "ENT_LOAD_PAT = push_bit 14 1"
definition ENT_LOAD_EFER :: u32 where [vmx_const]: "ENT_LOAD_EFER = push_bit 15 1"

text \<open>\<open>enum Ctrl_pin\<close>\<close>

definition PIN_EXTINT :: u32 where [vmx_const]: "PIN_EXTINT = push_bit 0 1"
definition PIN_NMI :: u32 where [vmx_const]: "PIN_NMI = push_bit 3 1"
definition PIN_VIRT_NMI :: u32 where [vmx_const]: "PIN_VIRT_NMI = push_bit 5 1"
definition PIN_PREEMPT :: u32 where [vmx_const]: "PIN_PREEMPT = push_bit 6 1"
definition PIN_POST_INTR :: u32 where [vmx_const]: "PIN_POST_INTR = push_bit 7 1"

text \<open>\<open>enum Ctrl0\<close>\<close>

definition CPU_INTR_WINDOW :: u32 where [vmx_const]: "CPU_INTR_WINDOW = push_bit 2 1"
definition CPU_HLT :: u32 where [vmx_const]: "CPU_HLT = push_bit 7 1"
definition CPU_INVLPG :: u32 where [vmx_const]: "CPU_INVLPG = push_bit 9 1"
definition CPU_MWAIT :: u32 where [vmx_const]: "CPU_MWAIT = push_bit 10 1"
definition CPU_RDPMC :: u32 where [vmx_const]: "CPU_RDPMC = push_bit 11 1"
definition CPU_RDTSC :: u32 where [vmx_const]: "CPU_RDTSC = push_bit 12 1"
definition CPU_CR3_LOAD :: u32 where [vmx_const]: "CPU_CR3_LOAD = push_bit 15 1"
definition CPU_CR3_STORE :: u32 where [vmx_const]: "CPU_CR3_STORE = push_bit 16 1"
definition CPU_CR8_LOAD :: u32 where [vmx_const]: "CPU_CR8_LOAD = push_bit 19 1"
definition CPU_CR8_STORE :: u32 where [vmx_const]: "CPU_CR8_STORE = push_bit 20 1"
definition CPU_TPR_SHADOW :: u32 where [vmx_const]: "CPU_TPR_SHADOW = push_bit 21 1"
definition CPU_NMI_WINDOW :: u32 where [vmx_const]: "CPU_NMI_WINDOW = push_bit 22 1"
definition CPU_IO :: u32 where [vmx_const]: "CPU_IO = push_bit 24 1"
definition CPU_IO_BITMAP :: u32 where [vmx_const]: "CPU_IO_BITMAP = push_bit 25 1"
definition CPU_MSR_BITMAP :: u32 where [vmx_const]: "CPU_MSR_BITMAP = push_bit 28 1"
definition CPU_MONITOR :: u32 where [vmx_const]: "CPU_MONITOR = push_bit 29 1"
definition CPU_PAUSE :: u32 where [vmx_const]: "CPU_PAUSE = push_bit 30 1"
definition CPU_SECONDARY :: u32 where [vmx_const]: "CPU_SECONDARY = push_bit 31 1"

text \<open>\<open>enum Ctrl1\<close>\<close>

definition CPU_VIRT_APIC_ACCESSES :: u32 where [vmx_const]: "CPU_VIRT_APIC_ACCESSES = push_bit 0 1"
definition CPU_EPT :: u32 where [vmx_const]: "CPU_EPT = push_bit 1 1"
definition CPU_DESC_TABLE :: u32 where [vmx_const]: "CPU_DESC_TABLE = push_bit 2 1"
definition CPU_RDTSCP :: u32 where [vmx_const]: "CPU_RDTSCP = push_bit 3 1"
definition CPU_VIRT_X2APIC :: u32 where [vmx_const]: "CPU_VIRT_X2APIC = push_bit 4 1"
definition CPU_VPID :: u32 where [vmx_const]: "CPU_VPID = push_bit 5 1"
definition CPU_WBINVD :: u32 where [vmx_const]: "CPU_WBINVD = push_bit 6 1"
definition CPU_URG :: u32 where [vmx_const]: "CPU_URG = push_bit 7 1"
definition CPU_APIC_REG_VIRT :: u32 where [vmx_const]: "CPU_APIC_REG_VIRT = push_bit 8 1"
definition CPU_VINTD :: u32 where [vmx_const]: "CPU_VINTD = push_bit 9 1"
definition CPU_RDRAND :: u32 where [vmx_const]: "CPU_RDRAND = push_bit 11 1"
definition CPU_SHADOW_VMCS :: u32 where [vmx_const]: "CPU_SHADOW_VMCS = push_bit 14 1"
definition CPU_RDSEED :: u32 where [vmx_const]: "CPU_RDSEED = push_bit 16 1"
definition CPU_PML :: u32 where [vmx_const]: "CPU_PML = push_bit 17 1"

text \<open>What a handler of the test framework returns, and the calls of the guest to the host.\<close>

definition VMX_ENTRY_FAILURE :: u64 where [vmx_const]: "VMX_ENTRY_FAILURE = push_bit 31 1"
definition VMX_TEST_START :: u32 where [vmx_const]: "VMX_TEST_START = 0"
definition VMX_TEST_VMEXIT :: u32 where [vmx_const]: "VMX_TEST_VMEXIT = 1"
definition VMX_TEST_EXIT :: u32 where [vmx_const]: "VMX_TEST_EXIT = 2"
definition VMX_TEST_RESUME :: u32 where [vmx_const]: "VMX_TEST_RESUME = 3"
definition VMX_TEST_VMABORT :: u32 where [vmx_const]: "VMX_TEST_VMABORT = 4"
definition VMX_TEST_VMSKIP :: u32 where [vmx_const]: "VMX_TEST_VMSKIP = 5"
definition HYPERCALL_BIT :: u64 where [vmx_const]: "HYPERCALL_BIT = push_bit 12 1"
definition HYPERCALL_MASK :: u64 where [vmx_const]: "HYPERCALL_MASK = 0xFFF"
definition HYPERCALL_VMEXIT :: u64 where [vmx_const]: "HYPERCALL_VMEXIT = 1"
definition HYPERCALL_VMABORT :: u64 where [vmx_const]: "HYPERCALL_VMABORT = 2"
definition HYPERCALL_VMSKIP :: u64 where [vmx_const]: "HYPERCALL_VMSKIP = 3"
definition VMXERR_VMPTRLD_VMXON_POINTER :: u64 where [vmx_const]: "VMXERR_VMPTRLD_VMXON_POINTER = 10"
definition ACTV_ACTIVE :: u64 where [vmx_const]: "ACTV_ACTIVE = 0"
definition VMCS_FIELD_TYPE_SHIFT :: nat where "VMCS_FIELD_TYPE_SHIFT = 10"

text \<open>Flags, control registers and model-specific registers of \<open>processor.h\<close> and \<open>msr.h\<close>.\<close>

definition X86_EFLAGS_CF :: u64 where [vmx_const]: "X86_EFLAGS_CF = 1"
definition X86_EFLAGS_PF :: u64 where [vmx_const]: "X86_EFLAGS_PF = 4"
definition X86_EFLAGS_AF :: u64 where [vmx_const]: "X86_EFLAGS_AF = 0x10"
definition X86_EFLAGS_ZF :: u64 where [vmx_const]: "X86_EFLAGS_ZF = 0x40"
definition X86_EFLAGS_SF :: u64 where [vmx_const]: "X86_EFLAGS_SF = 0x80"
definition X86_EFLAGS_OF :: u64 where [vmx_const]: "X86_EFLAGS_OF = 0x800"
definition VMX_ENTRY_FLAGS :: u64 where
  "VMX_ENTRY_FLAGS = X86_EFLAGS_CF OR X86_EFLAGS_PF OR X86_EFLAGS_AF OR X86_EFLAGS_ZF OR X86_EFLAGS_SF OR X86_EFLAGS_OF"
definition X86_CR4_PAE :: u64 where [vmx_const]: "X86_CR4_PAE = 0x20"
definition X86_CR4_VMXE :: u64 where [vmx_const]: "X86_CR4_VMXE = 0x2000"
definition X86_CR4_PCIDE :: u64 where [vmx_const]: "X86_CR4_PCIDE = 0x20000"
definition MSR_EFER :: u32 where [vmx_const]: "MSR_EFER = 0xc0000080"
definition MSR_IA32_FEATURE_CONTROL :: u32 where [vmx_const]: "MSR_IA32_FEATURE_CONTROL = 0x3a"
definition MSR_IA32_VMX_BASIC :: u32 where [vmx_const]: "MSR_IA32_VMX_BASIC = 0x480"
definition MSR_IA32_VMX_PINBASED_CTLS :: u32 where [vmx_const]: "MSR_IA32_VMX_PINBASED_CTLS = 0x481"
definition MSR_IA32_VMX_PROCBASED_CTLS :: u32 where [vmx_const]: "MSR_IA32_VMX_PROCBASED_CTLS = 0x482"
definition MSR_IA32_VMX_EXIT_CTLS :: u32 where [vmx_const]: "MSR_IA32_VMX_EXIT_CTLS = 0x483"
definition MSR_IA32_VMX_ENTRY_CTLS :: u32 where [vmx_const]: "MSR_IA32_VMX_ENTRY_CTLS = 0x484"
definition MSR_IA32_VMX_MISC :: u32 where [vmx_const]: "MSR_IA32_VMX_MISC = 0x485"
definition MSR_IA32_VMX_CR0_FIXED0 :: u32 where [vmx_const]: "MSR_IA32_VMX_CR0_FIXED0 = 0x486"
definition MSR_IA32_VMX_CR0_FIXED1 :: u32 where [vmx_const]: "MSR_IA32_VMX_CR0_FIXED1 = 0x487"
definition MSR_IA32_VMX_CR4_FIXED0 :: u32 where [vmx_const]: "MSR_IA32_VMX_CR4_FIXED0 = 0x488"
definition MSR_IA32_VMX_CR4_FIXED1 :: u32 where [vmx_const]: "MSR_IA32_VMX_CR4_FIXED1 = 0x489"
definition MSR_IA32_VMX_VMCS_ENUM :: u32 where [vmx_const]: "MSR_IA32_VMX_VMCS_ENUM = 0x48a"
definition MSR_IA32_VMX_PROCBASED_CTLS2 :: u32 where [vmx_const]: "MSR_IA32_VMX_PROCBASED_CTLS2 = 0x48b"
definition MSR_IA32_VMX_EPT_VPID_CAP :: u32 where [vmx_const]: "MSR_IA32_VMX_EPT_VPID_CAP = 0x48c"
definition MSR_IA32_VMX_TRUE_PIN :: u32 where [vmx_const]: "MSR_IA32_VMX_TRUE_PIN = 0x48d"
definition MSR_IA32_VMX_TRUE_PROC :: u32 where [vmx_const]: "MSR_IA32_VMX_TRUE_PROC = 0x48e"
definition MSR_IA32_VMX_TRUE_EXIT :: u32 where [vmx_const]: "MSR_IA32_VMX_TRUE_EXIT = 0x48f"
definition MSR_IA32_VMX_TRUE_ENTRY :: u32 where [vmx_const]: "MSR_IA32_VMX_TRUE_ENTRY = 0x490"
definition MSR_IA32_VMX_MISC_VMWRITE_SHADOW_RO_FIELDS :: u64 where [vmx_const]:
  "MSR_IA32_VMX_MISC_VMWRITE_SHADOW_RO_FIELDS = push_bit 29 1"

end
