(* ===== verification/Vmcs.thy ===== *)
theory Vmcs
  imports VmxDefs X86Vm Desc
begin

text \<open>
  The VMCS of the VMX tests, first half of \<open>x86/vmx.c\<close>: the tests that write and read back every field of
  a VMCS, and the setting up of VMX and of a VMCS. The VMX instructions, the control and model-specific
  registers are a parameter; \<open>VMCLEAR\<close> and \<open>VMPTRLD\<close> also see the memory a VMCS lies in.
\<close>

section \<open>State\<close>

datatype vmx_trigger = Do_vmxon_off | Do_write_feature_control

text \<open>
  The processor: what an instruction answers is whether it failed (the carry or the zero flag is set);
  \<open>VMREAD\<close> gives these flags and the value. \<open>raises_gp\<close> is the result of \<open>test_for_exception\<close> for a general
  protection fault on one of the two triggers of \<open>vmx.c\<close>.
\<close>

record 'h vmx_cpu =
  vmxon_insn :: "u64 \<Rightarrow> cells \<times> 'h \<Rightarrow> bool \<times> 'h"
  vmxoff_insn :: "'h \<Rightarrow> bool \<times> 'h"
  vmclear_insn :: "u64 \<Rightarrow> cells \<times> 'h \<Rightarrow> bool \<times> cells \<times> 'h"
  vmptrld_insn :: "u64 \<Rightarrow> cells \<times> 'h \<Rightarrow> bool \<times> cells \<times> 'h"
  vmptrst_insn :: "'h \<Rightarrow> (bool \<times> u64) \<times> 'h"
  vmread_insn :: "u64 \<Rightarrow> 'h \<Rightarrow> (u64 \<times> u64) \<times> 'h"
  vmwrite_insn :: "u64 \<Rightarrow> u64 \<Rightarrow> 'h \<Rightarrow> bool \<times> 'h"
  rdmsr_insn :: "u32 \<Rightarrow> 'h \<Rightarrow> u64 \<times> 'h"
  wrmsr_insn :: "u32 \<Rightarrow> u64 \<Rightarrow> 'h \<Rightarrow> 'h"
  read_cr0_insn :: "'h \<Rightarrow> u64 \<times> 'h"
  read_cr3_insn :: "'h \<Rightarrow> u64 \<times> 'h"
  read_cr4_insn :: "'h \<Rightarrow> u64 \<times> 'h"
  write_cr0_insn :: "u64 \<Rightarrow> 'h \<Rightarrow> 'h"
  write_cr4_insn :: "u64 \<Rightarrow> 'h \<Rightarrow> 'h"
  maxphyaddr :: "'h \<Rightarrow> nat \<times> 'h"
  raises_gp :: "vmx_trigger \<Rightarrow> cells \<times> 'h \<Rightarrow> bool \<times> 'h"

text \<open>Addresses of code, and the descriptor tables.\<close>

record vmx_image =
  entry_sysenter :: u64
  vmx_return :: u64
  guest_entry :: u64
  tss_base :: u64
  tss_limit :: u16
  gdt_base :: u64
  gdt_limit :: u16
  idt_base :: u64
  idt_limit :: u16

text \<open>The variables of \<open>vmx.c\<close>; a union of capabilities is the word it is read from.\<close>

record 'h vmx_state = page_alloc +
  rep :: report_state
  vmx_hw :: 'h
  vmxon_region :: u64
  vmcs_root :: u64
  vpid_cnt :: u32
  guest_stack :: u64
  guest_syscall_stack :: u64
  ctrl_pin :: u32
  ctrl_enter :: u32
  ctrl_exit :: u32
  ctrl_cpu0 :: u32
  ctrl_cpu1 :: u32
  basic :: u64
  ctrl_pin_rev :: u64
  ctrl_cpu_rev0 :: u64
  ctrl_cpu_rev1 :: u64
  ctrl_exit_rev :: u64
  ctrl_enter_rev :: u64
  ept_vpid :: u64
  stage :: u32

type_synonym ('h, 'a) vmx = "('h vmx_state, 'a) io"

definition revision :: "u64 \<Rightarrow> u64" where "revision b = get_field 0 32 b"
definition basic_size :: "u64 \<Rightarrow> u64" where "basic_size b = get_field 32 13 b"
definition basic_ctrl :: "u64 \<Rightarrow> bool" where "basic_ctrl b \<longleftrightarrow> get_field 55 1 b \<noteq> 0"

text \<open>The two halves of \<open>union vmx_ctrl_msr\<close>: bits that must be set, bits that may be set.\<close>

definition ctrl_set :: "u64 \<Rightarrow> u32" where "ctrl_set v = ucast v"
definition ctrl_clr :: "u64 \<Rightarrow> u32" where "ctrl_clr v = ucast (drop_bit 32 v)"

section \<open>Instructions\<close>

definition hwS :: "('h \<Rightarrow> 'a \<times> 'h) \<Rightarrow> ('h, 'a) vmx" where
  "hwS f s = (let (x, h) = f (vmx_hw s) in Inr (x, s\<lparr>vmx_hw := h\<rparr>))"

definition hw_memS :: "(cells \<times> 'h \<Rightarrow> 'a \<times> cells \<times> 'h) \<Rightarrow> ('h, 'a) vmx" where
  "hw_memS f s = (let (x, m, h) = f (cells s, vmx_hw s) in Inr (x, s\<lparr>cells := m, vmx_hw := h\<rparr>))"

definition getS :: "('s \<Rightarrow> 'a) \<Rightarrow> ('s, 'a) io" where
  "getS f s = Inr (f s, s)"

definition vmx_on :: "'h vmx_cpu \<Rightarrow> ('h, bool) vmx" where
  "vmx_on M s = (let (r, h) = vmxon_insn M (vmxon_region s) (cells s, vmx_hw s) in Inr (r, s\<lparr>vmx_hw := h\<rparr>))"

definition vmx_off :: "'h vmx_cpu \<Rightarrow> ('h, bool) vmx" where
  "vmx_off M = hwS (vmxoff_insn M)"

definition make_vmcs_current :: "'h vmx_cpu \<Rightarrow> u64 \<Rightarrow> ('h, bool) vmx" where
  "make_vmcs_current M vmcs = hw_memS (vmptrld_insn M vmcs)"

definition vmcs_clear :: "'h vmx_cpu \<Rightarrow> u64 \<Rightarrow> ('h, bool) vmx" where
  "vmcs_clear M vmcs = hw_memS (vmclear_insn M vmcs)"

definition vmcs_read :: "'h vmx_cpu \<Rightarrow> u64 \<Rightarrow> ('h, u64) vmx" where
  "vmcs_read M enc = bindS (hwS (vmread_insn M enc)) (\<lambda>(_, v). returnS v)"

definition vmcs_read_checking :: "'h vmx_cpu \<Rightarrow> u64 \<Rightarrow> ('h, u64 \<times> u64) vmx" where
  "vmcs_read_checking M enc =
     bindS (hwS (vmread_insn M enc)) (\<lambda>(rflags, v). returnS (rflags AND (X86_EFLAGS_CF OR X86_EFLAGS_ZF), v))"

definition vmcs_write :: "'h vmx_cpu \<Rightarrow> u64 \<Rightarrow> u64 \<Rightarrow> ('h, bool) vmx" where
  "vmcs_write M enc v = hwS (vmwrite_insn M enc v)"

text \<open>The result is the address, which is NULL for an all-ones pointer.\<close>

definition vmcs_save :: "'h vmx_cpu \<Rightarrow> ('h, bool \<times> u64) vmx" where
  "vmcs_save M = bindS (hwS (vmptrst_insn M)) (\<lambda>(r, pa). returnS (r, if pa = - 1 then 0 else pa))"

definition vmcs_set_bits :: "'h vmx_cpu \<Rightarrow> u64 \<Rightarrow> u64 \<Rightarrow> ('h, bool) vmx" where
  "vmcs_set_bits M enc v = bindS (vmcs_read M enc) (\<lambda>x. vmcs_write M enc (x OR v))"

definition vmcs_clear_bits :: "'h vmx_cpu \<Rightarrow> u64 \<Rightarrow> u64 \<Rightarrow> ('h, bool) vmx" where
  "vmcs_clear_bits M enc v = bindS (vmcs_read M enc) (\<lambda>x. vmcs_write M enc (x AND NOT v))"

definition rdmsr :: "'h vmx_cpu \<Rightarrow> u32 \<Rightarrow> ('h, u64) vmx" where "rdmsr M i = hwS (rdmsr_insn M i)"
definition wrmsr :: "'h vmx_cpu \<Rightarrow> u32 \<Rightarrow> u64 \<Rightarrow> ('h, unit) vmx" where "wrmsr M i v = hwS (\<lambda>h. ((), wrmsr_insn M i v h))"

definition enable_unrestricted_guest :: "'h vmx_cpu \<Rightarrow> ('h, int) vmx" where
  "enable_unrestricted_guest M =
     bindS (getS ctrl_cpu_rev0) (\<lambda>rev0. bindS (getS ctrl_cpu_rev1) (\<lambda>rev1.
     if ctrl_clr rev0 AND CPU_SECONDARY = 0 then returnS (- 1)
     else if ctrl_clr rev1 AND CPU_URG = 0 then returnS (- 1)
     else
       bindS (vmcs_read M CPU_EXEC_CTRL0) (\<lambda>v.
       bindS (vmcs_write M CPU_EXEC_CTRL0 (v OR ucast CPU_SECONDARY)) (\<lambda>_.
       bindS (vmcs_read M CPU_EXEC_CTRL1) (\<lambda>v.
       bindS (vmcs_write M CPU_EXEC_CTRL1 (v OR ucast CPU_URG)) (\<lambda>_. returnS 0))))))"

definition disable_unrestricted_guest :: "'h vmx_cpu \<Rightarrow> ('h, unit) vmx" where
  "disable_unrestricted_guest M =
     bindS (vmcs_read M CPU_EXEC_CTRL1) (\<lambda>v.
     bindS (vmcs_write M CPU_EXEC_CTRL1 (v AND NOT (ucast CPU_URG))) (\<lambda>_. returnS ()))"

definition reportS :: "string \<Rightarrow> bool \<Rightarrow> vararg list \<Rightarrow> ('h, unit) vmx" where
  "reportS fmt pass va s = bindE (report fmt pass va (rep s)) (\<lambda>r. Inr ((), s\<lparr>rep := r\<rparr>))"

definition printS :: "string \<Rightarrow> vararg list \<Rightarrow> ('h, unit) vmx" where
  "printS fmt va s = bindE (printf fmt va) (\<lambda>(out, _). Inr ((), s\<lparr>rep := put_out out (rep s)\<rparr>))"

definition alloc_pageS :: "('h, u64) vmx" where
  "alloc_pageS s = (let (s, pg) = alloc_page s in Inr (pg, s))"

definition free_pageS :: "u64 \<Rightarrow> ('h, unit) vmx" where
  "free_pageS pg s = Inr ((), free_page pg s)"

definition zero_pageS :: "u64 \<Rightarrow> ('h, unit) vmx" where
  "zero_pageS pg s = Inr ((), s\<lparr>cells := zero_page (cells s) pg\<rparr>)"

text \<open>\<open>vmcs->hdr.revision_id = basic.revision\<close>, a field of 31 bits.\<close>

definition set_revisionS :: "u64 \<Rightarrow> ('h, unit) vmx" where
  "set_revisionS pg s =
     Inr ((), s\<lparr>cells := (cells s)(pg := set_field 0 31 (revision (basic s)) (cells s pg))\<rparr>)"

section \<open>The fields\<close>

definition MASK :: "nat \<Rightarrow> u64" where "MASK bits = GENMASK_ULL (bits - 1) 0"
definition MASK_NATURAL :: u64 where "MASK_NATURAL = MASK 64"

definition vmcs_fields :: "(u64 \<times> u64) list" where
  "vmcs_fields =
    [(MASK 16, VPID), (MASK 16, PINV), (MASK 16, EPTP_IDX), (MASK 16, GUEST_SEL_ES), (MASK 16, GUEST_SEL_CS),
     (MASK 16, GUEST_SEL_SS), (MASK 16, GUEST_SEL_DS), (MASK 16, GUEST_SEL_FS), (MASK 16, GUEST_SEL_GS), (MASK 16, GUEST_SEL_LDTR),
     (MASK 16, GUEST_SEL_TR), (MASK 16, GUEST_INT_STATUS), (MASK 16, HOST_SEL_ES), (MASK 16, HOST_SEL_CS), (MASK 16, HOST_SEL_SS),
     (MASK 16, HOST_SEL_DS), (MASK 16, HOST_SEL_FS), (MASK 16, HOST_SEL_GS), (MASK 16, HOST_SEL_TR), (MASK 64, IO_BITMAP_A),
     (MASK 64, IO_BITMAP_B), (MASK 64, MSR_BITMAP), (MASK 64, EXIT_MSR_ST_ADDR), (MASK 64, EXIT_MSR_LD_ADDR), (MASK 64, ENTER_MSR_LD_ADDR),
     (MASK 64, VMCS_EXEC_PTR), (MASK 64, TSC_OFFSET), (MASK 64, APIC_VIRT_ADDR), (MASK 64, APIC_ACCS_ADDR), (MASK 64, EPTP),
     (MASK 64, INFO_PHYS_ADDR), (MASK 64, VMCS_LINK_PTR), (MASK 64, GUEST_DEBUGCTL), (MASK 64, GUEST_EFER), (MASK 64, GUEST_PAT),
     (MASK 64, GUEST_PERF_GLOBAL_CTRL), (MASK 64, GUEST_PDPTE), (MASK 64, HOST_PAT), (MASK 64, HOST_EFER), (MASK 64, HOST_PERF_GLOBAL_CTRL),
     (MASK 32, PIN_CONTROLS), (MASK 32, CPU_EXEC_CTRL0), (MASK 32, EXC_BITMAP), (MASK 32, PF_ERROR_MASK), (MASK 32, PF_ERROR_MATCH),
     (MASK 32, CR3_TARGET_COUNT), (MASK 32, EXI_CONTROLS), (MASK 32, EXI_MSR_ST_CNT), (MASK 32, EXI_MSR_LD_CNT), (MASK 32, ENT_CONTROLS),
     (MASK 32, ENT_MSR_LD_CNT), (MASK 32, ENT_INTR_INFO), (MASK 32, ENT_INTR_ERROR), (MASK 32, ENT_INST_LEN), (MASK 32, TPR_THRESHOLD),
     (MASK 32, CPU_EXEC_CTRL1), (MASK 32, VMX_INST_ERROR), (MASK 32, EXI_REASON), (MASK 32, EXI_INTR_INFO), (MASK 32, EXI_INTR_ERROR),
     (MASK 32, IDT_VECT_INFO), (MASK 32, IDT_VECT_ERROR), (MASK 32, EXI_INST_LEN), (MASK 32, EXI_INST_INFO), (MASK 32, GUEST_LIMIT_ES),
     (MASK 32, GUEST_LIMIT_CS), (MASK 32, GUEST_LIMIT_SS), (MASK 32, GUEST_LIMIT_DS), (MASK 32, GUEST_LIMIT_FS), (MASK 32, GUEST_LIMIT_GS),
     (MASK 32, GUEST_LIMIT_LDTR), (MASK 32, GUEST_LIMIT_TR), (MASK 32, GUEST_LIMIT_GDTR), (MASK 32, GUEST_LIMIT_IDTR), (0x1d0ff, GUEST_AR_ES),
     (0x1f0ff, GUEST_AR_CS), (0x1d0ff, GUEST_AR_SS), (0x1d0ff, GUEST_AR_DS), (0x1d0ff, GUEST_AR_FS), (0x1d0ff, GUEST_AR_GS),
     (0x1d0ff, GUEST_AR_LDTR), (0x1d0ff, GUEST_AR_TR), (MASK 32, GUEST_INTR_STATE), (MASK 32, GUEST_ACTV_STATE), (MASK 32, GUEST_SMBASE),
     (MASK 32, GUEST_SYSENTER_CS), (MASK 32, PREEMPT_TIMER_VALUE), (MASK 32, HOST_SYSENTER_CS), (MASK_NATURAL, CR0_MASK), (MASK_NATURAL, CR4_MASK),
     (MASK_NATURAL, CR0_READ_SHADOW), (MASK_NATURAL, CR4_READ_SHADOW), (MASK_NATURAL, CR3_TARGET_0), (MASK_NATURAL, CR3_TARGET_1), (MASK_NATURAL, CR3_TARGET_2),
     (MASK_NATURAL, CR3_TARGET_3), (MASK_NATURAL, EXI_QUALIFICATION), (MASK_NATURAL, IO_RCX), (MASK_NATURAL, IO_RSI), (MASK_NATURAL, IO_RDI),
     (MASK_NATURAL, IO_RIP), (MASK_NATURAL, GUEST_LINEAR_ADDRESS), (MASK_NATURAL, GUEST_CR0), (MASK_NATURAL, GUEST_CR3), (MASK_NATURAL, GUEST_CR4),
     (MASK_NATURAL, GUEST_BASE_ES), (MASK_NATURAL, GUEST_BASE_CS), (MASK_NATURAL, GUEST_BASE_SS), (MASK_NATURAL, GUEST_BASE_DS), (MASK_NATURAL, GUEST_BASE_FS),
     (MASK_NATURAL, GUEST_BASE_GS), (MASK_NATURAL, GUEST_BASE_LDTR), (MASK_NATURAL, GUEST_BASE_TR), (MASK_NATURAL, GUEST_BASE_GDTR), (MASK_NATURAL, GUEST_BASE_IDTR),
     (MASK_NATURAL, GUEST_DR7), (MASK_NATURAL, GUEST_RSP), (MASK_NATURAL, GUEST_RIP), (MASK_NATURAL, GUEST_RFLAGS), (MASK_NATURAL, GUEST_PENDING_DEBUG),
     (MASK_NATURAL, GUEST_SYSENTER_ESP), (MASK_NATURAL, GUEST_SYSENTER_EIP), (MASK_NATURAL, HOST_CR0), (MASK_NATURAL, HOST_CR3), (MASK_NATURAL, HOST_CR4),
     (MASK_NATURAL, HOST_BASE_FS), (MASK_NATURAL, HOST_BASE_GS), (MASK_NATURAL, HOST_BASE_TR), (MASK_NATURAL, HOST_BASE_GDTR), (MASK_NATURAL, HOST_BASE_IDTR),
     (MASK_NATURAL, HOST_SYSENTER_ESP), (MASK_NATURAL, HOST_SYSENTER_EIP)]"

definition VMCS_FIELD_TYPE_READ_ONLY_DATA :: u64 where "VMCS_FIELD_TYPE_READ_ONLY_DATA = 1"

definition vmcs_field_type :: "u64 \<times> u64 \<Rightarrow> u64" where
  "vmcs_field_type f = drop_bit VMCS_FIELD_TYPE_SHIFT (snd f) AND 3"

definition vmcs_field_readonly :: "'h vmx_cpu \<Rightarrow> u64 \<times> u64 \<Rightarrow> ('h, bool) vmx" where
  "vmcs_field_readonly M f =
     bindS (rdmsr M MSR_IA32_VMX_MISC) (\<lambda>misc.
     returnS (misc AND MSR_IA32_VMX_MISC_VMWRITE_SHADOW_RO_FIELDS = 0 \<and> vmcs_field_type f = VMCS_FIELD_TYPE_READ_ONLY_DATA))"

definition vmcs_field_value :: "u64 \<times> u64 \<Rightarrow> u8 \<Rightarrow> u64" where
  "vmcs_field_value f cookie = (ucast cookie OR push_bit 8 (snd f) OR push_bit 32 0xdeadbeef) AND fst f"

definition set_vmcs_field :: "'h vmx_cpu \<Rightarrow> u8 \<Rightarrow> u64 \<times> u64 \<Rightarrow> ('h, unit) vmx" where
  "set_vmcs_field M cookie f = bindS (vmcs_write M (snd f) (vmcs_field_value f cookie)) (\<lambda>_. returnS ())"

definition check_vmcs_field :: "'h vmx_cpu \<Rightarrow> u8 \<Rightarrow> u64 \<times> u64 \<Rightarrow> ('h, bool) vmx" where
  "check_vmcs_field M cookie f =
     (if snd f = VMX_INST_ERROR
      then bindS (printS (''Skipping volatile field %lx'' @ [CHR 0x0A]) [Word (snd f)]) (\<lambda>_. returnS True)
      else bindS (vmcs_field_readonly M f) (\<lambda>ro.
        if ro then bindS (printS (''Skipping read-only field %lx'' @ [CHR 0x0A]) [Word (snd f)]) (\<lambda>_. returnS True)
        else
          bindS (vmcs_read_checking M (snd f)) (\<lambda>(ret, actual).
          bindS (assertS (ret AND X86_EFLAGS_CF = 0)) (\<lambda>_.
          if ret AND X86_EFLAGS_ZF \<noteq> 0 then returnS True
          else
            let expected = vmcs_field_value f cookie; actual = actual AND fst f
            in if expected = actual then returnS True
               else bindS (printS (''FAIL: VMWRITE/VMREAD %lx (expected: %lx, actual: %lx)'' @ [CHR 0x0A])
                      [Word (snd f), Word expected, Word actual]) (\<lambda>_. returnS False)))))"

definition set_all_vmcs_fields :: "'h vmx_cpu \<Rightarrow> u8 \<Rightarrow> ('h, unit) vmx" where
  "set_all_vmcs_fields M cookie = forS (set_vmcs_field M cookie) vmcs_fields"

primrec check_fields_loop :: "'h vmx_cpu \<Rightarrow> u8 \<Rightarrow> (u64 \<times> u64) list \<Rightarrow> bool \<Rightarrow> ('h, bool) vmx" where
  "check_fields_loop M cookie [] pass = returnS pass"
| "check_fields_loop M cookie (f # fs) pass =
     bindS (check_vmcs_field M cookie f) (\<lambda>ok. check_fields_loop M cookie fs (if ok then pass else False))"

definition check_all_vmcs_fields :: "'h vmx_cpu \<Rightarrow> u8 \<Rightarrow> ('h, bool) vmx" where
  "check_all_vmcs_fields M cookie = check_fields_loop M cookie vmcs_fields True"

section \<open>Tests of the instructions\<close>

text \<open>The start of a test: a page for a VMCS with the revision of the processor.\<close>

definition new_vmcs :: "('h, u64) vmx" where
  "new_vmcs = bindS alloc_pageS (\<lambda>vmcs. bindS (zero_pageS vmcs) (\<lambda>_. bindS (set_revisionS vmcs) (\<lambda>_. returnS vmcs)))"

definition clear_assert :: "'h vmx_cpu \<Rightarrow> u64 \<Rightarrow> ('h, unit) vmx" where
  "clear_assert M vmcs = bindS (vmcs_clear M vmcs) (\<lambda>r. assertS (\<not> r))"

definition load_assert :: "'h vmx_cpu \<Rightarrow> u64 \<Rightarrow> ('h, unit) vmx" where
  "load_assert M vmcs = bindS (make_vmcs_current M vmcs) (\<lambda>r. assertS (\<not> r))"

definition report_fields :: "'h vmx_cpu \<Rightarrow> string \<Rightarrow> u8 \<Rightarrow> ('h, unit) vmx" where
  "report_fields M msg cookie = bindS (check_all_vmcs_fields M cookie) (\<lambda>ok. reportS msg ok [])"

definition test_vmwrite_vmread :: "'h vmx_cpu \<Rightarrow> ('h, unit) vmx" where
  "test_vmwrite_vmread M =
     bindS new_vmcs (\<lambda>vmcs.
     forS (\<lambda>x. x)
       [clear_assert M vmcs, load_assert M vmcs, set_all_vmcs_fields M 0x42, report_fields M ''VMWRITE/VMREAD'' 0x42,
        clear_assert M vmcs, free_pageS vmcs])"

definition report_read :: "'h vmx_cpu \<Rightarrow> string \<Rightarrow> u64 \<Rightarrow> u64 \<Rightarrow> ('h, unit) vmx" where
  "report_read M msg enc v = bindS (vmcs_read M enc) (\<lambda>x. reportS msg (x = v) [])"

definition write_field :: "'h vmx_cpu \<Rightarrow> u64 \<Rightarrow> u64 \<Rightarrow> ('h, unit) vmx" where
  "write_field M enc v = bindS (vmcs_write M enc v) (\<lambda>_. returnS ())"

definition test_vmcs_high :: "'h vmx_cpu \<Rightarrow> ('h, unit) vmx" where
  "test_vmcs_high M =
     bindS new_vmcs (\<lambda>vmcs.
     forS (\<lambda>x. x)
       [clear_assert M vmcs, load_assert M vmcs,
        write_field M TSC_OFFSET 0x0123456789ABCDEF,
        report_read M ''VMREAD TSC_OFFSET after VMWRITE TSC_OFFSET'' TSC_OFFSET 0x0123456789ABCDEF,
        report_read M ''VMREAD TSC_OFFSET_HI after VMWRITE TSC_OFFSET'' TSC_OFFSET_HI 0x01234567,
        write_field M TSC_OFFSET_HI 0x76543210,
        report_read M ''VMREAD TSC_OFFSET_HI after VMWRITE TSC_OFFSET_HI'' TSC_OFFSET_HI 0x76543210,
        report_read M ''VMREAD TSC_OFFSET after VMWRITE TSC_OFFSET_HI'' TSC_OFFSET 0x7654321089ABCDEF,
        clear_assert M vmcs, free_pageS vmcs])"

text \<open>The macros \<open>VMPTRLD\<close> and \<open>VMCLEAR\<close> of the test, on the VMCS of a number.\<close>

definition VMPTRLD :: "'h vmx_cpu \<Rightarrow> u64 list \<Rightarrow> nat \<Rightarrow> ('h, unit) vmx" where
  "VMPTRLD M vs i =
     bindS (assertS (i < length vs)) (\<lambda>_. bindS (load_assert M (vs ! i)) (\<lambda>_.
     printS (''VMPTRLD VMCS%d'' @ [CHR 0x0A]) [Word (of_nat i)]))"

definition VMCLEAR :: "'h vmx_cpu \<Rightarrow> u64 list \<Rightarrow> nat \<Rightarrow> ('h, unit) vmx" where
  "VMCLEAR M vs i =
     bindS (assertS (i < length vs)) (\<lambda>_. bindS (clear_assert M (vs ! i)) (\<lambda>_.
     printS (''VMCLEAR VMCS%d'' @ [CHR 0x0A]) [Word (of_nat i)]))"

definition lifecycle_steps :: "'h vmx_cpu \<Rightarrow> u64 list \<Rightarrow> ('h, unit) vmx list" where
  "lifecycle_steps M vs =
     [VMCLEAR M vs 0, VMPTRLD M vs 0, set_all_vmcs_fields M 0, report_fields M ''current:VMCS0 active:[VMCS0]'' 0,
      VMCLEAR M vs 0, VMPTRLD M vs 0, report_fields M ''current:VMCS0 active:[VMCS0]'' 0,
      VMCLEAR M vs 1, report_fields M ''current:VMCS0 active:[VMCS0]'' 0,
      VMPTRLD M vs 1, set_all_vmcs_fields M 1, report_fields M ''current:VMCS1 active:[VMCS0,VCMS1]'' 1,
      VMPTRLD M vs 0, report_fields M ''current:VMCS0 active:[VMCS0,VCMS1]'' 0,
      VMPTRLD M vs 1, report_fields M ''current:VMCS1 active:[VMCS0,VCMS1]'' 1,
      VMPTRLD M vs 1, report_fields M ''current:VMCS1 active:[VMCS0,VCMS1]'' 1,
      VMCLEAR M vs 0, report_fields M ''current:VMCS1 active:[VCMS1]'' 1,
      set_all_vmcs_fields M 2, VMPTRLD M vs 1, report_fields M ''current:VMCS1 active:[VCMS1]'' 2,
      VMCLEAR M vs 0, free_pageS (vs ! 0), VMCLEAR M vs 1, free_pageS (vs ! 1)]"

definition test_vmcs_lifecycle :: "'h vmx_cpu \<Rightarrow> ('h, unit) vmx" where
  "test_vmcs_lifecycle M =
     bindS new_vmcs (\<lambda>v0. bindS new_vmcs (\<lambda>v1. forS (\<lambda>x. x) (lifecycle_steps M [v0, v1])))"

text \<open>\<open>memcpy\<close> between two pages, in cells: the last one may be copied in part.\<close>

definition copy_cells :: "u64 \<Rightarrow> u64 \<Rightarrow> u64 \<Rightarrow> cells \<Rightarrow> cells" where
  "copy_cells dst src n m =
     (\<lambda>a. let o' = a - dst
          in if n \<le> o' then m a
             else let k = 8 * min 8 (unat (n - o'))
                  in (m (src + o') AND mask k) OR (m a AND NOT (mask k)))"

definition copy_pageS :: "u64 \<Rightarrow> u64 \<Rightarrow> ('h, unit) vmx" where
  "copy_pageS dst src s = Inr ((), s\<lparr>cells := copy_cells dst src (basic_size (basic s)) (cells s)\<rparr>)"

definition test_vmclear_flushing :: "'h vmx_cpu \<Rightarrow> ('h, unit) vmx" where
  "test_vmclear_flushing M =
     bindS alloc_pageS (\<lambda>v0. bindS (zero_pageS v0) (\<lambda>_.
     bindS alloc_pageS (\<lambda>v1. bindS (zero_pageS v1) (\<lambda>_.
     bindS alloc_pageS (\<lambda>v2. bindS (zero_pageS v2) (\<lambda>_.
     forS (\<lambda>x. x)
       [set_revisionS v0, clear_assert M v0, load_assert M v0, set_all_vmcs_fields M 0x86,
        clear_assert M v0, copy_pageS v1 v0, load_assert M v1,
        report_fields M ''test vmclear flush (current VMCS)'' 0x86,
        set_all_vmcs_fields M 0x87, load_assert M v0, clear_assert M v1, copy_pageS v2 v1, load_assert M v2,
        report_fields M ''test vmclear flush (!current VMCS)'' 0x87,
        clear_assert M v0, free_pageS v0, clear_assert M v1, free_pageS v1, clear_assert M v2, free_pageS v2]))))))"

definition report_fails :: "string \<Rightarrow> ('h, bool) vmx \<Rightarrow> ('h, unit) vmx" where
  "report_fails msg f = bindS f (\<lambda>r. reportS msg r [])"

definition test_vmclear :: "'h vmx_cpu \<Rightarrow> ('h, unit) vmx" where
  "test_vmclear M =
     bindS (hwS (maxphyaddr M)) (\<lambda>width.
     bindS (getS vmcs_root) (\<lambda>root. bindS (getS vmxon_region) (\<lambda>vmxon.
     forS (\<lambda>x. x)
       [report_fails ''test vmclear with unaligned vmcs'' (vmcs_clear M (root + 1)),
        report_fails ''test vmclear with vmcs address bits set beyond physical address width''
          (vmcs_clear M (root OR push_bit (width + 1) 1)),
        report_fails ''test vmclear with vmxon region'' (vmcs_clear M vmxon),
        bindS (vmcs_clear M root) (\<lambda>r. reportS ''test vmclear with valid vmcs region'' (\<not> r) []),
        test_vmclear_flushing M])))"

definition test_vmptrld :: "'h vmx_cpu \<Rightarrow> ('h, unit) vmx" where
  "test_vmptrld M =
     bindS (hwS (maxphyaddr M)) (\<lambda>width.
     bindS alloc_pageS (\<lambda>vmcs. bindS (getS vmxon_region) (\<lambda>vmxon.
     forS (\<lambda>x. x)
       [set_revisionS vmcs,
        report_fails ''test vmptrld with unaligned vmcs'' (make_vmcs_current M (vmcs + 1)),
        report_fails ''test vmptrld with vmcs address bits set beyond physical address width''
          (make_vmcs_current M (vmcs OR push_bit (width + 1) 1)),
        bindS (make_vmcs_current M vmcs) (\<lambda>_. returnS ()),
        report_fails ''test vmptrld with vmxon region'' (make_vmcs_current M vmxon),
        report_read M ''test vmptrld with vmxon region vm-instruction error'' VMX_INST_ERROR VMXERR_VMPTRLD_VMXON_POINTER,
        bindS (make_vmcs_current M vmcs) (\<lambda>r. reportS ''test vmptrld with valid vmcs region'' (\<not> r) [])])))"

section \<open>Setting up a VMCS\<close>

definition KERNEL_DS :: u64 where "KERNEL_DS = 0x10"
definition TSS_MAIN :: u64 where "TSS_MAIN = 0x80"

abbreviation setS :: "('h vmx_state \<Rightarrow> 'h vmx_state) \<Rightarrow> ('h, unit) vmx" where
  "setS f \<equiv> outS f"

definition init_vmcs_ctrl :: "'h vmx_cpu \<Rightarrow> ('h, unit) vmx" where
  "init_vmcs_ctrl M =
     bindS (getS ctrl_pin) (\<lambda>pin. bindS (write_field M PIN_CONTROLS (ucast pin)) (\<lambda>_.
     bindS (getS ctrl_cpu0) (\<lambda>cpu0. bindS (write_field M CPU_EXEC_CTRL0 (ucast cpu0)) (\<lambda>_.
     bindS (getS ctrl_cpu_rev0) (\<lambda>rev0.
     bindS (if ctrl_set rev0 AND CPU_SECONDARY \<noteq> 0
            then bindS (setS (\<lambda>s. s\<lparr>ctrl_cpu1 := (ctrl_cpu1 s OR ctrl_set (ctrl_cpu_rev1 s)) AND ctrl_clr (ctrl_cpu_rev1 s)\<rparr>))
                   (\<lambda>_. bindS (getS ctrl_cpu1) (\<lambda>cpu1. write_field M CPU_EXEC_CTRL1 (ucast cpu1)))
            else returnS ()) (\<lambda>_.
     bindS (write_field M CR3_TARGET_COUNT 0) (\<lambda>_.
     bindS (setS (\<lambda>s. s\<lparr>vpid_cnt := vpid_cnt s + 1\<rparr>)) (\<lambda>_.
     bindS (getS vpid_cnt) (\<lambda>v. write_field M VPID (ucast v))))))))))"

definition write_from :: "'h vmx_cpu \<Rightarrow> u64 \<Rightarrow> ('h, u64) vmx \<Rightarrow> ('h, unit) vmx" where
  "write_from M enc f = bindS f (write_field M enc)"

definition init_vmcs_host :: "'h vmx_cpu \<Rightarrow> vmx_image \<Rightarrow> ('h, unit) vmx" where
  "init_vmcs_host M I =
     forS (\<lambda>x. x)
       [write_from M HOST_EFER (rdmsr M MSR_EFER),
        write_from M ENT_CONTROLS (getS (\<lambda>s. ucast (ctrl_enter s))),
        write_from M EXI_CONTROLS (getS (\<lambda>s. ucast (ctrl_exit s))),
        write_from M HOST_CR0 (hwS (read_cr0_insn M)),
        write_from M HOST_CR3 (hwS (read_cr3_insn M)),
        write_from M HOST_CR4 (hwS (read_cr4_insn M)),
        write_field M HOST_SYSENTER_EIP (entry_sysenter I), write_field M HOST_SYSENTER_CS (ucast KERNEL_CS),
        write_field M HOST_SEL_CS (ucast KERNEL_CS), write_field M HOST_SEL_SS KERNEL_DS, write_field M HOST_SEL_DS KERNEL_DS,
        write_field M HOST_SEL_ES KERNEL_DS, write_field M HOST_SEL_FS KERNEL_DS, write_field M HOST_SEL_GS KERNEL_DS,
        write_field M HOST_SEL_TR TSS_MAIN, write_field M HOST_BASE_TR (tss_base I),
        write_field M HOST_BASE_GDTR (gdt_base I), write_field M HOST_BASE_IDTR (idt_base I),
        write_field M HOST_BASE_FS 0, write_field M HOST_BASE_GS 0,
        write_field M PF_ERROR_MASK 0, write_field M PF_ERROR_MATCH 0,
        write_field M VMCS_LINK_PTR (- 1), write_field M VMCS_LINK_PTR_HI (- 1),
        write_field M HOST_RIP (vmx_return I)]"

text \<open>The control registers of the guest, from those of the host.\<close>

definition guest_cr0_of :: "bool \<Rightarrow> u64 \<Rightarrow> u64" where
  "guest_cr0_of guest_64 cr0 =
     (let cr0 = (if guest_64 then cr0 OR X86_CR0_PG else cr0)
      in if cr0 AND X86_CR0_PG \<noteq> 0 then cr0 OR X86_CR0_PE else cr0)"

definition guest_cr4_of :: "bool \<Rightarrow> u64 \<Rightarrow> u64" where
  "guest_cr4_of guest_64 cr4 = (if guest_64 then cr4 OR X86_CR4_PAE else cr4 AND NOT X86_CR4_PCIDE)"

definition init_vmcs_guest :: "'h vmx_cpu \<Rightarrow> vmx_image \<Rightarrow> ('h, unit) vmx" where
  "init_vmcs_guest M I =
     bindS (hwS (read_cr0_insn M)) (\<lambda>cr0. bindS (hwS (read_cr4_insn M)) (\<lambda>cr4. bindS (hwS (read_cr3_insn M)) (\<lambda>cr3.
     bindS (getS (\<lambda>s. ctrl_enter s AND ENT_GUEST_64 \<noteq> 0)) (\<lambda>guest_64.
     bindS (getS guest_stack) (\<lambda>stack. bindS (getS guest_syscall_stack) (\<lambda>syscall_stack.
     forS (\<lambda>x. x)
       [write_field M GUEST_CR0 (guest_cr0_of guest_64 cr0), write_field M GUEST_CR3 cr3,
        write_field M GUEST_CR4 (guest_cr4_of guest_64 cr4),
        write_field M GUEST_SYSENTER_CS (ucast KERNEL_CS),
        write_field M GUEST_SYSENTER_ESP (syscall_stack + PAGE_SIZE - 1),
        write_field M GUEST_SYSENTER_EIP (entry_sysenter I), write_field M GUEST_DR7 0,
        write_from M GUEST_EFER (rdmsr M MSR_EFER),
        write_field M GUEST_SEL_CS (ucast KERNEL_CS), write_field M GUEST_SEL_SS KERNEL_DS, write_field M GUEST_SEL_DS KERNEL_DS,
        write_field M GUEST_SEL_ES KERNEL_DS, write_field M GUEST_SEL_FS KERNEL_DS, write_field M GUEST_SEL_GS KERNEL_DS,
        write_field M GUEST_SEL_TR TSS_MAIN, write_field M GUEST_SEL_LDTR 0,
        write_field M GUEST_BASE_CS 0, write_field M GUEST_BASE_ES 0, write_field M GUEST_BASE_SS 0,
        write_field M GUEST_BASE_DS 0, write_field M GUEST_BASE_FS 0, write_field M GUEST_BASE_GS 0,
        write_field M GUEST_BASE_TR (tss_base I), write_field M GUEST_BASE_LDTR 0,
        write_field M GUEST_LIMIT_CS 0xFFFFFFFF, write_field M GUEST_LIMIT_DS 0xFFFFFFFF, write_field M GUEST_LIMIT_ES 0xFFFFFFFF,
        write_field M GUEST_LIMIT_SS 0xFFFFFFFF, write_field M GUEST_LIMIT_FS 0xFFFFFFFF, write_field M GUEST_LIMIT_GS 0xFFFFFFFF,
        write_field M GUEST_LIMIT_LDTR 0xffff, write_field M GUEST_LIMIT_TR (ucast (tss_limit I)),
        write_field M GUEST_AR_CS 0xa09b, write_field M GUEST_AR_DS 0xc093, write_field M GUEST_AR_ES 0xc093,
        write_field M GUEST_AR_FS 0xc093, write_field M GUEST_AR_GS 0xc093, write_field M GUEST_AR_SS 0xc093,
        write_field M GUEST_AR_LDTR 0x82, write_field M GUEST_AR_TR 0x8b,
        write_field M GUEST_BASE_GDTR (gdt_base I), write_field M GUEST_BASE_IDTR (idt_base I),
        write_field M GUEST_LIMIT_GDTR (ucast (gdt_limit I)), write_field M GUEST_LIMIT_IDTR (ucast (idt_limit I)),
        write_field M GUEST_RIP (guest_entry I), write_field M GUEST_RSP (stack + PAGE_SIZE - 1), write_field M GUEST_RFLAGS 2,
        write_field M GUEST_ACTV_STATE ACTV_ACTIVE, write_field M GUEST_INTR_STATE 0]))))))"

text \<open>The control words, adjusted to what the processor allows.\<close>

definition adjust_ctrl :: "u32 \<Rightarrow> u64 \<Rightarrow> u32" where
  "adjust_ctrl v rv = (v OR ctrl_set rv) AND ctrl_clr rv"

definition set_controls :: "'h vmx_state \<Rightarrow> 'h vmx_state" where
  "set_controls s =
     s\<lparr>ctrl_pin := adjust_ctrl (ctrl_pin s OR (PIN_EXTINT OR PIN_NMI OR PIN_VIRT_NMI)) (ctrl_pin_rev s),
       ctrl_exit := adjust_ctrl (EXI_LOAD_EFER OR EXI_HOST_64) (ctrl_exit_rev s),
       ctrl_enter := adjust_ctrl (ENT_LOAD_EFER OR ENT_GUEST_64) (ctrl_enter_rev s),
       ctrl_cpu0 := adjust_ctrl (ctrl_cpu0 s AND NOT (CPU_IO OR CPU_IO_BITMAP)) (ctrl_cpu_rev0 s),
       ctrl_cpu1 := 0\<rparr>"

text \<open>The result and the VMCS.\<close>

definition init_vmcs :: "'h vmx_cpu \<Rightarrow> vmx_image \<Rightarrow> ('h, bool \<times> u64) vmx" where
  "init_vmcs M I =
     bindS new_vmcs (\<lambda>vmcs.
     bindS (vmcs_clear M vmcs) (\<lambda>r.
     if r then bindS (printS (''%s : vmcs_clear error'' @ [CHR 0x0A]) [Str ''init_vmcs'']) (\<lambda>_. returnS (True, vmcs))
     else
       bindS (make_vmcs_current M vmcs) (\<lambda>r.
       if r then bindS (printS (''%s : make_vmcs_current error'' @ [CHR 0x0A]) [Str ''init_vmcs'']) (\<lambda>_. returnS (True, vmcs))
       else
         bindS (setS set_controls) (\<lambda>_.
         bindS (init_vmcs_ctrl M) (\<lambda>_.
         bindS (init_vmcs_host M I) (\<lambda>_.
         bindS (init_vmcs_guest M I) (\<lambda>_. returnS (False, vmcs))))))))"

definition rd_rev :: "'h vmx_cpu \<Rightarrow> u32 \<Rightarrow> u32 \<Rightarrow> ('h, u64) vmx" where
  "rd_rev M true_index index = bindS (getS (\<lambda>s. basic_ctrl (basic s))) (\<lambda>b. rdmsr M (if b then true_index else index))"

definition new_page :: "('h, u64) vmx" where
  "new_page = bindS alloc_pageS (\<lambda>pg. bindS (zero_pageS pg) (\<lambda>_. returnS pg))"

text \<open>\<open>*vmxon_region = basic.revision\<close> stores a whole word.\<close>

definition store_vmxon :: "u64 \<Rightarrow> ('h, unit) vmx" where
  "store_vmxon v = setS (\<lambda>s. s\<lparr>cells := (cells s)(vmxon_region s := v)\<rparr>)"

definition read_caps :: "'h vmx_cpu \<Rightarrow> ('h, unit) vmx" where
  "read_caps M =
     bindS (rdmsr M MSR_IA32_VMX_BASIC) (\<lambda>v. bindS (setS (\<lambda>s. s\<lparr>basic := v\<rparr>)) (\<lambda>_.
     bindS (rd_rev M MSR_IA32_VMX_TRUE_PIN MSR_IA32_VMX_PINBASED_CTLS) (\<lambda>v. bindS (setS (\<lambda>s. s\<lparr>ctrl_pin_rev := v\<rparr>)) (\<lambda>_.
     bindS (rd_rev M MSR_IA32_VMX_TRUE_EXIT MSR_IA32_VMX_EXIT_CTLS) (\<lambda>v. bindS (setS (\<lambda>s. s\<lparr>ctrl_exit_rev := v\<rparr>)) (\<lambda>_.
     bindS (rd_rev M MSR_IA32_VMX_TRUE_ENTRY MSR_IA32_VMX_ENTRY_CTLS) (\<lambda>v. bindS (setS (\<lambda>s. s\<lparr>ctrl_enter_rev := v\<rparr>)) (\<lambda>_.
     bindS (rd_rev M MSR_IA32_VMX_TRUE_PROC MSR_IA32_VMX_PROCBASED_CTLS) (\<lambda>v. bindS (setS (\<lambda>s. s\<lparr>ctrl_cpu_rev0 := v\<rparr>)) (\<lambda>_.
     bindS (getS (\<lambda>s. ctrl_clr (ctrl_cpu_rev0 s) AND CPU_SECONDARY \<noteq> 0)) (\<lambda>b.
     bindS (if b then rdmsr M MSR_IA32_VMX_PROCBASED_CTLS2 else returnS 0) (\<lambda>v. bindS (setS (\<lambda>s. s\<lparr>ctrl_cpu_rev1 := v\<rparr>)) (\<lambda>_.
     bindS (getS (\<lambda>s. ctrl_clr (ctrl_cpu_rev1 s) AND (CPU_EPT OR CPU_VPID) \<noteq> 0)) (\<lambda>b.
     bindS (if b then rdmsr M MSR_IA32_VMX_EPT_VPID_CAP else returnS 0) (\<lambda>v. setS (\<lambda>s. s\<lparr>ept_vpid := v\<rparr>))))))))))))))))"

definition init_vmx :: "'h vmx_cpu \<Rightarrow> ('h, unit) vmx" where
  "init_vmx M =
     bindS new_page (\<lambda>pg. bindS (setS (\<lambda>s. s\<lparr>vmxon_region := pg\<rparr>)) (\<lambda>_.
     bindS (rdmsr M MSR_IA32_VMX_CR0_FIXED0) (\<lambda>fix_cr0_set. bindS (rdmsr M MSR_IA32_VMX_CR0_FIXED1) (\<lambda>fix_cr0_clr.
     bindS (rdmsr M MSR_IA32_VMX_CR4_FIXED0) (\<lambda>fix_cr4_set. bindS (rdmsr M MSR_IA32_VMX_CR4_FIXED1) (\<lambda>fix_cr4_clr.
     bindS (read_caps M) (\<lambda>_.
     bindS (hwS (read_cr0_insn M)) (\<lambda>cr0. bindS (hwS (\<lambda>h. ((), write_cr0_insn M ((cr0 AND fix_cr0_clr) OR fix_cr0_set) h))) (\<lambda>_.
     bindS (hwS (read_cr4_insn M)) (\<lambda>cr4.
     bindS (hwS (\<lambda>h. ((), write_cr4_insn M ((cr4 AND fix_cr4_clr) OR fix_cr4_set OR X86_CR4_VMXE) h))) (\<lambda>_.
     bindS (getS (\<lambda>s. revision (basic s))) (\<lambda>r. bindS (store_vmxon r) (\<lambda>_.
     bindS new_page (\<lambda>pg. bindS (setS (\<lambda>s. s\<lparr>guest_stack := pg\<rparr>)) (\<lambda>_.
     bindS new_page (\<lambda>pg. setS (\<lambda>s. s\<lparr>guest_syscall_stack := pg\<rparr>)))))))))))))))))"

section \<open>Tests of the set-up\<close>

text \<open>The result is that of the C function, 0 for enabled.\<close>

definition test_vmx_feature_control :: "'h vmx_cpu \<Rightarrow> ('h, bool) vmx" where
  "test_vmx_feature_control M =
     bindS (rdmsr M MSR_IA32_FEATURE_CONTROL) (\<lambda>fc.
     if fc AND 5 = 5 then bindS (printS (''VMX enabled and locked by BIOS'' @ [CHR 0x0A]) []) (\<lambda>_. returnS False)
     else if fc AND 1 \<noteq> 0 then bindS (printS (''ERROR: VMX locked out by BIOS!?'' @ [CHR 0x0A]) []) (\<lambda>_. returnS True)
     else
       let gp = (\<lambda>t. \<lambda>s. let (r, h) = raises_gp M t (cells s, vmx_hw s) in Inr (r, s\<lparr>vmx_hw := h\<rparr>))
       in
       bindS (wrmsr M MSR_IA32_FEATURE_CONTROL 0) (\<lambda>_.
       bindS (report_fails ''test vmxon with FEATURE_CONTROL cleared'' (gp Do_vmxon_off)) (\<lambda>_.
       bindS (wrmsr M MSR_IA32_FEATURE_CONTROL 4) (\<lambda>_.
       bindS (report_fails ''test vmxon without FEATURE_CONTROL lock'' (gp Do_vmxon_off)) (\<lambda>_.
       bindS (wrmsr M MSR_IA32_FEATURE_CONTROL 5) (\<lambda>_.
       bindS (rdmsr M MSR_IA32_FEATURE_CONTROL) (\<lambda>fc.
       let vmx_enabled = (fc AND 5 = 5)
       in bindS (reportS ''test enable VMX in FEATURE_CONTROL'' vmx_enabled []) (\<lambda>_.
          bindS (report_fails ''test FEATURE_CONTROL lock bit'' (gp Do_write_feature_control)) (\<lambda>_.
          returnS (\<not> vmx_enabled))))))))))"

text \<open>
  \<open>vmxon_region\<close> keeps the bad address when the processor accepts it. The result is that of the C function.
\<close>

definition test_vmxon :: "'h vmx_cpu \<Rightarrow> ('h, bool) vmx" where
  "test_vmxon M =
     bindS (getS vmxon_region) (\<lambda>tmp_region. bindS (hwS (maxphyaddr M)) (\<lambda>width.
     bindS (setS (\<lambda>s. s\<lparr>vmxon_region := tmp_region + 1\<rparr>)) (\<lambda>_.
     bindS (vmx_on M) (\<lambda>ret1.
     bindS (reportS ''test vmxon with unaligned vmxon region'' ret1 []) (\<lambda>_.
     if \<not> ret1 then returnS True
     else
       bindS (setS (\<lambda>s. s\<lparr>vmxon_region := tmp_region OR push_bit (width + 1) 1\<rparr>)) (\<lambda>_.
       bindS (vmx_on M) (\<lambda>ret1.
       bindS (reportS ''test vmxon with bits set beyond physical address width'' ret1 []) (\<lambda>_.
       if \<not> ret1 then returnS True
       else
         bindS (setS (\<lambda>s. s\<lparr>vmxon_region := tmp_region\<rparr>)) (\<lambda>_.
         bindS (store_vmxon 0xba9da9) (\<lambda>_.
         bindS (vmx_on M) (\<lambda>ret1.
         bindS (reportS ''test vmxon with invalid revision identifier'' ret1 []) (\<lambda>_.
         if \<not> ret1 then returnS True
         else
           bindS (getS (\<lambda>s. revision (basic s))) (\<lambda>r. bindS (store_vmxon r) (\<lambda>_.
           bindS (vmx_on M) (\<lambda>ret.
           bindS (reportS ''test vmxon with valid vmxon region'' (\<not> ret) []) (\<lambda>_. returnS ret))))))))))))))))"

definition test_vmptrst :: "'h vmx_cpu \<Rightarrow> vmx_image \<Rightarrow> ('h, unit) vmx" where
  "test_vmptrst M I =
     bindS new_page (\<lambda>_. bindS (init_vmcs M I) (\<lambda>(_, vmcs1).
     bindS (vmcs_save M) (\<lambda>(ret, vmcs2). reportS ''test vmptrst'' (\<not> ret \<and> vmcs1 = vmcs2) [])))"

definition vmx_ctl_msr :: "(string \<times> u32 \<times> u32 \<times> u32) list" where
  "vmx_ctl_msr =
     [(''MSR_IA32_VMX_PINBASED_CTLS'', MSR_IA32_VMX_PINBASED_CTLS, MSR_IA32_VMX_TRUE_PIN, 0x16),
      (''MSR_IA32_VMX_PROCBASED_CTLS'', MSR_IA32_VMX_PROCBASED_CTLS, MSR_IA32_VMX_TRUE_PROC, 0x401e172),
      (''MSR_IA32_VMX_PROCBASED_CTLS2'', MSR_IA32_VMX_PROCBASED_CTLS2, MSR_IA32_VMX_PROCBASED_CTLS2, 0),
      (''MSR_IA32_VMX_EXIT_CTLS'', MSR_IA32_VMX_EXIT_CTLS, MSR_IA32_VMX_TRUE_EXIT, 0x36dff),
      (''MSR_IA32_VMX_ENTRY_CTLS'', MSR_IA32_VMX_ENTRY_CTLS, MSR_IA32_VMX_TRUE_ENTRY, 0x11ff)]"

definition basic_ok :: "u64 \<Rightarrow> bool" where
  "basic_ok b \<longleftrightarrow> revision b AND push_bit 31 1 = 0 \<and> 0 < basic_size b \<and> basic_size b \<le> 4096 \<and>
     (get_field 50 4 b = 0 \<or> get_field 50 4 b = 6) \<and> get_field 45 3 b = 0 \<and> get_field 56 8 b = 0"

definition test_ctl_msr :: "'h vmx_cpu \<Rightarrow> string \<times> u32 \<times> u32 \<times> u32 \<Rightarrow> ('h, unit) vmx" where
  "test_ctl_msr M e =
     (case e of (ctl_name, index, true_index, default1) \<Rightarrow>
        bindS (rdmsr M index) (\<lambda>ctrl.
        bindS (getS (\<lambda>s. basic_ctrl (basic s))) (\<lambda>b.
        let ok = (ctrl_set ctrl AND default1 = default1 \<and> ctrl_set ctrl AND NOT (ctrl_clr ctrl) = 0)
        in bindS (if ok \<and> b
                  then bindS (rdmsr M true_index) (\<lambda>t.
                         returnS (ctrl_clr ctrl = ctrl_clr t \<and> ctrl_set ctrl = ctrl_set t OR default1))
                  else returnS ok) (\<lambda>ok. reportS ''%s'' ok [Str ctl_name]))))"

definition test_vmx_caps :: "'h vmx_cpu \<Rightarrow> ('h, unit) vmx" where
  "test_vmx_caps M =
     bindS (printS ([CHR 0x0A] @ ''Test suite: VMX capability reporting'' @ [CHR 0x0A]) []) (\<lambda>_.
     bindS (getS basic) (\<lambda>b. bindS (reportS ''MSR_IA32_VMX_BASIC'' (basic_ok b) []) (\<lambda>_.
     bindS (rdmsr M MSR_IA32_VMX_MISC) (\<lambda>val. bindS (getS ctrl_cpu_rev1) (\<lambda>rev1.
     bindS (reportS ''MSR_IA32_VMX_MISC''
       ((ctrl_clr rev1 AND CPU_URG = 0 \<or> val AND push_bit 5 1 \<noteq> 0) \<and> drop_bit 16 val AND 0x1ff \<le> 256 \<and>
        val AND 0xc0007e00 = 0) []) (\<lambda>_.
     bindS (forS (test_ctl_msr M) vmx_ctl_msr) (\<lambda>_.
     bindS (rdmsr M MSR_IA32_VMX_CR0_FIXED0) (\<lambda>fixed0. bindS (rdmsr M MSR_IA32_VMX_CR0_FIXED1) (\<lambda>fixed1.
     bindS (reportS ''MSR_IA32_VMX_IA32_VMX_CR0_FIXED0/1'' ((fixed0 XOR fixed1) AND NOT fixed1 = 0) []) (\<lambda>_.
     bindS (rdmsr M MSR_IA32_VMX_CR4_FIXED0) (\<lambda>fixed0. bindS (rdmsr M MSR_IA32_VMX_CR4_FIXED1) (\<lambda>fixed1.
     bindS (reportS ''MSR_IA32_VMX_IA32_VMX_CR4_FIXED0/1'' ((fixed0 XOR fixed1) AND NOT fixed1 = 0) []) (\<lambda>_.
     bindS (rdmsr M MSR_IA32_VMX_VMCS_ENUM) (\<lambda>val.
     bindS (reportS ''MSR_IA32_VMX_VMCS_ENUM'' (0x2a \<le> val AND 0x3e \<and> val AND 0xfffffffffffffc01 = 0) []) (\<lambda>_.
     bindS (rdmsr M MSR_IA32_VMX_EPT_VPID_CAP) (\<lambda>val.
     reportS ''MSR_IA32_VMX_EPT_VPID_CAP'' (val AND 0xfffff07ef98cbebe = 0) []))))))))))))))))"

definition vmx_set_test_stage :: "u32 \<Rightarrow> ('h, unit) vmx" where "vmx_set_test_stage v = setS (\<lambda>s. s\<lparr>stage := v\<rparr>)"
definition vmx_get_test_stage :: "('h, u32) vmx" where "vmx_get_test_stage = getS stage"
definition vmx_inc_test_stage :: "('h, unit) vmx" where "vmx_inc_test_stage = setS (\<lambda>s. s\<lparr>stage := stage s + 1\<rparr>)"
section \<open>Messages\<close>

lemma report_ok:
  assumes "fmt_ok fmt va"
  shows "\<exists>out. report fmt pass va r =
    Inr (r\<lparr>tests := tests r + 1, console := out, failures := failures r + (if pass then 0 else 1)\<rparr>)"
proof -
  have v: "fmt_ok ''%s: '' [Str x]" for x
    by (rule fmt_s) (simp add: fmt_plain fmt_nil)
  obtain o1 n1 where p1: "printf ''%s: '' [Str (if pass then ''PASS'' else ''FAIL'')] = Inr (o1, n1)"
    using fmt_ok_vsnprintf [OF v] unfolding printf_def by blast
  obtain o2 n2 where p2: "vprintf fmt va = Inr (o2, n2)" using fmt_ok_vsnprintf [OF assms] unfolding vprintf_def by blast
  obtain r' where "report fmt pass va r = Inr r'"
    using p1 p2 by (simp add: report_def va_report_def Let_def)
  then show ?thesis
    using va_report_counts [of fmt pass False False va r r'] by (auto simp: report_def Let_def)
qed

section \<open>Total correctness of operations\<close>

text \<open>From a state with \<open>P\<close> the operation succeeds, with \<open>Q\<close> of its result and the new state.\<close>

definition runs :: "('s \<Rightarrow> bool) \<Rightarrow> ('s, 'a) io \<Rightarrow> ('a \<Rightarrow> 's \<Rightarrow> bool) \<Rightarrow> bool" where
  "runs P f Q \<longleftrightarrow> (\<forall>s. P s \<longrightarrow> (\<exists>x s'. f s = Inr (x, s') \<and> Q x s'))"

lemma runsI: "(\<And>s. P s \<Longrightarrow> \<exists>x s'. f s = Inr (x, s') \<and> Q x s') \<Longrightarrow> runs P f Q"
  by (simp add: runs_def)

lemma runsD: "\<lbrakk>runs P f Q; P s\<rbrakk> \<Longrightarrow> \<exists>x s'. f s = Inr (x, s') \<and> Q x s'"
  by (simp add: runs_def)

lemma runs_bind: "\<lbrakk>runs P f R; \<And>x. runs (R x) (g x) Q\<rbrakk> \<Longrightarrow> runs P (bindS f g) Q"
  unfolding runs_def by (force simp: bindS_def)

lemma runs_return: "(\<And>s. P s \<Longrightarrow> Q x s) \<Longrightarrow> runs P (returnS x) Q"
  by (simp add: runs_def returnS_def)

lemma runs_assert: "(\<And>s. P s \<Longrightarrow> b \<and> Q () s) \<Longrightarrow> runs P (assertS b) Q"
  by (auto simp: runs_def assertS_def)

lemma runs_weaken: "\<lbrakk>runs P f Q; \<And>s. P' s \<Longrightarrow> P s; \<And>x s. Q x s \<Longrightarrow> Q' x s\<rbrakk> \<Longrightarrow> runs P' f Q'"
  unfolding runs_def by blast

lemma runs_Nil: "(\<And>s. P s \<Longrightarrow> Q () s) \<Longrightarrow> runs P (forS f []) Q"
  by (simp add: runs_def returnS_def)

lemma runs_Cons: "\<lbrakk>runs P (f x) (\<lambda>_. R); runs R (forS f xs) Q\<rbrakk> \<Longrightarrow> runs P (forS f (x # xs)) Q"
  by (simp add: runs_bind)

lemma runs_seq: "\<lbrakk>runs P x (\<lambda>_. R); runs R (forS (\<lambda>x. x) xs) Q\<rbrakk> \<Longrightarrow> runs P (forS (\<lambda>x. x) (x # xs)) Q"
  by (rule runs_Cons)

lemma runs_report:
  "\<lbrakk>fmt_ok fmt va; \<And>s out. P s \<Longrightarrow> Q () (s\<lparr>rep := (rep s)\<lparr>tests := tests (rep s) + 1, console := out,
      failures := failures (rep s) + (if pass then 0 else 1)\<rparr>\<rparr>)\<rbrakk> \<Longrightarrow> runs P (reportS fmt pass va) Q"
proof (rule runsI)
  fix s
  assume "fmt_ok fmt va" and q: "\<And>s out. P s \<Longrightarrow> Q () (s\<lparr>rep := (rep s)\<lparr>tests := tests (rep s) + 1, console := out,
      failures := failures (rep s) + (if pass then 0 else 1)\<rparr>\<rparr>)" and p: "P s"
  from report_ok [OF this(1), of pass "rep s"] obtain out where
    "report fmt pass va (rep s) = Inr ((rep s)\<lparr>tests := tests (rep s) + 1, console := out,
       failures := failures (rep s) + (if pass then 0 else 1)\<rparr>)" ..
  then show "\<exists>x s'. reportS fmt pass va s = Inr (x, s') \<and> Q x s'" using q [OF p] by (simp add: reportS_def)
qed

lemma runs_print:
  "\<lbrakk>fmt_ok fmt va; \<And>s out. P s \<Longrightarrow> Q () (s\<lparr>rep := (rep s)\<lparr>console := out\<rparr>\<rparr>)\<rbrakk> \<Longrightarrow> runs P (printS fmt va) Q"
proof (rule runsI)
  fix s
  assume "fmt_ok fmt va" and q: "\<And>s out. P s \<Longrightarrow> Q () (s\<lparr>rep := (rep s)\<lparr>console := out\<rparr>\<rparr>)" and p: "P s"
  from fmt_ok_vsnprintf [OF this(1), of BUFSZ] obtain out n where "printf fmt va = Inr (out, n)" unfolding printf_def by blast
  then show "\<exists>x s'. printS fmt va s = Inr (x, s') \<and> Q x s'" using q [OF p] by (simp add: printS_def put_out_def)
qed

section \<open>A processor that keeps the fields\<close>

text \<open>
  What Intel's manual says of the instructions, with \<open>cur\<close> the current VMCS and \<open>val\<close> the contents of all: a
  region is good if it is a page that starts with the revision of the processor. \<open>VMCLEAR\<close> and \<open>VMPTRLD\<close> of a good
  region succeed and keep all contents; they write to memory only behind the first eight bytes of the page.
  \<open>VMWRITE\<close> changes one field of the current VMCS, if the field is supported and not read-only.
\<close>

definition good_region :: "u64 \<Rightarrow> cells \<Rightarrow> u64 \<Rightarrow> bool" where
  "good_region rv m a \<longleftrightarrow> page_ok a \<and> get_field 0 31 (m a) = rv AND mask 31"

definition tested :: "'h vmx_cpu \<Rightarrow> u64 \<times> u64 \<Rightarrow> 'h \<Rightarrow> bool" where
  "tested M f h \<longleftrightarrow> snd f \<noteq> VMX_INST_ERROR \<and>
     \<not> (fst (rdmsr_insn M MSR_IA32_VMX_MISC h) AND MSR_IA32_VMX_MISC_VMWRITE_SHADOW_RO_FIELDS = 0 \<and>
        vmcs_field_type f = VMCS_FIELD_TYPE_READ_ONLY_DATA) \<and>
     fst (fst (vmread_insn M (snd f) h)) AND X86_EFLAGS_ZF = 0"

text \<open>The encodings of the fields the tests look at; the error field can change at any failing instruction.\<close>

definition data_fields :: "u64 set" where
  "data_fields = snd ` set vmcs_fields - {VMX_INST_ERROR}"

record 'h vmcs_view =
  cur :: "'h \<Rightarrow> u64 option"
  val :: "cells \<times> 'h \<Rightarrow> u64 \<Rightarrow> u64 \<Rightarrow> u64"
  can :: "'h \<Rightarrow> u64 \<Rightarrow> bool"

definition same_data :: "'h vmcs_view \<Rightarrow> cells \<times> 'h \<Rightarrow> cells \<times> 'h \<Rightarrow> bool" where
  "same_data V x y \<longleftrightarrow> (\<forall>b. \<forall>e \<in> data_fields. val V y b e = val V x b e) \<and> can V (snd y) = can V (snd x)"

definition other_memory :: "u64 \<Rightarrow> cells \<Rightarrow> cells \<Rightarrow> bool" where
  "other_memory a m m' \<longleftrightarrow> (\<forall>b. m' b = m b \<or> b - a < PAGE_SIZE \<and> b \<noteq> a)"

definition keeps_vmcs :: "'h vmx_cpu \<Rightarrow> u64 \<Rightarrow> 'h vmcs_view \<Rightarrow> bool" where
  "keeps_vmcs M rv V \<longleftrightarrow>
     (\<forall>m h a. good_region rv m a \<longrightarrow>
        (\<exists>m' h'. vmclear_insn M a (m, h) = (False, m', h') \<and> other_memory a m m' \<and> same_data V (m, h) (m', h') \<and>
           cur V h' = (if cur V h = Some a then None else cur V h)) \<and>
        (\<exists>m' h'. vmptrld_insn M a (m, h) = (False, m', h') \<and> other_memory a m m' \<and> same_data V (m, h) (m', h') \<and>
           cur V h' = Some a)) \<and>
     (\<forall>m h a e v. cur V h = Some a \<longrightarrow>
        (\<exists>r h'. vmwrite_insn M e v h = (r, h') \<and> cur V h' = Some a \<and> can V h' = can V h \<and>
           (\<forall>b. \<forall>e' \<in> data_fields. (b, e') \<noteq> (a, e) \<longrightarrow> val V (m, h') b e' = val V (m, h) b e') \<and>
           (\<forall>f \<in> set vmcs_fields. snd f = e \<and> can V h e \<longrightarrow> val V (m, h') a e AND fst f = v AND fst f))) \<and>
     (\<forall>m h a e. cur V h = Some a \<longrightarrow>
        (\<exists>fl h'. vmread_insn M e h = ((fl, val V (m, h) a e), h') \<and> fl AND X86_EFLAGS_CF = 0 \<and>
           cur V h' = Some a \<and> same_data V (m, h) (m, h'))) \<and>
     (\<forall>h i. snd (rdmsr_insn M i h) = h) \<and>
     (\<forall>h. \<forall>f \<in> set vmcs_fields. cur V h \<noteq> None \<and> tested M f h \<longrightarrow> can V h (snd f))"

text \<open>The encodings increase along the table, but for one pair; so they are distinct.\<close>

lemma fields_distinct: "distinct (map snd vmcs_fields)"
proof -
  let ?xs = "map snd vmcs_fields"
  have "successively (<) (?xs[33 := ?xs ! 34, 34 := ?xs ! 33])"
    by code_simp
  then have "sorted_wrt (<) (?xs[33 := ?xs ! 34, 34 := ?xs ! 33])"
    by (subst (asm) successively_conv_sorted_wrt) simp_all
  then have "distinct (?xs[33 := ?xs ! 34, 34 := ?xs ! 33])" by (simp only: strict_sorted_iff)
  moreover have "length ?xs = 132" by (simp add: vmcs_fields_def)
  ultimately show ?thesis by (simp only: distinct_swap [of 33 ?xs 34])
qed

text \<open>A VMCS holds the values of a cookie in every field it can hold.\<close>

definition holds_cookie :: "'h vmcs_view \<Rightarrow> u8 \<Rightarrow> u64 \<Rightarrow> cells \<times> 'h \<Rightarrow> (u64 \<times> u64) set \<Rightarrow> bool" where
  "holds_cookie V k a x F \<longleftrightarrow>
     (\<forall>f \<in> F. can V (snd x) (snd f) \<and> snd f \<noteq> VMX_INST_ERROR \<longrightarrow> val V x a (snd f) AND fst f = vmcs_field_value f k)"

abbreviation mem_hw :: "'h vmx_state \<Rightarrow> cells \<times> 'h" where
  "mem_hw s \<equiv> (cells s, vmx_hw s)"

lemma holds_same:
  assumes "holds_cookie V k a x F" "same_data V x y" "F \<subseteq> set vmcs_fields"
  shows "holds_cookie V k a y F"
  unfolding holds_cookie_def
proof (intro ballI impI)
  fix f assume f: "f \<in> F" "can V (snd y) (snd f) \<and> snd f \<noteq> VMX_INST_ERROR"
  then have "snd f \<in> data_fields" using assms(3) by (auto simp: data_fields_def)
  then have "val V y a (snd f) = val V x a (snd f)" "can V (snd x) (snd f)" using assms(2) f by (simp_all add: same_data_def)
  then show "val V y a (snd f) AND fst f = vmcs_field_value f k" using assms(1) f by (simp add: holds_cookie_def)
qed

lemma value_masked: "vmcs_field_value f k AND fst f = vmcs_field_value f k"
  by (simp add: vmcs_field_value_def and.assoc)

text \<open>What is known between two operations: the current VMCS, what each of them holds, the counts.\<close>

definition vm_known ::
    "'h vmx_cpu \<Rightarrow> u64 \<Rightarrow> 'h vmcs_view \<Rightarrow> u64 set \<Rightarrow> u64 list \<Rightarrow> u64 option \<Rightarrow> (u64 \<Rightarrow> u8 option) \<Rightarrow> u32 \<Rightarrow> u32 \<Rightarrow> 'h vmx_state \<Rightarrow> bool" where
  "vm_known M rv V as xs c D n fl s \<longleftrightarrow> keeps_vmcs M rv V \<and> free_inv s xs \<and> as \<inter> set xs = {} \<and>
     (\<forall>a \<in> as. good_region rv (cells s) a) \<and> (\<forall>b. c = Some b \<longrightarrow> b \<in> as) \<and> cur V (vmx_hw s) = c \<and>
     (\<forall>a k. D a = Some k \<longrightarrow> holds_cookie V k a (mem_hw s) (set vmcs_fields)) \<and>
     tests (rep s) = n \<and> failures (rep s) = fl \<and> revision (basic s) = rv"

lemma page_apart: "\<lbrakk>page_ok a; page_ok x; x - a < PAGE_SIZE\<rbrakk> \<Longrightarrow> x = a"
  using page_of_add [of a "x - a"] page_of_page [of x] by (simp add: page_ok_def)

lemma other_memory_page: "\<lbrakk>other_memory a m m'; page_ok a; page_ok x\<rbrakk> \<Longrightarrow> m' x = m x"
  using page_apart [of a x] by (auto simp: other_memory_def)

text \<open>An instruction that only writes behind the start of a VMCS page keeps what is known.\<close>

lemma vm_known_step:
  assumes "vm_known M rv V as xs c D n fl s" "a \<in> as" "other_memory a (cells s) m'" "same_data V (mem_hw s) (m', h')"
    "cur V h' = c'" "\<And>b. c' = Some b \<Longrightarrow> b \<in> as"
  shows "vm_known M rv V as xs c' D n fl (s\<lparr>cells := m', vmx_hw := h'\<rparr>)"
proof -
  have as: "\<And>b. b \<in> as \<Longrightarrow> good_region rv (cells s) b" using assms(1) by (simp add: vm_known_def)
  have a: "page_ok a" using as [OF assms(2)] by (simp add: good_region_def)
  have pg: "\<And>x. page_ok x \<Longrightarrow> m' x = cells s x" by (rule other_memory_page [OF assms(3) a])
  have "seg m' (freelist s) xs 0 = seg (cells s) (freelist s) xs 0"
    using assms(1) by (intro seg_cong) (auto simp: vm_known_def free_inv_def pg)
  then have "free_inv (s\<lparr>cells := m', vmx_hw := h'\<rparr>) xs" using assms(1) by (simp add: vm_known_def free_inv_def)
  moreover have "good_region rv m' b" if "b \<in> as" for b using as [OF that] pg by (simp add: good_region_def)
  moreover have "holds_cookie V k b (m', h') (set vmcs_fields)" if "D b = Some k" for b k
    using assms(1,4) that holds_same [of V k b "mem_hw s" "set vmcs_fields" "(m', h')"] by (simp add: vm_known_def)
  ultimately show ?thesis using assms(1,5,6) by (simp add: vm_known_def)
qed

lemma keeps_clear:
  "\<lbrakk>keeps_vmcs M rv V; good_region rv m a\<rbrakk> \<Longrightarrow>
   \<exists>m' h'. vmclear_insn M a (m, h) = (False, m', h') \<and> other_memory a m m' \<and> same_data V (m, h) (m', h') \<and>
     cur V h' = (if cur V h = Some a then None else cur V h)"
  by (simp only: keeps_vmcs_def)

lemma keeps_load:
  "\<lbrakk>keeps_vmcs M rv V; good_region rv m a\<rbrakk> \<Longrightarrow>
   \<exists>m' h'. vmptrld_insn M a (m, h) = (False, m', h') \<and> other_memory a m m' \<and> same_data V (m, h) (m', h') \<and>
     cur V h' = Some a"
  by (simp only: keeps_vmcs_def)

lemma keeps_write:
  "\<lbrakk>keeps_vmcs M rv V; cur V h = Some a\<rbrakk> \<Longrightarrow>
   \<exists>r h'. vmwrite_insn M e v h = (r, h') \<and> cur V h' = Some a \<and> can V h' = can V h \<and>
     (\<forall>b. \<forall>e' \<in> data_fields. (b, e') \<noteq> (a, e) \<longrightarrow> val V (m, h') b e' = val V (m, h) b e') \<and>
     (\<forall>f \<in> set vmcs_fields. snd f = e \<and> can V h e \<longrightarrow> val V (m, h') a e AND fst f = v AND fst f)"
  by (simp only: keeps_vmcs_def)

lemma keeps_read:
  "\<lbrakk>keeps_vmcs M rv V; cur V h = Some a\<rbrakk> \<Longrightarrow>
   \<exists>fl h'. vmread_insn M e h = ((fl, val V (m, h) a e), h') \<and> fl AND X86_EFLAGS_CF = 0 \<and>
     cur V h' = Some a \<and> same_data V (m, h) (m, h')"
  by (simp only: keeps_vmcs_def)

lemma runs_clear:
  assumes "a \<in> as"
  shows "runs (vm_known M rv V as xs c D n fl) (clear_assert M a)
    (\<lambda>_. vm_known M rv V as xs (if c = Some a then None else c) D n fl)"
proof (rule runsI)
  fix s assume k: "vm_known M rv V as xs c D n fl s"
  then have "good_region rv (cells s) a" "keeps_vmcs M rv V" "cur V (vmx_hw s) = c" using assms by (simp_all add: vm_known_def)
  then obtain m' h' where i: "vmclear_insn M a (mem_hw s) = (False, m', h')" "other_memory a (cells s) m'"
    "same_data V (mem_hw s) (m', h')" "cur V h' = (if c = Some a then None else c)"
    using keeps_clear [of M rv V "cells s" a "vmx_hw s"] by blast
  have "vm_known M rv V as xs (if c = Some a then None else c) D n fl (s\<lparr>cells := m', vmx_hw := h'\<rparr>)"
    by (rule vm_known_step [OF k assms i(2-4)]) (use k in \<open>simp add: vm_known_def split: if_splits\<close>)
  then show "\<exists>x s'. clear_assert M a s = Inr (x, s') \<and> vm_known M rv V as xs (if c = Some a then None else c) D n fl s'"
    using i(1) by (simp add: clear_assert_def vmcs_clear_def bindS_def hw_memS_def assertS_def)
qed

lemma runs_load:
  assumes "a \<in> as"
  shows "runs (vm_known M rv V as xs c D n fl) (load_assert M a) (\<lambda>_. vm_known M rv V as xs (Some a) D n fl)"
proof (rule runsI)
  fix s assume k: "vm_known M rv V as xs c D n fl s"
  then have "good_region rv (cells s) a" "keeps_vmcs M rv V" using assms by (simp_all add: vm_known_def)
  then obtain m' h' where i: "vmptrld_insn M a (mem_hw s) = (False, m', h')" "other_memory a (cells s) m'"
    "same_data V (mem_hw s) (m', h')" "cur V h' = Some a"
    using keeps_load [of M rv V "cells s" a "vmx_hw s"] by blast
  have "vm_known M rv V as xs (Some a) D n fl (s\<lparr>cells := m', vmx_hw := h'\<rparr>)"
    by (rule vm_known_step [OF k assms i(2-4)]) (use assms in simp)
  then show "\<exists>x s'. load_assert M a s = Inr (x, s') \<and> vm_known M rv V as xs (Some a) D n fl s'"
    using i(1) by (simp add: load_assert_def make_vmcs_current_def bindS_def hw_memS_def assertS_def)
qed

lemma runs_known_report:
  "fmt_ok fmt va \<Longrightarrow> runs (vm_known M rv V as xs c D n fl) (reportS fmt pass va)
     (\<lambda>_. vm_known M rv V as xs c D (n + 1) (fl + (if pass then 0 else 1)))"
  by (rule runs_report) (auto simp: vm_known_def free_inv_def)

lemma runs_known_print:
  "fmt_ok fmt va \<Longrightarrow> runs (vm_known M rv V as xs c D n fl) (printS fmt va) (\<lambda>_. vm_known M rv V as xs c D n fl)"
  by (rule runs_print) (auto simp: vm_known_def free_inv_def)

text \<open>Writing fields one by one: those written hold the cookie, the others what they held.\<close>

lemma set_fields_holds:
  assumes "keeps_vmcs M rv V"
  shows "\<lbrakk>distinct (map snd (gs @ fs)); set (gs @ fs) \<subseteq> set vmcs_fields; cur V (vmx_hw s) = Some a;
     holds_cookie V k a (mem_hw s) (set gs)\<rbrakk> \<Longrightarrow>
   \<exists>h'. forS (set_vmcs_field M k) fs s = Inr ((), s\<lparr>vmx_hw := h'\<rparr>) \<and> cur V h' = Some a \<and> can V h' = can V (vmx_hw s) \<and>
     holds_cookie V k a (cells s, h') (set (gs @ fs)) \<and>
     (\<forall>b. \<forall>e \<in> data_fields. b \<noteq> a \<longrightarrow> val V (cells s, h') b e = val V (mem_hw s) b e)"
proof (induction fs arbitrary: gs s)
  case Nil
  then show ?case by (intro exI [of _ "vmx_hw s"]) (simp add: returnS_def)
next
  case (Cons f fs)
  obtain r h1 where w: "vmwrite_insn M (snd f) (vmcs_field_value f k) (vmx_hw s) = (r, h1)" "cur V h1 = Some a"
    "can V h1 = can V (vmx_hw s)"
    "\<forall>b. \<forall>e' \<in> data_fields. (b, e') \<noteq> (a, snd f) \<longrightarrow> val V (cells s, h1) b e' = val V (mem_hw s) b e'"
    "\<forall>g \<in> set vmcs_fields. snd g = snd f \<and> can V (vmx_hw s) (snd f) \<longrightarrow>
       val V (cells s, h1) a (snd f) AND fst g = vmcs_field_value f k AND fst g"
    using keeps_write [OF assms Cons.prems(3), of "snd f" "vmcs_field_value f k" "cells s"] by blast
  have f: "f \<in> set vmcs_fields" using Cons.prems(2) by simp
  have g: "snd g \<noteq> snd f" "g \<in> set vmcs_fields" if "g \<in> set gs" for g
    using Cons.prems(1,2) that by (force simp: image_iff)+
  have old: "val V (cells s, h1) a (snd g) = val V (mem_hw s) a (snd g)" if "g \<in> set gs" "snd g \<noteq> VMX_INST_ERROR" for g
    using w(4) g [OF that(1)] that(2) by (simp add: data_fields_def)
  have "holds_cookie V k a (cells s, h1) (set (gs @ [f]))"
    using Cons.prems(4) w(3) w(5) f old value_masked [of f k] unfolding holds_cookie_def by auto
  then have "holds_cookie V k a (mem_hw (s\<lparr>vmx_hw := h1\<rparr>)) (set (gs @ [f]))" by simp
  from Cons.IH [OF _ _ _ this] obtain h' where h': "forS (set_vmcs_field M k) fs (s\<lparr>vmx_hw := h1\<rparr>) = Inr ((), s\<lparr>vmx_hw := h'\<rparr>)"
    "cur V h' = Some a" "can V h' = can V h1" "holds_cookie V k a (cells s, h') (set (gs @ f # fs))"
    "\<forall>b. \<forall>e \<in> data_fields. b \<noteq> a \<longrightarrow> val V (cells s, h') b e = val V (cells s, h1) b e"
    using Cons.prems w(2) by auto
  have "forS (set_vmcs_field M k) (f # fs) s = Inr ((), s\<lparr>vmx_hw := h'\<rparr>)"
    using h'(1) w(1) by (simp add: set_vmcs_field_def vmcs_write_def hwS_def bindS_def returnS_def)
  then show ?case using h' w(3,4) by (intro exI [of _ h']) simp
qed

lemma runs_set_all:
  "runs (vm_known M rv V as xs (Some a) D n fl) (set_all_vmcs_fields M k)
     (\<lambda>_. vm_known M rv V as xs (Some a) (D(a \<mapsto> k)) n fl)"
proof (rule runsI)
  fix s assume v: "vm_known M rv V as xs (Some a) D n fl s"
  have "holds_cookie V k a (mem_hw s) (set [])" by (simp add: holds_cookie_def)
  from set_fields_holds [OF _ _ _ _ this, of M rv vmcs_fields] v fields_distinct
  obtain h' where h: "set_all_vmcs_fields M k s = Inr ((), s\<lparr>vmx_hw := h'\<rparr>)" "cur V h' = Some a" "can V h' = can V (vmx_hw s)"
    "holds_cookie V k a (cells s, h') (set vmcs_fields)"
    "\<forall>b. \<forall>e \<in> data_fields. b \<noteq> a \<longrightarrow> val V (cells s, h') b e = val V (mem_hw s) b e"
    unfolding set_all_vmcs_fields_def vm_known_def by auto
  have "holds_cookie V j b (cells s, h') (set vmcs_fields)" if "D b = Some j" "b \<noteq> a" for b j
  proof -
    have "holds_cookie V j b (mem_hw s) (set vmcs_fields)" using v that by (simp add: vm_known_def)
    then show ?thesis using h(3,5) that(2) by (auto simp: holds_cookie_def data_fields_def)
  qed
  then have "vm_known M rv V as xs (Some a) (D(a \<mapsto> k)) n fl (s\<lparr>vmx_hw := h'\<rparr>)"
    using v h by (auto simp: vm_known_def free_inv_def)
  then show "\<exists>x s'. set_all_vmcs_fields M k s = Inr (x, s') \<and> vm_known M rv V as xs (Some a) (D(a \<mapsto> k)) n fl s'"
    using h(1) by blast
qed

lemma fmt_skip: "fmt_ok (''Skipping volatile field %lx'' @ [CHR 0x0A]) [Word w]" "fmt_ok (''Skipping read-only field %lx'' @ [CHR 0x0A]) [Word w]"
  by (simp_all, (intro fmt_plain fmt_lx fmt_nil; simp)+)

text \<open>A field that holds the cookie passes the check.\<close>

lemma runs_check_field:
  assumes "D a = Some k" "f \<in> set vmcs_fields"
  shows "runs (vm_known M rv V as xs (Some a) D n fl) (check_vmcs_field M k f)
    (\<lambda>ok s. ok \<and> vm_known M rv V as xs (Some a) D n fl s)"
proof (cases "snd f = VMX_INST_ERROR")
  case True
  then have "check_vmcs_field M k f = bindS (printS (''Skipping volatile field %lx'' @ [CHR 0x0A]) [Word (snd f)]) (\<lambda>_. returnS True)"
    by (simp add: check_vmcs_field_def)
  then show ?thesis by (simp only:) (rule runs_bind [OF runs_known_print [OF fmt_skip(1)]], rule runs_return, simp)
next
  case False
  show ?thesis
  proof (rule runsI)
    fix s assume v: "vm_known M rv V as xs (Some a) D n fl s"
    let ?misc = "fst (rdmsr_insn M MSR_IA32_VMX_MISC (vmx_hw s))"
    let ?ro = "?misc AND MSR_IA32_VMX_MISC_VMWRITE_SHADOW_RO_FIELDS = 0 \<and> vmcs_field_type f = VMCS_FIELD_TYPE_READ_ONLY_DATA"
    have kv: "keeps_vmcs M rv V" "cur V (vmx_hw s) = Some a" and aas: "a \<in> as" using v by (simp_all add: vm_known_def)
    have "snd (rdmsr_insn M MSR_IA32_VMX_MISC (vmx_hw s)) = vmx_hw s" using kv(1) by (simp add: keeps_vmcs_def)
    then have ro: "vmcs_field_readonly M f s = Inr (?ro, s)"
      by (simp add: vmcs_field_readonly_def rdmsr_def hwS_def bindS_def returnS_def case_prod_beta)
    show "\<exists>x s'. check_vmcs_field M k f s = Inr (x, s') \<and> x \<and> vm_known M rv V as xs (Some a) D n fl s'"
    proof (cases ?ro)
      case True
      obtain s1 where s1: "printS (''Skipping read-only field %lx'' @ [CHR 0x0A]) [Word (snd f)] s = Inr ((), s1)"
        "vm_known M rv V as xs (Some a) D n fl s1"
        using runsD [OF runs_known_print [OF fmt_skip(2) [of "snd f"]] v] by auto
      have "check_vmcs_field M k f s = bindE (vmcs_field_readonly M f s) (\<lambda>(ro, d). if ro
          then bindE (printS (''Skipping read-only field %lx'' @ [CHR 0x0A]) [Word (snd f)] d) (\<lambda>(x, d). returnS True d)
          else check_vmcs_field M k f s)"
        using False ro True by (simp add: check_vmcs_field_def bindS_def)
      then have "check_vmcs_field M k f s = Inr (True, s1)" using True using s1(1) [simplified] by (simp add: ro returnS_def)
      then show ?thesis using s1(2) by blast
    next
      case nro: False
      obtain flags h' where r: "vmread_insn M (snd f) (vmx_hw s) = ((flags, val V (mem_hw s) a (snd f)), h')"
        "flags AND X86_EFLAGS_CF = 0" "cur V h' = Some a" "same_data V (mem_hw s) (cells s, h')"
        using keeps_read [OF kv, of "snd f" "cells s"] by blast
      have v': "vm_known M rv V as xs (Some a) D n fl (s\<lparr>vmx_hw := h'\<rparr>)"
        using vm_known_step [OF v aas _ r(4,3)] aas by (simp add: other_memory_def)
      have m: "(flags AND (X86_EFLAGS_CF OR X86_EFLAGS_ZF)) AND X86_EFLAGS_CF = 0"
        "(flags AND (X86_EFLAGS_CF OR X86_EFLAGS_ZF)) AND X86_EFLAGS_ZF = flags AND X86_EFLAGS_ZF"
        using r(2) by (simp_all add: vmx_const and.assoc)
      have c: "check_vmcs_field M k f s =
          (if flags AND X86_EFLAGS_ZF \<noteq> 0 then Inr (True, s\<lparr>vmx_hw := h'\<rparr>)
           else (if vmcs_field_value f k = val V (mem_hw s) a (snd f) AND fst f then returnS True
             else bindS (printS (''FAIL: VMWRITE/VMREAD %lx (expected: %lx, actual: %lx)'' @ [CHR 0x0A])
                [Word (snd f), Word (vmcs_field_value f k), Word (val V (mem_hw s) a (snd f) AND fst f)]) (\<lambda>_. returnS False))
             (s\<lparr>vmx_hw := h'\<rparr>))"
        using False ro nro r(1) m
        by (simp add: check_vmcs_field_def bindS_def vmcs_read_checking_def hwS_def returnS_def assertS_def Let_def)
      have "vmcs_field_value f k = val V (mem_hw s) a (snd f) AND fst f" if z: "flags AND X86_EFLAGS_ZF = 0"
      proof -
        have "tested M f (vmx_hw s)" using False nro z r(1) by (simp add: tested_def)
        then have "can V (vmx_hw s) (snd f)" using kv assms(2) unfolding keeps_vmcs_def by (metis option.distinct(1))
        then show ?thesis using v assms False unfolding vm_known_def holds_cookie_def by (metis snd_conv)
      qed
      then show ?thesis using c v' by (intro exI [of _ True] exI [of _ "s\<lparr>vmx_hw := h'\<rparr>"]) (simp add: returnS_def)
    qed
  qed
qed

lemma runs_check_loop:
  "D a = Some k \<Longrightarrow> set fs \<subseteq> set vmcs_fields \<Longrightarrow>
   runs (vm_known M rv V as xs (Some a) D n fl) (check_fields_loop M k fs True)
     (\<lambda>ok s. ok \<and> vm_known M rv V as xs (Some a) D n fl s)"
proof (induction fs)
  case Nil
  then show ?case unfolding check_fields_loop.simps by (intro runs_return) simp
next
  case (Cons f fs)
  have c: "runs (vm_known M rv V as xs (Some a) D n fl) (check_vmcs_field M k f)
      (\<lambda>ok s. ok \<and> vm_known M rv V as xs (Some a) D n fl s)"
    using Cons.prems by (intro runs_check_field) simp_all
  have i: "runs (vm_known M rv V as xs (Some a) D n fl) (check_fields_loop M k fs True)
      (\<lambda>ok s. ok \<and> vm_known M rv V as xs (Some a) D n fl s)" using Cons by simp
  show ?case
    unfolding check_fields_loop.simps
  proof (rule runs_bind [OF c])
    show "runs (\<lambda>s. ok \<and> vm_known M rv V as xs (Some a) D n fl s) (check_fields_loop M k fs (if ok then True else False))
        (\<lambda>ok s. ok \<and> vm_known M rv V as xs (Some a) D n fl s)" for ok
      using i by (cases ok) (simp_all add: runs_def)
  qed
qed

lemma runs_report_fields:
  assumes "D a = Some k" "fmt_ok msg []"
  shows "runs (vm_known M rv V as xs (Some a) D n fl) (report_fields M msg k) (\<lambda>_. vm_known M rv V as xs (Some a) D (n + 1) fl)"
  unfolding report_fields_def check_all_vmcs_fields_def
proof (rule runs_bind [OF runs_check_loop [where D = D and a = a and fs = vmcs_fields, OF assms(1) subset_refl]])
  show "runs (\<lambda>s. ok \<and> vm_known M rv V as xs (Some a) D n fl s) (reportS msg ok []) (\<lambda>_. vm_known M rv V as xs (Some a) D (n + 1) fl)" for ok
    using runs_known_report [OF assms(2), of M rv V as xs "Some a" D n fl ok] by (cases ok) (simp_all add: runs_def)
qed

lemma fmt_vmcs: "fmt_ok (''VMPTRLD VMCS%d'' @ [CHR 0x0A]) [Word w]" "fmt_ok (''VMCLEAR VMCS%d'' @ [CHR 0x0A]) [Word w]"
  by (simp_all, (intro fmt_plain fmt_d fmt_nil; simp)+)

lemma runs_VMCLEAR:
  assumes "i < length vs" "vs ! i \<in> as"
  shows "runs (vm_known M rv V as xs c D n fl) (VMCLEAR M vs i)
    (\<lambda>_. vm_known M rv V as xs (if c = Some (vs ! i) then None else c) D n fl)"
  unfolding VMCLEAR_def
  by (rule runs_bind [OF runs_assert runs_bind [OF runs_clear [OF assms(2)] runs_known_print [OF fmt_vmcs(2)]]])
    (simp add: assms(1))

lemma runs_VMPTRLD:
  assumes "i < length vs" "vs ! i \<in> as"
  shows "runs (vm_known M rv V as xs c D n fl) (VMPTRLD M vs i) (\<lambda>_. vm_known M rv V as xs (Some (vs ! i)) D n fl)"
  unfolding VMPTRLD_def
  by (rule runs_bind [OF runs_assert runs_bind [OF runs_load [OF assms(2)] runs_known_print [OF fmt_vmcs(1)]]])
    (simp add: assms(1))

text \<open>A new VMCS, and giving one back.\<close>

lemma good_new_region:
  assumes "page_ok a"
  shows "good_region (revision b) ((zero_page m a)(a := set_field 0 31 (revision b) (zero_page m a a))) a"
  using assms get_set_field [of 0 31 "revision b" "zero_page m a a"]
  by (simp add: good_region_def)

lemma runs_new_vmcs:
  "runs (vm_known M rv V as (a # xs) None (\<lambda>_. None) n fl) new_vmcs
     (\<lambda>v s. v = a \<and> vm_known M rv V (insert a as) xs None (\<lambda>_. None) n fl s)"
proof (rule runsI)
  fix s assume v: "vm_known M rv V as (a # xs) None (\<lambda>_. None) n fl s"
  then have f: "free_inv s (a # xs)" by (simp add: vm_known_def)
  note al = alloc_page_Cons [OF f]
  have pa: "page_ok a" "a \<notin> set xs" "a \<notin> as" using f v by (auto simp: free_inv_def vm_known_def)
  define m where "m = (zero_page (cells s) a)(a := set_field 0 31 (revision (basic s)) (zero_page (cells s) a a))"
  have other: "m x = cells s x" if "page_ok x" "x \<noteq> a" for x
    using that page_apart [OF pa(1) that(1)] by (auto simp: m_def zero_page_def)
  have run: "new_vmcs s = Inr (a, s\<lparr>freelist := cells s a, cells := m\<rparr>)"
    by (simp add: new_vmcs_def bindS_def alloc_pageS_def al(1) zero_pageS_def set_revisionS_def returnS_def m_def)
  have fx: "free_inv (s\<lparr>freelist := cells s a\<rparr>) xs" by (rule al(2))
  have "seg m (cells s a) xs 0 = seg (cells s) (cells s a) xs 0"
    using f pa(2) by (intro seg_cong other) (auto simp: free_inv_def)
  then have "free_inv (s\<lparr>freelist := cells s a, cells := m\<rparr>) xs" using fx by (simp add: free_inv_def)
  moreover have "good_region rv m b" if "b \<in> insert a as" for b
  proof (cases "b = a")
    case True
    then show ?thesis using good_new_region [OF pa(1), of "basic s" "cells s"] v by (simp add: m_def vm_known_def)
  next
    case False
    then have "good_region rv (cells s) b" using v that by (simp add: vm_known_def)
    then show ?thesis using other [of b] False by (simp add: good_region_def)
  qed
  ultimately have "vm_known M rv V (insert a as) xs None (\<lambda>_. None) n fl (s\<lparr>freelist := cells s a, cells := m\<rparr>)"
    using v pa by (auto simp: vm_known_def)
  then show "\<exists>x s'. new_vmcs s = Inr (x, s') \<and> x = a \<and> vm_known M rv V (insert a as) xs None (\<lambda>_. None) n fl s'"
    using run by blast
qed

text \<open>
  At the end of a test each VMCS is cleared and its page given back; what it held does not matter any more.
\<close>

lemma runs_free:
  assumes "a \<in> as" "c \<noteq> Some a"
  shows "runs (vm_known M rv V as xs c D n fl) (free_pageS a) (\<lambda>_. vm_known M rv V (as - {a}) (a # xs) c (\<lambda>_. None) n fl)"
proof (rule runsI)
  fix s assume v: "vm_known M rv V as xs c D n fl s"
  have g: "good_region rv (cells s) b" if "b \<in> as" for b using v that by (simp add: vm_known_def)
  then have "free_inv (free_page a s) (a # xs)"
    using v assms(1) by (intro free_page_inv) (auto simp: vm_known_def good_region_def)
  then have "vm_known M rv V (as - {a}) (a # xs) c (\<lambda>_. None) n fl (free_page a s)"
    using v assms g by (auto simp: vm_known_def free_page_def good_region_def)
  then show "\<exists>x s'. free_pageS a s = Inr (x, s') \<and> vm_known M rv V (as - {a}) (a # xs) c (\<lambda>_. None) n fl s'"
    by (simp add: free_pageS_def)
qed

lemma fmt_plain_text: "CHR ''%'' \<notin> set msg \<Longrightarrow> fmt_ok msg []"
  by (induction msg) (auto simp: fmt_ok_simps)

text \<open>A processor that does no more than keep the fields.\<close>

definition store_cpu :: "(u64 option \<times> (u64 \<Rightarrow> u64 \<Rightarrow> u64)) vmx_cpu" where
  "store_cpu = \<lparr>vmxon_insn = (\<lambda>_ (_, h). (False, h)), vmxoff_insn = (\<lambda>h. (False, h)),
     vmclear_insn = (\<lambda>a (m, c, st). (False, m, if c = Some a then None else c, st)),
     vmptrld_insn = (\<lambda>a (m, c, st). (False, m, Some a, st)),
     vmptrst_insn = (\<lambda>(c, st). ((False, case c of Some a \<Rightarrow> a | None \<Rightarrow> - 1), c, st)),
     vmread_insn = (\<lambda>e (c, st). ((0, case c of Some a \<Rightarrow> st a e | None \<Rightarrow> 0), c, st)),
     vmwrite_insn = (\<lambda>e v (c, st). (False, c, case c of Some a \<Rightarrow> st(a := (st a)(e := v)) | None \<Rightarrow> st)),
     rdmsr_insn = (\<lambda>i h. (- 1, h)), wrmsr_insn = (\<lambda>_ _ h. h),
     read_cr0_insn = (\<lambda>h. (0x80000011, h)), read_cr3_insn = (\<lambda>h. (0x1000, h)), read_cr4_insn = (\<lambda>h. (0x20, h)),
     write_cr0_insn = (\<lambda>_ h. h), write_cr4_insn = (\<lambda>_ h. h), maxphyaddr = (\<lambda>h. (36, h)), raises_gp = (\<lambda>_ (_, h). (True, h))\<rparr>"

definition store_view :: "(u64 option \<times> (u64 \<Rightarrow> u64 \<Rightarrow> u64)) vmcs_view" where
  "store_view = \<lparr>cur = fst, val = (\<lambda>(m, c, st). st), can = (\<lambda>_ _. True)\<rparr>"

lemma store_cpu_keeps: "keeps_vmcs store_cpu rv store_view"
  unfolding keeps_vmcs_def store_cpu_def store_view_def other_memory_def same_data_def
  by (auto simp: vmx_const)

definition vmx_sample :: "(u64 option \<times> (u64 \<Rightarrow> u64 \<Rightarrow> u64)) vmx_state" where
  "vmx_sample = \<lparr>cells = (\<lambda>_. 0)(0x1000 := 0x2000), freelist = 0x1000,
     rep = \<lparr>tests = 0, failures = 0, xfailures = 0, skipped = 0, prefixes = [], console = []\<rparr>,
     vmx_hw = (None, \<lambda>_ _. 0), vmxon_region = 0x3000, vmcs_root = 0, vpid_cnt = 0, guest_stack = 0x4000, guest_syscall_stack = 0x5000,
     ctrl_pin = 0, ctrl_enter = 0, ctrl_exit = 0, ctrl_cpu0 = 0, ctrl_cpu1 = 0, basic = 0x12, ctrl_pin_rev = 0xffffffff00000016,
     ctrl_cpu_rev0 = 0xffffffff0401e172, ctrl_cpu_rev1 = 0, ctrl_exit_rev = 0xffffffff00036dff, ctrl_enter_rev = 0xffffffff000011ff,
     ept_vpid = 0, stage = 0\<rparr>"

lemma vmx_sample_free: "free_inv vmx_sample [0x1000, 0x2000]"
  by (simp add: vmx_sample_def free_inv_def page_ok_def) code_simp


section \<open>The controls\<close>

text \<open>Operations that change nothing but the processor.\<close>

definition only_hw :: "('h, 'a) vmx \<Rightarrow> bool" where
  "only_hw f \<longleftrightarrow> (\<forall>s x s'. f s = Inr (x, s') \<longrightarrow> (\<exists>h. s' = s\<lparr>vmx_hw := h\<rparr>))"

lemma only_hwD: "\<lbrakk>only_hw f; f s = Inr (x, s')\<rbrakk> \<Longrightarrow> \<exists>h. s' = s\<lparr>vmx_hw := h\<rparr>"
  by (simp add: only_hw_def)

named_theorems only_hw "operations that change nothing but the processor"

lemma only_hw_bind [only_hw]: "\<lbrakk>only_hw f; \<And>x. only_hw (g x)\<rbrakk> \<Longrightarrow> only_hw (bindS f g)"
  unfolding only_hw_def
proof (intro allI impI)
  fix s y s'
  assume f: "\<forall>s x s'. f s = Inr (x, s') \<longrightarrow> (\<exists>h. s' = s\<lparr>vmx_hw := h\<rparr>)"
    and g: "\<And>x. \<forall>s xa s'. g x s = Inr (xa, s') \<longrightarrow> (\<exists>h. s' = s\<lparr>vmx_hw := h\<rparr>)" and e: "bindS f g s = Inr (y, s')"
  obtain x s1 where 1: "f s = Inr (x, s1)" "g x s1 = Inr (y, s')" using e by (auto simp: bindS_def bindE_eq_Inr)
  obtain h h' where "s1 = s\<lparr>vmx_hw := h\<rparr>" "s' = s1\<lparr>vmx_hw := h'\<rparr>" using f g 1 by metis
  then show "\<exists>h. s' = s\<lparr>vmx_hw := h\<rparr>" by auto
qed

lemma same_hw: "s\<lparr>vmx_hw := vmx_hw s\<rparr> = (s :: 'h vmx_state)"
  by simp

lemma only_hw_basic [only_hw]: "only_hw (hwS f)" "only_hw (returnS x)" "only_hw (getS p')"
  using same_hw by (auto simp: only_hw_def hwS_def returnS_def getS_def split: prod.splits) (metis same_hw)+

lemma only_hw_forS [only_hw]: "(\<And>x. x \<in> set xs \<Longrightarrow> only_hw (f x)) \<Longrightarrow> only_hw (forS f xs)"
  by (induction xs) (auto intro: only_hw)

lemma only_hw_write [only_hw]: "only_hw (write_field M e v)" "only_hw (rdmsr M i)"
  by (auto simp: write_field_def vmcs_write_def rdmsr_def intro!: only_hw)

lemma only_hw_write_from [only_hw]: "only_hw f \<Longrightarrow> only_hw (write_from M e f)"
  by (auto simp: write_from_def intro!: only_hw)

lemma only_hw_host: "only_hw (init_vmcs_host M I)"
  unfolding init_vmcs_host_def by (rule only_hw_forS) (auto intro!: only_hw)

lemma only_hw_guest: "only_hw (init_vmcs_guest M I)"
  unfolding init_vmcs_guest_def by (intro only_hw_bind only_hw_basic only_hw_forS) (auto intro!: only_hw)
text \<open>Controls a processor accepts: every bit that must be set is, and only bits that may be set are.\<close>

definition allowed :: "u32 \<Rightarrow> u64 \<Rightarrow> bool" where
  "allowed v rv \<longleftrightarrow> ctrl_set rv AND NOT v = 0 \<and> v AND NOT (ctrl_clr rv) = 0"

definition caps_ok :: "u64 \<Rightarrow> bool" where
  "caps_ok rv \<longleftrightarrow> ctrl_set rv AND NOT (ctrl_clr rv) = 0"

lemma adjust_allowed: "caps_ok rv \<Longrightarrow> allowed (adjust_ctrl v rv) rv"
  by (auto simp: caps_ok_def allowed_def adjust_ctrl_def bit_eq_iff bit_simps)

lemma adjust_asks: "adjust_ctrl (v OR r) rv AND r = ctrl_clr rv AND r"
  by (rule bit_word_eqI) (auto simp: adjust_ctrl_def bit_simps)

text \<open>\<open>init_vmcs_ctrl\<close> changes the secondary controls, only when the processor forces them, and the VPID.\<close>

lemma init_vmcs_ctrl_state:
  assumes "init_vmcs_ctrl M s = Inr (x, s')"
  shows "s' = s\<lparr>vmx_hw := vmx_hw s', vpid_cnt := vpid_cnt s + 1,
    ctrl_cpu1 := if ctrl_set (ctrl_cpu_rev0 s) AND CPU_SECONDARY \<noteq> 0 then adjust_ctrl (ctrl_cpu1 s) (ctrl_cpu_rev1 s) else ctrl_cpu1 s\<rparr>"
  using assms
  by (cases "ctrl_set (ctrl_cpu_rev0 s) AND CPU_SECONDARY = 0")
    (auto simp: init_vmcs_ctrl_def bindS_def bindE_eq_Inr getS_def outS_def write_field_def vmcs_write_def hwS_def returnS_def
      adjust_ctrl_def split: prod.splits)

text \<open>Operations that always succeed.\<close>

abbreviation total :: "('s, 'a) io \<Rightarrow> bool" where
  "total f \<equiv> runs (\<lambda>_. True) f (\<lambda>_ _. True)"

named_theorems total "operations that always succeed"

lemma total_basic [total]: "total (hwS f)" "total (returnS x)" "total (getS g)" "total (outS k)"
  by (auto simp: runs_def hwS_def returnS_def getS_def outS_def split: prod.splits)

lemma total_bind [total]: "\<lbrakk>total f; \<And>x. total (g x)\<rbrakk> \<Longrightarrow> total (bindS f g)"
  by (rule runs_bind)

lemma total_forS [total]: "(\<And>x. x \<in> set xs \<Longrightarrow> total (f x)) \<Longrightarrow> total (forS f xs)"
  by (induction xs) (auto intro: total)

lemma total_fields [total]: "total (write_field M e v)" "total (rdmsr M i)" "total f \<Longrightarrow> total (write_from M e f)"
  by (auto simp: write_field_def vmcs_write_def rdmsr_def write_from_def intro!: total)

lemma total_new_vmcs: "total new_vmcs"
proof -
  have "total alloc_pageS" "total (zero_pageS v)" "total (set_revisionS v)" for v
    by (auto simp: runs_def alloc_pageS_def zero_pageS_def set_revisionS_def split: prod.splits)
  then show ?thesis unfolding new_vmcs_def by (intro total_bind total_basic)
qed

lemma total_init: "total (init_vmcs_ctrl M)" "total (init_vmcs_host M I)" "total (init_vmcs_guest M I)"
proof -
  show "total (init_vmcs_ctrl M)"
    unfolding init_vmcs_ctrl_def by (intro total_bind total_basic total_fields allI) (auto intro!: total)
  show "total (init_vmcs_host M I)" unfolding init_vmcs_host_def by (rule total_forS) (auto intro!: total)
  show "total (init_vmcs_guest M I)"
    unfolding init_vmcs_guest_def by (intro total_bind total_basic total_forS) (auto intro!: total)
qed


end
