(* ===== verification/Stack.thy ===== *)
theory Stack
  imports Printf CellMem
begin

text \<open>
  Printing the stack, \<open>lib/stack.c\<close> and \<open>lib/x86/stack.c\<close>: the frames are linked through the saved frame
  pointers, with the return address behind each. \<open>walking\<close> is the variable that guards against a walk that
  faults and is started again by the fault handler.
\<close>

definition MAX_DEPTH :: nat where "MAX_DEPTH = 20"

text \<open>The loop: \<open>n\<close> is the room that is left in \<open>return_addrs\<close>.\<close>

fun backtrace_loop :: "cells \<Rightarrow> u64 \<Rightarrow> nat \<Rightarrow> u64 list" where
  "backtrace_loop m bp n =
     (if bp \<noteq> 0 \<and> 0 < n then
        if m (bp + 8) = 0 then []
        else m (bp + 8) # backtrace_loop m (m bp) (n - 1)
      else [])"

declare backtrace_loop.simps [simp del]

text \<open>What is printed, and the return addresses.\<close>

definition backtrace_frame :: "bool \<Rightarrow> cells \<Rightarrow> u64 \<Rightarrow> nat \<Rightarrow> err + (string \<times> u64 list)" where
  "backtrace_frame walking m frame max_depth =
     (if walking then bindE (printf (''RECURSIVE STACK WALK!!!'' @ [CHR 0x0A]) []) (\<lambda>(out, _). Inr (out, []))
      else Inr ([], backtrace_loop m frame max_depth))"

text \<open>\<open>frame\<close> is the frame \<open>__builtin_frame_address(0)\<close> gives.\<close>

definition backtrace :: "bool \<Rightarrow> cells \<Rightarrow> u64 \<Rightarrow> nat \<Rightarrow> err + (string \<times> u64 list)" where
  "backtrace walking m frame max_depth = backtrace_frame walking m frame max_depth"

primrec print_addrs :: "u64 list \<Rightarrow> err + string" where
  "print_addrs [] = Inr []"
| "print_addrs (a # as) =
     bindE (printf '' %lx'' [Word a]) (\<lambda>(out, _). bindE (print_addrs as) (\<lambda>rest. Inr (out @ rest)))"

definition print_stack :: "u64 list \<Rightarrow> bool \<Rightarrow> err + string" where
  "print_stack return_addrs top_is_return_address =
     bindE (printf ([CHR 0x09] @ ''STACK:'') []) (\<lambda>(out, _).
     bindE (case return_addrs of
              a # as \<Rightarrow>
                if \<not> top_is_return_address
                then bindE (printf '' @%lx'' [Word a]) (\<lambda>(o1, _). bindE (print_addrs as) (\<lambda>o2. Inr (o1 @ o2)))
                else print_addrs (a # as)
            | [] \<Rightarrow> Inr []) (\<lambda>addrs.
     bindE (printf [CHR 0x0A] []) (\<lambda>(end_line, _). Inr (out @ addrs @ end_line))))"

text \<open>The first address is the one \<open>dump_stack\<close> itself returns to; it is left out.\<close>

definition dump_stack :: "bool \<Rightarrow> cells \<Rightarrow> u64 \<Rightarrow> err + string" where
  "dump_stack walking m frame =
     bindE (backtrace walking m frame MAX_DEPTH) (\<lambda>(out, addrs).
     bindE (print_stack (tl addrs) True) (\<lambda>out2. Inr (out @ out2)))"

definition dump_frame_stack :: "bool \<Rightarrow> cells \<Rightarrow> u64 \<Rightarrow> u64 \<Rightarrow> err + string" where
  "dump_frame_stack walking m instruction frame =
     bindE (backtrace_frame walking m frame (MAX_DEPTH - 1)) (\<lambda>(out, addrs).
     bindE (print_stack (instruction # addrs) False) (\<lambda>out2. Inr (out @ out2)))"

section \<open>The frames of a stack\<close>

text \<open>A stack whose frames are linked correctly: it ends at a NULL frame or at a NULL return address.\<close>

inductive frames :: "cells \<Rightarrow> u64 \<Rightarrow> u64 list \<Rightarrow> bool" for m where
  frames_end: "frames m 0 []"
| frames_top: "m (bp + 8) = 0 \<Longrightarrow> frames m bp []"
| frames_next: "\<lbrakk>bp \<noteq> 0; m (bp + 8) \<noteq> 0; frames m (m bp) as\<rbrakk> \<Longrightarrow> frames m bp (m (bp + 8) # as)"

text \<open>The walk ends on any memory, in the room it is given, and finds the return addresses in order.\<close>

lemma backtrace_loop_bounded: "length (backtrace_loop m bp n) \<le> n"
proof (induction n arbitrary: bp)
  case (Suc n)
  show ?case by (subst backtrace_loop.simps) (simp add: Suc)
qed (simp add: backtrace_loop.simps)

lemma backtrace_loop_frames: "frames m bp as \<Longrightarrow> backtrace_loop m bp n = take n as"
proof (induction arbitrary: n rule: frames.induct)
  case (frames_next bp as)
  then show ?case by (cases n) (subst backtrace_loop.simps; simp)+
qed (simp_all add: backtrace_loop.simps)

end
