(* ===== verification/VmxTest.thy ===== *)
theory VmxTest
  imports Vmcs Stack
begin

text \<open>
  Running a test, second half of \<open>x86/vmx.c\<close>: entering the guest and handling its exits, the calls of the
  guest to the host, the teardown steps, the choice of the tests. The code of a test (\<open>vmx_tests.c\<close>) and the
  running of the guest are parameters; the address of a function stands for it where it is kept in a variable.
\<close>

section \<open>State\<close>

record vmx_regs =
  g_rax :: u64
  g_rcx :: u64
  g_rdx :: u64
  g_rbx :: u64
  g_cr2 :: u64
  g_rbp :: u64
  g_rsi :: u64
  g_rdi :: u64
  g_r8 :: u64
  g_r9 :: u64
  g_r10 :: u64
  g_r11 :: u64
  g_r12 :: u64
  g_r13 :: u64
  g_r14 :: u64
  g_r15 :: u64
  g_rflags :: u64

record vmentry_failure =
  by_vmlaunch :: bool
  instr :: string
  early :: bool
  fail_flags :: u64

text \<open>
  \<open>teardown_steps\<close> holds the first \<open>teardown_count\<close> entries of the array, a function and its argument each.
  \<open>exits\<close> and \<open>test_vmcs\<close> are the two variables of the current test that change.
\<close>

record 'h run_state =
  vm :: "'h vmx_state"
  guest_regs :: vmx_regs
  teardown_steps :: "(u64 \<times> u64) list"
  v2_guest_main :: u64
  hypercall_field :: u64
  launched :: bool
  matched :: u32
  guest_finished :: bool
  in_guest :: bool
  exits :: u32
  test_vmcs :: u64

text \<open>
  How a function of the test framework comes to an end: it returns, it jumps to \<open>abort_target\<close>, or, in the
  guest, it leaves by \<open>VMCALL\<close>.
\<close>

datatype 'a ctl = Done 'a | Jump | Vmcall

type_synonym ('h, 'a) run = "('h run_state, 'a ctl) io"

definition bindJ :: "('h, 'a) run \<Rightarrow> ('a \<Rightarrow> ('h, 'b) run) \<Rightarrow> ('h, 'b) run" where
  "bindJ f g = bindS f (\<lambda>r. case r of Done x \<Rightarrow> g x | Jump \<Rightarrow> returnS Jump | Vmcall \<Rightarrow> returnS Vmcall)"

definition doneJ :: "('h run_state, 'a) io \<Rightarrow> ('h, 'a) run" where
  "doneJ f = bindS f (\<lambda>x. returnS (Done x))"

definition abortS :: "('s, 'a) io" where
  "abortS s = Inl Aborted"

text \<open>An operation of the first half of the file.\<close>

definition vmS :: "('h, 'a) vmx \<Rightarrow> ('h run_state, 'a) io" where
  "vmS f s = bindE (f (vm s)) (\<lambda>(x, v). Inr (x, s\<lparr>vm := v\<rparr>))"

text \<open>A test. A function that is only called in the guest is its address, NULL for none.\<close>

record 'h vmx_test =
  name :: "string option"
  test_init :: "(u64 \<Rightarrow> ('h run_state, u32) io) option"
  guest_main_fn :: u64
  exit_handler_fn :: "('h, u32) run option"
  syscall_handler_fn :: "(u64 \<Rightarrow> ('h run_state, unit) io) option"
  initial_regs :: vmx_regs
  entry_failure_fn :: "(vmentry_failure \<Rightarrow> ('h, u32) run) option"
  v2 :: "('h, unit) run option"

text \<open>
  The rest of the machine: \<open>enter_insn\<close> is \<open>VMLAUNCH\<close> or \<open>VMRESUME\<close> with all that runs until the guest exits;
  \<open>Some\<close> are the flags after an instruction that failed at once. \<open>call\<close> runs the function at an address.
\<close>

record 'h vmx_env =
  cpu :: "'h vmx_cpu"
  image :: vmx_image
  host_rsp :: u64
  frame_pointer :: u64
  enter_insn :: "bool \<Rightarrow> 'h run_state \<Rightarrow> u64 option \<times> 'h run_state"
  call :: "u64 \<Rightarrow> u64 \<Rightarrow> ('h, unit) run"
  vmx_supported :: bool

section \<open>Calls of the guest to the host\<close>

text \<open>Runs in the guest: it ends by \<open>VMCALL\<close>.\<close>

definition hypercall :: "u32 \<Rightarrow> ('h, unit) run" where
  "hypercall hypercall_no =
     bindS (outS (\<lambda>s. s\<lparr>hypercall_field := (ucast hypercall_no AND HYPERCALL_MASK) OR HYPERCALL_BIT\<rparr>))
       (\<lambda>_. returnS Vmcall)"

definition is_hypercall :: "'h vmx_env \<Rightarrow> ('h run_state, bool) io" where
  "is_hypercall E =
     bindS (vmS (vmcs_read (cpu E) EXI_REASON)) (\<lambda>v.
     bindS (getS hypercall_field) (\<lambda>h.
     returnS (v AND 0xff = VMX_VMCALL \<and> h AND HYPERCALL_BIT \<noteq> 0)))"

definition handle_hypercall :: "('h run_state, u32) io" where
  "handle_hypercall =
     bindS (getS (\<lambda>s. hypercall_field s AND HYPERCALL_MASK)) (\<lambda>hypercall_no.
     bindS (outS (\<lambda>s. s\<lparr>hypercall_field := 0\<rparr>)) (\<lambda>_.
     if hypercall_no = HYPERCALL_VMEXIT then returnS VMX_TEST_VMEXIT
     else if hypercall_no = HYPERCALL_VMABORT then returnS VMX_TEST_VMABORT
     else if hypercall_no = HYPERCALL_VMSKIP then returnS VMX_TEST_VMSKIP
     else
       bindS (vmS (printS (''ERROR : Invalid hypercall number : %ld'' @ [CHR 0x0A]) [Word hypercall_no])) (\<lambda>_.
       returnS VMX_TEST_EXIT)))"

definition dump_stackS :: "'h vmx_env \<Rightarrow> ('h, unit) vmx" where
  "dump_stackS E s =
     bindE (dump_stack False (cells s) (frame_pointer E)) (\<lambda>out. Inr ((), s\<lparr>rep := put_out out (rep s)\<rparr>))"

definition continue_abort :: "'h vmx_env \<Rightarrow> ('h, unit) run" where
  "continue_abort E =
     bindS (getS in_guest) (\<lambda>g. bindS (assertS (\<not> g)) (\<lambda>_.
     bindS (vmS (printS (''Host was here when guest aborted:'' @ [CHR 0x0A]) [])) (\<lambda>_.
     bindS (vmS (dump_stackS E)) (\<lambda>_. returnS Jump))))"

definition abort_test :: "('h, unit) run" where
  "abort_test =
     bindS (getS in_guest) (\<lambda>g.
     if g then bindJ (hypercall (ucast HYPERCALL_VMABORT)) (\<lambda>_. abortS) else returnS Jump)"

definition continue_skip :: "('h, unit) run" where
  "continue_skip = bindS (getS in_guest) (\<lambda>g. bindS (assertS (\<not> g)) (\<lambda>_. returnS Jump))"

definition test_skip :: "string \<Rightarrow> ('h, unit) run" where
  "test_skip msg =
     bindS (getS in_guest) (\<lambda>g.
     bindS (vmS (printS (''%s skipping test: %s'' @ [CHR 0x0A]) [Str (if g then ''Guest'' else ''Host''), Str msg])) (\<lambda>_.
     if g then bindJ (hypercall (ucast HYPERCALL_VMABORT)) (\<lambda>_. abortS) else returnS Jump))"

text \<open>\<open>TEST_ASSERT\<close> and \<open>TEST_ASSERT_MSG\<close>, with the line and the text of the condition.\<close>

definition report_passS :: "('h, unit) vmx" where
  "report_passS s = Inr ((), s\<lparr>rep := report_pass (rep s)\<rparr>)"

definition TEST_ASSERT_MSG :: "'h vmx_env \<Rightarrow> string \<Rightarrow> u64 \<Rightarrow> string \<Rightarrow> bool \<Rightarrow> string \<Rightarrow> vararg list \<Rightarrow> ('h, unit) run" where
  "TEST_ASSERT_MSG E file line text cond fmt va =
     bindJ (if cond then returnS (Done ())
            else
              bindS (vmS (reportS (''%s:%d: Assertion failed: %s'' @ [CHR 0x0A] @ fmt) False
                       ([Str file, Word line, Str text] @ va))) (\<lambda>_.
              bindS (vmS (dump_stackS E)) (\<lambda>_. abort_test)))
       (\<lambda>_. doneJ (vmS report_passS))"

definition TEST_ASSERT :: "'h vmx_env \<Rightarrow> string \<Rightarrow> u64 \<Rightarrow> string \<Rightarrow> bool \<Rightarrow> ('h, unit) run" where
  "TEST_ASSERT E file line text cond =
     bindJ (if cond then returnS (Done ())
            else
              bindS (vmS (reportS ''%s:%d: Assertion failed: %s'' False [Str file, Word line, Str text])) (\<lambda>_.
              bindS (vmS (dump_stackS E)) (\<lambda>_. abort_test)))
       (\<lambda>_. doneJ (vmS report_passS))"

section \<open>Information about exits and failures\<close>

text \<open>The array is filled by designators; an entry without one is NULL, and the last one is the largest.\<close>

definition exit_reason_descriptions :: "(u64 \<times> string) list" where
  "exit_reason_descriptions =
    [(VMX_EXC_NMI, ''VMX_EXC_NMI''), (VMX_EXTINT, ''VMX_EXTINT''), (VMX_TRIPLE_FAULT, ''VMX_TRIPLE_FAULT''), (VMX_INIT, ''VMX_INIT''),
     (VMX_SIPI, ''VMX_SIPI''), (VMX_SMI_IO, ''VMX_SMI_IO''), (VMX_SMI_OTHER, ''VMX_SMI_OTHER''), (VMX_INTR_WINDOW, ''VMX_INTR_WINDOW''),
     (VMX_NMI_WINDOW, ''VMX_NMI_WINDOW''), (VMX_TASK_SWITCH, ''VMX_TASK_SWITCH''), (VMX_CPUID, ''VMX_CPUID''), (VMX_GETSEC, ''VMX_GETSEC''),
     (VMX_HLT, ''VMX_HLT''), (VMX_INVD, ''VMX_INVD''), (VMX_INVLPG, ''VMX_INVLPG''), (VMX_RDPMC, ''VMX_RDPMC''),
     (VMX_RDTSC, ''VMX_RDTSC''), (VMX_RSM, ''VMX_RSM''), (VMX_VMCALL, ''VMX_VMCALL''), (VMX_VMCLEAR, ''VMX_VMCLEAR''),
     (VMX_VMLAUNCH, ''VMX_VMLAUNCH''), (VMX_VMPTRLD, ''VMX_VMPTRLD''), (VMX_VMPTRST, ''VMX_VMPTRST''), (VMX_VMREAD, ''VMX_VMREAD''),
     (VMX_VMRESUME, ''VMX_VMRESUME''), (VMX_VMWRITE, ''VMX_VMWRITE''), (VMX_VMXOFF, ''VMX_VMXOFF''), (VMX_VMXON, ''VMX_VMXON''),
     (VMX_CR, ''VMX_CR''), (VMX_DR, ''VMX_DR''), (VMX_IO, ''VMX_IO''), (VMX_RDMSR, ''VMX_RDMSR''),
     (VMX_WRMSR, ''VMX_WRMSR''), (VMX_FAIL_STATE, ''VMX_FAIL_STATE''), (VMX_FAIL_MSR, ''VMX_FAIL_MSR''), (VMX_MWAIT, ''VMX_MWAIT''),
     (VMX_MTF, ''VMX_MTF''), (VMX_MONITOR, ''VMX_MONITOR''), (VMX_PAUSE, ''VMX_PAUSE''), (VMX_FAIL_MCHECK, ''VMX_FAIL_MCHECK''),
     (VMX_TPR_THRESHOLD, ''VMX_TPR_THRESHOLD''), (VMX_APIC_ACCESS, ''VMX_APIC_ACCESS''), (VMX_EOI_INDUCED, ''VMX_EOI_INDUCED''), (VMX_GDTR_IDTR, ''VMX_GDTR_IDTR''),
     (VMX_LDTR_TR, ''VMX_LDTR_TR''), (VMX_EPT_VIOLATION, ''VMX_EPT_VIOLATION''), (VMX_EPT_MISCONFIG, ''VMX_EPT_MISCONFIG''), (VMX_INVEPT, ''VMX_INVEPT''),
     (VMX_PREEMPT, ''VMX_PREEMPT''), (VMX_INVVPID, ''VMX_INVVPID''), (VMX_WBINVD, ''VMX_WBINVD''), (VMX_XSETBV, ''VMX_XSETBV''),
     (VMX_APIC_WRITE, ''VMX_APIC_WRITE''), (VMX_RDRAND, ''VMX_RDRAND''), (VMX_INVPCID, ''VMX_INVPCID''), (VMX_VMFUNC, ''VMX_VMFUNC''),
     (VMX_RDSEED, ''VMX_RDSEED''), (VMX_PML_FULL, ''VMX_PML_FULL''), (VMX_XSAVES, ''VMX_XSAVES''), (VMX_XRSTORS, ''VMX_XRSTORS'')]"

definition exit_reason_description :: "u64 \<Rightarrow> string" where
  "exit_reason_description reason =
     (if VMX_XRSTORS < reason then ''(unknown)''
      else case map_of exit_reason_descriptions reason of Some str \<Rightarrow> str | None \<Rightarrow> ''(unused)'')"

definition lineS :: "string \<Rightarrow> vararg list \<Rightarrow> ('h run_state, unit) io" where
  "lineS fmt va = vmS (printS (fmt @ [CHR 0x0A]) va)"

definition print_vmexit_info :: "'h vmx_env \<Rightarrow> ('h run_state, unit) io" where
  "print_vmexit_info E =
     bindS (vmS (vmcs_read (cpu E) EXI_REASON)) (\<lambda>v.
     let reason = v AND 0xff
     in
     bindS (vmS (vmcs_read (cpu E) EXI_QUALIFICATION)) (\<lambda>exit_qual.
     bindS (vmS (vmcs_read (cpu E) GUEST_RIP)) (\<lambda>guest_rip.
     bindS (vmS (vmcs_read (cpu E) GUEST_RSP)) (\<lambda>guest_rsp.
     bindS (lineS ''VMEXIT info:'' []) (\<lambda>_.
     bindS (lineS ([CHR 0x09] @ ''vmexit reason = %ld'') [Word reason]) (\<lambda>_.
     bindS (lineS ([CHR 0x09] @ ''exit qualification = %#lx'') [Word exit_qual]) (\<lambda>_.
     bindS (vmS (vmcs_read (cpu E) EXI_REASON)) (\<lambda>v.
     bindS (lineS ([CHR 0x09] @ ''Bit 31 of reason = %lx'') [Word (drop_bit 31 v AND 1)]) (\<lambda>_.
     bindS (lineS ([CHR 0x09] @ ''guest_rip = %#lx'') [Word guest_rip]) (\<lambda>_.
     bindS (getS guest_regs) (\<lambda>r.
     bindS (lineS ([CHR 0x09] @ ''RAX=%#lx    RBX=%#lx    RCX=%#lx    RDX=%#lx'')
       [Word (g_rax r), Word (g_rbx r), Word (g_rcx r), Word (g_rdx r)]) (\<lambda>_.
     bindS (lineS ([CHR 0x09] @ ''RSP=%#lx    RBP=%#lx    RSI=%#lx    RDI=%#lx'')
       [Word guest_rsp, Word (g_rbp r), Word (g_rsi r), Word (g_rdi r)]) (\<lambda>_.
     bindS (lineS ([CHR 0x09] @ ''R8 =%#lx    R9 =%#lx    R10=%#lx    R11=%#lx'')
       [Word (g_r8 r), Word (g_r9 r), Word (g_r10 r), Word (g_r11 r)]) (\<lambda>_.
     lineS ([CHR 0x09] @ ''R12=%#lx    R13=%#lx    R14=%#lx    R15=%#lx'')
       [Word (g_r12 r), Word (g_r13 r), Word (g_r14 r), Word (g_r15 r)]))))))))))))))"

definition print_vmentry_failure_info :: "'h vmx_env \<Rightarrow> vmentry_failure \<Rightarrow> ('h run_state, unit) io" where
  "print_vmentry_failure_info E failure =
     (if early failure then
        bindS (vmS (printS ''Early %s failure: '' [Str (instr failure)])) (\<lambda>_.
        let flags = fail_flags failure AND VMX_ENTRY_FLAGS
        in if flags = X86_EFLAGS_CF then lineS ''current-VMCS pointer is not valid.'' []
           else if flags = X86_EFLAGS_ZF then
             bindS (vmS (vmcs_read (cpu E) VMX_INST_ERROR)) (\<lambda>v. lineS ''error number is %ld. See Intel 30.4.'' [Word v])
           else lineS ''unexpected flags %lx!'' [Word (fail_flags failure)])
      else
        bindS (vmS (vmcs_read (cpu E) EXI_REASON)) (\<lambda>reason.
        bindS (vmS (vmcs_read (cpu E) EXI_QUALIFICATION)) (\<lambda>qual.
        bindS (vmS (printS ''Non-early %s failure (reason=%#lx, qual=%#lx): '' [Str (instr failure), Word reason, Word qual])) (\<lambda>_.
        bindS (let r = reason AND 0xff
               in if r = VMX_FAIL_STATE then lineS ''invalid guest state'' []
                  else if r = VMX_FAIL_MSR then lineS ''MSR loading'' []
                  else if r = VMX_FAIL_MCHECK then lineS ''machine-check event'' []
                  else lineS ''unexpected basic exit reason %ld'' [Word r]) (\<lambda>_.
        bindS (if reason AND VMX_ENTRY_FAILURE = 0 then lineS ([CHR 0x09] @ ''VMX_ENTRY_FAILURE BIT NOT SET!'') []
               else returnS ()) (\<lambda>_.
        if reason AND 0x7fff0000 \<noteq> 0 then lineS ([CHR 0x09] @ ''RESERVED BITS SET!'') [] else returnS ()))))))"

section \<open>Running the guest\<close>

text \<open>
  The assembly stores the flags of a failed instruction in \<open>failure_flags\<close>, and then the value 1 in its low half; \<open>early\<close>
  keeps the 0 it started with. Without a failure the flags are not set (0 here), and not read.
\<close>

definition vmx_enter_guest :: "'h vmx_env \<Rightarrow> ('h run_state, bool \<times> vmentry_failure) io" where
  "vmx_enter_guest E =
     bindS (outS (\<lambda>s. s\<lparr>in_guest := True\<rparr>)) (\<lambda>_.
     bindS (vmS (write_field (cpu E) HOST_RSP (host_rsp E))) (\<lambda>_.
     bindS (\<lambda>s. Inr (enter_insn E (launched s) s)) (\<lambda>failed.
     bindS (outS (\<lambda>s. s\<lparr>in_guest := False\<rparr>)) (\<lambda>_.
     bindS (getS launched) (\<lambda>l.
     let failure = \<lparr>by_vmlaunch = \<not> l, instr = (if l then ''vmresume'' else ''vmlaunch''), early = False,
           fail_flags = (case failed of Some fl \<Rightarrow> (fl AND NOT (mask 32)) OR 1 | None \<Rightarrow> 0)\<rparr>
     in if early failure then returnS (False, failure)
        else bindS (vmS (vmcs_read (cpu E) EXI_REASON)) (\<lambda>v. returnS (v AND VMX_ENTRY_FAILURE = 0, failure)))))))"

definition call_opt :: "('h, 'a) run option \<Rightarrow> ('h, 'a) run" where
  "call_opt f = (case f of Some g \<Rightarrow> g | None \<Rightarrow> \<lambda>_. Inl Null_deref)"

definition exit_handler :: "'h vmx_env \<Rightarrow> 'h vmx_test \<Rightarrow> ('h, u32) run" where
  "exit_handler E T =
     bindS (outS (\<lambda>s. s\<lparr>exits := exits s + 1\<rparr>)) (\<lambda>_.
     bindS (vmS (vmcs_read (cpu E) GUEST_RFLAGS)) (\<lambda>v.
     bindS (outS (\<lambda>s. s\<lparr>guest_regs := (guest_regs s)\<lparr>g_rflags := v\<rparr>\<rparr>)) (\<lambda>_.
     bindS (is_hypercall E) (\<lambda>h.
     bindJ (if h then doneJ handle_hypercall else call_opt (exit_handler_fn T)) (\<lambda>ret.
     bindS (getS (\<lambda>s. g_rflags (guest_regs s))) (\<lambda>fl.
     doneJ (bindS (vmS (write_field (cpu E) GUEST_RFLAGS fl)) (\<lambda>_. returnS ret))))))))"

definition entry_failure_handler :: "'h vmx_test \<Rightarrow> vmentry_failure \<Rightarrow> ('h, u32) run" where
  "entry_failure_handler T failure =
     (case entry_failure_fn T of Some f \<Rightarrow> f failure | None \<Rightarrow> returnS (Done VMX_TEST_EXIT))"

text \<open>The handler of an entry that came back, and the body of the loop of \<open>vmx_run\<close>: whether it goes on.\<close>

definition handle_entry :: "'h vmx_env \<Rightarrow> 'h vmx_test \<Rightarrow> bool \<times> vmentry_failure \<Rightarrow> ('h, u32) run" where
  "handle_entry E T r =
     (if fst r then bindS (outS (\<lambda>s. s\<lparr>launched := True\<rparr>)) (\<lambda>_. exit_handler E T)
      else entry_failure_handler T (snd r))"

definition run_turn :: "'h vmx_env \<Rightarrow> 'h vmx_test \<Rightarrow> ('h, bool) run" where
  "run_turn E T =
     bindS (vmx_enter_guest E) (\<lambda>r.
     bindJ (handle_entry E T r) (\<lambda>ret.
     if ret = VMX_TEST_RESUME then returnS (Done True)
     else if ret = VMX_TEST_VMEXIT then bindS (outS (\<lambda>s. s\<lparr>guest_finished := True\<rparr>)) (\<lambda>_. returnS (Done False))
     else
       bindS (if ret = VMX_TEST_EXIT then returnS ()
              else lineS ''ERROR : Invalid %s_handler return val %d.''
                     [Str (if fst r then ''exit'' else ''entry_failure''), Word (ucast ret)]) (\<lambda>_.
       bindS (if fst r then print_vmexit_info E else print_vmentry_failure_info E (snd r)) (\<lambda>_. abortS))))"

partial_function (option) vmx_run_loop ::
    "'h vmx_env \<Rightarrow> 'h vmx_test \<Rightarrow> 'h run_state \<Rightarrow> (err + (unit ctl \<times> 'h run_state)) option" where
  "vmx_run_loop E T s =
     (case run_turn E T s of
        Inl e \<Rightarrow> Some (Inl e)
      | Inr (Done b, s') \<Rightarrow> if b then vmx_run_loop E T s' else Some (Inr (Done (), s'))
      | Inr (Jump, s') \<Rightarrow> Some (Inr (Jump, s'))
      | Inr (Vmcall, s') \<Rightarrow> Some (Inr (Vmcall, s')))"

definition vmx_run :: "'h vmx_env \<Rightarrow> 'h vmx_test \<Rightarrow> ('h, unit) run" where
  "vmx_run E T s = bindE (loopE (vmx_run_loop E T s)) (\<lambda>r. r)"

definition enter_guest :: "'h vmx_env \<Rightarrow> ('h, unit) run" where
  "enter_guest E =
     bindS (getS (\<lambda>s. v2_guest_main s \<noteq> 0)) (\<lambda>c.
     bindJ (TEST_ASSERT_MSG E ''x86/vmx.c'' 1773 ''v2_guest_main'' c ''Never called test_set_guest_func!'' []) (\<lambda>_.
     bindS (getS (\<lambda>s. \<not> guest_finished s)) (\<lambda>c.
     bindJ (TEST_ASSERT_MSG E ''x86/vmx.c'' 1776 ''!guest_finished'' c ''Called enter_guest() after guest returned.'' []) (\<lambda>_.
     bindS (vmx_enter_guest E) (\<lambda>r.
     bindS (if fst r then returnS ()
            else bindS (print_vmentry_failure_info E (snd r)) (\<lambda>_. abortS)) (\<lambda>_.
     bindS (outS (\<lambda>s. s\<lparr>launched := True\<rparr>)) (\<lambda>_.
     bindS (is_hypercall E) (\<lambda>h.
     if h then
       bindS handle_hypercall (\<lambda>ret.
       if ret = VMX_TEST_VMEXIT then bindS (outS (\<lambda>s. s\<lparr>guest_finished := True\<rparr>)) (\<lambda>_. returnS (Done ()))
       else if ret = VMX_TEST_VMABORT then continue_abort E
       else if ret = VMX_TEST_VMSKIP then continue_skip
       else bindS (lineS ''ERROR : Invalid handle_hypercall return %d.'' [Word (ucast ret)]) (\<lambda>_. abortS))
     else returnS (Done ())))))))))"

section \<open>Running a test\<close>

definition MAX_TEST_TEARDOWN_STEPS :: nat where "MAX_TEST_TEARDOWN_STEPS = 10"

definition run_teardown_step :: "'h vmx_env \<Rightarrow> u64 \<times> u64 \<Rightarrow> ('h, unit) run" where
  "run_teardown_step E step = call E (fst step) (snd step)"

text \<open>The loop takes the last step off and runs it; the step may add others.\<close>

definition pop_step :: "'h vmx_env \<Rightarrow> ('h, unit) run" where
  "pop_step E =
     bindS (getS (\<lambda>s. last (teardown_steps s))) (\<lambda>step.
     bindS (outS (\<lambda>s. s\<lparr>teardown_steps := butlast (teardown_steps s)\<rparr>)) (\<lambda>_. run_teardown_step E step))"

partial_function (option) teardown_loop :: "'h vmx_env \<Rightarrow> 'h run_state \<Rightarrow> (err + (unit ctl \<times> 'h run_state)) option" where
  "teardown_loop E s =
     (if teardown_steps s = [] then Some (Inr (Done (), s))
      else case pop_step E s of
             Inl e \<Rightarrow> Some (Inl e)
           | Inr (Done _, s') \<Rightarrow> teardown_loop E s'
           | Inr (Jump, s') \<Rightarrow> Some (Inr (Jump, s'))
           | Inr (Vmcall, s') \<Rightarrow> Some (Inr (Vmcall, s')))"

definition run_teardown :: "'h vmx_env \<Rightarrow> ('h, unit) run" where
  "run_teardown E s = bindE (loopE (teardown_loop E s)) (\<lambda>r. r)"

definition test_add_teardown :: "'h vmx_env \<Rightarrow> u64 \<Rightarrow> u64 \<Rightarrow> ('h, unit) run" where
  "test_add_teardown E fn arg =
     bindS (getS (\<lambda>s. length (teardown_steps s))) (\<lambda>n.
     bindJ (TEST_ASSERT_MSG E ''x86/vmx.c'' 1745 ''teardown_count < MAX_TEST_TEARDOWN_STEPS''
              (n < MAX_TEST_TEARDOWN_STEPS) ''There are already %d teardown steps.'' [Word (of_nat n)]) (\<lambda>_.
     doneJ (outS (\<lambda>s. s\<lparr>teardown_steps := teardown_steps s @ [(fn, arg)]\<rparr>))))"

definition test_set_guest :: "'h vmx_env \<Rightarrow> 'h vmx_test \<Rightarrow> u64 \<Rightarrow> ('h, unit) run" where
  "test_set_guest E T fn =
     bindS (assertS (v2 T \<noteq> None)) (\<lambda>_.
     bindS (getS (\<lambda>s. v2_guest_main s = 0)) (\<lambda>c.
     bindJ (TEST_ASSERT_MSG E ''x86/vmx.c'' 1760 ''!v2_guest_main'' c ''Already set guest func.'' []) (\<lambda>_.
     doneJ (outS (\<lambda>s. s\<lparr>v2_guest_main := fn\<rparr>)))))"

text \<open>What the guest runs first, and a system call in it.\<close>

definition guest_main :: "'h vmx_env \<Rightarrow> 'h vmx_test \<Rightarrow> ('h, unit) run" where
  "guest_main E T = bindS (getS v2_guest_main) (\<lambda>fn. call E (if v2 T \<noteq> None then fn else guest_main_fn T) 0)"

definition syscall_handler :: "'h vmx_test \<Rightarrow> u64 \<Rightarrow> ('h run_state, unit) io" where
  "syscall_handler T syscall_no = (case syscall_handler_fn T of Some f \<Rightarrow> f syscall_no | None \<Rightarrow> returnS ())"

definition start_test :: "'h vmx_env \<Rightarrow> 'h vmx_test \<Rightarrow> ('h run_state, unit) io" where
  "start_test E T =
     bindS (outS (\<lambda>s. s\<lparr>teardown_steps := [], v2_guest_main := 0, exits := 0, guest_regs := initial_regs T\<rparr>)) (\<lambda>_.
     bindS (vmS (write_field (cpu E) GUEST_RFLAGS (g_rflags (initial_regs T) OR 2))) (\<lambda>_.
     bindS (outS (\<lambda>s. s\<lparr>launched := False, guest_finished := False\<rparr>)) (\<lambda>_.
     lineS ([CHR 0x0A] @ ''Test suite: %s'') [Str (case name T of Some n \<Rightarrow> n | None \<Rightarrow> ''(no name)'')])))"

definition test_body :: "'h vmx_env \<Rightarrow> 'h vmx_test \<Rightarrow> ('h, unit) run" where
  "test_body E T =
     bindJ (case v2 T of Some f \<Rightarrow> f | None \<Rightarrow> vmx_run E T) (\<lambda>_.
     bindJ (run_teardown E) (\<lambda>_.
     bindS (getS (\<lambda>s. launched s \<and> \<not> guest_finished s)) (\<lambda>b.
     doneJ (if b then vmS (reportS ''Guest didn't run to completion.'' False []) else returnS ()))))"

text \<open>The label \<open>out\<close>. The result of a test is whether it failed to run.\<close>

definition test_out :: "'h vmx_env \<Rightarrow> ('h run_state, bool) io" where
  "test_out E =
     bindS (vmS (vmx_off (cpu E))) (\<lambda>r.
     if r then bindS (lineS ''%s : vmxoff failed.'' [Str ''test_run'']) (\<lambda>_. returnS True) else returnS False)"

text \<open>After \<open>setjmp\<close>. A \<open>VMCALL\<close> of the host is a fault nobody handles.\<close>

definition catch_jump :: "('h, unit) run \<Rightarrow> ('h run_state, unit) io" where
  "catch_jump f =
     bindS f (\<lambda>r. case r of
        Done _ \<Rightarrow> returnS ()
      | Jump \<Rightarrow> bindS (getS in_guest) (\<lambda>g. assertS (\<not> g))
      | Vmcall \<Rightarrow> abortS)"

definition mixes_interfaces :: "'h vmx_test \<Rightarrow> bool" where
  "mixes_interfaces T \<longleftrightarrow> v2 T \<noteq> None \<and>
     (test_init T \<noteq> None \<or> guest_main_fn T \<noteq> 0 \<or> exit_handler_fn T \<noteq> None \<or> syscall_handler_fn T \<noteq> None)"

definition test_run_vmx :: "'h vmx_env \<Rightarrow> 'h vmx_test \<Rightarrow> ('h run_state, bool) io" where
  "test_run_vmx E T =
     (if mixes_interfaces T
      then bindS (vmS (reportS ''V2 test cannot specify V1 callbacks.'' False [])) (\<lambda>_. returnS True)
      else
        bindS (vmS (vmx_on (cpu E))) (\<lambda>r.
        if r then bindS (lineS ''%s : vmxon failed.'' [Str ''test_run'']) (\<lambda>_. returnS True)
        else
          bindS (vmS (init_vmcs (cpu E) (image E))) (\<lambda>(_, vmcs).
          bindS (outS (\<lambda>s. s\<lparr>test_vmcs := vmcs\<rparr>)) (\<lambda>_.
          bindS (case test_init T of Some f \<Rightarrow> f vmcs | None \<Rightarrow> returnS VMX_TEST_START) (\<lambda>r.
          if r \<noteq> VMX_TEST_START then test_out E
          else
            bindS (start_test E T) (\<lambda>_.
            bindS (catch_jump (test_body E T)) (\<lambda>_. test_out E)))))))"

section \<open>Which tests to run\<close>

text \<open>
  Strings are in byte memory. \<open>clean\<close> and \<open>copy\<close> are the addresses of the automatic arrays \<open>clean_name\<close> and of
  \<open>simple_glob\<close>.
\<close>

partial_function (option) clean_loop :: "mem \<Rightarrow> u64 \<Rightarrow> u64 \<Rightarrow> mem option" where
  "clean_loop m n c =
     (let m' = m(c := if m n = 32 then 95 else m n)
      in if m' n \<noteq> 0 then clean_loop m' (n + 1) (c + 1) else Some m')"

text \<open>The loop over the filters: \<open>None\<close> is the early \<open>return false\<close>.\<close>

primrec filter_loop :: "mem \<Rightarrow> u64 \<Rightarrow> u64 \<Rightarrow> u64 list \<Rightarrow> bool \<Rightarrow> bool \<Rightarrow> (bool \<times> bool) option option" where
  "filter_loop m clean copy [] positive match = Some (Some (positive, match))"
| "filter_loop m clean copy (f # fs) positive match =
     (if m f = 45 then
        Option.bind (simple_glob m clean (f + 1) copy) (\<lambda>g.
        if g then Some None else filter_loop m clean copy fs positive match)
      else
        Option.bind (simple_glob m clean f copy) (\<lambda>g. filter_loop m clean copy fs True (match \<or> g)))"

definition test_wanted :: "mem \<Rightarrow> u64 \<Rightarrow> u64 \<Rightarrow> u64 \<Rightarrow> u64 list \<Rightarrow> ('h run_state, bool) io" where
  "test_wanted m clean copy nm filters s =
     bindE (loopE (Option.bind (clean_loop m nm clean) (\<lambda>m. filter_loop m clean copy filters False False))) (\<lambda>r.
     case r of
       None \<Rightarrow> Inr (False, s)
     | Some (positive, match) \<Rightarrow>
         if \<not> positive \<or> match then Inr (True, s\<lparr>matched := matched s + 1\<rparr>) else Inr (False, s))"

text \<open>The strings of the program and of the command line: the memory, where a name is, and the two arrays.\<close>

record strings =
  str_bytes :: mem
  lit :: "string \<Rightarrow> u64"
  clean_at :: u64
  copy_at :: u64

definition wanted :: "strings \<Rightarrow> u64 list \<Rightarrow> string \<Rightarrow> ('h run_state, bool) io" where
  "wanted S argv nm = test_wanted (str_bytes S) (clean_at S) (copy_at S) (lit S nm) argv"

definition when_wanted :: "strings \<Rightarrow> u64 list \<Rightarrow> string \<times> ('h, unit) vmx \<Rightarrow> ('h run_state, unit) io" where
  "when_wanted S argv t = bindS (wanted S argv (fst t)) (\<lambda>w. if w then vmS (snd t) else returnS ())"

text \<open>The suite of tests; whether one failed to run.\<close>

primrec run_suite :: "'h vmx_env \<Rightarrow> strings \<Rightarrow> u64 list \<Rightarrow> 'h vmx_test list \<Rightarrow> ('h run_state, bool) io" where
  "run_suite E S argv [] = returnS False"
| "run_suite E S argv (T # Ts) =
     (case name T of
        None \<Rightarrow> returnS False
      | Some nm \<Rightarrow>
          bindS (wanted S argv nm) (\<lambda>w.
          if \<not> w then run_suite E S argv Ts
          else bindS (test_run_vmx E T) (\<lambda>r. if r then returnS True else run_suite E S argv Ts)))"

definition feature_control :: "'h vmx_cpu \<Rightarrow> bool \<Rightarrow> ('h, bool) vmx" where
  "feature_control M w =
     (if w then test_vmx_feature_control M
      else
        bindS (rdmsr M MSR_IA32_FEATURE_CONTROL) (\<lambda>v.
        bindS (if v AND 5 \<noteq> 5 then wrmsr M MSR_IA32_FEATURE_CONTROL 5 else returnS ()) (\<lambda>_. returnS False)))"

definition enable_vmx :: "'h vmx_cpu \<Rightarrow> bool \<Rightarrow> ('h, bool) vmx" where
  "enable_vmx M w =
     (if w then test_vmxon M
      else bindS (vmx_on M) (\<lambda>r. if r then bindS (reportS ''vmxon'' False []) (\<lambda>_. returnS True) else returnS False))"

text \<open>\<open>main\<close> between the setting up of memory and processors and the label \<open>exit\<close>, and \<open>main\<close>.\<close>

definition main_body :: "'h vmx_env \<Rightarrow> strings \<Rightarrow> u64 list \<Rightarrow> 'h vmx_test list \<Rightarrow> ('h run_state, unit) io" where
  "main_body E S argv Ts =
     bindS (outS (\<lambda>s. s\<lparr>hypercall_field := 0\<rparr>)) (\<lambda>_.
     if \<not> vmx_supported E then lineS (''WARNING: vmx not supported, add '-cpu host'' @ [CHR 0x27]) []
     else
       bindS (vmS (init_vmx (cpu E))) (\<lambda>_.
       bindS (wanted S argv ''test_vmx_feature_control'') (\<lambda>w.
       bindS (vmS (feature_control (cpu E) w)) (\<lambda>stop.
       if stop then returnS ()
       else
         bindS (wanted S argv ''test_vmxon'') (\<lambda>w.
         bindS (vmS (enable_vmx (cpu E) w)) (\<lambda>stop.
         if stop then returnS ()
         else
           bindS (forS (when_wanted S argv)
             [(''test_vmptrld'', test_vmptrld (cpu E)), (''test_vmclear'', test_vmclear (cpu E)),
              (''test_vmptrst'', test_vmptrst (cpu E) (image E)), (''test_vmwrite_vmread'', test_vmwrite_vmread (cpu E)),
              (''test_vmcs_high'', test_vmcs_high (cpu E)), (''test_vmcs_lifecycle'', test_vmcs_lifecycle (cpu E)),
              (''test_vmx_caps'', test_vmx_caps (cpu E))]) (\<lambda>_.
           bindS (vmS (vmx_off (cpu E))) (\<lambda>_.
           bindS (run_suite E S argv Ts) (\<lambda>stop.
           if stop then returnS ()
           else
             bindS (getS matched) (\<lambda>m.
             if m = 0 then vmS (reportS ''command line didn't match any tests!'' False []) else returnS ()))))))))))"

definition main_vmx :: "'h vmx_env \<Rightarrow> strings \<Rightarrow> u64 list \<Rightarrow> 'h vmx_test list \<Rightarrow> ('h run_state, int) io" where
  "main_vmx E S argv Ts =
     bindS (main_body E S argv Ts) (\<lambda>_ s.
     bindE (report_summary (rep (vm s))) (\<lambda>(r, code). Inr (code, s\<lparr>vm := (vm s)\<lparr>rep := r\<rparr>\<rparr>)))"

section \<open>The choice of the tests\<close>

lemma clean_loop_spec:
  assumes "cstr m n t" "addrs n (Suc (length t)) \<inter> addrs c (Suc (length t)) = {}" "length t < 2 ^ 64 - 1"
  shows "\<exists>m'. clean_loop m n c = Some m' \<and> cstr m' c (map (\<lambda>x. if x = 32 then 95 else x) t) \<and>
    (\<forall>x. x \<notin> addrs c (Suc (length t)) \<longrightarrow> m' x = m x)"
  using assms
proof (induction t arbitrary: m n c)
  case Nil
  then have "n \<noteq> c" "m n = 0" by (auto simp: addrs_Suc)
  then show ?case by (subst clean_loop.simps) (auto simp: addrs_Suc)
next
  case (Cons a t)
  let ?m = "m(c := if a = 32 then 95 else a)"
  have a: "m n = a" "a \<noteq> 0" "cstr m (n + 1) t" using Cons.prems(1) by auto
  have nc: "n \<notin> addrs c (Suc (length (a # t)))" "c \<notin> addrs n (Suc (length (a # t)))"
    using Cons.prems(2) by (auto simp: addrs_Suc)
  have sub: "addrs (n + 1) (Suc (length t)) \<inter> addrs (c + 1) (Suc (length t)) = {}" "c \<notin> addrs (n + 1) (Suc (length t))"
    using Cons.prems(2) addrs_Suc [of n "Suc (length t)"] addrs_Suc [of c "Suc (length t)"] by auto
  have "cstr ?m (n + 1) t" using a(3) sub(2) by (auto intro: cstr_frame)
  have "length t < 2 ^ 64 - 1" using Cons.prems(3) by simp
  from Cons.IH [OF \<open>cstr ?m (n + 1) t\<close> sub(1) this] obtain m' where m': "clean_loop ?m (n + 1) (c + 1) = Some m'"
    "cstr m' (c + 1) (map (\<lambda>x. if x = 32 then 95 else x) t)"
    "\<And>x. x \<notin> addrs (c + 1) (Suc (length t)) \<Longrightarrow> m' x = ?m x" by blast
  have "c \<notin> addrs (c + 1) (Suc (length t))"
    using addrs_before [of 1 "Suc (length t)" 0 c] Cons.prems(3) by simp
  then have "m' c = (if a = 32 then 95 else a)" using m'(3) by simp
  moreover have "clean_loop m n c = Some m'"
    using a m'(1) nc by (subst clean_loop.simps) (auto simp: addrs_Suc)
  moreover have "m' x = m x" if "x \<notin> addrs c (Suc (length (a # t)))" for x
    using that m'(3) [of x] addrs_Suc [of c "Suc (length t)"] by auto
  ultimately show ?case using m'(2) a by auto
qed

text \<open>
  The specification: no filter with a leading \<open>-\<close> matches, and one without does, if there is any. A name
  is compared with its spaces replaced.
\<close>

definition clean_name :: "u8 list \<Rightarrow> u8 list" where
  "clean_name t = map (\<lambda>x. if x = 32 then 95 else x) t"

definition excludes :: "u8 list \<Rightarrow> bool" where
  "excludes f \<longleftrightarrow> f \<noteq> [] \<and> hd f = 45"

definition wanted_spec :: "u8 list list \<Rightarrow> u8 list \<Rightarrow> bool" where
  "wanted_spec fs t \<longleftrightarrow> (\<forall>f \<in> set fs. excludes f \<longrightarrow> \<not> glob_spec (tl f) t) \<and>
     ((\<forall>f \<in> set fs. excludes f) \<or> (\<exists>f \<in> set fs. \<not> excludes f \<and> glob_spec f t))"

text \<open>Where a filter is: a string apart from the two arrays, which are long enough.\<close>

definition filter_at :: "mem \<Rightarrow> u64 \<Rightarrow> nat \<Rightarrow> u64 \<Rightarrow> u64 \<Rightarrow> u8 list \<Rightarrow> bool" where
  "filter_at m clean n copy a f \<longleftrightarrow> cstr m a f \<and> length f < 2 ^ 64 - 1 \<and>
     addrs copy (Suc (length f)) \<inter> addrs a (Suc (length f)) = {} \<and>
     addrs copy (Suc (length f)) \<inter> addrs clean (Suc n) = {} \<and> addrs a (Suc (length f)) \<inter> addrs clean (Suc n) = {}"

lemma filter_loop_spec:
  assumes "list_all2 (filter_at m clean (length t) copy) as fs" "cstr m clean t" "clean \<noteq> 0" "unat clean + length t < 2 ^ 64 - 1"
  shows "filter_loop m clean copy as positive match =
    Some (if \<exists>f \<in> set fs. excludes f \<and> glob_spec (tl f) t then None
          else Some (positive \<or> (\<exists>f \<in> set fs. \<not> excludes f), match \<or> (\<exists>f \<in> set fs. \<not> excludes f \<and> glob_spec f t)))"
  using assms(1)
proof (induction arbitrary: positive match rule: list_all2_induct)
  case Nil
  then show ?case by simp
next
  case (Cons a as f fs)
  have f: "cstr m a f" "length f < 2 ^ 64 - 1" "addrs copy (Suc (length f)) \<inter> addrs a (Suc (length f)) = {}"
    "addrs copy (Suc (length f)) \<inter> addrs clean (Suc (length t)) = {}"
    using Cons(1) by (auto simp: filter_at_def)
  show ?case
  proof (cases "excludes f")
    case True
    then obtain g where g: "f = 45 # g" by (cases f) (auto simp: excludes_def)
    have ca: "cstr m (a + 1) g" "m a = 45" using f(1) g by auto
    have sub: "addrs copy (Suc (length g)) \<subseteq> addrs copy (Suc (length f))" "addrs (a + 1) (Suc (length g)) \<subseteq> addrs a (Suc (length f))"
      using addrs_mono [of "Suc (length g)" "Suc (length f)" copy] addrs_Suc [of a "Suc (length g)"] g by auto
    have "simple_glob m clean (a + 1) copy = Some (glob_spec g t)"
      using f g sub by (intro simple_glob_correct [OF assms(2,3,4) ca(1)]) auto
    then show ?thesis using Cons.IH ca True g by auto
  next
    case False
    then have "m a \<noteq> 45" using f(1) by (cases f) (auto simp: excludes_def)
    moreover have "simple_glob m clean a copy = Some (glob_spec f t)"
      by (rule simple_glob_correct [OF assms(2,3,4) f])
    ultimately show ?thesis using Cons.IH False by auto
  qed
qed

text \<open>
  C32: \<open>test_wanted\<close> always returns, and decides its specification: a test is wanted if no filter with a leading
  \<open>-\<close> matches its name with the spaces replaced and, when there is any filter without one, one of these
  matches. It counts the tests that are wanted.
\<close>

theorem test_wanted_decides:
  assumes "cstr m nm t" "addrs nm (Suc (length t)) \<inter> addrs clean (Suc (length t)) = {}"
    and "clean \<noteq> 0" "unat clean + length t < 2 ^ 64 - 1"
    and "list_all2 (filter_at m clean (length t) copy) filters fs"
  shows "test_wanted m clean copy nm filters s =
    Inr (wanted_spec fs (clean_name t), s\<lparr>matched := matched s + (if wanted_spec fs (clean_name t) then 1 else 0)\<rparr>)"
proof -
  have "length t < 2 ^ 64 - 1" using assms(4) by simp
  from clean_loop_spec [OF assms(1,2) this] obtain m' where m': "clean_loop m nm clean = Some m'"
    "cstr m' clean (clean_name t)" "\<And>x. x \<notin> addrs clean (Suc (length t)) \<Longrightarrow> m' x = m x" unfolding clean_name_def by blast
  have len: "length (clean_name t) = length t" by (simp add: clean_name_def)
  have "filter_at m' clean (length (clean_name t)) copy a f" if "filter_at m clean (length t) copy a f" for a f
  proof -
    have c: "cstr m a f" "addrs a (Suc (length f)) \<inter> addrs clean (Suc (length t)) = {}"
      using that by (simp_all add: filter_at_def)
    have "cstr m' a f"
    proof (rule cstr_frame [OF c(1)])
      show "m' x = m x" if "x \<in> addrs a (Suc (length f))" for x using that c(2) m'(3) by blast
    qed
    then show ?thesis using that by (simp add: filter_at_def len)
  qed
  then have "list_all2 (filter_at m' clean (length (clean_name t)) copy) filters fs"
    using assms(5) by (rule list_all2_mono [rotated])
  then have f: "filter_loop m' clean copy filters False False =
    Some (if \<exists>f \<in> set fs. excludes f \<and> glob_spec (tl f) (clean_name t) then None
      else Some (\<exists>f \<in> set fs. \<not> excludes f, \<exists>f \<in> set fs. \<not> excludes f \<and> glob_spec f (clean_name t)))"
    using filter_loop_spec [OF _ m'(2) assms(3), of copy filters fs False False] assms(4) by (simp add: len)
  have "(\<exists>f \<in> set fs. excludes f \<and> glob_spec (tl f) (clean_name t)) \<Longrightarrow> \<not> wanted_spec fs (clean_name t)"
    "\<not> (\<exists>f \<in> set fs. excludes f \<and> glob_spec (tl f) (clean_name t)) \<Longrightarrow>
       wanted_spec fs (clean_name t) \<longleftrightarrow> \<not> (\<exists>f \<in> set fs. \<not> excludes f) \<or> (\<exists>f \<in> set fs. \<not> excludes f \<and> glob_spec f (clean_name t))"
    unfolding wanted_spec_def by blast+
  moreover have "test_wanted m clean copy nm filters s = bindE (loopE (filter_loop m' clean copy filters False False)) (\<lambda>r.
     case r of
       None \<Rightarrow> Inr (False, s)
     | Some (positive, match) \<Rightarrow>
         if \<not> positive \<or> match then Inr (True, s\<lparr>matched := matched s + 1\<rparr>) else Inr (False, s))"
    by (simp add: test_wanted_def m'(1))
  ultimately show ?thesis unfolding f
    by (cases "\<exists>f \<in> set fs. excludes f \<and> glob_spec (tl f) (clean_name t)"; simp only: if_True if_False loopE_simps bindE_Inr) auto
qed

lemma test_wanted_decides_witness:
  "\<forall>s :: unit run_state. test_wanted (put (put (\<lambda>_. 0) 0x1000 [97, 32, 98, 0]) 0x2000 [97, 42, 0]) 0x3000 0x4000 0x1000 [0x2000] s = Inr (True, s\<lparr>matched := matched s + 1\<rparr>)"
proof -
  let ?m = "put (put (\<lambda>_. 0) 0x1000 [97, 32, 98, 0]) 0x2000 [97, 42, 0]"
  have "addrs 0x1000 (Suc (Suc (Suc (Suc 0)))) \<inter> addrs 0x3000 (Suc (Suc (Suc (Suc 0)))) = {}"
    "addrs 0x4000 (Suc (Suc (Suc 0))) \<inter> addrs 0x2000 (Suc (Suc (Suc 0))) = {}"
    "addrs 0x4000 (Suc (Suc (Suc 0))) \<inter> addrs 0x3000 (Suc (Suc (Suc (Suc 0)))) = {}"
    "addrs 0x2000 (Suc (Suc (Suc 0))) \<inter> addrs 0x3000 (Suc (Suc (Suc (Suc 0)))) = {}"
    by (rule addrs_disjointI; simp)+
  then show ?thesis
    using test_wanted_decides [of ?m "0x1000" "[97, 32, 98]" "0x3000" "0x4000" "[0x2000]" "[[97, 42]]" "s :: unit run_state" for s]
    by (simp add: filter_at_def wanted_spec_def excludes_def clean_name_def glob_spec_def Let_def)
qed
section \<open>Entering the guest\<close>

definition enter_state :: "'h vmx_env \<Rightarrow> 'h run_state \<Rightarrow> 'h run_state" where
  "enter_state E s =
     s\<lparr>in_guest := True, vm := (vm s)\<lparr>vmx_hw := snd (vmwrite_insn (cpu E) HOST_RSP (host_rsp E) (vmx_hw (vm s)))\<rparr>\<rparr>"

lemma vmx_enter_guest_eq:
  assumes "enter_insn E (launched s) (enter_state E s) = (failed, y)"
    and "vmread_insn (cpu E) EXI_REASON (vmx_hw (vm y)) = ((fl, v), h)"
  shows "vmx_enter_guest E s = Inr ((v AND VMX_ENTRY_FAILURE = 0,
      \<lparr>by_vmlaunch = \<not> launched y, instr = (if launched y then ''vmresume'' else ''vmlaunch''), early = False,
       fail_flags = (case failed of Some fl \<Rightarrow> (fl AND NOT (mask 32)) OR 1 | None \<Rightarrow> 0)\<rparr>),
      y\<lparr>in_guest := False, vm := (vm y)\<lparr>vmx_hw := h\<rparr>\<rparr>)"
proof -
  obtain r k where w: "vmwrite_insn (cpu E) HOST_RSP (host_rsp E) (vmx_hw (vm s)) = (r, k)" by fastforce
  show ?thesis using assms
    by (simp add: vmx_enter_guest_def bindS_def outS_def vmS_def write_field_def vmcs_write_def hwS_def returnS_def getS_def
        vmcs_read_def enter_state_def w Let_def)
qed

text \<open>
  An instruction that fails at once is taken for an entry, and the guest for exited, when the last exit was not a
  failed entry: \<open>early\<close> is never set.
\<close>

lemma early_failure_taken_for_exit:
  assumes "enter_insn E (launched s) (enter_state E s) = (Some flags, y)"
    and "vmread_insn (cpu E) EXI_REASON (vmx_hw (vm y)) = ((fl, v), h)" "v AND VMX_ENTRY_FAILURE = 0"
  shows "\<exists>failure s'. vmx_enter_guest E s = Inr ((True, failure), s') \<and> \<not> early failure"
  using vmx_enter_guest_eq [OF assms(1,2)] assms(3) by auto

section \<open>Calls of the guest\<close>

lemma dump_stack_prints: "\<exists>out. dump_stack False m frame = Inr out"
proof -
  have plain: "\<exists>o1 n. printf fmt [] = Inr (o1, n)" if "CHR ''%'' \<notin> set fmt" for fmt
    using fmt_ok_vsnprintf [OF fmt_plain_text [OF that]] by (simp add: printf_def)
  have "fmt_ok '' %lx'' [Word a]" for a by (intro fmt_plain fmt_lx fmt_nil) simp
  then have word: "\<exists>o1 n. printf '' %lx'' [Word a] = Inr (o1, n)" for a
    using fmt_ok_vsnprintf unfolding printf_def by blast
  have addrs: "\<exists>out. print_addrs as = Inr out" for as
  proof (induction as)
    case (Cons a as)
    then show ?case using word [of a] by auto
  qed simp
  have stack: "\<exists>out. print_stack as True = Inr out" for as
  proof -
    obtain o1 o2 o3 n2 n3 where "print_addrs as = Inr o1" "printf ([CHR 0x09] @ ''STACK:'') [] = Inr (o2, n2)"
      "printf [CHR 0x0A] [] = Inr (o3, n3)"
      using addrs [of as] plain [of "[CHR 0x09] @ ''STACK:''"] plain [of "[CHR 0x0A]"] by auto
    then show ?thesis by (cases as) (auto simp: print_stack_def simp del: print_addrs.simps append_Cons append_Nil)
  qed
  obtain out where "print_stack (tl (backtrace_loop m frame MAX_DEPTH)) True = Inr out" using stack by blast
  then show ?thesis by (simp add: dump_stack_def backtrace_def backtrace_frame_def)
qed

text \<open>The guest leaves by a hypercall of this number, whenever it is entered.\<close>

definition guest_calls :: "'h vmx_env \<Rightarrow> ('h \<Rightarrow> u64) \<Rightarrow> u32 \<Rightarrow> bool" where
  "guest_calls E reason n \<longleftrightarrow>
     (\<forall>l s. \<exists>x y. enter_insn E l s = (None, y) \<and> hypercall n x = Inr (Vmcall, y) \<and>
        reason (vmx_hw (vm y)) AND 0xff = VMX_VMCALL \<and> reason (vmx_hw (vm y)) AND VMX_ENTRY_FAILURE = 0)"

lemma hypercall_number: "((ucast n AND HYPERCALL_MASK) OR HYPERCALL_BIT) AND HYPERCALL_MASK = ucast (n :: u32) AND HYPERCALL_MASK"
  "((ucast n AND HYPERCALL_MASK) OR HYPERCALL_BIT) AND HYPERCALL_BIT \<noteq> 0"
proof -
  have "HYPERCALL_BIT AND HYPERCALL_MASK = 0" "HYPERCALL_BIT \<noteq> 0" by (simp_all add: vmx_const)
  then show "((ucast n AND HYPERCALL_MASK) OR HYPERCALL_BIT) AND HYPERCALL_MASK = ucast n AND HYPERCALL_MASK"
    by (simp add: bit.conj_disj_distrib2 and.assoc)
  show "((ucast n AND HYPERCALL_MASK) OR HYPERCALL_BIT) AND HYPERCALL_BIT \<noteq> 0"
    using \<open>HYPERCALL_BIT \<noteq> 0\<close> by (metis or.commute word_bw_comms(1) word_ao_absorbs(1))
qed


text \<open>The state after a successful \<open>TEST_ASSERT_MSG\<close>.\<close>

definition passed :: "'h run_state \<Rightarrow> 'h run_state" where
  "passed s = s\<lparr>vm := (vm s)\<lparr>rep := report_pass (rep (vm s))\<rparr>\<rparr>"

lemma TEST_ASSERT_MSG_pass: "TEST_ASSERT_MSG E file line text True fmt va s = Inr (Done (), passed s)"
  by (simp add: TEST_ASSERT_MSG_def bindJ_def bindS_def returnS_def doneJ_def vmS_def report_passS_def passed_def)

lemma TEST_ASSERT_MSG_bind: "bindJ (TEST_ASSERT_MSG E file line text True fmt va) g s = g () (passed s)"
  by (simp add: bindJ_def bindS_def TEST_ASSERT_MSG_pass)

lemma passed_simps [simp]: "v2_guest_main (passed s) = v2_guest_main s" "guest_finished (passed s) = guest_finished s"
  "teardown_steps (passed s) = teardown_steps s" "hypercall_field (passed s) = hypercall_field s"
  by (simp_all add: passed_def)

text \<open>Up to the answer of \<open>handle_hypercall\<close>.\<close>

lemma enter_guest_call:
  assumes "guest_calls E reason n" "\<And>h. \<exists>fl. vmread_insn (cpu E) EXI_REASON h = ((fl, reason h), h)"
    and "v2_guest_main s \<noteq> 0" "\<not> guest_finished s"
  shows "\<exists>y. launched y \<and> \<not> in_guest y \<and> hypercall_field y AND HYPERCALL_MASK = ucast n AND HYPERCALL_MASK \<and>
    enter_guest E s = bindS handle_hypercall (\<lambda>ret.
       if ret = VMX_TEST_VMEXIT then bindS (outS (\<lambda>s. s\<lparr>guest_finished := True\<rparr>)) (\<lambda>_. returnS (Done ()))
       else if ret = VMX_TEST_VMABORT then continue_abort E
       else if ret = VMX_TEST_VMSKIP then continue_skip
       else bindS (lineS ''ERROR : Invalid handle_hypercall return %d.'' [Word (ucast ret)]) (\<lambda>_. abortS)) y"
proof -
  let ?s = "passed (passed s)"
  obtain x y where y: "enter_insn E (launched ?s) (enter_state E ?s) = (None, y)" "hypercall n x = Inr (Vmcall, y)"
    "reason (vmx_hw (vm y)) AND 0xff = VMX_VMCALL" "reason (vmx_hw (vm y)) AND VMX_ENTRY_FAILURE = 0"
    using assms(1) unfolding guest_calls_def by metis
  obtain fl where v: "vmread_insn (cpu E) EXI_REASON (vmx_hw (vm y)) = ((fl, reason (vmx_hw (vm y))), vmx_hw (vm y))"
    using assms(2) by blast
  have h: "hypercall_field y = (ucast n AND HYPERCALL_MASK) OR HYPERCALL_BIT"
    using y(2) by (auto simp: hypercall_def bindS_def outS_def returnS_def)
  note en = vmx_enter_guest_eq [OF y(1) v]
  let ?y = "y\<lparr>in_guest := False, launched := True\<rparr>"
  have same: "y\<lparr>in_guest := False, vm := (vm y)\<lparr>vmx_hw := vmx_hw (vm y)\<rparr>\<rparr> = y\<lparr>in_guest := False\<rparr>" by simp
  have hyp: "is_hypercall E ?y = Inr (True, ?y)"
    using v y(3) hypercall_number(2) [of n]
    by (simp add: is_hypercall_def bindS_def vmS_def vmcs_read_def hwS_def returnS_def getS_def h)
  show ?thesis
    using assms(3,4) y(4) hypercall_number(1) [of n]
    by (intro exI [of _ ?y])
      (simp add: enter_guest_def bindS_eval [of "getS _"] getS_def TEST_ASSERT_MSG_bind bindS_eval [of "vmx_enter_guest E"] en
        bindS_eval [of "outS _"] outS_def bindS_eval [of "is_hypercall E"] hyp h)
qed


lemma abort_stops: "\<exists>e. bindS f (\<lambda>_. abortS) s = Inl e"
  by (cases "f s") (auto simp: bindS_def abortS_def)

lemma print_plain:
  assumes "CHR ''%'' \<notin> set fmt"
  shows "\<exists>out. vmS (printS fmt []) s = Inr ((), s\<lparr>vm := (vm s)\<lparr>rep := put_out out (rep (vm s))\<rparr>\<rparr>)"
  using fmt_ok_vsnprintf [OF fmt_plain_text [OF assms], of BUFSZ] by (auto simp: vmS_def printS_def printf_def)

lemma continue_abort_jumps:
  assumes "\<not> in_guest s"
  shows "\<exists>v. continue_abort E s = Inr (Jump, s\<lparr>vm := v\<rparr>)"
proof -
  let ?msg = "''Host was here when guest aborted:'' @ [CHR 0x0A]"
  obtain out where p: "vmS (printS ?msg []) s = Inr ((), s\<lparr>vm := (vm s)\<lparr>rep := put_out out (rep (vm s))\<rparr>\<rparr>)"
    using print_plain [of ?msg s] by auto
  obtain o2 where "dump_stack False (cells (vm s)) (frame_pointer E) = Inr o2" using dump_stack_prints by blast
  then show ?thesis
    using assms p by (auto simp: continue_abort_def bindS_eval getS_def assertS_def returnS_def vmS_def dump_stackS_def intro!: exI)
qed

text \<open>The three kinds of numbers.\<close>

lemma guest_call_cases:
  assumes "guest_calls E reason n" "\<And>h. \<exists>fl. vmread_insn (cpu E) EXI_REASON h = ((fl, reason h), h)"
    and "v2_guest_main s \<noteq> 0" "\<not> guest_finished s"
  shows "ucast n AND HYPERCALL_MASK = HYPERCALL_VMEXIT \<Longrightarrow>
      \<exists>s'. enter_guest E s = Inr (Done (), s') \<and> launched s' \<and> guest_finished s' \<and> hypercall_field s' = 0"
    and "ucast n AND HYPERCALL_MASK \<in> {HYPERCALL_VMABORT, HYPERCALL_VMSKIP} \<Longrightarrow>
      \<exists>s'. enter_guest E s = Inr (Jump, s') \<and> launched s' \<and> \<not> in_guest s' \<and> hypercall_field s' = 0"
    and "ucast n AND HYPERCALL_MASK \<notin> {HYPERCALL_VMEXIT, HYPERCALL_VMABORT, HYPERCALL_VMSKIP} \<Longrightarrow>
      \<exists>e. enter_guest E s = Inl e"
proof -
  obtain y where y: "launched y" "\<not> in_guest y" "hypercall_field y AND HYPERCALL_MASK = ucast n AND HYPERCALL_MASK"
    and e: "enter_guest E s = bindS handle_hypercall (\<lambda>ret.
       if ret = VMX_TEST_VMEXIT then bindS (outS (\<lambda>s. s\<lparr>guest_finished := True\<rparr>)) (\<lambda>_. returnS (Done ()))
       else if ret = VMX_TEST_VMABORT then continue_abort E
       else if ret = VMX_TEST_VMSKIP then continue_skip
       else bindS (lineS ''ERROR : Invalid handle_hypercall return %d.'' [Word (ucast ret)]) (\<lambda>_. abortS)) y"
    using enter_guest_call [OF assms] by blast
  let ?n = "ucast n AND HYPERCALL_MASK" and ?y = "y\<lparr>hypercall_field := 0\<rparr>"
  have hh: "handle_hypercall y = (if ?n = HYPERCALL_VMEXIT then returnS VMX_TEST_VMEXIT
     else if ?n = HYPERCALL_VMABORT then returnS VMX_TEST_VMABORT
     else if ?n = HYPERCALL_VMSKIP then returnS VMX_TEST_VMSKIP
     else
       bindS (vmS (printS (''ERROR : Invalid hypercall number : %ld'' @ [CHR 0x0A]) [Word ?n])) (\<lambda>_.
       returnS VMX_TEST_EXIT)) ?y"
    by (simp add: handle_hypercall_def bindS_eval [of "getS _"] bindS_eval [of "outS _"] getS_def outS_def y(3))
  have d: "HYPERCALL_VMEXIT \<noteq> HYPERCALL_VMABORT" "HYPERCALL_VMEXIT \<noteq> HYPERCALL_VMSKIP" "HYPERCALL_VMABORT \<noteq> HYPERCALL_VMSKIP"
    "VMX_TEST_VMEXIT \<noteq> VMX_TEST_VMABORT" "VMX_TEST_VMEXIT \<noteq> VMX_TEST_VMSKIP" "VMX_TEST_VMABORT \<noteq> VMX_TEST_VMSKIP"
    "VMX_TEST_EXIT \<noteq> VMX_TEST_VMABORT" "VMX_TEST_EXIT \<noteq> VMX_TEST_VMSKIP" "VMX_TEST_EXIT \<noteq> VMX_TEST_VMEXIT"
    by (simp_all add: vmx_const)
  show "\<exists>s'. enter_guest E s = Inr (Done (), s') \<and> launched s' \<and> guest_finished s' \<and> hypercall_field s' = 0"
    if "?n = HYPERCALL_VMEXIT"
    using that y by (simp add: e bindS_eval hh returnS_def outS_def)
  show "\<exists>s'. enter_guest E s = Inr (Jump, s') \<and> launched s' \<and> \<not> in_guest s' \<and> hypercall_field s' = 0"
    if c: "?n \<in> {HYPERCALL_VMABORT, HYPERCALL_VMSKIP}"
  proof (cases "?n = HYPERCALL_VMABORT")
    case True
    obtain v where "continue_abort E ?y = Inr (Jump, ?y\<lparr>vm := v\<rparr>)" using continue_abort_jumps [of ?y E] y(2) by auto
    then show ?thesis using True y d by (simp add: e bindS_eval hh returnS_def)
  next
    case False
    then have "?n = HYPERCALL_VMSKIP" using c by simp
    then show ?thesis using y d
      by (simp add: e bindS_eval [of handle_hypercall] hh returnS_def) (simp add: continue_skip_def bindS_eval getS_def assertS_def returnS_def)
  qed
  show "\<exists>e. enter_guest E s = Inl e" if c: "?n \<notin> {HYPERCALL_VMEXIT, HYPERCALL_VMABORT, HYPERCALL_VMSKIP}"
  proof (cases "handle_hypercall y")
    case (Inr r)
    obtain ret z where r: "r = (ret, z)" by (cases r)
    then have "ret = VMX_TEST_EXIT"
      using c Inr by (auto simp: hh bindS_def bindE_eq_Inr returnS_def)
    then show ?thesis using d abort_stops by (simp add: e bindS_eval [of handle_hypercall] Inr r)
  qed (simp add: e bindS_eval)
qed

text \<open>
  C29: a guest that makes a call is answered as the call asks. For \<open>HYPERCALL_VMEXIT\<close> \<open>enter_guest\<close> returns, and the guest
  is recorded as finished; for \<open>HYPERCALL_VMABORT\<close> and \<open>HYPERCALL_VMSKIP\<close> the host leaves the test by a jump; any other
  number stops the program. The call is answered once: afterwards none is pending.
\<close>

theorem guest_call_reaches_host:
  assumes "guest_calls E reason n" "\<And>h. \<exists>fl. vmread_insn (cpu E) EXI_REASON h = ((fl, reason h), h)"
    and "v2_guest_main s \<noteq> 0" "\<not> guest_finished s"
  shows "if ucast n AND HYPERCALL_MASK = HYPERCALL_VMEXIT then
      \<exists>s'. enter_guest E s = Inr (Done (), s') \<and> launched s' \<and> guest_finished s' \<and> hypercall_field s' = 0
    else if ucast n AND HYPERCALL_MASK \<in> {HYPERCALL_VMABORT, HYPERCALL_VMSKIP} then
      \<exists>s'. enter_guest E s = Inr (Jump, s') \<and> launched s' \<and> \<not> in_guest s' \<and> hypercall_field s' = 0
    else \<exists>e. enter_guest E s = Inl e"
proof -
  note cases = guest_call_cases [OF assms]
  show ?thesis
  proof (cases "ucast n AND HYPERCALL_MASK = HYPERCALL_VMEXIT")
    case True
    then show ?thesis using cases(1) by simp
  next
    case False
    then show ?thesis using cases(2,3) by (cases "ucast n AND HYPERCALL_MASK \<in> {HYPERCALL_VMABORT, HYPERCALL_VMSKIP}") simp_all
  qed
qed

text \<open>A machine whose guest makes one call.\<close>

definition call_env :: "u32 \<Rightarrow> (u64 option \<times> (u64 \<Rightarrow> u64 \<Rightarrow> u64)) vmx_env" where
  "call_env n = \<lparr>cpu = store_cpu\<lparr>vmread_insn := (\<lambda>_ h. ((0, VMX_VMCALL), h))\<rparr>,
     image = \<lparr>entry_sysenter = 0, vmx_return = 0, guest_entry = 0, tss_base = 0, tss_limit = 0, gdt_base = 0, gdt_limit = 0,
       idt_base = 0, idt_limit = 0\<rparr>,
     host_rsp = 0x8000, frame_pointer = 0,
     enter_insn = (\<lambda>_ s. (None, s\<lparr>hypercall_field := (ucast n AND HYPERCALL_MASK) OR HYPERCALL_BIT\<rparr>)),
     call = (\<lambda>_ _. returnS (Done ())), vmx_supported = True\<rparr>"

definition no_regs :: vmx_regs where
  "no_regs = \<lparr>g_rax = 0, g_rcx = 0, g_rdx = 0, g_rbx = 0, g_cr2 = 0, g_rbp = 0, g_rsi = 0, g_rdi = 0, g_r8 = 0, g_r9 = 0,
     g_r10 = 0, g_r11 = 0, g_r12 = 0, g_r13 = 0, g_r14 = 0, g_r15 = 0, g_rflags = 0\<rparr>"

definition run_sample :: "(u64 option \<times> (u64 \<Rightarrow> u64 \<Rightarrow> u64)) run_state" where
  "run_sample = \<lparr>vm = vmx_sample, guest_regs = no_regs, teardown_steps = [], v2_guest_main = 0x400000, hypercall_field = 0,
     launched = False, matched = 0, guest_finished = False, in_guest = False, exits = 0, test_vmcs = 0\<rparr>"

lemma guest_calls_sample: "guest_calls (call_env n) (\<lambda>_. VMX_VMCALL) n"
  unfolding guest_calls_def
proof (intro allI)
  fix l s
  have "enter_insn (call_env n) l s = (None, s\<lparr>hypercall_field := (ucast n AND HYPERCALL_MASK) OR HYPERCALL_BIT\<rparr>)"
    by (simp add: call_env_def)
  moreover have "hypercall n s = Inr (Vmcall, s\<lparr>hypercall_field := (ucast n AND HYPERCALL_MASK) OR HYPERCALL_BIT\<rparr>)"
    by (simp add: hypercall_def bindS_def outS_def returnS_def)
  moreover have "VMX_VMCALL AND 0xff = VMX_VMCALL" "VMX_VMCALL AND VMX_ENTRY_FAILURE = 0" by (simp_all add: vmx_const)
  ultimately show "\<exists>x y. enter_insn (call_env n) l s = (None, y) \<and> hypercall n x = Inr (Vmcall, y) \<and>
        VMX_VMCALL AND 0xff = VMX_VMCALL \<and> VMX_VMCALL AND VMX_ENTRY_FAILURE = 0" by blast
qed

lemma guest_call_reaches_host_witness:
  "\<exists>s'. enter_guest (call_env 1) run_sample = Inr (Done (), s') \<and> guest_finished s'"
proof -
  have "\<exists>fl. vmread_insn (cpu (call_env 1)) EXI_REASON h = ((fl, VMX_VMCALL), h)" for h by (simp add: call_env_def)
  moreover have "v2_guest_main run_sample \<noteq> 0" "\<not> guest_finished run_sample" by (simp_all add: run_sample_def)
  moreover have "ucast (1 :: u32) AND HYPERCALL_MASK = HYPERCALL_VMEXIT" by (simp add: vmx_const)
  ultimately show ?thesis using guest_call_reaches_host [OF guest_calls_sample, of 1 run_sample] by auto
qed

section \<open>Teardown steps\<close>

text \<open>
  A log of the steps that ran. A well-behaved step returns, is added to the log, and adds no steps itself; the log
  does not depend on the steps that are waiting.
\<close>

definition logs_steps :: "'h vmx_env \<Rightarrow> ('h run_state \<Rightarrow> (u64 \<times> u64) list) \<Rightarrow> bool" where
  "logs_steps E log \<longleftrightarrow>
     (\<forall>s fn arg. \<exists>s'. call E fn arg s = Inr (Done (), s') \<and> teardown_steps s' = teardown_steps s \<and> log s' = log s @ [(fn, arg)]) \<and>
     (\<forall>s ts. log (s\<lparr>teardown_steps := ts\<rparr>) = log s) \<and> (\<forall>s. log (passed s) = log s)"

lemma teardown_runs:
  assumes "logs_steps E log"
  shows "\<exists>s'. teardown_loop E s = Some (Inr (Done (), s')) \<and> teardown_steps s' = [] \<and> log s' = log s @ rev (teardown_steps s)"
proof (induction "teardown_steps s" arbitrary: s rule: rev_induct)
  case Nil
  then show ?case by (subst teardown_loop.simps) simp
next
  case (snoc t ts)
  obtain fn arg where t: "t = (fn, arg)" by (cases t)
  obtain s1 where s1: "call E fn arg (s\<lparr>teardown_steps := ts\<rparr>) = Inr (Done (), s1)" "teardown_steps s1 = ts"
    "log s1 = log s @ [(fn, arg)]"
    using assms unfolding logs_steps_def by (metis run_state.select_convs(3) run_state.surjective run_state.update_convs(3))
  have ls: "last (teardown_steps s) = t" "butlast (teardown_steps s) = ts" "teardown_steps s \<noteq> []"
    using snoc(2) [symmetric] by simp_all
  have "pop_step E s = Inr (Done (), s1)"
    using s1(1) by (simp add: pop_step_def bindS_eval getS_def outS_def run_teardown_step_def ls t)
  moreover obtain s' where "teardown_loop E s1 = Some (Inr (Done (), s'))" "teardown_steps s' = []" "log s' = log s1 @ rev ts"
    using snoc(1) [of s1] s1(2) by auto
  ultimately show ?case
    using ls s1(3) snoc(2) [symmetric] t by (subst teardown_loop.simps) simp
qed

primrec add_steps :: "'h vmx_env \<Rightarrow> (u64 \<times> u64) list \<Rightarrow> ('h, unit) run" where
  "add_steps E [] = returnS (Done ())"
| "add_steps E (t # ts) = bindJ (test_add_teardown E (fst t) (snd t)) (\<lambda>_. add_steps E ts)"

lemma test_add_teardown_eq:
  "length (teardown_steps s) < MAX_TEST_TEARDOWN_STEPS \<Longrightarrow>
     test_add_teardown E fn arg s = Inr (Done (), (passed s)\<lparr>teardown_steps := teardown_steps s @ [(fn, arg)]\<rparr>)"
  by (simp add: test_add_teardown_def bindS_eval [of "getS _"] getS_def TEST_ASSERT_MSG_bind doneJ_def bindS_eval outS_def returnS_def)

lemma add_steps_adds:
  assumes "logs_steps E log" "length (teardown_steps s) + length ts \<le> MAX_TEST_TEARDOWN_STEPS"
  shows "\<exists>s'. add_steps E ts s = Inr (Done (), s') \<and> teardown_steps s' = teardown_steps s @ ts \<and> log s' = log s \<and>
    in_guest s' = in_guest s \<and> failures (rep (vm s')) = failures (rep (vm s))"
  using assms(2)
proof (induction ts arbitrary: s)
  case Nil
  then show ?case by (simp add: returnS_def)
next
  case (Cons t ts)
  let ?s = "(passed s)\<lparr>teardown_steps := teardown_steps s @ [t]\<rparr>"
  have a: "test_add_teardown E (fst t) (snd t) s = Inr (Done (), ?s)" using Cons.prems by (simp add: test_add_teardown_eq)
  have "log ?s = log s" using assms(1) by (simp add: logs_steps_def)
  moreover obtain s' where "add_steps E ts ?s = Inr (Done (), s')" "teardown_steps s' = teardown_steps ?s @ ts" "log s' = log ?s"
    "in_guest s' = in_guest ?s" "failures (rep (vm s')) = failures (rep (vm ?s))"
    using Cons.IH [of ?s] Cons.prems by auto
  ultimately show ?case by (simp add: bindJ_def bindS_eval a passed_def report_pass_def)
qed

lemma bindJ_Done [simp]: "f s = Inr (Done x, s') \<Longrightarrow> bindJ f g s = g x s'"
  "f s = Inr (Jump, s') \<Longrightarrow> bindJ f g s = Inr (Jump, s')"
  by (simp_all add: bindJ_def bindS_eval returnS_def)

lemma bindJ_assoc: "bindJ (bindJ f g) h = bindJ f (\<lambda>x. bindJ (g x) h)"
proof
  show "bindJ (bindJ f g) h s = bindJ f (\<lambda>x. bindJ (g x) h) s" for s
    by (cases "f s") (auto simp: bindJ_def bindS_eval returnS_def split: ctl.splits sum.splits)
qed

lemma bindJ_return: "bindJ (returnS (Done x)) g = g x"
  by (rule ext) (simp add: bindJ_def bindS_eval returnS_def)

lemma add_steps_append: "add_steps E (xs @ ys) = bindJ (add_steps E xs) (\<lambda>_. add_steps E ys)"
  by (induction xs) (simp_all add: bindJ_assoc bindJ_return)

text \<open>A failed assertion of the host.\<close>

lemma TEST_ASSERT_MSG_fails:
  assumes "fmt_ok (''%s:%d: Assertion failed: %s'' @ [CHR 0x0A] @ fmt) ([Str file, Word line, Str text] @ va)" "\<not> in_guest s"
  shows "\<exists>v. TEST_ASSERT_MSG E file line text False fmt va s = Inr (Jump, s\<lparr>vm := v\<rparr>) \<and>
    failures (rep v) = failures (rep (vm s)) + 1"
proof -
  let ?fmt = "''%s:%d: Assertion failed: %s'' @ [CHR 0x0A] @ fmt" and ?va = "[Str file, Word line, Str text] @ va"
  obtain out where r: "report ?fmt False ?va (rep (vm s)) = Inr ((rep (vm s))\<lparr>tests := tests (rep (vm s)) + 1, console := out,
      failures := failures (rep (vm s)) + 1\<rparr>)"
    using report_ok [OF assms(1), of False "rep (vm s)"] by auto
  let ?v = "(vm s)\<lparr>rep := (rep (vm s))\<lparr>tests := tests (rep (vm s)) + 1, console := out, failures := failures (rep (vm s)) + 1\<rparr>\<rparr>"
  obtain o2 where d: "dump_stack False (cells ?v) (frame_pointer E) = Inr o2" using dump_stack_prints by blast
  have 1: "vmS (reportS ?fmt False ?va) s = Inr ((), s\<lparr>vm := ?v\<rparr>)" unfolding vmS_def reportS_def r by simp
  have 2: "vmS (dump_stackS E) (s\<lparr>vm := ?v\<rparr>) = Inr ((), s\<lparr>vm := ?v\<lparr>rep := put_out o2 (rep ?v)\<rparr>\<rparr>)"
    using d by (simp add: vmS_def dump_stackS_def)
  have "TEST_ASSERT_MSG E file line text False fmt va s = Inr (Jump, s\<lparr>vm := ?v\<lparr>rep := put_out o2 (rep ?v)\<rparr>\<rparr>)"
    unfolding TEST_ASSERT_MSG_def using assms(2)
    by (simp only: if_False bindJ_def bindS_eval 1 2 sum.case prod.case abort_test_def getS_def)
      (simp add: returnS_def)
  moreover have "failures (rep (?v\<lparr>rep := put_out o2 (rep ?v)\<rparr>)) = failures (rep (vm s)) + 1" by (simp add: put_out_def)
  ultimately show ?thesis by blast
qed

lemma test_add_teardown_full:
  assumes "length (teardown_steps s) = MAX_TEST_TEARDOWN_STEPS" "\<not> in_guest s"
  shows "\<exists>v. test_add_teardown E fn arg s = Inr (Jump, s\<lparr>vm := v\<rparr>) \<and> failures (rep v) = failures (rep (vm s)) + 1"
proof -
  let ?msg = "''There are already %d teardown steps.''" and ?text = "''teardown_count < MAX_TEST_TEARDOWN_STEPS''"
  have "fmt_ok (''%s:%d: Assertion failed: %s'' @ [CHR 0x0A] @ ?msg) ([Str ''x86/vmx.c'', Word 1745, Str ?text] @ [Word (of_nat 10)])"
    by (simp add: fmt_ok_simps)
  from TEST_ASSERT_MSG_fails [OF this assms(2), of E] show ?thesis using assms(1)
    by (auto simp: test_add_teardown_def bindS_eval [of "getS _"] getS_def MAX_TEST_TEARDOWN_STEPS_def simp del: append_Cons)
qed

text \<open>
  C31: a test may add ten teardown steps; when it is done they have all been run once each, the last one first, and none
  is left. An eleventh is refused: the test fails and is left by a jump, and nothing is stored.
\<close>

theorem teardown_last_in_first_out:
  assumes "logs_steps E log" "teardown_steps s = []" "\<not> in_guest s"
  shows "if length ts \<le> 10
    then \<exists>s'. bindJ (add_steps E ts) (\<lambda>_. run_teardown E) s = Inr (Done (), s') \<and> log s' = log s @ rev ts \<and> teardown_steps s' = []
    else \<exists>s'. add_steps E ts s = Inr (Jump, s') \<and> teardown_steps s' = take 10 ts \<and>
           failures (rep (vm s')) = failures (rep (vm s)) + 1"
proof (cases "length ts \<le> 10")
  case True
  then obtain s1 where s1: "add_steps E ts s = Inr (Done (), s1)" "teardown_steps s1 = ts" "log s1 = log s"
    using add_steps_adds [OF assms(1), of s ts] assms(2) by (auto simp: MAX_TEST_TEARDOWN_STEPS_def)
  moreover obtain s' where "teardown_loop E s1 = Some (Inr (Done (), s'))" "teardown_steps s' = []" "log s' = log s1 @ rev ts"
    using teardown_runs [OF assms(1), of s1] s1(2) by auto
  ultimately show ?thesis using True by (simp add: run_teardown_def)
next
  case False
  then obtain t us where ts: "ts = take 10 ts @ t # us" using id_take_nth_drop [of 10 ts] by auto
  have n: "length (take 10 ts) = 10" using False by simp
  obtain s1 where s1: "add_steps E (take 10 ts) s = Inr (Done (), s1)" "teardown_steps s1 = take 10 ts"
    "\<not> in_guest s1" "failures (rep (vm s1)) = failures (rep (vm s))"
    using add_steps_adds [OF assms(1), of s "take 10 ts"] assms(2,3) n by (auto simp: MAX_TEST_TEARDOWN_STEPS_def)
  obtain v where "test_add_teardown E (fst t) (snd t) s1 = Inr (Jump, s1\<lparr>vm := v\<rparr>)" "failures (rep v) = failures (rep (vm s1)) + 1"
    using test_add_teardown_full [of s1 E] s1 n by (auto simp: MAX_TEST_TEARDOWN_STEPS_def)
  then have "add_steps E (take 10 ts @ t # us) s = Inr (Jump, s1\<lparr>vm := v\<rparr>)" by (simp add: add_steps_append s1(1))
  then show ?thesis using False s1 \<open>failures (rep v) = _\<close> by (simp only: ts [symmetric] if_False) simp
qed

text \<open>A machine that does nothing but keep the log.\<close>

definition log_env :: "(u64 \<times> u64) list vmx_env" where
  "log_env = \<lparr>cpu = \<lparr>vmxon_insn = (\<lambda>_ (_, h). (False, h)), vmxoff_insn = (\<lambda>h. (False, h)),
       vmclear_insn = (\<lambda>_ (m, h). (False, m, h)), vmptrld_insn = (\<lambda>_ (m, h). (False, m, h)), vmptrst_insn = (\<lambda>h. ((False, 0), h)),
       vmread_insn = (\<lambda>_ h. ((0, 0), h)), vmwrite_insn = (\<lambda>_ _ h. (False, h)), rdmsr_insn = (\<lambda>_ h. (0, h)), wrmsr_insn = (\<lambda>_ _ h. h),
       read_cr0_insn = (\<lambda>h. (0, h)), read_cr3_insn = (\<lambda>h. (0, h)), read_cr4_insn = (\<lambda>h. (0, h)),
       write_cr0_insn = (\<lambda>_ h. h), write_cr4_insn = (\<lambda>_ h. h), maxphyaddr = (\<lambda>h. (36, h)), raises_gp = (\<lambda>_ (_, h). (True, h))\<rparr>,
     image = image (call_env 0), host_rsp = 0, frame_pointer = 0, enter_insn = (\<lambda>_ s. (None, s)),
     call = (\<lambda>fn arg s. Inr (Done (), s\<lparr>vm := (vm s)\<lparr>vmx_hw := vmx_hw (vm s) @ [(fn, arg)]\<rparr>\<rparr>)), vmx_supported = True\<rparr>"

definition log_state :: "(u64 \<times> u64) list run_state" where
  "log_state = \<lparr>vm = \<lparr>cells = (\<lambda>_. 0), freelist = 0,
     rep = \<lparr>tests = 0, failures = 0, xfailures = 0, skipped = 0, prefixes = [], console = []\<rparr>,
     vmx_hw = [], vmxon_region = 0, vmcs_root = 0, vpid_cnt = 0, guest_stack = 0, guest_syscall_stack = 0,
     ctrl_pin = 0, ctrl_enter = 0, ctrl_exit = 0, ctrl_cpu0 = 0, ctrl_cpu1 = 0, basic = 0, ctrl_pin_rev = 0,
     ctrl_cpu_rev0 = 0, ctrl_cpu_rev1 = 0, ctrl_exit_rev = 0, ctrl_enter_rev = 0, ept_vpid = 0, stage = 0\<rparr>,
     guest_regs = no_regs, teardown_steps = [], v2_guest_main = 0, hypercall_field = 0,
     launched = False, matched = 0, guest_finished = False, in_guest = False, exits = 0, test_vmcs = 0\<rparr>"

lemma teardown_last_in_first_out_witness:
  "\<exists>s'. bindJ (add_steps log_env [(1, 2), (3, 4)]) (\<lambda>_. run_teardown log_env) log_state = Inr (Done (), s') \<and>
     vmx_hw (vm s') = [(3, 4), (1, 2)]"
proof -
  have "logs_steps log_env (\<lambda>s. vmx_hw (vm s))" by (simp add: logs_steps_def log_env_def passed_def)
  moreover have "teardown_steps log_state = []" "\<not> in_guest log_state" "vmx_hw (vm log_state) = []" by (simp_all add: log_state_def)
  ultimately show ?thesis
    using teardown_last_in_first_out [of log_env "\<lambda>s. vmx_hw (vm s)" log_state "[(1, 2), (3, 4)]"] by auto
qed

section \<open>The loop of \<open>vmx_run\<close>\<close>

text \<open>A number of entries whose handler answered \<open>VMX_TEST_RESUME\<close>.\<close>

inductive resumed :: "'h vmx_env \<Rightarrow> 'h vmx_test \<Rightarrow> 'h run_state \<Rightarrow> 'h run_state \<Rightarrow> bool" for E T where
  resumed_none: "resumed E T s s"
| resumed_once: "\<lbrakk>run_turn E T s = Inr (Done True, s1); resumed E T s1 s2\<rbrakk> \<Longrightarrow> resumed E T s s2"

lemma vmx_run_loop_resumed: "resumed E T s s1 \<Longrightarrow> vmx_run_loop E T s = vmx_run_loop E T s1"
  by (induction rule: resumed.induct) (simp, subst vmx_run_loop.simps, simp)

definition run_end :: "'h vmx_env \<Rightarrow> 'h vmx_test \<Rightarrow> err + (unit ctl \<times> 'h run_state) \<Rightarrow> 'h run_state \<Rightarrow> bool" where
  "run_end E T r s1 \<longleftrightarrow>
     (case run_turn E T s1 of
        Inl e \<Rightarrow> r = Inl e
      | Inr (Done b, s') \<Rightarrow> \<not> b \<and> r = Inr (Done (), s')
      | Inr (Jump, s') \<Rightarrow> r = Inr (Jump, s')
      | Inr (Vmcall, s') \<Rightarrow> r = Inr (Vmcall, s'))"

lemma vmx_run_loop_end: "run_end E T r s \<Longrightarrow> vmx_run_loop E T s = Some r"
  by (subst vmx_run_loop.simps) (auto simp: run_end_def split: sum.splits prod.splits ctl.splits)

lemma vmx_run_loop_returns:
  assumes "vmx_run_loop E T s = Some r"
  shows "\<exists>s1. resumed E T s s1 \<and> run_end E T r s1"
proof (rule vmx_run_loop.raw_induct [OF _ assms, where P = "\<lambda>E T s r. \<exists>s1. resumed E T s s1 \<and> run_end E T r s1"])
  fix f E T s and y :: "err + (unit ctl \<times> 'a run_state)"
  assume IH: "\<And>E T s y. f E T s = Some y \<Longrightarrow> \<exists>s1. resumed E T s s1 \<and> run_end E T y s1"
    and e: "(case run_turn E T s of
        Inl e \<Rightarrow> Some (Inl e)
      | Inr (Done b, s') \<Rightarrow> if b then f E T s' else Some (Inr (Done (), s'))
      | Inr (Jump, s') \<Rightarrow> Some (Inr (Jump, s'))
      | Inr (Vmcall, s') \<Rightarrow> Some (Inr (Vmcall, s'))) = Some y"
  show "\<exists>s1. resumed E T s s1 \<and> run_end E T y s1"
  proof (cases "\<exists>s'. run_turn E T s = Inr (Done True, s')")
    case True
    then obtain s' where s': "run_turn E T s = Inr (Done True, s')" ..
    then have "f E T s' = Some y" using e by simp
    from IH [OF this] s' show ?thesis by (blast intro: resumed_once)
  next
    case False
    then have "run_end E T y s" using e by (auto simp: run_end_def split: sum.splits prod.splits ctl.splits if_splits)
    then show ?thesis by (blast intro: resumed_none)
  qed
qed

lemma vmx_run_loop_iff: "vmx_run_loop E T s = Some r \<longleftrightarrow> (\<exists>s1. resumed E T s s1 \<and> run_end E T r s1)"
  using vmx_run_loop_returns vmx_run_loop_resumed vmx_run_loop_end by metis

text \<open>The turn that ends the loop records that the guest has finished.\<close>

lemma run_turn_ends:
  assumes "run_turn E T s = Inr (Done False, s')"
  shows "guest_finished s'"
  using assms
  by (auto simp: run_turn_def bindJ_def bindS_eval outS_def returnS_def abortS_def split: sum.splits ctl.splits if_splits)


end
