(* ===== verification/Sieve.thy ===== *)
theory Sieve
  imports Printf
begin

text \<open>
  The memory test \<open>x86/sieve.c\<close>: a sieve of Eratosthenes in an array of characters. The \<open>int\<close> indices are natural
  numbers: \<open>i\<close> is below \<open>size\<close> and \<open>j\<close> below \<open>2 * size\<close> before each test, at most 200000000 in this program.
\<close>

section \<open>The program\<close>

text \<open>A store to the array.\<close>

definition put_at :: "nat \<Rightarrow> u8 \<Rightarrow> u8 list \<Rightarrow> err + u8 list" where
  "put_at i v d = (if i < length d then Inr (d[i := v]) else Inl Out_of_bounds)"

partial_function (option) fill_loop :: "nat \<Rightarrow> nat \<Rightarrow> u8 list \<Rightarrow> (err + u8 list) option" where
  "fill_loop i sz d =
     (if i < sz then
        case put_at i 1 d of Inl e \<Rightarrow> Some (Inl e) | Inr d \<Rightarrow> fill_loop (i + 1) sz d
      else Some (Inr d))"

partial_function (option) clear_loop :: "nat \<Rightarrow> nat \<Rightarrow> nat \<Rightarrow> u8 list \<Rightarrow> (err + u8 list) option" where
  "clear_loop j i sz d =
     (if j < sz then
        case put_at j 0 d of Inl e \<Rightarrow> Some (Inl e) | Inr d \<Rightarrow> clear_loop (j + i) i sz d
      else Some (Inr d))"

partial_function (option) sieve_loop :: "nat \<Rightarrow> nat \<Rightarrow> u8 list \<Rightarrow> nat \<Rightarrow> (err + (nat \<times> u8 list)) option" where
  "sieve_loop i sz d r =
     (if i < sz then
        if length d \<le> i then Some (Inl Out_of_bounds)
        else if d ! i \<noteq> 0 then
          case clear_loop (i * 2) i sz d of
            None \<Rightarrow> None
          | Some (Inl e) \<Rightarrow> Some (Inl e)
          | Some (Inr d) \<Rightarrow> sieve_loop (i + 1) sz d (r + 1)
        else sieve_loop (i + 1) sz d r
      else Some (Inr (r, d)))"

definition sieve :: "u8 list \<Rightarrow> nat \<Rightarrow> err + (nat \<times> u8 list)" where
  "sieve d sz =
     bindE (loopE (fill_loop 0 sz d)) (\<lambda>r. bindE r (\<lambda>d.
     bindE (put_at 1 0 d) (\<lambda>d. bindE (put_at 0 0 d) (\<lambda>d.
     bindE (loopE (sieve_loop 2 sz d 0)) (\<lambda>r. r)))))"

text \<open>What is printed, and the array.\<close>

definition test_sieve :: "string \<Rightarrow> u8 list \<Rightarrow> nat \<Rightarrow> err + (string \<times> u8 list)" where
  "test_sieve msg d sz =
     bindE (printf ''%s:'' [Str msg]) (\<lambda>(o1, _).
     bindE (sieve d sz) (\<lambda>(r, d).
     bindE (printf (''%d out of %d'' @ [CHR 0x0A]) [Word (of_nat r), Word (of_nat sz)]) (\<lambda>(o2, _). Inr (o1 @ o2, d))))"

definition STATIC_SIZE :: nat where "STATIC_SIZE = 1000000"
definition VSIZE :: nat where "VSIZE = 100000000"

text \<open>\<open>blocks\<close> are the contents of the three blocks \<open>malloc\<close> gives, \<open>None\<close> for NULL. The result is the output.\<close>

primrec test_blocks :: "u8 list option list \<Rightarrow> err + string" where
  "test_blocks [] = Inr []"
| "test_blocks (b # bs) =
     (case b of
        None \<Rightarrow> Inl Null_deref
      | Some v \<Rightarrow> bindE (test_sieve ''virtual'' v VSIZE) (\<lambda>(o1, _). bindE (test_blocks bs) (\<lambda>o2. Inr (o1 @ o2))))"

definition main_sieve :: "u8 list \<Rightarrow> u8 list option list \<Rightarrow> err + string" where
  "main_sieve static_data blocks =
     bindE (printf (''starting sieve'' @ [CHR 0x0A]) []) (\<lambda>(o1, _).
     bindE (test_sieve ''static'' static_data STATIC_SIZE) (\<lambda>(o2, d).
     bindE (test_sieve ''mapped'' d STATIC_SIZE) (\<lambda>(o3, d).
     bindE (test_blocks blocks) (\<lambda>o4. Inr (o1 @ o2 @ o3 @ o4)))))"

section \<open>What it computes\<close>

definition is_prime :: "nat \<Rightarrow> bool" where
  "is_prime p \<longleftrightarrow> 1 < p \<and> (\<forall>k. k dvd p \<longrightarrow> k = 1 \<or> k = p)"

text \<open>Numbers without a divisor from 2 up to \<open>i\<close>, other than themselves.\<close>

definition survives :: "nat \<Rightarrow> nat \<Rightarrow> bool" where
  "survives i n \<longleftrightarrow> 1 < n \<and> (\<forall>k. 1 < k \<longrightarrow> k < i \<longrightarrow> k dvd n \<longrightarrow> k = n)"

lemma survives_2: "survives 2 n \<longleftrightarrow> 1 < n"
  by (auto simp: survives_def)

lemma survives_prime: "n \<le> i \<Longrightarrow> survives i n \<longleftrightarrow> is_prime n"
proof
  assume n: "n \<le> i" and s: "survives i n"
  have "k = 1 \<or> k = n" if "k dvd n" for k
  proof -
    have "0 < k" "k \<le> n" using that s by (auto simp: survives_def dvd_imp_le intro: Nat.gr0I)
    then show ?thesis using s n that unfolding survives_def by (metis One_nat_def Suc_lessI le_neq_implies_less order.strict_trans2)
  qed
  then show "is_prime n" using s by (auto simp: is_prime_def survives_def)
qed (auto simp: is_prime_def survives_def)

lemma survives_Suc:
  assumes "1 < i"
  shows "survives (Suc i) n \<longleftrightarrow> survives i n \<and> \<not> (i dvd n \<and> i < n)"
proof -
  have "i dvd n \<Longrightarrow> 1 < n \<Longrightarrow> i \<le> n" by (simp add: dvd_imp_le)
  then show ?thesis using assms by (auto simp: survives_def less_Suc_eq)
qed

text \<open>If \<open>i\<close> has been crossed out, so have its multiples.\<close>

lemma survives_Suc_composite:
  assumes "1 < i" "\<not> survives i i"
  shows "survives (Suc i) n \<longleftrightarrow> survives i n"
proof -
  obtain k where k: "1 < k" "k < i" "k dvd i" using assms by (auto simp: survives_def)
  then have "\<not> survives i n" if "i dvd n" "i < n" using that dvd_trans [of k i n] by (force simp: survives_def)
  then show ?thesis using survives_Suc [OF assms(1)] by blast
qed

section \<open>The loops\<close>

lemma put_at_simps [simp]: "i < length d \<Longrightarrow> put_at i v d = Inr (d[i := v])"
  by (simp add: put_at_def)

lemma fill_loop_fills:
  assumes "length d = sz" "i \<le> sz"
  shows "fill_loop i sz d = Some (Inr (take i d @ replicate (sz - i) 1))"
  using assms
proof (induction "sz - i" arbitrary: i d)
  case 0
  then show ?case by (subst fill_loop.simps) simp
next
  case (Suc n)
  have "fill_loop (i + 1) sz (d[i := 1]) = Some (Inr (take (i + 1) (d[i := 1]) @ replicate (sz - (i + 1)) 1))"
    using Suc by (intro Suc.hyps(1)) auto
  moreover have "take (i + 1) (d[i := 1]) = take i d @ [1]" using Suc by (simp add: take_Suc_conv_app_nth)
  moreover have "replicate (sz - i) (1 :: u8) = 1 # replicate (sz - (i + 1)) 1"
    using Suc by (simp add: Suc_diff_Suc flip: replicate_Suc)
  ultimately show ?case using Suc by (subst fill_loop.simps) simp
qed

definition crossed :: "nat \<Rightarrow> nat \<Rightarrow> u8 list \<Rightarrow> u8 list" where
  "crossed j i d = map (\<lambda>n. if i dvd n \<and> j \<le> n then 0 else d ! n) [0..<length d]"

lemma crossed_step:
  assumes "i dvd j" "0 < i" "j < length d"
  shows "crossed (j + i) i (d[j := 0]) = crossed j i d"
proof -
  have "j + i \<le> n" if "i dvd n" "j \<le> n" "n \<noteq> j" for n
  proof -
    have "i dvd n - j" "0 < n - j" using that assms(1) by (auto simp: dvd_diff_nat)
    then show ?thesis using dvd_imp_le [of i "n - j"] that by simp
  qed
  then show ?thesis by (auto simp: crossed_def nth_list_update assms)
qed

lemma clear_loop_clears:
  assumes "length d = sz" "0 < i" "i dvd j"
  shows "clear_loop j i sz d = Some (Inr (crossed j i d))"
  using assms
proof (induction "sz - j" arbitrary: j d rule: less_induct)
  case less
  show ?case
  proof (cases "j < sz")
    case True
    then have "clear_loop (j + i) i sz (d[j := 0]) = Some (Inr (crossed (j + i) i (d[j := 0])))"
      using less.prems by (intro less.hyps) auto
    then show ?thesis using True less.prems by (subst clear_loop.simps) (simp add: crossed_step)
  next
    case False
    then have "crossed j i d = d" using less.prems(1) by (auto simp: crossed_def intro: nth_equalityI)
    then show ?thesis using False by (subst clear_loop.simps) simp
  qed
qed

text \<open>The array when all multiples of the numbers below \<open>i\<close> are crossed out.\<close>

definition sieved :: "nat \<Rightarrow> nat \<Rightarrow> u8 list" where
  "sieved i sz = map (\<lambda>n. if survives i n then 1 else 0) [0..<sz]"

lemma sieved_Suc: "\<lbrakk>1 < i; i < sz; survives i i\<rbrakk> \<Longrightarrow> crossed (i * 2) i (sieved i sz) = sieved (Suc i) sz"
proof -
  assume i: "1 < i" "i < sz" "survives i i"
  have "i dvd n \<Longrightarrow> i * 2 \<le> n \<longleftrightarrow> i < n" for n using i(1) by (auto elim!: dvdE)
  then show ?thesis using i by (auto simp: crossed_def sieved_def survives_Suc)
qed

lemma sieve_loop_counts:
  assumes "2 \<le> i" "i \<le> sz"
  shows "sieve_loop i sz (sieved i sz) r = Some (Inr (r + card {p. is_prime p \<and> i \<le> p \<and> p < sz}, sieved sz sz))"
  using assms
proof (induction "sz - i" arbitrary: i r)
  case 0
  then have "{p. is_prime p \<and> i \<le> p \<and> p < sz} = {}" "i = sz" by auto
  then show ?case by (subst sieve_loop.simps) simp
next
  case (Suc n)
  then have i: "1 < i" "i < sz" by auto
  have e: "sieved i sz ! i = (if is_prime i then 1 else 0)" using i by (simp add: sieved_def survives_prime)
  have fin: "finite {p. is_prime p \<and> i + 1 \<le> p \<and> p < sz}" by simp
  have split: "{p. is_prime p \<and> i \<le> p \<and> p < sz} =
      (if is_prime i then insert i {p. is_prime p \<and> i + 1 \<le> p \<and> p < sz} else {p. is_prime p \<and> i + 1 \<le> p \<and> p < sz})"
    using i by (auto simp: le_less)
  have IH: "sieve_loop (i + 1) sz (sieved (i + 1) sz) k =
      Some (Inr (k + card {p. is_prime p \<and> i + 1 \<le> p \<and> p < sz}, sieved sz sz))" for k
    using Suc i by (intro Suc.hyps(1)) auto
  show ?case
  proof (cases "is_prime i")
    case True
    then have s: "survives i i" by (simp add: survives_prime)
    have "clear_loop (i * 2) i sz (sieved i sz) = Some (Inr (sieved (i + 1) sz))"
      using clear_loop_clears [of "sieved i sz" sz i "i * 2"] sieved_Suc [OF i s] i by (simp add: sieved_def)
    then show ?thesis using True i e IH [of "r + 1"] fin
      by (subst sieve_loop.simps) (simp add: split, simp add: sieved_def)
  next
    case False
    then have "sieved (i + 1) sz = sieved i sz" using i by (simp add: sieved_def survives_Suc_composite survives_prime)
    then show ?thesis using False i e IH [of r] by (subst sieve_loop.simps) (simp add: split, simp add: sieved_def)
  qed
qed


lemma is_prime_list [code]: "is_prime p \<longleftrightarrow> 1 < p \<and> (\<forall>k \<in> set [2..<p]. \<not> k dvd p)"
  using survives_prime [of p p] by (auto simp: survives_def)


end
