(* ===== verification/DeviceTree.thy ===== *)
theory DeviceTree
  imports DeviceIO
begin

text \<open>
  The device tree, \<open>lib/devicetree.c\<close> and \<open>lib/devicetree.h\<close>: reading the numbers of cells and the \<open>reg\<close>
  properties of nodes, finding nodes and the memory of the machine. The library \<open>libfdt\<close>, which finds
  nodes and properties in the flattened tree, is a parameter.
\<close>

section \<open>The library\<close>

text \<open>
  Nodes are offsets, a negative one is an error. A property is its data, or the (negative) error the library puts in place of
  the length. \<open>node_by_compatible\<close> and \<open>node_by_prop_value\<close> give the next node after the one they start from.
\<close>

record fdt_lib =
  check_header :: int
  path_offset :: "string \<Rightarrow> int"
  get_property :: "int \<Rightarrow> string \<Rightarrow> int + u8 list"
  parent_offset :: "int \<Rightarrow> int"
  node_by_compatible :: "int \<Rightarrow> string \<Rightarrow> int"
  node_by_prop_value :: "int \<Rightarrow> string \<Rightarrow> u8 list \<Rightarrow> int"
  first_subnode :: "int \<Rightarrow> int"
  next_subnode :: "int \<Rightarrow> int"

definition FDT_ERR_NOTFOUND :: int where "FDT_ERR_NOTFOUND = 1"

text \<open>An operation fails on the model, or answers with an error of the library or a value.\<close>

type_synonym 'a dt = "err + (int + 'a)"

definition bindD :: "'a dt \<Rightarrow> ('a \<Rightarrow> 'b dt) \<Rightarrow> 'b dt" where
  "bindD f g = bindE f (\<lambda>r. case r of Inl e \<Rightarrow> Inr (Inl e) | Inr x \<Rightarrow> g x)"

definition returnD :: "'a \<Rightarrow> 'a dt" where "returnD x = Inr (Inr x)"

definition errorD :: "int \<Rightarrow> 'a dt" where "errorD e = Inr (Inl e)"

definition propD :: "fdt_lib \<Rightarrow> int \<Rightarrow> string \<Rightarrow> u8 list dt" where
  "propD F node nm = Inr (get_property F node nm)"

text \<open>
  \<open>fdt32_to_cpu\<close> of the \<open>i\<close>-th cell of a property, which is big-endian; a read behind its data is one
  out of bounds.
\<close>

definition fdt32_to_cpu :: "u8 \<Rightarrow> u8 \<Rightarrow> u8 \<Rightarrow> u8 \<Rightarrow> u32" where
  "fdt32_to_cpu a b c d = push_bit 24 (ucast a) OR push_bit 16 (ucast b) OR push_bit 8 (ucast c) OR ucast d"

definition cell :: "u8 list \<Rightarrow> nat \<Rightarrow> err + u32" where
  "cell d i =
     (if 4 * i + 4 \<le> length d
      then Inr (fdt32_to_cpu (d ! (4 * i)) (d ! (4 * i + 1)) (d ! (4 * i + 2)) (d ! (4 * i + 3)))
      else Inl Out_of_bounds)"

definition cellD :: "u8 list \<Rightarrow> nat \<Rightarrow> u32 dt" where
  "cellD d i = bindE (cell d i) returnD"

section \<open>Cells and registers\<close>

definition dt_available :: "fdt_lib \<Rightarrow> bool" where
  "dt_available F \<longleftrightarrow> check_header F = 0"

definition dt_get_nr_cells :: "fdt_lib \<Rightarrow> int \<Rightarrow> (u32 \<times> u32) dt" where
  "dt_get_nr_cells F node =
     bindD (propD F node ''#address-cells'') (\<lambda>d. bindD (cellD d 0) (\<lambda>nac.
     bindD (propD F node ''#size-cells'') (\<lambda>d. bindD (cellD d 0) (\<lambda>nsc. returnD (nac, nsc)))))"

definition MAX_CELLS :: nat where "MAX_CELLS = 4"

record dt_reg =
  nr_address_cells :: u32
  nr_size_cells :: u32
  address_cells :: "u32 list"
  size_cells :: "u32 list"

definition dt_reg_init :: "u32 \<Rightarrow> u32 \<Rightarrow> dt_reg" where
  "dt_reg_init nac nsc = \<lparr>nr_address_cells = nac, nr_size_cells = nsc,
     address_cells = replicate MAX_CELLS 0, size_cells = replicate MAX_CELLS 0\<rparr>"

text \<open>The loops that copy cells; nothing checks their number against the size of the array.\<close>

function store_cells :: "u8 list \<Rightarrow> u32 \<Rightarrow> nat \<Rightarrow> nat \<Rightarrow> u32 list \<Rightarrow> err + u32 list" where
  "store_cells d regidx i n dst =
     (if i < n then
        if i < MAX_CELLS
        then bindE (cell d (unat (regidx + of_nat i))) (\<lambda>v. store_cells d regidx (i + 1) n (dst[i := v]))
        else Inl Out_of_bounds
      else Inr dst)"
  by auto
termination by (relation "measure (\<lambda>(d, r, i, n, dst). MAX_CELLS - i)") auto

declare store_cells.simps [simp del]

text \<open>\<open>regidx\<close> is multiplied and compared as an \<open>unsigned\<close>, since the number of cells is one.\<close>

definition dt_get_reg :: "fdt_lib \<Rightarrow> int \<Rightarrow> nat \<Rightarrow> dt_reg \<Rightarrow> dt_reg dt" where
  "dt_get_reg F node n reg =
     bindD (propD F node ''reg'') (\<lambda>d.
     let nr_tuple_cells = nr_address_cells reg + nr_size_cells reg;
         regidx = of_nat n * nr_tuple_cells
     in if unat (regidx + nr_tuple_cells) > length d div 4 then errorD (- FDT_ERR_NOTFOUND)
        else
          bindE (store_cells d regidx 0 (unat (nr_address_cells reg)) (address_cells reg)) (\<lambda>as.
          let regidx = regidx + nr_address_cells reg
          in bindE (store_cells d regidx 0 (unat (nr_size_cells reg)) (size_cells reg)) (\<lambda>ss.
             returnD (reg\<lparr>address_cells := as, size_cells := ss\<rparr>))))"

record dt_pbus_reg =
  pbus_addr :: u64
  pbus_size :: u64

definition dt_pbus_read_cells :: "u32 \<Rightarrow> u32 list \<Rightarrow> u64" where
  "dt_pbus_read_cells nr_cells cs =
     (if nr_cells = 1 then ucast (cs ! 0)
      else if nr_cells = 2 then push_bit 32 (ucast (cs ! 0)) OR ucast (cs ! 1)
      else NOT 0)"

definition dt_pbus_translate_node :: "fdt_lib \<Rightarrow> int \<Rightarrow> nat \<Rightarrow> dt_pbus_reg dt" where
  "dt_pbus_translate_node F node regidx =
     (let parent = parent_offset F node
      in if parent < 0 then errorD parent
         else
           bindD (dt_get_nr_cells F parent) (\<lambda>(nac, nsc).
           bindD (dt_get_reg F node regidx (dt_reg_init nac nsc)) (\<lambda>raw.
           returnD \<lparr>pbus_addr = dt_pbus_read_cells (nr_address_cells raw) (address_cells raw),
                    pbus_size = dt_pbus_read_cells (nr_size_cells raw) (size_cells raw)\<rparr>)))"

section \<open>Finding nodes\<close>

text \<open>A device is its node here; the other fields of \<open>struct dt_device\<close> are in the function that matches it.\<close>

definition dt_pbus_translate :: "fdt_lib \<Rightarrow> int \<Rightarrow> nat \<Rightarrow> dt_pbus_reg dt" where
  "dt_pbus_translate F fdtnode regidx = dt_pbus_translate_node F fdtnode regidx"

definition dt_pbus_get_base :: "fdt_lib \<Rightarrow> int \<Rightarrow> dt_pbus_reg dt" where
  "dt_pbus_get_base F fdtnode = dt_pbus_translate F fdtnode 0"

definition dt_bus_match_any :: "int \<Rightarrow> ('s, int) io" where
  "dt_bus_match_any fdtnode = returnS (if fdtnode < 0 then fdtnode else 1)"

partial_function (option) find_compatible_loop ::
    "fdt_lib \<Rightarrow> string \<Rightarrow> (int \<Rightarrow> ('s, int) io) \<Rightarrow> int \<Rightarrow> 's \<Rightarrow> (err + (int \<times> 's)) option" where
  "find_compatible_loop F compatible match node s =
     (if 0 \<le> node then
        case match node s of
          Inl e \<Rightarrow> Some (Inl e)
        | Inr (ret, s') \<Rightarrow>
            if ret < 0 then Some (Inr (ret, s'))
            else if ret \<noteq> 0 then Some (Inr (node, s'))
            else find_compatible_loop F compatible match (node_by_compatible F node compatible) s'
      else Some (Inr (node, s)))"

definition dt_device_find_compatible :: "fdt_lib \<Rightarrow> (int \<Rightarrow> ('s, int) io) \<Rightarrow> string \<Rightarrow> ('s, int) io" where
  "dt_device_find_compatible F match compatible s =
     bindE (loopE (find_compatible_loop F compatible match (node_by_compatible F (- 1) compatible) s)) (\<lambda>r. r)"

definition dt_pbus_get_base_compatible :: "fdt_lib \<Rightarrow> string \<Rightarrow> dt_pbus_reg dt" where
  "dt_pbus_get_base_compatible F compatible =
     bindE (dt_device_find_compatible F dt_bus_match_any compatible ()) (\<lambda>(node, _).
     if node < 0 then errorD node else dt_pbus_get_base F node)"

section \<open>Memory, processors, boot arguments\<close>

text \<open>The inner loop of \<open>dt_get_memory_params\<close>: \<open>regs\<close> are the entries stored so far.\<close>

function node_regs_loop :: "fdt_lib \<Rightarrow> int \<Rightarrow> nat \<Rightarrow> nat \<Rightarrow> dt_pbus_reg list \<Rightarrow> dt_pbus_reg list dt" where
  "node_regs_loop F node nr_regs reg_idx regs =
     (if length regs < nr_regs then
        case dt_pbus_translate_node F node reg_idx of
          Inl e \<Rightarrow> Inl e
        | Inr (Inl e) \<Rightarrow> if e = - FDT_ERR_NOTFOUND then returnD regs else errorD e
        | Inr (Inr reg) \<Rightarrow> node_regs_loop F node nr_regs (reg_idx + 1) (regs @ [reg])
      else returnD regs)"
  by auto
termination by (relation "measure (\<lambda>(F, node, nr_regs, reg_idx, regs). nr_regs - length regs)") auto

declare node_regs_loop.simps [simp del]

definition memory_string :: "u8 list" where
  "memory_string = [109, 101, 109, 111, 114, 121, 0]"

partial_function (option) memory_loop ::
    "fdt_lib \<Rightarrow> nat \<Rightarrow> int \<Rightarrow> dt_pbus_reg list \<Rightarrow> (err + (int + int \<times> dt_pbus_reg list)) option" where
  "memory_loop F nr_regs node regs =
     (if 0 \<le> node then
        case node_regs_loop F node nr_regs 0 regs of
          Inl e \<Rightarrow> Some (Inl e)
        | Inr (Inl e) \<Rightarrow> Some (Inr (Inl e))
        | Inr (Inr regs') \<Rightarrow> memory_loop F nr_regs (node_by_prop_value F node ''device_type'' memory_string) regs'
      else Some (Inr (Inr (node, regs))))"

text \<open>The result is the regions; their number is their length.\<close>

definition dt_get_memory_params :: "fdt_lib \<Rightarrow> nat \<Rightarrow> dt_pbus_reg list dt" where
  "dt_get_memory_params F nr_regs =
     bindD (bindE (loopE (memory_loop F nr_regs (node_by_prop_value F (- 1) ''device_type'' memory_string) [])) (\<lambda>r. r))
       (\<lambda>(node, regs). if node \<noteq> - FDT_ERR_NOTFOUND then errorD node else returnD regs)"

text \<open>\<open>strcmp\<close> of the property with \<open>cpu\<close>: four bytes, so that with the NUL both are strings of that length.\<close>

definition is_cpu :: "u8 list \<Rightarrow> bool" where
  "is_cpu d \<longleftrightarrow> length d = 4 \<and> d = [99, 112, 117, 0]"

text \<open>
  The loop over the subnodes of \<open>/cpus\<close>; \<open>func\<close> is what is called for a processor. The macro goes on until the library answers
  that there is none.
\<close>

partial_function (option) cpu_loop ::
    "fdt_lib \<Rightarrow> u32 \<Rightarrow> (int \<Rightarrow> u64 \<Rightarrow> ('s, unit) io) \<Rightarrow> int \<Rightarrow> dt_reg \<Rightarrow> 's \<Rightarrow> (err + (int \<times> 's)) option" where
  "cpu_loop F nac func node raw s =
     (if node \<noteq> - FDT_ERR_NOTFOUND then
        case get_property F node ''device_type'' of
          Inl e \<Rightarrow> Some (Inr (e, s))
        | Inr d \<Rightarrow>
            if \<not> is_cpu d then cpu_loop F nac func (next_subnode F node) raw s
            else
              case dt_get_reg F node 0 raw of
                Inl e \<Rightarrow> Some (Inl e)
              | Inr (Inl e) \<Rightarrow> Some (Inr (e, s))
              | Inr (Inr raw) \<Rightarrow>
                  case func node
                    (if nac = 2 then push_bit 32 (ucast (address_cells raw ! 0)) OR ucast (address_cells raw ! 1)
                     else ucast (address_cells raw ! 0)) s of
                    Inl e \<Rightarrow> Some (Inl e)
                  | Inr (_, s') \<Rightarrow> cpu_loop F nac func (next_subnode F node) raw s'
      else Some (Inr (0, s)))"

definition dt_for_each_cpu_node :: "fdt_lib \<Rightarrow> (int \<Rightarrow> u64 \<Rightarrow> ('s, unit) io) \<Rightarrow> ('s, int) io" where
  "dt_for_each_cpu_node F func s =
     (let cpus = path_offset F ''/cpus''
      in if cpus < 0 then Inr (cpus, s)
         else bindE (dt_get_nr_cells F cpus) (\<lambda>r.
           case r of
             Inl e \<Rightarrow> Inr (e, s)
           | Inr (nac, nsc) \<Rightarrow>
               bindE (loopE (cpu_loop F nac func (first_subnode F cpus) (dt_reg_init nac nsc) s)) (\<lambda>r. r)))"

text \<open>The property itself stands for the pointer to it.\<close>

definition chosen_prop :: "fdt_lib \<Rightarrow> string \<Rightarrow> u8 list dt" where
  "chosen_prop F nm = (let node = path_offset F ''/chosen'' in if node < 0 then errorD node else propD F node nm)"

definition dt_get_bootargs :: "fdt_lib \<Rightarrow> u8 list dt" where
  "dt_get_bootargs F = chosen_prop F ''bootargs''"

definition string_of :: "u8 list \<Rightarrow> string" where
  "string_of d = map (\<lambda>b. char_of (unat b)) (takeWhile (\<lambda>b. b \<noteq> 0) d)"

definition dt_get_default_console_node :: "fdt_lib \<Rightarrow> int dt" where
  "dt_get_default_console_node F =
     (let node = path_offset F ''/chosen''
      in if node < 0 then errorD node
         else case get_property F node ''stdout-path'' of
                Inr d \<Rightarrow> returnD (path_offset F (string_of d))
              | Inl _ \<Rightarrow> bindD (propD F node ''linux,stdout-path'') (\<lambda>d. returnD (path_offset F (string_of d))))"

text \<open>The result is the start of the initrd and its size.\<close>

definition dt_get_initrd :: "fdt_lib \<Rightarrow> (u64 \<times> u32) dt" where
  "dt_get_initrd F =
     (let node = path_offset F ''/chosen''
      in if node < 0 then errorD node
         else
           bindD (propD F node ''linux,initrd-start'') (\<lambda>d. bindD (cellD d 0) (\<lambda>start.
           case get_property F node ''linux,initrd-end'' of
             Inl len \<Rightarrow> bindE (assertE (len \<noteq> - FDT_ERR_NOTFOUND)) (\<lambda>_. errorD len)
           | Inr d \<Rightarrow> bindD (cellD d 0) (\<lambda>stop. returnD (ucast start, ucast (ucast stop - ucast start :: u64))))))"

definition dt_init :: "fdt_lib \<Rightarrow> int" where
  "dt_init F = (if check_header F < 0 then check_header F
                else if path_offset F ''/'' < 0 then path_offset F ''/'' else 0)"

section \<open>Well-formed registers\<close>

text \<open>How a number is written in one or two cells, and a list of regions in a \<open>reg\<close> property.\<close>

definition be32 :: "u32 \<Rightarrow> u8 list" where
  "be32 w = [ucast (drop_bit 24 w), ucast (drop_bit 16 w), ucast (drop_bit 8 w), ucast w]"

definition cells_of :: "u32 \<Rightarrow> u64 \<Rightarrow> u32 list" where
  "cells_of n v = (if n = 1 then [ucast v] else [ucast (drop_bit 32 v), ucast v])"

definition reg_cells :: "u32 \<Rightarrow> u32 \<Rightarrow> dt_pbus_reg list \<Rightarrow> u32 list" where
  "reg_cells nac nsc rs = concat (map (\<lambda>r. cells_of nac (pbus_addr r) @ cells_of nsc (pbus_size r)) rs)"

definition encode_cells :: "u32 list \<Rightarrow> u8 list" where
  "encode_cells cs = concat (map be32 cs)"

lemma fdt32_be32: "fdt32_to_cpu (ucast (drop_bit 24 w)) (ucast (drop_bit 16 w)) (ucast (drop_bit 8 w)) (ucast w) = w"
proof (rule bit_word_eqI)
  fix i assume "i < LENGTH(32)"
  then show "bit (fdt32_to_cpu (ucast (drop_bit 24 w)) (ucast (drop_bit 16 w)) (ucast (drop_bit 8 w)) (ucast w)) i = bit w i"
    unfolding fdt32_to_cpu_def by (cases "i < 8"; cases "i < 16"; cases "i < 24") (auto simp: bit_simps)
qed

lemma length_encode [simp]: "length (encode_cells cs) = 4 * length cs"
  by (induction cs) (auto simp: encode_cells_def be32_def)

lemma encode_nth:
  assumes "i < length cs" "j < 4"
  shows "encode_cells cs ! (4 * i + j) = be32 (cs ! i) ! j"
  using assms
proof (induction cs arbitrary: i)
  case (Cons c cs)
  have l: "length (be32 c) = 4" by (simp add: be32_def)
  show ?case
  proof (cases i)
    case 0
    then show ?thesis using Cons.prems l by (simp add: encode_cells_def nth_append)
  next
    case (Suc k)
    then have "encode_cells (c # cs) ! (4 * i + j) = encode_cells cs ! (4 * k + j)"
      using l by (simp add: encode_cells_def nth_append)
    then show ?thesis using Cons Suc by simp
  qed
qed simp

lemma cell_encode: "i < length cs \<Longrightarrow> cell (encode_cells cs) i = Inr (cs ! i)"
  using encode_nth [of i cs 0] encode_nth [of i cs 1] encode_nth [of i cs 2] encode_nth [of i cs 3]
  by (simp add: cell_def be32_def fdt32_be32)

text \<open>The loop copies the cells, if they are there and fit.\<close>

lemma store_cells_copies:
  assumes "n \<le> MAX_CELLS" "length dst = MAX_CELLS" "unat idx + n \<le> length cs" "length cs < 2 ^ 32" "i \<le> n"
  shows "store_cells (encode_cells cs) idx i n dst = Inr (take i dst @ take (n - i) (drop (unat idx + i) cs) @ drop n dst)"
  using assms
proof (induction "n - i" arbitrary: i dst)
  case 0
  then show ?case by (subst store_cells.simps) simp
next
  case (Suc k)
  then have i: "i < n" "i < length dst" "unat idx + i < length cs" by auto
  have u: "unat (idx + of_nat i) = unat idx + i"
  proof -
    have "unat (of_nat i :: u32) = i" using i(3) Suc.prems(4) by (simp add: unat_of_nat take_bit_nat_eq_self)
    moreover have "unat idx + i < 2 ^ 32" using i(3) Suc.prems(4) by simp
    ultimately show ?thesis by (subst unat_word_ariths) simp
  qed
  let ?dst = "dst[i := cs ! (unat idx + i)]"
  have IH: "store_cells (encode_cells cs) idx (i + 1) n ?dst
      = Inr (take (i + 1) ?dst @ take (n - (i + 1)) (drop (unat idx + (i + 1)) cs) @ drop n ?dst)"
    using Suc.prems Suc.hyps(2) i by (intro Suc.hyps(1)) auto
  have "take (i + 1) ?dst = take i dst @ [cs ! (unat idx + i)]" using i(2) by (simp add: take_Suc_conv_app_nth)
  moreover have "take (n - i) (drop (unat idx + i) cs) = cs ! (unat idx + i) # take (n - (i + 1)) (drop (unat idx + (i + 1)) cs)"
    using i Suc_diff_Suc [of i n] by (metis Cons_nth_drop_Suc Suc_eq_plus1 add_Suc_right take_Suc_Cons)
  moreover have "drop n ?dst = drop n dst" using i(1) by simp
  ultimately show ?case
    using i Suc.prems(1,2) IH by (subst store_cells.simps) (simp add: u cell_encode)
qed

definition cells_ok :: "u32 \<Rightarrow> bool" where "cells_ok n \<longleftrightarrow> n = 1 \<or> n = 2"

lemma length_cells_of [simp]: "cells_ok n \<Longrightarrow> length (cells_of n v) = unat n"
  by (auto simp: cells_ok_def cells_of_def)

lemma length_reg_cells [simp]:
  "\<lbrakk>cells_ok nac; cells_ok nsc\<rbrakk> \<Longrightarrow> length (reg_cells nac nsc rs) = (unat nac + unat nsc) * length rs"
  by (induction rs) (auto simp: reg_cells_def)

lemma drop_reg_cells:
  "\<lbrakk>cells_ok nac; cells_ok nsc; n \<le> length rs\<rbrakk> \<Longrightarrow>
     drop ((unat nac + unat nsc) * n) (reg_cells nac nsc rs) = reg_cells nac nsc (drop n rs)"
proof (induction n arbitrary: rs)
  case (Suc n)
  then obtain r rs' where rs: "rs = r # rs'" by (cases rs) auto
  then show ?case using Suc by (simp add: reg_cells_def)
qed simp

text \<open>Two cells hold any number, one cell a number of 32 bits.\<close>

lemma read_cells_of:
  assumes "cells_ok n" "n = 1 \<longrightarrow> v < 2 ^ 32"
  shows "dt_pbus_read_cells n (cells_of n v @ ys) = v"
proof (cases "n = 1")
  case True
  have "unat v < 2 ^ 32" using assms(2) True by (simp add: word_less_nat_alt)
  then have "unat (ucast (ucast v :: u32) :: u64) = unat v"
    by (simp only: unsigned_ucast_eq len_words) (simp add: unsigned_take_bit_eq take_bit_nat_eq_self)
  then have "(ucast (ucast v :: u32) :: u64) = v" by (simp only: word_unat_eq_iff)
  then show ?thesis using True by (simp add: dt_pbus_read_cells_def cells_of_def)
next
  case False
  have "push_bit 32 (ucast (ucast (drop_bit 32 v) :: u32)) OR ucast (ucast v :: u32) = (v :: u64)"
    by (rule bit_word_eqI) (auto simp: bit_simps)
  then show ?thesis using False assms(1) by (auto simp: dt_pbus_read_cells_def cells_of_def cells_ok_def)
qed

text \<open>A node whose parent says how many cells a number has, with the regions \<open>rs\<close> in its \<open>reg\<close> property.\<close>

definition node_regs :: "fdt_lib \<Rightarrow> int \<Rightarrow> dt_pbus_reg list \<Rightarrow> bool" where
  "node_regs F node rs \<longleftrightarrow>
     (\<exists>nac nsc. cells_ok nac \<and> cells_ok nsc \<and> 0 \<le> parent_offset F node \<and>
        get_property F (parent_offset F node) ''#address-cells'' = Inr (be32 nac) \<and>
        get_property F (parent_offset F node) ''#size-cells'' = Inr (be32 nsc) \<and>
        get_property F node ''reg'' = Inr (encode_cells (reg_cells nac nsc rs)) \<and>
        (\<forall>r \<in> set rs. (nac = 1 \<longrightarrow> pbus_addr r < 2 ^ 32) \<and> (nsc = 1 \<longrightarrow> pbus_size r < 2 ^ 32)) \<and> length rs < 2 ^ 29)"

lemma cell_be32: "cell (be32 w) 0 = Inr w"
  using cell_encode [of 0 "[w]"] by (simp add: encode_cells_def)

lemma translate_node_decodes:
  assumes "node_regs F node rs" "n \<le> length rs"
  shows "dt_pbus_translate_node F node n = (if n < length rs then returnD (rs ! n) else errorD (- FDT_ERR_NOTFOUND))"
proof -
  obtain nac nsc where c: "cells_ok nac" "cells_ok nsc" "0 \<le> parent_offset F node"
    "get_property F (parent_offset F node) ''#address-cells'' = Inr (be32 nac)"
    "get_property F (parent_offset F node) ''#size-cells'' = Inr (be32 nsc)"
    and reg: "get_property F node ''reg'' = Inr (encode_cells (reg_cells nac nsc rs))"
    and fit: "\<And>r. r \<in> set rs \<Longrightarrow> (nac = 1 \<longrightarrow> pbus_addr r < 2 ^ 32) \<and> (nsc = 1 \<longrightarrow> pbus_size r < 2 ^ 32)"
    and len: "length rs < 2 ^ 29"
    using assms(1) unfolding node_regs_def by blast
  let ?t = "unat nac + unat nsc" and ?cs = "reg_cells nac nsc rs"
  have t: "0 < ?t" "?t \<le> 4" "unat nac \<le> MAX_CELLS" "unat nsc \<le> MAX_CELLS"
    using c(1,2) by (auto simp: cells_ok_def MAX_CELLS_def)
  have ut: "unat (nac + nsc) = ?t" using c(1,2) by (auto simp: cells_ok_def)
  have small: "?t * m < 2 ^ 32" if "m < 2 ^ 29 + 1" for m
  proof -
    have "?t * m \<le> 4 * 2 ^ 29" using t(2) that by (intro mult_le_mono) auto
    then show ?thesis by simp
  qed
  have cl: "length ?cs < 2 ^ 32" using c(1,2) small [of "length rs"] len by simp
  have idx: "unat (of_nat m * (nac + nsc) :: u32) = ?t * m" if "m < 2 ^ 29 + 1" for m
  proof -
    have "unat (of_nat m :: u32) = m" using that by (simp add: unat_of_nat take_bit_nat_eq_self)
    then show ?thesis using small [OF that] by (simp only: unat_word_ariths(2) ut) (simp add: mult.commute)
  qed
  let ?idx = "of_nat n * (nac + nsc) :: u32"
  have n: "n < 2 ^ 29" using assms(2) len by simp
  have next_idx: "unat (?idx + (nac + nsc)) = ?t * (n + 1)"
    using idx [of "n + 1"] n by (simp add: distrib_right add.commute)
  have nr: "dt_get_nr_cells F (parent_offset F node) = returnD (nac, nsc)"
    by (simp add: dt_get_nr_cells_def bindD_def propD_def cellD_def c cell_be32 returnD_def)
  show ?thesis
  proof (cases "n < length rs")
    case False
    then have "length ?cs < ?t * (n + 1)" using c(1,2) assms(2) t(1) by simp
    then have "dt_get_reg F node n (dt_reg_init nac nsc) = errorD (- FDT_ERR_NOTFOUND)"
      by (simp add: dt_get_reg_def propD_def bindD_def reg dt_reg_init_def Let_def next_idx)
    then show ?thesis using False c(3) nr by (simp add: dt_pbus_translate_node_def bindD_def returnD_def errorD_def)
  next
    case True
    have le: "?t * (n + 1) \<le> length ?cs"
      using True mult_le_mono2 [of "n + 1" "length rs" ?t] by (simp only: length_reg_cells [OF c(1,2)])
    obtain xs where dr: "drop (?t * n) ?cs = cells_of nac (pbus_addr (rs ! n)) @ cells_of nsc (pbus_size (rs ! n)) @ xs"
      using drop_reg_cells [OF c(1,2), of n rs] assms(2) True by (simp add: Cons_nth_drop_Suc [symmetric] reg_cells_def)
    have i2: "unat (?idx + nac) = ?t * n + unat nac"
    proof -
      have "?t * n + unat nac < 2 ^ 32" using small [of "n + 1"] n by simp
      then show ?thesis using idx [of n] n by (subst unat_word_ariths) simp
    qed
    have "store_cells (encode_cells ?cs) ?idx 0 (unat nac) (replicate MAX_CELLS 0)
        = Inr (cells_of nac (pbus_addr (rs ! n)) @ replicate (MAX_CELLS - unat nac) 0)"
      using store_cells_copies [of "unat nac" "replicate MAX_CELLS 0" ?idx ?cs 0] t le cl idx [of n] n c(1) dr by simp
    moreover have "store_cells (encode_cells ?cs) (?idx + nac) 0 (unat nsc) (replicate MAX_CELLS 0)
        = Inr (cells_of nsc (pbus_size (rs ! n)) @ replicate (MAX_CELLS - unat nsc) 0)"
    proof -
      have "drop (?t * n + unat nac) ?cs = cells_of nsc (pbus_size (rs ! n)) @ xs"
        using dr c(1) by (simp add: drop_drop [symmetric] add.commute)
      then show ?thesis
        using store_cells_copies [of "unat nsc" "replicate MAX_CELLS 0" "?idx + nac" ?cs 0] t le cl i2 c(2) by simp
    qed
    ultimately have "dt_get_reg F node n (dt_reg_init nac nsc) = returnD ((dt_reg_init nac nsc)
        \<lparr>address_cells := cells_of nac (pbus_addr (rs ! n)) @ replicate (MAX_CELLS - unat nac) 0,
         size_cells := cells_of nsc (pbus_size (rs ! n)) @ replicate (MAX_CELLS - unat nsc) 0\<rparr>)"
      using le by (simp add: dt_get_reg_def propD_def bindD_def reg dt_reg_init_def Let_def next_idx)
    moreover have "dt_pbus_read_cells nac (cells_of nac (pbus_addr (rs ! n)) @ ys) = pbus_addr (rs ! n)"
      "dt_pbus_read_cells nsc (cells_of nsc (pbus_size (rs ! n)) @ ys) = pbus_size (rs ! n)" for ys
      using fit [of "rs ! n"] True c(1,2) by (auto intro: read_cells_of)
    ultimately show ?thesis using True c(3) nr
      by (simp add: dt_pbus_translate_node_def bindD_def returnD_def dt_reg_init_def)
  qed
qed

text \<open>
  C25: \<open>dt_pbus_translate_node\<close> reads back the regions that are encoded in the \<open>reg\<close> property of a node, with one or
  two cells for addresses and for sizes, and answers that there is no region behind the last one.
\<close>

theorem dt_pbus_translate_node_decodes:
  assumes "node_regs F node rs" "n \<le> length rs"
  shows "dt_pbus_translate_node F node n = (if n < length rs then returnD (rs ! n) else errorD (- FDT_ERR_NOTFOUND))"
  using assms by (rule translate_node_decodes)

text \<open>A tree with one node for the memory, below a root with two cells for addresses and one for sizes.\<close>

definition sample_regs :: "dt_pbus_reg list" where
  "sample_regs = [\<lparr>pbus_addr = 0x140000000, pbus_size = 0x1000\<rparr>, \<lparr>pbus_addr = 0x80000000, pbus_size = 0x200000\<rparr>]"

definition sample_tree :: fdt_lib where
  "sample_tree = \<lparr>check_header = 0, path_offset = (\<lambda>_. 0),
     get_property = (\<lambda>node nm.
       if node = 0 \<and> nm = ''#address-cells'' then Inr (be32 2)
       else if node = 0 \<and> nm = ''#size-cells'' then Inr (be32 1)
       else if node = 8 \<and> nm = ''reg'' then Inr (encode_cells (reg_cells 2 1 sample_regs))
       else Inl (- FDT_ERR_NOTFOUND)),
     parent_offset = (\<lambda>_. 0), node_by_compatible = (\<lambda>_ _. - FDT_ERR_NOTFOUND),
     node_by_prop_value = (\<lambda>node _ _. if node < 8 then 8 else - FDT_ERR_NOTFOUND),
     first_subnode = (\<lambda>_. - FDT_ERR_NOTFOUND), next_subnode = (\<lambda>_. - FDT_ERR_NOTFOUND)\<rparr>"

lemma sample_node: "node_regs sample_tree 8 sample_regs"
  unfolding node_regs_def
  by (rule exI [of _ 2], rule exI [of _ 1]) (simp add: sample_tree_def cells_ok_def sample_regs_def)

lemma dt_pbus_translate_node_decodes_witness:
  "dt_pbus_translate_node sample_tree 8 1 = returnD \<lparr>pbus_addr = 0x80000000, pbus_size = 0x200000\<rparr>"
  using dt_pbus_translate_node_decodes [OF sample_node, of 1] by (simp add: sample_regs_def)

section \<open>The memory\<close>

lemma node_regs_loop_takes:
  assumes "node_regs F node rs" "n \<le> length rs" "length regs \<le> nr"
  shows "node_regs_loop F node nr n regs = returnD (take nr (regs @ drop n rs))"
  using assms(2,3)
proof (induction "length rs - n" arbitrary: n regs)
  case 0
  then show ?case
    by (subst node_regs_loop.simps)
      (auto simp: translate_node_decodes [OF assms(1)] errorD_def returnD_def)
next
  case (Suc k)
  then have n: "n < length rs" by simp
  show ?case
  proof (cases "length regs < nr")
    case True
    have "node_regs_loop F node nr (n + 1) (regs @ [rs ! n]) = returnD (take nr ((regs @ [rs ! n]) @ drop (n + 1) rs))"
      using Suc n True by (intro Suc.hyps(1)) auto
    then show ?thesis using True n
      by (subst node_regs_loop.simps)
        (simp add: translate_node_decodes [OF assms(1)] returnD_def Cons_nth_drop_Suc)
  next
    case False
    then show ?thesis using Suc.prems by (subst node_regs_loop.simps) simp
  qed
qed

text \<open>
  The memory nodes of a tree, in the order the library finds them, each with its regions.
\<close>

inductive memory_nodes :: "fdt_lib \<Rightarrow> int \<Rightarrow> dt_pbus_reg list list \<Rightarrow> bool" for F where
  no_more: "node_by_prop_value F node ''device_type'' memory_string = - FDT_ERR_NOTFOUND \<Longrightarrow> memory_nodes F node []"
| one_more: "\<lbrakk>node_by_prop_value F node ''device_type'' memory_string = node'; 0 \<le> node'; node_regs F node' rs;
     memory_nodes F node' rss\<rbrakk> \<Longrightarrow> memory_nodes F node (rs # rss)"

lemma memory_loop_takes:
  assumes "memory_nodes F node rss" "length regs \<le> nr"
  shows "memory_loop F nr (node_by_prop_value F node ''device_type'' memory_string) regs
    = Some (Inr (Inr (- FDT_ERR_NOTFOUND, take nr (regs @ concat rss))))"
  using assms
proof (induction arbitrary: regs rule: memory_nodes.induct)
  case (no_more node)
  then show ?case by (subst memory_loop.simps) (simp add: FDT_ERR_NOTFOUND_def)
next
  case (one_more node node' rs rss)
  have "node_regs_loop F node' nr 0 regs = returnD (take nr (regs @ rs))"
    using node_regs_loop_takes [OF one_more(3), of 0 regs nr] one_more(6) by simp
  moreover have "take nr (take nr (regs @ rs) @ concat rss) = take nr (regs @ rs @ concat rss)" by (simp add: min_def)
  ultimately show ?case
    using one_more(1,2) one_more.IH [of "take nr (regs @ rs)"]
    by (subst memory_loop.simps) (simp add: returnD_def)
qed



section \<open>Missing checks\<close>

text \<open>A parent that asks for more than four cells makes \<open>dt_get_reg\<close> store behind the array.\<close>

lemma store_cells_overflows:
  assumes "MAX_CELLS < n" "unat idx + n \<le> length cs" "length cs < 2 ^ 32" "length dst = MAX_CELLS" "i \<le> MAX_CELLS"
  shows "store_cells (encode_cells cs) idx i n dst = Inl Out_of_bounds"
  using assms
proof (induction "MAX_CELLS - i" arbitrary: i dst)
  case 0
  then show ?case by (subst store_cells.simps) simp
next
  case (Suc k)
  have u: "unat (idx + of_nat i) < length cs"
  proof -
    have l: "unat idx + i < length cs" using Suc.prems Suc.hyps(2) by simp
    then have "unat (of_nat i :: u32) = i" using Suc.prems(3) by (simp add: unat_of_nat take_bit_nat_eq_self)
    then show ?thesis using l Suc.prems(3) by (subst unat_word_ariths) simp
  qed
  then have "store_cells (encode_cells cs) idx (i + 1) n (dst[i := cs ! unat (idx + of_nat i)]) = Inl Out_of_bounds"
    using Suc by (intro Suc.hyps(1)) auto
  then show ?case using Suc u by (subst store_cells.simps) (simp add: cell_encode)
qed

section \<open>The first node that matches\<close>

text \<open>The nodes with a \<open>compatible\<close> property, in the order of the library, after a node.\<close>

inductive compatible_nodes :: "fdt_lib \<Rightarrow> string \<Rightarrow> int \<Rightarrow> int list \<Rightarrow> bool" for F nm where
  no_compatible: "node_by_compatible F node nm = - FDT_ERR_NOTFOUND \<Longrightarrow> compatible_nodes F nm node []"
| next_compatible: "\<lbrakk>node_by_compatible F node nm = node'; 0 \<le> node'; compatible_nodes F nm node' ns\<rbrakk>
    \<Longrightarrow> compatible_nodes F nm node (node' # ns)"

text \<open>A test of a node that cannot fail, and the state after the nodes up to the one it accepts.\<close>

definition tests_node :: "(int \<Rightarrow> ('s, int) io) \<Rightarrow> (int \<Rightarrow> 's \<Rightarrow> bool) \<Rightarrow> (int \<Rightarrow> 's \<Rightarrow> 's) \<Rightarrow> int list \<Rightarrow> bool" where
  "tests_node match ok upd ns \<longleftrightarrow> (\<forall>n \<in> set ns. \<forall>s. match n s = Inr (if ok n s then 1 else 0, upd n s))"

primrec first_match :: "(int \<Rightarrow> 's \<Rightarrow> bool) \<Rightarrow> (int \<Rightarrow> 's \<Rightarrow> 's) \<Rightarrow> int list \<Rightarrow> 's \<Rightarrow> int \<times> 's" where
  "first_match ok upd [] s = (- FDT_ERR_NOTFOUND, s)"
| "first_match ok upd (n # ns) s = (if ok n s then (n, upd n s) else first_match ok upd ns (upd n s))"

lemma find_compatible_first:
  assumes "compatible_nodes F nm node ns" "tests_node match ok upd ns"
  shows "find_compatible_loop F nm match (node_by_compatible F node nm) s = Some (Inr (first_match ok upd ns s))"
  using assms
proof (induction arbitrary: s rule: compatible_nodes.induct)
  case (no_compatible node)
  then show ?case by (subst find_compatible_loop.simps) (simp add: FDT_ERR_NOTFOUND_def)
next
  case (next_compatible node node' ns)
  then show ?case by (subst find_compatible_loop.simps) (simp add: tests_node_def)
qed

text \<open>
  \<open>dt_device_find_compatible\<close> tests the compatible nodes in the order of the tree and answers with the first one that the
  bus accepts; the others behind it are not looked at. It answers that there is none if none is accepted, and always returns.
\<close>

theorem dt_device_find_compatible_first:
  assumes "compatible_nodes F nm (- 1) ns" "tests_node match ok upd ns"
  shows "dt_device_find_compatible F match nm s = Inr (first_match ok upd ns s)"
  by (simp add: dt_device_find_compatible_def find_compatible_first [OF assms])

lemma dt_device_find_compatible_first_witness:
  "dt_device_find_compatible (sample_tree\<lparr>node_by_compatible := (\<lambda>node _. if node < 8 then node + 5 else - FDT_ERR_NOTFOUND)\<rparr>)
     (\<lambda>node seen. Inr (if node = 9 then 1 else 0, node # seen)) ''virtio,mmio'' [] = Inr (9, [9, 4])"
proof -
  let ?F = "sample_tree\<lparr>node_by_compatible := (\<lambda>node _. if node < 8 then node + 5 else - FDT_ERR_NOTFOUND)\<rparr>"
  have "compatible_nodes ?F ''virtio,mmio'' (- 1) [4, 9]"
    by (rule next_compatible [of _ _ _ 4], simp, simp, rule next_compatible [of _ _ _ 9], simp, simp, rule no_compatible, simp)
  moreover have "tests_node (\<lambda>node seen. Inr (if node = 9 then 1 else 0, node # seen)) (\<lambda>n _. n = 9) (#) [4, 9]"
    by (simp add: tests_node_def)
  ultimately show ?thesis
    using dt_device_find_compatible_first [of ?F "''virtio,mmio''" "[4, 9]" _ "\<lambda>n _. n = 9" "(#)" "[]"] by simp
qed

end
