(* ===== verification/VirtioBind.thy ===== *)
theory VirtioBind
  imports Virtio DeviceTree
begin

text \<open>
  Finding a virtio device: the device-tree half of \<open>lib/virtio-mmio.c\<close>, and \<open>virtio_bind\<close> of \<open>lib/virtio.c\<close>. \<open>info.base\<close>
  is kept beside the state of the machine while nodes are matched.
\<close>

definition match_node ::
    "'d machine \<Rightarrow> fdt_lib \<Rightarrow> (u64 \<Rightarrow> u64 \<Rightarrow> ('d, u64) io) \<Rightarrow> u32 \<Rightarrow> int \<Rightarrow> (u64 \<times> 'd, int) io" where
  "match_node M F ioremap devid node s =
     bindE (dt_pbus_get_base F node) (\<lambda>r.
     let t = (case r of Inl e \<Rightarrow> (e, 0, 0) | Inr reg \<Rightarrow> (0, pbus_addr reg, pbus_size reg))
     in bindE (vm_dt_match M ioremap devid t (snd s)) (\<lambda>((base, ok), d). Inr (if ok then 1 else 0, (base, d))))"

text \<open>\<open>calloc_ok\<close> is whether \<open>calloc\<close> finds memory for the structure, which is then initialised.\<close>

definition virtio_mmio_dt_bind ::
    "'d machine \<Rightarrow> fdt_lib \<Rightarrow> (u64 \<Rightarrow> u64 \<Rightarrow> ('d, u64) io) \<Rightarrow> bool \<Rightarrow> u32 \<Rightarrow> ('d, virtio_mmio_device option) io" where
  "virtio_mmio_dt_bind M F ioremap calloc_ok devid d =
     (if \<not> dt_available F then Inr (None, d)
      else
        bindE (dt_device_find_compatible F (match_node M F ioremap devid) ''virtio,mmio'' (0, d)) (\<lambda>(node, base, d).
        bindE (assertE (node \<ge> 0 \<or> node = - FDT_ERR_NOTFOUND)) (\<lambda>_.
        if node = - FDT_ERR_NOTFOUND then Inr (None, d)
        else
          bindE (assertE calloc_ok) (\<lambda>_.
          bindE (vm_device_init M base d) (\<lambda>(dev, d). Inr (Some dev, d))))))"

definition virtio_mmio_bind ::
    "'d machine \<Rightarrow> fdt_lib \<Rightarrow> (u64 \<Rightarrow> u64 \<Rightarrow> ('d, u64) io) \<Rightarrow> bool \<Rightarrow> u32 \<Rightarrow> ('d, virtio_mmio_device option) io" where
  "virtio_mmio_bind M F ioremap calloc_ok devid = virtio_mmio_dt_bind M F ioremap calloc_ok devid"

definition virtio_bind ::
    "'d machine \<Rightarrow> fdt_lib \<Rightarrow> (u64 \<Rightarrow> u64 \<Rightarrow> ('d, u64) io) \<Rightarrow> bool \<Rightarrow> u32 \<Rightarrow> ('d, virtio_mmio_device option) io" where
  "virtio_bind M F ioremap calloc_ok devid = virtio_mmio_bind M F ioremap calloc_ok devid"

section \<open>Which device is bound\<close>

text \<open>A machine whose device registers are only read, and mapped where they are.\<close>

definition plain_registers :: "'d machine \<Rightarrow> (u64 \<Rightarrow> u64 \<Rightarrow> ('d, u64) io) \<Rightarrow> (u64 \<Rightarrow> u32) \<Rightarrow> bool" where
  "plain_registers M ioremap reg \<longleftrightarrow> (\<forall>a d. read32 M a d = (reg a, d)) \<and> (\<forall>a sz d. ioremap a sz d = Inr (a, d))"

definition is_device :: "(u64 \<Rightarrow> u32) \<Rightarrow> u32 \<Rightarrow> u64 \<Rightarrow> bool" where
  "is_device reg devid base \<longleftrightarrow> reg (base + VIRTIO_MMIO_MAGIC_VALUE) = 0x74726976 \<and> reg (base + VIRTIO_MMIO_DEVICE_ID) = devid"

lemma match_node_eq:
  assumes "plain_registers M ioremap reg" "node_regs F n [\<lparr>pbus_addr = a, pbus_size = sz\<rparr>]"
  shows "match_node M F ioremap devid n s = Inr (if is_device reg devid a then 1 else 0, (a, snd s))"
proof -
  have "dt_pbus_get_base F n = returnD \<lparr>pbus_addr = a, pbus_size = sz\<rparr>"
    using translate_node_decodes [OF assms(2), of 0] by (simp add: dt_pbus_get_base_def dt_pbus_translate_def)
  then show ?thesis using assms(1)
    by (simp add: match_node_def returnD_def vm_dt_match_def bindS_eval assertS_def inS_def returnS_def is_device_def plain_registers_def)
qed

lemma first_match_find:
  "find P ns = Some n \<Longrightarrow> first_match (\<lambda>n _. P n) (\<lambda>n s. (f n, snd s)) ns (b, d) = (n, f n, d)"
  "find P ns = None \<Longrightarrow> \<exists>b'. first_match (\<lambda>n _. P n) (\<lambda>n s. (f n, snd s)) ns (b, d) = (- FDT_ERR_NOTFOUND, b', d)"
  by (induction ns arbitrary: b) (auto split: if_splits)

lemma compatible_nodes_ge: "compatible_nodes F nm node ns \<Longrightarrow> n \<in> set ns \<Longrightarrow> 0 \<le> n"
  by (induction rule: compatible_nodes.induct) auto

text \<open>
  C27: \<open>virtio_bind\<close> binds the first device of the tree with the magic value and the identification that is asked for, and tells it
  the page size; without one it answers NULL and leaves the machine as it is.
\<close>

theorem virtio_bind_first_device:
  assumes "dt_available F" "compatible_nodes F ''virtio,mmio'' (- 1) ns" "plain_registers M ioremap reg"
    and "\<And>n. n \<in> set ns \<Longrightarrow> node_regs F n [\<lparr>pbus_addr = base n, pbus_size = sz n\<rparr>]"
  shows "virtio_bind M F ioremap True devid d =
    (case find (\<lambda>n. is_device reg devid (base n)) ns of
       None \<Rightarrow> Inr (None, d)
     | Some n \<Rightarrow> Inr (Some \<lparr>id_device = devid, id_vendor = reg (base n + VIRTIO_MMIO_VENDOR_ID), vm_base = base n\<rparr>,
         write32 M (base n + VIRTIO_MMIO_GUEST_PAGE_SIZE) (ucast PAGE_SIZE) d))"
proof -
  let ?P = "\<lambda>n. is_device reg devid (base n)"
  let ?fm = "first_match (\<lambda>n _. ?P n) (\<lambda>n s. (base n, snd s)) ns (0, d)"
  have "tests_node (match_node M F ioremap devid) (\<lambda>n _. ?P n) (\<lambda>n s. (base n, snd s)) ns"
    unfolding tests_node_def using match_node_eq [OF assms(3) assms(4)] by blast
  then have f: "dt_device_find_compatible F (match_node M F ioremap devid) ''virtio,mmio'' (0, d) = Inr ?fm"
    by (simp add: dt_device_find_compatible_def find_compatible_first [OF assms(2)])
  show ?thesis
  proof (cases "find ?P ns")
    case None
    then obtain b where "?fm = (- FDT_ERR_NOTFOUND, b, d)" using first_match_find(2) [of ?P ns base 0 d] by auto
    then show ?thesis using None assms(1) f by (simp add: virtio_bind_def virtio_mmio_bind_def virtio_mmio_dt_bind_def)
  next
    case (Some n)
    then have "?fm = (n, base n, d)" "0 \<le> n" "?P n"
      using first_match_find(1) [of ?P ns n base 0 d] compatible_nodes_ge [OF assms(2)] by (auto simp: find_Some_iff)
    moreover have "vm_device_init M (base n) d = Inr (\<lparr>id_device = devid, id_vendor = reg (base n + VIRTIO_MMIO_VENDOR_ID),
        vm_base = base n\<rparr>, write32 M (base n + VIRTIO_MMIO_GUEST_PAGE_SIZE) (ucast PAGE_SIZE) d)"
      using assms(3) \<open>?P n\<close> by (simp add: vm_device_init_def bindS_eval inS_def outS_def returnS_def plain_registers_def is_device_def)
    ultimately show ?thesis using Some assms(1) f
      by (simp add: virtio_bind_def virtio_mmio_bind_def virtio_mmio_dt_bind_def FDT_ERR_NOTFOUND_def)
  qed
qed

text \<open>A machine of which only the 32-bit registers matter: a block device at address \<open>0x80000000\<close>.\<close>

definition reg_sample :: "u64 \<Rightarrow> u32" where
  "reg_sample a = (if a = 0x140000000 then 0x74726976 else if a = 0x140000008 then 3 else 0)"

definition regs_machine :: "(u64 \<times> u32) list machine" where
  "regs_machine = \<lparr>in8 = (\<lambda>_ d. (0, d)), in16 = (\<lambda>_ d. (0, d)), in32 = (\<lambda>_ d. (0, d)), out8 = (\<lambda>_ _ d. d), out16 = (\<lambda>_ _ d. d),
     out32 = (\<lambda>_ _ d. d), read8 = (\<lambda>_ d. (0, d)), read16 = (\<lambda>_ d. (0, d)), read32 = (\<lambda>a d. (reg_sample a, d)),
     read64 = (\<lambda>_ d. (0, d)), write8 = (\<lambda>_ _ d. d), write16 = (\<lambda>_ _ d. d), write32 = (\<lambda>a v d. d @ [(a, v)]),
     write64 = (\<lambda>_ _ d. d), puts_con = (\<lambda>_ d. d), read_msr = (\<lambda>_ d. (0, d)), write_msr = (\<lambda>_ _ d. d),
     read_cpuid = (\<lambda>_ d. ((0, 0, 0, 0), d)), read_cr8 = (\<lambda>d. (0, d)), write_cr8 = (\<lambda>_ d. d)\<rparr>"

definition device_tree :: fdt_lib where
  "device_tree = sample_tree\<lparr>
     get_property := (\<lambda>node nm. if node = 8 \<and> nm = ''reg'' then Inr (encode_cells (reg_cells 2 1 [\<lparr>pbus_addr = 0x140000000, pbus_size = 0x200\<rparr>]))
       else get_property sample_tree node nm),
     node_by_compatible := (\<lambda>node _. if node < 8 then 8 else - FDT_ERR_NOTFOUND)\<rparr>"

lemma virtio_bind_first_device_witness:
  "virtio_bind regs_machine device_tree (\<lambda>a _ d. Inr (a, d)) True 3 [] =
     Inr (Some \<lparr>id_device = 3, id_vendor = 0, vm_base = 0x140000000\<rparr>, [(0x140000028, 0x1000)])"
proof -
  have "compatible_nodes device_tree ''virtio,mmio'' (- 1) [8]"
    by (rule next_compatible [of _ _ _ 8], simp_all add: device_tree_def, rule no_compatible, simp add: device_tree_def)
  moreover have "plain_registers regs_machine (\<lambda>a _ d. Inr (a, d)) reg_sample" by (simp add: plain_registers_def regs_machine_def)
  moreover have "node_regs device_tree 8 [\<lparr>pbus_addr = 0x140000000, pbus_size = 0x200\<rparr>]"
    unfolding node_regs_def
    by (rule exI [of _ 2], rule exI [of _ 1]) (simp add: device_tree_def sample_tree_def cells_ok_def)
  moreover have "dt_available device_tree" by (simp add: dt_available_def device_tree_def sample_tree_def)
  ultimately show ?thesis
    using virtio_bind_first_device [of device_tree "[8]" regs_machine "\<lambda>a _ d. Inr (a, d)" reg_sample "\<lambda>_. 0x140000000" "\<lambda>_. 0x200" 3 "[]"]
    by (simp add: is_device_def reg_sample_def VIRTIO_MMIO_MAGIC_VALUE_def VIRTIO_MMIO_DEVICE_ID_def VIRTIO_MMIO_VENDOR_ID_def
        VIRTIO_MMIO_GUEST_PAGE_SIZE_def regs_machine_def PAGE_SIZE_def PAGE_SHIFT_def)
qed

end
