(* ===== verification/PciHost.thy ===== *)
theory PciHost
  imports Pci DeviceTree
begin

text \<open>
  The generic PCI host bridge, \<open>lib/pci-host-generic.c\<close>: finding its address windows in the device tree, giving
  the BARs of the devices addresses in them, translating bus addresses, and configuration space mapped in memory (ECAM). With
  this bridge the functions of \<open>Pci\<close> run over \<open>ecam_pci\<close> in place of \<open>x86_pci\<close>.
\<close>

section \<open>The bridge\<close>

record pci_addr_space =
  as_pci_start :: u64
  as_start :: u64
  as_size :: u64
  as_allocated :: u64
  as_type :: u32

record pci_host_bridge =
  hb_start :: u64
  hb_size :: u64
  hb_bus :: u32
  hb_bus_max :: u32
  addr_space :: "pci_addr_space list"

definition PCI_ECAM_BUS_SHIFT :: nat where "PCI_ECAM_BUS_SHIFT = 20"
definition PCI_ECAM_DEVFN_SHIFT :: nat where "PCI_ECAM_DEVFN_SHIFT = 12"
definition PCI_BASE_ADDRESS_SPACE :: u32 where "PCI_BASE_ADDRESS_SPACE = 0x01"
definition PCI_COMMAND_IO :: u32 where "PCI_COMMAND_IO = 0x1"
definition PCI_COMMAND_MEMORY :: u32 where "PCI_COMMAND_MEMORY = 0x2"
definition PCI_COMMAND_PARITY :: u32 where "PCI_COMMAND_PARITY = 0x40"
definition PCI_COMMAND_SERR :: u32 where "PCI_COMMAND_SERR = 0x100"

definition type_map :: "u32 list" where
  "type_map = [0, PCI_BASE_ADDRESS_SPACE_IO, PCI_BASE_ADDRESS_MEM_TYPE_32, PCI_BASE_ADDRESS_MEM_TYPE_64]"

definition of_flags_to_pci_type :: "u32 \<Rightarrow> err + u32" where
  "of_flags_to_pci_type of_flags =
     (let idx = drop_bit 24 of_flags AND 0x03
      in bindE (assertE (idx > 0)) (\<lambda>_.
         let res = type_map ! unat idx
         in Inr (if of_flags AND 0x40000000 \<noteq> 0 then res OR PCI_BASE_ADDRESS_MEM_PREFETCH else res)))"

definition pci_bar_type :: "u32 \<Rightarrow> u32" where
  "pci_bar_type bar =
     (if bar AND PCI_BASE_ADDRESS_SPACE \<noteq> 0 then PCI_BASE_ADDRESS_SPACE_IO
      else bar AND (PCI_BASE_ADDRESS_MEM_TYPE_MASK OR PCI_BASE_ADDRESS_MEM_PREFETCH))"

section \<open>Probing the device tree\<close>

text \<open>A 64-bit number in two cells of a property.\<close>

definition cell2 :: "u8 list \<Rightarrow> nat \<Rightarrow> err + u64" where
  "cell2 d i = bindE (cell d i) (\<lambda>hi. bindE (cell d (i + 1)) (\<lambda>lo. Inr (push_bit 32 (ucast hi) OR ucast lo)))"

text \<open>The body of the loop over the ranges; \<open>i\<close> is the first cell of a range.\<close>

definition read_range :: "u8 list \<Rightarrow> u32 \<Rightarrow> u64 \<Rightarrow> nat \<Rightarrow> err + pci_addr_space" where
  "read_range d nr_range_cells allocated i =
     bindE (cell d i) (\<lambda>flags. bindE (of_flags_to_pci_type flags) (\<lambda>ty.
     bindE (cell2 d (i + 1)) (\<lambda>pci.
     bindE (if nr_range_cells = 6
            then bindE (cell d (i + 3)) (\<lambda>st. bindE (cell2 d (i + 4)) (\<lambda>sz. Inr (ucast st, sz)))
            else bindE (cell2 d (i + 3)) (\<lambda>st. bindE (cell2 d (i + 5)) (\<lambda>sz. Inr (st, sz)))) (\<lambda>(st, sz).
     Inr \<lparr>as_pci_start = pci, as_start = st, as_size = sz, as_allocated = allocated, as_type = ty\<rparr>))))"

primrec read_ranges :: "u8 list \<Rightarrow> u32 \<Rightarrow> (nat \<Rightarrow> u64) \<Rightarrow> nat \<Rightarrow> nat \<Rightarrow> err + pci_addr_space list" where
  "read_ranges d nr_range_cells g 0 i = Inr []"
| "read_ranges d nr_range_cells g (Suc n) i =
     bindE (read_range d nr_range_cells (g (i div unat nr_range_cells)) i) (\<lambda>as.
     bindE (read_ranges d nr_range_cells g n (i + unat nr_range_cells)) (\<lambda>ass. Inr (as # ass)))"

text \<open>A value of the library that must be there.\<close>

definition must :: "'a dt \<Rightarrow> ('d, 'a) io" where
  "must x = bindS (liftS x) (\<lambda>r. case r of Inl e \<Rightarrow> bindS (assertS False) (\<lambda>_ _. Inl Assert_failed) | Inr y \<Rightarrow> returnS y)"

definition bus_range :: "fdt_lib \<Rightarrow> int \<Rightarrow> ('d, u32 \<times> u32) io" where
  "bus_range F node =
     (case get_property F node ''bus-range'' of
        Inl len \<Rightarrow> bindS (assertS (len = - FDT_ERR_NOTFOUND)) (\<lambda>_. returnS (0x00, 0xff))
      | Inr d \<Rightarrow>
          bindS (liftS (cell d 0)) (\<lambda>bus. bindS (liftS (cell d 1)) (\<lambda>bus_max.
          bindS (assertS (bus \<le> bus_max)) (\<lambda>_. returnS (bus, bus_max)))))"

text \<open>
  \<open>heap\<close> is what \<open>malloc\<close> gives: nothing, or memory in which the field \<open>allocated\<close> of the \<open>i\<close>-th window holds
  \<open>g i\<close>. The field is not set.
\<close>

definition pci_dt_probe :: "'d machine \<Rightarrow> fdt_lib \<Rightarrow> (nat \<Rightarrow> u64) option \<Rightarrow> ('d, pci_host_bridge option) io" where
  "pci_dt_probe M F heap =
     (if \<not> dt_available F then bindS (printfS M (''No device tree found'' @ [CHR 0x0A]) []) (\<lambda>_. returnS None)
      else
        let node = path_offset F ''/''
        in bindS (assertS (node \<ge> 0)) (\<lambda>_.
           bindS (must (dt_get_nr_cells F node)) (\<lambda>(nac_root, nsc_root).
           bindS (assertS (nac_root = 1 \<or> nac_root = 2)) (\<lambda>_.
           let node = node_by_compatible F node ''pci-host-ecam-generic''
           in if node = - FDT_ERR_NOTFOUND
              then bindS (printfS M (''No PCIe ECAM compatible controller found'' @ [CHR 0x0A]) []) (\<lambda>_. returnS None)
              else
                bindS (assertS (node \<ge> 0)) (\<lambda>_.
                bindS (must (propD F node ''device_type'')) (\<lambda>dt.
                bindS (assertS (dt = [112, 99, 105, 0])) (\<lambda>_.
                bindS (must (dt_pbus_get_base F node)) (\<lambda>base.
                bindS (bus_range F node) (\<lambda>(bus, bus_max).
                bindS (assertS ((ucast bus_max :: u64) < pbus_size base div 2 ^ PCI_ECAM_BUS_SHIFT)) (\<lambda>_.
                bindS (must (dt_get_nr_cells F node)) (\<lambda>(nac, nsc).
                bindS (assertS (nac = 3 \<and> nsc = 2)) (\<lambda>_.
                bindS (must (propD F node ''ranges'')) (\<lambda>d.
                let nr_range_cells = nac + nsc + nac_root;
                    nr_addr_spaces = length d div 4 div unat nr_range_cells
                in bindS (assertS (nr_addr_spaces \<noteq> 0)) (\<lambda>_.
                   case heap of
                     None \<Rightarrow> bindS (assertS False) (\<lambda>_. returnS None)
                   | Some g \<Rightarrow>
                   bindS (liftS (read_ranges d nr_range_cells g nr_addr_spaces 0)) (\<lambda>ass.
                   returnS (Some \<lparr>hb_start = pbus_addr base, hb_size = pbus_size base, hb_bus = bus, hb_bus_max = bus_max,
                     addr_space = ass\<rparr>))))))))))))))))"

section \<open>Addresses and configuration space\<close>

primrec find_window :: "pci_addr_space list \<Rightarrow> u64 \<Rightarrow> u64" where
  "find_window [] a = PCI_INVALID_PHYS_ADDR"
| "find_window (as # ass) a =
     (if a \<ge> as_pci_start as \<and> a < as_pci_start as + as_size as then as_start as + (a - as_pci_start as)
      else find_window ass a)"

definition pci_host_bridge_get_paddr :: "pci_host_bridge \<Rightarrow> u64 \<Rightarrow> u64" where
  "pci_host_bridge_get_paddr host a = find_window (addr_space host) a"

definition pci_get_dev_conf :: "pci_host_bridge \<Rightarrow> u16 \<Rightarrow> u64" where
  "pci_get_dev_conf host devfn = hb_start host + ucast (push_bit PCI_ECAM_DEVFN_SHIFT (ucast devfn :: u32))"

definition ecam_addr :: "pci_host_bridge \<Rightarrow> u16 \<Rightarrow> u8 \<Rightarrow> u64" where
  "ecam_addr host dev off = pci_get_dev_conf host dev + ucast off"

definition ecam_pci :: "'d machine \<Rightarrow> pci_host_bridge \<Rightarrow> 'd pci_access" where
  "ecam_pci M host = \<lparr>
     pci_config_readb = (\<lambda>dev off. inS (read8 M (ecam_addr host dev off))),
     pci_config_readw = (\<lambda>dev off. inS (read16 M (ecam_addr host dev off))),
     pci_config_readl = (\<lambda>dev off. inS (read32 M (ecam_addr host dev off))),
     pci_config_writeb = (\<lambda>dev off val. outS (write8 M (ecam_addr host dev off) val)),
     pci_config_writew = (\<lambda>dev off val. outS (write16 M (ecam_addr host dev off) val)),
     pci_config_writel = (\<lambda>dev off val. outS (write32 M (ecam_addr host dev off) val)),
     pci_translate_addr = (\<lambda>dev a. pci_host_bridge_get_paddr host a),
     pci_machine = M\<rparr>"

section \<open>Giving addresses to BARs\<close>

text \<open>The index of the first window of a type.\<close>

fun find_type :: "pci_addr_space list \<Rightarrow> u32 \<Rightarrow> nat \<Rightarrow> nat option" where
  "find_type [] ty i = None"
| "find_type (as # ass) ty i = (if as_type as = ty then Some i else find_type ass ty (i + 1))"

definition wanted_type :: "u32 \<Rightarrow> u32" where
  "wanted_type bar =
     (let ty = pci_bar_type bar
      in if ty AND PCI_BASE_ADDRESS_MEM_TYPE_MASK \<noteq> 0 then ty AND NOT PCI_BASE_ADDRESS_MEM_PREFETCH else ty)"

definition take_window :: "pci_addr_space \<Rightarrow> u64 \<Rightarrow> err + (u64 \<times> pci_addr_space)" where
  "take_window as sz =
     (let pci_addr = ALIGN (as_pci_start as + as_allocated as) sz;
          sz = sz + (pci_addr - (as_pci_start as + as_allocated as))
      in bindE (assertE (as_allocated as + sz \<le> as_size as)) (\<lambda>_.
         Inr (pci_addr, as\<lparr>as_allocated := as_allocated as + sz\<rparr>)))"

text \<open>The result is what is stored at \<open>addr\<close>, the return value, and the bridge, which changes.\<close>

definition pci_alloc_resource ::
    "'d machine \<Rightarrow> pci_host_bridge \<Rightarrow> pci_dev \<Rightarrow> int \<Rightarrow> ('d, bool \<times> u64 \<times> pci_host_bridge) io" where
  "pci_alloc_resource M host dev bar_num =
     (let P = ecam_pci M host
      in bindS (pci_bar_size P dev bar_num) (\<lambda>sz.
         if sz = 0 then returnS (False, PCI_INVALID_PHYS_ADDR, host)
         else
           bindS (pci_bar_get P dev bar_num) (\<lambda>bar.
           case find_type (addr_space host) (wanted_type bar) 0 of
             None \<Rightarrow>
               bindS (printfS M ''%s: warning: can't satisfy request for '' [Str ''pci_alloc_resource'']) (\<lambda>_.
               bindS (pci_dev_print_id P dev) (\<lambda>_.
               bindS (printfS M '' '' []) (\<lambda>_.
               bindS (pci_bar_print P dev bar_num) (\<lambda>_.
               bindS (printfS M [CHR 0x0A] []) (\<lambda>_.
               returnS (False, PCI_INVALID_PHYS_ADDR, host))))))
           | Some i \<Rightarrow>
               bindS (liftS (take_window (addr_space host ! i) sz)) (\<lambda>(a, as).
               returnS (True, a, host\<lparr>addr_space := (addr_space host)[i := as]\<rparr>)))))"

text \<open>The loop over the BARs of a device; its index grows, so as many steps as there are registers do.\<close>

primrec probe_bars ::
    "'d machine \<Rightarrow> nat \<Rightarrow> int \<Rightarrow> pci_host_bridge \<Rightarrow> pci_dev \<Rightarrow> u32 \<Rightarrow> ('d, pci_host_bridge \<times> u32) io" where
  "probe_bars M 0 i host dev cmd = returnS (host, cmd)"
| "probe_bars M (Suc k) i host dev cmd =
     (if i < PCI_BAR_NUM then
        bindS (pci_alloc_resource M host dev i) (\<lambda>(ok, a, host).
        let P = ecam_pci M host
        in bindS (if ok then
                    bindS (pci_bar_set_addr P dev i a) (\<lambda>dev.
                    bindS (pci_bar_is_memory P dev i) (\<lambda>mem.
                    returnS (dev, if mem then cmd OR PCI_COMMAND_MEMORY else cmd OR PCI_COMMAND_IO)))
                  else returnS (dev, cmd)) (\<lambda>(dev, cmd).
           bindS (pci_bar_is64 P dev i) (\<lambda>is64.
           probe_bars M k (if is64 then i + 2 else i + 1) host dev cmd)))
      else returnS (host, cmd))"

definition probe_dev :: "'d machine \<Rightarrow> nat \<Rightarrow> pci_host_bridge \<Rightarrow> ('d, pci_host_bridge) io" where
  "probe_dev M n host =
     (let dev = of_nat n; P = ecam_pci M host
      in bindS (pci_dev_exists P dev) (\<lambda>ex.
         if \<not> ex then returnS host
         else
           bindS (pci_dev_init P dev) (\<lambda>pdev.
           bindS (pci_config_readb P dev PCI_HEADER_TYPE) (\<lambda>header.
           if header AND PCI_HEADER_TYPE_MASK \<noteq> PCI_HEADER_TYPE_NORMAL then returnS host
           else
             bindS (probe_bars M 6 0 host pdev (PCI_COMMAND_SERR OR PCI_COMMAND_PARITY)) (\<lambda>(host, cmd).
             bindS (pci_config_writew P dev PCI_COMMAND (ucast cmd)) (\<lambda>_. returnS host))))))"

primrec probe_loop :: "'d machine \<Rightarrow> nat list \<Rightarrow> pci_host_bridge \<Rightarrow> ('d, pci_host_bridge) io" where
  "probe_loop M [] host = returnS host"
| "probe_loop M (n # ns) host = bindS (probe_dev M n host) (probe_loop M ns)"

text \<open>The global \<open>pci_host_bridge\<close> before and after.\<close>

definition pci_probe ::
    "'d machine \<Rightarrow> fdt_lib \<Rightarrow> (nat \<Rightarrow> u64) option \<Rightarrow> pci_host_bridge option \<Rightarrow> ('d, bool \<times> pci_host_bridge option) io" where
  "pci_probe M F heap host =
     bindS (assertS (host = None)) (\<lambda>_.
     bindS (pci_dt_probe M F heap) (\<lambda>h.
     case h of
       None \<Rightarrow> returnS (False, None)
     | Some host \<Rightarrow> bindS (probe_loop M [0..<PCI_DEVFN_MAX] host) (\<lambda>host. returnS (True, Some host))))"
section \<open>What the probe reads\<close>

text \<open>A window as the tree describes it: the flags, the address on the bus and for the processor, and the size.\<close>

record range_desc =
  rd_flags :: u32
  rd_pci :: u64
  rd_cpu :: u64
  rd_size :: u64

definition range_cells :: "u32 \<Rightarrow> range_desc \<Rightarrow> u32 list" where
  "range_cells nac r = rd_flags r # cells_of 2 (rd_pci r) @ cells_of nac (rd_cpu r) @ cells_of 2 (rd_size r)"

definition space_bits :: "u32 \<Rightarrow> u32" where
  "space_bits flags = drop_bit 24 flags AND 3"

definition range_ok :: "u32 \<Rightarrow> range_desc \<Rightarrow> bool" where
  "range_ok nac r \<longleftrightarrow> space_bits (rd_flags r) \<noteq> 0 \<and> (nac = 1 \<longrightarrow> rd_cpu r < 2 ^ 32)"

definition range_type :: "u32 \<Rightarrow> u32" where
  "range_type flags =
     (if space_bits flags = 1 then PCI_BASE_ADDRESS_SPACE_IO
      else if space_bits flags = 2 then PCI_BASE_ADDRESS_MEM_TYPE_32 else PCI_BASE_ADDRESS_MEM_TYPE_64) OR
     (if flags AND 0x40000000 \<noteq> 0 then PCI_BASE_ADDRESS_MEM_PREFETCH else 0)"

definition window_of :: "range_desc \<Rightarrow> u64 \<Rightarrow> pci_addr_space" where
  "window_of r allocated = \<lparr>as_pci_start = rd_pci r, as_start = rd_cpu r, as_size = rd_size r, as_allocated = allocated,
     as_type = range_type (rd_flags r)\<rparr>"

lemma space_bits_cases: "space_bits f = 0 \<or> space_bits f = 1 \<or> space_bits f = 2 \<or> space_bits f = 3"
proof -
  have "space_bits f \<le> 3" unfolding space_bits_def by (rule word_and_le1)
  then have "unat (space_bits f) \<le> 3" by (simp add: word_le_nat_alt)
  then have "unat (space_bits f) = 0 \<or> unat (space_bits f) = 1 \<or> unat (space_bits f) = 2 \<or> unat (space_bits f) = 3" by linarith
  then show ?thesis by (simp add: word_unat_eq_iff)
qed

lemma flags_to_type:
  "space_bits f \<noteq> 0 \<Longrightarrow> of_flags_to_pci_type f = Inr (range_type f)"
  using space_bits_cases [of f]
  by (auto simp: of_flags_to_pci_type_def Let_def space_bits_def [symmetric] type_map_def range_type_def)

lemma cell2_of:
  assumes "i + 1 < length cs" "cs ! i = ucast (drop_bit 32 v)" "cs ! (i + 1) = ucast v"
  shows "cell2 (encode_cells cs) i = Inr v"
proof -
  have "push_bit 32 (ucast (ucast (drop_bit 32 v) :: u32)) OR ucast (ucast v :: u32) = (v :: u64)"
    by (rule bit_word_eqI) (auto simp: bit_simps)
  then show ?thesis using assms by (simp add: cell2_def cell_encode)
qed

lemma length_range_cells [simp]: "cells_ok nac \<Longrightarrow> length (range_cells nac r) = 5 + unat nac"
  by (auto simp: range_cells_def cells_of_def cells_ok_def)

lemma read_range_decodes:
  assumes "cells_ok nac" "range_ok nac r" "length pre = i"
  shows "read_range (encode_cells (pre @ range_cells nac r @ post)) (5 + nac) al i = Inr (window_of r al)"
proof -
  let ?cs = "pre @ range_cells nac r @ post"
  have f: "cell (encode_cells ?cs) i = Inr (rd_flags r)"
    using assms(3) cell_encode [of i ?cs] by (simp add: range_cells_def nth_append)
  have p: "cell2 (encode_cells ?cs) (i + 1) = Inr (rd_pci r)"
    using assms(3) by (intro cell2_of) (auto simp: range_cells_def cells_of_def nth_append)
  have ty: "of_flags_to_pci_type (rd_flags r) = Inr (range_type (rd_flags r))"
    using assms(2) by (simp add: flags_to_type range_ok_def)
  show ?thesis
  proof (cases "nac = 1")
    case True
    then have c: "cell (encode_cells ?cs) (i + 3) = Inr (ucast (rd_cpu r))"
      using assms(3) cell_encode [of "i + 3" ?cs] by (simp add: range_cells_def cells_of_def nth_append)
    have s: "cell2 (encode_cells ?cs) (i + 4) = Inr (rd_size r)"
      using assms(3) True by (intro cell2_of) (auto simp: range_cells_def cells_of_def nth_append)
    have "ucast (ucast (rd_cpu r) :: u32) = rd_cpu r"
      using read_cells_of [of 1 "rd_cpu r" "[]"] assms(2) True by (simp add: dt_pbus_read_cells_def cells_of_def cells_ok_def range_ok_def)
    then show ?thesis using f p ty c s True by (simp add: read_range_def window_of_def)
  next
    case False
    then have n: "nac = 2" using assms(1) by (simp add: cells_ok_def)
    have c: "cell2 (encode_cells ?cs) (i + 3) = Inr (rd_cpu r)"
      using assms(3) n by (intro cell2_of) (auto simp: range_cells_def cells_of_def nth_append)
    have s: "cell2 (encode_cells ?cs) (i + 5) = Inr (rd_size r)"
      using assms(3) n by (intro cell2_of) (auto simp: range_cells_def cells_of_def nth_append)
    show ?thesis using f p ty c s n by (simp add: read_range_def window_of_def)
  qed
qed

lemma read_ranges_decodes:
  assumes "cells_ok nac" "\<And>r. r \<in> set rs \<Longrightarrow> range_ok nac r" "length pre = (5 + unat nac) * m"
  shows "read_ranges (encode_cells (pre @ concat (map (range_cells nac) rs))) (5 + nac) g (length rs) (length pre)
    = Inr (map2 window_of rs (map g [m..<m + length rs]))"
  using assms(2,3)
proof (induction rs arbitrary: pre m)
  case (Cons r rs)
  let ?pre = "pre @ range_cells nac r"
  have u: "unat (5 + nac) = 5 + unat nac" using assms(1) by (auto simp: cells_ok_def)
  have l: "length ?pre = (5 + unat nac) * (m + 1)" using Cons.prems(2) assms(1) by simp
  have al: "length pre div (5 + unat nac) = m" using Cons.prems(2) by simp
  have "read_range (encode_cells (pre @ range_cells nac r @ concat (map (range_cells nac) rs))) (5 + nac) (g m) (length pre)
      = Inr (window_of r (g m))"
    using Cons.prems(1) assms(1) by (intro read_range_decodes) auto
  moreover have "read_ranges (encode_cells (?pre @ concat (map (range_cells nac) rs))) (5 + nac) g (length rs) (length ?pre)
      = Inr (map2 window_of rs (map g [m + 1..<m + 1 + length rs]))"
    using Cons.IH [OF _ l] Cons.prems(1) by auto
  moreover have "[m..<m + length (r # rs)] = m # [m + 1..<m + 1 + length rs]" by (simp add: upt_conv_Cons del: upt_Suc)
  ultimately show ?case using assms(1) by (simp add: al u del: upt_Suc)
qed simp

text \<open>A tree with a host bridge: its node, the registers for configuration space, the busses and the windows.\<close>

definition bridge_node :: "fdt_lib \<Rightarrow> dt_pbus_reg \<Rightarrow> u32 \<times> u32 \<Rightarrow> range_desc list \<Rightarrow> bool" where
  "bridge_node F base bus rs \<longleftrightarrow> dt_available F \<and>
     (\<exists>root node nac nsc. path_offset F ''/'' = root \<and> 0 \<le> root \<and> cells_ok nac \<and>
        get_property F root ''#address-cells'' = Inr (be32 nac) \<and> get_property F root ''#size-cells'' = Inr (be32 nsc) \<and>
        node_by_compatible F root ''pci-host-ecam-generic'' = node \<and> 0 \<le> node \<and>
        get_property F node ''device_type'' = Inr [112, 99, 105, 0] \<and> node_regs F node [base] \<and>
        (get_property F node ''bus-range'' = Inr (encode_cells [fst bus, snd bus]) \<and> fst bus \<le> snd bus \<or>
         get_property F node ''bus-range'' = Inl (- FDT_ERR_NOTFOUND) \<and> bus = (0, 255)) \<and>
        (ucast (snd bus) :: u64) < pbus_size base div 2 ^ PCI_ECAM_BUS_SHIFT \<and>
        get_property F node ''#address-cells'' = Inr (be32 3) \<and> get_property F node ''#size-cells'' = Inr (be32 2) \<and>
        get_property F node ''ranges'' = Inr (encode_cells (concat (map (range_cells nac) rs))) \<and>
        rs \<noteq> [] \<and> (\<forall>r \<in> set rs. range_ok nac r))"

lemma must_return: "must (returnD x) d = Inr (x, d)"
  by (simp add: must_def returnD_def bindS_eval liftS_def returnS_def)

lemma nr_cells_decodes:
  assumes "get_property F n ''#address-cells'' = Inr (be32 a)" "get_property F n ''#size-cells'' = Inr (be32 s)"
  shows "dt_get_nr_cells F n = returnD (a, s)"
  using assms by (simp add: dt_get_nr_cells_def propD_def bindD_def cellD_def cell_be32 returnD_def)

lemma propD_Inr: "get_property F n nm = Inr x \<Longrightarrow> propD F n nm = returnD x"
  by (simp add: propD_def returnD_def)

lemma bus_range_decodes:
  assumes "get_property F node ''bus-range'' = Inr (encode_cells [b, b']) \<and> b \<le> b' \<or>
    get_property F node ''bus-range'' = Inl (- FDT_ERR_NOTFOUND) \<and> (b, b') = (0, 255)"
  shows "bus_range F node d = Inr ((b, b'), d)"
  using assms cell_encode [of 0 "[b, b']"] cell_encode [of 1 "[b, b']"]
  by (auto simp: bus_range_def bindS_eval liftS_def assertS_def returnS_def)

lemma probe_decodes:
  assumes "bridge_node F base (b, b') rs"
  shows "pci_dt_probe M F (Some g) d = Inr (Some \<lparr>hb_start = pbus_addr base, hb_size = pbus_size base, hb_bus = b, hb_bus_max = b',
    addr_space = map2 window_of rs (map g [0..<length rs])\<rparr>, d)"
proof -
  obtain root node nac nsc where r: "path_offset F ''/'' = root" "0 \<le> root" "cells_ok nac" "dt_available F"
    and rp: "get_property F root ''#address-cells'' = Inr (be32 nac)" "get_property F root ''#size-cells'' = Inr (be32 nsc)"
    and n: "node_by_compatible F root ''pci-host-ecam-generic'' = node" "0 \<le> node"
    and dt: "get_property F node ''device_type'' = Inr [112, 99, 105, 0]" and reg: "node_regs F node [base]"
    and bus: "get_property F node ''bus-range'' = Inr (encode_cells [b, b']) \<and> b \<le> b' \<or>
         get_property F node ''bus-range'' = Inl (- FDT_ERR_NOTFOUND) \<and> (b, b') = (0, 255)"
    and fit: "(ucast b' :: u64) < pbus_size base div 2 ^ PCI_ECAM_BUS_SHIFT"
    and nc: "get_property F node ''#address-cells'' = Inr (be32 3)" "get_property F node ''#size-cells'' = Inr (be32 2)"
    and ra: "get_property F node ''ranges'' = Inr (encode_cells (concat (map (range_cells nac) rs)))"
    and rs: "rs \<noteq> []" "\<And>r. r \<in> set rs \<Longrightarrow> range_ok nac r"
    using assms unfolding bridge_node_def fst_conv snd_conv by blast
  have base: "dt_pbus_get_base F node = returnD base"
    using translate_node_decodes [OF reg, of 0] by (simp add: dt_pbus_get_base_def dt_pbus_translate_def)
  have len: "length (concat (map (range_cells nac) rs)) = (5 + unat nac) * length rs"
    using r(3) by (simp add: length_concat comp_def sum_list_triv mult.commute)
  have u: "unat (5 + nac) = 5 + unat nac" using r(3) by (auto simp: cells_ok_def)
  have nn: "node \<noteq> - FDT_ERR_NOTFOUND" using n(2) by (simp add: FDT_ERR_NOTFOUND_def)
  have na: "nac = 1 \<or> nac = 2" using r(3) by (simp add: cells_ok_def)
  have rd: "read_ranges (encode_cells (concat (map (range_cells nac) rs))) (5 + nac) g (length rs) 0
      = Inr (map2 window_of rs (map g [0..<length rs]))"
    using read_ranges_decodes [OF r(3) rs(2), of rs "[]" 0 g] by simp
  show ?thesis
    unfolding pci_dt_probe_def Let_def
    using r(2,4) na fit rs(1) nn n(2)
    by (simp add: bindS_eval r(1) nr_cells_decodes [OF rp] must_return n(1) propD_Inr [OF dt] base bus_range_decodes [OF bus]
        nr_cells_decodes [OF nc] propD_Inr [OF ra] assertS_def returnS_def liftS_def len u rd)
qed
section \<open>Allocation in the windows\<close>

text \<open>A window in use: what is given out is within it, and its end is below \<open>2 ^ 63\<close>.\<close>

definition window_ok :: "pci_addr_space \<Rightarrow> bool" where
  "window_ok as \<longleftrightarrow> as_allocated as \<le> as_size as \<and> unat (as_pci_start as) + unat (as_size as) \<le> 2 ^ 63"

text \<open>A block of the window: its first address and its size.\<close>

definition block_in :: "pci_addr_space \<Rightarrow> u64 \<times> u64 \<Rightarrow> bool" where
  "block_in as b \<longleftrightarrow> as_pci_start as \<le> fst b \<and>
     unat (fst b) + unat (snd b) \<le> unat (as_pci_start as) + unat (as_allocated as)"

definition apart :: "u64 \<times> u64 \<Rightarrow> u64 \<times> u64 \<Rightarrow> bool" where
  "apart b c \<longleftrightarrow> unat (fst b) + unat (snd b) \<le> unat (fst c) \<or> unat (fst c) + unat (snd c) \<le> unat (fst b)"

definition blocks_ok :: "pci_addr_space \<Rightarrow> (u64 \<times> u64) list \<Rightarrow> bool" where
  "blocks_ok as bs \<longleftrightarrow> (\<forall>b \<in> set bs. block_in as b) \<and> pairwise apart (set bs) \<and> distinct bs"

lemma take_window_takes:
  assumes "window_ok as" "k < 63"
  defines "free \<equiv> unat (as_pci_start as) + unat (as_allocated as)"
  defines "a \<equiv> (free + (2 ^ k - 1)) div 2 ^ k * 2 ^ k"
  shows "take_window as (2 ^ k) =
     (if a + 2 ^ k \<le> unat (as_pci_start as) + unat (as_size as)
      then Inr (of_nat a, as\<lparr>as_allocated := of_nat (a + 2 ^ k - unat (as_pci_start as))\<rparr>)
      else Inl Assert_failed)"
    and "free \<le> a" and "2 ^ k dvd a" and "a < 2 ^ 64"
proof -
  have kk: "(2 :: nat) ^ k \<le> 2 ^ 62" using assms(2) by (intro power_increasing) auto
  have al: "unat (as_allocated as) \<le> unat (as_size as)" using assms(1) by (simp add: window_ok_def word_le_nat_alt)
  have fb: "free \<le> 2 ^ 63" using assms(1) al by (simp add: window_ok_def free_def)
  show fa: "free \<le> a"
  proof -
    have "a + (free + (2 ^ k - 1)) mod 2 ^ k = free + (2 ^ k - 1)" unfolding a_def by (rule div_mult_mod_eq)
    moreover have "(free + (2 ^ k - 1)) mod 2 ^ k < 2 ^ k" by simp
    ultimately show ?thesis by linarith
  qed
  have ub: "a \<le> free + (2 ^ k - 1)" unfolding a_def by simp
  show "2 ^ k dvd a" by (simp add: a_def)
  show a64: "a < 2 ^ 64" using ub fb kk by simp
  have uf: "unat (as_pci_start as + as_allocated as) = free"
    using fb by (subst unat_add_noov) (simp_all add: free_def)
  have ua: "unat (ALIGN (as_pci_start as + as_allocated as) (2 ^ k)) = a"
    using assms(2) fb kk uf by (subst ALIGN_unat) (simp_all add: a_def)
  have A: "ALIGN (as_pci_start as + as_allocated as) (2 ^ k) = of_nat a"
    unfolding ua [symmetric] by simp
  have uk: "unat (2 ^ k :: u64) = 2 ^ k" using assms(2) by (simp add: unat_power2_64)
  have ugap: "unat (of_nat a - (as_pci_start as + as_allocated as) :: u64) = a - free"
    using ua uf fa unfolding A by (subst unat_sub) (simp_all add: word_le_nat_alt)
  have sz: "unat (2 ^ k + (of_nat a - (as_pci_start as + as_allocated as)) :: u64) = 2 ^ k + (a - free)"
    using ugap uk ub kk by (subst unat_add_noov) simp_all
  let ?new = "as_allocated as + (2 ^ k + (of_nat a - (as_pci_start as + as_allocated as)))"
  have un: "unat ?new = a + 2 ^ k - unat (as_pci_start as)"
  proof -
    have "unat (as_allocated as) + (2 ^ k + (a - free)) = a + 2 ^ k - unat (as_pci_start as)"
      using fa by (simp add: free_def)
    moreover have "a + 2 ^ k < 2 ^ 64" using ub fb kk by simp
    ultimately show ?thesis using sz by (subst unat_add_noov) simp_all
  qed
  have new: "?new = of_nat (a + 2 ^ k - unat (as_pci_start as))" unfolding un [symmetric] by simp
  have "unat (as_pci_start as) \<le> a" using fa by (simp add: free_def)
  then have le: "?new \<le> as_size as \<longleftrightarrow> a + 2 ^ k \<le> unat (as_pci_start as) + unat (as_size as)"
    using un by (auto simp: word_le_nat_alt)
  show "take_window as (2 ^ k) =
     (if a + 2 ^ k \<le> unat (as_pci_start as) + unat (as_size as)
      then Inr (of_nat a, as\<lparr>as_allocated := of_nat (a + 2 ^ k - unat (as_pci_start as))\<rparr>)
      else Inl Assert_failed)"
    unfolding take_window_def Let_def A le new [symmetric] by (auto simp: assertE_def)
qed

lemma take_window_ok:
  assumes "window_ok as" "k < 63" "blocks_ok as bs" "take_window as (2 ^ k) = Inr (a, as')"
  shows "window_ok as'" "blocks_ok as' ((a, 2 ^ k) # bs)" "2 ^ k dvd unat a"
    "unat a + 2 ^ k \<le> unat (as_pci_start as) + unat (as_size as)"
    "as_pci_start as' = as_pci_start as" "as_type as' = as_type as"
    "as_start as' = as_start as" "as_size as' = as_size as" "as_pci_start as \<le> a"
proof -
  define free where "free = unat (as_pci_start as) + unat (as_allocated as)"
  define n where "n = (free + (2 ^ k - 1)) div 2 ^ k * 2 ^ k"
  note t = take_window_takes [OF assms(1,2), folded free_def, folded n_def]
  have fit: "n + 2 ^ k \<le> unat (as_pci_start as) + unat (as_size as)"
    and a: "a = of_nat n" and as': "as' = as\<lparr>as_allocated := of_nat (n + 2 ^ k - unat (as_pci_start as))\<rparr>"
    using t(1) assms(4) by (auto split: if_splits)
  have ua: "unat a = n" using t(4) a by (simp add: unat_of_nat take_bit_nat_eq_self)
  have uk: "unat (2 ^ k :: u64) = 2 ^ k" using assms(2) by (simp add: unat_power2_64)
  have b63: "unat (as_pci_start as) + unat (as_size as) \<le> 2 ^ 63" using assms(1) by (simp add: window_ok_def)
  then have un: "unat (as_allocated as') = n + 2 ^ k - unat (as_pci_start as)"
    using fit as' by (simp add: unat_of_nat take_bit_nat_eq_self)
  have pn: "unat (as_pci_start as) \<le> n" using t(2) by (simp add: free_def)
  show "window_ok as'"
    using un fit b63 unfolding window_ok_def word_le_nat_alt by (simp add: as')
  show "2 ^ k dvd unat a" using t(3) ua by simp
  show "unat a + 2 ^ k \<le> unat (as_pci_start as) + unat (as_size as)" using fit ua by simp
  show "as_pci_start as' = as_pci_start as" "as_type as' = as_type as" "as_start as' = as_start as" "as_size as' = as_size as"
    by (simp_all add: as')
  show "as_pci_start as \<le> a" using pn ua by (simp add: word_le_nat_alt)
  have old: "as_pci_start as \<le> fst b \<and> unat (fst b) + unat (snd b) \<le> free" if "b \<in> set bs" for b
    using assms(3) that by (auto simp: blocks_ok_def block_in_def free_def)
  have "block_in as' b" if "b \<in> set bs" for b
    using old [OF that] un t(2) pn by (simp add: block_in_def as')
  moreover have "block_in as' (a, 2 ^ k)"
    using un ua uk pn by (simp add: block_in_def word_le_nat_alt as')
  moreover have "apart (a, 2 ^ k) b \<and> apart b (a, 2 ^ k)" if "b \<in> set bs" for b
    using old [OF that] t(2) ua by (auto simp: apart_def)
  moreover have "(a, 2 ^ k) \<notin> set bs"
  proof
    assume "(a, 2 ^ k) \<in> set bs"
    from old [OF this] have "unat a + 2 ^ k \<le> free" using uk by simp
    moreover have "0 < (2 :: nat) ^ k" by simp
    ultimately show False using t(2) ua by linarith
  qed
  ultimately show "blocks_ok as' ((a, 2 ^ k) # bs)"
    using assms(3) by (auto simp: blocks_ok_def pairwise_insert)
qed
section \<open>Writing an address into a BAR\<close>

text \<open>The register of the BAR after the address is written, of which only the writable bits are taken.\<close>

definition bar_written :: "(u8 \<Rightarrow> u32) \<Rightarrow> (u8 \<Rightarrow> u32) \<Rightarrow> int \<Rightarrow> u64 \<Rightarrow> u8 \<Rightarrow> u32" where
  "bar_written c w n a =
     (let put = (\<lambda>r v c. c(r := (v AND w r) OR (c r AND NOT (w r))));
          c' = put (bar_reg n) (ucast a) c
      in if bar_is64 (c (bar_reg n)) then put (bar_reg (n + 1)) (ucast (drop_bit 32 a)) c' else c')"

lemma pci_dwords_write:
  assumes "pci_dwords P cfg w"
  obtains d' where "pci_config_writel P dev reg v d = Inr ((), d')"
    "cfg d' = (\<lambda>dev' reg'. if dev' = dev \<and> reg' = reg then (v AND w dev reg) OR (cfg d dev reg AND NOT (w dev reg))
                              else cfg d dev' reg')"
  using assms unfolding pci_dwords_def by blast

lemma bar_reg_next: "bar_reg n + 4 = bar_reg (n + 1)"
  by (simp add: bar_reg_def algebra_simps)

lemma bar_reg_neq: "bar_num_ok n \<Longrightarrow> bar_num_ok (n + 1) \<Longrightarrow> bar_reg (n + 1) \<noteq> bar_reg n"
proof -
  assume "bar_num_ok n" "bar_num_ok (n + 1)"
  then have "n = 0 \<or> n = 1 \<or> n = 2 \<or> n = 3 \<or> n = 4" by (auto simp: bar_num_ok_def PCI_BAR_NUM_def)
  then show ?thesis by (auto simp: bar_reg_def PCI_BASE_ADDRESS_0_def)
qed

text \<open>The bits of a region that are below \<open>k\<close> are clear, but for the flags.\<close>

lemma region_low_bits:
  assumes "bar_region c w n k"
  shows "\<lbrakk>4 \<le> i; i < k; i < 32\<rbrakk> \<Longrightarrow> \<not> bit (c (bar_reg n)) i"
    and "\<lbrakk>bar_is64 (c (bar_reg n)); i + 32 < k\<rbrakk> \<Longrightarrow> \<not> bit (c (bar_reg (n + 1))) i"
proof -
  have z: "\<not> bit (bar_pair c n AND mask k) j" for j using assms by (simp add: bar_region_def)
  have k: "k < 64" using assms by (auto simp: bar_region_def split: if_splits)
  show "\<lbrakk>4 \<le> i; i < k; i < 32\<rbrakk> \<Longrightarrow> \<not> bit (c (bar_reg n)) i"
    using z [of i] k by (auto simp: bar_pair_def bit_simps split: if_splits)
  show "\<lbrakk>bar_is64 (c (bar_reg n)); i + 32 < k\<rbrakk> \<Longrightarrow> \<not> bit (c (bar_reg (n + 1))) i"
    using z [of "i + 32"] k by (auto simp: bar_pair_def bit_simps split: if_splits)
qed

lemma low_flags: "(\<And>i. i < 4 \<Longrightarrow> bit x i = bit y i) \<Longrightarrow> x AND mask 4 = y AND mask (4 :: nat)" for x y :: u32
  by (rule bit_word_eqI) (auto simp: bit_simps)

lemma is64_flags: "bar_is64 x \<longleftrightarrow> bar_is64 (x AND mask 4)"
proof -
  have "PCI_BASE_ADDRESS_MEM_TYPE_MASK = mask 4 AND PCI_BASE_ADDRESS_MEM_TYPE_MASK" by code_simp
  then show ?thesis unfolding bar_is64_def by (metis and.assoc)
qed

lemma bar_written_flags:
  assumes "bar_region c w n k" "bar_reg (n + 1) \<noteq> bar_reg n \<or> \<not> bar_is64 (c (bar_reg n))"
  shows "bar_written c w n a (bar_reg n) AND mask 4 = c (bar_reg n) AND mask 4"
proof (rule low_flags)
  fix i :: nat assume i: "i < 4"
  then have "\<not> bit (w (bar_reg n)) i" using assms(1) by (auto simp: bar_region_def bit_simps)
  then show "bit (bar_written c w n a (bar_reg n)) i = bit (c (bar_reg n)) i"
    using assms(2) i by (auto simp: bar_written_def Let_def bit_simps)
qed

lemma bar_written_pair:
  assumes r: "bar_region c w n k" and al: "2 ^ k dvd unat a" and ne: "bar_reg (n + 1) \<noteq> bar_reg n \<or> \<not> bar_is64 (c (bar_reg n))"
    and fit: "\<not> bar_is64 (c (bar_reg n)) \<Longrightarrow> drop_bit 32 a = 0"
  shows "bar_pair (bar_written c w n a) n = a"
proof (rule bit_word_eqI)
  fix i :: nat assume i: "i < LENGTH(64)"
  have k: "4 \<le> k" "k < 64" using r by (auto simp: bar_region_def split: if_splits)
  have "a AND mask k = 0" using al k(2) by (simp add: and_mask_dvd_nat)
  then have low: "bit a j \<Longrightarrow> k \<le> j" for j
    using bit_and_iff [of a "mask k" j] k(2) by (simp add: bit_mask_iff not_less [symmetric]) linarith
  have is64: "bar_is64 (bar_written c w n a (bar_reg n)) = bar_is64 (c (bar_reg n))"
    using bar_written_flags [OF r ne] by (metis is64_flags)
  have wb: "bit (w (bar_reg n)) j \<longleftrightarrow> j < 32 \<and> k \<le> j" for j
    using r k by (auto simp: bar_region_def bit_simps)
  show "bit (bar_pair (bar_written c w n a) n) i = bit a i"
  proof (cases "bar_is64 (c (bar_reg n))")
    case True
    have wb2: "bit (w (bar_reg (n + 1))) j \<longleftrightarrow> j < 32 \<and> k \<le> j + 32" for j
      using r True k by (auto simp: bar_region_def bit_simps)
    show ?thesis
    proof (cases "i < 32")
      case lo: True
      have "\<not> bit a i" if "i < 4" using that low [of i] k(1) by auto
      then show ?thesis
        using True ne lo low [of i] region_low_bits(1) [OF r, of i] unfolding bar_pair_def is64
        by (auto simp: bar_written_def Let_def bit_simps wb)
    next
      case hi: False
      then show ?thesis
        using True i ne low [of i] region_low_bits(2) [OF r True, of "i - 32"] unfolding bar_pair_def is64
        by (auto simp: bar_written_def Let_def bit_simps wb2)
    qed
  next
    case False
    have hi: "bit a i \<Longrightarrow> i < 32"
    proof -
      have "\<not> bit (drop_bit 32 a) (i - 32)" using fit [OF False] by simp
      then show "bit a i \<Longrightarrow> i < 32" by (cases "i < 32") (simp_all add: bit_drop_bit_eq)
    qed
    have "\<not> bit a i" if "i < 4" using that low [of i] k(1) by auto
    then show ?thesis
      using False i low [of i] hi region_low_bits(1) [OF r, of i]
      unfolding bar_pair_def is64
      by (auto simp: bar_written_def Let_def bit_simps wb)
  qed
qed

lemma region_not_io:
  assumes "\<not> bit (x :: u32) 0"
  shows "x AND PCI_BASE_ADDRESS_SPACE_IO = 0"
  using assms by (simp add: PCI_BASE_ADDRESS_SPACE_IO_def) (metis and_exp_eq_0_iff_not_bit power_0)

lemma is64_read:
  assumes "pci_dwords P cfg w" "bar_num_ok n" "\<not> bit (cfg d (bdf dev) (bar_reg n)) 0"
  obtains d' where "pci_bar_is64 P dev n d = Inr (bar_is64 (cfg d (bdf dev) (bar_reg n)), d')" "cfg d' = cfg d"
proof -
  obtain d' where "pci_config_readl P (bdf dev) (bar_reg n) d = Inr (cfg d (bdf dev) (bar_reg n), d')" "cfg d' = cfg d"
    using pci_dwords_read [OF assms(1)] .
  then show thesis using that assms(2) region_not_io [OF assms(3)]
    by (simp add: pci_bar_is64_def pci_bar_get_def bindS_eval assertS_def returnS_def bar_is64_def)
qed
lemma set_addr_run:
  assumes P: "pci_dwords P cfg w" and n: "bar_num_ok n" and n1: "bar_is64 (cfg d (bdf dev) (bar_reg n)) \<Longrightarrow> bar_num_ok (n + 1)"
    and r: "bar_region (cfg d (bdf dev)) (w (bdf dev)) n k" and a: "a \<noteq> PCI_INVALID_PHYS_ADDR"
    and res: "resource dev ! nat n \<noteq> PCI_INVALID_PHYS_ADDR"
    and fit: "\<not> bar_is64 (cfg d (bdf dev) (bar_reg n)) \<Longrightarrow> drop_bit 32 a = 0"
  shows "\<exists>d' dev'. pci_bar_set_addr P dev n a d = Inr (dev', d') \<and> bdf dev' = bdf dev \<and>
    cfg d' = (cfg d)(bdf dev := bar_written (cfg d (bdf dev)) (w (bdf dev)) n a)"
proof -
  let ?b = "bdf dev" and ?c = "cfg d (bdf dev)" and ?w = "w (bdf dev)"
  have ne: "bar_reg (n + 1) \<noteq> bar_reg n \<or> \<not> bar_is64 (?c (bar_reg n))" using bar_reg_neq [OF n] n1 by blast
  have b0: "\<not> bit (?c (bar_reg n)) 0" using r by (simp add: bar_region_def)
  obtain d1 where d1: "pci_bar_is64 P dev n d = Inr (bar_is64 (?c (bar_reg n)), d1)" "cfg d1 = cfg d"
    using is64_read [where cfg = cfg and d = d, OF P n b0] .
  obtain d2 where d2: "pci_config_writel P ?b (bar_reg n) (ucast a) d1 = Inr ((), d2)"
    and c2: "cfg d2 = (\<lambda>dev' reg'. if dev' = ?b \<and> reg' = bar_reg n
      then (ucast a AND w ?b (bar_reg n)) OR (cfg d1 ?b (bar_reg n) AND NOT (w ?b (bar_reg n))) else cfg d1 dev' reg')"
    using pci_dwords_write [OF P] .
  let ?c2 = "cfg d2 ?b (bar_reg n)"
  have fl: "?c2 AND mask 4 = ?c (bar_reg n) AND mask 4"
    using bar_written_flags [OF r ne, of a] ne unfolding c2 d1(2) by (auto simp: bar_written_def Let_def split: if_splits)
  then have i2: "bar_is64 ?c2 = bar_is64 (?c (bar_reg n))" by (metis is64_flags)
  have b2: "\<not> bit ?c2 0"
  proof -
    have "bit (?c2 AND mask 4) 0 = bit (?c (bar_reg n) AND mask 4) 0" by (simp only: fl)
    then show ?thesis using b0 by (simp add: bit_simps)
  qed
  let ?dev = "set_resource n a dev"
  have bd: "bdf ?dev = ?b" by (simp add: set_resource_def)
  obtain d3 where d3: "pci_bar_is64 P ?dev n d2 = Inr (bar_is64 (?c (bar_reg n)), d3)" "cfg d3 = cfg d2"
    using is64_read [where cfg = cfg and d = d2 and dev = ?dev, OF P n] b2 unfolding bd i2 by blast
  obtain d4 where d4: "pci_config_writel P ?b (bar_reg (n + 1)) (ucast (drop_bit 32 a)) d3 = Inr ((), d4)"
    and c4: "cfg d4 = (\<lambda>dev' reg'. if dev' = ?b \<and> reg' = bar_reg (n + 1)
      then (ucast (drop_bit 32 a) AND w ?b (bar_reg (n + 1))) OR (cfg d3 ?b (bar_reg (n + 1)) AND NOT (w ?b (bar_reg (n + 1))))
      else cfg d3 dev' reg')"
    using pci_dwords_write [OF P] .
  have res': "resource_at dev n x = Inr (resource dev ! nat n, x)" for x
    using n by (simp add: resource_at_def liftS_def)
  show ?thesis
  proof (cases "bar_is64 (?c (bar_reg n))")
    case True
    have "pci_bar_set_addr P dev n a d = Inr (set_resource (n + 1) (resource ?dev ! nat n) ?dev, d4)"
      using n n1 [OF True] a res True d1(1) d2 d3(1) d4
      by (simp add: pci_bar_set_addr_def Let_def bindS_eval assertS_def res' bar_reg_next bd returnS_def)
    moreover have "cfg d4 = (cfg d)(?b := bar_written ?c ?w n a)"
      unfolding c4 d3(2) c2 d1(2) using True by (intro ext) (auto simp: bar_written_def Let_def)
    ultimately show ?thesis by (auto simp: set_resource_def)
  next
    case False
    have "pci_bar_set_addr P dev n a d = Inr (?dev, d3)"
      using n a res False fit d1(1) d2 d3(1) by (simp add: pci_bar_set_addr_def Let_def bindS_eval assertS_def res' bd returnS_def)
    moreover have "cfg d3 = (cfg d)(?b := bar_written ?c ?w n a)"
      unfolding d3(2) c2 d1(2) using False by (intro ext) (auto simp: bar_written_def Let_def)
    ultimately show ?thesis by (auto simp: set_resource_def)
  qed
qed
section \<open>Giving a BAR its address\<close>

text \<open>The blocks given out of each window of the bridge.\<close>

definition bridge_ok :: "pci_host_bridge \<Rightarrow> (u64 \<times> u64) list list \<Rightarrow> bool" where
  "bridge_ok host bss \<longleftrightarrow> length bss = length (addr_space host) \<and>
     (\<forall>i < length bss. window_ok (addr_space host ! i) \<and> blocks_ok (addr_space host ! i) (bss ! i))"

text \<open>Whether a window has room for a block of \<open>2 ^ k\<close> bytes behind what it has given out.\<close>

definition has_room :: "pci_addr_space \<Rightarrow> nat \<Rightarrow> bool" where
  "has_room as k \<longleftrightarrow>
     (unat (as_pci_start as) + unat (as_allocated as) + (2 ^ k - 1)) div 2 ^ k * 2 ^ k + 2 ^ k
       \<le> unat (as_pci_start as) + unat (as_size as)"

lemma take_window_room:
  assumes "window_ok as" "k < 63"
  shows "(\<exists>a as'. take_window as (2 ^ k) = Inr (a, as')) \<longleftrightarrow> has_room as k"
  using take_window_takes(1) [OF assms] by (simp add: has_room_def)

lemma find_type_Some:
  "find_type ass ty j = Some i \<Longrightarrow> j \<le> i \<and> i - j < length ass \<and> as_type (ass ! (i - j)) = ty"
proof (induction ass arbitrary: j)
  case (Cons as ass)
  then show ?case
  proof (cases "as_type as = ty")
    case False
    then have "Suc j \<le> i \<and> i - Suc j < length ass \<and> as_type (ass ! (i - Suc j)) = ty" using Cons by simp
    moreover from this have "i - j = Suc (i - Suc j)" by linarith
    ultimately show ?thesis by simp
  qed auto
qed simp

lemma find_window_update:
  assumes "as_pci_start as = as_pci_start (ass ! i)" "as_start as = as_start (ass ! i)" "as_size as = as_size (ass ! i)"
  shows "find_window (ass[i := as]) a = find_window ass a"
  using assms by (induction ass arbitrary: i) (auto split: nat.split)

lemma ecam_pci_update:
  assumes "as_pci_start as = as_pci_start (addr_space host ! i)" "as_start as = as_start (addr_space host ! i)"
    "as_size as = as_size (addr_space host ! i)"
  shows "ecam_pci M (host\<lparr>addr_space := (addr_space host)[i := as]\<rparr>) = ecam_pci M host"
  by (simp add: ecam_pci_def ecam_addr_def pci_get_dev_conf_def pci_host_bridge_get_paddr_def find_window_update [OF assms])

lemma bridge_ok_update:
  assumes "bridge_ok host bss" "i < length (addr_space host)" "window_ok as" "blocks_ok as (b # bss ! i)"
  shows "bridge_ok (host\<lparr>addr_space := (addr_space host)[i := as]\<rparr>) (bss[i := b # bss ! i])"
  using assms by (auto simp: bridge_ok_def nth_list_update)

text \<open>\<open>pci_alloc_resource\<close> when there is a window of the right type with room.\<close>

lemma alloc_resource_takes:
  assumes ok: "bridge_ok host bss" and P: "pci_dwords (ecam_pci M host) cfg w" and n: "bar_num_ok n"
    and r: "bar_region (cfg d (bdf dev)) (w (bdf dev)) n k" and k: "k < 63"
    and i: "find_type (addr_space host) (wanted_type (cfg d (bdf dev) (bar_reg n))) 0 = Some i"
    and room: "has_room (addr_space host ! i) k"
  obtains a as d' where "pci_alloc_resource M host dev n d =
      Inr ((True, a, host\<lparr>addr_space := (addr_space host)[i := as]\<rparr>), d')" "cfg d' = cfg d"
    "take_window (addr_space host ! i) (2 ^ k) = Inr (a, as)" "i < length (addr_space host)"
proof -
  have il: "i < length (addr_space host)" using find_type_Some [OF i] by simp
  then have wok: "window_ok (addr_space host ! i)" using ok by (simp add: bridge_ok_def)
  obtain a as where tw: "take_window (addr_space host ! i) (2 ^ k) = Inr (a, as)"
    using take_window_room [OF wok k] room by blast
  obtain d1 where d1: "pci_bar_size (ecam_pci M host) dev n d = Inr (2 ^ k, d1)" "cfg d1 = cfg d"
    using bar_size_region [OF P n r] by blast
  obtain d2 where d2: "pci_config_readl (ecam_pci M host) (bdf dev) (bar_reg n) d1 = Inr (cfg d1 (bdf dev) (bar_reg n), d2)" "cfg d2 = cfg d1"
    using pci_dwords_read [OF P] .
  have nz: "(2 :: u64) ^ k \<noteq> 0" using k by simp
  have "pci_bar_get (ecam_pci M host) dev n d1 = Inr (cfg d (bdf dev) (bar_reg n), d2)"
    using n d2(1) d1(2) by (simp add: pci_bar_get_def bindS_eval assertS_def)
  then have "pci_alloc_resource M host dev n d = Inr ((True, a, host\<lparr>addr_space := (addr_space host)[i := as]\<rparr>), d2)"
    using d1(1) nz i tw by (simp add: pci_alloc_resource_def Let_def bindS_eval liftS_def returnS_def)
  then show thesis using that d2(2) d1(2) tw il by simp
qed

text \<open>
  C24: \<open>pci_dt_probe\<close> reads back the bridge that is encoded in the tree: the registers, the busses, and every window with
  its address on the bus and for the processor, its size and its type, with one or two cells for the processor's addresses.
\<close>

theorem pci_dt_probe_decodes:
  assumes "bridge_node F base (b, b') rs"
  shows "pci_dt_probe M F (Some g) d = Inr (Some \<lparr>hb_start = pbus_addr base, hb_size = pbus_size base, hb_bus = b, hb_bus_max = b',
    addr_space = map2 window_of rs (map g [0..<length rs])\<rparr>, d)"
  using assms by (rule probe_decodes)

text \<open>The bridge of a machine with a window for ports and one for memory.\<close>

definition sample_ranges :: "range_desc list" where
  "sample_ranges = [\<lparr>rd_flags = 0x1000000, rd_pci = 0, rd_cpu = 0x3eff0000, rd_size = 0x10000\<rparr>,
     \<lparr>rd_flags = 0x2000000, rd_pci = 0x10000000, rd_cpu = 0x10000000, rd_size = 0x2eff0000\<rparr>]"

definition bridge_tree :: fdt_lib where
  "bridge_tree = sample_tree\<lparr>node_by_compatible := (\<lambda>_ _. 16), get_property := (\<lambda>node nm.
     if node = 16 then
       if nm = ''device_type'' then Inr [112, 99, 105, 0]
       else if nm = ''reg'' then Inr (encode_cells (reg_cells 2 1 [\<lparr>pbus_addr = 0x3f000000, pbus_size = 0x1000000\<rparr>]))
       else if nm = ''bus-range'' then Inr (encode_cells [0, 0xf])
       else if nm = ''#address-cells'' then Inr (be32 3)
       else if nm = ''#size-cells'' then Inr (be32 2)
       else if nm = ''ranges'' then Inr (encode_cells (concat (map (range_cells 2) sample_ranges)))
       else Inl (- FDT_ERR_NOTFOUND)
     else get_property sample_tree node nm)\<rparr>"

lemma bridge_tree_node: "bridge_node bridge_tree \<lparr>pbus_addr = 0x3f000000, pbus_size = 0x1000000\<rparr> (0, 0xf) sample_ranges"
proof -
  have "node_regs bridge_tree 16 [\<lparr>pbus_addr = 0x3f000000, pbus_size = 0x1000000\<rparr>]"
    unfolding node_regs_def
    by (rule exI [of _ 2], rule exI [of _ 1]) (simp add: bridge_tree_def sample_tree_def cells_ok_def)
  moreover have "\<forall>r \<in> set sample_ranges. range_ok 2 r"
    by (simp add: sample_ranges_def range_ok_def space_bits_def)
  moreover have "(ucast (0xf :: u32) :: u64) < 0x1000000 div 2 ^ PCI_ECAM_BUS_SHIFT"
    by (simp add: PCI_ECAM_BUS_SHIFT_def)
  moreover have "(0 :: u32) \<le> 0xf" by simp
  ultimately show ?thesis
    unfolding bridge_node_def
    by (intro conjI exI [of _ 0] exI [of _ 16] exI [of _ 2] exI [of _ 1])
      (simp_all add: bridge_tree_def sample_tree_def dt_available_def cells_ok_def sample_ranges_def)
qed

lemma pci_dt_probe_decodes_witness:
  "pci_dt_probe (conf1_machine (\<lambda>_. 0)) bridge_tree (Some (\<lambda>_. 0)) (0, \<lambda>_. 0) =
     Inr (Some \<lparr>hb_start = 0x3f000000, hb_size = 0x1000000, hb_bus = 0, hb_bus_max = 0xf,
       addr_space = [
         \<lparr>as_pci_start = 0, as_start = 0x3eff0000, as_size = 0x10000, as_allocated = 0, as_type = 1\<rparr>,
         \<lparr>as_pci_start = 0x10000000, as_start = 0x10000000, as_size = 0x2eff0000, as_allocated = 0, as_type = 0\<rparr>]\<rparr>, (0, \<lambda>_. 0))"
proof -
  have t: "range_type 0x1000000 = 1" "range_type 0x2000000 = 0" by code_simp+
  have "map2 window_of sample_ranges (map (\<lambda>_. 0) [0..<length sample_ranges]) =
    [\<lparr>as_pci_start = 0, as_start = 0x3eff0000, as_size = 0x10000, as_allocated = 0, as_type = 1\<rparr>,
     \<lparr>as_pci_start = 0x10000000, as_start = 0x10000000, as_size = 0x2eff0000, as_allocated = 0, as_type = 0\<rparr>]"
    by (simp add: sample_ranges_def window_of_def t)
  then show ?thesis using pci_dt_probe_decodes [OF bridge_tree_node, of "conf1_machine (\<lambda>_. 0)" "\<lambda>_. 0" "(0, \<lambda>_. 0)"]
    by (simp only: dt_pbus_reg.simps)
qed

text \<open>A machine with configuration space in memory, of registers of which the bits \<open>w\<close> can be written.\<close>

definition ecam_machine :: "(u64 \<Rightarrow> u32) \<Rightarrow> (u64 \<Rightarrow> u32) machine" where
  "ecam_machine w = \<lparr>in8 = (\<lambda>p m. (0, m)), in16 = (\<lambda>p m. (0, m)), in32 = (\<lambda>p m. (0, m)), out8 = (\<lambda>p v m. m), out16 = (\<lambda>p v m. m),
     out32 = (\<lambda>p v m. m), read8 = (\<lambda>a m. (ucast (m a), m)), read16 = (\<lambda>a m. (ucast (m a), m)), read32 = (\<lambda>a m. (m a, m)),
     read64 = (\<lambda>a m. (0, m)), write8 = (\<lambda>a v m. m), write16 = (\<lambda>a v m. m),
     write32 = (\<lambda>a v m. m(a := (v AND w a) OR (m a AND NOT (w a)))), write64 = (\<lambda>a v m. m),
     puts_con = (\<lambda>t m. m), read_msr = (\<lambda>r m. (0, m)), write_msr = (\<lambda>r v m. m), read_cpuid = (\<lambda>l m. ((0, 0, 0, 0), m)),
     read_cr8 = (\<lambda>m. (0, m)), write_cr8 = (\<lambda>v m. m)\<rparr>"

lemma ecam_inj: "ecam_addr host dev off = ecam_addr host dev' off' \<longleftrightarrow> dev = dev' \<and> off = off'"
proof (intro iffI conjI)
  let ?x = "\<lambda>dev off. ucast (push_bit 12 (ucast (dev :: u16) :: u32)) + (ucast (off :: u8) :: u64)"
  have len: "bit d i \<Longrightarrow> i < 16" "bit o' i \<Longrightarrow> i < 8" for d :: u16 and o' :: u8 and i
    using bit_imp_le_length [of d i] bit_imp_le_length [of o' i] by auto
  have x: "?x d o' = ucast (push_bit 12 (ucast d :: u32)) OR ucast o'" for d o'
    by (rule disjunctive_add) (auto simp: bit_simps dest: len)
  have bit_x: "bit (?x d o') i \<longleftrightarrow> (12 \<le> i \<and> bit d (i - 12)) \<or> bit o' i" for d o' i
    unfolding x using len(1) [of d "i - 12"] len(2) [of o' i] by (auto simp: bit_simps)
  assume "ecam_addr host dev off = ecam_addr host dev' off'"
  then have eq: "?x dev off = ?x dev' off'" by (simp add: ecam_addr_def pci_get_dev_conf_def PCI_ECAM_DEVFN_SHIFT_def algebra_simps)
  show "dev = dev'"
  proof (rule bit_word_eqI)
    fix i :: nat
    show "bit dev i = bit dev' i"
      using bit_x [of dev off "i + 12"] bit_x [of dev' off' "i + 12"] len(2) [of off "i + 12"] len(2) [of off' "i + 12"] eq by auto
  qed
  show "off = off'"
  proof (rule bit_word_eqI)
    fix i :: nat assume "i < LENGTH(8)"
    then show "bit off i = bit off' i" using bit_x [of dev off i] bit_x [of dev' off' i] eq by simp
  qed
qed simp

definition ecam_view :: "pci_host_bridge \<Rightarrow> (u64 \<Rightarrow> u32) \<Rightarrow> u16 \<Rightarrow> u8 \<Rightarrow> u32" where
  "ecam_view host m dev reg = m (ecam_addr host dev reg)"

lemma ecam_view_write: "ecam_view host (m(ecam_addr host dev reg := v)) =
    (\<lambda>dev' reg'. if dev' = dev \<and> reg' = reg then v else ecam_view host m dev' reg')"
  by (intro ext) (simp add: ecam_view_def ecam_inj)

lemma ecam_dwords: "pci_dwords (ecam_pci (ecam_machine (\<lambda>_. w)) host) (ecam_view host) (\<lambda>_ _. w)"
  unfolding pci_dwords_def
  by (auto simp: ecam_pci_def ecam_machine_def outS_def inS_def ecam_view_write intro!: ext) (simp_all add: ecam_view_def)

text \<open>The bridge above, and a 32-bit memory BAR of a page that has no address yet.\<close>

definition sample_bridge :: pci_host_bridge where
  "sample_bridge = \<lparr>hb_start = 0x3f000000, hb_size = 0x1000000, hb_bus = 0, hb_bus_max = 0xf,
     addr_space = map2 window_of sample_ranges [0, 0]\<rparr>"

lemma sample_bridge_windows:
  "addr_space sample_bridge = [
     \<lparr>as_pci_start = 0, as_start = 0x3eff0000, as_size = 0x10000, as_allocated = 0, as_type = 1\<rparr>,
     \<lparr>as_pci_start = 0x10000000, as_start = 0x10000000, as_size = 0x2eff0000, as_allocated = 0, as_type = 0\<rparr>]"
proof -
  have t: "range_type 0x1000000 = 1" "range_type 0x2000000 = 0" by code_simp+
  then show ?thesis by (simp add: sample_bridge_def sample_ranges_def window_of_def)
qed


section \<open>Windows that are never used, and addresses that are not found\<close>

text \<open>
  The type of a prefetchable 64-bit window is never the one that is looked for, since the flag is dropped for a 64-bit BAR but not
  for a window.
\<close>

lemma prefetchable_64_unused: "wanted_type bar \<noteq> range_type 0x43000000"
proof -
  have "wanted_type bar AND 0xc \<noteq> 0xc"
  proof
    assume a: "wanted_type bar AND 0xc = 0xc"
    have "bit (wanted_type bar AND 0xc) 2 = bit (0xc :: u32) 2" "bit (wanted_type bar AND 0xc) 3 = bit (0xc :: u32) 3" unfolding a by auto
    then have b: "bit (wanted_type bar) 2" "bit (wanted_type bar) 3" by (simp_all add: bit_and_iff)
    let ?ty = "pci_bar_type bar"
    show False
    proof (cases "?ty AND PCI_BASE_ADDRESS_MEM_TYPE_MASK = 0")
      case True
      then have "wanted_type bar = ?ty" by (simp add: wanted_type_def)
      moreover have "\<not> bit (?ty AND PCI_BASE_ADDRESS_MEM_TYPE_MASK) 2" by (simp add: True)
      ultimately show False using b(1) by (simp add: bit_and_iff PCI_BASE_ADDRESS_MEM_TYPE_MASK_def)
    next
      case False
      then have "wanted_type bar = ?ty AND NOT PCI_BASE_ADDRESS_MEM_PREFETCH" by (simp add: wanted_type_def)
      then show False using b(2) by (simp add: bit_and_iff bit_not_iff PCI_BASE_ADDRESS_MEM_PREFETCH_def)
    qed
  qed
  moreover have "range_type 0x43000000 AND 0xc = 0xc" by code_simp
  ultimately show ?thesis by metis
qed
text \<open>
  A BAR without an address reads as address 0. If no window contains that bus address, the probe fails an assertion before it could give
  the BAR an address.
\<close>

lemma unassigned_bar_stops:
  assumes P: "pci_dwords (ecam_pci M host) cfg w" and n: "bar_num_ok n" and z: "cfg d (bdf dev) (bar_reg n) = 0"
    and no: "pci_host_bridge_get_paddr host 0 = PCI_INVALID_PHYS_ADDR"
  shows "read_bar_addr (ecam_pci M host) dev n d = Inl Assert_failed"
proof -
  obtain d1 where d1: "pci_config_readl (ecam_pci M host) (bdf dev) (bar_reg n) d = Inr (0, d1)" "cfg d1 = cfg d"
    using pci_dwords_read [OF P, of "bdf dev" "bar_reg n" d] z by metis
  obtain d2 where d2: "pci_bar_is64 (ecam_pci M host) dev n d1 = Inr (bar_is64 0, d2)"
    using is64_read [where cfg = cfg and d = d1 and dev = dev, OF P n] z d1(2) by auto
  have "\<not> bar_is64 0" unfolding bar_is64_def by code_simp
  moreover have "pci_translate_addr (ecam_pci M host) (bdf dev) 0 = PCI_INVALID_PHYS_ADDR" using no by (simp add: ecam_pci_def)
  ultimately show ?thesis
    using n d1(1) d2 by (simp add: read_bar_addr_def pci_bar_get_def bindS_eval assertS_def returnS_def Let_def)
qed
end
