(* ===== verification/PciDevs.thy ===== *)
theory PciDevs
  imports Pci
begin

text \<open>
  The drivers of two PCI devices for tests: \<open>lib/pci-testdev.c\<close>, which measures accesses, and \<open>lib/pci-edu.c\<close>,
  which transfers memory. \<open>P\<close> are the accesses to configuration space and \<open>ioremap\<close> is the mapping of device memory.
\<close>

section \<open>The test device\<close>

definition PCI_VENDOR_ID_REDHAT :: u16 where "PCI_VENDOR_ID_REDHAT = 0x1b36"
definition PCI_DEVICE_ID_REDHAT_TEST :: u16 where "PCI_DEVICE_ID_REDHAT_TEST = 0x0005"

text \<open>Offsets of the fields of \<open>struct pci_test_dev_hdr\<close>.\<close>

definition HDR_TEST :: u64 where "HDR_TEST = 0"
definition HDR_WIDTH :: u64 where "HDR_WIDTH = 1"
definition HDR_OFFSET :: u64 where "HDR_OFFSET = 4"
definition HDR_DATA :: u64 where "HDR_DATA = 8"
definition HDR_COUNT :: u64 where "HDR_COUNT = 12"
definition HDR_NAME :: u64 where "HDR_NAME = 16"

record 'd testdev_ops =
  io_readb :: "u64 \<Rightarrow> ('d, u8) io"
  io_readw :: "u64 \<Rightarrow> ('d, u16) io"
  io_readl :: "u64 \<Rightarrow> ('d, u32) io"
  io_writeb :: "u8 \<Rightarrow> u64 \<Rightarrow> ('d, unit) io"
  io_writew :: "u16 \<Rightarrow> u64 \<Rightarrow> ('d, unit) io"
  io_writel :: "u32 \<Rightarrow> u64 \<Rightarrow> ('d, unit) io"
  is_io :: bool

text \<open>The last field tells which of the two tables it is, for the comparison of their addresses.\<close>

definition testdev_io_ops :: "'d machine \<Rightarrow> 'd testdev_ops" where
  "testdev_io_ops M = \<lparr>
     io_readb = (\<lambda>a. inS (in8 M (ucast a))), io_readw = (\<lambda>a. inS (in16 M (ucast a))), io_readl = (\<lambda>a. inS (in32 M (ucast a))),
     io_writeb = (\<lambda>v a. outS (out8 M (ucast a) v)), io_writew = (\<lambda>v a. outS (out16 M (ucast a) v)),
     io_writel = (\<lambda>v a. outS (out32 M (ucast a) v)), is_io = True\<rparr>"

definition testdev_mem_ops :: "'d machine \<Rightarrow> 'd testdev_ops" where
  "testdev_mem_ops M = \<lparr>
     io_readb = (\<lambda>a. inS (read8 M a)), io_readw = (\<lambda>a. inS (read16 M a)), io_readl = (\<lambda>a. inS (read32 M a)),
     io_writeb = (\<lambda>v a. outS (write8 M a v)), io_writew = (\<lambda>v a. outS (write16 M a v)),
     io_writel = (\<lambda>v a. outS (write32 M a v)), is_io = False\<rparr>"

text \<open>One of the sixteen writes, of the width the device asks for.\<close>

definition signal :: "'d testdev_ops \<Rightarrow> u8 \<Rightarrow> u32 \<Rightarrow> u64 \<Rightarrow> ('d, unit) io" where
  "signal ops width sig a =
     (if width = 1 then io_writeb ops (ucast sig) a
      else if width = 2 then io_writew ops (ucast sig) a
      else if width = 4 then io_writel ops sig a
      else returnS ())"

definition nr_writes :: nat where "nr_writes = 16"

definition testdev_one :: "'d testdev_ops \<Rightarrow> u64 \<Rightarrow> nat \<Rightarrow> ('d, bool) io" where
  "testdev_one ops test test_nr =
     bindS (io_writeb ops (of_nat test_nr) (test + HDR_TEST)) (\<lambda>_.
     bindS (io_readl ops (test + HDR_COUNT)) (\<lambda>count.
     if count \<noteq> 0 then returnS False
     else
       bindS (io_readb ops (test + HDR_WIDTH)) (\<lambda>width.
       if width \<noteq> 1 \<and> width \<noteq> 2 \<and> width \<noteq> 4 then returnS False
       else
         bindS (io_readl ops (test + HDR_DATA)) (\<lambda>sig.
         bindS (io_readl ops (test + HDR_OFFSET)) (\<lambda>off.
         bindS (forS (\<lambda>_. signal ops width sig (test + ucast off)) [0..<nr_writes]) (\<lambda>_.
         bindS (io_readl ops (test + HDR_COUNT)) (\<lambda>count.
         if count = 0 then returnS True else returnS (count = of_nat nr_writes))))))))"

partial_function (option) name_loop :: "'d machine \<Rightarrow> 'd testdev_ops \<Rightarrow> u64 \<Rightarrow> 'd \<Rightarrow> (err + (unit \<times> 'd)) option" where
  "name_loop M ops a d =
     (case io_readb ops a d of
        Inl e \<Rightarrow> Some (Inl e)
      | Inr (c, d) \<Rightarrow>
          if c = 0 then Some (Inr ((), d))
          else case printfS M ''%c'' [Word (ucast c)] d of
                 Inl e \<Rightarrow> Some (Inl e)
               | Inr (_, d) \<Rightarrow> name_loop M ops (a + 1) d)"

definition testdev_print :: "'d machine \<Rightarrow> u64 \<Rightarrow> 'd testdev_ops \<Rightarrow> ('d, unit) io" where
  "testdev_print M test ops =
     bindS (printfS M ''pci-testdev %3s: '' [Str (if is_io ops then ''io'' else ''mem'')]) (\<lambda>_.
     bindS (\<lambda>d. bindE (loopE (name_loop M ops (test + HDR_NAME) d)) (\<lambda>r. r)) (\<lambda>_.
     printfS M [CHR 0x0A] []))"

partial_function (option) all_loop :: "'d machine \<Rightarrow> u64 \<Rightarrow> 'd testdev_ops \<Rightarrow> nat \<Rightarrow> 'd \<Rightarrow> (err + (nat \<times> 'd)) option" where
  "all_loop M test ops i d =
     (case testdev_one ops test i d of
        Inl e \<Rightarrow> Some (Inl e)
      | Inr (ok, d) \<Rightarrow>
          if \<not> ok then Some (Inr (i, d))
          else case testdev_print M test ops d of
                 Inl e \<Rightarrow> Some (Inl e)
               | Inr (_, d) \<Rightarrow> all_loop M test ops (i + 1) d)"

definition testdev_all :: "'d machine \<Rightarrow> u64 \<Rightarrow> 'd testdev_ops \<Rightarrow> ('d, nat) io" where
  "testdev_all M test ops d = bindE (loopE (all_loop M test ops 0 d)) (\<lambda>r. r)"

definition PCI_PAGE_SIZE :: u64 where "PCI_PAGE_SIZE = push_bit 12 1"

definition pci_testdev :: "'d pci_access \<Rightarrow> (u64 \<Rightarrow> u64 \<Rightarrow> ('d, u64) io) \<Rightarrow> ('d, int) io" where
  "pci_testdev P ioremap =
     (let M = pci_machine P
      in bindS (pci_find_dev P PCI_VENDOR_ID_REDHAT PCI_DEVICE_ID_REDHAT_TEST) (\<lambda>dev.
         if dev = PCIDEVADDR_INVALID then
           bindS (printfS M ([CHR 0x27] @ ''pci-testdev'' @ [CHR 0x27] @ '' device is not found, check QEMU '' @ [CHR 0x27] @
             ''-device pci-testdev'' @ [CHR 0x27] @ '' parameter'' @ [CHR 0x0A]) []) (\<lambda>_. returnS (- 1))
         else
           bindS (pci_dev_init P dev) (\<lambda>pdev.
           bindS (pci_bar_is_valid pdev 0) (\<lambda>v0.
           bindS (if v0 then pci_bar_is_valid pdev 1 else returnS False) (\<lambda>ok.
           bindS (assertS ok) (\<lambda>_.
           bindS (pci_bar_get_addr pdev 0) (\<lambda>a.
           bindS (ioremap a PCI_PAGE_SIZE) (\<lambda>mem.
           bindS (pci_bar_get_addr pdev 1) (\<lambda>io.
           bindS (testdev_all M mem (testdev_mem_ops M)) (\<lambda>n.
           bindS (testdev_all M io (testdev_io_ops M)) (\<lambda>m. returnS (int n + int m))))))))))))"

section \<open>The educational device\<close>

definition PCI_VENDOR_ID_QEMU :: u16 where "PCI_VENDOR_ID_QEMU = 0x1234"
definition PCI_DEVICE_ID_EDU :: u16 where "PCI_DEVICE_ID_EDU = 0x11e8"
definition EDU_BAR :: nat where "EDU_BAR = 0"
definition EDU_REG_ALIVE :: u64 where "EDU_REG_ALIVE = 0x4"
definition EDU_REG_INTR_STATUS :: u64 where "EDU_REG_INTR_STATUS = 0x24"
definition EDU_REG_INTR_RAISE :: u64 where "EDU_REG_INTR_RAISE = 0x60"
definition EDU_REG_INTR_ACK :: u64 where "EDU_REG_INTR_ACK = 0x64"
definition EDU_REG_DMA_SRC :: u64 where "EDU_REG_DMA_SRC = 0x80"
definition EDU_REG_DMA_DST :: u64 where "EDU_REG_DMA_DST = 0x88"
definition EDU_REG_DMA_COUNT :: u64 where "EDU_REG_DMA_COUNT = 0x90"
definition EDU_REG_DMA_CMD :: u64 where "EDU_REG_DMA_CMD = 0x98"
definition EDU_CMD_DMA_START :: u32 where "EDU_CMD_DMA_START = 0x01"
definition EDU_CMD_DMA_FROM :: u32 where "EDU_CMD_DMA_FROM = 0x02"
definition EDU_CMD_DMA_TO :: u32 where "EDU_CMD_DMA_TO = 0x00"
definition EDU_DMA_START :: u64 where "EDU_DMA_START = 0x40000"
definition EDU_DMA_SIZE_MAX :: u64 where "EDU_DMA_SIZE_MAX = 4096"

record edu_dev =
  edu_pci :: pci_dev
  reg_base :: u64

definition edu_reg_readl :: "'d machine \<Rightarrow> edu_dev \<Rightarrow> u64 \<Rightarrow> ('d, u32) io" where
  "edu_reg_readl M dev reg = inS (read32 M (reg_base dev + reg))"

definition edu_reg_readq :: "'d machine \<Rightarrow> edu_dev \<Rightarrow> u64 \<Rightarrow> ('d, u64) io" where
  "edu_reg_readq M dev reg = inS (read64 M (reg_base dev + reg))"

definition edu_reg_writeq :: "'d machine \<Rightarrow> edu_dev \<Rightarrow> u64 \<Rightarrow> u64 \<Rightarrow> ('d, unit) io" where
  "edu_reg_writeq M dev reg val = outS (write64 M (reg_base dev + reg) val)"

definition edu_reg_writel :: "'d machine \<Rightarrow> edu_dev \<Rightarrow> u64 \<Rightarrow> u32 \<Rightarrow> ('d, unit) io" where
  "edu_reg_writel M dev reg val = outS (write32 M (reg_base dev + reg) val)"

text \<open>The static counter \<open>live_count\<close> before and after.\<close>

definition edu_check_alive :: "'d machine \<Rightarrow> edu_dev \<Rightarrow> u32 \<Rightarrow> ('d, bool \<times> u32) io" where
  "edu_check_alive M dev live_count =
     bindS (edu_reg_writel M dev EDU_REG_ALIVE live_count) (\<lambda>_.
     let live_count = live_count + 1
     in bindS (edu_reg_readl M dev EDU_REG_ALIVE) (\<lambda>value. returnS (live_count - 1 = NOT value, live_count)))"

definition edu_init :: "'d pci_access \<Rightarrow> (u64 \<Rightarrow> u64 \<Rightarrow> ('d, u64) io) \<Rightarrow> u32 \<Rightarrow> ('d, edu_dev option \<times> u32) io" where
  "edu_init P ioremap live_count =
     (let M = pci_machine P
      in bindS (pci_find_dev P PCI_VENDOR_ID_QEMU PCI_DEVICE_ID_EDU) (\<lambda>dev_addr.
         if dev_addr = PCIDEVADDR_INVALID then returnS (None, live_count)
         else
           bindS (pci_dev_init P dev_addr) (\<lambda>pdev.
           bindS (pci_enable_defaults P pdev) (\<lambda>pdev.
           bindS (ioremap (resource pdev ! EDU_BAR) PCI_PAGE_SIZE) (\<lambda>base.
           let dev = \<lparr>edu_pci = pdev, reg_base = base\<rparr>
           in bindS (edu_check_alive M dev live_count) (\<lambda>(ok, live_count).
              bindS (assertS ok) (\<lambda>_. returnS (Some dev, live_count))))))))"

partial_function (option) dma_wait :: "'d machine \<Rightarrow> edu_dev \<Rightarrow> 'd \<Rightarrow> (err + (unit \<times> 'd)) option" where
  "dma_wait M dev d =
     (case edu_reg_readl M dev EDU_REG_DMA_CMD d of
        Inl e \<Rightarrow> Some (Inl e)
      | Inr (v, d) \<Rightarrow> if v AND EDU_CMD_DMA_START \<noteq> 0 then dma_wait M dev d else Some (Inr ((), d)))"

definition edu_dma :: "'d machine \<Rightarrow> edu_dev \<Rightarrow> u64 \<Rightarrow> u64 \<Rightarrow> u32 \<Rightarrow> bool \<Rightarrow> ('d, unit) io" where
  "edu_dma M dev iova sz dev_offset from_device =
     bindS (assertS (sz \<le> EDU_DMA_SIZE_MAX)) (\<lambda>_.
     bindS (assertS (ucast dev_offset < EDU_DMA_SIZE_MAX)) (\<lambda>_.
     bindS (printfS M (''edu device DMA start %s addr %#lx size %lu off %#x'' @ [CHR 0x0A])
       [Str (if from_device then ''FROM'' else ''TO''), Word iova, Word sz, Word (ucast dev_offset)]) (\<lambda>_.
     let from = (if from_device then ucast dev_offset + EDU_DMA_START else iova);
         to = (if from_device then iova else EDU_DMA_START + ucast dev_offset);
         cmd = EDU_CMD_DMA_START OR (if from_device then EDU_CMD_DMA_FROM else EDU_CMD_DMA_TO)
     in bindS (edu_reg_writeq M dev EDU_REG_DMA_SRC from) (\<lambda>_.
        bindS (edu_reg_writeq M dev EDU_REG_DMA_DST to) (\<lambda>_.
        bindS (edu_reg_writeq M dev EDU_REG_DMA_COUNT sz) (\<lambda>_.
        bindS (edu_reg_writel M dev EDU_REG_DMA_CMD cmd) (\<lambda>_ d.
        bindE (loopE (dma_wait M dev d)) (\<lambda>r. r))))))))"
section \<open>Transfers\<close>

text \<open>What a DMA engine does: it keeps the registers that are written, starts a transfer with them, and is busy for a while.\<close>

record dma_state =
  dma_src :: u64
  dma_dst :: u64
  dma_count :: u64
  dma_busy :: nat
  dma_log :: "(u64 \<times> u64 \<times> u64 \<times> u32) list"

definition dma_start :: "u32 \<Rightarrow> nat \<Rightarrow> dma_state \<Rightarrow> dma_state" where
  "dma_start cmd n s = s\<lparr>dma_busy := n, dma_log := dma_log s @ [(dma_src s, dma_dst s, dma_count s, cmd)]\<rparr>"

definition dma_engine :: "'d machine \<Rightarrow> u64 \<Rightarrow> ('d \<Rightarrow> dma_state) \<Rightarrow> bool" where
  "dma_engine M base st \<longleftrightarrow>
     (\<forall>d v. st (write64 M (base + EDU_REG_DMA_SRC) v d) = (st d)\<lparr>dma_src := v\<rparr>) \<and>
     (\<forall>d v. st (write64 M (base + EDU_REG_DMA_DST) v d) = (st d)\<lparr>dma_dst := v\<rparr>) \<and>
     (\<forall>d v. st (write64 M (base + EDU_REG_DMA_COUNT) v d) = (st d)\<lparr>dma_count := v\<rparr>) \<and>
     (\<forall>d v. v AND EDU_CMD_DMA_START \<noteq> 0 \<longrightarrow> (\<exists>n. st (write32 M (base + EDU_REG_DMA_CMD) v d) = dma_start v n (st d))) \<and>
     (\<forall>d. \<exists>v d'. read32 M (base + EDU_REG_DMA_CMD) d = (v, d') \<and>
        (v AND EDU_CMD_DMA_START \<noteq> 0 \<longleftrightarrow> 0 < dma_busy (st d)) \<and> st d' = (st d)\<lparr>dma_busy := dma_busy (st d) - 1\<rparr>) \<and>
     (\<forall>d t. st (puts_con M t d) = st d)"

lemma dma_engine_start:
  "\<lbrakk>dma_engine M base st; v AND EDU_CMD_DMA_START \<noteq> 0\<rbrakk> \<Longrightarrow> \<exists>n. st (write32 M (base + EDU_REG_DMA_CMD) v d) = dma_start v n (st d)"
  by (simp add: dma_engine_def)

lemma dma_wait_ends:
  assumes "dma_engine M (reg_base dev) st"
  shows "\<exists>d'. dma_wait M dev d = Some (Inr ((), d')) \<and> st d' = (st d)\<lparr>dma_busy := 0\<rparr>"
proof (induction "dma_busy (st d)" arbitrary: d)
  case 0
  then obtain v d' where r: "read32 M (reg_base dev + EDU_REG_DMA_CMD) d = (v, d')" "v AND EDU_CMD_DMA_START = 0"
    "st d' = (st d)\<lparr>dma_busy := dma_busy (st d) - 1\<rparr>"
    using assms unfolding dma_engine_def by (metis less_numeral_extra(3))
  have "(st d)\<lparr>dma_busy := 0\<rparr> = st d" using 0 by simp
  then show ?case using r 0 by (subst dma_wait.simps) (simp add: edu_reg_readl_def inS_def)
next
  case (Suc n)
  then obtain v d1 where r: "read32 M (reg_base dev + EDU_REG_DMA_CMD) d = (v, d1)" "v AND EDU_CMD_DMA_START \<noteq> 0"
    "st d1 = (st d)\<lparr>dma_busy := dma_busy (st d) - 1\<rparr>"
    using assms unfolding dma_engine_def by (metis zero_less_Suc)
  have "n = dma_busy (st d1)" using Suc.hyps(2) r(3) by simp
  from Suc.hyps(1) [OF this] obtain d' where "dma_wait M dev d1 = Some (Inr ((), d'))" "st d' = (st d1)\<lparr>dma_busy := 0\<rparr>" by blast
  then show ?case using r by (subst dma_wait.simps) (simp add: edu_reg_readl_def inS_def)
qed

text \<open>
  C22: \<open>edu_dma\<close> starts exactly one transfer, between the address it is given and the buffer of the device, in the direction asked for
  and of the size asked for, and returns when the device is no longer busy; it refuses sizes and offsets beyond the buffer.
\<close>

theorem edu_dma_transfers:
  assumes "dma_engine M (reg_base dev) st"
  shows "if sz \<le> EDU_DMA_SIZE_MAX \<and> ucast dev_offset < EDU_DMA_SIZE_MAX
    then \<exists>d'. edu_dma M dev iova sz dev_offset from_device d = Inr ((), d') \<and> dma_busy (st d') = 0 \<and>
      dma_log (st d') = dma_log (st d) @
        [if from_device then (EDU_DMA_START + ucast dev_offset, iova, sz, EDU_CMD_DMA_START OR EDU_CMD_DMA_FROM)
         else (iova, EDU_DMA_START + ucast dev_offset, sz, EDU_CMD_DMA_START OR EDU_CMD_DMA_TO)]
    else edu_dma M dev iova sz dev_offset from_device d = Inl Assert_failed"
proof (cases "sz \<le> EDU_DMA_SIZE_MAX \<and> ucast dev_offset < EDU_DMA_SIZE_MAX")
  case False
  then have "edu_dma M dev iova sz dev_offset from_device d = Inl Assert_failed"
    unfolding edu_dma_def by (simp only: bindS_assertS split: if_split) blast
  then show ?thesis unfolding if_not_P [OF False] .
next
  case True
  let ?va = "[Str (if from_device then ''FROM'' else ''TO''), Word iova, Word sz, Word (ucast dev_offset)]"
  let ?from = "if from_device then ucast dev_offset + EDU_DMA_START else iova"
  let ?to = "if from_device then iova else EDU_DMA_START + ucast dev_offset"
  let ?cmd = "EDU_CMD_DMA_START OR (if from_device then EDU_CMD_DMA_FROM else EDU_CMD_DMA_TO)"
  let ?b = "reg_base dev"
  have "fmt_ok (''edu device DMA start %s addr %#lx size %lu off %#x'' @ [CHR 0x0A]) ?va" by (simp add: fmt_ok_simps)
  from printfS_ok [OF this, of M] obtain out where
    pr: "\<forall>d. printfS M (''edu device DMA start %s addr %#lx size %lu off %#x'' @ [CHR 0x0A]) ?va d = Inr ((), puts_con M out d)"
    by (rule exE)
  define d1 where "d1 = write64 M (?b + EDU_REG_DMA_COUNT) sz (write64 M (?b + EDU_REG_DMA_DST) ?to
    (write64 M (?b + EDU_REG_DMA_SRC) ?from (puts_con M out d)))"
  have st1: "st d1 = (st d)\<lparr>dma_src := ?from, dma_dst := ?to, dma_count := sz\<rparr>"
    using assms by (simp add: dma_engine_def d1_def)
  have "(EDU_CMD_DMA_START OR EDU_CMD_DMA_FROM) AND EDU_CMD_DMA_START \<noteq> 0"
    "(EDU_CMD_DMA_START OR EDU_CMD_DMA_TO) AND EDU_CMD_DMA_START \<noteq> 0" by code_simp+
  then have "?cmd AND EDU_CMD_DMA_START \<noteq> 0" by (simp split: if_split)
  from dma_engine_start [OF assms this] obtain k where st2: "st (write32 M (?b + EDU_REG_DMA_CMD) ?cmd d1) = dma_start ?cmd k (st d1)"
    by (rule exE)
  obtain d' where w: "dma_wait M dev (write32 M (?b + EDU_REG_DMA_CMD) ?cmd d1) = Some (Inr ((), d'))"
    and std: "st d' = (st (write32 M (?b + EDU_REG_DMA_CMD) ?cmd d1))\<lparr>dma_busy := 0\<rparr>"
    using dma_wait_ends [OF assms, of "write32 M (?b + EDU_REG_DMA_CMD) ?cmd d1"] by (elim exE conjE)
  have run: "edu_dma M dev iova sz dev_offset from_device d = Inr ((), d')"
    using True w unfolding d1_def edu_dma_def Let_def
    by (simp only: bindS_eval assertS_def pr [rule_format] edu_reg_writeq_def edu_reg_writel_def outS_def loopE_def if_True sum.case prod.case option.case bindE_Inr)
  have busy: "dma_busy (st d') = 0" by (simp add: std)
  have log: "dma_log (st d') = dma_log (st d) @
      [if from_device then (EDU_DMA_START + ucast dev_offset, iova, sz, EDU_CMD_DMA_START OR EDU_CMD_DMA_FROM)
       else (iova, EDU_DMA_START + ucast dev_offset, sz, EDU_CMD_DMA_START OR EDU_CMD_DMA_TO)]"
    unfolding std st2 st1 by (cases from_device) (simp_all add: dma_start_def add.commute)
  show ?thesis unfolding if_P [OF True] using run busy log by blast
qed

text \<open>A device that is busy for two reads.\<close>

definition edu_machine :: "dma_state machine" where
  "edu_machine = idle_machine\<lparr>
     write64 := (\<lambda>a v s. if a = 0x1080 then s\<lparr>dma_src := v\<rparr> else if a = 0x1088 then s\<lparr>dma_dst := v\<rparr>
       else if a = 0x1090 then s\<lparr>dma_count := v\<rparr> else s),
     write32 := (\<lambda>a v s. if a = 0x1098 then dma_start v 2 s else s),
     read32 := (\<lambda>a s. (if 0 < dma_busy s then 1 else 0, s\<lparr>dma_busy := dma_busy s - 1\<rparr>))\<rparr>"

lemma edu_dma_transfers_witness:
  "\<exists>s'. edu_dma edu_machine \<lparr>edu_pci = sample_dev, reg_base = 0x1000\<rparr> 0x2000 4 0 True
       \<lparr>dma_src = 0, dma_dst = 0, dma_count = 0, dma_busy = 0, dma_log = []\<rparr> = Inr ((), s') \<and>
     dma_log s' = [(0x40000, 0x2000, 4, 3)]"
proof -
  have e: "dma_engine edu_machine (reg_base \<lparr>edu_pci = sample_dev, reg_base = 0x1000\<rparr>) (\<lambda>s. s)"
    by (auto simp: dma_engine_def edu_machine_def idle_machine_def EDU_REG_DMA_SRC_def EDU_REG_DMA_DST_def EDU_REG_DMA_COUNT_def
        EDU_REG_DMA_CMD_def EDU_CMD_DMA_START_def)
  have "(4 :: u64) \<le> EDU_DMA_SIZE_MAX \<and> (ucast (0 :: u32) :: u64) < EDU_DMA_SIZE_MAX"
    "EDU_CMD_DMA_START OR EDU_CMD_DMA_FROM = 3" "EDU_DMA_START + ucast (0 :: u32) = (0x40000 :: u64)"
    by (simp_all add: EDU_DMA_SIZE_MAX_def EDU_CMD_DMA_START_def EDU_CMD_DMA_FROM_def EDU_DMA_START_def)
  then show ?thesis
    using edu_dma_transfers [OF e, of 4 0 "0x2000" True "\<lparr>dma_src = 0, dma_dst = 0, dma_count = 0, dma_busy = 0, dma_log = []\<rparr>"]
    by auto
qed

section \<open>The number of tests\<close>

text \<open>\<open>pci_testdev_all\<close> runs the tests of the device in their order and counts those that pass, up to the first one that does not.\<close>

lemma testdev_all_counts:
  assumes "I 0 d"
    and pass: "\<And>i d. \<lbrakk>i < n; I i d\<rbrakk> \<Longrightarrow>
      \<exists>d1 d2. testdev_one ops test i d = Inr (True, d1) \<and> testdev_print M test ops d1 = Inr ((), d2) \<and> I (Suc i) d2"
    and stop: "\<And>d. I n d \<Longrightarrow> \<exists>d'. testdev_one ops test n d = Inr (False, d')"
  shows "\<exists>d'. testdev_all M test ops d = Inr (n, d')"
proof -
  have "\<exists>d'. all_loop M test ops i d = Some (Inr (n, d'))" if "i \<le> n" "I i d" for i d
    using that
  proof (induction "n - i" arbitrary: i d)
    case 0
    then obtain d' where "testdev_one ops test n d = Inr (False, d')" using stop by fastforce
    then show ?case using 0 by (subst all_loop.simps) simp
  next
    case (Suc k)
    then have i: "i < n" by simp
    obtain d1 d2 where r: "testdev_one ops test i d = Inr (True, d1)" "testdev_print M test ops d1 = Inr ((), d2)" "I (Suc i) d2"
      using pass [OF i Suc.prems(2)] by blast
    have "k = n - Suc i" "Suc i \<le> n" using Suc.hyps(2) by simp_all
    from Suc.hyps(1) [OF this r(3)] show ?case using r by (subst all_loop.simps) simp
  qed
  from this [OF _ assms(1)] show ?thesis by (auto simp: testdev_all_def loopE_def)
qed
end
