(* ===== verification/ChrTestdev.thy ===== *)
theory ChrTestdev
  imports VirtioBind
begin

text \<open>
  The driver of the test device behind a virtio console, \<open>lib/chr-testdev.c\<close>, by which a test ends the machine with a code.
\<close>

text \<open>The variables of the driver: the device and its queues.\<close>

record 'd chr_testdev =
  vcon :: "virtio_mmio_device option"
  in_vq :: "('d, unit) vm_queue option"
  out_vq :: "('d, unit) vm_queue option"

definition VIRTIO_ID_CONSOLE :: u32 where "VIRTIO_ID_CONSOLE = 3"

text \<open>
  The device can change the queue, in its own time, before each look at it. \<open>NULL\<close> from \<open>virtqueue_get_buf\<close> makes the driver
  look again.
\<close>

partial_function (option) send_wait ::
    "(('n, 'c) vring_virtqueue \<Rightarrow> ('n, 'c) vring_virtqueue) \<Rightarrow> ('n, 'c) vring_virtqueue \<Rightarrow> (err + ('n, 'c) vring_virtqueue) option" where
  "send_wait device vq =
     (case virtqueue_get_buf (device vq) of
        Inl e \<Rightarrow> Some (Inl e)
      | Inr ((buf, len), vq) \<Rightarrow> if buf = 0 then send_wait device vq else Some (Inr vq))"

definition testdev_send ::
    "(('d, 'c) vm_queue \<Rightarrow> ('d, 'c) vm_queue) \<Rightarrow> u64 \<Rightarrow> u32 \<Rightarrow> ('d, 'c) vm_queue \<Rightarrow> ('d, ('d, 'c) vm_queue) io" where
  "testdev_send device buf len vq =
     bindS (liftS (virtqueue_add_outbuf buf len vq)) (\<lambda>(ret, vq).
     bindS (virtqueue_kick (\<lambda>vq. notify vq (index vq)) vq) (\<lambda>_.
     if ret < 0 then returnS vq
     else liftS (bindE (loopE (send_wait device vq)) (\<lambda>r. r))))"

text \<open>
  \<open>buf\<close> is the address of the static buffer of eight bytes. The result is the text in it, if there is a console, and the
  variables.
\<close>

definition chr_testdev_exit ::
    "(('d, unit) vm_queue \<Rightarrow> ('d, unit) vm_queue) \<Rightarrow> u64 \<Rightarrow> 'd chr_testdev \<Rightarrow> u32 \<Rightarrow> ('d, string option \<times> 'd chr_testdev) io" where
  "chr_testdev_exit device buf v code =
     (if vcon v = None then returnS (None, v)
      else
        bindS (liftS (snprintf 8 ''%dq'' [Word (ucast code)])) (\<lambda>(text, _).
        case out_vq v of
          None \<Rightarrow> (\<lambda>_. Inl Null_deref)
        | Some vq \<Rightarrow>
            bindS (testdev_send device buf (of_nat (length text)) vq) (\<lambda>vq.
            returnS (Some text, v\<lparr>out_vq := Some vq\<rparr>))))"

text \<open>The device on the heap is at \<open>dev\<close>.\<close>

definition chr_testdev_init ::
    "'d machine \<Rightarrow> fdt_lib \<Rightarrow> (u64 \<Rightarrow> u64 \<Rightarrow> ('d, u64) io) \<Rightarrow> bool \<Rightarrow> ('d vmmio_state, u64 \<times> nat) io \<Rightarrow> u64 \<Rightarrow>
     'd chr_testdev \<Rightarrow> ('d vmmio_state, 'd chr_testdev) io" where
  "chr_testdev_init M F ioremap calloc_ok calloc dev v =
     bindS (on_vm (virtio_bind M F ioremap calloc_ok VIRTIO_ID_CONSOLE)) (\<lambda>con.
     case con of
       None \<Rightarrow>
         bindS (on_vm (printfS M (''%s: %s: can'' @ [CHR 0x27] @ ''t find a virtio-console'' @ [CHR 0x0A])
                  [Str ''chr_testdev_init'', Str ''chr-testdev''])) (\<lambda>_. returnS (v\<lparr>vcon := None\<rparr>))
     | Some d \<Rightarrow>
         bindS (vm_find_vqs M calloc dev d [(0, (), ''input''), (1, (), ''output'')]) (\<lambda>(ret, vqs).
         if ret < 0 then
           bindS (on_vm (printfS M (''%s: %s: can'' @ [CHR 0x27] @ ''t init virtqueues'' @ [CHR 0x0A])
                    [Str ''chr_testdev_init'', Str ''chr-testdev''])) (\<lambda>_. returnS (v\<lparr>vcon := None\<rparr>))
         else returnS \<lparr>vcon = Some d, in_vq = Some (vqs ! 0), out_vq = Some (vqs ! 1)\<rparr>))"

section \<open>What the device is told\<close>

text \<open>The text of a code, of which the buffer holds seven characters.\<close>

lemma exit_text:
  fixes code :: u32
  shows "snprintf 8 ''%dq'' [Word (ucast code)] =
    Inr (take 7 (int_str 10 (sint code) @ ''q''), of_nat (length (int_str 10 (sint code) @ ''q'')))"
proof -
  have "ucast (ucast code :: u64) = code" by (rule bit_word_eqI) (simp add: bit_simps)
  then have s: "sint (as_int 0 (ucast code)) = sint code" by (simp add: as_int_def sint_up_scast is_up)
  let ?p = "\<lparr>buffer = [], remain = 7, added = 0\<rparr>"
  have "vsnprintf_loop ?p ''%dq'' [Word (ucast code)] = Inr (addstr ?p (int_str 10 (sint code) @ ''q''))"
    by (subst vsnprintf_loop.simps, simp add: morefmt_stop convert_def va_word_def print_int_runs s pad_str_def default_props_def,
        subst vsnprintf_loop.simps, simp, subst vsnprintf_loop.simps, simp add: addstr_append)
  then show ?thesis by (simp add: snprintf_def vsnprintf_def addstr_eq)
qed

text \<open>
  On a new queue the driver puts the text into the first descriptor, notifies the device once, and returns although the device has
  not completed the buffer: here the device does nothing.
\<close>

lemma exit_does_not_wait:
  assumes "vcon v = Some c" "out_vq v = Some vq" "k \<le> 15" "buf \<noteq> 0"
    and vq: "vring_init_virtqueue (2 ^ k) (zero_ring (2 ^ k)) ind (2 ^ k) align dev queue (vm_notify M c) () name = Inr vq"
  shows "\<exists>v'. chr_testdev_exit (\<lambda>vq. vq) buf v code d =
    Inr ((Some (take 7 (int_str 10 (sint code) @ ''q'')), v'), write32 M (vm_base c + VIRTIO_MMIO_QUEUE_NOTIFY) ind d)"
proof -
  define msg where "msg = take 7 (int_str 10 (sint code) @ ''q'')"
  have small: "(of_nat n :: u32) \<noteq> 0" if "0 < n" "n \<le> 7" for n :: nat
  proof -
    have "unat (of_nat n :: u32) = n" using that by (simp add: unat_of_nat take_bit_nat_eq_self)
    then show ?thesis using that by (metis less_numeral_extra(3) unat_0)
  qed
  have len: "(of_nat (length msg) :: u32) \<noteq> 0" by (rule small) (simp_all add: msg_def)
  obtain vq1 vq2 where add: "virtqueue_add_outbuf buf (of_nat (length msg)) vq = Inr (0, vq1)"
    and get: "virtqueue_get_buf vq1 = Inr ((buf, 0), vq2)"
    using virtqueue_get_buf_too_early [OF assms(3,4) len vq] by blast
  have n: "notify vq1 = notify vq" "index vq1 = index vq"
    using add by (auto simp: virtqueue_add_outbuf_def Let_def bindE_eq_Inr split: if_splits)
  have nq: "notify vq = vm_notify M c" "index vq = ind"
    using vq by (auto simp: vring_init_virtqueue_def bindE_eq_Inr)
  have w: "send_wait (\<lambda>vq. vq) vq1 = Some (Inr vq2)" using get assms(4) by (subst send_wait.simps) simp
  have "testdev_send (\<lambda>vq. vq) buf (of_nat (length msg)) vq d = Inr (vq2, write32 M (vm_base c + VIRTIO_MMIO_QUEUE_NOTIFY) ind d)"
    by (simp add: testdev_send_def bindS_eval liftS_def add virtqueue_kick_def n nq vm_notify_def outS_def returnS_def w loopE_def)
  moreover have "snprintf 8 ''%dq'' [Word (ucast code)] = Inr (msg, of_nat (length (int_str 10 (sint code) @ ''q'')))"
    by (simp only: exit_text msg_def)
  ultimately show ?thesis
    unfolding msg_def [symmetric] using assms(1,2) by (simp add: chr_testdev_exit_def bindS_eval liftS_def returnS_def)
qed
end
