(* ===== verification/Platform.thy ===== *)
theory Platform
  imports Vmalloc Argv DeviceIO
begin

text \<open>
  The platform code of x86: the ACPI tables (\<open>lib/x86/acpi.c\<close>), what the boot loader hands over (\<open>lib/x86/setup.c\<close>), the
  serial port, the end of a test and the mapping of device memory (\<open>lib/x86/io.c\<close>), and \<open>lib/abort.c\<close>.
\<close>

section \<open>ACPI tables\<close>

text \<open>A 32-bit field in memory, which can be unaligned.\<close>

definition ld32 :: "mem \<Rightarrow> u64 \<Rightarrow> u32" where
  "ld32 m a = ucast (m a) OR push_bit 8 (ucast (m (a + 1))) OR push_bit 16 (ucast (m (a + 2))) OR push_bit 24 (ucast (m (a + 3)))"

definition ACPI_SIGNATURE :: "char \<Rightarrow> char \<Rightarrow> char \<Rightarrow> char \<Rightarrow> u32" where
  "ACPI_SIGNATURE c1 c2 c3 c4 = of_char c1 OR push_bit 8 (of_char c2) OR push_bit 16 (of_char c3) OR push_bit 24 (of_char c4)"

definition RSDP_SIGNATURE :: u32 where "RSDP_SIGNATURE = ACPI_SIGNATURE CHR ''R'' CHR ''S'' CHR ''D'' CHR ''P''"
definition RSDT_SIGNATURE :: u32 where "RSDT_SIGNATURE = ACPI_SIGNATURE CHR ''R'' CHR ''S'' CHR ''D'' CHR ''T''"
definition FACP_SIGNATURE :: u32 where "FACP_SIGNATURE = ACPI_SIGNATURE CHR ''F'' CHR ''A'' CHR ''C'' CHR ''P''"
definition FACS_SIGNATURE :: u32 where "FACS_SIGNATURE = ACPI_SIGNATURE CHR ''F'' CHR ''A'' CHR ''C'' CHR ''S''"

text \<open>Offsets in the tables: \<open>rsdt_physical_address\<close>, \<open>length\<close>, and what follows the common header.\<close>

definition RSDP_RSDT :: u64 where "RSDP_RSDT = 16"
definition TABLE_LENGTH :: u64 where "TABLE_LENGTH = 4"
definition TABLE_BODY :: u64 where "TABLE_BODY = 36"

text \<open>The loop over the places of the root pointer; the result is where it stopped.\<close>

function rsdp_loop :: "mem \<Rightarrow> nat \<Rightarrow> nat" where
  "rsdp_loop m a =
     (if a < 0x100000 then if ldptr m (of_nat a) = 0x2052545020445352 then a else rsdp_loop m (a + 16) else a)"
  by pat_completeness auto
termination by (relation "measure (\<lambda>(m, a). 0x100000 - a)") auto

text \<open>
  The loop over the entries. The table is below \<open>2 ^ 32\<close> and its length is a 32-bit number, so that no address wraps.
\<close>

function table_loop :: "mem \<Rightarrow> u32 \<Rightarrow> nat \<Rightarrow> nat \<Rightarrow> u64" where
  "table_loop m sig a stop =
     (if a < stop then
        let t = ucast (ld32 m (of_nat a))
        in if t \<noteq> 0 \<and> ld32 m t = sig then t else table_loop m sig (a + 4) stop
      else 0)"
  by pat_completeness auto
termination by (relation "measure (\<lambda>(m, sig, a, stop). stop - a)") auto

declare rsdp_loop.simps [simp del] table_loop.simps [simp del]

text \<open>The result is what is printed, and the address or NULL.\<close>

definition find_table :: "mem \<Rightarrow> u32 \<Rightarrow> err + (string \<times> u64)" where
  "find_table m sig =
     (let a = rsdp_loop m 0xf0000; rsdp = of_nat a
      in if a = 0x100000 then
           bindE (printf (''Can'' @ [CHR 0x27] @ ''t find RSDP'' @ [CHR 0x0A]) []) (\<lambda>(out, _). Inr (out, 0))
         else if sig = RSDP_SIGNATURE then Inr ([], rsdp)
         else
           let rsdt = ucast (ld32 m (rsdp + RSDP_RSDT)) :: u64
           in if rsdt = 0 \<or> ld32 m rsdt \<noteq> RSDT_SIGNATURE then Inr ([], 0)
              else if sig = RSDT_SIGNATURE then Inr ([], rsdt)
              else Inr ([], table_loop m sig (unat (rsdt + TABLE_BODY)) (unat (rsdt + ucast (ld32 m (rsdt + TABLE_LENGTH))))))"

text \<open>The recursive call asks for another signature, for which there is none.\<close>

definition find_acpi_table_addr :: "mem \<Rightarrow> u32 \<Rightarrow> err + (string \<times> u64)" where
  "find_acpi_table_addr m sig =
     (if sig = FACS_SIGNATURE then
        bindE (find_table m FACP_SIGNATURE) (\<lambda>(out, fadt).
        Inr (out, if fadt = 0 then 0 else ucast (ld32 m (fadt + TABLE_BODY))))
      else find_table m sig)"

section \<open>What the boot loader hands over\<close>

text \<open>Offsets of \<open>mem_upper\<close>, \<open>mods_count\<close> and \<open>mods_addr\<close> in the information of the boot loader, and of \<open>end\<close> in a module.\<close>

definition MBI_MEM_UPPER :: u64 where "MBI_MEM_UPPER = 8"
definition MBI_MODS_COUNT :: u64 where "MBI_MODS_COUNT = 20"
definition MBI_MODS_ADDR :: u64 where "MBI_MODS_ADDR = 24"
definition MOD_START :: u64 where "MOD_START = 0"
definition MOD_END :: u64 where "MOD_END = 4"

definition ENV_SIZE :: u32 where "ENV_SIZE = 16384"

record boot_state =
  initrd :: u64
  initrd_size :: u32

definition setup_multiboot :: "mem \<Rightarrow> u64 \<Rightarrow> u64 \<Rightarrow> boot_state \<times> 'a heap_state_scheme \<Rightarrow> boot_state \<times> 'a heap_state_scheme" where
  "setup_multiboot m edata bootinfo bs =
     (let (b, s) = bs;
          end_of_memory = ucast (ld32 m (bootinfo + MBI_MEM_UPPER)) * 1024;
          s = phys_alloc_init edata (end_of_memory - edata) s
      in if ld32 m (bootinfo + MBI_MODS_COUNT) \<noteq> 1 then (b, s)
         else
           let mods = ucast (ld32 m (bootinfo + MBI_MODS_ADDR))
           in (b\<lparr>initrd := ucast (ld32 m (mods + MOD_START)),
                initrd_size := ld32 m (mods + MOD_END) - ld32 m (mods + MOD_START)\<rparr>, s))"

text \<open>\<open>env\<close> is the address of the static array of \<open>ENV_SIZE\<close> bytes.\<close>

definition setup_libcflat :: "u64 \<Rightarrow> boot_state \<Rightarrow> argv_state \<Rightarrow> err + argv_state" where
  "setup_libcflat env b s =
     (if initrd b \<noteq> 0 then
        let sz = (if initrd_size b < ENV_SIZE then initrd_size b else ENV_SIZE);
            (m, _) = memcpy (bytes s) env (initrd b) (ucast sz)
        in setup_env env sz (s\<lparr>bytes := m\<rparr>)
      else Inr s)"

section \<open>The serial port\<close>

definition serial_iobase :: u16 where "serial_iobase = 0x3f8"

partial_function (option) lsr_wait :: "'d machine \<Rightarrow> 'd \<Rightarrow> 'd option" where
  "lsr_wait M d = (let (lsr, d) = in8 M (serial_iobase + 0x05) d in if lsr AND 0x20 = 0 then lsr_wait M d else Some d)"

definition serial_outb :: "'d machine \<Rightarrow> u8 \<Rightarrow> ('d, unit) io" where
  "serial_outb M ch =
     bindS (\<lambda>d. bindE (loopE (lsr_wait M d)) (\<lambda>d. Inr ((), d))) (\<lambda>_. outS (out8 M (serial_iobase + 0x00) ch))"

definition serial_put :: "'d machine \<Rightarrow> u8 \<Rightarrow> ('d, unit) io" where
  "serial_put M ch = bindS (if ch = 0x0A then serial_outb M 0x0D else returnS ()) (\<lambda>_. serial_outb M ch)"

definition serial_init :: "'d machine \<Rightarrow> ('d, unit) io" where
  "serial_init M =
     bindS (inS (in8 M (serial_iobase + 0x03))) (\<lambda>lcr.
     bindS (outS (out8 M (serial_iobase + 0x03) (lcr OR 0x80))) (\<lambda>_.
     bindS (outS (out8 M (serial_iobase + 0x00) 0x01)) (\<lambda>_.
     bindS (outS (out8 M (serial_iobase + 0x01) 0x00)) (\<lambda>_.
     bindS (inS (in8 M (serial_iobase + 0x03))) (\<lambda>lcr.
     bindS (outS (out8 M (serial_iobase + 0x03) (lcr AND NOT 0x80))) (\<lambda>_.
     bindS (outS (out8 M (serial_iobase + 0x01) 0x00)) (\<lambda>_.
     bindS (outS (out8 M (serial_iobase + 0x03) 0x03)) (\<lambda>_.
     bindS (outS (out8 M (serial_iobase + 0x02) 0x00)) (\<lambda>_.
     outS (out8 M (serial_iobase + 0x04) 0x03))))))))))"

text \<open>The string is the one that is pointed to, without its NUL; \<open>serial_inited\<close> is the variable before and after.\<close>

definition print_serial :: "'d machine \<Rightarrow> u8 list \<Rightarrow> bool \<Rightarrow> ('d, bool) io" where
  "print_serial M buf serial_inited =
     bindS (if serial_inited then returnS () else serial_init M) (\<lambda>_.
     bindS (forS (serial_put M) buf) (\<lambda>_. returnS True))"

definition puts :: "'d machine \<Rightarrow> u8 list \<Rightarrow> bool \<Rightarrow> ('d, bool) io" where
  "puts M s serial_inited = print_serial M s serial_inited"

definition shutdown_str :: "u8 list" where "shutdown_str = map of_char ''Shutdown''"

definition exit :: "'d machine \<Rightarrow> u32 \<Rightarrow> ('d, unit) io" where
  "exit M code =
     bindS (outS (out32 M 0xf4 code)) (\<lambda>_. forS (\<lambda>c. outS (out8 M 0x8900 c)) shutdown_str)"

definition ABORT_EXIT_STATUS :: u32 where "ABORT_EXIT_STATUS = 63"

definition abort :: "'d machine \<Rightarrow> ('d, unit) io" where "abort M = exit M ABORT_EXIT_STATUS"

definition ioremap :: "u64 \<Rightarrow> u64 \<Rightarrow> 'a heap_state_scheme \<Rightarrow> 'a heap_state_scheme \<times> u64" where
  "ioremap phys_addr sz s =
     (let base = phys_addr AND PAGE_MASK; offset = phys_addr - base;
          (s, p) = vmap phys_addr sz s
      in (s, p + offset))"
section \<open>Finding a table\<close>

text \<open>The tables the root table points to.\<close>

definition acpi_tables :: "mem \<Rightarrow> u64 \<Rightarrow> u64 list" where
  "acpi_tables m rsdt =
     map (\<lambda>i. ucast (ld32 m (rsdt + TABLE_BODY + 4 * of_nat i))) [0..<(unat (ld32 m (rsdt + TABLE_LENGTH)) - 36 + 3) div 4]"

definition first_table :: "mem \<Rightarrow> u32 \<Rightarrow> u64 list \<Rightarrow> u64" where
  "first_table m sig ts = (case find (\<lambda>t. t \<noteq> 0 \<and> ld32 m t = sig) ts of None \<Rightarrow> 0 | Some t \<Rightarrow> t)"

text \<open>The root pointer is the first one of the area, and points to a root table.\<close>

definition rsdp_at :: "mem \<Rightarrow> nat \<Rightarrow> u64 \<Rightarrow> bool" where
  "rsdp_at m k rsdt \<longleftrightarrow> k < 4096 \<and> ldptr m (of_nat (0xf0000 + 16 * k)) = 0x2052545020445352 \<and>
     (\<forall>j < k. ldptr m (of_nat (0xf0000 + 16 * j)) \<noteq> 0x2052545020445352) \<and>
     rsdt = ucast (ld32 m (of_nat (0xf0000 + 16 * k) + RSDP_RSDT)) \<and> rsdt \<noteq> 0 \<and> ld32 m rsdt = RSDT_SIGNATURE"

lemma rsdp_loop_first:
  assumes "j \<le> k" "rsdp_at m k rsdt"
  shows "rsdp_loop m (0xf0000 + 16 * j) = 0xf0000 + 16 * k"
  using assms(1)
proof (induction "k - j" arbitrary: j)
  case 0
  then show ?case using assms(2) by (subst rsdp_loop.simps) (simp add: rsdp_at_def)
next
  case (Suc n)
  then have "ldptr m (of_nat (0xf0000 + 16 * j)) \<noteq> 0x2052545020445352" "j < 4096"
    using assms(2) by (auto simp: rsdp_at_def)
  moreover have "rsdp_loop m (0xf0000 + 16 * (j + 1)) = 0xf0000 + 16 * k" using Suc by (intro Suc.hyps(1)) auto
  moreover have "0xf0000 + 16 * j + 16 = 0xf0000 + 16 * (j + 1)" by simp
  ultimately show ?case by (subst rsdp_loop.simps) (simp only: if_False, simp)
qed

lemma entries_step:
  fixes a stop :: nat
  assumes "a < stop"
  shows "(stop - a + 3) div 4 = Suc ((stop - (a + 4) + 3) div 4)"
proof -
  obtain d where d: "stop - a = Suc d" using assms by (metis Suc_diff_Suc)
  then have e: "stop - (a + 4) = d - 3" by (simp only: diff_diff_left [symmetric])
  show ?thesis
  proof (cases "d < 3")
    case True
    then have "d = 0 \<or> d = 1 \<or> d = 2" by linarith
    then show ?thesis unfolding d e by (elim disjE) simp_all
  next
    case False
    then obtain x where "d = x + 3" using le_Suc_ex [of 3 d] by (metis add.commute not_less)
    moreover have "(Suc (x + 3) + 3) div 4 = Suc ((x + 3) div 4)" using div_add_self2 [of 4 "x + 3"] by simp
    ultimately show ?thesis unfolding d e by simp
  qed
qed

lemma table_loop_finds:
  "table_loop m sig a stop = first_table m sig (map (\<lambda>i. ucast (ld32 m (of_nat (a + 4 * i)))) [0..<(stop - a + 3) div 4])"
proof (induction m sig a stop rule: table_loop.induct)
  case (1 m sig a stop)
  show ?case
  proof (cases "a < stop")
    case True
    let ?n = "(stop - (a + 4) + 3) div 4"
    have n: "(stop - a + 3) div 4 = Suc ?n" by (rule entries_step [OF True])
    let ?t = "ucast (ld32 m (of_nat a)) :: u64"
    let ?ts = "map (\<lambda>i. ucast (ld32 m (of_nat (a + 4 + 4 * i)))) [0..<?n] :: u64 list"
    have l: "map (\<lambda>i. ucast (ld32 m (of_nat (a + 4 * i))) :: u64) [0..<Suc ?n] = ?t # ?ts"
      unfolding map_upt_Suc by (simp add: algebra_simps)
    have "table_loop m sig a stop = first_table m sig (?t # ?ts)"
    proof (cases "?t \<noteq> 0 \<and> ld32 m ?t = sig")
      case found: True
      then show ?thesis using True by (subst table_loop.simps) (simp add: first_table_def Let_def)
    next
      case False
      have "table_loop m sig (a + 4) stop = first_table m sig ?ts" using "1.IH" [OF True refl False] .
      moreover have "table_loop m sig a stop = table_loop m sig (a + 4) stop"
        unfolding table_loop.simps [of m sig a] Let_def using True False by (simp only: if_True if_False)
      ultimately show ?thesis using False unfolding first_table_def find.simps by (simp only: if_False)
    qed
    then show ?thesis unfolding n l .
  next
    case False
    then show ?thesis by (subst table_loop.simps) (simp add: first_table_def)
  qed
qed

lemma find_table_entries:
  assumes "rsdp_at m k rsdt" "sig \<noteq> RSDP_SIGNATURE" "sig \<noteq> RSDT_SIGNATURE"
  shows "find_table m sig = Inr ([], first_table m sig (acpi_tables m rsdt))"
proof -
  let ?len = "ld32 m (rsdt + TABLE_LENGTH)"
  have loop: "rsdp_loop m 0xf0000 = 0xf0000 + 16 * k" using rsdp_loop_first [of 0 k, OF _ assms(1)] by simp
  have k: "0xf0000 + 16 * k \<noteq> 0x100000" using assms(1) by (auto simp: rsdp_at_def)
  have u32: "unat (ucast (x :: u32) :: u64) = unat x" for x
  proof -
    have "unat x < 2 ^ 32" by (rule less_le_trans [OF unsigned_less]) simp
    then have "unat x < 2 ^ 64" by simp
    then show ?thesis by (simp only: unsigned_ucast_eq len_words take_bit_nat_eq_self)
  qed
  have b: "unat rsdt < 2 ^ 32" "unat ?len < 2 ^ 32"
    using assms(1) u32 unsigned_less [of ?len] unsigned_less [of "ld32 m (of_nat (0xf0000 + 16 * k) + RSDP_RSDT)"]
    by (auto simp: rsdp_at_def)
  have e: "unat (rsdt + TABLE_BODY) = unat rsdt + 36" "unat (rsdt + ucast ?len) = unat rsdt + unat ?len"
    using b u32 [of ?len] by (subst unat_add_noov; simp add: TABLE_BODY_def)+
  have "of_nat (unat rsdt + 36 + 4 * i) = rsdt + TABLE_BODY + 4 * of_nat i" for i :: nat
    by (simp add: TABLE_BODY_def)
  then have "table_loop m sig (unat (rsdt + TABLE_BODY)) (unat (rsdt + ucast ?len)) = first_table m sig (acpi_tables m rsdt)"
    unfolding table_loop_finds e acpi_tables_def by simp
  moreover have "rsdt \<noteq> 0" "ld32 m rsdt = RSDT_SIGNATURE" "ucast (ld32 m (of_nat (0xf0000 + 16 * k) + RSDP_RSDT)) = rsdt"
    using assms(1) by (auto simp: rsdp_at_def)
  ultimately show ?thesis using assms(2,3) loop k by (simp add: find_table_def Let_def)
qed

text \<open>A machine with a root pointer at the start of the area, a root table with one entry, and the table it points to.\<close>

definition acpi_mem :: mem where
  "acpi_mem = (\<lambda>_. 0)
     (0xf0000 := 0x52, 0xf0001 := 0x53, 0xf0002 := 0x44, 0xf0003 := 0x20, 0xf0004 := 0x50, 0xf0005 := 0x54, 0xf0006 := 0x52,
      0xf0007 := 0x20, 0xf0011 := 0x20,
      0x2000 := 0x52, 0x2001 := 0x53, 0x2002 := 0x44, 0x2003 := 0x54, 0x2004 := 40, 0x2025 := 0x30,
      0x3000 := 0x41, 0x3001 := 0x50, 0x3002 := 0x49, 0x3003 := 0x43)"


section \<open>What is printed\<close>

text \<open>
  A serial port: what it has sent, whether the divisor latch is selected, and for how many looks at its status it is busy.
\<close>

definition uart :: "'d machine \<Rightarrow> ('d \<Rightarrow> u8 list) \<Rightarrow> ('d \<Rightarrow> bool) \<Rightarrow> ('d \<Rightarrow> nat) \<Rightarrow> bool" where
  "uart M sent dlab busy \<longleftrightarrow>
     (\<forall>d. \<exists>v d'. in8 M 0x3fd d = (v, d') \<and> (v AND 0x20 = 0 \<longleftrightarrow> 0 < busy d) \<and> busy d' = busy d - 1 \<and>
        sent d' = sent d \<and> dlab d' = dlab d) \<and>
     (\<forall>d. \<exists>v d'. in8 M 0x3fb d = (v, d') \<and> sent d' = sent d \<and> dlab d' = dlab d) \<and>
     (\<forall>d v. sent (out8 M 0x3fb v d) = sent d \<and> dlab (out8 M 0x3fb v d) = bit v 7) \<and>
     (\<forall>d c. sent (out8 M 0x3f8 c d) = (if dlab d then sent d else sent d @ [c]) \<and> dlab (out8 M 0x3f8 c d) = dlab d) \<and>
     (\<forall>d v. \<forall>p \<in> {0x3f9, 0x3fa, 0x3fc}. sent (out8 M p v d) = sent d \<and> dlab (out8 M p v d) = dlab d)"

definition crlf :: "u8 list \<Rightarrow> u8 list" where
  "crlf s = concat (map (\<lambda>c. if c = 0x0A then [0x0D, 0x0A] else [c]) s)"

lemma lsr_wait_ends:
  assumes "uart M sent dlab busy"
  shows "\<exists>d'. lsr_wait M d = Some d' \<and> sent d' = sent d \<and> dlab d' = dlab d"
proof (induction "busy d" arbitrary: d)
  case 0
  then obtain v d' where "in8 M 0x3fd d = (v, d')" "v AND 0x20 \<noteq> 0" "sent d' = sent d" "dlab d' = dlab d"
    using assms unfolding uart_def by (metis less_numeral_extra(3))
  then show ?case by (subst lsr_wait.simps) (simp add: serial_iobase_def)
next
  case (Suc n)
  then obtain v d1 where r: "in8 M 0x3fd d = (v, d1)" "v AND 0x20 = 0" "busy d1 = n" "sent d1 = sent d" "dlab d1 = dlab d"
    using assms unfolding uart_def by (metis diff_Suc_1 zero_less_Suc)
  from Suc.hyps(1) [OF r(3) [symmetric]] show ?case
    using r by (subst lsr_wait.simps) (simp add: serial_iobase_def)
qed

lemma serial_outb_sends:
  assumes "uart M sent dlab busy" "\<not> dlab d"
  shows "\<exists>d'. serial_outb M c d = Inr ((), d') \<and> sent d' = sent d @ [c] \<and> \<not> dlab d'"
proof -
  obtain d1 where d1: "lsr_wait M d = Some d1" "sent d1 = sent d" "dlab d1 = dlab d"
    using lsr_wait_ends [OF assms(1)] by blast
  have "sent (out8 M 0x3f8 c d1) = (if dlab d1 then sent d1 else sent d1 @ [c]) \<and> dlab (out8 M 0x3f8 c d1) = dlab d1"
    using assms(1) by (simp add: uart_def)
  then show ?thesis using d1 assms(2)
    by (simp add: serial_outb_def bindS_eval loopE_def outS_def serial_iobase_def)
qed

lemma serial_put_sends:
  assumes "uart M sent dlab busy" "\<not> dlab d"
  shows "\<exists>d'. serial_put M c d = Inr ((), d') \<and> sent d' = sent d @ crlf [c] \<and> \<not> dlab d'"
proof (cases "c = 0x0A")
  case True
  obtain d1 where d1: "serial_outb M 0x0D d = Inr ((), d1)" "sent d1 = sent d @ [0x0D]" "\<not> dlab d1"
    using serial_outb_sends [OF assms] by blast
  obtain d2 where "serial_outb M c d1 = Inr ((), d2)" "sent d2 = sent d1 @ [c]" "\<not> dlab d2"
    using serial_outb_sends [OF assms(1) d1(3)] by blast
  then show ?thesis using d1 True by (simp add: serial_put_def bindS_eval crlf_def)
next
  case False
  then show ?thesis using serial_outb_sends [OF assms, of c] by (simp add: serial_put_def crlf_def)
qed

lemma put_all_sends:
  assumes "uart M sent dlab busy" "\<not> dlab d"
  shows "\<exists>d'. forS (serial_put M) s d = Inr ((), d') \<and> sent d' = sent d @ crlf s \<and> \<not> dlab d'"
  using assms(2)
proof (induction s arbitrary: d)
  case (Cons c s)
  obtain d1 where d1: "serial_put M c d = Inr ((), d1)" "sent d1 = sent d @ crlf [c]" "\<not> dlab d1"
    using serial_put_sends [OF assms(1) Cons.prems] by blast
  obtain d2 where "forS (serial_put M) s d1 = Inr ((), d2)" "sent d2 = sent d1 @ crlf s" "\<not> dlab d2"
    using Cons.IH [OF d1(3)] by blast
  then show ?case using d1 by (simp add: bindS_eval crlf_def)
qed (simp add: returnS_def crlf_def)

lemma serial_init_quiet:
  assumes "uart M sent dlab busy"
  shows "\<exists>d'. serial_init M d = Inr ((), d') \<and> sent d' = sent d \<and> \<not> dlab d'"
proof -
  note u = assms [unfolded uart_def]
  obtain v d1 where d1: "in8 M 0x3fb d = (v, d1)" "sent d1 = sent d" using u by blast
  define d2 where "d2 = out8 M 0x3f9 0 (out8 M 0x3f8 1 (out8 M 0x3fb (v OR 0x80) d1))"
  have "bit (v OR 0x80) 7" by (simp add: bit_or_iff)
  then have s2: "sent d2 = sent d" using u d1(2) by (simp add: d2_def)
  obtain v3 d3 where d3: "in8 M 0x3fb d2 = (v3, d3)" "sent d3 = sent d2" using u by blast
  have "serial_init M d = Inr ((), out8 M 0x3fc 3 (out8 M 0x3fa 0 (out8 M 0x3fb 3 (out8 M 0x3f9 0 (out8 M 0x3fb (v3 AND NOT 0x80) d3)))))"
    using d1(1) d3(1) by (simp add: serial_init_def bindS_eval inS_def outS_def serial_iobase_def d2_def)
  moreover have "\<not> bit (3 :: u8) 7" by simp
  ultimately show ?thesis using u d3(2) s2 by simp
qed


text \<open>A port that is busy for one look after each character.\<close>

definition uart_machine :: "(u8 list \<times> bool \<times> nat) machine" where
  "uart_machine = idle_machine\<lparr>
     in8 := (\<lambda>p (s, l, b). if p = 0x3fd then (if 0 < b then 0 else 0x20, (s, l, b - 1)) else (0, (s, l, b))),
     out8 := (\<lambda>p v (s, l, b). if p = 0x3fb then (s, bit v 7, b)
       else if p = 0x3f8 \<and> \<not> l then (s @ [v], l, 1) else (s, l, b))\<rparr>"

section \<open>Mapping device memory\<close>

text \<open>One page is mapped to a given page; the functions of \<open>vmalloc.c\<close> take the pages of the tables only from the free list.\<close>

lemma vmap_one:
  fixes s :: "'a heap_state_scheme"
  assumes ok: "vm_ok root A xs s" "3 \<le> length xs" and root: "page_root s = root"
    and low: "\<And>lv e. xlate x86_format 4 (cells s) root va = Some (lv, e) \<Longrightarrow> lv \<le> 1"
  obtains s' A' xs' where "fst (install_page root phys va s) = s'" "vm_ok root A' xs' s'" "length xs \<le> 3 + length xs'"
    "page_root s' = root" "A' \<union> set xs' \<subseteq> A \<union> set xs"
    "\<And>va'. xlate x86_format 4 (cells s') root va' =
      (if same_entry 1 4 va va' then Some (1, page_flags phys) else xlate x86_format 4 (cells s) root va')"
proof -
  have wf: "wf_table x86_format 4 (cells s) root A" "free_inv s xs" "A \<inter> set xs = {}" using ok(1) by (auto simp: vm_ok_def)
  obtain s' p xs' A' where s': "install_pte root 1 va (page_flags phys) 0 s = (s', p)"
    "pte_installed 1 root va (page_flags phys) s s'" "free_inv s' xs'" "set xs' \<subseteq> set xs"
    "length xs \<le> 3 + length xs'" "wf_table x86_format 4 (cells s') root A'" "A' \<subseteq> A \<union> set xs"
    "A' \<inter> set xs' = {}"
    by (rule install_pte_cases [OF wf, of 1 "page_flags phys" va]) (use low ok(2) in \<open>auto simp: leaf_pte_def\<close>)
  have "page_root s' = root" using more_page_root [OF install_pte_more [OF s'(1)]] root by simp
  moreover have "vm_ok root A' xs' s'" using s'(3,6,8) by (simp add: vm_ok_def)
  moreover have "fst (install_page root phys va s) = s'" using s'(1) by (simp add: install_page_eq)
  moreover have "xlate x86_format 4 (cells s') root va' =
      (if same_entry 1 4 va va' then Some (1, page_flags phys) else xlate x86_format 4 (cells s) root va')" for va'
    using s'(2) page_flags_present by (simp add: pte_installed_def)
  ultimately show thesis using that s'(4,5,7) by blast
qed

definition pages_from :: "u64 \<Rightarrow> nat \<Rightarrow> u64 list" where
  "pages_from phys n = map (\<lambda>i. phys + PAGE_SIZE * of_nat i) [0..<n]"

lemma pages_from_Suc: "pages_from phys (Suc n) = phys # pages_from (phys + PAGE_SIZE) n"
  unfolding pages_from_def map_upt_Suc by (simp add: algebra_simps)

lemma vmap_loop_maps:
  fixes s :: "'a heap_state_scheme"
  assumes "vm_ok root A xs s" "3 * n \<le> length xs" "page_root s = root"
    and "\<And>i lv e. \<lbrakk>i < n; xlate x86_format 4 (cells s) root (va + PAGE_SIZE * of_nat i) = Some (lv, e)\<rbrakk>
      \<Longrightarrow> lv \<le> 1"
    and "unat va mod 4096 = 0" "unat va + 4096 * n \<le> 2 ^ 64" "n \<le> 2 ^ 36"
  shows "vm_mapped root va (pages_from phys n) s (vmap_loop n phys va s) \<and>
    (\<exists>xs' A'. vm_ok root A' xs' (vmap_loop n phys va s) \<and> A' \<union> set xs' \<subseteq> A \<union> set xs)"
  using assms
proof (induction n arbitrary: va s xs A phys)
  case 0
  then show ?case by (auto simp: vm_mapped_def pages_from_def)
next
  case (Suc n)
  let ?va = "va + PAGE_SIZE"
  have shift: "va + PAGE_SIZE * of_nat (Suc i) = ?va + PAGE_SIZE * of_nat i" for i
    by (simp add: algebra_simps)
  have low0: "lv \<le> 1" if "xlate x86_format 4 (cells s) root va = Some (lv, e)" for lv e
    using Suc.prems(4) [of 0] that by simp
  have three: "3 \<le> length xs" using Suc.prems(2) by simp
  obtain s2 A1 xs1 where one: "fst (install_page root phys va s) = s2" "vm_ok root A1 xs1 s2"
    "length xs \<le> 3 + length xs1" "page_root s2 = root" "A1 \<union> set xs1 \<subseteq> A \<union> set xs"
    "\<And>va'. xlate x86_format 4 (cells s2) root va' =
      (if same_entry 1 4 va va' then Some (1, page_flags phys) else xlate x86_format 4 (cells s) root va')"
    by (rule vmap_one [OF Suc.prems(1) three Suc.prems(3), of va phys]) (erule low0, rule that)
  have step: "vmap_loop (Suc n) phys va s = vmap_loop n (phys + PAGE_SIZE) ?va s2"
    using one(1) Suc.prems(3) by simp
  have sep: "\<not> same_entry 1 4 (va + PAGE_SIZE * of_nat i) (va + PAGE_SIZE * of_nat j)"
    if "i < Suc n" "j < Suc n" "i \<noteq> j" for i j
    using pages_not_same_entry [OF Suc.prems(5,6,7) that] .
  have low: "lv \<le> 1" if "i < n" "xlate x86_format 4 (cells s2) root (?va + PAGE_SIZE * of_nat i) = Some (lv, e)" for i lv e
    using that Suc.prems(4) [of "Suc i"] unfolding one(6) shift by (auto split: if_splits)
  have rest: "vm_mapped root ?va (pages_from (phys + PAGE_SIZE) n) s2 (vmap_loop n (phys + PAGE_SIZE) ?va s2) \<and>
    (\<exists>xs' A'. vm_ok root A' xs' (vmap_loop n (phys + PAGE_SIZE) ?va s2) \<and> A' \<union> set xs' \<subseteq> A1 \<union> set xs1)"
  proof (cases "n = 0")
    case True
    then show ?thesis using one(2) by (auto simp: vm_mapped_def pages_from_def)
  next
    case False
    then have va1: "unat ?va = unat va + 4096"
      using page_mult_unat [OF Suc.prems(6), of 1] by simp
    have prems: "3 * n \<le> length xs1" "unat ?va mod 4096 = 0" "unat ?va + 4096 * n \<le> 2 ^ 64" "n \<le> 2 ^ 36"
      using va1 Suc.prems(2,5,6,7) one(3) by (simp_all add: mod_simps)
    show ?thesis using Suc.IH [OF one(2) prems(1) one(4) low prems(2-4)] .
  qed
  have "vm_mapped root va (pages_from phys (Suc n)) s (vmap_loop (Suc n) phys va s)"
    unfolding step pages_from_Suc
    by (rule vm_mapped_Cons [OF one(6)]) (use rest sep [of "Suc _" 0] in \<open>auto simp: pages_from_def\<close>)
  then show ?case using rest one(5) unfolding step by blast
qed
lemma ioremap_maps:
  fixes s :: "'a heap_state_scheme"
  assumes "vm_ok root A xs s" "page_root s = root"
    and n: "n = (unat sz + 4095) div 4096" "n < 2 ^ 32" "3 * n \<le> length xs"
    and top: "unat (vfree_top s) mod 4096 = 0" "4096 * n \<le> unat (vfree_top s)"
    and low: "\<And>i lv e. \<lbrakk>i < n; xlate x86_format 4 (cells s) root (vfree_top s - PAGE_SIZE * of_nat n + PAGE_SIZE * of_nat i) =
      Some (lv, e)\<rbrakk> \<Longrightarrow> lv \<le> 1"
  shows "\<exists>s' va. ioremap phys sz s = (s', va + (phys - (phys AND PAGE_MASK))) \<and> unat va = unat (vfree_top s) - 4096 * n \<and>
    vm_mapped root va (pages_from (phys AND PAGE_MASK) n) s s' \<and> (\<exists>xs' A'. vm_ok root A' xs' s' \<and> A' \<union> set xs' \<subseteq> A \<union> set xs)"
proof -
  let ?va = "vfree_top s - PAGE_SIZE * of_nat n" and ?s = "s\<lparr>vfree_top := vfree_top s - PAGE_SIZE * of_nat n\<rparr>"
  note size = pages_of_size [OF n(1,2) top(2)]
  have run: "vmap phys sz s = (vmap_loop n (phys AND PAGE_MASK) ?va ?s, ?va)"
    using size(1,2) by (simp add: vmap_def alloc_vpages_def Let_def PAGE_MASK_def)
  have ok: "vm_ok root A xs ?s" "page_root ?s = root" using assms(1,2) by (simp_all add: vm_ok_def free_inv_def)
  have "vm_mapped root ?va (pages_from (phys AND PAGE_MASK) n) ?s (vmap_loop n (phys AND PAGE_MASK) ?va ?s) \<and>
    (\<exists>xs' A'. vm_ok root A' xs' (vmap_loop n (phys AND PAGE_MASK) ?va ?s) \<and> A' \<union> set xs' \<subseteq> A \<union> set xs)"
  proof (rule vmap_loop_maps [OF ok(1) n(3) ok(2)])
    show "unat ?va mod 4096 = 0" "unat ?va + 4096 * n \<le> 2 ^ 64" "n \<le> 2 ^ 36"
      using top n(2) less_imp_le [OF unat_lt_64 [of "vfree_top s"]] unfolding size(3)
      by (auto simp: mod_eq_0_iff_dvd intro: dvd_diff_nat)
    fix i lv e
    assume "i < n" "xlate x86_format 4 (cells ?s) root (?va + PAGE_SIZE * of_nat i) = Some (lv, e)"
    then show "lv \<le> 1" using low [of i lv e] by simp
  qed
  moreover have "vm_mapped root ?va ps ?s = vm_mapped root ?va ps s" for ps
    by (intro ext) (simp add: vm_mapped_def)
  ultimately show ?thesis unfolding ioremap_def run using size(3)
    by (intro exI [of _ "vmap_loop n (phys AND PAGE_MASK) ?va ?s"] exI [of _ ?va]) simp
qed

text \<open>
  The number of pages is that of the size, and not of the range: of a range of two bytes at the end of a page, the second byte has no
  translation.
\<close>

lemma ioremap_page_crossing:
  "\<exists>s'. ioremap 0xfed00fff 2 vm_sample = (s', 0x3fffffff) \<and>
     xlate x86_format 4 (cells s') 0x1000 0x3ffff000 = Some (1, page_flags 0xfed00000) \<and>
     xlate x86_format 4 (cells s') 0x1000 0x40000000 = None"
proof -
  have "\<exists>s' va. ioremap 0xfed00fff 2 vm_sample = (s', va + (0xfed00fff - (0xfed00fff AND PAGE_MASK))) \<and>
    unat va = unat (0x40000000 :: u64) - 4096 * 1 \<and> vm_mapped 0x1000 va (pages_from (0xfed00fff AND PAGE_MASK) 1) vm_sample s' \<and>
    (\<exists>xs' A'. vm_ok 0x1000 A' xs' s' \<and> A' \<union> set xs' \<subseteq> {0x1000} \<union> set [0x2000, 0x3000, 0x4000, 0x5000])"
    using ioremap_maps [where n = 1 and sz = 2 and phys = "0xfed00fff", OF vm_sample_ok(1,4)] vm_sample_ok(2,3) by simp
  then obtain s' va where s': "ioremap 0xfed00fff 2 vm_sample = (s', va + 0xfff)" "unat va = unat (0x3ffff000 :: u64)"
    "vm_mapped 0x1000 va [0xfed00000] vm_sample s'"
    by (auto simp: pages_from_def PAGE_MASK_def)
  then have va: "va = 0x3ffff000" by (simp only: word_unat_eq_iff)
  have "\<not> same_entry 1 4 va 0x40000000" unfolding same_entry_1_4 va by code_simp
  then show ?thesis using s' vm_sample_ok(2) va unfolding vm_mapped_def by simp
qed
end
