(* ===== verification/Spec2Isabelle.thy ===== *)
theory Spec2Isabelle
  imports Prelude Libcflat CString CellMem AllocPage RadixTable X86Vm Printf Ept Access AllocPhys Vmalloc Alloc Report Argv DeviceIO Pci Apic IntelIommu Virtio KvmClock Desc Smp VmxDefs Vmcs Stack VmxTest Sieve DeviceTree VirtioBind PciHost PciDevs ChrTestdev Platform
begin

text \<open>
  A verification library for the kvm-unit-tests guest code in \<open>src/guest\<close>: small programs that run
  without an operating system inside a virtual machine and test it. The program has two layers. The runtime
  library (\<open>lib\<close>, with a directory per architecture) brings memory management, page tables, strings,
  formatted output, test reports, interrupts, other processors and device drivers; the tests
  (\<open>x86\<close>, \<open>arm\<close>, \<open>powerpc\<close>, \<open>s390x\<close>) are programs on top of it. The model is of the 64-bit x86 build.

  \<^bold>\<open>How the code is modelled.\<close> Integers keep their width: \<open>u8\<close>, \<open>u16\<close>, \<open>u32\<close> and \<open>u64\<close> are words and
  wrap as in C; an \<open>int\<close> that only counts and cannot wrap is a \<open>nat\<close> or an \<open>int\<close>. A failed \<open>assert\<close>, an
  \<open>abort\<close>, an access outside a fixed array, an access through the page tables that faults, a division by zero
  and a loop that does not end are the errors of the datatype \<open>err\<close> of \<open>Prelude\<close>, so that an operation
  which may stop returns \<open>err + 'a\<close>, sequenced by \<open>bindE\<close>. A loop whose end is not evident is
  a \<open>partial_function (option)\<close> whose \<open>None\<close> is not returning (\<open>loopE\<close> makes it the error
  \<open>Diverges\<close>); the theorems about such loops state that they return. No definition uses fuel. Global
  variables are the fields of a record that is passed along. Hardware is a parameter: the record
  \<open>machine\<close> of \<open>DeviceIO\<close> has a function for every kind of access, on a state of any type, and the
  properties that need a law of the device state it as a hypothesis and instantiate it in their witness.

  \<^bold>\<open>Theories and code.\<close>
  \<^item> \<open>Prelude\<close>: words, errors and the facts shared by all.
  \<^item> \<open>Libcflat\<close>: \<open>lib/libcflat.h\<close>, \<open>lib/bitops.h\<close>. \<open>CString\<close>: \<open>lib/string.c\<close>, \<open>lib/util.c\<close>, over
    a byte memory \<open>u64 \<Rightarrow> u8\<close>. \<open>Argv\<close>: \<open>lib/argv.c\<close>, over the same memory. \<open>Printf\<close>: \<open>lib/printf.c\<close>, on
    lists of characters. \<open>Report\<close>: \<open>lib/report.c\<close>.
  \<^item> \<open>CellMem\<close>: memory as 64-bit cells at aligned addresses, \<open>lib/x86/asm/page.h\<close>. \<open>AllocPage\<close>:
    \<open>lib/alloc_page.c\<close>, its free list linked through the free pages. \<open>AllocPhys\<close>: \<open>lib/alloc_phys.c\<close>.
    \<open>Vmalloc\<close>: \<open>lib/vmalloc.c\<close>. \<open>Alloc\<close>: \<open>lib/alloc.c\<close>, whose \<open>malloc\<close> goes through the allocator
    \<open>alloc_ops\<close> points at, in memory translated by the page tables once these are installed.
  \<^item> \<open>RadixTable\<close>: the format of a radix tree of page tables and its walk, the specification of the
    three kinds of table: \<open>X86Vm\<close> (\<open>lib/x86/vm.c\<close>), \<open>Ept\<close> (the nested tables of \<open>x86/vmx.c\<close>) and
    \<open>IntelIommu\<close> (\<open>lib/x86/intel-iommu.c\<close>).
  \<^item> \<open>Access\<close>: \<open>x86/access.c\<close>, the permission tests: the enumeration of vectors, the prediction of
    what an access does, and the check against the processor.
  \<^item> \<open>Pci\<close>: \<open>lib/pci.c\<close>, \<open>lib/x86/asm/pci.h\<close>. \<open>Apic\<close>: \<open>lib/x86/apic.c\<close>. \<open>Virtio\<close>: \<open>lib/virtio.c\<close>,
    \<open>lib/virtio-mmio.c\<close>. \<open>KvmClock\<close>: \<open>x86/kvmclock.c\<close>.
  \<^item> \<open>Desc\<close>: \<open>lib/x86/desc.c\<close>, \<open>isr.c\<close>, \<open>fault_test.c\<close>, \<open>usermode.c\<close>. \<open>Smp\<close>: \<open>lib/x86/smp.c\<close>,
    \<open>fwcfg.c\<close>.
  \<^item> \<open>VmxDefs\<close>: the constants of \<open>x86/vmx.h\<close>. \<open>Vmcs\<close>: \<open>x86/vmx.c\<close>, the set-up of VMX and of a VMCS
    and the tests of the VMCS instructions. \<open>VmxTest\<close>: the running of a test, the calls of the guest and the choice of tests.
  \<^item> \<open>Stack\<close>: \<open>lib/stack.c\<close>, \<open>lib/x86/stack.c\<close>. \<open>Sieve\<close>: \<open>x86/sieve.c\<close>.
  \<^item> \<open>DeviceTree\<close>: \<open>lib/devicetree.c\<close>, with libfdt as the parameter \<open>fdt_lib\<close>. \<open>VirtioBind\<close>: the
    search of \<open>lib/virtio-mmio.c\<close> for a device. \<open>PciHost\<close>: \<open>lib/pci-host-generic.c\<close>, over which the functions
    of \<open>Pci\<close> run as they do over the ports of x86. \<open>PciDevs\<close>: \<open>lib/pci-testdev.c\<close>, \<open>lib/pci-edu.c\<close>.
    \<open>ChrTestdev\<close>: \<open>lib/chr-testdev.c\<close>.
  \<^item> \<open>Platform\<close>: \<open>lib/x86/acpi.c\<close>, \<open>setup.c\<close>, \<open>io.c\<close>, \<open>lib/abort.c\<close>.
  \<^bold>\<open>Interfaces.\<close> The locale \<open>block_allocator\<close> (in \<open>Alloc\<close>) is the contract between \<open>malloc\<close>/\<open>free\<close> and
  the allocator behind them: a block is where it was given, is usable, and keeps its contents. It is interpreted by the
  early allocator (\<open>early\<close>) and the virtual one (\<open>virt\<close>), and the round trip of \<open>memalign\<close> and
  \<open>free\<close> is proved once. The locale \<open>radix\<close> (in \<open>RadixTable\<close>) is the contract of the step that makes
  sure an entry points to a next table; inside it, that a descent over such steps maps the address and leaves
  all other translations alone is proved once, and interpreted by the tables of the processor (\<open>x86\<close>), the nested
  ones (\<open>ept\<close>) and those of the IOMMU (\<open>vtd\<close>).

  \<^bold>\<open>Parts that run beside each other.\<close> \<open>Virtio.vq_run\<close> interleaves the driver of a virtqueue with the device,
  \<open>KvmClock.clock_run\<close> the readers of the clock on several processors at the granularity of their atomic
  accesses, and \<open>Smp.smp_run\<close> the statements of \<open>__on_cpu\<close> and of the interrupt handler on any number of processors.
  Their theorems are by induction over the runs from an invariant kept by each step: buffers are
  neither lost nor duplicated, the clock never goes back, a function called on another processor is run
  exactly once and before a waiting call returns, and no call is stuck.

  \<^bold>\<open>What the groups of lemmas show.\<close> Allocators: the free list is the list of pages given back, an allocation takes
  a run of free pages, aligned as asked, and blocks do not overlap. Page tables: installing an entry makes the address
  translate as asked and no other address differently; look-ups agree with the walk of the hardware; splitting a large
  page keeps every translation. Strings and output: each function against its mathematical meaning, on every
  branch. Reports: the prefix is a stack and the counters add up. Permission tests: the
  prediction of \<open>access.c\<close> agrees with a walk that checks permissions level by level. Drivers: what
  is written to the device, in which order, and which answers are taken. Exceptions: the entries written lead where
  they should, a fault goes to the handler registered for it, and the verdict of a test is the fault it had.

  \<^bold>\<open>Bounds.\<close> Addresses and sizes are bounded by 64 bits and the theorems say where a sum must not wrap. Queues have at
  most \<open>2 ^ 15\<close> descriptors, capability lists at most 255 steps, processors number less than \<open>2 ^ 29\<close>, so that the
  32-bit counter of active ones cannot become negative.

  \<^bold>\<open>Not modelled.\<close> \<open>lib/libfdt\<close> is a third-party library; what uses it only to look at the device tree
  is left out or takes what it finds as a parameter. Assembly (\<open>*.S\<close>, start-up code, entry points, \<open>realmode.c\<close>,
  most of \<open>emulator.c\<close>, \<open>svm.c\<close>, \<open>vmx_tests.c\<close> and \<open>taskswitch2.c\<close>) tests single instructions of the processor; its meaning
  is that of the processor, which is outside the source. Tests whose every step is an access to a device or a model-specific register
  followed by a comparison have no behaviour without a model of that device. The 32-bit branches of the x86 code and the
  other architectures are separate builds. Spinlocks are modelled in \<open>Smp\<close> only; elsewhere one processor runs.
\<close>

end
